(* ===== verification/FluxPrelude.thy ===== *)
theory FluxPrelude
  imports Main "HOL-Library.Word" "HOL-Library.Signed_Division" "HOL-Library.Monad_Syntax"
begin

text \<open>
  Shared vocabulary of the development: bytes, the unsigned 64-bit arithmetic of
  \<open>size_t\<close> where the code subtracts or converts, failures as \<open>None\<close>, and the
  generic facts on lists, sums and options that the component theories use.

  \<^item> \<open>size_t\<close> values are \<open>nat\<close>; a subtraction that may go below zero is
    \<open>usub\<close>, which wraps at \<open>2 ^ 64\<close>; a conversion from a signed 64-bit value is
    \<open>size_of_int\<close>.
  \<^item> \<open>int32_t\<close> and \<open>int64_t\<close> values are \<open>int\<close>, their ranges are stated in the
    invariants; C++ division is \<open>sdiv\<close> (it truncates towards zero).
  \<^item> an operation whose precondition is checked by \<open>assert\<close> (or whose violation is
    undefined behaviour, such as a division by zero) returns an \<open>option\<close>; \<open>None\<close>
    is the failed assertion.
\<close>

unbundle bit_operations_syntax

named_theorems inv_intros "preservation of the components' invariants"
named_theorems abs_simps "effect of the operations on the abstract views"

type_synonym byte = "8 word"

subsection \<open>Unsigned 64-bit arithmetic\<close>

definition usub :: "nat \<Rightarrow> nat \<Rightarrow> nat" where
  "usub a b = (if b \<le> a then a - b else a + 2 ^ 64 - b)"

definition size_of_int :: "int \<Rightarrow> nat" where
  "size_of_int x = nat (x mod 2 ^ 64)"

text \<open>The two's complement reading of an unsigned result, at 64 and at 32 bits.\<close>

definition int64_of :: "int \<Rightarrow> int" where
  "int64_of x = (x + 2 ^ 63) mod 2 ^ 64 - 2 ^ 63"

definition int32_of :: "int \<Rightarrow> int" where
  "int32_of x = (x + 2 ^ 31) mod 2 ^ 32 - 2 ^ 31"

lemma int32_of_range [simp]: "- (2 ^ 31) \<le> x \<Longrightarrow> x < 2 ^ 31 \<Longrightarrow> int32_of x = x"
  by (simp add: int32_of_def)

lemma int64_of_range [simp]: "- (2 ^ 63) \<le> x \<Longrightarrow> x < 2 ^ 63 \<Longrightarrow> int64_of x = x"
  by (simp add: int64_of_def)

lemma usub_le [simp]: "b \<le> a \<Longrightarrow> usub a b = a - b"
  by (simp add: usub_def)

lemma size_of_int_range [simp]: "0 \<le> x \<Longrightarrow> x < 2 ^ 64 \<Longrightarrow> size_of_int x = nat x"
  by (simp add: size_of_int_def)

lemma sdiv_nonneg:
  fixes a b :: int
  assumes "0 \<le> a" and "0 < b"
  shows "a sdiv b = a div b"
  using assms by (cases "a = 0") (simp_all add: signed_divide_int_def)

lemma div_pos_less:
  fixes a b :: int
  shows "0 \<le> a \<Longrightarrow> 0 < b \<Longrightarrow> a < n \<Longrightarrow> a div b < n"
  using zdiv_mono2 [of a 1 b] by simp

lemma size_of_div:
  fixes a b :: int
  assumes "0 \<le> a" and "0 < b" and "a < 2 ^ 64"
  shows "size_of_int (a sdiv b) = nat (a div b)"
  using assms div_pos_less [of a b "2 ^ 64"] by (simp add: pos_imp_zdiv_nonneg_iff sdiv_nonneg)

lemma le_div_iff:
  fixes k x b :: int
  assumes "0 < b"
  shows "k \<le> x div b \<longleftrightarrow> k * b \<le> x"
proof
  assume "k \<le> x div b"
  then have "k * b \<le> x div b * b" using assms by simp
  also have "\<dots> \<le> x" using assms by (simp add: minus_mod_eq_div_mult [symmetric])
  finally show "k * b \<le> x" .
next
  assume "k * b \<le> x"
  then have "k * b div b \<le> x div b" using assms by (rule zdiv_mono1)
  then show "k \<le> x div b" using assms by simp
qed

lemma div_less_iff:
  fixes k x b :: int
  assumes "0 < b"
  shows "x div b < k \<longleftrightarrow> x < k * b"
  using le_div_iff [OF assms, of k x] by linarith

lemma div_eq_iff_between:
  fixes k x b :: int
  assumes "0 < b"
  shows "x div b = k \<longleftrightarrow> k * b \<le> x \<and> x < (k + 1) * b"
  using le_div_iff [OF assms, of k x] div_less_iff [OF assms, of x "k + 1"] by linarith

text \<open>The number of blocks of length \<open>b\<close> that cover \<open>n > 0\<close> bytes.\<close>

lemma ceil_div_bounds:
  fixes n b :: int
  assumes "0 < b" and "0 < n"
  shows "((n + b - 1) div b - 1) * b < n" and "n \<le> (n + b - 1) div b * b" and "0 < (n + b - 1) div b"
proof -
  let ?q = "(n + b - 1) div b"
  have eq: "?q * b + (n + b - 1) mod b = n + b - 1" by simp
  have lo: "0 \<le> (n + b - 1) mod b" and hi: "(n + b - 1) mod b < b"
    using assms by simp_all
  have "?q * b \<le> n + b - 1" using eq lo by linarith
  then show "(?q - 1) * b < n" by (simp add: left_diff_distrib)
  show "n \<le> ?q * b" using eq hi by linarith
  show "0 < ?q" using assms by (simp add: pos_imp_zdiv_pos_iff)
qed

lemma div_less_ceil:
  fixes x n b :: int
  assumes "0 < b" and "0 \<le> x" and "x < n"
  shows "x div b < (n + b - 1) div b"
proof -
  have "x div b * b \<le> x" using assms(1) by (simp add: minus_mod_eq_div_mult [symmetric])
  also have "x < n" by fact
  also have "n \<le> (n + b - 1) div b * b" using ceil_div_bounds(2) assms by simp
  finally show ?thesis using assms(1) by (simp add: mult_less_cancel_right)
qed

subsection \<open>Counting and sums\<close>

lemma card_filter_sum: "card {i. i < n \<and> P i} = (\<Sum>i<n. of_bool (P i))" for n :: nat
proof -
  have "{i. i < n \<and> P i} = {i \<in> {..<n}. P i}" by auto
  then show ?thesis by (simp add: sum.If_cases of_bool_def Int_def)
qed

lemma card_less_Suc_filter:
  "card {i. i < Suc n \<and> P i} = card {i. i < n \<and> P i} + of_bool (P n)" for n :: nat
  by (simp add: card_filter_sum)

lemma sum_list_upt: "(\<Sum>i\<leftarrow>[a..<b]. f i) = (\<Sum>i\<in>{a..<b}. f i)"
  for f :: "nat \<Rightarrow> 'a::comm_monoid_add"
  by (simp add: sum_list_distinct_conv_sum_set)

lemma sum_int_split:
  fixes f :: "int \<Rightarrow> int"
  assumes "a \<le> c" and "c \<le> b"
  shows "(\<Sum>x\<in>{a..<b}. f x) = (\<Sum>x\<in>{a..<c}. f x) + (\<Sum>x\<in>{c..<b}. f x)"
proof -
  have "{a..<b} = {a..<c} \<union> {c..<b}" using assms by auto
  then show ?thesis by (simp only:) (rule sum.union_disjoint, auto)
qed

lemma find_upt_Some:
  "List.find P [a..<b] = Some i \<longleftrightarrow> a \<le> i \<and> i < b \<and> P i \<and> (\<forall>j. a \<le> j \<and> j < i \<longrightarrow> \<not> P j)"
proof (induction "b - a" arbitrary: a)
  case 0
  then show ?case by auto
next
  case (Suc n)
  then have ab: "a < b" by simp
  then have cons: "[a..<b] = a # [Suc a..<b]" by (simp add: upt_conv_Cons)
  have IH: "List.find P [Suc a..<b] = Some i \<longleftrightarrow>
      Suc a \<le> i \<and> i < b \<and> P i \<and> (\<forall>j. Suc a \<le> j \<and> j < i \<longrightarrow> \<not> P j)"
    using Suc by simp
  show ?case
  proof (cases "P a")
    case True
    then show ?thesis using ab by (auto simp: cons)
  next
    case False
    then show ?thesis unfolding cons using IH
      by (auto simp: Suc_le_eq) (metis le_eq_less_or_eq)+
  qed
qed

lemma find_upt_None: "List.find P [a..<b] = None \<longleftrightarrow> (\<forall>j. a \<le> j \<and> j < b \<longrightarrow> \<not> P j)"
  by (auto simp: find_None_iff)

end
