(* ===== verification/Bitfield.thy ===== *)
theory Bitfield
  imports FluxPrelude
begin

text \<open>
  The bit arrays of \<open>src/bitfield.h\<close>, \<open>src/bitfield.cc\<close> and the expression
  templates of \<open>src/array_fun.h\<close>: bit \<open>i\<close> of a bitfield is bit \<open>7 - i mod 8\<close> of
  byte \<open>i div 8\<close>. The template parameter \<open>Array\<close> is anything that can be indexed
  (a pointer, or an expression such as \<open>~array(a) & array(b)\<close>, evaluated byte by byte),
  so it is a function from indices to bytes. The counting and searching routines are
  proved equal to their set-based specifications.
\<close>

subsection \<open>Expression templates over byte arrays\<close>

type_synonym barr = "nat \<Rightarrow> byte"

definition array :: "byte list \<Rightarrow> barr" where
  "array t = (\<lambda>i. t ! i)"

definition arr_and :: "barr \<Rightarrow> barr \<Rightarrow> barr" where
  "arr_and lhs rhs = (\<lambda>i. lhs i AND rhs i)"

definition arr_or :: "barr \<Rightarrow> barr \<Rightarrow> barr" where
  "arr_or lhs rhs = (\<lambda>i. lhs i OR rhs i)"

definition arr_not :: "barr \<Rightarrow> barr" where
  "arr_not arg = (\<lambda>i. NOT (arg i))"

subsection \<open>Testing and flipping a bit\<close>

definition lastByteMask :: "nat \<Rightarrow> byte" where
  "lastByteMask nbits =
     (if nbits = 0 then 0
      else let s = nbits mod 8 in
        if s = 0 then 0xff else word_of_int (drop_bit s (- 256)))"

text \<open>The mask \<open>128 >> (index % 8)\<close> that several routines build.\<close>

definition bit_mask :: "nat \<Rightarrow> byte" where
  "bit_mask index = drop_bit (index mod 8) 128"

text \<open>
  \<open>assert(index < nbits)\<close> is a precondition here; the callers that take an index from
  outside check it in their own models and return \<open>None\<close> where it fails.
\<close>

definition test :: "barr \<Rightarrow> nat \<Rightarrow> nat \<Rightarrow> bool" where
  "test bitfield nbits index \<longleftrightarrow> bitfield (index div 8) AND bit_mask index \<noteq> 0"

text \<open>\<open>assert(byteIndex <= length)\<close>; an index past the array is undefined behaviour.\<close>

definition flipBit :: "byte list \<Rightarrow> nat \<Rightarrow> nat \<Rightarrow> byte list option" where
  "flipBit data len bitIndex =
     (let byteIndex = bitIndex div 8 in
      if byteIndex \<le> len \<and> byteIndex < length data
      then Some (data[byteIndex := data ! byteIndex XOR bit_mask bitIndex])
      else None)"

subsection \<open>Counting set bits\<close>

definition cntbits :: "nat list" where
  "cntbits = [
    0, 1, 1, 2, 1, 2, 2, 3, 1, 2, 2, 3, 2, 3, 3, 4, 1, 2, 2, 3, 2, 3, 3, 4,
    2, 3, 3, 4, 3, 4, 4, 5, 1, 2, 2, 3, 2, 3, 3, 4, 2, 3, 3, 4, 3, 4, 4, 5,
    2, 3, 3, 4, 3, 4, 4, 5, 3, 4, 4, 5, 4, 5, 5, 6, 1, 2, 2, 3, 2, 3, 3, 4,
    2, 3, 3, 4, 3, 4, 4, 5, 2, 3, 3, 4, 3, 4, 4, 5, 3, 4, 4, 5, 4, 5, 5, 6,
    2, 3, 3, 4, 3, 4, 4, 5, 3, 4, 4, 5, 4, 5, 5, 6, 3, 4, 4, 5, 4, 5, 5, 6,
    4, 5, 5, 6, 5, 6, 6, 7, 1, 2, 2, 3, 2, 3, 3, 4, 2, 3, 3, 4, 3, 4, 4, 5,
    2, 3, 3, 4, 3, 4, 4, 5, 3, 4, 4, 5, 4, 5, 5, 6, 2, 3, 3, 4, 3, 4, 4, 5,
    3, 4, 4, 5, 4, 5, 5, 6, 3, 4, 4, 5, 4, 5, 5, 6, 4, 5, 5, 6, 5, 6, 6, 7,
    2, 3, 3, 4, 3, 4, 4, 5, 3, 4, 4, 5, 4, 5, 5, 6, 3, 4, 4, 5, 4, 5, 5, 6,
    4, 5, 5, 6, 5, 6, 6, 7, 3, 4, 4, 5, 4, 5, 5, 6, 4, 5, 5, 6, 5, 6, 6, 7,
    4, 5, 5, 6, 5, 6, 6, 7, 5, 6, 6, 7, 6, 7, 7, 8]"

definition countBit32 :: "32 word \<Rightarrow> nat" where
  "countBit32 n =
     cntbits ! unat (n AND 0xff) + cntbits ! unat (drop_bit 8 n AND 0xff) +
     cntbits ! unat (drop_bit 16 n AND 0xff) + cntbits ! unat (drop_bit 24 n AND 0xff)"

text \<open>\<open>memcpy\<close> of four bytes into a \<open>uint32_t\<close> (little-endian).\<close>

definition load32 :: "barr \<Rightarrow> nat \<Rightarrow> 32 word" where
  "load32 b i = ucast (b i) OR push_bit 8 (ucast (b (i + 1))) OR
     push_bit 16 (ucast (b (i + 2))) OR push_bit 24 (ucast (b (i + 3)))"

definition countSetBit :: "barr \<Rightarrow> nat \<Rightarrow> nat" where
  "countSetBit bitfield nbits =
     (if nbits = 0 then 0
      else
        let size = 4;
            len = (nbits + 7) div 8;
            (len, count) =
              (if nbits mod 32 \<noteq> 0
               then (len - 1, countBit32 (ucast (bitfield (len - 1) AND lastByteMask nbits)))
               else (len, 0));
            to' = len div size;
            count = count + (\<Sum>i\<leftarrow>[0..<to']. countBit32 (load32 bitfield (i * size)))
        in count + (\<Sum>i\<leftarrow>[len - len mod size..<len]. countBit32 (ucast (bitfield i))))"

definition countSetBitSlow :: "barr \<Rightarrow> nat \<Rightarrow> nat" where
  "countSetBitSlow bitfield nbits =
     (if nbits = 0 then 0
      else
        let to' = (nbits + 7) div 8;
            count = (if to' > 1 then (\<Sum>i\<leftarrow>[0..<to' - 1]. cntbits ! unat (bitfield i)) else 0)
        in count + cntbits ! unat (bitfield (to' - 1) AND lastByteMask nbits))"

subsection \<open>Searching set bits\<close>

definition getFirstSetBitIndex :: "barr \<Rightarrow> nat \<Rightarrow> nat option" where
  "getFirstSetBitIndex bitfield nbits = List.find (\<lambda>i. test bitfield nbits i) [0..<nbits]"

fun first_n_set :: "barr \<Rightarrow> nat \<Rightarrow> nat \<Rightarrow> nat list \<Rightarrow> nat list" where
  "first_n_set bitfield nbits n [] = []"
| "first_n_set bitfield nbits n (i # is) =
     (if test bitfield nbits i
      then i # (if n - 1 = 0 then [] else first_n_set bitfield nbits (n - 1) is)
      else first_n_set bitfield nbits n is)"

text \<open>The indexes appended to \<open>out\<close>; the C++ result is their number.\<close>

definition getFirstNSetBitIndex :: "nat \<Rightarrow> barr \<Rightarrow> nat \<Rightarrow> nat list" where
  "getFirstNSetBitIndex n bitfield nbits =
     (if n = 0 then [] else first_n_set bitfield nbits n [0..<nbits])"

subsection \<open>Bits of an array\<close>

definition bitat :: "barr \<Rightarrow> nat \<Rightarrow> bool" where
  "bitat b i \<longleftrightarrow> bit (b (i div 8)) (7 - i mod 8)"

lemma bit_mask_exp: "bit_mask i = 2 ^ (7 - i mod 8)"
proof -
  have "i mod 8 < 8" by simp
  then have "i mod 8 \<in> {0, 1, 2, 3, 4, 5, 6, 7}" by auto
  then show ?thesis by (auto simp: bit_mask_def)
qed

lemma test_bitat [simp]: "test b n i = bitat b i"
  by (simp add: test_def bitat_def bit_mask_exp and_exp_eq_0_iff_not_bit)

lemma seven_minus_less [simp]: "7 - k < (8::nat)"
  by simp

lemma bitat_arr [simp]:
  "bitat (arr_and a b) i \<longleftrightarrow> bitat a i \<and> bitat b i"
  "bitat (arr_or a b) i \<longleftrightarrow> bitat a i \<or> bitat b i"
  "bitat (arr_not a) i \<longleftrightarrow> \<not> bitat a i"
  by (simp_all add: bitat_def arr_and_def arr_or_def arr_not_def bit_and_iff bit_or_iff bit_not_iff)

lemma bit_lastByteMask:
  assumes "k < 8"
  shows "bit (lastByteMask n) k \<longleftrightarrow> n \<noteq> 0 \<and> (n mod 8 = 0 \<or> 8 - n mod 8 \<le> k)"
proof -
  have k: "k \<in> {0, 1, 2, 3, 4, 5, 6, 7}" using assms by auto
  have "n mod 8 < 8" by simp
  then have "n mod 8 \<in> {0, 1, 2, 3, 4, 5, 6, 7}" by auto
  then show ?thesis using k by (auto simp: lastByteMask_def Let_def bit_iff_odd)
qed

subsection \<open>Counting: the table, the words and the whole array\<close>

text \<open>Reference: the number of set bits of a byte, and of the first \<open>n\<close> bits of an array.\<close>

definition popbyte :: "byte \<Rightarrow> nat" where
  "popbyte w = card {k. k < 8 \<and> bit w k}"

definition countbits :: "barr \<Rightarrow> nat \<Rightarrow> nat" where
  "countbits b n = card {i. i < n \<and> bitat b i}"

text \<open>The table doubles: its second half is the first with one more bit.\<close>

primrec doubling :: "nat \<Rightarrow> nat list" where
  "doubling 0 = [0]"
| "doubling (Suc k) = doubling k @ map Suc (doubling k)"

lemma length_doubling [simp]: "length (doubling k) = 2 ^ k"
  by (induction k) simp_all

lemma cntbits_doubling: "cntbits = doubling 8"
proof -
  have "doubling 8 = doubling (Suc (Suc (Suc (Suc (Suc (Suc (Suc (Suc 0))))))))"
    by (simp add: numeral_eq_Suc del: doubling.simps)
  then show ?thesis by (simp add: cntbits_def)
qed

lemma bit_add_exp: "n < 2 ^ k \<Longrightarrow> bit (n + 2 ^ k) j \<longleftrightarrow> (if j = k then True else bit n j)" for n :: nat
proof -
  assume n: "n < 2 ^ k"
  then have "take_bit k n = n" by (simp add: take_bit_nat_eq_self_iff)
  then have nb: "\<not> bit n j" if "k \<le> j" for j using that by (metis bit_take_bit_iff leD)
  have "n + 2 ^ k = n OR 2 ^ k"
    by (rule disjunctive_add_eq_or) (simp add: and_exp_eq_0_iff_not_bit nb)
  then show ?thesis by (auto simp: bit_or_iff bit_exp_iff)
qed

lemma doubling_nth: "n < 2 ^ k \<Longrightarrow> doubling k ! n = card {j. j < k \<and> bit n j}"
proof (induction k arbitrary: n)
  case 0
  then show ?case by simp
next
  case (Suc k)
  show ?case
  proof (cases "n < 2 ^ k")
    case True
    then have "take_bit k n = n" by (simp add: take_bit_nat_eq_self_iff)
    then have "\<not> bit n k" by (metis bit_take_bit_iff less_irrefl)
    with True Suc.IH [OF True] show ?thesis
      by (simp add: nth_append card_less_Suc_filter)
  next
    case False
    define m where "m = n - 2 ^ k"
    have m: "m < 2 ^ k" and n: "n = m + 2 ^ k"
      using False Suc.prems by (simp_all add: m_def)
    have "{j. j < k \<and> bit n j} = {j. j < k \<and> bit m j}"
      using bit_add_exp [OF m] by (auto simp: n)
    moreover have "bit n k" using bit_add_exp [OF m] by (simp add: n)
    ultimately show ?thesis using Suc.IH [OF m] m
      by (simp add: n nth_append card_less_Suc_filter)
  qed
qed

lemma cntbits_popbyte: "cntbits ! unat w = popbyte w" for w :: byte
proof -
  have lt: "unat w < 2 ^ 8" using unsigned_less [of w] by simp
  have "{j. j < 8 \<and> bit (unat w) j} = {j. j < 8 \<and> bit w j}"
    by (auto simp: bit_unsigned_iff)
  then show ?thesis unfolding cntbits_doubling doubling_nth [OF lt] popbyte_def by simp
qed

lemma low_byte: "n AND 0xff = ucast (ucast n :: byte)" for n :: "32 word"
proof -
  have m: "(0xff :: 32 word) = mask 8" by (simp add: mask_eq_exp_minus_1)
  show ?thesis unfolding m by (rule bit_word_eqI) (simp add: bit_and_iff bit_mask_iff bit_unsigned_iff, linarith?)
qed

lemma bit_255: "bit (0xff :: 32 word) k \<longleftrightarrow> k < 8"
proof -
  have m: "(0xff :: 32 word) = mask 8" by (simp add: mask_eq_exp_minus_1)
  show ?thesis unfolding m bit_mask_iff by (auto simp: possible_bit_word)
qed

lemma byte_of_32:
  fixes n :: "32 word" and b :: byte
  assumes "\<And>k. k < 8 \<Longrightarrow> bit n k = bit b k"
  shows "unat (n AND 0xff) = unat b"
proof -
  have "n AND 0xff = ucast b"
  proof (rule bit_word_eqI)
    fix j :: nat assume "j < LENGTH(32)"
    have "bit (n AND 0xff) j \<longleftrightarrow> bit n j \<and> j < 8" by (simp only: bit_and_iff bit_255)
    also have "\<dots> \<longleftrightarrow> bit b j" using assms [of j] bit_imp_le_length [of b j] by auto
    also have "\<dots> \<longleftrightarrow> bit (ucast b :: 32 word) j"
      using \<open>j < LENGTH(32)\<close> by (simp add: bit_unsigned_iff)
    finally show "bit (n AND 0xff) j = bit (ucast b :: 32 word) j" .
  qed
  moreover have "unat b < 2 ^ 8" using unsigned_less [of b] by simp
  ultimately show ?thesis by (simp add: unsigned_ucast_eq take_bit_eq_mod)
qed

lemma popbyte_0 [simp]: "popbyte 0 = 0"
  by (simp add: popbyte_def)

lemma countBit32_ucast [simp]: "countBit32 (ucast b) = popbyte b"
proof -
  have "unat (ucast b AND 0xff :: 32 word) = unat b"
    by (rule byte_of_32) (simp add: bit_unsigned_iff)
  moreover have "unat (drop_bit (8 * k) (ucast b) AND 0xff :: 32 word) = unat (0 :: byte)" if "0 < k" for k
    by (rule byte_of_32) (use that in \<open>auto simp: bit_drop_bit_eq bit_unsigned_iff dest: bit_imp_le_length\<close>)
  from this [of 1] this [of 2] this [of 3]
  have "unat (drop_bit 8 (ucast b) AND 0xff :: 32 word) = unat (0 :: byte)"
    "unat (drop_bit 16 (ucast b) AND 0xff :: 32 word) = unat (0 :: byte)"
    "unat (drop_bit 24 (ucast b) AND 0xff :: 32 word) = unat (0 :: byte)" by simp_all
  ultimately show ?thesis unfolding countBit32_def
    by (simp only: cntbits_popbyte) simp
qed

lemma countBit32_load32:
  "countBit32 (load32 b i) = popbyte (b i) + popbyte (b (i + 1)) + popbyte (b (i + 2)) + popbyte (b (i + 3))"
proof -
  have f: "unat (drop_bit (8 * k) (load32 b i) AND 0xff) = unat (b (i + k))" if "k < 4" for k
  proof (rule byte_of_32)
    fix j :: nat assume j: "j < 8"
    have "k \<in> {0, 1, 2, 3}" using that by auto
    then show "bit (drop_bit (8 * k) (load32 b i)) j = bit (b (i + k)) j"
      using j by (auto simp: load32_def bit_drop_bit_eq bit_or_iff bit_push_bit_iff bit_unsigned_iff
          dest: bit_imp_le_length)
  qed
  from f [of 0] f [of 1] f [of 2] f [of 3] show ?thesis
    unfolding countBit32_def by (simp add: cntbits_popbyte)
qed

lemma countbits_Suc: "countbits b (Suc n) = countbits b n + of_bool (bitat b n)"
  by (simp add: countbits_def card_less_Suc_filter)

lemma countbits_0 [simp]: "countbits b 0 = 0"
  by (simp add: countbits_def)

text \<open>The first \<open>r\<close> bits of byte \<open>k\<close> are its \<open>r\<close> highest ones.\<close>

lemma countbits_byte:
  assumes "r \<le> 8"
  shows "countbits b (8 * k + r) = countbits b (8 * k) + card {j. j < 8 \<and> 8 - r \<le> j \<and> bit (b k) j}"
  using assms
proof (induction r)
  case 0
  then show ?case by simp
next
  case (Suc r)
  have split: "{j. j < 8 \<and> 8 - Suc r \<le> j \<and> bit (b k) j} =
      {j. j < 8 \<and> 8 - r \<le> j \<and> bit (b k) j} \<union> {j. j = 7 - r \<and> bit (b k) (7 - r)}"
  proof -
    have "8 - Suc r \<le> j \<longleftrightarrow> 8 - r \<le> j \<or> j = 7 - r" for j
      using Suc.prems by auto
    moreover have "7 - r < 8" by simp
    ultimately show ?thesis by auto
  qed
  have at: "bitat b (8 * k + r) = bit (b k) (7 - r)"
    using Suc.prems by (simp add: bitat_def)
  have "card {j. j < 8 \<and> 8 - Suc r \<le> j \<and> bit (b k) j} =
      card {j. j < 8 \<and> 8 - r \<le> j \<and> bit (b k) j} + card {j. j = 7 - r \<and> bit (b k) (7 - r)}"
    unfolding split by (rule card_Un_disjoint) (use Suc.prems in auto)
  moreover have "card {j. j = 7 - r \<and> bit (b k) (7 - r)} = of_bool (bit (b k) (7 - r))"
    by (cases "bit (b k) (7 - r)") simp_all
  ultimately show ?case using Suc at by (simp add: countbits_Suc)
qed

lemma countbits_bytes: "countbits b (8 * k) = (\<Sum>i<k. popbyte (b i))"
proof (induction k)
  case 0
  then show ?case by simp
next
  case (Suc k)
  have "countbits b (8 * k + 8) = countbits b (8 * k) + popbyte (b k)"
    using countbits_byte [of 8 b k] by (simp add: popbyte_def)
  with Suc show ?case by (simp add: algebra_simps)
qed

text \<open>The masked last byte holds the bits of the last, possibly partial, byte.\<close>

lemma popbyte_last:
  assumes "0 < n"
  shows "countbits b n = countbits b (8 * ((n + 7) div 8 - 1)) +
    popbyte (b ((n + 7) div 8 - 1) AND lastByteMask n)"
proof -
  define k where "k = (n + 7) div 8 - 1"
  define r where "r = n - 8 * k"
  have n: "n = 8 * k + r" and r: "0 < r" "r \<le> 8"
    using assms by (auto simp: k_def r_def)
  have mask: "bit (lastByteMask n) j \<longleftrightarrow> 8 - r \<le> j" if "j < 8" for j
  proof (cases "r = 8")
    case True
    then have "n mod 8 = 0" using n by simp
    then show ?thesis using that True assms by (simp add: bit_lastByteMask)
  next
    case False
    then have "n mod 8 = r" using n r by simp
    then show ?thesis using that r assms by (simp add: bit_lastByteMask)
  qed
  have "popbyte (b k AND lastByteMask n) = card {j. j < 8 \<and> 8 - r \<le> j \<and> bit (b k) j}"
    unfolding popbyte_def by (rule arg_cong [where f = card]) (auto simp: bit_and_iff mask)
  then show ?thesis unfolding k_def [symmetric]
    using countbits_byte [OF r(2), of b k] by (simp add: n)
qed

theorem countSetBitSlow_eq: "countSetBitSlow b n = countbits b n"
proof (cases "n = 0")
  case True
  then show ?thesis by (simp add: countSetBitSlow_def)
next
  case False
  define m where "m = (n + 7) div 8"
  have "(if m > 1 then \<Sum>i\<leftarrow>[0..<m - 1]. cntbits ! unat (b i) else 0) = countbits b (8 * (m - 1))"
    by (auto simp: sum_list_upt countbits_bytes cntbits_popbyte atLeast0LessThan)
  then show ?thesis using False popbyte_last [of n b]
    by (simp add: countSetBitSlow_def Let_def m_def [symmetric] cntbits_popbyte)
qed

lemma sum_load32:
  "(\<Sum>i\<leftarrow>[0..<k]. countBit32 (load32 b (i * 4))) = (\<Sum>i<4 * k. popbyte (b i))"
proof (induction k)
  case 0
  then show ?case by simp
next
  case (Suc k)
  have "{..<4 * Suc k} = {..<4 * k} \<union> {4 * k, 4 * k + 1, 4 * k + 2, 4 * k + 3}" by auto
  then have "(\<Sum>i<4 * Suc k. popbyte (b i)) = (\<Sum>i<4 * k. popbyte (b i)) +
      (\<Sum>i\<in>{4 * k, 4 * k + 1, 4 * k + 2, 4 * k + 3}. popbyte (b i))"
    by (simp only:) (rule sum.union_disjoint, auto)
  then show ?case using Suc by (simp add: countBit32_load32 algebra_simps)
qed

lemma sum_words_bytes:
  "(\<Sum>i\<leftarrow>[0..<len div 4]. countBit32 (load32 b (i * 4))) +
     (\<Sum>i\<leftarrow>[len - len mod 4..<len]. countBit32 (ucast (b i))) = countbits b (8 * len)"
proof -
  have d: "4 * (len div 4) = len - len mod 4" by (simp add: minus_mod_eq_mult_div)
  have "(\<Sum>i<len - len mod 4. popbyte (b i)) + (\<Sum>i\<in>{len - len mod 4..<len}. popbyte (b i)) =
      (\<Sum>i<len. popbyte (b i))"
    using sum.atLeastLessThan_concat [of 0 "len - len mod 4" len "\<lambda>i. popbyte (b i)"]
    by (simp add: atLeast0LessThan)
  then show ?thesis unfolding sum_load32 d by (simp add: sum_list_upt countbits_bytes)
qed

text \<open>
  The word-at-a-time count agrees with the definition for every array and every length.
\<close>

theorem countSetBit_eq: "countSetBit b n = countbits b n"
proof (cases "n = 0")
  case True
  then show ?thesis by (simp add: countSetBit_def)
next
  case n: False
  show ?thesis
  proof (cases "n mod 32 = 0")
    case True
    then have "8 * ((n + 7) div 8) = n" by (auto elim!: dvdE simp: mod_eq_0_iff_dvd)
    then show ?thesis using n True sum_words_bytes [of b "(n + 7) div 8"]
      by (simp add: countSetBit_def Let_def)
  next
    case False
    then show ?thesis using n sum_words_bytes [of b "(n + 7) div 8 - 1"] popbyte_last [of n b]
      by (simp add: countSetBit_def Let_def)
  qed
qed

lemma countbits_cong:
  "(\<And>i. i < n \<Longrightarrow> bitat a i = bitat b i) \<Longrightarrow> countbits a n = countbits b n"
  unfolding countbits_def by (rule arg_cong [where f = card]) auto

lemma countbits_le: "countbits b n \<le> n"
proof -
  have "countbits b n \<le> card {..<n}" unfolding countbits_def by (rule card_mono) auto
  then show ?thesis by simp
qed

subsection \<open>Searching\<close>

lemma getFirstSetBitIndex_Some:
  "getFirstSetBitIndex b n = Some i \<longleftrightarrow> i < n \<and> bitat b i \<and> (\<forall>j<i. \<not> bitat b j)"
  by (simp add: getFirstSetBitIndex_def find_upt_Some)

lemma getFirstSetBitIndex_None: "getFirstSetBitIndex b n = None \<longleftrightarrow> (\<forall>j<n. \<not> bitat b j)"
  by (simp add: getFirstSetBitIndex_def find_upt_None)

lemma first_n_set_take:
  "0 < n \<Longrightarrow> first_n_set b nbits n is = take n (List.filter (bitat b) is)"
proof (induction "is" arbitrary: n)
  case Nil
  then show ?case by simp
next
  case (Cons i "is")
  then show ?case by (cases n) auto
qed

lemma getFirstNSetBitIndex_take:
  "getFirstNSetBitIndex n b nbits = take n (List.filter (bitat b) [0..<nbits])"
  by (simp add: getFirstNSetBitIndex_def first_n_set_take)

subsection \<open>Writing bits\<close>

lemma bitat_update:
  assumes "index < 8 * length bs"
  shows "bitat (array (bs[index div 8 := w])) i \<longleftrightarrow>
    (if i div 8 = index div 8 then bit w (7 - i mod 8) else bitat (array bs) i)"
  using assms by (auto simp: bitat_def array_def nth_list_update)

lemma same_bit: "i div 8 = j div 8 \<Longrightarrow> 7 - i mod 8 = 7 - j mod 8 \<longleftrightarrow> i = j" for i j :: nat
proof
  assume d: "i div 8 = j div 8" and m: "7 - i mod 8 = 7 - j mod 8"
  have "i mod 8 < 8" "j mod 8 < 8" by simp_all
  then have "i mod 8 = j mod 8" using m by linarith
  then show "i = j" using d by (metis div_mult_mod_eq)
qed simp

lemma bit_bit_mask: "bit (bit_mask i) k \<longleftrightarrow> k = 7 - i mod 8"
  by (auto simp: bit_mask_exp bit_exp_iff)

lemma flipBit_Some:
  assumes "flipBit bs n index = Some bs'"
  shows "length bs' = length bs" and "bitat (array bs') i \<longleftrightarrow> (bitat (array bs) i \<noteq> (i = index))"
proof -
  have idx: "index div 8 < length bs" and bs': "bs' = bs[index div 8 := bs ! (index div 8) XOR bit_mask index]"
    using assms by (auto simp: flipBit_def Let_def split: if_splits)
  show "length bs' = length bs" by (simp add: bs')
  have lt: "index < 8 * length bs" using idx by simp
  show "bitat (array bs') i \<longleftrightarrow> (bitat (array bs) i \<noteq> (i = index))"
    unfolding bs' bitat_update [OF lt]
    by (auto simp: bit_xor_iff bit_bit_mask same_bit bitat_def array_def)
qed

text \<open>No bit is set at or after \<open>nbits\<close>.\<close>

definition tail_clear :: "nat \<Rightarrow> byte list \<Rightarrow> bool" where
  "tail_clear nbits bs \<longleftrightarrow> (\<forall>i\<in>{nbits..<8 * length bs}. \<not> bitat (array bs) i)"

lemma bitat_zero [simp]: "i < 8 * n \<Longrightarrow> \<not> bitat (array (replicate n 0)) i"
  by (simp add: bitat_def array_def)

lemma tail_clear_zero [simp]: "tail_clear n (replicate k 0)"
  by (simp add: tail_clear_def)

end
