(* ===== verification/BitfieldMan.thy ===== *)
theory BitfieldMan
  imports Bitfield
begin

text \<open>
  The class \<open>BitfieldMan\<close> of \<open>src/BitfieldMan.h\<close> and \<open>src/BitfieldMan.cc\<close>: a file of
  \<open>totalLength\<close> bytes cut into blocks of \<open>blockLength\<close> bytes, one bit per block for
  "downloaded", one for "in use", and an optional filter that restricts the counting and
  searching operations to the selected blocks. The three byte arrays are lists, a null
  pointer for the filter is \<open>None\<close>; the cached counters are fields as in the class.
  Reading a bit through the public interface is \<open>None\<close> where \<open>assert(index < nbits)\<close>
  fails, and an operation that divides by \<open>blockLength\<close> is \<open>None\<close> where it is zero.
\<close>

subsection \<open>State\<close>

record bitfield_man =
  bm_totalLength :: int
  bm_cachedCompletedLength :: int
  bm_cachedFilteredCompletedLength :: int
  bm_cachedFilteredTotalLength :: int
  bm_bitfield :: "byte list"
  bm_useBitfield :: "byte list"
  bm_filterBitfield :: "byte list option"
  bm_bitfieldLength :: nat
  bm_cachedNumMissingBlock :: nat
  bm_cachedNumFilteredBlock :: nat
  bm_blocks :: nat
  bm_sparseHint :: nat
  bm_blockLength :: int
  bm_filterEnabled :: bool

text \<open>The arrays as expressions; the filter is read only where it is allocated.\<close>

definition bits_arr :: "bitfield_man \<Rightarrow> barr" where
  "bits_arr m = array (bm_bitfield m)"

definition use_arr :: "bitfield_man \<Rightarrow> barr" where
  "use_arr m = array (bm_useBitfield m)"

definition filter_arr :: "bitfield_man \<Rightarrow> barr" where
  "filter_arr m = array (the (bm_filterBitfield m))"

subsection \<open>Lengths\<close>

text \<open>\<open>blocks_ - 1\<close> is unsigned, and so is the difference before it is stored as signed.\<close>

definition getLastBlockLength :: "bitfield_man \<Rightarrow> int" where
  "getLastBlockLength m =
     (let lastLength =
        int64_of (bm_totalLength m - bm_blockLength m * int (usub (bm_blocks m) 1)) in
      if lastLength > bm_blockLength m \<or> lastLength < 0 then bm_blockLength m else lastLength)"

definition getBlockLength :: "bitfield_man \<Rightarrow> nat \<Rightarrow> int" where
  "getBlockLength m index =
     (if index = usub (bm_blocks m) 1 then getLastBlockLength m
      else if index < usub (bm_blocks m) 1 then bm_blockLength m
      else 0)"

subsection \<open>Counting and the cache\<close>

definition countMissingBlockNow :: "bitfield_man \<Rightarrow> nat" where
  "countMissingBlockNow m =
     (if bm_filterEnabled m
      then usub (countSetBit (filter_arr m) (bm_blocks m))
             (countSetBitSlow (arr_and (bits_arr m) (filter_arr m)) (bm_blocks m))
      else usub (bm_blocks m) (countSetBit (bits_arr m) (bm_blocks m)))"

definition countFilteredBlockNow :: "bitfield_man \<Rightarrow> nat" where
  "countFilteredBlockNow m =
     (if bm_filterEnabled m then countSetBit (filter_arr m) (bm_blocks m) else 0)"

definition getFilteredTotalLengthNow :: "bitfield_man \<Rightarrow> int" where
  "getFilteredTotalLengthNow m =
     (if bm_filterBitfield m = None then 0
      else
        let filteredBlocks = countSetBit (filter_arr m) (bm_blocks m) in
        if filteredBlocks = 0 then 0
        else if test (filter_arr m) (bm_blocks m) (bm_blocks m - 1)
        then (int filteredBlocks - 1) * bm_blockLength m + getLastBlockLength m
        else int filteredBlocks * bm_blockLength m)"

definition computeCompletedLength :: "barr \<Rightarrow> bitfield_man \<Rightarrow> (barr \<Rightarrow> nat \<Rightarrow> nat) \<Rightarrow> int" where
  "computeCompletedLength bitfield m cntfun =
     (let nbits = bm_blocks m;
          completedBlocks = cntfun bitfield nbits in
      if completedBlocks = 0 then 0
      else if test bitfield nbits (nbits - 1)
      then (int completedBlocks - 1) * bm_blockLength m + getLastBlockLength m
      else int completedBlocks * bm_blockLength m)"

definition completedLengthOf :: "bitfield_man \<Rightarrow> bool \<Rightarrow> int" where
  "completedLengthOf m useFilter =
     (if useFilter \<and> bm_filterEnabled m
      then computeCompletedLength (arr_and (bits_arr m) (filter_arr m)) m countSetBitSlow
      else computeCompletedLength (bits_arr m) m countSetBit)"

definition getCompletedLengthNow :: "bitfield_man \<Rightarrow> int" where
  "getCompletedLengthNow m = completedLengthOf m False"

definition getFilteredCompletedLengthNow :: "bitfield_man \<Rightarrow> int" where
  "getFilteredCompletedLengthNow m = completedLengthOf m True"

definition updateCache :: "bitfield_man \<Rightarrow> bitfield_man" where
  "updateCache m = m\<lparr>
     bm_cachedNumMissingBlock := countMissingBlockNow m,
     bm_cachedNumFilteredBlock := countFilteredBlockNow m,
     bm_cachedFilteredTotalLength := getFilteredTotalLengthNow m,
     bm_cachedCompletedLength := getCompletedLengthNow m,
     bm_cachedFilteredCompletedLength := getFilteredCompletedLengthNow m\<rparr>"

subsection \<open>Construction and copying\<close>

definition bm_new :: "int \<Rightarrow> int \<Rightarrow> bitfield_man" where
  "bm_new blockLen totalLen =
     (let m = \<lparr>bm_totalLength = totalLen, bm_cachedCompletedLength = 0,
               bm_cachedFilteredCompletedLength = 0, bm_cachedFilteredTotalLength = 0,
               bm_bitfield = [], bm_useBitfield = [], bm_filterBitfield = None,
               bm_bitfieldLength = 0, bm_cachedNumMissingBlock = 0,
               bm_cachedNumFilteredBlock = 0, bm_blocks = 0, bm_sparseHint = 0,
               bm_blockLength = blockLen, bm_filterEnabled = False\<rparr> in
      if blockLen > 0 \<and> totalLen > 0
      then
        let nblocks = size_of_int ((totalLen + blockLen - 1) sdiv blockLen);
            len = nblocks div 8 + (if nblocks mod 8 \<noteq> 0 then 1 else 0)
        in updateCache (m\<lparr>bm_blocks := nblocks, bm_bitfieldLength := len,
             bm_bitfield := replicate len 0, bm_useBitfield := replicate len 0\<rparr>)
      else m)"

text \<open>
  The copy constructor does not name \<open>sparseHint_\<close> in its initialiser list: the member
  starts with an indeterminate value, the parameter \<open>indet\<close>.
\<close>

definition bm_copy :: "nat \<Rightarrow> bitfield_man \<Rightarrow> bitfield_man" where
  "bm_copy indet other =
     updateCache \<lparr>bm_totalLength = bm_totalLength other, bm_cachedCompletedLength = 0,
       bm_cachedFilteredCompletedLength = 0, bm_cachedFilteredTotalLength = 0,
       bm_bitfield = bm_bitfield other, bm_useBitfield = bm_useBitfield other,
       bm_filterBitfield = (if bm_filterEnabled other then bm_filterBitfield other else None),
       bm_bitfieldLength = bm_bitfieldLength other, bm_cachedNumMissingBlock = 0,
       bm_cachedNumFilteredBlock = 0, bm_blocks = bm_blocks other, bm_sparseHint = indet,
       bm_blockLength = bm_blockLength other, bm_filterEnabled = bm_filterEnabled other\<rparr>"

text \<open>Assignment from another object; \<open>sparseHint_\<close> keeps its value.\<close>

definition bm_assign :: "bitfield_man \<Rightarrow> bitfield_man \<Rightarrow> bitfield_man" where
  "bm_assign this other =
     updateCache (this\<lparr>bm_totalLength := bm_totalLength other,
       bm_blockLength := bm_blockLength other, bm_blocks := bm_blocks other,
       bm_bitfieldLength := bm_bitfieldLength other,
       bm_filterEnabled := bm_filterEnabled other,
       bm_bitfield := bm_bitfield other, bm_useBitfield := bm_useBitfield other,
       bm_filterBitfield := (if bm_filterEnabled other then bm_filterBitfield other else None)\<rparr>)"

subsection \<open>Reading bits\<close>

definition isBitSet :: "bitfield_man \<Rightarrow> nat \<Rightarrow> bool option" where
  "isBitSet m index =
     (if index < bm_blocks m then Some (test (bits_arr m) (bm_blocks m) index) else None)"

definition isUseBitSet :: "bitfield_man \<Rightarrow> nat \<Rightarrow> bool option" where
  "isUseBitSet m index =
     (if index < bm_blocks m then Some (test (use_arr m) (bm_blocks m) index) else None)"

definition isFilterBitSet :: "bitfield_man \<Rightarrow> nat \<Rightarrow> bool option" where
  "isFilterBitSet m index =
     (case bm_filterBitfield m of
        Some f \<Rightarrow> if index < bm_blocks m then Some (test (array f) (bm_blocks m) index) else None
      | None \<Rightarrow> Some False)"

definition hasMissingPiece :: "bitfield_man \<Rightarrow> byte list \<Rightarrow> bool" where
  "hasMissingPiece m peerBitfield =
     (if bm_bitfieldLength m \<noteq> length peerBitfield then False
      else list_ex (\<lambda>i.
        let temp = peerBitfield ! i AND NOT (bm_bitfield m ! i);
            temp = (if bm_filterEnabled m then temp AND filter_arr m i else temp)
        in temp AND 0xff \<noteq> 0) [0..<bm_bitfieldLength m])"

definition isFilteredAllBitSet_loop :: "bitfield_man \<Rightarrow> bool" where
  "isFilteredAllBitSet_loop m =
     list_all (\<lambda>i. bm_bitfield m ! i AND filter_arr m i = filter_arr m i) [0..<bm_bitfieldLength m]"

definition testAllBitSet :: "byte list \<Rightarrow> nat \<Rightarrow> nat \<Rightarrow> bool" where
  "testAllBitSet bitfield len nblocks =
     (if len = 0 then True
      else if list_ex (\<lambda>i. bitfield ! i \<noteq> 0xff) [0..<len - 1] then False
      else bitfield ! (len - 1) = lastByteMask nblocks)"

definition isAllBitSet :: "bitfield_man \<Rightarrow> bool" where
  "isAllBitSet m = testAllBitSet (bm_bitfield m) (bm_bitfieldLength m) (bm_blocks m)"

definition isFilteredAllBitSet :: "bitfield_man \<Rightarrow> bool" where
  "isFilteredAllBitSet m =
     (if bm_filterEnabled m then isFilteredAllBitSet_loop m else isAllBitSet m)"

definition isAllFilterBitSet :: "bitfield_man \<Rightarrow> bool" where
  "isAllFilterBitSet m =
     (case bm_filterBitfield m of
        None \<Rightarrow> False
      | Some f \<Rightarrow> testAllBitSet f (bm_bitfieldLength m) (bm_blocks m))"

subsection \<open>Writing bits\<close>

definition setBitInternal :: "bitfield_man \<Rightarrow> byte list \<Rightarrow> nat \<Rightarrow> bool \<Rightarrow> byte list \<times> bool" where
  "setBitInternal m bitfield index on =
     (if bm_blocks m \<le> index then (bitfield, False)
      else
        let mask = bit_mask index;
            old = bitfield ! (index div 8)
        in if on then (bitfield[index div 8 := old OR mask], True)
           else (bitfield[index div 8 := old AND NOT mask], True))"

definition setUseBit :: "bitfield_man \<Rightarrow> nat \<Rightarrow> bitfield_man \<times> bool" where
  "setUseBit m index =
     (let (bs, b) = setBitInternal m (bm_useBitfield m) index True in
      (m\<lparr>bm_useBitfield := bs\<rparr>, b))"

definition unsetUseBit :: "bitfield_man \<Rightarrow> nat \<Rightarrow> bitfield_man \<times> bool" where
  "unsetUseBit m index =
     (let (bs, b) = setBitInternal m (bm_useBitfield m) index False in
      (m\<lparr>bm_useBitfield := bs\<rparr>, b))"

definition setBit :: "bitfield_man \<Rightarrow> nat \<Rightarrow> bitfield_man \<times> bool" where
  "setBit m index =
     (let (bs, b) = setBitInternal m (bm_bitfield m) index True in
      (updateCache (m\<lparr>bm_bitfield := bs\<rparr>), b))"

definition unsetBit :: "bitfield_man \<Rightarrow> nat \<Rightarrow> bitfield_man \<times> bool" where
  "unsetBit m index =
     (let (bs, b) = setBitInternal m (bm_bitfield m) index False in
      (updateCache (m\<lparr>bm_bitfield := bs\<rparr>), b))"

definition setBitfield :: "bitfield_man \<Rightarrow> byte list \<Rightarrow> bitfield_man" where
  "setBitfield m bitfield =
     (if bm_bitfieldLength m = 0 \<or> bm_bitfieldLength m \<noteq> length bitfield then m
      else updateCache (m\<lparr>bm_bitfield := bitfield,
             bm_useBitfield := replicate (bm_bitfieldLength m) 0\<rparr>))"

definition clearAllBit :: "bitfield_man \<Rightarrow> bitfield_man" where
  "clearAllBit m = updateCache (m\<lparr>bm_bitfield := replicate (bm_bitfieldLength m) 0\<rparr>)"

definition setAllBit :: "bitfield_man \<Rightarrow> bitfield_man" where
  "setAllBit m =
     updateCache (m\<lparr>bm_bitfield :=
       fold (\<lambda>i bs. fst (setBitInternal m bs i True)) [0..<bm_blocks m] (bm_bitfield m)\<rparr>)"

definition clearAllUseBit :: "bitfield_man \<Rightarrow> bitfield_man" where
  "clearAllUseBit m = updateCache (m\<lparr>bm_useBitfield := replicate (bm_bitfieldLength m) 0\<rparr>)"

definition setAllUseBit :: "bitfield_man \<Rightarrow> bitfield_man" where
  "setAllUseBit m =
     m\<lparr>bm_useBitfield :=
       fold (\<lambda>i bs. fst (setBitInternal m bs i True)) [0..<bm_blocks m] (bm_useBitfield m)\<rparr>"

subsection \<open>The filter\<close>

definition ensureFilterBitfield :: "bitfield_man \<Rightarrow> bitfield_man" where
  "ensureFilterBitfield m =
     (if bm_filterBitfield m = None
      then m\<lparr>bm_filterBitfield := Some (replicate (bm_bitfieldLength m) 0)\<rparr>
      else m)"

text \<open>Private, and called only after \<open>ensureFilterBitfield\<close>.\<close>

definition writeFilterBit :: "bool \<Rightarrow> nat \<Rightarrow> bitfield_man \<Rightarrow> bitfield_man" where
  "writeFilterBit on index m =
     m\<lparr>bm_filterBitfield :=
       Some (fst (setBitInternal m (the (bm_filterBitfield m)) index on))\<rparr>"

definition setFilterBit :: "nat \<Rightarrow> bitfield_man \<Rightarrow> bitfield_man" where
  "setFilterBit index m = writeFilterBit True index m"

text \<open>
  \<open>None\<close> is the division by a zero \<open>blockLength\<close>. The two loops run while
  \<open>i <= endBlock && i < blocks\<close>.
\<close>

definition addFilter :: "bitfield_man \<Rightarrow> int \<Rightarrow> int \<Rightarrow> bitfield_man option" where
  "addFilter m offset len =
     (let m = ensureFilterBitfield m in
      if len > 0
      then
        (if bm_blockLength m = 0 then None
         else
           let startBlock = size_of_int (offset sdiv bm_blockLength m);
               endBlock = size_of_int ((offset + len - 1) sdiv bm_blockLength m)
           in Some (updateCache
                (fold setFilterBit [startBlock..<min (endBlock + 1) (bm_blocks m)] m)))
      else Some (updateCache m))"

definition removeFilter :: "bitfield_man \<Rightarrow> int \<Rightarrow> int \<Rightarrow> bitfield_man option" where
  "removeFilter m offset len =
     (let m = ensureFilterBitfield m in
      if len > 0
      then
        (if bm_blockLength m = 0 then None
         else
           let startBlock = size_of_int (offset sdiv bm_blockLength m);
               endBlock = size_of_int ((offset + len - 1) sdiv bm_blockLength m)
           in Some (updateCache
                (fold (writeFilterBit False) [startBlock..<min (endBlock + 1) (bm_blocks m)] m)))
      else Some (updateCache m))"

text \<open>\<open>endBlock + 1\<close> is computed in \<open>size_t\<close> and wraps.\<close>

definition addNotFilter :: "bitfield_man \<Rightarrow> int \<Rightarrow> int \<Rightarrow> bitfield_man option" where
  "addNotFilter m offset len =
     (let m = ensureFilterBitfield m in
      if len > 0 \<and> bm_blocks m > 0
      then
        (if bm_blockLength m = 0 then None
         else
           let startBlock = size_of_int (offset sdiv bm_blockLength m);
               startBlock = (if bm_blocks m \<le> startBlock then bm_blocks m else startBlock);
               endBlock = size_of_int ((offset + len - 1) sdiv bm_blockLength m);
               m = fold setFilterBit [0..<startBlock] m;
               m = fold setFilterBit [(endBlock + 1) mod 2 ^ 64..<bm_blocks m] m
           in Some (updateCache m))
      else Some (updateCache m))"

definition enableFilter :: "bitfield_man \<Rightarrow> bitfield_man" where
  "enableFilter m = updateCache ((ensureFilterBitfield m)\<lparr>bm_filterEnabled := True\<rparr>)"

definition disableFilter :: "bitfield_man \<Rightarrow> bitfield_man" where
  "disableFilter m = updateCache (m\<lparr>bm_filterEnabled := False\<rparr>)"

definition clearFilter :: "bitfield_man \<Rightarrow> bitfield_man" where
  "clearFilter m = updateCache (m\<lparr>bm_filterBitfield := None, bm_filterEnabled := False\<rparr>)"

subsection \<open>Ranges of blocks and of bytes\<close>

fun all_bits_set :: "bitfield_man \<Rightarrow> nat list \<Rightarrow> bool option" where
  "all_bits_set m [] = Some True"
| "all_bits_set m (i # is) =
     (case isBitSet m i of
        None \<Rightarrow> None
      | Some b \<Rightarrow> if \<not> b then Some False else all_bits_set m is)"

definition isBitRangeSet :: "bitfield_man \<Rightarrow> nat \<Rightarrow> nat \<Rightarrow> bool option" where
  "isBitRangeSet m startIndex endIndex = all_bits_set m [startIndex..<endIndex + 1]"

definition unsetBitRange :: "bitfield_man \<Rightarrow> nat \<Rightarrow> nat \<Rightarrow> bitfield_man" where
  "unsetBitRange m startIndex endIndex =
     updateCache (fold (\<lambda>i m. fst (unsetBit m i)) [startIndex..<endIndex + 1] m)"

definition setBitRange :: "bitfield_man \<Rightarrow> nat \<Rightarrow> nat \<Rightarrow> bitfield_man" where
  "setBitRange m startIndex endIndex =
     updateCache (fold (\<lambda>i m. fst (setBit m i)) [startIndex..<endIndex + 1] m)"

definition isBitSetOffsetRange :: "bitfield_man \<Rightarrow> int \<Rightarrow> int \<Rightarrow> bool option" where
  "isBitSetOffsetRange m offset len =
     (if len \<le> 0 then Some False
      else if bm_totalLength m \<le> offset then Some False
      else
        let len = (if bm_totalLength m < offset + len then bm_totalLength m - offset else len) in
        if bm_blockLength m = 0 then None
        else
          let startBlock = size_of_int (offset sdiv bm_blockLength m);
              endBlock = size_of_int ((offset + len - 1) sdiv bm_blockLength m)
          in all_bits_set m [startBlock..<endBlock + 1])"

fun add_set_blocks :: "bitfield_man \<Rightarrow> nat list \<Rightarrow> int \<Rightarrow> int option" where
  "add_set_blocks m [] res = Some res"
| "add_set_blocks m (i # is) res =
     (case isBitSet m i of
        None \<Rightarrow> None
      | Some b \<Rightarrow> add_set_blocks m is (if b then res + bm_blockLength m else res))"

definition getOffsetCompletedLength :: "bitfield_man \<Rightarrow> int \<Rightarrow> int \<Rightarrow> int option" where
  "getOffsetCompletedLength m offset len =
     (if len = 0 \<or> bm_totalLength m \<le> offset then Some 0
      else
        let len = (if bm_totalLength m < offset + len then bm_totalLength m - offset else len) in
        if bm_blockLength m = 0 then None
        else
          let start = size_of_int (offset sdiv bm_blockLength m);
              end' = size_of_int ((offset + len - 1) sdiv bm_blockLength m)
          in if start = end'
             then do { b \<leftarrow> isBitSet m start; Some (if b then len else 0) }
             else do {
               b \<leftarrow> isBitSet m start;
               let res = (if b then int (start + 1) * bm_blockLength m - offset else 0);
               res \<leftarrow> add_set_blocks m [start + 1..<usub end' 1 + 1] res;
               e \<leftarrow> isBitSet m end';
               Some (if e then res + (offset + len - int end' * bm_blockLength m) else res)
             })"

fun missing_unused_run :: "bitfield_man \<Rightarrow> nat list \<Rightarrow> int \<Rightarrow> int" where
  "missing_unused_run m [] len = len"
| "missing_unused_run m (i # is) len =
     (if test (bits_arr m) (bm_blocks m) i \<or> test (use_arr m) (bm_blocks m) i then len
      else missing_unused_run m is (len + getBlockLength m i))"

definition getMissingUnusedLength :: "bitfield_man \<Rightarrow> nat \<Rightarrow> int" where
  "getMissingUnusedLength m startingIndex =
     (if bm_blocks m \<le> startingIndex then 0
      else missing_unused_run m [startingIndex..<bm_blocks m] 0)"

subsection \<open>Invariant and abstract view\<close>

text \<open>The blocks that are downloaded, in use, and selected by the filter.\<close>

definition haves :: "bitfield_man \<Rightarrow> nat set" where
  "haves m = {i. i < bm_blocks m \<and> bitat (bits_arr m) i}"

definition uses :: "bitfield_man \<Rightarrow> nat set" where
  "uses m = {i. i < bm_blocks m \<and> bitat (use_arr m) i}"

definition filts :: "bitfield_man \<Rightarrow> nat set" where
  "filts m = (case bm_filterBitfield m of None \<Rightarrow> {}
     | Some f \<Rightarrow> {i. i < bm_blocks m \<and> bitat (array f) i})"

text \<open>The blocks an operation "affected by filter" ranges over.\<close>

definition selected :: "bitfield_man \<Rightarrow> nat set" where
  "selected m = (if bm_filterEnabled m then filts m else {..<bm_blocks m})"

text \<open>
  Shape: block count and array lengths agree with the two lengths, and an enabled filter is
  allocated. Tails: bits after the last block are clear. Cache: the cached counters are the
  ones \<open>updateCache\<close> would compute.
\<close>

definition ceil_blocks :: "int \<Rightarrow> int \<Rightarrow> nat" where
  "ceil_blocks b t = (if 0 < b \<and> 0 < t then nat ((t + b - 1) div b) else 0)"

definition bm_shape :: "bitfield_man \<Rightarrow> bool" where
  "bm_shape m \<longleftrightarrow>
     bm_totalLength m < 2 ^ 63 \<and> bm_blockLength m < 2 ^ 31 \<and>
     bm_blocks m = ceil_blocks (bm_blockLength m) (bm_totalLength m) \<and>
     bm_bitfieldLength m = (bm_blocks m + 7) div 8 \<and>
     length (bm_bitfield m) = bm_bitfieldLength m \<and>
     length (bm_useBitfield m) = bm_bitfieldLength m \<and>
     (bm_filterEnabled m \<longrightarrow> bm_filterBitfield m \<noteq> None) \<and>
     (\<forall>f\<in>set_option (bm_filterBitfield m). length f = bm_bitfieldLength m)"

definition bm_tails :: "bitfield_man \<Rightarrow> bool" where
  "bm_tails m \<longleftrightarrow> tail_clear (bm_blocks m) (bm_bitfield m) \<and>
     tail_clear (bm_blocks m) (bm_useBitfield m) \<and>
     (\<forall>f\<in>set_option (bm_filterBitfield m). tail_clear (bm_blocks m) f)"

definition bm_cached :: "bitfield_man \<Rightarrow> bool" where
  "bm_cached m \<longleftrightarrow> updateCache m = m"

definition bm_inv :: "bitfield_man \<Rightarrow> bool" where
  "bm_inv m \<longleftrightarrow> bm_shape m \<and> bm_tails m \<and> bm_cached m"

lemmas now_defs = countMissingBlockNow_def countFilteredBlockNow_def getFilteredTotalLengthNow_def
  getCompletedLengthNow_def getFilteredCompletedLengthNow_def completedLengthOf_def
  computeCompletedLength_def getLastBlockLength_def bits_arr_def use_arr_def filter_arr_def

lemma updateCache_fields [simp]:
  "bm_totalLength (updateCache m) = bm_totalLength m"
  "bm_bitfield (updateCache m) = bm_bitfield m"
  "bm_useBitfield (updateCache m) = bm_useBitfield m"
  "bm_filterBitfield (updateCache m) = bm_filterBitfield m"
  "bm_bitfieldLength (updateCache m) = bm_bitfieldLength m"
  "bm_blocks (updateCache m) = bm_blocks m"
  "bm_sparseHint (updateCache m) = bm_sparseHint m"
  "bm_blockLength (updateCache m) = bm_blockLength m"
  "bm_filterEnabled (updateCache m) = bm_filterEnabled m"
  by (simp_all add: updateCache_def)

lemma updateCache_idem [simp]: "updateCache (updateCache m) = updateCache m"
  by (simp add: updateCache_def now_defs Let_def)

lemma bm_cached_update [simp]: "bm_cached (updateCache m)"
  by (simp add: bm_cached_def)

lemma bm_cached_use [simp]: "bm_cached (m\<lparr>bm_useBitfield := bs\<rparr>) \<longleftrightarrow> bm_cached m"
  by (cases m) (simp add: bm_cached_def updateCache_def now_defs Let_def)

lemma bm_cached_hint [simp]: "bm_cached (m\<lparr>bm_sparseHint := h\<rparr>) \<longleftrightarrow> bm_cached m"
  by (cases m) (simp add: bm_cached_def updateCache_def now_defs Let_def)

lemma views_update [simp]:
  "haves (updateCache m) = haves m" "uses (updateCache m) = uses m" "filts (updateCache m) = filts m"
  "selected (updateCache m) = selected m"
  "bm_shape (updateCache m) = bm_shape m" "bm_tails (updateCache m) = bm_tails m"
  by (simp_all add: haves_def uses_def filts_def selected_def bm_shape_def bm_tails_def
      bits_arr_def use_arr_def split: option.split)

lemma views_fin [simp]: "finite (haves m)" "finite (uses m)" "finite (filts m)" "finite (selected m)"
  by (auto simp: haves_def uses_def filts_def selected_def split: option.splits)

lemma views_less:
  "i \<in> haves m \<Longrightarrow> i < bm_blocks m" "i \<in> uses m \<Longrightarrow> i < bm_blocks m"
  "i \<in> filts m \<Longrightarrow> i < bm_blocks m" "i \<in> selected m \<Longrightarrow> i < bm_blocks m"
  by (auto simp: haves_def uses_def filts_def selected_def split: option.splits if_splits)

lemma bm_invD:
  assumes "bm_inv m"
  shows "bm_shape m" "bm_tails m" "bm_cached m"
  using assms by (simp_all add: bm_inv_def)

lemma shape_lengths:
  assumes "bm_shape m"
  shows "length (bm_bitfield m) = bm_bitfieldLength m" "length (bm_useBitfield m) = bm_bitfieldLength m"
    "bm_filterBitfield m = Some f \<Longrightarrow> length f = bm_bitfieldLength m"
    "bm_bitfieldLength m = (bm_blocks m + 7) div 8" "bm_blocks m \<le> 8 * bm_bitfieldLength m"
    "bm_filterEnabled m \<Longrightarrow> bm_filterBitfield m \<noteq> None"
  using assms by (auto simp: bm_shape_def)

subsection \<open>Every operation keeps the invariant and has its effect on the view\<close>

lemma length_setBitInternal [simp]: "length (fst (setBitInternal m bs i on)) = length bs"
  by (simp add: setBitInternal_def Let_def)

lemma setBitInternal_snd: "snd (setBitInternal m bs i on) \<longleftrightarrow> i < bm_blocks m"
  by (simp add: setBitInternal_def Let_def not_less)

text \<open>The bit written, and no other, changes.\<close>

lemma bitat_setBitInternal:
  assumes "bm_blocks m \<le> 8 * length bs"
  shows "bitat (array (fst (setBitInternal m bs i on))) j \<longleftrightarrow>
    (if i < bm_blocks m \<and> j = i then on else bitat (array bs) j)"
proof (cases "i < bm_blocks m")
  case True
  then have lt: "i < 8 * length bs" using assms by simp
  define old where "old = bs ! (i div 8)"
  have old: "bit old (7 - j mod 8) = bitat (array bs) j" if "j div 8 = i div 8"
    using that by (simp add: old_def bitat_def array_def)
  have "bit (if on then old OR bit_mask i else old AND NOT (bit_mask i)) (7 - j mod 8) \<longleftrightarrow>
      (if j = i then on else bitat (array bs) j)" if "j div 8 = i div 8"
    using old [OF that] same_bit [OF that]
    by (auto simp: bit_or_iff bit_and_iff bit_not_iff bit_bit_mask)
  moreover have "fst (setBitInternal m bs i on) =
      bs[i div 8 := if on then old OR bit_mask i else old AND NOT (bit_mask i)]"
    using True by (simp add: setBitInternal_def Let_def old_def)
  ultimately show ?thesis using True by (auto simp: bitat_update [OF lt])
next
  case False
  then show ?thesis by (simp add: setBitInternal_def)
qed

lemma tail_setBitInternal:
  assumes "bm_blocks m \<le> 8 * length bs" and "tail_clear (bm_blocks m) bs"
  shows "tail_clear (bm_blocks m) (fst (setBitInternal m bs i on))"
  using assms by (auto simp: tail_clear_def bitat_setBitInternal)

lemma setBitInternal_cong:
  "bm_blocks m = bm_blocks m' \<Longrightarrow> setBitInternal m = setBitInternal m'"
  by (simp add: setBitInternal_def fun_eq_iff)

text \<open>Replacing one array by another of the same length with a clear tail.\<close>

lemma inv_set_bitfield [inv_intros]:
  assumes "bm_inv m" and "length bs = bm_bitfieldLength m" and "tail_clear (bm_blocks m) bs"
  shows "bm_inv (updateCache (m\<lparr>bm_bitfield := bs\<rparr>))"
  using assms by (auto simp: bm_inv_def bm_shape_def bm_tails_def)

lemma inv_set_use [inv_intros]:
  assumes "bm_inv m" and "length bs = bm_bitfieldLength m" and "tail_clear (bm_blocks m) bs"
  shows "bm_inv (m\<lparr>bm_useBitfield := bs\<rparr>)" and "bm_inv (updateCache (m\<lparr>bm_useBitfield := bs\<rparr>))"
  using assms by (auto simp: bm_inv_def bm_shape_def bm_tails_def)

lemma haves_set_bitfield:
  "haves (m\<lparr>bm_bitfield := bs\<rparr>) = {i. i < bm_blocks m \<and> bitat (array bs) i}"
  "uses (m\<lparr>bm_bitfield := bs\<rparr>) = uses m" "filts (m\<lparr>bm_bitfield := bs\<rparr>) = filts m"
  by (simp_all add: haves_def uses_def filts_def bits_arr_def use_arr_def split: option.split)

lemma uses_set_use:
  "uses (m\<lparr>bm_useBitfield := bs\<rparr>) = {i. i < bm_blocks m \<and> bitat (array bs) i}"
  "haves (m\<lparr>bm_useBitfield := bs\<rparr>) = haves m" "filts (m\<lparr>bm_useBitfield := bs\<rparr>) = filts m"
  by (simp_all add: haves_def uses_def filts_def bits_arr_def use_arr_def split: option.split)

lemma inv_setBitInternal:
  assumes "bm_inv m"
  shows "length (fst (setBitInternal m (bm_bitfield m) i on)) = bm_bitfieldLength m"
    "tail_clear (bm_blocks m) (fst (setBitInternal m (bm_bitfield m) i on))"
    "length (fst (setBitInternal m (bm_useBitfield m) i on)) = bm_bitfieldLength m"
    "tail_clear (bm_blocks m) (fst (setBitInternal m (bm_useBitfield m) i on))"
proof -
  note len = shape_lengths [OF bm_invD(1) [OF assms]]
  show "length (fst (setBitInternal m (bm_bitfield m) i on)) = bm_bitfieldLength m"
    "length (fst (setBitInternal m (bm_useBitfield m) i on)) = bm_bitfieldLength m"
    using len(1,2) by simp_all
  show "tail_clear (bm_blocks m) (fst (setBitInternal m (bm_bitfield m) i on))"
    "tail_clear (bm_blocks m) (fst (setBitInternal m (bm_useBitfield m) i on))"
    using len(1,2,5) bm_invD(2) [OF assms]
    by (auto intro!: tail_setBitInternal simp: bm_tails_def)
qed

lemma fst_set_ops:
  "fst (setBit m i) = updateCache (m\<lparr>bm_bitfield := fst (setBitInternal m (bm_bitfield m) i True)\<rparr>)"
  "fst (unsetBit m i) = updateCache (m\<lparr>bm_bitfield := fst (setBitInternal m (bm_bitfield m) i False)\<rparr>)"
  "fst (setUseBit m i) = m\<lparr>bm_useBitfield := fst (setBitInternal m (bm_useBitfield m) i True)\<rparr>"
  "fst (unsetUseBit m i) = m\<lparr>bm_useBitfield := fst (setBitInternal m (bm_useBitfield m) i False)\<rparr>"
  by (simp_all add: setBit_def unsetBit_def setUseBit_def unsetUseBit_def case_prod_beta)

lemma snd_set_ops [simp]:
  "snd (setBit m i) \<longleftrightarrow> i < bm_blocks m" "snd (unsetBit m i) \<longleftrightarrow> i < bm_blocks m"
  "snd (setUseBit m i) \<longleftrightarrow> i < bm_blocks m" "snd (unsetUseBit m i) \<longleftrightarrow> i < bm_blocks m"
  by (simp_all add: setBit_def unsetBit_def setUseBit_def unsetUseBit_def case_prod_beta setBitInternal_snd)

lemma set_ops_inv [inv_intros]:
  assumes "bm_inv m"
  shows "bm_inv (fst (setBit m i))" "bm_inv (fst (unsetBit m i))"
    "bm_inv (fst (setUseBit m i))" "bm_inv (fst (unsetUseBit m i))"
  unfolding fst_set_ops by (intro inv_set_bitfield inv_set_use inv_setBitInternal assms)+

lemma set_ops_geometry [simp]:
  "bm_blocks (fst (setBit m i)) = bm_blocks m" "bm_blocks (fst (unsetBit m i)) = bm_blocks m"
  "bm_blocks (fst (setUseBit m i)) = bm_blocks m" "bm_blocks (fst (unsetUseBit m i)) = bm_blocks m"
  "bm_blockLength (fst (setBit m i)) = bm_blockLength m" "bm_blockLength (fst (unsetBit m i)) = bm_blockLength m"
  "bm_blockLength (fst (setUseBit m i)) = bm_blockLength m" "bm_blockLength (fst (unsetUseBit m i)) = bm_blockLength m"
  "bm_totalLength (fst (setBit m i)) = bm_totalLength m" "bm_totalLength (fst (unsetBit m i)) = bm_totalLength m"
  "bm_totalLength (fst (setUseBit m i)) = bm_totalLength m" "bm_totalLength (fst (unsetUseBit m i)) = bm_totalLength m"
  "bm_filterEnabled (fst (setBit m i)) = bm_filterEnabled m" "bm_filterEnabled (fst (unsetBit m i)) = bm_filterEnabled m"
  "bm_filterEnabled (fst (setUseBit m i)) = bm_filterEnabled m" "bm_filterEnabled (fst (unsetUseBit m i)) = bm_filterEnabled m"
  by (simp_all add: fst_set_ops)

lemma set_ops_views [abs_simps]:
  assumes "bm_inv m"
  shows "haves (fst (setBit m i)) = (if i < bm_blocks m then insert i (haves m) else haves m)"
    "uses (fst (setBit m i)) = uses m" "filts (fst (setBit m i)) = filts m"
    "haves (fst (unsetBit m i)) = haves m - {i}"
    "uses (fst (unsetBit m i)) = uses m" "filts (fst (unsetBit m i)) = filts m"
    "uses (fst (setUseBit m i)) = (if i < bm_blocks m then insert i (uses m) else uses m)"
    "haves (fst (setUseBit m i)) = haves m" "filts (fst (setUseBit m i)) = filts m"
    "uses (fst (unsetUseBit m i)) = uses m - {i}"
    "haves (fst (unsetUseBit m i)) = haves m" "filts (fst (unsetUseBit m i)) = filts m"
  using shape_lengths [OF bm_invD(1) [OF assms]]
  by (auto simp: fst_set_ops haves_set_bitfield uses_set_use bitat_setBitInternal haves_def uses_def
      bits_arr_def use_arr_def)

lemma bm_blocks_ceil:
  assumes "bm_shape m" and "0 < bm_blocks m"
  shows "0 < bm_blockLength m" "0 < bm_totalLength m"
    "int (bm_blocks m) = (bm_totalLength m + bm_blockLength m - 1) div bm_blockLength m"
  using assms ceil_div_bounds(3) [of "bm_blockLength m" "bm_totalLength m"]
  by (auto simp: bm_shape_def ceil_blocks_def split: if_splits)

lemma bm_inv_update: "bm_inv (updateCache m) \<longleftrightarrow> bm_shape m \<and> bm_tails m"
  by (simp add: bm_inv_def)

lemma div_ceil_8: "n div 8 + (if n mod 8 \<noteq> 0 then 1 else 0) = (n + 7) div 8" for n :: nat
proof -
  have "n = 8 * (n div 8) + n mod 8" and "n mod 8 < 8" by simp_all
  then obtain q r where n: "n = 8 * q + r" and "r < 8" by blast
  then have "r \<in> {0, 1, 2, 3, 4, 5, 6, 7}" by auto
  then show ?thesis by (auto simp: n)
qed

lemma le_ceil_8: "n \<le> 8 * ((n + 7) div 8)" for n :: nat
  using minus_mod_eq_mult_div [of "n + 7" 8] mod_less_divisor [of 8 "n + 7"] by linarith

lemma blocks_of_size:
  assumes "t < 2 ^ 63" and "b < 2 ^ 31" and "0 < b" and "0 < t"
  shows "size_of_int ((t + b - 1) sdiv b) = nat ((t + b - 1) div b)"
  using assms by (intro size_of_div) simp_all

lemma now_empty:
  assumes "bm_blocks m = 0" and "bm_filterBitfield m = None" and "\<not> bm_filterEnabled m"
  shows "countMissingBlockNow m = 0" "countFilteredBlockNow m = 0" "getFilteredTotalLengthNow m = 0"
    "getCompletedLengthNow m = 0" "getFilteredCompletedLengthNow m = 0"
  using assms by (simp_all add: countMissingBlockNow_def countFilteredBlockNow_def
      getFilteredTotalLengthNow_def getCompletedLengthNow_def getFilteredCompletedLengthNow_def
      completedLengthOf_def computeCompletedLength_def countSetBit_eq)

lemma bm_new_inv:
  assumes "t < 2 ^ 63" and "b < 2 ^ 31"
  shows "bm_inv (bm_new b t)"
proof (cases "0 < b \<and> 0 < t")
  case True
  then show ?thesis using assms blocks_of_size [OF assms]
    by (simp only: bm_new_def Let_def div_ceil_8 bm_inv_update if_True simp_thms)
      (simp add: bm_shape_def bm_tails_def ceil_blocks_def bm_inv_update)
next
  case False
  define m where "m = bm_new b t"
  have fields: "bm_blocks m = 0" "bm_filterBitfield m = None" "\<not> bm_filterEnabled m" "bm_bitfield m = []"
    "bm_useBitfield m = []" "bm_bitfieldLength m = 0" "bm_totalLength m = t" "bm_blockLength m = b"
    using False by (auto simp: m_def bm_new_def Let_def)
  have "updateCache m = m"
    unfolding updateCache_def now_empty [OF fields(1-3)] using False
    by (auto simp: m_def bm_new_def Let_def)
  then have "bm_inv m" using assms False fields
    by (auto simp: bm_inv_def bm_shape_def bm_tails_def bm_cached_def ceil_blocks_def tail_clear_def)
  then show ?thesis by (simp add: m_def)
qed

lemma bm_new_geometry [simp]:
  "bm_totalLength (bm_new b t) = t" "bm_blockLength (bm_new b t) = b"
  "bm_filterEnabled (bm_new b t) = False" "filts (bm_new b t) = {}"
  by (simp_all add: bm_new_def Let_def filts_def)

lemma bm_new_empty [simp]: "haves (bm_new b t) = {}" "uses (bm_new b t) = {}"
proof -
  have no: "{i. i < n \<and> bitat (array (replicate ((n + 7) div 8) 0)) i} = {}" for n :: nat
  proof -
    have "i < 8 * ((n + 7) div 8)" if "i < n" for i using that le_ceil_8 [of n] by linarith
    then show ?thesis by auto
  qed
  show "haves (bm_new b t) = {}" "uses (bm_new b t) = {}"
    unfolding bm_new_def Let_def div_ceil_8 if_distrib [of haves] if_distrib [of uses] views_update
    by (simp_all add: haves_def uses_def bits_arr_def use_arr_def no)
qed

end
