(* ===== verification/BitfieldProps.thy ===== *)
theory BitfieldProps
  imports BitfieldMan
begin

text \<open>
  What the operations of \<open>BitfieldMan\<close> promise: each keeps the invariant \<open>bm_inv\<close>, acts on
  the sets \<open>haves\<close>, \<open>uses\<close> and \<open>filts\<close> as its name says, and the counters and
  lengths it reports are the cardinalities and byte counts of those sets.
\<close>

subsection \<open>Whole-array writes\<close>

lemma fold_setBitInternal:
  assumes "bm_blocks m \<le> 8 * length bs" and "tail_clear (bm_blocks m) bs"
  shows "length (fold (\<lambda>i bs. fst (setBitInternal m bs i on)) is bs) = length bs \<and>
    tail_clear (bm_blocks m) (fold (\<lambda>i bs. fst (setBitInternal m bs i on)) is bs) \<and>
    (\<forall>j. bitat (array (fold (\<lambda>i bs. fst (setBitInternal m bs i on)) is bs)) j \<longleftrightarrow>
      (if j \<in> set is \<and> j < bm_blocks m then on else bitat (array bs) j))"
  using assms
proof (induction "is" arbitrary: bs)
  case Nil
  then show ?case by simp
next
  case (Cons i "is")
  show ?case using Cons.IH [of "fst (setBitInternal m bs i on)"] Cons.prems
    by (auto simp: bitat_setBitInternal tail_setBitInternal)
qed

lemmas fold_setBitInternal_simps =
  fold_setBitInternal [THEN conjunct1] fold_setBitInternal [THEN conjunct2, THEN conjunct1]
  fold_setBitInternal [THEN conjunct2, THEN conjunct2, THEN spec]

lemma inv_tails:
  assumes "bm_inv m"
  shows "bm_blocks m \<le> 8 * length (bm_bitfield m)" "tail_clear (bm_blocks m) (bm_bitfield m)"
    "bm_blocks m \<le> 8 * length (bm_useBitfield m)" "tail_clear (bm_blocks m) (bm_useBitfield m)"
  using shape_lengths [OF bm_invD(1) [OF assms]] bm_invD(2) [OF assms] by (simp_all add: bm_tails_def)

lemma setAll_inv [inv_intros]:
  assumes "bm_inv m"
  shows "bm_inv (setAllBit m)" "bm_inv (setAllUseBit m)"
proof -
  note t = inv_tails [OF assms] and l = shape_lengths(1,2) [OF bm_invD(1) [OF assms]]
  show "bm_inv (setAllBit m)" unfolding setAllBit_def
    by (rule inv_set_bitfield) (use assms l fold_setBitInternal_simps(1,2) [OF t(1,2)] in auto)
  show "bm_inv (setAllUseBit m)" unfolding setAllUseBit_def
    by (rule inv_set_use) (use assms l fold_setBitInternal_simps(1,2) [OF t(3,4)] in auto)
qed

lemma setAll_views [abs_simps]:
  assumes "bm_inv m"
  shows "haves (setAllBit m) = {..<bm_blocks m}" "uses (setAllBit m) = uses m" "filts (setAllBit m) = filts m"
    "uses (setAllUseBit m) = {..<bm_blocks m}" "haves (setAllUseBit m) = haves m" "filts (setAllUseBit m) = filts m"
  using inv_tails [OF assms]
  by (auto simp: setAllBit_def setAllUseBit_def haves_set_bitfield uses_set_use fold_setBitInternal_simps)

lemma no_bits_zero: "n \<le> 8 * k \<Longrightarrow> {i. i < n \<and> bitat (array (replicate k 0)) i} = {}"
  by (auto dest: less_le_trans)

lemma clear_inv [inv_intros]:
  assumes "bm_inv m"
  shows "bm_inv (clearAllBit m)" "bm_inv (clearAllUseBit m)"
  using assms unfolding clearAllBit_def clearAllUseBit_def by (auto intro!: inv_intros)

lemma clear_views [abs_simps]:
  assumes "bm_inv m"
  shows "haves (clearAllBit m) = {}" "uses (clearAllBit m) = uses m" "filts (clearAllBit m) = filts m"
    "uses (clearAllUseBit m) = {}" "haves (clearAllUseBit m) = haves m" "filts (clearAllUseBit m) = filts m"
  using shape_lengths(5) [OF bm_invD(1) [OF assms]]
  by (simp_all add: clearAllBit_def clearAllUseBit_def haves_set_bitfield uses_set_use no_bits_zero)

lemma all_ops_geometry [simp]:
  "bm_blocks (setAllBit m) = bm_blocks m" "bm_blocks (clearAllBit m) = bm_blocks m"
  "bm_blocks (clearAllUseBit m) = bm_blocks m" "bm_blocks (setAllUseBit m) = bm_blocks m"
  "bm_blocks (setBitfield m bs) = bm_blocks m"
  "bm_blockLength (setAllBit m) = bm_blockLength m" "bm_blockLength (clearAllBit m) = bm_blockLength m"
  "bm_blockLength (clearAllUseBit m) = bm_blockLength m" "bm_blockLength (setAllUseBit m) = bm_blockLength m"
  "bm_blockLength (setBitfield m bs) = bm_blockLength m"
  "bm_totalLength (setAllBit m) = bm_totalLength m" "bm_totalLength (clearAllBit m) = bm_totalLength m"
  "bm_totalLength (clearAllUseBit m) = bm_totalLength m" "bm_totalLength (setAllUseBit m) = bm_totalLength m"
  "bm_totalLength (setBitfield m bs) = bm_totalLength m"
  "bm_filterEnabled (setAllBit m) = bm_filterEnabled m" "bm_filterEnabled (clearAllBit m) = bm_filterEnabled m"
  "bm_filterEnabled (clearAllUseBit m) = bm_filterEnabled m" "bm_filterEnabled (setAllUseBit m) = bm_filterEnabled m"
  "bm_filterEnabled (setBitfield m bs) = bm_filterEnabled m"
  by (simp_all add: setAllBit_def clearAllBit_def clearAllUseBit_def setAllUseBit_def setBitfield_def)

text \<open>
  \<open>setBitfield\<close> copies bytes from outside; the invariant asks that their spare bits be clear.
\<close>

lemma setBitfield_inv [inv_intros]:
  assumes "bm_inv m" and "tail_clear (bm_blocks m) bs"
  shows "bm_inv (setBitfield m bs)"
proof (cases "bm_bitfieldLength m = 0 \<or> bm_bitfieldLength m \<noteq> length bs")
  case True
  then show ?thesis using assms by (simp add: setBitfield_def)
next
  case False
  then show ?thesis using assms
    by (auto simp: setBitfield_def bm_inv_def bm_shape_def bm_tails_def)
qed

lemma setBitfield_views [abs_simps]:
  assumes "bm_inv m" and "length bs = bm_bitfieldLength m"
  shows "haves (setBitfield m bs) = {i. i < bm_blocks m \<and> bitat (array bs) i}"
    "uses (setBitfield m bs) = {}" "filts (setBitfield m bs) = filts m"
proof -
  note len = shape_lengths [OF bm_invD(1) [OF assms(1)]]
  have "haves (setBitfield m bs) = {i. i < bm_blocks m \<and> bitat (array bs) i} \<and>
    uses (setBitfield m bs) = {} \<and> filts (setBitfield m bs) = filts m"
  proof (cases "bm_bitfieldLength m = 0")
    case True
    then have "bm_blocks m = 0" using len(5) by simp
    then show ?thesis using True by (auto simp: setBitfield_def haves_def uses_def)
  next
    case False
    then show ?thesis using assms len(5)
      by (auto simp: setBitfield_def haves_def uses_def filts_def bits_arr_def use_arr_def
          split: option.splits)
  qed
  then show "haves (setBitfield m bs) = {i. i < bm_blocks m \<and> bitat (array bs) i}"
    "uses (setBitfield m bs) = {}" "filts (setBitfield m bs) = filts m" by blast+
qed

subsection \<open>Filters\<close>

text \<open>The blocks that hold a byte of \<open>[offset, offset + len)\<close>.\<close>

definition touched :: "bitfield_man \<Rightarrow> int \<Rightarrow> int \<Rightarrow> nat set" where
  "touched m offset len =
     {i. i < bm_blocks m \<and> (\<exists>x. offset \<le> x \<and> x < offset + len \<and> x div bm_blockLength m = int i)}"

lemma touched_range:
  assumes "0 \<le> offset" and "0 < len" and "offset + len \<le> 2 ^ 63" and "0 < bm_blockLength m"
  defines "s \<equiv> size_of_int (offset sdiv bm_blockLength m)"
    and "e \<equiv> size_of_int ((offset + len - 1) sdiv bm_blockLength m)"
  shows "touched m offset len = {i. i < bm_blocks m \<and> s \<le> i \<and> i \<le> e}" and "s \<le> e" and "e < 2 ^ 63"
proof -
  let ?b = "bm_blockLength m"
  have s: "int s = offset div ?b" and e: "int e = (offset + len - 1) div ?b"
    using assms by (simp_all add: size_of_div pos_imp_zdiv_nonneg_iff)
  have mono: "offset div ?b \<le> (offset + len - 1) div ?b"
    using assms by (intro zdiv_mono1) simp_all
  then show "s \<le> e" using s e by linarith
  have "(offset + len - 1) div ?b < 2 ^ 63" using assms by (intro div_pos_less) simp_all
  then have "int e < int (2 ^ 63)" using e by simp
  then show "e < 2 ^ 63" by (simp only: of_nat_less_iff)
  have hit: "(\<exists>x. offset \<le> x \<and> x < offset + len \<and> x div ?b = int i) \<longleftrightarrow>
      offset div ?b \<le> int i \<and> int i \<le> (offset + len - 1) div ?b" for i
  proof
    assume "\<exists>x. offset \<le> x \<and> x < offset + len \<and> x div ?b = int i"
    then obtain x where x: "offset \<le> x" "x \<le> offset + len - 1" "x div ?b = int i" by auto
    show "offset div ?b \<le> int i \<and> int i \<le> (offset + len - 1) div ?b"
      using zdiv_mono1 [OF x(1) assms(4)] zdiv_mono1 [OF x(2) assms(4)] x(3) by simp
  next
    assume i: "offset div ?b \<le> int i \<and> int i \<le> (offset + len - 1) div ?b"
    then have lo: "int i * ?b \<le> offset + len - 1" using le_div_iff [OF assms(4)] by blast
    from i have hi: "offset < (int i + 1) * ?b" using div_less_iff [OF assms(4), of offset "int i + 1"] by simp
    have b: "int i * ?b < (int i + 1) * ?b" using assms(4) by simp
    define x where "x = max offset (int i * ?b)"
    have "offset \<le> x" "x < offset + len" "int i * ?b \<le> x" "x < (int i + 1) * ?b"
      using lo hi b assms(2) unfolding x_def by (auto simp: max_def)
    then show "\<exists>x. offset \<le> x \<and> x < offset + len \<and> x div ?b = int i"
      using div_eq_iff_between [OF assms(4)] by blast
  qed
  show "touched m offset len = {i. i < bm_blocks m \<and> s \<le> i \<and> i \<le> e}"
    unfolding touched_def hit using s e by auto
qed

text \<open>A loop of filter writes, on an allocated filter.\<close>

lemma fold_writeFilterBit:
  "bm_filterBitfield m = Some f \<Longrightarrow>
   fold (writeFilterBit on) is m =
     m\<lparr>bm_filterBitfield := Some (fold (\<lambda>i bs. fst (setBitInternal m bs i on)) is f)\<rparr>"
proof (induction "is" arbitrary: m f)
  case Nil
  then show ?case by simp
next
  case (Cons i "is")
  define m' where "m' = writeFilterBit on i m"
  have m': "bm_filterBitfield m' = Some (fst (setBitInternal m f i on))"
    using Cons.prems by (simp add: m'_def writeFilterBit_def)
  have eq: "setBitInternal m' = setBitInternal m"
    by (rule setBitInternal_cong) (simp add: m'_def writeFilterBit_def)
  have "fold (writeFilterBit on) (i # is) m = fold (writeFilterBit on) is m'"
    by (simp add: m'_def)
  also have "\<dots> = m'\<lparr>bm_filterBitfield :=
      Some (fold (\<lambda>i bs. fst (setBitInternal m bs i on)) is (fst (setBitInternal m f i on)))\<rparr>"
    using Cons.IH [OF m'] by (simp only: eq)
  also have "\<dots> = m\<lparr>bm_filterBitfield :=
      Some (fold (\<lambda>i bs. fst (setBitInternal m bs i on)) (i # is) f)\<rparr>"
    unfolding m'_def writeFilterBit_def Cons.prems by simp
  finally show ?case .
qed

lemma setFilterBit_eq: "setFilterBit = writeFilterBit True"
  by (simp add: fun_eq_iff setFilterBit_def)

lemma inv_set_filter:
  assumes "bm_inv m" and "length f = bm_bitfieldLength m" and "tail_clear (bm_blocks m) f"
  shows "bm_inv (updateCache (m\<lparr>bm_filterBitfield := Some f\<rparr>))"
  using assms by (auto simp: bm_inv_def bm_shape_def bm_tails_def)

lemma views_set_filter:
  "filts (m\<lparr>bm_filterBitfield := Some f\<rparr>) = {i. i < bm_blocks m \<and> bitat (array f) i}"
  "haves (m\<lparr>bm_filterBitfield := Some f\<rparr>) = haves m" "uses (m\<lparr>bm_filterBitfield := Some f\<rparr>) = uses m"
  by (simp_all add: filts_def haves_def uses_def bits_arr_def use_arr_def)

text \<open>The filter after \<open>ensureFilterBitfield\<close>.\<close>

definition ensured :: "bitfield_man \<Rightarrow> byte list" where
  "ensured m = (case bm_filterBitfield m of None \<Rightarrow> replicate (bm_bitfieldLength m) 0 | Some f \<Rightarrow> f)"

lemma ensureFilterBitfield_eq: "ensureFilterBitfield m = m\<lparr>bm_filterBitfield := Some (ensured m)\<rparr>"
  by (cases m) (auto simp: ensureFilterBitfield_def ensured_def)

lemma ensured_props:
  assumes "bm_inv m"
  shows "length (ensured m) = bm_bitfieldLength m" "tail_clear (bm_blocks m) (ensured m)"
    "{i. i < bm_blocks m \<and> bitat (array (ensured m)) i} = filts m"
  using assms shape_lengths(5) [of m]
  by (auto simp: ensured_def bm_inv_def bm_shape_def bm_tails_def filts_def no_bits_zero split: option.split)

text \<open>One loop over a set of blocks: the invariant is kept and those filter bits are set or cleared.\<close>

lemma filter_loop:
  fixes m :: bitfield_man and "is" :: "nat list" and on :: bool
  assumes "bm_inv m"
  defines "m' \<equiv> updateCache (fold (writeFilterBit on) is (ensureFilterBitfield m))"
  shows "bm_inv m'" "haves m' = haves m" "uses m' = uses m" "bm_filterEnabled m' = bm_filterEnabled m"
    "filts m' = (if on then filts m \<union> (set is \<inter> {..<bm_blocks m}) else filts m - set is)"
proof -
  note e = ensured_props [OF assms(1)]
  define f where "f = fold (\<lambda>i bs. fst (setBitInternal m bs i on)) is (ensured m)"
  have cong: "setBitInternal (m\<lparr>bm_filterBitfield := g\<rparr>) = setBitInternal m" for g
    by (rule setBitInternal_cong) simp
  have m': "m' = updateCache (m\<lparr>bm_filterBitfield := Some f\<rparr>)"
    unfolding m'_def ensureFilterBitfield_eq by (simp add: fold_writeFilterBit cong f_def)
  have le: "bm_blocks m \<le> 8 * length (ensured m)"
    using e(1) shape_lengths(5) [OF bm_invD(1) [OF assms(1)]] by simp
  have f: "length f = bm_bitfieldLength m" "tail_clear (bm_blocks m) f"
    "bitat (array f) j \<longleftrightarrow> (if j \<in> set is \<and> j < bm_blocks m then on else bitat (array (ensured m)) j)" for j
    unfolding f_def using fold_setBitInternal_simps [OF le e(2)] e(1) by simp_all
  show "bm_inv m'" unfolding m' by (rule inv_set_filter [OF assms(1) f(1,2)])
  show "haves m' = haves m" "uses m' = uses m" "bm_filterEnabled m' = bm_filterEnabled m"
    by (simp_all add: m' views_set_filter)
  show "filts m' = (if on then filts m \<union> (set is \<inter> {..<bm_blocks m}) else filts m - set is)"
    by (auto simp: m' views_set_filter f(3) e(3) [symmetric])
qed

lemma filter_noop:
  assumes "bm_inv m"
  shows "bm_inv (updateCache (ensureFilterBitfield m))" "haves (updateCache (ensureFilterBitfield m)) = haves m"
    "uses (updateCache (ensureFilterBitfield m)) = uses m" "filts (updateCache (ensureFilterBitfield m)) = filts m"
    "bm_filterEnabled (updateCache (ensureFilterBitfield m)) = bm_filterEnabled m"
  using filter_loop [OF assms, of True "[]"] by simp_all

lemma geometry_fold_filter [simp]:
  "bm_blocks (fold (writeFilterBit on) is m) = bm_blocks m"
  "bm_blockLength (fold (writeFilterBit on) is m) = bm_blockLength m"
  "bm_totalLength (fold (writeFilterBit on) is m) = bm_totalLength m"
  "bm_blocks (ensureFilterBitfield m) = bm_blocks m"
  "bm_blockLength (ensureFilterBitfield m) = bm_blockLength m"
  "bm_totalLength (ensureFilterBitfield m) = bm_totalLength m"
  by (induction "is" arbitrary: m) (simp_all add: writeFilterBit_def ensureFilterBitfield_eq)

text \<open>The three filter operations on a byte range, in a file with blocks.\<close>

lemma range_upt: "set [s..<min (e + 1) n] = {i. i < n \<and> s \<le> i \<and> i \<le> e}" for s e n :: nat
  by auto

lemma touched_less: "touched m offset len \<inter> {..<bm_blocks m} = touched m offset len"
  by (auto simp: touched_def)

lemma addFilter_spec:
  assumes "bm_inv m" and "0 \<le> offset" and "0 < len" and "offset + len \<le> 2 ^ 63" and "0 < bm_blockLength m"
  shows "\<exists>m'. addFilter m offset len = Some m' \<and> bm_inv m' \<and> haves m' = haves m \<and> uses m' = uses m \<and>
    filts m' = filts m \<union> touched m offset len \<and> bm_filterEnabled m' = bm_filterEnabled m"
proof -
  note t = touched_range(1) [OF assms(2-5)]
  define s e where "s = size_of_int (offset sdiv bm_blockLength m)"
    and "e = size_of_int ((offset + len - 1) sdiv bm_blockLength m)"
  define m' where "m' = updateCache (fold (writeFilterBit True) [s..<min (e + 1) (bm_blocks m)] (ensureFilterBitfield m))"
  have "addFilter m offset len = Some m'"
    using assms(3,5) by (simp add: addFilter_def Let_def setFilterBit_eq m'_def s_def e_def)
  moreover have "filts m' = filts m \<union> touched m offset len"
    unfolding m'_def filter_loop(5) [OF assms(1)] range_upt t [folded s_def e_def, symmetric]
    by (simp add: touched_less)
  ultimately show ?thesis
    using filter_loop(1-4) [OF assms(1), of True "[s..<min (e + 1) (bm_blocks m)]"] by (simp add: m'_def)
qed

lemma removeFilter_spec:
  assumes "bm_inv m" and "0 \<le> offset" and "0 < len" and "offset + len \<le> 2 ^ 63" and "0 < bm_blockLength m"
  shows "\<exists>m'. removeFilter m offset len = Some m' \<and> bm_inv m' \<and> haves m' = haves m \<and> uses m' = uses m \<and>
    filts m' = filts m - touched m offset len \<and> bm_filterEnabled m' = bm_filterEnabled m"
proof -
  note t = touched_range(1) [OF assms(2-5)]
  define s e where "s = size_of_int (offset sdiv bm_blockLength m)"
    and "e = size_of_int ((offset + len - 1) sdiv bm_blockLength m)"
  define m' where "m' = updateCache (fold (writeFilterBit False) [s..<min (e + 1) (bm_blocks m)] (ensureFilterBitfield m))"
  have "removeFilter m offset len = Some m'"
    using assms(3,5) by (simp add: removeFilter_def Let_def m'_def s_def e_def)
  moreover have "filts m' = filts m - touched m offset len"
    unfolding m'_def filter_loop(5) [OF assms(1)] range_upt t [folded s_def e_def, symmetric]
    by simp
  ultimately show ?thesis
    using filter_loop(1-4) [OF assms(1), of False "[s..<min (e + 1) (bm_blocks m)]"] by (simp add: m'_def)
qed

lemma addNotFilter_spec:
  assumes "bm_inv m" and "0 \<le> offset" and "0 < len" and "offset + len \<le> 2 ^ 63" and "0 < bm_blocks m"
  shows "\<exists>m'. addNotFilter m offset len = Some m' \<and> bm_inv m' \<and> haves m' = haves m \<and> uses m' = uses m \<and>
    filts m' = filts m \<union> ({..<bm_blocks m} - touched m offset len) \<and> bm_filterEnabled m' = bm_filterEnabled m"
proof -
  have b: "0 < bm_blockLength m" using bm_blocks_ceil assms(1,5) by (auto simp: bm_inv_def)
  note t = touched_range [OF assms(2-4) b]
  define s e where "s = size_of_int (offset sdiv bm_blockLength m)"
    and "e = size_of_int ((offset + len - 1) sdiv bm_blockLength m)"
  have e: "(e + 1) mod 2 ^ 64 = e + 1" and se: "s \<le> e" using t(2,3) unfolding s_def e_def by simp_all
  define ix where "ix = [0..<min s (bm_blocks m)] @ [e + 1..<bm_blocks m]"
  define m' where "m' = updateCache (fold (writeFilterBit True) ix (ensureFilterBitfield m))"
  have "(if bm_blocks m \<le> s then bm_blocks m else s) = min s (bm_blocks m)" by auto
  then have "addNotFilter m offset len = Some m'"
    using assms(3,5) b e
    by (simp add: addNotFilter_def Let_def setFilterBit_eq m'_def ix_def s_def [symmetric] e_def [symmetric])
  moreover have "set ix \<inter> {..<bm_blocks m} = {..<bm_blocks m} - touched m offset len"
    using se unfolding ix_def t(1) s_def [symmetric] e_def [symmetric] by auto
  ultimately show ?thesis
    using filter_loop [OF assms(1), of True ix] by (simp add: m'_def)
qed

text \<open>With nothing to select, the three operations only allocate the filter.\<close>

lemma filter_ops_empty:
  assumes "len \<le> 0"
  shows "addFilter m offset len = Some (updateCache (ensureFilterBitfield m))"
    "removeFilter m offset len = Some (updateCache (ensureFilterBitfield m))"
    "addNotFilter m offset len = Some (updateCache (ensureFilterBitfield m))"
  using assms by (simp_all add: addFilter_def removeFilter_def addNotFilter_def Let_def)

lemma filter_ops_total:
  "0 < bm_blockLength m \<Longrightarrow> addFilter m offset len \<noteq> None"
  "0 < bm_blockLength m \<Longrightarrow> removeFilter m offset len \<noteq> None"
  "0 < bm_blockLength m \<Longrightarrow> addNotFilter m offset len \<noteq> None"
  by (simp_all add: addFilter_def removeFilter_def addNotFilter_def Let_def)

lemma switch_filter_inv [inv_intros]:
  assumes "bm_inv m"
  shows "bm_inv (enableFilter m)" "bm_inv (disableFilter m)" "bm_inv (clearFilter m)"
  using assms ensured_props [OF assms]
  by (auto simp: enableFilter_def disableFilter_def clearFilter_def ensureFilterBitfield_eq
      bm_inv_def bm_shape_def bm_tails_def)

lemma switch_filter_views [abs_simps]:
  assumes "bm_inv m"
  shows "haves (enableFilter m) = haves m" "uses (enableFilter m) = uses m" "filts (enableFilter m) = filts m"
    "haves (disableFilter m) = haves m" "uses (disableFilter m) = uses m" "filts (disableFilter m) = filts m"
    "haves (clearFilter m) = haves m" "uses (clearFilter m) = uses m" "filts (clearFilter m) = {}"
    "bm_filterEnabled (enableFilter m)" "\<not> bm_filterEnabled (disableFilter m)" "\<not> bm_filterEnabled (clearFilter m)"
  using ensured_props(3) [OF assms]
  by (simp_all add: enableFilter_def disableFilter_def clearFilter_def ensureFilterBitfield_eq
      haves_def uses_def filts_def bits_arr_def use_arr_def split: option.split)

subsection \<open>Copies\<close>

lemma copy_inv [inv_intros]:
  assumes "bm_inv other"
  shows "bm_inv (bm_copy h other)" "bm_inv (bm_assign this other)"
  using assms by (auto simp: bm_copy_def bm_assign_def bm_inv_def bm_shape_def bm_tails_def split: if_splits)

lemma copy_views [abs_simps]:
  "haves (bm_copy h other) = haves other" "uses (bm_copy h other) = uses other"
  "selected (bm_copy h other) = selected other"
  "haves (bm_assign this other) = haves other" "uses (bm_assign this other) = uses other"
  "selected (bm_assign this other) = selected other"
  by (simp_all add: bm_copy_def bm_assign_def haves_def uses_def selected_def filts_def bits_arr_def use_arr_def
      split: option.split)

subsection \<open>Counters and byte lengths\<close>

lemma card_views:
  "countbits (bits_arr m) (bm_blocks m) = card (haves m)"
  "bm_filterBitfield m \<noteq> None \<Longrightarrow> countbits (filter_arr m) (bm_blocks m) = card (filts m)"
  "bm_filterBitfield m \<noteq> None \<Longrightarrow>
     countbits (arr_and (bits_arr m) (filter_arr m)) (bm_blocks m) = card (haves m \<inter> filts m)"
  by (auto simp: countbits_def haves_def filts_def filter_arr_def intro: arg_cong [where f = card])

lemma enabled_filter: "bm_shape m \<Longrightarrow> bm_filterEnabled m \<Longrightarrow> bm_filterBitfield m \<noteq> None"
  by (simp add: bm_shape_def)

lemma countMissingBlockNow_card:
  assumes "bm_shape m"
  shows "countMissingBlockNow m = card (selected m - haves m)"
proof (cases "bm_filterEnabled m")
  case True
  note f = enabled_filter [OF assms True]
  have "card (haves m \<inter> filts m) \<le> card (filts m)" by (rule card_mono) auto
  moreover have "card (filts m) - card (haves m \<inter> filts m) = card (filts m - haves m)"
    by (simp add: card_Diff_subset_Int Int_commute)
  ultimately show ?thesis using True f
    by (simp add: countMissingBlockNow_def countSetBit_eq countSetBitSlow_eq card_views selected_def)
next
  case False
  have sub: "haves m \<subseteq> {..<bm_blocks m}" by (auto dest: views_less)
  then have "card (haves m) \<le> bm_blocks m" using card_mono [of "{..<bm_blocks m}" "haves m"] by simp
  then show ?thesis using False sub
    by (simp add: countMissingBlockNow_def countSetBit_eq card_views selected_def card_Diff_subset)
qed

lemma countFilteredBlockNow_card:
  assumes "bm_shape m"
  shows "countFilteredBlockNow m = (if bm_filterEnabled m then card (filts m) else 0)"
  using enabled_filter [OF assms] by (simp add: countFilteredBlockNow_def countSetBit_eq card_views)

text \<open>The last block is the rest, never empty and never longer than a block.\<close>

lemma getLastBlockLength_rest:
  assumes "bm_shape m" and "0 < bm_blocks m"
  shows "getLastBlockLength m = bm_totalLength m - bm_blockLength m * int (bm_blocks m - 1)"
    "0 < getLastBlockLength m" "getLastBlockLength m \<le> bm_blockLength m"
proof -
  note c = bm_blocks_ceil [OF assms]
  note d = ceil_div_bounds [OF c(1,2), folded c(3)]
  have i: "int (bm_blocks m - 1) = int (bm_blocks m) - 1" using assms(2) by simp
  define l where "l = bm_totalLength m - bm_blockLength m * int (bm_blocks m - 1)"
  have pos: "0 < l" and le: "l \<le> bm_blockLength m"
    using d by (simp_all add: l_def i algebra_simps)
  have "l < 2 ^ 63" using le assms(1) by (simp add: bm_shape_def)
  then have "int64_of l = l" using pos by simp
  then have "getLastBlockLength m = l" using pos le assms(2)
    by (simp add: getLastBlockLength_def l_def)
  then show "getLastBlockLength m = bm_totalLength m - bm_blockLength m * int (bm_blocks m - 1)"
    "0 < getLastBlockLength m" "getLastBlockLength m \<le> bm_blockLength m"
    using pos le by (simp_all add: l_def)
qed

lemma getBlockLength_in:
  assumes "0 < bm_blocks m" and "i < bm_blocks m"
  shows "getBlockLength m i = (if i = bm_blocks m - 1 then getLastBlockLength m else bm_blockLength m)"
  using assms by (auto simp: getBlockLength_def)

lemma getBlockLength_bounds:
  assumes "bm_shape m" and "i < bm_blocks m"
  shows "0 < getBlockLength m i" "getBlockLength m i \<le> bm_blockLength m"
  using assms getLastBlockLength_rest [OF assms(1)] bm_blocks_ceil [OF assms(1)]
  by (auto simp: getBlockLength_in)

lemma sum_getBlockLength:
  assumes "S \<subseteq> {..<bm_blocks m}"
  shows "(\<Sum>i\<in>S. getBlockLength m i) =
    (if S = {} then 0
     else if bm_blocks m - 1 \<in> S then (int (card S) - 1) * bm_blockLength m + getLastBlockLength m
     else int (card S) * bm_blockLength m)"
proof -
  have fin: "finite S" using assms finite_subset by auto
  have blk: "getBlockLength m i = (if i = bm_blocks m - 1 then getLastBlockLength m else bm_blockLength m)"
    if "i \<in> S" for i using that assms by (intro getBlockLength_in) auto
  show ?thesis
  proof (cases "bm_blocks m - 1 \<in> S")
    case True
    then have one: "1 \<le> card S" using fin by (metis Suc_le_eq One_nat_def card_gt_0_iff empty_iff)
    have "(\<Sum>i\<in>S. getBlockLength m i) =
        getLastBlockLength m + (\<Sum>i\<in>S - {bm_blocks m - 1}. getBlockLength m i)"
      using True by (subst sum.remove [OF fin True]) (simp add: blk)
    also have "(\<Sum>i\<in>S - {bm_blocks m - 1}. getBlockLength m i) =
        (\<Sum>i\<in>S - {bm_blocks m - 1}. bm_blockLength m)" by (rule sum.cong) (auto simp: blk)
    also have "\<dots> = (int (card S) - 1) * bm_blockLength m"
      using True fin one by (simp add: card_Diff_singleton of_nat_diff)
    finally show ?thesis using True by auto
  next
    case False
    have "(\<Sum>i\<in>S. getBlockLength m i) = (\<Sum>i\<in>S. bm_blockLength m)"
      using False by (intro sum.cong) (auto simp: blk)
    then show ?thesis using False by auto
  qed
qed

lemma length_of_count:
  assumes "S = {i. i < bm_blocks m \<and> bitat a i}" and "c = card S"
  shows "(if c = 0 then 0
      else if test a (bm_blocks m) (bm_blocks m - 1) then (int c - 1) * bm_blockLength m + getLastBlockLength m
      else int c * bm_blockLength m) = (\<Sum>i\<in>S. getBlockLength m i)"
proof -
  have fin: "finite S" and sub: "S \<subseteq> {..<bm_blocks m}" using assms(1) by auto
  then show ?thesis unfolding sum_getBlockLength [OF sub] using assms
    by (auto simp: card_gt_0_iff)
qed

lemma getFilteredTotalLengthNow_sum:
  "getFilteredTotalLengthNow m = (\<Sum>i\<in>filts m. getBlockLength m i)"
proof (cases "bm_filterBitfield m")
  case None
  then show ?thesis by (simp add: getFilteredTotalLengthNow_def filts_def)
next
  case (Some f)
  then have "filts m = {i. i < bm_blocks m \<and> bitat (filter_arr m) i}"
    by (simp add: filts_def filter_arr_def)
  moreover have "countSetBit (filter_arr m) (bm_blocks m) = card (filts m)"
    using Some by (simp add: countSetBit_eq card_views)
  ultimately show ?thesis using Some
    unfolding getFilteredTotalLengthNow_def Let_def by (simp only: length_of_count) simp
qed

lemma completedLengthOf_sum:
  assumes "bm_shape m"
  shows "completedLengthOf m u = (\<Sum>i\<in>haves m \<inter> (if u then selected m else {..<bm_blocks m}). getBlockLength m i)"
proof (cases "u \<and> bm_filterEnabled m")
  case True
  then have f: "bm_filterBitfield m \<noteq> None" using enabled_filter [OF assms] by simp
  then have "haves m \<inter> filts m = {i. i < bm_blocks m \<and> bitat (arr_and (bits_arr m) (filter_arr m)) i}"
    by (auto simp: haves_def filts_def filter_arr_def)
  moreover have "countSetBitSlow (arr_and (bits_arr m) (filter_arr m)) (bm_blocks m) = card (haves m \<inter> filts m)"
    using f by (simp add: countSetBitSlow_eq card_views)
  ultimately show ?thesis using True
    unfolding completedLengthOf_def computeCompletedLength_def Let_def selected_def
    by (simp only: length_of_count) simp
next
  case False
  have "haves m = {i. i < bm_blocks m \<and> bitat (bits_arr m) i}" by (simp add: haves_def)
  moreover have "countSetBit (bits_arr m) (bm_blocks m) = card (haves m)"
    by (simp add: countSetBit_eq card_views)
  moreover have "haves m \<inter> (if u then selected m else {..<bm_blocks m}) = haves m"
    using False by (auto simp: selected_def dest: views_less)
  ultimately show ?thesis using False
    unfolding completedLengthOf_def computeCompletedLength_def Let_def
    by (simp only: length_of_count if_False)
qed

lemma sum_all_blocks:
  assumes "bm_shape m" and "0 < bm_blocks m"
  shows "(\<Sum>i<bm_blocks m. getBlockLength m i) = bm_totalLength m"
proof -
  have "(\<Sum>i<bm_blocks m. getBlockLength m i) =
      (int (bm_blocks m) - 1) * bm_blockLength m + getLastBlockLength m"
    using assms(2) by (simp add: sum_getBlockLength lessThan_empty_iff)
  then show ?thesis using getLastBlockLength_rest(1) [OF assms] assms(2)
    by (simp add: of_nat_diff Suc_le_eq algebra_simps)
qed

text \<open>What the cached counters mean, in any state that satisfies the invariant.\<close>

lemma cached_meaning:
  assumes "bm_inv m"
  shows "bm_cachedNumMissingBlock m = card (selected m - haves m)"
    "bm_cachedNumFilteredBlock m = (if bm_filterEnabled m then card (filts m) else 0)"
    "bm_cachedFilteredTotalLength m = (\<Sum>i\<in>filts m. getBlockLength m i)"
    "bm_cachedCompletedLength m = (\<Sum>i\<in>haves m. getBlockLength m i)"
    "bm_cachedFilteredCompletedLength m = (\<Sum>i\<in>haves m \<inter> selected m. getBlockLength m i)"
proof -
  have sh: "bm_shape m" and u: "updateCache m = m" using assms by (simp_all add: bm_inv_def bm_cached_def)
  have eqs: "bm_cachedNumMissingBlock m = countMissingBlockNow m"
    "bm_cachedNumFilteredBlock m = countFilteredBlockNow m"
    "bm_cachedFilteredTotalLength m = getFilteredTotalLengthNow m"
    "bm_cachedCompletedLength m = getCompletedLengthNow m"
    "bm_cachedFilteredCompletedLength m = getFilteredCompletedLengthNow m"
    using arg_cong [OF u, of bm_cachedNumMissingBlock] arg_cong [OF u, of bm_cachedNumFilteredBlock]
      arg_cong [OF u, of bm_cachedFilteredTotalLength] arg_cong [OF u, of bm_cachedCompletedLength]
      arg_cong [OF u, of bm_cachedFilteredCompletedLength]
    by (simp_all add: updateCache_def)
  have "haves m \<inter> {..<bm_blocks m} = haves m" by (auto dest: views_less)
  then show "bm_cachedNumMissingBlock m = card (selected m - haves m)"
    "bm_cachedNumFilteredBlock m = (if bm_filterEnabled m then card (filts m) else 0)"
    "bm_cachedFilteredTotalLength m = (\<Sum>i\<in>filts m. getBlockLength m i)"
    "bm_cachedCompletedLength m = (\<Sum>i\<in>haves m. getBlockLength m i)"
    "bm_cachedFilteredCompletedLength m = (\<Sum>i\<in>haves m \<inter> selected m. getBlockLength m i)"
    unfolding eqs using sh
    by (simp_all add: countMissingBlockNow_card countFilteredBlockNow_card getFilteredTotalLengthNow_sum
        getCompletedLengthNow_def getFilteredCompletedLengthNow_def completedLengthOf_sum)
qed

subsection \<open>Whole-array tests\<close>

lemma byte_eq_iff: "w = v \<longleftrightarrow> (\<forall>r<8. bit w (7 - r) = bit v (7 - r))" for w v :: byte
proof
  assume eq: "\<forall>r<8. bit w (7 - r) = bit v (7 - r)"
  show "w = v"
  proof (rule bit_word_eqI)
    fix k assume "k < LENGTH(8)"
    then have "7 - k < 8" and "7 - (7 - k) = k" by auto
    then show "bit w k = bit v k" using eq by metis
  qed
qed simp

lemma bits_of_bytes: "(\<forall>j<n. \<forall>r<8. Q (8 * j + r)) \<longleftrightarrow> (\<forall>i<8 * n. Q i)" for n :: nat
proof
  assume q: "\<forall>j<n. \<forall>r<8. Q (8 * j + r)"
  show "\<forall>i<8 * n. Q i"
  proof (intro allI impI)
    fix i assume "i < 8 * n"
    then have "i div 8 < n" by (simp add: less_mult_imp_div_less mult.commute)
    moreover have "i mod 8 < 8" by simp
    ultimately have "Q (8 * (i div 8) + i mod 8)" using q by blast
    then show "Q i" by simp
  qed
next
  assume q: "\<forall>i<8 * n. Q i"
  show "\<forall>j<n. \<forall>r<8. Q (8 * j + r)"
  proof (intro allI impI)
    fix j r :: nat assume "j < n" "r < 8"
    then have "8 * j + r < 8 * n" by linarith
    then show "Q (8 * j + r)" using q by blast
  qed
qed

lemma bitat_at: "r < 8 \<Longrightarrow> bitat b (8 * j + r) \<longleftrightarrow> bit (b j) (7 - r)"
  by (simp add: bitat_def)

text \<open>Bytes compared up to \<open>n\<close> against a condition on each byte are bits compared up to \<open>8 n\<close>.\<close>

lemma bytewise:
  fixes n :: nat
  assumes "\<And>j. j < n \<Longrightarrow> P j \<longleftrightarrow> (\<forall>r<8. Q (8 * j + r))"
  shows "(\<forall>j<n. P j) \<longleftrightarrow> (\<forall>i<8 * n. Q i)"
  using assms bits_of_bytes [of n Q] by auto

lemma bit_ff: "bit (0xff :: byte) k \<longleftrightarrow> k < 8"
proof -
  have m: "(0xff :: byte) = mask 8" by (simp add: mask_eq_exp_minus_1)
  show ?thesis unfolding m bit_mask_iff by (auto simp: possible_bit_word)
qed

lemma testAllBitSet_iff:
  assumes "length bs = (n + 7) div 8" and "tail_clear n bs"
  shows "testAllBitSet bs (length bs) n \<longleftrightarrow> (\<forall>i<n. bitat (array bs) i)"
proof (cases "length bs = 0")
  case True
  then have "n = 0" using assms(1) le_ceil_8 [of n] by simp
  then show ?thesis using True by (simp add: testAllBitSet_def)
next
  case False
  define L where "L = length bs - 1"
  have len: "length bs = Suc L" using False by (simp add: L_def)
  have n: "8 * L < n" "n \<le> 8 * Suc L" using assms(1) len by auto
  define want where "want = (\<lambda>j. if j < L then 0xff else lastByteMask n)"
  have mask: "bit (want j) (7 - r) \<longleftrightarrow> 8 * j + r < n" if "j < Suc L" "r < 8" for j r
  proof (cases "j < L")
    case True
    then have "want j = 0xff" by (simp add: want_def)
    then have "bit (want j) (7 - r)" by (simp only: bit_ff)
    then show ?thesis using True n that by simp
  next
    case False
    then have j: "j = L" using that by simp
    define t where "t = n - 8 * L"
    have t: "n = 8 * L + t" "0 < t" "t \<le> 8" using n by (simp_all add: t_def)
    have "n mod 8 = t mod 8" by (simp add: t(1))
    then have "n mod 8 = 0 \<longrightarrow> n = 8 * L + 8" "n mod 8 \<noteq> 0 \<longrightarrow> n = 8 * L + n mod 8"
      using t by (cases "t = 8"; simp)+
    then have "n \<noteq> 0 \<and> (n mod 8 = 0 \<or> 8 - n mod 8 \<le> 7 - r) \<longleftrightarrow> 8 * L + r < n"
      using that(2) by (cases "n mod 8 = 0") auto
    then show ?thesis using that(2) j by (simp add: want_def bit_lastByteMask)
  qed
  have "testAllBitSet bs (length bs) n \<longleftrightarrow> (\<forall>j<Suc L. bs ! j = want j)"
    using len by (auto simp: testAllBitSet_def list_ex_iff want_def less_Suc_eq)
  also have "\<dots> \<longleftrightarrow> (\<forall>i<8 * Suc L. bitat (array bs) i = (i < n))"
    by (rule bytewise) (simp add: byte_eq_iff mask bitat_at array_def)
  also have "\<dots> \<longleftrightarrow> (\<forall>i<n. bitat (array bs) i)"
    using n(2) assms(2) unfolding tail_clear_def len by (auto simp: not_less intro: less_le_trans)
  finally show ?thesis .
qed

theorem isAllBitSet_iff:
  assumes "bm_inv m"
  shows "isAllBitSet m \<longleftrightarrow> haves m = {..<bm_blocks m}"
proof -
  note l = shape_lengths [OF bm_invD(1) [OF assms]]
  have "isAllBitSet m \<longleftrightarrow> (\<forall>i<bm_blocks m. bitat (bits_arr m) i)"
    using testAllBitSet_iff [of "bm_bitfield m" "bm_blocks m"] l inv_tails [OF assms]
    by (simp add: isAllBitSet_def bits_arr_def)
  then show ?thesis by (auto simp: haves_def)
qed

lemma isAllFilterBitSet_iff:
  assumes "bm_inv m" and "0 < bm_blocks m"
  shows "isAllFilterBitSet m \<longleftrightarrow> filts m = {..<bm_blocks m}"
proof (cases "bm_filterBitfield m")
  case None
  then show ?thesis using assms(2) by (auto simp: isAllFilterBitSet_def filts_def)
next
  case (Some f)
  then have "length f = bm_bitfieldLength m" "tail_clear (bm_blocks m) f"
    using assms(1) by (auto simp: bm_inv_def bm_shape_def bm_tails_def)
  then show ?thesis using testAllBitSet_iff [of f "bm_blocks m"] Some
      shape_lengths(4) [OF bm_invD(1) [OF assms(1)]]
    by (auto simp: isAllFilterBitSet_def filts_def)
qed

lemma isFilteredAllBitSet_iff:
  assumes "bm_inv m"
  shows "isFilteredAllBitSet m \<longleftrightarrow> selected m \<subseteq> haves m"
proof (cases "bm_filterEnabled m")
  case True
  then obtain f where f: "bm_filterBitfield m = Some f"
    using enabled_filter [OF bm_invD(1) [OF assms]] by auto
  note l = shape_lengths [OF bm_invD(1) [OF assms]]
  have tail: "tail_clear (bm_blocks m) f" using assms f by (simp add: bm_inv_def bm_tails_def)
  have "isFilteredAllBitSet m \<longleftrightarrow> (\<forall>j<bm_bitfieldLength m. bm_bitfield m ! j AND f ! j = f ! j)"
    using True f by (auto simp: isFilteredAllBitSet_def isFilteredAllBitSet_loop_def filter_arr_def
        array_def list_all_iff)
  also have "\<dots> \<longleftrightarrow> (\<forall>i<8 * bm_bitfieldLength m. bitat (array f) i \<longrightarrow> bitat (bits_arr m) i)"
    by (rule bytewise) (auto simp: byte_eq_iff bitat_at bits_arr_def array_def bit_and_iff)
  also have "\<dots> \<longleftrightarrow> filts m \<subseteq> haves m"
    using tail l(3) [OF f] l(5) unfolding tail_clear_def filts_def haves_def f
    by (auto simp: subset_iff)
  finally show ?thesis using True by (simp add: selected_def)
next
  case False
  then show ?thesis using isAllBitSet_iff [OF assms]
    by (auto simp: isFilteredAllBitSet_def selected_def dest: views_less)
qed

lemma tail_clear_all:
  assumes "tail_clear n bs" and "n \<le> 8 * length bs"
  shows "(\<forall>i<8 * length bs. bitat (array bs) i \<longrightarrow> Q i) \<longleftrightarrow> (\<forall>i<n. bitat (array bs) i \<longrightarrow> Q i)"
  using assms unfolding tail_clear_def
  by (metis atLeastLessThan_iff not_less order_less_le_trans)

lemma hasMissingPiece_iff:
  assumes "bm_inv m" and "length peer = bm_bitfieldLength m" and "tail_clear (bm_blocks m) peer"
  shows "hasMissingPiece m peer \<longleftrightarrow> (\<exists>i\<in>selected m - haves m. bitat (array peer) i)"
proof -
  note l = shape_lengths [OF bm_invD(1) [OF assms(1)]]
  define sel where "sel = (\<lambda>i. bm_filterEnabled m \<longrightarrow> bitat (filter_arr m) i)"
  have ff: "w AND 0xff = 0 \<longleftrightarrow> (\<forall>r<8. \<not> bit w (7 - r))" for w :: byte
  proof -
    have "w AND 0xff = w" by (rule bit_word_eqI) (simp only: bit_and_iff bit_ff, simp)
    then show ?thesis by (simp add: byte_eq_iff)
  qed
  have "\<not> hasMissingPiece m peer \<longleftrightarrow>
      (\<forall>j<bm_bitfieldLength m. (if bm_filterEnabled m then (peer ! j AND NOT (bm_bitfield m ! j)) AND filter_arr m j
         else peer ! j AND NOT (bm_bitfield m ! j)) AND 0xff = 0)"
    using assms(2) by (auto simp: hasMissingPiece_def list_ex_iff Let_def)
  also have "\<dots> \<longleftrightarrow> (\<forall>i<8 * bm_bitfieldLength m.
      bitat (array peer) i \<longrightarrow> \<not> (\<not> bitat (bits_arr m) i \<and> sel i))"
    by (rule bytewise) (auto simp: ff bitat_at sel_def bits_arr_def array_def bit_and_iff bit_not_iff)
  also have "\<dots> \<longleftrightarrow> (\<forall>i<bm_blocks m. bitat (array peer) i \<longrightarrow> \<not> (\<not> bitat (bits_arr m) i \<and> sel i))"
    using tail_clear_all [OF assms(3), of "\<lambda>i. \<not> (\<not> bitat (bits_arr m) i \<and> sel i)"] l(5)
    unfolding assms(2) by simp
  also have "\<dots> \<longleftrightarrow> \<not> (\<exists>i\<in>selected m - haves m. bitat (array peer) i)"
  proof -
    have "i \<in> selected m - haves m \<longleftrightarrow> i < bm_blocks m \<and> \<not> bitat (bits_arr m) i \<and> sel i" for i
      using enabled_filter [OF bm_invD(1) [OF assms(1)]]
      by (cases "bm_filterBitfield m") (auto simp: selected_def sel_def haves_def filts_def filter_arr_def)
    then show ?thesis by auto
  qed
  finally show ?thesis by blast
qed

subsection \<open>Ranges of blocks and of bytes\<close>

lemma isBitSet_haves: "isBitSet m i = (if i < bm_blocks m then Some (i \<in> haves m) else None)"
  by (simp add: isBitSet_def haves_def)

lemma isUseBitSet_uses: "isUseBitSet m i = (if i < bm_blocks m then Some (i \<in> uses m) else None)"
  by (simp add: isUseBitSet_def uses_def)

lemma isFilterBitSet_filts:
  "i < bm_blocks m \<Longrightarrow> isFilterBitSet m i = Some (i \<in> filts m)"
  by (simp add: isFilterBitSet_def filts_def split: option.split)

lemma all_bits_set_haves:
  "(\<And>i. i \<in> set is \<Longrightarrow> i < bm_blocks m) \<Longrightarrow> all_bits_set m is = Some (set is \<subseteq> haves m)"
  by (induction "is") (auto simp: isBitSet_haves)

lemma add_set_blocks_sum:
  "(\<And>i. i \<in> set is \<Longrightarrow> i < bm_blocks m) \<Longrightarrow>
   add_set_blocks m is res = Some (res + (\<Sum>i\<leftarrow>is. if i \<in> haves m then bm_blockLength m else 0))"
  by (induction "is" arbitrary: res) (auto simp: isBitSet_haves)

text \<open>Number of bytes of \<open>[a, b)\<close> that lie in downloaded blocks.\<close>

definition done_bytes :: "bitfield_man \<Rightarrow> int \<Rightarrow> int \<Rightarrow> int" where
  "done_bytes m a b = (\<Sum>x\<in>{a..<b}. of_bool (nat (x div bm_blockLength m) \<in> haves m))"

lemma done_bytes_split: "a \<le> c \<Longrightarrow> c \<le> b \<Longrightarrow> done_bytes m a b = done_bytes m a c + done_bytes m c b"
  unfolding done_bytes_def by (rule sum_int_split)

lemma done_bytes_in_block:
  assumes "0 < bm_blockLength m" and "int i * bm_blockLength m \<le> a" and "b \<le> (int i + 1) * bm_blockLength m"
    and "a \<le> b"
  shows "done_bytes m a b = (if i \<in> haves m then b - a else 0)"
proof -
  have "x div bm_blockLength m = int i" if "x \<in> {a..<b}" for x
    using that assms by (auto simp: div_eq_iff_between)
  then have "done_bytes m a b = (\<Sum>x\<in>{a..<b}. of_bool (i \<in> haves m))"
    unfolding done_bytes_def by (intro sum.cong) auto
  then show ?thesis using assms(4) by simp
qed

lemma done_bytes_blocks:
  assumes "0 < bm_blockLength m" and "s \<le> e"
  shows "done_bytes m (int s * bm_blockLength m) (int e * bm_blockLength m) =
    (\<Sum>i\<leftarrow>[s..<e]. if i \<in> haves m then bm_blockLength m else 0)"
  using assms(2)
proof (induction e rule: dec_induct)
  case base
  then show ?case by (simp add: done_bytes_def)
next
  case (step e)
  have "done_bytes m (int s * bm_blockLength m) (int (Suc e) * bm_blockLength m) =
      done_bytes m (int s * bm_blockLength m) (int e * bm_blockLength m) +
      done_bytes m (int e * bm_blockLength m) (int (Suc e) * bm_blockLength m)"
    using step.hyps(1) assms(1) by (intro done_bytes_split) (simp_all add: mult_right_mono)
  moreover have "done_bytes m (int e * bm_blockLength m) (int (Suc e) * bm_blockLength m) =
      (if e \<in> haves m then bm_blockLength m else 0)"
    using done_bytes_in_block [OF assms(1), of e "int e * bm_blockLength m" "int (Suc e) * bm_blockLength m"] assms(1)
    by (simp add: algebra_simps)
  ultimately show ?case using step by simp
qed

text \<open>First and last block of a byte range inside the file.\<close>

lemma block_range:
  assumes "bm_shape m" and "0 \<le> a" and "a < b" and "b \<le> bm_totalLength m" and "0 < bm_blockLength m"
  obtains s e where "size_of_int (a sdiv bm_blockLength m) = s"
    and "size_of_int ((b - 1) sdiv bm_blockLength m) = e" and "s \<le> e" and "e < bm_blocks m"
    and "int s * bm_blockLength m \<le> a" and "a < (int s + 1) * bm_blockLength m"
    and "int e * bm_blockLength m \<le> b - 1" and "b \<le> (int e + 1) * bm_blockLength m"
proof -
  let ?L = "bm_blockLength m"
  define s e where "s = size_of_int (a sdiv ?L)" and "e = size_of_int ((b - 1) sdiv ?L)"
  have T: "bm_totalLength m < 2 ^ 63" and blk: "int (bm_blocks m) = (bm_totalLength m + ?L - 1) div ?L"
    using assms ceil_div_bounds(3) [of ?L "bm_totalLength m"] by (simp_all add: bm_shape_def ceil_blocks_def)
  have s: "int s = a div ?L" and e: "int e = (b - 1) div ?L"
    using assms T by (simp_all add: s_def e_def size_of_div pos_imp_zdiv_nonneg_iff)
  have "a div ?L \<le> (b - 1) div ?L" using assms by (intro zdiv_mono1) simp_all
  then have 1: "s \<le> e" using s e by linarith
  have "(b - 1) div ?L < int (bm_blocks m)"
    unfolding blk using assms by (intro div_less_ceil) simp_all
  then have 2: "e < bm_blocks m" using e by linarith
  have 3: "int s * ?L \<le> a" "a < (int s + 1) * ?L" "int e * ?L \<le> b - 1" "b - 1 < (int e + 1) * ?L"
    using div_eq_iff_between [OF assms(5)] s e by metis+
  show ?thesis by (rule that [OF _ _ 1 2 3(1-3)]) (use 3(4) in \<open>simp_all add: s_def e_def\<close>)
qed

lemma getOffsetCompletedLength_done:
  assumes "bm_inv m" and "0 \<le> offset" and "0 \<le> len" and "offset < bm_totalLength m" and "0 < bm_blockLength m"
  shows "getOffsetCompletedLength m offset len =
    Some (done_bytes m offset (min (offset + len) (bm_totalLength m)))"
proof (cases "len = 0")
  case True
  then show ?thesis using assms(4) by (simp add: getOffsetCompletedLength_def done_bytes_def)
next
  case False
  define b where "b = min (offset + len) (bm_totalLength m)"
  define L where "L = bm_blockLength m"
  have b: "offset < b" "b \<le> bm_totalLength m" using False assms(3,4) by (auto simp: b_def)
  have clamp: "(if bm_totalLength m < offset + len then bm_totalLength m - offset else len) = b - offset"
    by (simp add: b_def min_def)
  obtain s e where s: "size_of_int (offset sdiv bm_blockLength m) = s"
    and e: "size_of_int ((b - 1) sdiv bm_blockLength m) = e" and se: "s \<le> e" "e < bm_blocks m"
    and sL: "int s * L \<le> offset" "offset < (int s + 1) * L" and eL: "int e * L \<le> b - 1" "b \<le> (int e + 1) * L"
    using block_range [OF bm_invD(1) [OF assms(1)] assms(2) b assms(5)] unfolding L_def by metis
  have L: "0 < L" using assms(5) by (simp add: L_def)
  have prem: "\<not> (len = 0 \<or> bm_totalLength m \<le> offset)" "bm_blockLength m \<noteq> 0"
    using False assms(4,5) by simp_all
  have eq: "offset + (b - offset) - 1 = b - 1" by simp
  note unf = getOffsetCompletedLength_def Let_def clamp eq s e
  show ?thesis
  proof (cases "s = e")
    case True
    then have "done_bytes m offset b = (if s \<in> haves m then b - offset else 0)"
      using sL eL b L by (intro done_bytes_in_block) (simp_all add: L_def)
    then show ?thesis using True prem se unfolding unf b_def [symmetric]
      by (simp add: isBitSet_haves)
  next
    case False
    then have lt: "s < e" using se by simp
    have u: "usub e 1 + 1 = e" using lt by simp
    have sm: "(int s + 1) * L = int (s + 1) * L" by simp
    have mono: "int (s + 1) * L \<le> int e * L" using lt L by (intro mult_right_mono) simp_all
    have o: "offset \<le> int (s + 1) * L" and eb: "int e * L \<le> b" using sL(2) sm eL(1) by linarith+
    have "done_bytes m offset b = done_bytes m offset (int (s + 1) * L) +
        (done_bytes m (int (s + 1) * L) (int e * L) + done_bytes m (int e * L) b)"
      using done_bytes_split [OF o, of b m] done_bytes_split [OF mono eb, of m] order_trans [OF mono eb]
      by linarith
    also have "done_bytes m offset (int (s + 1) * L) = (if s \<in> haves m then int (s + 1) * L - offset else 0)"
      using o sL L by (intro done_bytes_in_block) (simp_all add: L_def)
    also have "done_bytes m (int e * L) b = (if e \<in> haves m then b - int e * L else 0)"
      using eL L by (intro done_bytes_in_block) (simp_all add: L_def)
    also have "done_bytes m (int (s + 1) * L) (int e * L) = (\<Sum>i\<leftarrow>[s + 1..<e]. if i \<in> haves m then L else 0)"
      unfolding L_def using L lt by (intro done_bytes_blocks) (simp_all add: L_def)
    finally have D: "done_bytes m offset b = (if s \<in> haves m then int (s + 1) * L - offset else 0) +
        ((\<Sum>i\<leftarrow>[s + 1..<e]. if i \<in> haves m then L else 0) + (if e \<in> haves m then b - int e * L else 0))" .
    have A: "add_set_blocks m [s + 1..<e] r = Some (r + (\<Sum>i\<leftarrow>[s + 1..<e]. if i \<in> haves m then L else 0))" for r
      unfolding L_def by (rule add_set_blocks_sum) (use se in auto)
    have "s < bm_blocks m" using lt se by simp
    then show ?thesis
      using False prem se unfolding unf u b_def [symmetric] D
      unfolding L_def [symmetric] A
      by (simp add: isBitSet_haves)
  qed
qed

lemma isBitSetOffsetRange_haves:
  assumes "bm_inv m" and "0 \<le> offset" and "0 < len" and "offset < bm_totalLength m" and "0 < bm_blockLength m"
  shows "isBitSetOffsetRange m offset len =
    Some (\<forall>x. offset \<le> x \<and> x < min (offset + len) (bm_totalLength m) \<longrightarrow>
      nat (x div bm_blockLength m) \<in> haves m)"
proof -
  define b where "b = min (offset + len) (bm_totalLength m)"
  have b: "offset < b" "b \<le> bm_totalLength m" using assms(3,4) by (auto simp: b_def)
  have clamp: "(if bm_totalLength m < offset + len then bm_totalLength m - offset else len) = b - offset"
    by (simp add: b_def min_def)
  have eq: "offset + (b - offset) - 1 = b - 1" by simp
  obtain s e where s: "size_of_int (offset sdiv bm_blockLength m) = s"
    and e: "size_of_int ((b - 1) sdiv bm_blockLength m) = e" and se: "s \<le> e" "e < bm_blocks m"
    and sL: "int s * bm_blockLength m \<le> offset" "offset < (int s + 1) * bm_blockLength m"
    and eL: "int e * bm_blockLength m \<le> b - 1" "b \<le> (int e + 1) * bm_blockLength m"
    using block_range [OF bm_invD(1) [OF assms(1)] assms(2) b assms(5)] by metis
  have "all_bits_set m [s..<e + 1] = Some (set [s..<e + 1] \<subseteq> haves m)"
    by (rule all_bits_set_haves) (use se in auto)
  then have "isBitSetOffsetRange m offset len = Some (set [s..<e + 1] \<subseteq> haves m)"
    using assms(3-5) unfolding isBitSetOffsetRange_def Let_def clamp eq s e by simp
  also have "set [s..<e + 1] = {i. \<exists>x. offset \<le> x \<and> x < b \<and> i = nat (x div bm_blockLength m)}"
  proof (intro set_eqI iffI)
    fix i assume "i \<in> set [s..<e + 1]"
    then have i: "s \<le> i" "i \<le> e" using se(1) by auto
    define x where "x = max offset (int i * bm_blockLength m)"
    have up: "int i * bm_blockLength m \<le> int e * bm_blockLength m"
      and lo: "(int s + 1) * bm_blockLength m \<le> (int i + 1) * bm_blockLength m"
      using i assms(5) by (intro mult_right_mono; simp)+
    have "x < b" unfolding x_def max_less_iff_conj using b(1) up eL(1) by linarith
    moreover have "x < (int i + 1) * bm_blockLength m"
      unfolding x_def max_less_iff_conj using sL(2) lo assms(5) by (simp add: less_le_trans)
    moreover have "offset \<le> x" "int i * bm_blockLength m \<le> x" by (simp_all add: x_def)
    ultimately have "x div bm_blockLength m = int i" "offset \<le> x" "x < b"
      using div_eq_iff_between [OF assms(5), of x "int i"] by blast+
    then show "i \<in> {i. \<exists>x. offset \<le> x \<and> x < b \<and> i = nat (x div bm_blockLength m)}"
      by force
  next
    fix i assume "i \<in> {i. \<exists>x. offset \<le> x \<and> x < b \<and> i = nat (x div bm_blockLength m)}"
    then obtain x where x: "offset \<le> x" "x \<le> b - 1" "i = nat (x div bm_blockLength m)" by auto
    have "int s \<le> x div bm_blockLength m"
      using x(1) sL(1) le_div_iff [OF assms(5), of "int s" x] by linarith
    moreover have "x div bm_blockLength m < int e + 1"
      using x(2) eL(2) div_less_iff [OF assms(5), of x "int e + 1"] by linarith
    ultimately show "i \<in> set [s..<e + 1]" using x(3) by auto
  qed
  finally show ?thesis unfolding b_def by auto
qed

lemma range_ops_inv:
  assumes "bm_inv m"
  shows "bm_inv (fold (\<lambda>i m. fst (setBit m i)) is m)" "bm_inv (fold (\<lambda>i m. fst (unsetBit m i)) is m)"
    "haves (fold (\<lambda>i m. fst (setBit m i)) is m) = haves m \<union> (set is \<inter> {..<bm_blocks m})"
    "haves (fold (\<lambda>i m. fst (unsetBit m i)) is m) = haves m - set is"
  using assms by (induction "is" arbitrary: m) (auto simp: set_ops_inv set_ops_views)

lemma setBitRange_spec:
  assumes "bm_inv m"
  shows "bm_inv (setBitRange m a b)" "haves (setBitRange m a b) = haves m \<union> ({a..b} \<inter> {..<bm_blocks m})"
    "bm_inv (unsetBitRange m a b)" "haves (unsetBitRange m a b) = haves m - {a..b}"
proof -
  have ix: "set [a..<b + 1] = {a..b}" by auto
  note r = range_ops_inv [OF assms, of "[a..<b + 1]", unfolded ix]
  show "bm_inv (setBitRange m a b)" "bm_inv (unsetBitRange m a b)"
    unfolding setBitRange_def unsetBitRange_def bm_inv_update using r(1,2) by (simp_all add: bm_inv_def)
  show "haves (setBitRange m a b) = haves m \<union> ({a..b} \<inter> {..<bm_blocks m})"
    "haves (unsetBitRange m a b) = haves m - {a..b}"
    unfolding setBitRange_def unsetBitRange_def views_update using r(3,4) by simp_all
qed

text \<open>The maximal run of free blocks from \<open>i\<close> on.\<close>

lemma getMissingUnusedLength_run:
  assumes "i < bm_blocks m"
  shows "\<exists>e. i \<le> e \<and> e \<le> bm_blocks m \<and> {i..<e} \<inter> (haves m \<union> uses m) = {} \<and>
    (e = bm_blocks m \<or> e \<in> haves m \<union> uses m) \<and>
    getMissingUnusedLength m i = (\<Sum>k\<in>{i..<e}. getBlockLength m k)"
proof -
  have run: "\<exists>e. i \<le> e \<and> e \<le> bm_blocks m \<and> {i..<e} \<inter> (haves m \<union> uses m) = {} \<and>
    (e = bm_blocks m \<or> e \<in> haves m \<union> uses m) \<and>
    missing_unused_run m [i..<bm_blocks m] acc = acc + (\<Sum>k\<in>{i..<e}. getBlockLength m k)"
    if "i \<le> bm_blocks m" for i acc
    using that
  proof (induction "bm_blocks m - i" arbitrary: i acc)
    case 0
    then show ?case by (intro exI [of _ i]) simp
  next
    case (Suc n)
    then have lt: "i < bm_blocks m" by simp
    then have cons: "[i..<bm_blocks m] = i # [Suc i..<bm_blocks m]" by (simp add: upt_conv_Cons)
    show ?case
    proof (cases "i \<in> haves m \<union> uses m")
      case True
      then show ?thesis using lt unfolding cons
        by (intro exI [of _ i]) (auto simp: haves_def uses_def)
    next
      case False
      obtain e where e: "Suc i \<le> e" "e \<le> bm_blocks m" "{Suc i..<e} \<inter> (haves m \<union> uses m) = {}"
        "e = bm_blocks m \<or> e \<in> haves m \<union> uses m"
        "missing_unused_run m [Suc i..<bm_blocks m] (acc + getBlockLength m i) =
          acc + getBlockLength m i + (\<Sum>k\<in>{Suc i..<e}. getBlockLength m k)"
        using Suc(1) [of "Suc i" "acc + getBlockLength m i"] Suc(2) lt Suc_leI [OF lt]
        by (metis Suc_diff_Suc diff_Suc_1)
      have ivl: "{i..<e} = insert i {Suc i..<e}" using e(1) by auto
      have "missing_unused_run m [i..<bm_blocks m] acc = acc + (\<Sum>k\<in>{i..<e}. getBlockLength m k)"
        using False lt e(5) unfolding cons ivl by (simp add: haves_def uses_def)
      then show ?thesis using e False ivl by (intro exI [of _ e]) auto
    qed
  qed
  show ?thesis using run [of i 0] assms by (simp add: getMissingUnusedLength_def)
qed

end
