(* ===== verification/BitfieldSearch.thy ===== *)
theory BitfieldSearch
  imports BitfieldProps Complex_Main
begin

text \<open>
  The searches of \<open>BitfieldMan\<close> that choose the next block to download: first missing block,
  sparse (middle of the longest free range), in-order with a minimum split size, and the
  bitfields of missing blocks. Indices found are \<open>Some\<close>, "not found" (false) is
  \<open>None\<close>; where a failed assertion is possible there is one more \<open>option\<close> outside.
\<close>

subsection \<open>First missing blocks\<close>

text \<open>The array expression that several searches share.\<close>

definition missing_unused_arr :: "bitfield_man \<Rightarrow> barr" where
  "missing_unused_arr m =
     (if bm_filterEnabled m
      then arr_and (arr_and (arr_not (bits_arr m)) (arr_not (use_arr m))) (filter_arr m)
      else arr_and (arr_not (bits_arr m)) (arr_not (use_arr m)))"

definition getFirstMissingUnusedIndex :: "bitfield_man \<Rightarrow> nat option" where
  "getFirstMissingUnusedIndex m = getFirstSetBitIndex (missing_unused_arr m) (bm_blocks m)"

definition getFirstNMissingUnusedIndex :: "bitfield_man \<Rightarrow> nat \<Rightarrow> nat list" where
  "getFirstNMissingUnusedIndex m n = getFirstNSetBitIndex n (missing_unused_arr m) (bm_blocks m)"

definition getFirstMissingIndex :: "bitfield_man \<Rightarrow> nat option" where
  "getFirstMissingIndex m =
     (if bm_filterEnabled m
      then getFirstSetBitIndex (arr_and (arr_not (bits_arr m)) (filter_arr m)) (bm_blocks m)
      else getFirstSetBitIndex (arr_not (bits_arr m)) (bm_blocks m))"

subsection \<open>The sparse search\<close>

function getStartIndex :: "nat \<Rightarrow> barr \<Rightarrow> nat \<Rightarrow> nat" where
  "getStartIndex index bitfield blocks =
     (if index < blocks \<and> test bitfield blocks index
      then getStartIndex (index + 1) bitfield blocks
      else if blocks \<le> index then blocks else index)"
  by pat_completeness auto
termination by (relation "measure (\<lambda>(index, _, blocks). blocks - index)") auto

function getEndIndex :: "nat \<Rightarrow> barr \<Rightarrow> nat \<Rightarrow> nat" where
  "getEndIndex index bitfield blocks =
     (if index < blocks \<and> \<not> test bitfield blocks index
      then getEndIndex (index + 1) bitfield blocks
      else index)"
  by pat_completeness auto
termination by (relation "measure (\<lambda>(index, _, blocks). blocks - index)") auto

declare getStartIndex.simps [simp del] getEndIndex.simps [simp del]

record bm_range =
  rg_startIndex :: nat
  rg_endIndex :: nat

definition rg_getSize :: "bm_range \<Rightarrow> nat" where
  "rg_getSize r = usub (rg_endIndex r) (rg_startIndex r)"

definition rg_getMidIndex :: "bm_range \<Rightarrow> nat" where
  "rg_getMidIndex r = usub (rg_endIndex r) (rg_startIndex r) div 2 + rg_startIndex r"

definition rg_less :: "bm_range \<Rightarrow> bm_range \<Rightarrow> bool" where
  "rg_less a b \<longleftrightarrow> rg_getSize a < rg_getSize b"

definition rg_eq :: "bm_range \<Rightarrow> bm_range \<Rightarrow> bool" where
  "rg_eq a b \<longleftrightarrow> rg_getSize a = rg_getSize b"

text \<open>The current range, moved to its middle where the block before it is in use.\<close>

definition sparse_current :: "barr \<Rightarrow> barr \<Rightarrow> nat \<Rightarrow> nat \<Rightarrow> bm_range" where
  "sparse_current bitfield useBitfield blocks s =
     (let r = \<lparr>rg_startIndex = s, rg_endIndex = getEndIndex s bitfield blocks\<rparr> in
      if s > 0 \<and> test useBitfield blocks (s - 1)
      then r\<lparr>rg_startIndex := rg_getMidIndex r\<rparr> else r)"

definition sparse_better :: "barr \<Rightarrow> barr \<Rightarrow> nat \<Rightarrow> bm_range \<Rightarrow> bm_range \<Rightarrow> bool" where
  "sparse_better bitfield useBitfield blocks maxRange cur \<longleftrightarrow>
     rg_less maxRange cur \<or>
     (rg_eq maxRange cur \<and> rg_startIndex maxRange > 0 \<and> rg_startIndex cur > 0 \<and>
      (\<not> test bitfield blocks (rg_startIndex maxRange - 1) \<or>
       test useBitfield blocks (rg_startIndex maxRange - 1)) \<and>
      test bitfield blocks (rg_startIndex cur - 1) \<and>
      \<not> test useBitfield blocks (rg_startIndex cur - 1))"

lemma getStartIndex_props:
  "getStartIndex i b n \<noteq> n \<Longrightarrow>
     i \<le> getStartIndex i b n \<and> getStartIndex i b n < n \<and> \<not> bitat b (getStartIndex i b n) \<and>
     (\<forall>j. i \<le> j \<and> j < getStartIndex i b n \<longrightarrow> bitat b j)"
proof (induction i b n rule: getStartIndex.induct)
  case (1 i b n)
  show ?case
  proof (cases "i < n \<and> bitat b i")
    case True
    then have eq: "getStartIndex i b n = getStartIndex (i + 1) b n"
      by (simp add: getStartIndex.simps [of i b n])
    with 1 True have ih: "i + 1 \<le> getStartIndex i b n" "getStartIndex i b n < n" "\<not> bitat b (getStartIndex i b n)"
      "\<forall>j. i + 1 \<le> j \<and> j < getStartIndex i b n \<longrightarrow> bitat b j" by simp_all
    have "bitat b j" if "i \<le> j" "j < getStartIndex i b n" for j
      using ih(4) that True by (cases "j = i") simp_all
    then show ?thesis using ih by simp
  next
    case False
    then show ?thesis using 1(2) by (auto simp: getStartIndex.simps [of i b n] split: if_splits)
  qed
qed

lemma getStartIndex_blocks:
  "i \<le> n \<Longrightarrow> getStartIndex i b n = n \<Longrightarrow> i \<le> j \<Longrightarrow> j < n \<Longrightarrow> bitat b j"
proof (induction i b n rule: getStartIndex.induct)
  case (1 i b n)
  have lt: "i < n" using 1 by simp
  then have b: "bitat b i" using "1.prems"(2) by (auto simp: getStartIndex.simps [of i b n] split: if_splits)
  show ?case
  proof (cases "i = j")
    case True
    then show ?thesis using b by simp
  next
    case False
    then show ?thesis using 1 lt b by (simp add: getStartIndex.simps [of i b n])
  qed
qed

lemma getEndIndex_props:
  "i \<le> n \<Longrightarrow> i \<le> getEndIndex i b n \<and> getEndIndex i b n \<le> n \<and>
     (\<forall>j. i \<le> j \<and> j < getEndIndex i b n \<longrightarrow> \<not> bitat b j) \<and>
     (i < n \<longrightarrow> \<not> bitat b i \<longrightarrow> i < getEndIndex i b n)"
proof (induction i b n rule: getEndIndex.induct)
  case (1 i b n)
  show ?case
  proof (cases "i < n \<and> \<not> bitat b i")
    case True
    then have eq: "getEndIndex i b n = getEndIndex (i + 1) b n"
      by (simp add: getEndIndex.simps [of i b n])
    with 1 True have ih: "i + 1 \<le> getEndIndex i b n" "getEndIndex i b n \<le> n"
      "\<forall>j. i + 1 \<le> j \<and> j < getEndIndex i b n \<longrightarrow> \<not> bitat b j" by simp_all
    have "\<not> bitat b j" if "i \<le> j" "j < getEndIndex i b n" for j
      using ih(3) that True by (cases "j = i") simp_all
    then show ?thesis using ih by simp
  next
    case False
    then show ?thesis using 1(2) by (auto simp: getEndIndex.simps [of i b n])
  qed
qed

text \<open>One pass of the outer loop: the \<open>while\<close> over the ranges that start below \<open>limit\<close>.\<close>

function sparse_pass :: "barr \<Rightarrow> barr \<Rightarrow> nat \<Rightarrow> nat \<Rightarrow> nat \<Rightarrow> bm_range \<Rightarrow> bm_range" where
  "sparse_pass bitfield useBitfield blocks limit nextIndex maxRange =
     (if nextIndex < limit
      then
        let s = getStartIndex nextIndex bitfield blocks in
        if s = blocks then maxRange
        else
          let cur = sparse_current bitfield useBitfield blocks s;
              maxRange = (if sparse_better bitfield useBitfield blocks maxRange cur then cur else maxRange)
          in sparse_pass bitfield useBitfield blocks limit (rg_endIndex cur) maxRange
      else maxRange)"
  by pat_completeness auto

lemma sparse_current_bounds:
  assumes "s < n" and "\<not> bitat b s"
  shows "s < rg_endIndex (sparse_current b u n s)" "rg_endIndex (sparse_current b u n s) \<le> n"
    "s \<le> rg_startIndex (sparse_current b u n s)"
    "rg_startIndex (sparse_current b u n s) < rg_endIndex (sparse_current b u n s)"
    "\<And>j. s \<le> j \<Longrightarrow> j < rg_endIndex (sparse_current b u n s) \<Longrightarrow> \<not> bitat b j"
proof -
  note e = getEndIndex_props [of s n b]
  have "s < getEndIndex s b n" "getEndIndex s b n \<le> n" using e assms by simp_all
  moreover from this have "(getEndIndex s b n - s) div 2 + s < getEndIndex s b n" by linarith
  ultimately show "s < rg_endIndex (sparse_current b u n s)" "rg_endIndex (sparse_current b u n s) \<le> n"
    "s \<le> rg_startIndex (sparse_current b u n s)"
    "rg_startIndex (sparse_current b u n s) < rg_endIndex (sparse_current b u n s)"
    by (auto simp: sparse_current_def rg_getMidIndex_def Let_def)
  show "\<not> bitat b j" if "s \<le> j" "j < rg_endIndex (sparse_current b u n s)" for j
    using that e assms by (auto simp: sparse_current_def Let_def split: if_splits)
qed

termination sparse_pass
proof (relation "measure (\<lambda>(_, _, blocks, _, nextIndex, _). blocks - nextIndex)", goal_cases)
  case 1
  show ?case by simp
next
  case (2 b u n limit i r s cur r')
  have s: "i \<le> s" "s < n" "\<not> bitat b s" using getStartIndex_props [of i b n] 2 by auto
  have "i < rg_endIndex cur" using sparse_current_bounds(1) [OF s(2,3), of u] s(1) 2 by simp
  then show ?case using s by simp
qed

declare sparse_pass.simps [simp del]

definition sparse_choice :: "int \<Rightarrow> barr \<Rightarrow> barr \<Rightarrow> int \<Rightarrow> nat \<Rightarrow> bm_range \<Rightarrow> nat option" where
  "sparse_choice minSplitSize bitfield useBitfield blockLength blocks maxRange =
     (if rg_getSize maxRange \<noteq> 0
      then
        (if rg_startIndex maxRange = 0 then Some 0
         else if (\<not> test useBitfield blocks (rg_startIndex maxRange - 1) \<and>
                  test bitfield blocks (rg_startIndex maxRange - 1)) \<or>
                 int (usub (rg_endIndex maxRange) (rg_startIndex maxRange)) * blockLength \<ge> minSplitSize
         then Some (rg_startIndex maxRange)
         else None)
      else None)"

definition sparse_search :: "int \<Rightarrow> barr \<Rightarrow> barr \<Rightarrow> int \<Rightarrow> nat \<Rightarrow> nat \<Rightarrow> nat option" where
  "sparse_search minSplitSize bitfield useBitfield blockLength blocks startIndex =
     (let pass = (\<lambda>nextIndex limit.
            sparse_choice minSplitSize bitfield useBitfield blockLength blocks
              (sparse_pass bitfield useBitfield blocks limit nextIndex
                \<lparr>rg_startIndex = 0, rg_endIndex = 0\<rparr>)) in
      case pass startIndex blocks of
        Some index \<Rightarrow> Some index
      | None \<Rightarrow> pass 0 startIndex)"

text \<open>The blocks a stream search must not return.\<close>

definition occupied_arr :: "bitfield_man \<Rightarrow> byte list \<Rightarrow> barr" where
  "occupied_arr m ignoreBitfield =
     (if bm_filterEnabled m
      then arr_or (arr_or (arr_or (array ignoreBitfield) (arr_not (filter_arr m))) (bits_arr m)) (use_arr m)
      else arr_or (arr_or (array ignoreBitfield) (bits_arr m)) (use_arr m))"

definition getSparseMissingUnusedIndex ::
  "bitfield_man \<Rightarrow> int \<Rightarrow> byte list \<Rightarrow> bitfield_man \<times> nat option" where
  "getSparseMissingUnusedIndex m minSplitSize ignoreBitfield =
     (let rv = sparse_search minSplitSize (occupied_arr m ignoreBitfield) (use_arr m)
                 (bm_blockLength m) (bm_blocks m) (bm_sparseHint m) in
      (case rv of Some index \<Rightarrow> m\<lparr>bm_sparseHint := index\<rparr> | None \<Rightarrow> m, rv))"

subsection \<open>The in-order search\<close>

text \<open>
  The inner loop over \<open>j\<close>: \<open>Inr j\<close> returns the index, \<open>Inl j\<close> leaves the loop at
  \<open>j\<close> (an occupied block or the end).
\<close>

function inorder_window ::
  "int \<Rightarrow> barr \<Rightarrow> barr \<Rightarrow> int \<Rightarrow> nat \<Rightarrow> nat \<Rightarrow> nat \<Rightarrow> nat + nat" where
  "inorder_window minSplitSize bitfield useBitfield blockLength blocks i j =
     (if j < blocks
      then
        if test bitfield blocks j \<or> test useBitfield blocks j then Inl j
        else if int (usub j i + 1) * blockLength \<ge> minSplitSize then Inr j
        else inorder_window minSplitSize bitfield useBitfield blockLength blocks i (j + 1)
      else Inl j)"
  by pat_completeness auto
termination by (relation "measure (\<lambda>(_, _, _, _, blocks, _, j). blocks - j)") auto

declare inorder_window.simps [simp del]

lemma inorder_window_Inl: "inorder_window ms b u bl n i j = Inl k \<Longrightarrow> j \<le> k"
proof (induction ms b u bl n i j rule: inorder_window.induct)
  case (1 ms b u bl n i j)
  then show ?case
    by (auto simp: inorder_window.simps [of ms b u bl n i j] split: if_splits)
qed

lemma inorder_window_Inr:
  "inorder_window ms b u bl n i j = Inr k \<Longrightarrow> j \<le> k \<and> k < n \<and> \<not> bitat b k \<and> \<not> bitat u k"
proof (induction ms b u bl n i j rule: inorder_window.induct)
  case (1 ms b u bl n i j)
  then show ?case
    by (auto simp: inorder_window.simps [of ms b u bl n i j] split: if_splits)
qed

text \<open>The loop over \<open>i\<close>; \<open>i\<close> is at least 1, so \<open>i - 1\<close> is an index.\<close>

function inorder_loop ::
  "int \<Rightarrow> barr \<Rightarrow> barr \<Rightarrow> int \<Rightarrow> nat \<Rightarrow> nat \<Rightarrow> nat \<Rightarrow> nat option" where
  "inorder_loop minSplitSize bitfield useBitfield blockLength blocks lastIndex i =
     (if i < lastIndex
      then
        if \<not> test bitfield blocks i \<and> \<not> test useBitfield blocks i
        then
          if \<not> test useBitfield blocks (i - 1) \<and> test bitfield blocks (i - 1) then Some i
          else
            case inorder_window minSplitSize bitfield useBitfield blockLength blocks i i of
              Inr j \<Rightarrow> Some j
            | Inl j \<Rightarrow> inorder_loop minSplitSize bitfield useBitfield blockLength blocks lastIndex (j + 1)
        else inorder_loop minSplitSize bitfield useBitfield blockLength blocks lastIndex (i + 1)
      else None)"
  by pat_completeness auto
termination
  by (relation "measure (\<lambda>(_, _, _, _, _, lastIndex, i). lastIndex - i)")
    (auto dest: inorder_window_Inl)

declare inorder_loop.simps [simp del]

text \<open>The outer \<open>None\<close> is the assertion that \<open>startIndex\<close> names a block.\<close>

definition inorder_search ::
  "nat \<Rightarrow> nat \<Rightarrow> int \<Rightarrow> barr \<Rightarrow> barr \<Rightarrow> int \<Rightarrow> nat \<Rightarrow> nat option option" where
  "inorder_search startIndex lastIndex minSplitSize bitfield useBitfield blockLength blocks =
     (if blocks \<le> startIndex then None
      else if \<not> test bitfield blocks startIndex \<and> \<not> test useBitfield blocks startIndex
      then Some (Some startIndex)
      else Some (inorder_loop minSplitSize bitfield useBitfield blockLength blocks lastIndex (startIndex + 1)))"

definition getInorderMissingUnusedIndex ::
  "bitfield_man \<Rightarrow> int \<Rightarrow> byte list \<Rightarrow> nat option option" where
  "getInorderMissingUnusedIndex m minSplitSize ignoreBitfield =
     inorder_search 0 (bm_blocks m) minSplitSize (occupied_arr m ignoreBitfield) (use_arr m)
       (bm_blockLength m) (bm_blocks m)"

definition getInorderMissingUnusedIndexIn ::
  "bitfield_man \<Rightarrow> nat \<Rightarrow> nat \<Rightarrow> int \<Rightarrow> byte list \<Rightarrow> nat option option" where
  "getInorderMissingUnusedIndexIn m startIndex endIndex minSplitSize ignoreBitfield =
     inorder_search startIndex (min endIndex (bm_blocks m)) minSplitSize
       (occupied_arr m ignoreBitfield) (use_arr m) (bm_blockLength m) (bm_blocks m)"

subsection \<open>The geometric search\<close>

text \<open>
  \<open>start\<close>, \<open>end\<close> and \<open>base\<close> are doubles: rationals here, and \<open>rnd\<close> is the rounding of
  the floating-point unit, applied to every sum and product. \<open>trunc\<close> is the conversion to
  \<open>size_t\<close>. Whether the loop ends depends on \<open>base\<close>, so it carries fuel; the outer
  \<open>None\<close> is fuel that ran out.
\<close>

definition trunc :: "rat \<Rightarrow> nat" where
  "trunc x = nat \<lfloor>x\<rfloor>"

definition geom_probe :: "barr \<Rightarrow> barr \<Rightarrow> nat \<Rightarrow> nat list \<Rightarrow> nat option" where
  "geom_probe bitfield useBitfield blocks is =
     (case List.find (\<lambda>i. test useBitfield blocks i \<or> \<not> test bitfield blocks i) is of
        None \<Rightarrow> None
      | Some i \<Rightarrow> if test useBitfield blocks i then None else Some i)"

fun geom_search ::
  "nat \<Rightarrow> (rat \<Rightarrow> rat) \<Rightarrow> int \<Rightarrow> barr \<Rightarrow> barr \<Rightarrow> int \<Rightarrow> nat \<Rightarrow> rat \<Rightarrow> nat \<Rightarrow> rat \<Rightarrow> rat \<Rightarrow> nat option option" where
  "geom_search 0 rnd minSplitSize bitfield useBitfield blockLength blocks base offsetIndex start end' = None"
| "geom_search (Suc fuel) rnd minSplitSize bitfield useBitfield blockLength blocks base offsetIndex start end' =
     (if rnd (start + of_nat offsetIndex) < of_nat blocks
      then
        case geom_probe bitfield useBitfield blocks
               [trunc (rnd (start + of_nat offsetIndex))..<min blocks (trunc (rnd (end' + of_nat offsetIndex)))] of
          Some index \<Rightarrow> Some (Some index)
        | None \<Rightarrow> geom_search fuel rnd minSplitSize bitfield useBitfield blockLength blocks base offsetIndex
                    end' (rnd (end' * base))
      else Some (sparse_search minSplitSize bitfield useBitfield blockLength blocks 0))"

definition getGeomMissingUnusedIndex ::
  "nat \<Rightarrow> (rat \<Rightarrow> rat) \<Rightarrow> bitfield_man \<Rightarrow> int \<Rightarrow> byte list \<Rightarrow> rat \<Rightarrow> nat \<Rightarrow> nat option option" where
  "getGeomMissingUnusedIndex fuel rnd m minSplitSize ignoreBitfield base offsetIndex =
     geom_search fuel rnd minSplitSize (occupied_arr m ignoreBitfield) (use_arr m)
       (bm_blockLength m) (bm_blocks m) base offsetIndex 0 1"

subsection \<open>Bitfields of missing blocks\<close>

text \<open>
  \<open>copyBitfield\<close> writes \<open>len\<close> bytes; with no block \<open>len - 1\<close> wraps and it writes
  outside the array (\<open>None\<close>).
\<close>

definition copyBitfield :: "byte list \<Rightarrow> barr \<Rightarrow> nat \<Rightarrow> (byte list \<times> bool) option" where
  "copyBitfield dst src blocks =
     (let len = (blocks + 7) div 8 in
      if len = 0 \<or> length dst < len then None
      else
        let (dst, bits) = fold (\<lambda>i (dst, bits). (dst[i := src i], bits OR src i)) [0..<len - 1] (dst, 0);
            b = src (len - 1) AND lastByteMask blocks
        in Some (dst[len - 1 := b], bits OR b \<noteq> 0))"

definition getAllMissingIndexes :: "bitfield_man \<Rightarrow> byte list \<Rightarrow> (byte list \<times> bool) option" where
  "getAllMissingIndexes m misbitfield =
     (if length misbitfield \<noteq> bm_bitfieldLength m then None
      else if bm_filterEnabled m
      then copyBitfield misbitfield (arr_and (arr_not (bits_arr m)) (filter_arr m)) (bm_blocks m)
      else copyBitfield misbitfield (arr_not (bits_arr m)) (bm_blocks m))"

definition getAllMissingIndexesOf ::
  "bitfield_man \<Rightarrow> byte list \<Rightarrow> byte list \<Rightarrow> (byte list \<times> bool) option" where
  "getAllMissingIndexesOf m misbitfield peerBitfield =
     (if length misbitfield \<noteq> bm_bitfieldLength m then None
      else if bm_bitfieldLength m \<noteq> length peerBitfield then Some (misbitfield, False)
      else if bm_filterEnabled m
      then copyBitfield misbitfield
             (arr_and (arr_and (arr_not (bits_arr m)) (array peerBitfield)) (filter_arr m)) (bm_blocks m)
      else copyBitfield misbitfield (arr_and (arr_not (bits_arr m)) (array peerBitfield)) (bm_blocks m))"

definition getAllMissingUnusedIndexes ::
  "bitfield_man \<Rightarrow> byte list \<Rightarrow> byte list \<Rightarrow> (byte list \<times> bool) option" where
  "getAllMissingUnusedIndexes m misbitfield peerBitfield =
     (if length misbitfield \<noteq> bm_bitfieldLength m then None
      else if bm_bitfieldLength m \<noteq> length peerBitfield then Some (misbitfield, False)
      else if bm_filterEnabled m
      then copyBitfield misbitfield
             (arr_and (arr_and (arr_and (arr_not (bits_arr m)) (arr_not (use_arr m))) (array peerBitfield))
               (filter_arr m)) (bm_blocks m)
      else copyBitfield misbitfield
             (arr_and (arr_and (arr_not (bits_arr m)) (arr_not (use_arr m))) (array peerBitfield)) (bm_blocks m))"


subsection \<open>Free blocks\<close>

text \<open>The blocks a stream search may choose, and those that are merely missing and unused.\<close>

definition missing :: "bitfield_man \<Rightarrow> nat set" where
  "missing m = selected m - haves m"

definition free :: "bitfield_man \<Rightarrow> byte list \<Rightarrow> nat set" where
  "free m ig = {i \<in> missing m - uses m. \<not> bitat (array ig) i}"

lemma filter_arr_filts:
  "bm_shape m \<Longrightarrow> i < bm_blocks m \<Longrightarrow>
     (bm_filterEnabled m \<longrightarrow> bitat (filter_arr m) i) \<longleftrightarrow> i \<in> selected m"
  using shape_lengths(6) [of m] by (auto simp: selected_def filts_def filter_arr_def)

lemma arr_views:
  assumes "i < bm_blocks m"
  shows "bitat (bits_arr m) i \<longleftrightarrow> i \<in> haves m" "bitat (use_arr m) i \<longleftrightarrow> i \<in> uses m"
  using assms by (simp_all add: haves_def uses_def)

lemma occupied_free:
  assumes "bm_shape m" and "i < bm_blocks m"
  shows "bitat (occupied_arr m ig) i \<longleftrightarrow> i \<notin> free m ig"
  using filter_arr_filts [OF assms] arr_views [OF assms(2)]
  by (cases "bm_filterEnabled m") (auto simp: occupied_arr_def free_def missing_def)

lemma uses_occupied:
  assumes "bitat (use_arr m) i"
  shows "bitat (occupied_arr m ig) i"
  using assms by (simp add: occupied_arr_def)

lemma missing_unused_bit:
  assumes "bm_shape m" and "i < bm_blocks m"
  shows "bitat (missing_unused_arr m) i \<longleftrightarrow> i \<in> missing m - uses m"
  using filter_arr_filts [OF assms] arr_views [OF assms(2)]
  by (cases "bm_filterEnabled m") (auto simp: missing_unused_arr_def missing_def)

lemma missing_bit:
  assumes "bm_shape m" and "i < bm_blocks m"
  shows "bitat (if bm_filterEnabled m then arr_and (arr_not (bits_arr m)) (filter_arr m)
           else arr_not (bits_arr m)) i \<longleftrightarrow> i \<in> missing m"
  using filter_arr_filts [OF assms] arr_views [OF assms(2)]
  by (cases "bm_filterEnabled m") (auto simp: missing_def)

lemma missing_less: "i \<in> missing m \<Longrightarrow> i < bm_blocks m"
  by (auto simp: missing_def dest: views_less)

lemma free_less: "i \<in> free m ig \<Longrightarrow> i < bm_blocks m"
  by (auto simp: free_def dest: missing_less)

lemma missing_fin [simp]: "finite (missing m)" "finite (free m ig)"
  by (simp_all add: missing_def free_def)

lemma find_least:
  assumes "\<And>i. i < n \<Longrightarrow> P i \<longleftrightarrow> i \<in> A" and "\<And>i. i \<in> A \<Longrightarrow> i < n"
  shows "List.find P [0..<n] = (if A = {} then None else Some (Min A))"
proof (cases "A = {}")
  case True
  then show ?thesis using assms(1) by (simp add: find_upt_None)
next
  case False
  have fin: "finite A" using assms(2) by (rule_tac finite_subset [of A "{..<n}"]) auto
  have "Min A \<in> A" using fin False by (rule Min_in)
  moreover have "j < Min A \<Longrightarrow> j \<notin> A" for j using fin by (meson Min_le not_le)
  ultimately show ?thesis using assms False
    by (simp add: find_upt_Some) (metis less_trans)
qed

lemma getFirst_least:
  assumes "bm_shape m"
  shows "getFirstMissingUnusedIndex m =
      (if missing m - uses m = {} then None else Some (Min (missing m - uses m)))"
    and "getFirstMissingIndex m = (if missing m = {} then None else Some (Min (missing m)))"
proof -
  show "getFirstMissingUnusedIndex m =
      (if missing m - uses m = {} then None else Some (Min (missing m - uses m)))"
    unfolding getFirstMissingUnusedIndex_def getFirstSetBitIndex_def
    by (rule find_least) (use missing_unused_bit [OF assms] missing_less in auto)
  have "getFirstMissingIndex m = getFirstSetBitIndex
      (if bm_filterEnabled m then arr_and (arr_not (bits_arr m)) (filter_arr m)
       else arr_not (bits_arr m)) (bm_blocks m)"
    by (simp add: getFirstMissingIndex_def)
  also have "\<dots> = (if missing m = {} then None else Some (Min (missing m)))"
    unfolding getFirstSetBitIndex_def test_bitat
    by (rule find_least) (use missing_bit [OF assms] missing_less in blast)+
  finally show "getFirstMissingIndex m = (if missing m = {} then None else Some (Min (missing m)))" .
qed

lemma getFirstN_take:
  assumes "bm_shape m"
  shows "getFirstNMissingUnusedIndex m n =
      take n (filter (\<lambda>i. i \<in> missing m - uses m) [0..<bm_blocks m])"
proof -
  have "filter (bitat (missing_unused_arr m)) [0..<bm_blocks m] =
      filter (\<lambda>i. i \<in> missing m - uses m) [0..<bm_blocks m]"
    using missing_unused_bit [OF assms] by (intro filter_cong) auto
  then show ?thesis by (simp add: getFirstNMissingUnusedIndex_def getFirstNSetBitIndex_take)
qed

end
