(* ===== verification/BitfieldSearchProps.thy ===== *)
theory BitfieldSearchProps
  imports BitfieldSearch
begin

text \<open>
  What the searches of \<open>BitfieldSearch\<close> return. Each is first characterised on plain
  arrays (\<open>b\<close> the occupied blocks, \<open>u\<close> those in use, \<open>n\<close> the number of blocks), then
  on \<open>bitfield_man\<close> through \<open>occupied_free\<close>.
\<close>

subsection \<open>Sparse search\<close>

definition range_ok :: "barr \<Rightarrow> nat \<Rightarrow> bm_range \<Rightarrow> bool" where
  "range_ok b n r \<longleftrightarrow> rg_startIndex r \<le> rg_endIndex r \<and> rg_endIndex r \<le> n \<and>
     (\<forall>j. rg_startIndex r \<le> j \<and> j < rg_endIndex r \<longrightarrow> \<not> bitat b j)"

lemma range_ok_zero: "range_ok b n \<lparr>rg_startIndex = 0, rg_endIndex = 0\<rparr>"
  by (simp add: range_ok_def)

lemma range_ok_size: "range_ok b n r \<Longrightarrow> rg_getSize r = rg_endIndex r - rg_startIndex r"
  by (simp add: range_ok_def rg_getSize_def)

lemma range_ok_current:
  assumes "s < n" and "\<not> bitat b s"
  shows "range_ok b n (sparse_current b u n s)" and "0 < rg_getSize (sparse_current b u n s)"
proof -
  note c = sparse_current_bounds [OF assms, where u = u]
  show ok: "range_ok b n (sparse_current b u n s)"
    using c(2,3,4) c(5) unfolding range_ok_def by (meson le_trans less_imp_le)
  show "0 < rg_getSize (sparse_current b u n s)"
    using c(4) by (simp add: range_ok_size [OF ok])
qed

text \<open>One step of the pass, as a rule for inductions over it.\<close>

lemma sparse_pass_step:
  assumes "i < limit" and "getStartIndex i b n \<noteq> n"
  shows "sparse_pass b u n limit i r =
    sparse_pass b u n limit (rg_endIndex (sparse_current b u n (getStartIndex i b n)))
      (if sparse_better b u n r (sparse_current b u n (getStartIndex i b n))
       then sparse_current b u n (getStartIndex i b n) else r)"
  using assms by (simp add: sparse_pass.simps [of b u n limit i] Let_def)

lemma sparse_pass_end:
  "\<not> (i < limit \<and> getStartIndex i b n \<noteq> n) \<Longrightarrow> sparse_pass b u n limit i r = r"
  by (auto simp: sparse_pass.simps [of b u n limit i] Let_def)

lemma sparse_pass_ok:
  "range_ok b n r \<Longrightarrow> range_ok b n (sparse_pass b u n limit i r) \<and>
     rg_getSize r \<le> rg_getSize (sparse_pass b u n limit i r)"
proof (induction b u n limit i r rule: sparse_pass.induct)
  case (1 b u n limit i r)
  show ?case
  proof (cases "i < limit \<and> getStartIndex i b n \<noteq> n")
    case False
    then show ?thesis using "1.prems" by (simp add: sparse_pass_end)
  next
    case True
    define s where "s = getStartIndex i b n"
    define cur where "cur = sparse_current b u n s"
    define r' where "r' = (if sparse_better b u n r cur then cur else r)"
    have s: "s < n" "\<not> bitat b s" using True getStartIndex_props [of i b n] by (auto simp: s_def)
    have "range_ok b n r' \<and> rg_getSize r \<le> rg_getSize r'"
      using "1.prems" range_ok_current(1) [OF s, of u]
      by (auto simp: r'_def cur_def sparse_better_def rg_less_def rg_eq_def)
    moreover have "range_ok b n r' \<Longrightarrow> range_ok b n (sparse_pass b u n limit (rg_endIndex cur) r') \<and>
        rg_getSize r' \<le> rg_getSize (sparse_pass b u n limit (rg_endIndex cur) r')"
      using "1.IH" [of s cur r'] True by (simp add: s_def cur_def r'_def)
    moreover have "sparse_pass b u n limit i r = sparse_pass b u n limit (rg_endIndex cur) r'"
      using True sparse_pass_step [of i limit b n u r] by (simp add: s_def cur_def r'_def)
    ultimately show ?thesis by auto
  qed
qed

text \<open>The pass sees every maximal run of free blocks, and keeps one that is longest.\<close>

lemma better_size:
  "rg_getSize cur \<le> rg_getSize (if sparse_better b u n r cur then cur else r)"
  by (auto simp: sparse_better_def rg_less_def)

lemma sparse_pass_longest:
  "range_ok b n r \<Longrightarrow> i \<le> s \<Longrightarrow> s < limit \<Longrightarrow> s < n \<Longrightarrow> \<not> bitat b s \<Longrightarrow> s = i \<or> bitat b (s - 1) \<Longrightarrow>
     rg_getSize (sparse_current b u n s) \<le> rg_getSize (sparse_pass b u n limit i r)"
proof (induction b u n limit i r rule: sparse_pass.induct)
  case (1 b u n limit i r)
  define t where "t = getStartIndex i b n"
  define cur where "cur = sparse_current b u n t"
  define r' where "r' = (if sparse_better b u n r cur then cur else r)"
  have tn: "t \<noteq> n"
    using getStartIndex_blocks [of i n b s] 1 by (auto simp: t_def)
  have t: "i \<le> t" "t < n" "\<not> bitat b t" "\<And>j. i \<le> j \<Longrightarrow> j < t \<Longrightarrow> bitat b j"
    using getStartIndex_props [of i b n] tn by (auto simp: t_def)
  have ts: "t \<le> s" using t(4) [of s] 1 by (meson not_le)
  note c = sparse_current_bounds [OF t(2,3), where u = u]
  have lim: "i < limit" using 1 by simp
  have eq: "sparse_pass b u n limit i r = sparse_pass b u n limit (rg_endIndex cur) r'"
    using lim tn sparse_pass_step [of i limit b n u r] by (simp add: t_def cur_def r'_def)
  have ok: "range_ok b n r'" using "1.prems" range_ok_current(1) [OF t(2,3), of u]
    by (simp add: r'_def cur_def)
  show ?case
  proof (cases "t = s")
    case True
    have "rg_getSize cur \<le> rg_getSize r'" unfolding r'_def by (rule better_size)
    also have "\<dots> \<le> rg_getSize (sparse_pass b u n limit (rg_endIndex cur) r')"
      using sparse_pass_ok [OF ok] by simp
    finally show ?thesis using True by (simp add: eq cur_def)
  next
    case False
    then have "t < s" using ts by simp
    then have b: "bitat b (s - 1)" "t \<le> s - 1" using "1.prems" t(1) by auto
    have "rg_endIndex cur \<le> s"
    proof (rule ccontr)
      assume "\<not> rg_endIndex cur \<le> s"
      then have "\<not> bitat b (s - 1)" using c(5) [of "s - 1"] b(2) by (simp add: cur_def)
      then show False using b(1) by simp
    qed
    moreover have "rg_endIndex cur \<le> s \<Longrightarrow> rg_getSize (sparse_current b u n s)
        \<le> rg_getSize (sparse_pass b u n limit (rg_endIndex cur) r')"
      using "1.IH" [of t cur r'] ok "1.prems" lim tn b(1) by (simp add: t_def cur_def r'_def)
    ultimately show ?thesis by (simp add: eq)
  qed
qed

text \<open>An empty result means that nothing is free from \<open>i\<close> up to the limit.\<close>

lemma sparse_pass_empty:
  assumes "rg_getSize (sparse_pass b u n limit i r) = 0" and "range_ok b n r"
    and "i \<le> j" and "j < limit" and "j < n"
  shows "bitat b j"
proof (rule ccontr)
  assume "\<not> bitat b j"
  then have "\<exists>s. i \<le> s \<and> s \<le> j \<and> \<not> bitat b s \<and> (s = i \<or> bitat b (s - 1))"
    using assms(3)
  proof (induction j rule: less_induct)
    case (less j)
    show ?case
    proof (cases "j = i \<or> bitat b (j - 1)")
      case True
      then show ?thesis using less by blast
    next
      case False
      then have "i \<le> j - 1" "j - 1 < j" using less.prems by auto
      then show ?thesis using less.IH [of "j - 1"] False by (meson le_trans less_imp_le)
    qed
  qed
  then obtain s where s: "i \<le> s" "s \<le> j" "\<not> bitat b s" "s = i \<or> bitat b (s - 1)" by blast
  have "rg_getSize (sparse_current b u n s) \<le> rg_getSize (sparse_pass b u n limit i r)"
    by (rule sparse_pass_longest) (use s assms in auto)
  moreover have "0 < rg_getSize (sparse_current b u n s)"
    by (rule range_ok_current) (use s assms in auto)
  ultimately show False using assms(1) by simp
qed

lemma sparse_choice_Some:
  assumes "sparse_choice ms b u bl n r = Some i" and "range_ok b n r"
  shows "i < n \<and> \<not> bitat b i \<and> i = rg_startIndex r"
proof -
  have "rg_getSize r \<noteq> 0" "i = rg_startIndex r"
    using assms(1) by (auto simp: sparse_choice_def split: if_splits)
  then show ?thesis using assms(2) by (simp add: range_ok_size [OF assms(2)] range_ok_def)
qed

text \<open>With a split size of at most one block the choice only fails on an empty range.\<close>

lemma sparse_choice_None:
  assumes "sparse_choice ms b u bl n r = None" and "range_ok b n r" and "ms \<le> bl" and "0 \<le> bl"
  shows "rg_getSize r = 0"
proof (rule ccontr)
  assume ne: "rg_getSize r \<noteq> 0"
  then have "1 \<le> int (rg_endIndex r - rg_startIndex r)"
    by (simp add: range_ok_size [OF assms(2)])
  then have "bl \<le> int (rg_endIndex r - rg_startIndex r) * bl"
    using assms(4) mult_right_mono [of 1 "int (rg_endIndex r - rg_startIndex r)" bl] by simp
  then have "ms \<le> int (usub (rg_endIndex r) (rg_startIndex r)) * bl"
    using assms(2,3) by (simp add: range_ok_def)
  then show False using assms(1) ne by (simp add: sparse_choice_def split: if_splits)
qed

lemma sparse_search_Some:
  assumes "sparse_search ms b u bl n h = Some i"
  shows "i < n \<and> \<not> bitat b i"
  using assms sparse_choice_Some [of ms b u bl n _ i] sparse_pass_ok [OF range_ok_zero]
  by (auto simp: sparse_search_def Let_def split: option.splits)

lemma sparse_search_None:
  assumes "sparse_search ms b u bl n h = None" and "ms \<le> bl" and "0 \<le> bl" and "j < n"
  shows "bitat b j"
proof -
  let ?z = "\<lparr>rg_startIndex = 0, rg_endIndex = 0\<rparr>"
  have none: "sparse_choice ms b u bl n (sparse_pass b u n n h ?z) = None"
      "sparse_choice ms b u bl n (sparse_pass b u n h 0 ?z) = None"
    using assms(1) by (simp_all add: sparse_search_def Let_def split: option.splits)
  have "rg_getSize (sparse_pass b u n n h ?z) = 0" "rg_getSize (sparse_pass b u n h 0 ?z) = 0"
    using none sparse_choice_None assms(2,3) sparse_pass_ok [OF range_ok_zero] by blast+
  then show ?thesis using sparse_pass_empty [OF _ range_ok_zero] assms(4)
    by (cases "j < h") (metis le0, metis not_le)
qed


subsection \<open>In-order search\<close>

lemma inorder_loop_Some:
  "inorder_loop ms b u bl n l i = Some k \<Longrightarrow> l \<le> n \<Longrightarrow> i \<le> k \<and> k < n \<and> \<not> bitat b k \<and> \<not> bitat u k"
proof (induction ms b u bl n l i rule: inorder_loop.induct)
  case (1 ms b u bl n l i)
  then show ?case
    by (auto simp: inorder_loop.simps [of ms b u bl n l i] split: if_splits sum.splits
        dest: inorder_window_Inl inorder_window_Inr)
qed

lemma inorder_window_small:
  assumes "ms \<le> bl" and "j < n" and "\<not> bitat b j" and "\<not> bitat u j"
  shows "inorder_window ms b u bl n j j = Inr j"
  using assms by (simp add: inorder_window.simps [of ms b u bl n j j])

text \<open>With a split size of at most one block the search takes the first free block.\<close>

lemma inorder_loop_first:
  assumes "ms \<le> bl" and "l \<le> n"
  shows "inorder_loop ms b u bl n l i = List.find (\<lambda>j. \<not> bitat b j \<and> \<not> bitat u j) [i..<l]"
proof (induction "l - i" arbitrary: i)
  case 0
  then show ?case by (simp add: inorder_loop.simps)
next
  case (Suc k)
  then have i: "i < l" by simp
  show ?case
  proof (cases "\<not> bitat b i \<and> \<not> bitat u i")
    case True
    then show ?thesis using i assms inorder_window_small [of ms bl i n b u]
      by (simp add: inorder_loop.simps [of ms b u bl n l i] upt_conv_Cons)
  next
    case False
    then show ?thesis using i Suc.hyps(1) [of "i + 1"] Suc.hyps(2)
      by (auto simp: inorder_loop.simps [of ms b u bl n l i] upt_conv_Cons)
  qed
qed

lemma inorder_search_first:
  assumes "ms \<le> bl" and "l \<le> n" and "s < l"
  shows "inorder_search s l ms b u bl n =
    Some (List.find (\<lambda>j. \<not> bitat b j \<and> \<not> bitat u j) [s..<l])"
  using assms by (simp add: inorder_search_def inorder_loop_first upt_conv_Cons [of s l])

lemma inorder_search_Some:
  assumes "inorder_search s l ms b u bl n = Some (Some k)" and "l \<le> n"
  shows "s \<le> k \<and> k < n \<and> \<not> bitat b k \<and> \<not> bitat u k"
  using assms inorder_loop_Some [of ms b u bl n l "s + 1" k]
  by (auto simp: inorder_search_def split: if_splits)

subsection \<open>Geometric search\<close>

lemma geom_probe_Some:
  assumes "geom_probe b u n [x..<min n y] = Some i"
  shows "i < n \<and> \<not> bitat b i"
  using assms by (auto simp: geom_probe_def find_upt_Some split: option.splits if_splits)

lemma geom_search_Some:
  "geom_search fuel rnd ms b u bl n base off s e = Some (Some i) \<Longrightarrow> i < n \<and> \<not> bitat b i"
proof (induction fuel arbitrary: s e)
  case 0
  then show ?case by simp
next
  case (Suc fuel)
  then show ?case
    by (auto split: if_splits option.splits dest: geom_probe_Some sparse_search_Some)
qed

lemma geom_search_None:
  "geom_search fuel rnd ms b u bl n base off s e = Some None \<Longrightarrow> ms \<le> bl \<Longrightarrow> 0 \<le> bl \<Longrightarrow> j < n \<Longrightarrow>
     bitat b j"
proof (induction fuel arbitrary: s e)
  case 0
  then show ?case by simp
next
  case (Suc fuel)
  then show ?case by (auto split: if_splits option.splits dest: sparse_search_None)
qed

text \<open>
  What the search needs of the floating-point unit: rounding is monotone and exact on the
  multiples of one half up to \<open>2 ^ 53\<close> (doubles have 53 bits of precision).
\<close>

definition double_rounding :: "(rat \<Rightarrow> rat) \<Rightarrow> bool" where
  "double_rounding rnd \<longleftrightarrow> mono rnd \<and> (\<forall>k::nat \<le> 2 ^ 53. rnd (of_nat k / 2) = of_nat k / 2)"

lemma double_rounding_half:
  assumes "double_rounding rnd" and "k \<le> 2 ^ 53" and "of_nat k / 2 \<le> x"
  shows "of_nat k / 2 \<le> rnd x"
proof -
  have "rnd (of_nat k / 2) \<le> rnd x"
    using assms by (simp add: double_rounding_def mono_def)
  moreover have "rnd (of_nat k / 2) = of_nat k / 2"
    using assms(1,2) by (simp only: double_rounding_def)
  ultimately show ?thesis by simp
qed

text \<open>
  The window end grows by at least one half per round when \<open>base \<ge> 3 / 2\<close>, so \<open>2 n + 2\<close>
  rounds suffice.
\<close>

lemma geom_search_returns:
  assumes rnd: "double_rounding rnd" and base: "3 / 2 \<le> base" and n: "n < 2 ^ 50"
  shows "of_nat k / 2 \<le> s \<Longrightarrow> of_nat (k + 1) / 2 \<le> e \<Longrightarrow> 1 \<le> e \<Longrightarrow> 2 * n \<le> k + fuel \<Longrightarrow> k \<le> 2 * n \<Longrightarrow>
    geom_search (Suc fuel) rnd ms b u bl n base off s e \<noteq> None"
proof (induction fuel arbitrary: s e k)
  case 0
  then have k: "k = 2 * n" by simp
  have "of_nat k / 2 \<le> rnd (s + of_nat off)"
    by (rule double_rounding_half [OF rnd]) (use 0 k n in simp_all)
  then show ?case using k by simp
next
  case (Suc fuel)
  show ?case
  proof (cases "k = 2 * n")
    case True
    have "of_nat k / 2 \<le> rnd (s + of_nat off)"
      by (rule double_rounding_half [OF rnd]) (use Suc.prems True n in simp_all)
    then show ?thesis using True by simp
  next
    case False
    have half: "e + 1 / 2 \<le> e * base"
    proof -
      have "e * (3 / 2) \<le> e * base" using Suc.prems(3) base by (intro mult_left_mono) simp_all
      then show ?thesis using Suc.prems(3) by linarith
    qed
    have "of_nat (k + 2) / 2 \<le> rnd (e * base)"
      by (rule double_rounding_half [OF rnd]) (use Suc.prems half n in \<open>simp_all add: field_simps\<close>)
    moreover have "1 \<le> rnd (e * base)"
      using double_rounding_half [OF rnd, of 2 "e * base"] half Suc.prems(3) by simp
    ultimately have "geom_search (Suc fuel) rnd ms b u bl n base off e (rnd (e * base)) \<noteq> None"
      using Suc.IH [of "k + 1" e "rnd (e * base)"] Suc.prems False by simp
    then show ?thesis
      unfolding geom_search.simps(2) [of "Suc fuel"] by (simp split: option.split)
  qed
qed


subsection \<open>Copied bitfields\<close>

lemma copy_fold:
  "k \<le> length dst \<Longrightarrow>
     fold (\<lambda>i (dst, bits). (dst[i := src i], bits OR src i)) [0..<k] (dst, 0) =
       (map src [0..<k] @ drop k dst, fold (\<lambda>i bits. bits OR src i) [0..<k] 0)"
  for src :: barr
proof (induction k)
  case 0
  then show ?case by simp
next
  case (Suc k)
  then have "(map src [0..<k] @ drop k dst)[k := src k] = map src [0..<Suc k] @ drop (Suc k) dst"
    by (intro nth_equalityI) (auto simp: nth_append nth_list_update less_Suc_eq)
  then show ?case using Suc by simp
qed

lemma bit_fold_or: "bit (fold (\<lambda>i bits. bits OR src i) is b) k \<longleftrightarrow> bit b k \<or> (\<exists>i\<in>set is. bit (src i) k)"
  for src :: barr
  by (induction "is" arbitrary: b) (auto simp: bit_or_iff)

lemma last_byte_index:
  fixes i n :: nat
  assumes "i < 8 * ((n + 7) div 8)" and "i div 8 = (n + 7) div 8 - 1"
  shows "i < n \<longleftrightarrow> n mod 8 = 0 \<or> 8 - n mod 8 \<le> 7 - i mod 8"
proof -
  define q r where "q = n div 8" and "r = n mod 8"
  have n: "n = 8 * q + r" "r < 8" by (simp_all add: q_def r_def)
  have len: "(n + 7) div 8 = q + (if r = 0 then 0 else 1)" using n by auto
  have i: "i = 8 * (i div 8) + i mod 8" "i mod 8 < 8" by simp_all
  show ?thesis
  proof (cases "r = 0")
    case True
    then show ?thesis using assms n len by simp
  next
    case False
    then have "i div 8 = q" using assms len by simp
    then show ?thesis using False n i unfolding r_def [symmetric] by linarith
  qed
qed

lemma before_last_byte:
  fixes i n :: nat
  assumes "i div 8 < (n + 7) div 8 - 1"
  shows "i < n"
proof -
  define q r where "q = i div 8" and "r = i mod 8"
  have i: "i = 8 * q + r" "r < 8" by (simp_all add: q_def r_def)
  have "q + 2 \<le> (n + 7) div 8" using assms by (simp add: q_def)
  then have "8 * (q + 2) \<le> n + 7"
    by (metis le_trans mult_le_mono2 times_div_less_eq_dividend)
  then have "8 * q + 16 \<le> n + 7" by simp
  then show ?thesis using i by linarith
qed

lemma masked_bit:
  assumes "i < 8 * len" and "len = (n + 7) div 8"
  shows "bitat (\<lambda>j. if j = len - 1 then src j AND lastByteMask n else src j) i \<longleftrightarrow>
    i < n \<and> bitat src i"
proof (cases "i div 8 = len - 1")
  case True
  have "n \<noteq> 0" using assms by (intro notI) simp
  moreover have "i < n \<longleftrightarrow> n mod 8 = 0 \<or> 8 - n mod 8 \<le> 7 - i mod 8"
    by (rule last_byte_index) (use assms True in simp_all)
  ultimately have m: "bit (lastByteMask n) (7 - i mod 8) = (i < n)"
    by (simp only: bit_lastByteMask seven_minus_less simp_thms)
  have "bitat (\<lambda>j. if j = len - 1 then src j AND lastByteMask n else src j) i =
      bit (src (i div 8) AND lastByteMask n) (7 - i mod 8)"
    by (simp only: bitat_def True if_True refl)
  also have "\<dots> = (bitat src i \<and> i < n)" by (simp only: bit_and_iff m bitat_def)
  finally show ?thesis by blast
next
  case False
  have "i div 8 < len" using assms(1) by (simp add: less_mult_imp_div_less mult.commute)
  then have "i div 8 < len - 1" using False by linarith
  then have "i < n" unfolding assms(2) by (rule before_last_byte)
  then show ?thesis using False by (simp add: bitat_def)
qed

lemma copyBitfield_spec:
  assumes "0 < n" and "length dst = (n + 7) div 8"
  obtains out where "copyBitfield dst src n = Some (out, \<exists>i<n. bitat src i)"
    "length out = (n + 7) div 8" "tail_clear n out" "\<And>i. i < n \<Longrightarrow> bitat (array out) i \<longleftrightarrow> bitat src i"
proof -
  define len where "len = (n + 7) div 8"
  define masked where "masked = (\<lambda>j. if j = len - 1 then src j AND lastByteMask n else src j)"
  define out where "out = map masked [0..<len]"
  have len: "0 < len" using assms by (simp add: len_def)
  have bits: "bitat (array out) i \<longleftrightarrow> i < n \<and> bitat src i" if "i < 8 * len" for i
  proof -
    have "bitat (array out) i = bitat masked i"
      using that by (simp add: bitat_def array_def out_def less_mult_imp_div_less mult.commute)
    then show ?thesis using masked_bit [of i len n src] that by (simp add: masked_def len_def)
  qed
  have out_eq: "(map src [0..<len - 1] @ drop (len - 1) dst)[len - 1 := src (len - 1) AND lastByteMask n] = out"
    using assms len by (intro nth_equalityI)
      (auto simp: out_def masked_def nth_append nth_list_update len_def [symmetric])
  define any where "any = fold (\<lambda>i bits. bits OR src i) [0..<len - 1] 0 OR (src (len - 1) AND lastByteMask n)"
  have bit_any: "bit any k \<longleftrightarrow> (\<exists>j<len. bit (masked j) k)" for k
  proof -
    have "bit any k \<longleftrightarrow> (\<exists>j<len - 1. bit (src j) k) \<or> bit (masked (len - 1)) k"
      by (auto simp: any_def bit_or_iff bit_fold_or masked_def)
    also have "\<dots> \<longleftrightarrow> (\<exists>j<len - 1. bit (masked j) k) \<or> bit (masked (len - 1)) k"
      by (intro disj_cong ex_cong1 conj_cong refl) (simp add: masked_def)
    also have "\<dots> \<longleftrightarrow> (\<exists>j<len. bit (masked j) k)"
      using len by (metis Suc_pred' less_Suc_eq)
    finally show ?thesis .
  qed
  have "any = 0 \<longleftrightarrow> (\<forall>j<len. masked j = 0)"
    by (auto simp: bit_eq_iff bit_any)
  also have "\<dots> \<longleftrightarrow> (\<forall>i<8 * len. \<not> bitat masked i)"
    by (rule bytewise) (simp add: byte_eq_iff bitat_at)
  also have "\<dots> \<longleftrightarrow> (\<forall>i<n. \<not> bitat src i)"
    unfolding masked_def using masked_bit [OF _ len_def, of _ src] le_ceil_8 [of n, folded len_def]
    by (meson less_le_trans)
  finally have any: "any \<noteq> 0 \<longleftrightarrow> (\<exists>i<n. bitat src i)" by blast
  have "copyBitfield dst src n = Some (out, any \<noteq> 0)"
    using assms len copy_fold [of "len - 1" dst src] out_eq
    by (simp add: copyBitfield_def len_def [symmetric] Let_def any_def)
  then have "copyBitfield dst src n = Some (out, \<exists>i<n. bitat src i)" using any by simp
  moreover have "length out = (n + 7) div 8" by (simp add: out_def len_def)
  moreover have "tail_clear n out" using bits by (auto simp: tail_clear_def out_def)
  moreover have "bitat (array out) i \<longleftrightarrow> bitat src i" if "i < n" for i
    using bits [of i] that le_ceil_8 [of n] by (simp add: len_def)
  ultimately show thesis by (rule that)
qed


subsection \<open>The searches on a bitfield manager\<close>

lemma blockLength_nonneg:
  assumes "bm_shape m" and "i < bm_blocks m"
  shows "0 \<le> bm_blockLength m"
  using assms by (auto simp: bm_shape_def ceil_blocks_def split: if_splits)

lemma not_free:
  assumes "bm_shape m" and "\<And>i. i < bm_blocks m \<Longrightarrow> bitat (occupied_arr m ig) i"
  shows "free m ig = {}"
  using assms occupied_free [OF assms(1)] free_less by blast

lemma getSparse_Some:
  assumes "bm_shape m" and "getSparseMissingUnusedIndex m ms ig = (m', Some i)"
  shows "i \<in> free m ig" and "m' = m\<lparr>bm_sparseHint := i\<rparr>"
  using assms sparse_search_Some occupied_free [OF assms(1)]
  by (fastforce simp: getSparseMissingUnusedIndex_def Let_def)+

lemma getSparse_None:
  assumes "bm_shape m" and "getSparseMissingUnusedIndex m ms ig = (m', None)"
  shows "ms \<le> bm_blockLength m \<Longrightarrow> free m ig = {}" and "m' = m"
proof -
  have none: "sparse_search ms (occupied_arr m ig) (use_arr m) (bm_blockLength m) (bm_blocks m)
      (bm_sparseHint m) = None" and "m' = m"
    using assms(2) by (auto simp: getSparseMissingUnusedIndex_def Let_def)
  then show "m' = m" by simp
  show "free m ig = {}" if "ms \<le> bm_blockLength m"
    by (rule not_free [OF assms(1)])
      (use sparse_search_None [OF none that] blockLength_nonneg [OF assms(1)] in blast)
qed

lemma getInorderIn_Some:
  assumes "bm_shape m" and "getInorderMissingUnusedIndexIn m s e ms ig = Some (Some i)"
  shows "i \<in> free m ig" and "s \<le> i"
proof -
  have "s \<le> i \<and> i < bm_blocks m \<and> \<not> bitat (occupied_arr m ig) i"
    using assms(2) inorder_search_Some unfolding getInorderMissingUnusedIndexIn_def
    by (metis min.cobounded2)
  then show "i \<in> free m ig" "s \<le> i" using occupied_free [OF assms(1)] by auto
qed

text \<open>The search over all blocks is the one over \<open>[0, blocks)\<close>.\<close>

lemma getInorder_In: "getInorderMissingUnusedIndex m ms ig = getInorderMissingUnusedIndexIn m 0 (bm_blocks m) ms ig"
  by (simp add: getInorderMissingUnusedIndex_def getInorderMissingUnusedIndexIn_def)

lemma getInorderIn_first:
  assumes "bm_shape m" and "ms \<le> bm_blockLength m" and "s < e" and "s < bm_blocks m"
  shows "getInorderMissingUnusedIndexIn m s e ms ig =
    Some (List.find (\<lambda>i. i \<in> free m ig) [s..<min e (bm_blocks m)])"
proof -
  have "List.find (\<lambda>j. \<not> bitat (occupied_arr m ig) j \<and> \<not> bitat (use_arr m) j) [s..<min e (bm_blocks m)] =
      List.find (\<lambda>i. i \<in> free m ig) [s..<min e (bm_blocks m)]"
    by (rule find_cong [OF refl]) (use occupied_free [OF assms(1)] uses_occupied in force)
  then show ?thesis using assms
    by (simp add: getInorderMissingUnusedIndexIn_def inorder_search_first)
qed

lemma getInorder_first:
  assumes "bm_shape m" and "ms \<le> bm_blockLength m" and "0 < bm_blocks m"
  shows "getInorderMissingUnusedIndex m ms ig = Some (if free m ig = {} then None else Some (Min (free m ig)))"
proof -
  have "List.find (\<lambda>i. i \<in> free m ig) [0..<bm_blocks m] = (if free m ig = {} then None else Some (Min (free m ig)))"
    by (rule find_least) (auto dest: free_less)
  then show ?thesis using getInorderIn_first [OF assms(1,2), of 0 "bm_blocks m" ig] assms(3)
    by (simp add: getInorder_In)
qed

lemma getInorderIn_returns:
  "s < bm_blocks m \<Longrightarrow> getInorderMissingUnusedIndexIn m s e ms ig \<noteq> None"
  by (simp add: getInorderMissingUnusedIndexIn_def inorder_search_def)

lemma getGeom_Some:
  assumes "bm_shape m" and "getGeomMissingUnusedIndex fuel rnd m ms ig base off = Some (Some i)"
  shows "i \<in> free m ig"
  using assms geom_search_Some occupied_free [OF assms(1)]
  by (metis getGeomMissingUnusedIndex_def)

lemma getGeom_None:
  assumes "bm_shape m" and "getGeomMissingUnusedIndex fuel rnd m ms ig base off = Some None"
    and "ms \<le> bm_blockLength m"
  shows "free m ig = {}"
  by (rule not_free [OF assms(1)])
    (use geom_search_None blockLength_nonneg [OF assms(1)] assms in
      \<open>metis getGeomMissingUnusedIndex_def\<close>)

lemma getGeom_returns:
  assumes "double_rounding rnd" and "3 / 2 \<le> base" and "bm_blocks m < 2 ^ 50"
    and "2 * bm_blocks m < fuel"
  shows "getGeomMissingUnusedIndex fuel rnd m ms ig base off \<noteq> None"
proof -
  obtain f where "fuel = Suc f" "2 * bm_blocks m \<le> f" using assms(4) by (cases fuel) auto
  then show ?thesis
    using geom_search_returns [OF assms(1-3), of 0 0 1 f ms "occupied_arr m ig" "use_arr m" "bm_blockLength m" off]
    by (simp add: getGeomMissingUnusedIndex_def)
qed

subsection \<open>Bitfields of missing blocks\<close>

lemma copied_set:
  assumes "0 < bm_blocks m" and "length mis = bm_bitfieldLength m" and "bm_shape m"
    and "\<And>i. i < bm_blocks m \<Longrightarrow> bitat src i \<longleftrightarrow> i \<in> A" and "A \<subseteq> {..<bm_blocks m}"
  shows "\<exists>out. copyBitfield mis src (bm_blocks m) = Some (out, A \<noteq> {}) \<and>
    length out = bm_bitfieldLength m \<and> {i. i < 8 * length out \<and> bitat (array out) i} = A"
proof -
  have len: "bm_bitfieldLength m = (bm_blocks m + 7) div 8" "bm_blocks m \<le> 8 * bm_bitfieldLength m"
    using shape_lengths(4,5) [OF assms(3)] .
  obtain out where out: "copyBitfield mis src (bm_blocks m) = Some (out, \<exists>i<bm_blocks m. bitat src i)"
      "length out = bm_bitfieldLength m" "tail_clear (bm_blocks m) out"
      "\<And>i. i < bm_blocks m \<Longrightarrow> bitat (array out) i \<longleftrightarrow> bitat src i"
    using copyBitfield_spec [OF assms(1), of mis src] assms(2) len by auto
  have "(\<exists>i<bm_blocks m. bitat src i) \<longleftrightarrow> A \<noteq> {}" using assms(4,5) by blast
  moreover have "{i. i < 8 * length out \<and> bitat (array out) i} = A"
    using out(2-4) len(2) assms(4,5) unfolding tail_clear_def by force
  ultimately show ?thesis using out by auto
qed

lemma getAll_views:
  assumes "bm_shape m" and "0 < bm_blocks m" and "length mis = bm_bitfieldLength m"
  shows "\<exists>out. getAllMissingIndexes m mis = Some (out, missing m \<noteq> {}) \<and>
      length out = bm_bitfieldLength m \<and> {i. i < 8 * length out \<and> bitat (array out) i} = missing m"
    and "length peer = bm_bitfieldLength m \<Longrightarrow>
      \<exists>out. getAllMissingIndexesOf m mis peer = Some (out, {i \<in> missing m. bitat (array peer) i} \<noteq> {}) \<and>
        length out = bm_bitfieldLength m \<and>
        {i. i < 8 * length out \<and> bitat (array out) i} = {i \<in> missing m. bitat (array peer) i}"
    and "length peer = bm_bitfieldLength m \<Longrightarrow>
      \<exists>out. getAllMissingUnusedIndexes m mis peer =
          Some (out, {i \<in> missing m - uses m. bitat (array peer) i} \<noteq> {}) \<and>
        length out = bm_bitfieldLength m \<and>
        {i. i < 8 * length out \<and> bitat (array out) i} = {i \<in> missing m - uses m. bitat (array peer) i}"
proof -
  note views = filter_arr_filts [OF assms(1)] arr_views
  show "\<exists>out. getAllMissingIndexes m mis = Some (out, missing m \<noteq> {}) \<and>
      length out = bm_bitfieldLength m \<and> {i. i < 8 * length out \<and> bitat (array out) i} = missing m"
  proof -
    have eq: "getAllMissingIndexes m mis = copyBitfield mis
        (if bm_filterEnabled m then arr_and (arr_not (bits_arr m)) (filter_arr m) else arr_not (bits_arr m))
        (bm_blocks m)" by (simp add: getAllMissingIndexes_def assms(3))
    show ?thesis unfolding eq
      by (rule copied_set [OF assms(2,3,1) missing_bit [OF assms(1)]]) (auto dest: missing_less)
  qed
  show "\<exists>out. getAllMissingIndexesOf m mis peer = Some (out, {i \<in> missing m. bitat (array peer) i} \<noteq> {}) \<and>
        length out = bm_bitfieldLength m \<and>
        {i. i < 8 * length out \<and> bitat (array out) i} = {i \<in> missing m. bitat (array peer) i}"
    if "length peer = bm_bitfieldLength m"
  proof -
    have "bitat (if bm_filterEnabled m then arr_and (arr_and (arr_not (bits_arr m)) (array peer)) (filter_arr m)
        else arr_and (arr_not (bits_arr m)) (array peer)) i \<longleftrightarrow> i \<in> {i \<in> missing m. bitat (array peer) i}"
      if "i < bm_blocks m" for i
      using missing_bit [OF assms(1) that] by auto
    from copied_set [OF assms(2,3,1) this] show ?thesis
      using that assms(3) missing_less
      by (cases "bm_filterEnabled m") (simp_all add: getAllMissingIndexesOf_def subset_iff)
  qed
  show "\<exists>out. getAllMissingUnusedIndexes m mis peer =
          Some (out, {i \<in> missing m - uses m. bitat (array peer) i} \<noteq> {}) \<and>
        length out = bm_bitfieldLength m \<and>
        {i. i < 8 * length out \<and> bitat (array out) i} = {i \<in> missing m - uses m. bitat (array peer) i}"
    if "length peer = bm_bitfieldLength m"
  proof -
    have "bitat (if bm_filterEnabled m
        then arr_and (arr_and (arr_and (arr_not (bits_arr m)) (arr_not (use_arr m))) (array peer)) (filter_arr m)
        else arr_and (arr_and (arr_not (bits_arr m)) (arr_not (use_arr m))) (array peer)) i \<longleftrightarrow>
        i \<in> {i \<in> missing m - uses m. bitat (array peer) i}"
      if "i < bm_blocks m" for i
      using missing_bit [OF assms(1) that] arr_views [OF that] by auto
    from copied_set [OF assms(2,3,1) this] show ?thesis
      using that assms(3) missing_less
      by (cases "bm_filterEnabled m") (simp_all add: getAllMissingUnusedIndexes_def subset_iff)
  qed
qed

end
