(* ===== verification/StreamSelector.thy ===== *)
theory StreamSelector
  imports BitfieldSearchProps
begin

text \<open>
  The stream piece selectors of HTTP/FTP downloads: \<open>DefaultStreamPieceSelector\<close> (sparse),
  \<open>InorderStreamPieceSelector\<close>, \<open>RandomStreamPieceSelector\<close> and \<open>GeomStreamPieceSelector\<close>.
  A selector works on the storage's \<open>BitfieldMan\<close>, which it may update (the sparse hint), so
  \<open>select\<close> takes it and returns it; the outer \<open>None\<close> is a failed assertion or fuel that ran
  out. The locale \<open>stream_selector\<close> is the interface of StreamPieceSelector.h.
\<close>

subsection \<open>The four selectors\<close>

definition defaultStream_select ::
  "bitfield_man \<Rightarrow> nat \<Rightarrow> byte list \<Rightarrow> (bitfield_man \<times> nat option) option" where
  "defaultStream_select m minSplitSize ignoreBitfield =
     Some (getSparseMissingUnusedIndex m (int32_of (int minSplitSize)) ignoreBitfield)"

definition inorderStream_select ::
  "bitfield_man \<Rightarrow> nat \<Rightarrow> byte list \<Rightarrow> (bitfield_man \<times> nat option) option" where
  "inorderStream_select m minSplitSize ignoreBitfield = do {
     rv \<leftarrow> getInorderMissingUnusedIndex m (int32_of (int minSplitSize)) ignoreBitfield;
     Some (m, rv) }"

text \<open>
  \<open>minSplitSize\<close> is a \<open>size_t\<close> here and an \<open>int32_t\<close> in \<open>BitfieldMan\<close>: the call
  narrows it. \<open>start\<close> is the random number below \<open>countBlock()\<close>; \<open>getRandomNumber(0)\<close> fails its
  assertion.
\<close>

definition randomStream_select ::
  "nat \<Rightarrow> bitfield_man \<Rightarrow> nat \<Rightarrow> byte list \<Rightarrow> (bitfield_man \<times> nat option) option" where
  "randomStream_select start m minSplitSize ignoreBitfield =
     (if bm_blocks m = 0 then None else do {
       rv \<leftarrow> getInorderMissingUnusedIndexIn m start (bm_blocks m) (int32_of (int minSplitSize)) ignoreBitfield;
       case rv of Some index \<Rightarrow> Some (m, Some index) | None \<Rightarrow> do {
         rv \<leftarrow> getInorderMissingUnusedIndexIn m 0 start (int32_of (int minSplitSize)) ignoreBitfield;
         case rv of Some index \<Rightarrow> Some (m, Some index) | None \<Rightarrow> do {
           rv \<leftarrow> getInorderMissingUnusedIndex m (int32_of (int minSplitSize)) ignoreBitfield;
           Some (m, rv) } } })"

record geom_selector =
  gs_base :: rat
  gs_offsetIndex :: nat

definition geomStream_new :: "rat \<Rightarrow> geom_selector" where
  "geomStream_new base = \<lparr>gs_base = base, gs_offsetIndex = 0\<rparr>"

definition geomStream_onBitfieldInit :: "geom_selector \<Rightarrow> bitfield_man \<Rightarrow> geom_selector" where
  "geomStream_onBitfieldInit gs m =
     (case getFirstMissingIndex m of Some index \<Rightarrow> gs\<lparr>gs_offsetIndex := index\<rparr> | None \<Rightarrow> gs)"

definition geomStream_select ::
  "nat \<Rightarrow> (rat \<Rightarrow> rat) \<Rightarrow> geom_selector \<Rightarrow> bitfield_man \<Rightarrow> nat \<Rightarrow> byte list \<Rightarrow>
     (bitfield_man \<times> nat option) option" where
  "geomStream_select fuel rnd gs m minSplitSize ignoreBitfield = do {
     rv \<leftarrow> getGeomMissingUnusedIndex fuel rnd m (int32_of (int minSplitSize)) ignoreBitfield
           (gs_base gs) (gs_offsetIndex gs);
     Some (m, rv) }"

subsection \<open>The interface\<close>

lemma hint_views:
  "haves (m\<lparr>bm_sparseHint := h\<rparr>) = haves m" "uses (m\<lparr>bm_sparseHint := h\<rparr>) = uses m"
  "filts (m\<lparr>bm_sparseHint := h\<rparr>) = filts m" "selected (m\<lparr>bm_sparseHint := h\<rparr>) = selected m"
  by (auto simp: haves_def uses_def filts_def selected_def bits_arr_def use_arr_def split: option.splits)

lemma hint_inv: "bm_inv (m\<lparr>bm_sparseHint := h\<rparr>) \<longleftrightarrow> bm_inv m"
  by (simp add: bm_inv_def bm_shape_def bm_tails_def)

lemma same_hint: "m = m\<lparr>bm_sparseHint := bm_sparseHint m\<rparr>"
  by (cases m) simp

text \<open>
  \<open>'s\<close> is the selector's own state and whatever else a call depends on (random numbers, the
  fuel); \<open>legal\<close> says when a call on a non-empty manager is in order.
\<close>

locale stream_selector =
  fixes select :: "'s \<Rightarrow> bitfield_man \<Rightarrow> nat \<Rightarrow> byte list \<Rightarrow> (bitfield_man \<times> nat option) option"
    and legal :: "'s \<Rightarrow> bitfield_man \<Rightarrow> bool"
  assumes only_hint: "bm_inv m \<Longrightarrow> select s m ms ig = Some (m', r) \<Longrightarrow>
      m' = m\<lparr>bm_sparseHint := bm_sparseHint m'\<rparr>"
    and sound: "bm_inv m \<Longrightarrow> select s m ms ig = Some (m', Some i) \<Longrightarrow> i \<in> free m ig"
    and complete: "bm_inv m \<Longrightarrow> select s m ms ig = Some (m', None) \<Longrightarrow> int32_of (int ms) \<le> bm_blockLength m \<Longrightarrow>
      free m ig = {}"
    and returns: "bm_inv m \<Longrightarrow> 0 < bm_blocks m \<Longrightarrow> legal s m \<Longrightarrow> select s m ms ig \<noteq> None"
begin

lemma select_views:
  assumes "bm_inv m" and "select s m ms ig = Some (m', r)"
  shows "haves m' = haves m \<and> uses m' = uses m \<and> filts m' = filts m \<and> selected m' = selected m \<and>
    bm_blocks m' = bm_blocks m \<and> bm_blockLength m' = bm_blockLength m"
proof -
  obtain h where "m' = m\<lparr>bm_sparseHint := h\<rparr>" using only_hint [OF assms] by blast
  then show ?thesis using hint_views by simp
qed

lemma select_inv:
  assumes "bm_inv m" and "select s m ms ig = Some (m', r)"
  shows "bm_inv m'"
proof -
  obtain h where "m' = m\<lparr>bm_sparseHint := h\<rparr>" using only_hint [OF assms] by blast
  then show ?thesis using assms(1) by (simp add: hint_inv)
qed

lemma select_free:
  assumes "bm_inv m" and "select s m ms ig = Some (m', r)"
  shows "free m' ig = free m ig"
  using select_views [OF assms] by (simp add: free_def missing_def)

text \<open>A selection fails exactly when nothing is free, unless the split size asks for more room.\<close>

lemma select_decides:
  assumes "bm_inv m" and "0 < bm_blocks m" and "legal s m" and "int32_of (int ms) \<le> bm_blockLength m"
  shows "\<exists>m' r. select s m ms ig = Some (m', r) \<and> (r = None \<longleftrightarrow> free m ig = {}) \<and>
    (\<forall>i. r = Some i \<longrightarrow> i \<in> free m ig)"
proof -
  obtain m' r where sel: "select s m ms ig = Some (m', r)"
    using returns [OF assms(1-3), of ms ig] by auto
  then show ?thesis using sound [OF assms(1)] complete [OF assms(1) _ assms(4)]
    by (cases r) fastforce+
qed

text \<open>Taking the selected block into use removes it, and it alone, from what is free.\<close>

lemma select_take:
  assumes "bm_inv m" and "select s m ms ig = Some (m', Some i)"
  shows "free (fst (setUseBit m' i)) ig = free m ig - {i}" and "bm_inv (fst (setUseBit m' i))"
proof -
  note inv = select_inv [OF assms]
  note v = select_views [OF assms]
  have "i < bm_blocks m'" using sound [OF assms] v by (auto dest: free_less)
  then show "free (fst (setUseBit m' i)) ig = free m ig - {i}"
    using v inv by (auto simp: free_def missing_def abs_simps selected_def)
  show "bm_inv (fst (setUseBit m' i))" using inv by (rule inv_intros)
qed

end

subsection \<open>The selectors meet the interface\<close>

definition no_state :: "(bitfield_man \<Rightarrow> nat \<Rightarrow> byte list \<Rightarrow> (bitfield_man \<times> nat option) option) \<Rightarrow>
    unit \<Rightarrow> bitfield_man \<Rightarrow> nat \<Rightarrow> byte list \<Rightarrow> (bitfield_man \<times> nat option) option" where
  "no_state f = (\<lambda>_. f)"

interpretation default_stream: stream_selector "no_state defaultStream_select" "\<lambda>_ _. True"
proof
  fix s :: unit and m ms ig m' r
  assume inv: "bm_inv m" and sel: "no_state defaultStream_select s m ms ig = Some (m', r)"
  have res: "getSparseMissingUnusedIndex m (int32_of (int ms)) ig = (m', r)"
    using sel by (simp add: no_state_def defaultStream_select_def)
  show "m' = m\<lparr>bm_sparseHint := bm_sparseHint m'\<rparr>"
  proof (cases r)
    case None
    then show ?thesis using res getSparse_None(2) [OF bm_invD(1) [OF inv]] same_hint by metis
  next
    case (Some i)
    then have "m' = m\<lparr>bm_sparseHint := i\<rparr>" using res getSparse_Some(2) [OF bm_invD(1) [OF inv]] by blast
    then show ?thesis by simp
  qed
qed (auto simp: no_state_def defaultStream_select_def dest: bm_invD getSparse_Some(1) getSparse_None(1))

interpretation inorder_stream: stream_selector "no_state inorderStream_select" "\<lambda>_ _. True"
proof
  fix s :: unit and m ms ig m' i
  assume inv: "bm_inv m"
  show "i \<in> free m ig" if "no_state inorderStream_select s m ms ig = Some (m', Some i)"
    using that getInorderIn_Some(1) [OF bm_invD(1) [OF inv]]
    by (auto simp: no_state_def inorderStream_select_def getInorder_In bind_eq_Some_conv)
  show "free m ig = {}" if "no_state inorderStream_select s m ms ig = Some (m', None)"
      and "int32_of (int ms) \<le> bm_blockLength m"
  proof (cases "bm_blocks m = 0")
    case True
    then show ?thesis using free_less by fastforce
  next
    case False
    then show ?thesis using that getInorder_first [OF bm_invD(1) [OF inv] that(2)]
      by (auto simp: no_state_def inorderStream_select_def bind_eq_Some_conv split: if_splits)
  qed
next
  fix s :: unit and m :: bitfield_man and ms ig
  assume "0 < bm_blocks m"
  then show "no_state inorderStream_select s m ms ig \<noteq> None"
    using getInorderIn_returns [of 0 m "bm_blocks m" "int32_of (int ms)" ig]
    by (auto simp: no_state_def inorderStream_select_def getInorder_In)
qed (auto simp: no_state_def inorderStream_select_def bind_eq_Some_conv)

interpretation random_stream: stream_selector randomStream_select "\<lambda>start m. start < bm_blocks m"
proof
  fix start m ms ig m' i
  assume inv: "bm_inv m"
  show "i \<in> free m ig" if "randomStream_select start m ms ig = Some (m', Some i)"
    using that getInorderIn_Some(1) [OF bm_invD(1) [OF inv]]
    by (auto simp: randomStream_select_def getInorder_In bind_eq_Some_conv split: if_splits option.splits)
  show "free m ig = {}" if "randomStream_select start m ms ig = Some (m', None)"
      and "int32_of (int ms) \<le> bm_blockLength m"
    using that getInorder_first [OF bm_invD(1) [OF inv] that(2)]
    by (auto simp: randomStream_select_def bind_eq_Some_conv split: if_splits option.splits)
next
  fix start ms ig and m :: bitfield_man
  assume m: "0 < bm_blocks m" "start < bm_blocks m"
  obtain a b c where "getInorderMissingUnusedIndexIn m start (bm_blocks m) (int32_of (int ms)) ig = Some a"
      "getInorderMissingUnusedIndexIn m 0 start (int32_of (int ms)) ig = Some b"
      "getInorderMissingUnusedIndex m (int32_of (int ms)) ig = Some c"
    using m getInorderIn_returns by (metis getInorder_In not_None_eq)
  then show "randomStream_select start m ms ig \<noteq> None"
    using m by (simp add: randomStream_select_def split: option.split)
qed (auto simp: randomStream_select_def bind_eq_Some_conv split: if_splits option.splits)

text \<open>The geometric selector, with the fuel and the rounding as part of the call.\<close>

definition geom_call ::
  "nat \<times> (rat \<Rightarrow> rat) \<times> geom_selector \<Rightarrow> bitfield_man \<Rightarrow> nat \<Rightarrow> byte list \<Rightarrow>
     (bitfield_man \<times> nat option) option" where
  "geom_call = (\<lambda>(fuel, rnd, gs). geomStream_select fuel rnd gs)"

definition geom_legal :: "nat \<times> (rat \<Rightarrow> rat) \<times> geom_selector \<Rightarrow> bitfield_man \<Rightarrow> bool" where
  "geom_legal = (\<lambda>(fuel, rnd, gs) m. double_rounding rnd \<and> 3 / 2 \<le> gs_base gs \<and>
     bm_blocks m < 2 ^ 50 \<and> 2 * bm_blocks m < fuel)"

interpretation geom_stream: stream_selector geom_call geom_legal
proof
  fix s m ms ig m' i
  assume inv: "bm_inv m"
  note shape = bm_invD(1) [OF inv]
  show "i \<in> free m ig" if "geom_call s m ms ig = Some (m', Some i)"
    using that getGeom_Some [OF shape]
    by (auto simp: geom_call_def geomStream_select_def bind_eq_Some_conv split: prod.splits)
  show "free m ig = {}" if "geom_call s m ms ig = Some (m', None)" and "int32_of (int ms) \<le> bm_blockLength m"
    using that getGeom_None [OF shape]
    by (auto simp: geom_call_def geomStream_select_def bind_eq_Some_conv split: prod.splits)
next
  fix s ms ig and m :: bitfield_man
  assume "geom_legal s m"
  then show "geom_call s m ms ig \<noteq> None"
    using getGeom_returns [of "fst (snd s)" "gs_base (snd (snd s))" m "fst s" "int32_of (int ms)" ig "gs_offsetIndex (snd (snd s))"]
    by (cases s) (auto simp: geom_call_def geom_legal_def geomStream_select_def bind_eq_None_conv)
qed (auto simp: geom_call_def geomStream_select_def bind_eq_Some_conv split: prod.splits)

end
