(* ===== verification/BlockMap.thy ===== *)
theory BlockMap
  imports StreamSelector
begin

text \<open>
  What the block bookkeeping (\<open>BitfieldMan\<close>, bitfield.h, the stream selectors) promises. The
  abstract block map is three sets of block numbers and a switch; \<open>bm_exec\<close> runs one operation
  of the class and \<open>abs_exec\<close> says what it means. The rest of the file states the properties.
\<close>

subsection \<open>Abstract block maps\<close>

record block_map =
  bk_have :: "nat set"
  bk_use :: "nat set"
  bk_filter :: "nat set"
  bk_enabled :: bool

definition bm_abs :: "bitfield_man \<Rightarrow> block_map" where
  "bm_abs m = \<lparr>bk_have = haves m, bk_use = uses m, bk_filter = filts m,
     bk_enabled = bm_filterEnabled m\<rparr>"

datatype bm_op =
    SetBit nat | UnsetBit nat | SetUseBit nat | UnsetUseBit nat
  | SetAllBit | ClearAllBit | SetAllUseBit | ClearAllUseBit
  | SetBitRange nat nat | UnsetBitRange nat nat
  | SetBitfield "byte list"
  | AddFilter int int | RemoveFilter int int | AddNotFilter int int
  | EnableFilter | DisableFilter | ClearFilter
  | Sparse int "byte list"

fun bm_exec :: "bm_op \<Rightarrow> bitfield_man \<Rightarrow> bitfield_man option" where
  "bm_exec (SetBit i) m = Some (fst (setBit m i))"
| "bm_exec (UnsetBit i) m = Some (fst (unsetBit m i))"
| "bm_exec (SetUseBit i) m = Some (fst (setUseBit m i))"
| "bm_exec (UnsetUseBit i) m = Some (fst (unsetUseBit m i))"
| "bm_exec SetAllBit m = Some (setAllBit m)"
| "bm_exec ClearAllBit m = Some (clearAllBit m)"
| "bm_exec SetAllUseBit m = Some (setAllUseBit m)"
| "bm_exec ClearAllUseBit m = Some (clearAllUseBit m)"
| "bm_exec (SetBitRange a b) m = Some (setBitRange m a b)"
| "bm_exec (UnsetBitRange a b) m = Some (unsetBitRange m a b)"
| "bm_exec (SetBitfield bs) m = Some (setBitfield m bs)"
| "bm_exec (AddFilter off len) m = addFilter m off len"
| "bm_exec (RemoveFilter off len) m = removeFilter m off len"
| "bm_exec (AddNotFilter off len) m = addNotFilter m off len"
| "bm_exec EnableFilter m = Some (enableFilter m)"
| "bm_exec DisableFilter m = Some (disableFilter m)"
| "bm_exec ClearFilter m = Some (clearFilter m)"
| "bm_exec (Sparse ms ig) m = Some (fst (getSparseMissingUnusedIndex m ms ig))"

text \<open>The blocks of a map with \<open>n\<close> blocks of length \<open>b\<close> that hold a byte of the range.\<close>

definition blocks_at :: "nat \<Rightarrow> int \<Rightarrow> int \<Rightarrow> int \<Rightarrow> nat set" where
  "blocks_at n b off len = {i. i < n \<and> (\<exists>x. off \<le> x \<and> x < off + len \<and> x div b = int i)}"

fun abs_exec :: "nat \<Rightarrow> int \<Rightarrow> bm_op \<Rightarrow> block_map \<Rightarrow> block_map" where
  "abs_exec n b (SetBit i) s = s\<lparr>bk_have := bk_have s \<union> ({i} \<inter> {..<n})\<rparr>"
| "abs_exec n b (UnsetBit i) s = s\<lparr>bk_have := bk_have s - {i}\<rparr>"
| "abs_exec n b (SetUseBit i) s = s\<lparr>bk_use := bk_use s \<union> ({i} \<inter> {..<n})\<rparr>"
| "abs_exec n b (UnsetUseBit i) s = s\<lparr>bk_use := bk_use s - {i}\<rparr>"
| "abs_exec n b SetAllBit s = s\<lparr>bk_have := {..<n}\<rparr>"
| "abs_exec n b ClearAllBit s = s\<lparr>bk_have := {}\<rparr>"
| "abs_exec n b SetAllUseBit s = s\<lparr>bk_use := {..<n}\<rparr>"
| "abs_exec n b ClearAllUseBit s = s\<lparr>bk_use := {}\<rparr>"
| "abs_exec n b (SetBitRange i j) s = s\<lparr>bk_have := bk_have s \<union> ({i..j} \<inter> {..<n})\<rparr>"
| "abs_exec n b (UnsetBitRange i j) s = s\<lparr>bk_have := bk_have s - {i..j}\<rparr>"
| "abs_exec n b (SetBitfield bs) s =
     s\<lparr>bk_have := {i. i < n \<and> bitat (array bs) i}, bk_use := {}\<rparr>"
| "abs_exec n b (AddFilter off len) s = s\<lparr>bk_filter := bk_filter s \<union> blocks_at n b off len\<rparr>"
| "abs_exec n b (RemoveFilter off len) s = s\<lparr>bk_filter := bk_filter s - blocks_at n b off len\<rparr>"
| "abs_exec n b (AddNotFilter off len) s =
     s\<lparr>bk_filter := bk_filter s \<union> ({..<n} - blocks_at n b off len)\<rparr>"
| "abs_exec n b EnableFilter s = s\<lparr>bk_enabled := True\<rparr>"
| "abs_exec n b DisableFilter s = s\<lparr>bk_enabled := False\<rparr>"
| "abs_exec n b ClearFilter s = s\<lparr>bk_filter := {}, bk_enabled := False\<rparr>"
| "abs_exec n b (Sparse ms ig) s = s"

text \<open>When an operation may be called: bitfields fit and have clear spare bits, ranges are proper.\<close>

fun bm_legal :: "bitfield_man \<Rightarrow> bm_op \<Rightarrow> bool" where
  "bm_legal m (SetBitfield bs) \<longleftrightarrow> length bs = bm_bitfieldLength m \<and> tail_clear (bm_blocks m) bs"
| "bm_legal m (AddFilter off len) \<longleftrightarrow> 0 \<le> off \<and> 0 < len \<and> off + len \<le> 2 ^ 63 \<and> 0 < bm_blocks m"
| "bm_legal m (RemoveFilter off len) \<longleftrightarrow> 0 \<le> off \<and> 0 < len \<and> off + len \<le> 2 ^ 63 \<and> 0 < bm_blocks m"
| "bm_legal m (AddNotFilter off len) \<longleftrightarrow> 0 \<le> off \<and> 0 < len \<and> off + len \<le> 2 ^ 63 \<and> 0 < bm_blocks m"
| "bm_legal m _ \<longleftrightarrow> True"

lemma touched_blocks_at: "touched m off len = blocks_at (bm_blocks m) (bm_blockLength m) off len"
  by (simp add: touched_def blocks_at_def)

lemma blocks_blockLength: "bm_shape m \<Longrightarrow> 0 < bm_blocks m \<Longrightarrow> 0 < bm_blockLength m"
  by (auto simp: bm_shape_def ceil_blocks_def split: if_splits)

definition geometry :: "bitfield_man \<Rightarrow> int \<times> int \<times> nat \<times> nat" where
  "geometry m = (bm_totalLength m, bm_blockLength m, bm_blocks m, bm_bitfieldLength m)"

lemma geometry_updates [simp]:
  "geometry (updateCache m) = geometry m" "geometry (m\<lparr>bm_bitfield := bs\<rparr>) = geometry m"
  "geometry (m\<lparr>bm_useBitfield := bs\<rparr>) = geometry m" "geometry (m\<lparr>bm_filterBitfield := f\<rparr>) = geometry m"
  "geometry (m\<lparr>bm_filterEnabled := e\<rparr>) = geometry m" "geometry (m\<lparr>bm_sparseHint := h\<rparr>) = geometry m"
  by (simp_all add: geometry_def)

lemma geometry_set_ops [simp]:
  "geometry (fst (setBit m i)) = geometry m" "geometry (fst (unsetBit m i)) = geometry m"
  "geometry (fst (setUseBit m i)) = geometry m" "geometry (fst (unsetUseBit m i)) = geometry m"
  by (simp_all add: fst_set_ops)

lemma geometry_folds [simp]:
  "geometry (fold (\<lambda>i m. fst (setBit m i)) is m) = geometry m"
  "geometry (fold (\<lambda>i m. fst (unsetBit m i)) is m) = geometry m"
  "geometry (fold (writeFilterBit v) is m) = geometry m"
  by (induction "is" arbitrary: m) (simp_all add: writeFilterBit_def)

lemma geometry_exec:
  assumes "bm_exec op m = Some m'"
  shows "geometry m' = geometry m"
  using assms
  by (cases op) (auto simp: setAllBit_def clearAllBit_def clearAllUseBit_def setAllUseBit_def
      setBitRange_def unsetBitRange_def setBitfield_def addFilter_def removeFilter_def addNotFilter_def
      enableFilter_def disableFilter_def clearFilter_def ensureFilterBitfield_eq setFilterBit_eq Let_def
      getSparseMissingUnusedIndex_def split: if_splits option.splits)


text \<open>One operation refines its abstract counterpart and keeps the invariant.\<close>

lemma exec_filters:
  assumes "bm_inv m" and "bm_legal m op" and "op = AddFilter off len \<or> op = RemoveFilter off len \<or> op = AddNotFilter off len"
  shows "\<exists>m'. bm_exec op m = Some m' \<and> bm_inv m' \<and>
    bm_abs m' = abs_exec (bm_blocks m) (bm_blockLength m) op (bm_abs m)"
proof -
  have range: "0 \<le> off" "0 < len" "off + len \<le> 2 ^ 63" "0 < bm_blocks m" using assms by auto
  have b: "0 < bm_blockLength m" using blocks_blockLength bm_invD(1) assms(1) range(4) by blast
  note specs = addFilter_spec [OF assms(1) range(1-3) b] removeFilter_spec [OF assms(1) range(1-3) b]
    addNotFilter_spec [OF assms(1) range]
  show ?thesis using assms(3) specs by (elim disjE exE) (auto simp: bm_abs_def touched_blocks_at)
qed

lemma sparse_effect:
  assumes "bm_inv m"
  shows "bm_inv (fst (getSparseMissingUnusedIndex m ms ig))"
    "bm_abs (fst (getSparseMissingUnusedIndex m ms ig)) = bm_abs m"
proof -
  obtain h where "fst (getSparseMissingUnusedIndex m ms ig) = m\<lparr>bm_sparseHint := h\<rparr>"
    using getSparse_Some(2) [OF bm_invD(1) [OF assms], of ms ig]
      getSparse_None(2) [OF bm_invD(1) [OF assms], of ms ig] same_hint [of m]
    by (metis eq_fst_iff option.exhaust)
  then show "bm_inv (fst (getSparseMissingUnusedIndex m ms ig))"
    "bm_abs (fst (getSparseMissingUnusedIndex m ms ig)) = bm_abs m"
    using assms by (simp_all add: hint_inv hint_views bm_abs_def)
qed

lemma views_set_ops:
  "uses (fst (setBit m i)) = uses m" "uses (fst (unsetBit m i)) = uses m"
  "filts (fst (setBit m i)) = filts m" "filts (fst (unsetBit m i)) = filts m"
  by (auto simp: fst_set_ops uses_def filts_def use_arr_def split: option.split)

lemma enabled_folds [simp]:
  "bm_filterEnabled (setBitRange m a b) = bm_filterEnabled m"
  "bm_filterEnabled (unsetBitRange m a b) = bm_filterEnabled m"
  "uses (setBitRange m a b) = uses m" "uses (unsetBitRange m a b) = uses m"
  "filts (setBitRange m a b) = filts m" "filts (unsetBitRange m a b) = filts m"
proof -
  have [simp]: "bm_filterEnabled (fold (\<lambda>i m. fst (setBit m i)) is m) = bm_filterEnabled m"
      "bm_filterEnabled (fold (\<lambda>i m. fst (unsetBit m i)) is m) = bm_filterEnabled m"
      "uses (fold (\<lambda>i m. fst (setBit m i)) is m) = uses m"
      "uses (fold (\<lambda>i m. fst (unsetBit m i)) is m) = uses m"
      "filts (fold (\<lambda>i m. fst (setBit m i)) is m) = filts m"
      "filts (fold (\<lambda>i m. fst (unsetBit m i)) is m) = filts m" for "is" m
    by (induction "is" arbitrary: m) (simp_all add: views_set_ops)
  show "bm_filterEnabled (setBitRange m a b) = bm_filterEnabled m"
    "bm_filterEnabled (unsetBitRange m a b) = bm_filterEnabled m"
    "uses (setBitRange m a b) = uses m" "uses (unsetBitRange m a b) = uses m"
    "filts (setBitRange m a b) = filts m" "filts (unsetBitRange m a b) = filts m"
    by (simp_all add: setBitRange_def unsetBitRange_def)
qed

lemma exec_refines:
  assumes "bm_inv m" and "bm_legal m op"
  shows "\<exists>m'. bm_exec op m = Some m' \<and> bm_inv m' \<and>
    bm_abs m' = abs_exec (bm_blocks m) (bm_blockLength m) op (bm_abs m)"
proof (cases op)
  case (AddFilter off len)
  show ?thesis by (rule exec_filters [OF assms]) (use AddFilter in blast)
next
  case (RemoveFilter off len)
  show ?thesis by (rule exec_filters [OF assms]) (use RemoveFilter in blast)
next
  case (AddNotFilter off len)
  show ?thesis by (rule exec_filters [OF assms]) (use AddNotFilter in blast)
next
  case (SetBitfield bs)
  then show ?thesis using assms by (auto simp: bm_abs_def abs_simps intro: inv_intros)
next
  case (Sparse ms ig)
  then show ?thesis using sparse_effect [OF assms(1)] by simp
qed (use assms in \<open>auto simp: bm_abs_def abs_simps setBitRange_spec sparse_effect intro!: inv_intros\<close>)

text \<open>States that are reached from a new manager.\<close>

inductive bm_reaches :: "bitfield_man \<Rightarrow> bm_op list \<Rightarrow> bitfield_man \<Rightarrow> bool" where
  start: "bm_reaches m [] m"
| step: "bm_reaches m ops m' \<Longrightarrow> bm_legal m' op \<Longrightarrow> bm_exec op m' = Some m'' \<Longrightarrow>
    bm_reaches m (ops @ [op]) m''"

inductive_cases bm_reaches_snocE: "bm_reaches m (ops @ [op]) m'"

lemma reaches_refines:
  assumes "bm_reaches m ops m'" and "bm_inv m"
  shows "bm_inv m' \<and> geometry m' = geometry m \<and>
    bm_abs m' = fold (abs_exec (bm_blocks m) (bm_blockLength m)) ops (bm_abs m)"
  using assms
proof induction
  case (start m)
  then show ?case by simp
next
  case (step m ops m' op m'')
  then have inv: "bm_inv m'" and geo: "geometry m' = geometry m"
    and abs: "bm_abs m' = fold (abs_exec (bm_blocks m) (bm_blockLength m)) ops (bm_abs m)" by blast+
  from exec_refines [OF inv step.hyps(2)] step.hyps(3)
  have "bm_inv m''" "bm_abs m'' = abs_exec (bm_blocks m') (bm_blockLength m') op (bm_abs m')" by auto
  then show ?case using geometry_exec [OF step.hyps(3)] geo abs by (simp add: geometry_def)
qed

end
