(* ===== verification/BlockMapProperties.thy ===== *)
theory BlockMapProperties
  imports BlockMap
begin

text \<open>
  The properties of the block bookkeeping: bit counting, the block map as a whole, its counters
  and queries, the searches and the stream selectors. Each witness runs its property on a manager of
  30 bytes in blocks of 4 with block 2 present, or with nothing present.
\<close>

definition sample :: bitfield_man where
  "sample = fst (setBit (bm_new 4 30) 2)"

lemma sample_inv: "bm_inv (bm_new 4 30)" "bm_inv sample"
  by (auto simp: sample_def intro!: inv_intros bm_new_inv)

lemma sample_geometry: "bm_blocks (bm_new 4 30) = 8" "bm_bitfieldLength (bm_new 4 30) = 1"
  "bm_blocks sample = 8" "bm_totalLength sample = 30" "bm_blockLength sample = 4"
  "bm_bitfieldLength sample = 1" "bm_filterEnabled sample = False"
proof -
  show "bm_blocks (bm_new 4 30) = 8" "bm_bitfieldLength (bm_new 4 30) = 1"
    by (simp_all add: bm_new_def Let_def size_of_div)
  then show "bm_blocks sample = 8" "bm_totalLength sample = 30" "bm_blockLength sample = 4"
    "bm_bitfieldLength sample = 1" "bm_filterEnabled sample = False"
    by (simp_all add: sample_def fst_set_ops)
qed

lemma sample_views: "haves sample = {2}" "uses sample = {}" "filts sample = {}"
  "selected sample = {..<8}"
proof -
  show "haves sample = {2}" "uses sample = {}" "filts sample = {}"
    using sample_geometry set_ops_views [OF sample_inv(1)] by (simp_all add: sample_def)
  show "selected sample = {..<8}" by (simp add: selected_def sample_geometry)
qed

subsection \<open>Bits and the block map\<close>

text \<open>C1: a manager built by the constructor and driven by any sequence of legal operations keeps
  the class invariant (array sizes, clear spare bits, cached counters up to date) and its geometry, its
  block sets are those of the abstract block map, and no legal operation fails an assertion.\<close>

theorem block_map_refinement:
  assumes "t < 2 ^ 63" and "b < 2 ^ 31" and "bm_reaches (bm_new b t) ops m"
  shows "bm_inv m \<and> geometry m = geometry (bm_new b t) \<and>
    bm_abs m = fold (abs_exec (bm_blocks (bm_new b t)) b) ops
      \<lparr>bk_have = {}, bk_use = {}, bk_filter = {}, bk_enabled = False\<rparr> \<and>
    (\<forall>op. bm_legal m op \<longrightarrow> (\<exists>m'. bm_exec op m = Some m'))"
proof -
  note r = reaches_refines [OF assms(3) bm_new_inv [OF assms(1,2)]]
  have "bm_abs (bm_new b t) = \<lparr>bk_have = {}, bk_use = {}, bk_filter = {}, bk_enabled = False\<rparr>"
    by (simp add: bm_abs_def)
  then show ?thesis using r exec_refines by auto
qed

theorem block_map_refinement_witness: "bm_abs sample = \<lparr>bk_have = {2}, bk_use = {}, bk_filter = {}, bk_enabled = False\<rparr>"
proof -
  have "bm_reaches (bm_new 4 30) ([] @ [SetBit 2]) sample"
    by (rule bm_reaches.intros) (auto intro: bm_reaches.intros simp: sample_def)
  then show ?thesis using block_map_refinement [of 30 4 "[SetBit 2]" sample] sample_geometry by simp
qed

text \<open>The table- and word-driven \<open>countSetBit\<close> counts exactly the set bits among the first
  \<open>nbits\<close>, and agrees with the byte-wise version.\<close>

theorem countSetBit_counts:
  "countSetBit b n = card {i. i < n \<and> test b n i} \<and> countSetBitSlow b n = countSetBit b n"
  by (simp add: countSetBit_eq countSetBitSlow_eq countbits_def)

text \<open>C2: the cached counters: missing blocks and completed lengths are those of the block sets,
  the completed length never exceeds the total, and reaches it exactly when every block is there.\<close>

theorem counters_meaning:
  assumes "bm_inv m" and "0 < bm_blocks m"
  shows "bm_cachedNumMissingBlock m = card (selected m - haves m) \<and>
    bm_cachedCompletedLength m = (\<Sum>i\<in>haves m. getBlockLength m i) \<and>
    bm_cachedFilteredCompletedLength m = (\<Sum>i\<in>haves m \<inter> selected m. getBlockLength m i) \<and>
    bm_cachedFilteredTotalLength m = (\<Sum>i\<in>filts m. getBlockLength m i) \<and>
    0 \<le> bm_cachedCompletedLength m \<and> bm_cachedCompletedLength m \<le> bm_totalLength m \<and>
    (bm_cachedCompletedLength m = bm_totalLength m \<longleftrightarrow> haves m = {..<bm_blocks m})"
proof -
  note c = cached_meaning [OF assms(1)]
  note shape = bm_invD(1) [OF assms(1)]
  note pos = getBlockLength_bounds(1) [OF shape]
  have sub: "haves m \<subseteq> {..<bm_blocks m}" by (auto dest: views_less)
  have total: "bm_totalLength m =
      (\<Sum>i\<in>haves m. getBlockLength m i) + (\<Sum>i\<in>{..<bm_blocks m} - haves m. getBlockLength m i)"
    using sum.subset_diff [OF sub, of "getBlockLength m"] sum_all_blocks [OF shape assms(2)] by simp
  have rest: "0 \<le> (\<Sum>i\<in>{..<bm_blocks m} - haves m. getBlockLength m i)"
    using pos by (intro sum_nonneg) (auto intro: less_imp_le)
  have zero: "(\<Sum>i\<in>{..<bm_blocks m} - haves m. getBlockLength m i) = 0 \<longleftrightarrow> haves m = {..<bm_blocks m}"
  proof
    assume "(\<Sum>i\<in>{..<bm_blocks m} - haves m. getBlockLength m i) = 0"
    then have "\<forall>i\<in>{..<bm_blocks m} - haves m. getBlockLength m i = 0"
      using pos by (subst sum_nonneg_eq_0_iff [symmetric]) (auto intro: less_imp_le)
    then show "haves m = {..<bm_blocks m}" using pos sub by force
  qed simp
  have "0 \<le> (\<Sum>i\<in>haves m. getBlockLength m i)"
    using pos sub by (intro sum_nonneg) (auto intro: less_imp_le)
  then show ?thesis using c total rest zero by simp
qed

theorem counters_meaning_witness:
  "bm_cachedCompletedLength sample = 4 \<and> bm_cachedNumMissingBlock sample = 7"
  using counters_meaning [OF sample_inv(2)]
  by (simp add: sample_views sample_geometry getBlockLength_def)

lemma zero_two: "{2} \<noteq> {..<8::nat}"
proof
  assume "{2} = {..<8::nat}"
  moreover have "0 \<in> {..<8::nat}" by simp
  ultimately show False by (metis singletonD zero_neq_numeral)
qed

text \<open>Completion: \<open>isAllBitSet\<close> holds exactly when every block is present, the filtered
  test exactly when every selected block is, and the filter test exactly when the filter selects all.\<close>

theorem completion_tests:
  assumes "bm_inv m"
  shows "(isAllBitSet m \<longleftrightarrow> haves m = {..<bm_blocks m}) \<and>
    (isFilteredAllBitSet m \<longleftrightarrow> selected m \<subseteq> haves m)"
  using isAllBitSet_iff isFilteredAllBitSet_iff assms by blast

theorem completion_tests_witness: "\<not> isAllBitSet sample \<and> isFilteredAllBitSet (setAllBit sample)"
  using completion_tests [OF sample_inv(2)] completion_tests [of "setAllBit sample"]
    setAll_inv(1) [OF sample_inv(2)] setAll_views(1) [OF sample_inv(2)]
    zero_two by (auto simp: sample_views sample_geometry selected_def dest: views_less)

text \<open>\<open>hasMissingPiece\<close> tells whether the peer has a selected block that is missing here,
  for a peer bitfield of the right length with clear spare bits; of any other length it says no.\<close>

theorem hasMissingPiece_interest:
  assumes "bm_inv m" and "tail_clear (bm_blocks m) peer"
  shows "hasMissingPiece m peer \<longleftrightarrow> length peer = bm_bitfieldLength m \<and>
    (\<exists>i\<in>selected m - haves m. bitat (array peer) i)"
proof (cases "length peer = bm_bitfieldLength m")
  case True
  then show ?thesis using hasMissingPiece_iff [OF assms(1) True assms(2)] by simp
next
  case False
  then show ?thesis by (auto simp: hasMissingPiece_def)
qed

theorem hasMissingPiece_interest_witness: "hasMissingPiece sample [0x80] \<and> \<not> hasMissingPiece sample [0x20]"
proof -
  have "tail_clear 8 [x]" for x :: byte by (simp add: tail_clear_def)
  moreover have "bitat (array [0x80]) 0" "\<forall>i\<in>{0, 1, 3, 4, 5, 6, 7}. \<not> bitat (array [0x20]) i"
    by (simp_all add: bitat_def array_def bit_iff_odd)
  moreover have "{..<8} - {2} = {0, 1, 3, 4, 5, 6, 7::nat}" by auto
  ultimately show ?thesis
    using hasMissingPiece_interest [OF sample_inv(2), of "[0x80]"]
      hasMissingPiece_interest [OF sample_inv(2), of "[0x20]"]
    by (simp add: sample_views sample_geometry)
qed

text \<open>The filter operations select exactly the blocks that hold a byte of the range (or, for
  \<open>addNotFilter\<close>, the blocks that hold none), and touch nothing else.\<close>

theorem filter_operations:
  assumes "bm_inv m" and "0 \<le> off" and "0 < len" and "off + len \<le> 2 ^ 63" and "0 < bm_blocks m"
  shows "\<exists>a r n. addFilter m off len = Some a \<and> removeFilter m off len = Some r \<and>
    addNotFilter m off len = Some n \<and>
    filts a = filts m \<union> blocks_at (bm_blocks m) (bm_blockLength m) off len \<and>
    filts r = filts m - blocks_at (bm_blocks m) (bm_blockLength m) off len \<and>
    filts n = filts m \<union> ({..<bm_blocks m} - blocks_at (bm_blocks m) (bm_blockLength m) off len) \<and>
    (\<forall>x\<in>{a, r, n}. bm_inv x \<and> haves x = haves m \<and> uses x = uses m)"
proof -
  have b: "0 < bm_blockLength m" using blocks_blockLength bm_invD(1) assms by blast
  from addFilter_spec [OF assms(1-4) b] removeFilter_spec [OF assms(1-4) b] addNotFilter_spec [OF assms]
  show ?thesis by (auto simp: touched_blocks_at)
qed

theorem filter_operations_witness:
  "\<exists>a. addFilter sample 5 4 = Some a \<and> filts a = {1, 2} \<and> haves a = {2}"
proof -
  have "x div 4 = int i \<longleftrightarrow> 4 * int i \<le> x \<and> x < 4 * int i + 4" for x i
    using div_eq_iff_between [of 4 x "int i"] by (simp add: algebra_simps)
  then have "blocks_at 8 4 5 4 = {1, 2}" by (auto simp: blocks_at_def intro: exI [of _ 5] exI [of _ 8])
  then show ?thesis using filter_operations [OF sample_inv(2), of 5 4]
    by (auto simp: sample_views sample_geometry)
qed

subsection \<open>Byte ranges\<close>

text \<open>The completed bytes of a byte range are counted exactly, clipped at the end of the
  file; nothing is asserted away for a range that starts inside it.\<close>

theorem range_completed_length:
  assumes "bm_inv m" and "0 \<le> off" and "0 \<le> len" and "off < bm_totalLength m" and "0 < bm_blockLength m"
  shows "getOffsetCompletedLength m off len =
    Some (\<Sum>x\<in>{off..<min (off + len) (bm_totalLength m)}.
      of_bool (nat (x div bm_blockLength m) \<in> haves m))"
  using getOffsetCompletedLength_done [OF assms] by (simp add: done_bytes_def)

theorem range_completed_length_witness: "getOffsetCompletedLength sample 7 4 = Some 3"
proof -
  have "{7..<11} = {7, 8, 9, 10::int}" by auto
  then show ?thesis using range_completed_length [OF sample_inv(2), of 7 4]
    by (simp add: sample_views sample_geometry)
qed

text \<open>\<open>isBitSetOffsetRange\<close> holds exactly when every byte of the range (up to the end
  of the file) lies in a block that is present.\<close>

theorem range_all_present:
  assumes "bm_inv m" and "0 \<le> off" and "0 < len" and "off < bm_totalLength m" and "0 < bm_blockLength m"
  shows "isBitSetOffsetRange m off len =
    Some (\<forall>x. off \<le> x \<and> x < min (off + len) (bm_totalLength m) \<longrightarrow>
      nat (x div bm_blockLength m) \<in> haves m)"
  using assms by (rule isBitSetOffsetRange_haves)

theorem range_all_present_witness:
  "isBitSetOffsetRange sample 8 4 = Some True \<and> isBitSetOffsetRange sample 8 5 = Some False"
proof -
  have in2: "8 \<le> x \<Longrightarrow> x < 12 \<Longrightarrow> x div 4 = 2" for x :: int
    using div_eq_iff_between [of 4 x 2] by simp
  have a: "isBitSetOffsetRange sample 8 4 = Some True"
    using range_all_present [OF sample_inv(2), of 8 4] in2 by (simp add: sample_views sample_geometry)
  have "\<not> (\<forall>x. 8 \<le> x \<and> x < (13::int) \<longrightarrow> nat (x div 4) = 2)"
  proof
    assume "\<forall>x. 8 \<le> x \<and> x < (13::int) \<longrightarrow> nat (x div 4) = 2"
    from this [rule_format, of 12] show False by simp
  qed
  then show ?thesis using a range_all_present [OF sample_inv(2), of 8 5]
    by (simp add: sample_views sample_geometry)
qed

text \<open>\<open>getMissingUnusedLength\<close> is the length of the longest run of missing, unused
  blocks that starts at the given block.\<close>

theorem missing_unused_length:
  assumes "i < bm_blocks m"
  shows "\<exists>e. i \<le> e \<and> e \<le> bm_blocks m \<and> {i..<e} \<inter> (haves m \<union> uses m) = {} \<and>
    (e = bm_blocks m \<or> e \<in> haves m \<union> uses m) \<and>
    getMissingUnusedLength m i = (\<Sum>k\<in>{i..<e}. getBlockLength m k)"
  using assms by (rule getMissingUnusedLength_run)

theorem missing_unused_length_witness: "getMissingUnusedLength sample 0 = 8"
proof -
  obtain e where e: "e \<le> 8" "{0..<e} \<inter> {2} = {}" "e = 8 \<or> e = 2"
      "getMissingUnusedLength sample 0 = (\<Sum>k\<in>{0..<e}. getBlockLength sample k)"
    using missing_unused_length [of 0 sample] by (auto simp: sample_views sample_geometry)
  then have "e = 2" by auto
  then show ?thesis using e(4)
    by (simp add: sample_geometry getBlockLength_def eval_nat_numeral)
qed

subsection \<open>Searches\<close>

text \<open>The sparse search returns only free blocks (selected, missing, not in use, not to be
  ignored), remembers the block it returns, and when the split size is at most one block it fails only
  if nothing is free.\<close>

theorem sparse_search_correct:
  assumes "bm_inv m" and "getSparseMissingUnusedIndex m minSplitSize ig = (m', r)"
  shows "(\<forall>i. r = Some i \<longrightarrow> i \<in> free m ig \<and> bm_sparseHint m' = i) \<and>
    (minSplitSize \<le> bm_blockLength m \<longrightarrow> (r = None \<longleftrightarrow> free m ig = {}))"
proof (cases r)
  case None
  then show ?thesis using getSparse_None(1) [OF bm_invD(1) [OF assms(1)]] assms(2) by auto
next
  case (Some i)
  then show ?thesis using getSparse_Some [OF bm_invD(1) [OF assms(1)]] assms(2) by fastforce
qed

lemma sample_free: "free sample [0] = {..<8} - {2}"
proof -
  have "\<not> bitat (array [0]) i" if "i < 8" for i
    using bitat_zero [of i 1] that by simp
  then show ?thesis by (auto simp: free_def missing_def sample_views)
qed

theorem sparse_search_correct_witness:
  "\<exists>i. snd (getSparseMissingUnusedIndex sample 4 [0]) = Some i \<and> i \<noteq> 2 \<and> i < 8"
proof -
  obtain m' r where s: "getSparseMissingUnusedIndex sample 4 [0] = (m', r)" by fastforce
  have "0 \<in> free sample [0]" by (simp add: sample_free)
  then have "free sample [0] \<noteq> {}" by blast
  then obtain i where "r = Some i" "i \<in> free sample [0]"
    using sparse_search_correct [OF sample_inv(2) s] by (cases r) (simp_all add: sample_geometry)
  then show ?thesis by (simp add: s sample_free)
qed

text \<open>A pass of the sparse search ends with a range of free blocks that is at least as long
  as the one it takes from any maximal run it passes.\<close>

theorem sparse_pass_keeps_longest:
  assumes "s < n" and "i \<le> s" and "\<not> test b n s" and "s = i \<or> test b n (s - 1)"
  shows "rg_getSize (sparse_current b u n s) \<le>
      rg_getSize (sparse_pass b u n n i \<lparr>rg_startIndex = 0, rg_endIndex = 0\<rparr>) \<and>
    (\<forall>j. rg_startIndex (sparse_pass b u n n i \<lparr>rg_startIndex = 0, rg_endIndex = 0\<rparr>) \<le> j \<and>
      j < rg_endIndex (sparse_pass b u n n i \<lparr>rg_startIndex = 0, rg_endIndex = 0\<rparr>) \<longrightarrow> \<not> test b n j)"
proof -
  let ?z = "\<lparr>rg_startIndex = 0, rg_endIndex = 0\<rparr>"
  have "range_ok b n (sparse_pass b u n n i ?z)" using sparse_pass_ok [OF range_ok_zero] by blast
  moreover have "rg_getSize (sparse_current b u n s) \<le> rg_getSize (sparse_pass b u n n i ?z)"
    by (rule sparse_pass_longest [OF range_ok_zero]) (use assms in simp_all)
  ultimately show ?thesis by (simp add: range_ok_def)
qed

theorem sparse_pass_keeps_longest_witness:
  "rg_getSize (sparse_current (array [0x20]) (array [0]) 8 3) \<le>
     rg_getSize (sparse_pass (array [0x20]) (array [0]) 8 8 0 \<lparr>rg_startIndex = 0, rg_endIndex = 0\<rparr>)"
proof -
  have "\<not> test (array [0x20]) 8 3" "test (array [0x20]) 8 (3 - 1)"
    by (simp_all add: bitat_def array_def bit_iff_odd)
  then show ?thesis using sparse_pass_keeps_longest [of 3 8 0 "array [0x20]" "array [0]"] by simp
qed

text \<open>With a split size of at most one block the in-order search returns the lowest free
  block, and fails exactly when there is none.\<close>

theorem inorder_search_lowest:
  assumes "bm_inv m" and "minSplitSize \<le> bm_blockLength m" and "0 < bm_blocks m"
  shows "getInorderMissingUnusedIndex m minSplitSize ig =
    Some (if free m ig = {} then None else Some (Min (free m ig)))"
  using getInorder_first [OF bm_invD(1) [OF assms(1)] assms(2,3)] .

theorem inorder_search_lowest_witness: "getInorderMissingUnusedIndex sample 4 [0] = Some (Some 0)"
proof -
  have "0 \<in> free sample [0]" by (simp add: sample_free)
  then have "Min (free sample [0]) = 0" "free sample [0] \<noteq> {}"
    using Min_le [of "free sample [0]" 0] by auto
  then show ?thesis using inorder_search_lowest [OF sample_inv(2), of 4 "[0]"]
    by (simp add: sample_geometry)
qed

text \<open>C3: the geometric search returns, with fuel for twice the number of blocks, whenever
  the base is at least 3/2 (the code uses 1.5) and the floating-point unit rounds monotonically and is
  exact on halves; what it returns is free.\<close>

theorem geom_search_terminates:
  assumes "bm_inv m" and "double_rounding rnd" and "3 / 2 \<le> base" and "bm_blocks m < 2 ^ 50"
    and "2 * bm_blocks m < fuel"
  shows "\<exists>r. getGeomMissingUnusedIndex fuel rnd m minSplitSize ig base off = Some r \<and>
    (\<forall>i. r = Some i \<longrightarrow> i \<in> free m ig)"
  using getGeom_returns [OF assms(2-5), of minSplitSize ig off] getGeom_Some [OF bm_invD(1) [OF assms(1)]]
  by auto

theorem geom_search_terminates_witness:
  "\<exists>r. getGeomMissingUnusedIndex 17 (\<lambda>x. x) sample 4 [0] (3 / 2) 0 = Some r \<and>
    (\<forall>i. r = Some i \<longrightarrow> i \<in> free sample [0])"
proof -
  have "double_rounding (\<lambda>x. x)" by (simp add: double_rounding_def mono_def)
  then show ?thesis
    using geom_search_terminates [OF sample_inv(2), of "\<lambda>x. x" "3 / 2" 17 4 "[0]" 0]
    by (simp add: sample_geometry)
qed

text \<open>The bitfields of missing blocks that BitTorrent uses hold exactly the missing blocks,
  the missing blocks the peer has, and those of them not in use, with clear spare bits; the result tells
  whether there is one.\<close>

theorem missing_bitfields:
  assumes "bm_inv m" and "0 < bm_blocks m" and "length mis = bm_bitfieldLength m"
    and "length peer = bm_bitfieldLength m"
  shows "\<exists>a p u. getAllMissingIndexes m mis = Some (a, missing m \<noteq> {}) \<and>
    getAllMissingIndexesOf m mis peer = Some (p, {i \<in> missing m. bitat (array peer) i} \<noteq> {}) \<and>
    getAllMissingUnusedIndexes m mis peer =
      Some (u, {i \<in> missing m - uses m. bitat (array peer) i} \<noteq> {}) \<and>
    {i. i < 8 * length a \<and> bitat (array a) i} = missing m \<and>
    {i. i < 8 * length p \<and> bitat (array p) i} = {i \<in> missing m. bitat (array peer) i} \<and>
    {i. i < 8 * length u \<and> bitat (array u) i} = {i \<in> missing m - uses m. bitat (array peer) i}"
  using getAll_views(1) [OF bm_invD(1) [OF assms(1)] assms(2,3)]
    getAll_views(2,3) [OF bm_invD(1) [OF assms(1)] assms(2,3,4)] by blast

theorem missing_bitfields_witness:
  "\<exists>a. getAllMissingIndexes sample [0] = Some (a, True) \<and>
    {i. i < 8 * length a \<and> bitat (array a) i} = {..<8} - {2}"
proof -
  have m: "missing sample = {..<8} - {2}" by (simp add: missing_def sample_views)
  moreover have "0 \<in> {..<8} - {2::nat}" by simp
  ultimately have "missing sample \<noteq> {}" by blast
  then show ?thesis using missing_bitfields [OF sample_inv(2), of "[0]" "[0]"] m
    by (auto simp: sample_geometry)
qed



end
