(* ===== verification/DiskAdaptor.thy ===== *)
theory DiskAdaptor
  imports FluxPrelude
begin

text \<open>
  Where downloaded bytes go: \<open>AbstractSingleDiskAdaptor\<close> and \<open>MultiDiskAdaptor\<close> on top of
  \<open>DiskWriter\<close>, and the cells of the write cache that they flush. A disk writer (system calls on
  one file) is a parameter, the record \<open>disk_ops\<close> of functions on its state \<open>'f\<close>; the locale
  \<open>disk_file\<close> states what is relied on, and \<open>ByteArrayDiskWriter\<close>, the in-memory writer of the
  repository, satisfies it. An exception is the error code it carries; the state changed
  before it was thrown is returned with it. The counter of open files (shared by all downloads)
  is not attached: \<open>getOpenedFileCounter()\<close> is null, as it is without a \<open>RequestGroupMan\<close>.
\<close>

subsection \<open>Error codes\<close>

datatype error_code =
    UNDEFINED | FINISHED | UNKNOWN_ERROR | TIME_OUT | RESOURCE_NOT_FOUND | MAX_FILE_NOT_FOUND
  | TOO_SLOW_DOWNLOAD_SPEED | NETWORK_PROBLEM | IN_PROGRESS | CANNOT_RESUME | NOT_ENOUGH_DISK_SPACE
  | PIECE_LENGTH_CHANGED | DUPLICATE_DOWNLOAD | DUPLICATE_INFO_HASH | FILE_ALREADY_EXISTS
  | FILE_RENAMING_FAILED | FILE_OPEN_ERROR | FILE_CREATE_ERROR | FILE_IO_ERROR | DIR_CREATE_ERROR
  | NAME_RESOLVE_ERROR | METALINK_PARSE_ERROR | FTP_PROTOCOL_ERROR | HTTP_PROTOCOL_ERROR
  | HTTP_TOO_MANY_REDIRECTS | HTTP_AUTH_FAILED | BENCODE_PARSE_ERROR | BITTORRENT_PARSE_ERROR
  | MAGNET_PARSE_ERROR | OPTION_ERROR | HTTP_SERVICE_UNAVAILABLE | JSON_PARSE_ERROR | REMOVED
  | CHECKSUM_ERROR

text \<open>A result of a procedure that may throw: the new state and the error, if any.\<close>

type_synonym 's outcome = "'s \<times> error_code option"

definition and_then :: "'s outcome \<Rightarrow> ('s \<Rightarrow> 's outcome) \<Rightarrow> 's outcome" where
  "and_then r f = (case r of (s, None) \<Rightarrow> f s | (s, Some e) \<Rightarrow> (s, Some e))"

lemma and_then_simps [simp]: "and_then (s, None) f = f s" "and_then (s, Some e) f = (s, Some e)"
  by (simp_all add: and_then_def)

lemma and_then_ok: "and_then r f = (t, None) \<longleftrightarrow> (\<exists>s. r = (s, None) \<and> f s = (t, None))"
  by (cases r) (auto simp: and_then_def split: option.splits)

lemma and_then_assoc: "and_then (and_then r f) g = and_then r (\<lambda>s. and_then (f s) g)"
  by (auto simp: and_then_def split: prod.splits option.splits)

text \<open>An array of bytes with \<open>xs\<close> written at \<open>off\<close>.\<close>

definition patch :: "(int \<Rightarrow> byte) \<Rightarrow> int \<Rightarrow> byte list \<Rightarrow> int \<Rightarrow> byte" where
  "patch c off xs = (\<lambda>x. if off \<le> x \<and> x < off + int (length xs) then xs ! nat (x - off) else c x)"

lemma patch_nil [simp]: "patch c off [] = c"
  by (rule ext) (auto simp: patch_def)

lemma patch_append: "patch c off (xs @ ys) = patch (patch c off xs) (off + int (length xs)) ys"
proof
  fix x
  consider "x < off" | "off \<le> x" "x < off + int (length xs)" | "off + int (length xs) \<le> x" by linarith
  then show "patch c off (xs @ ys) x = patch (patch c off xs) (off + int (length xs)) ys x"
  proof cases
    case 2
    then have "nat (x - off) < length xs" by linarith
    then show ?thesis using 2 by (simp add: patch_def nth_append)
  next
    case 3
    then have "\<not> nat (x - off) < length xs" "nat (x - off) - length xs = nat (x - (off + int (length xs)))"
      by linarith+
    then show ?thesis using 3 by (simp add: patch_def nth_append)
  qed (simp add: patch_def)
qed

subsection \<open>Cells of the write cache\<close>

record data_cell =
  dc_goff :: int
  dc_data :: "byte list"
  dc_offset :: nat
  dc_len :: nat
  dc_capacity :: nat

definition cell_bytes :: "data_cell \<Rightarrow> byte list" where
  "cell_bytes d = take (dc_len d) (drop (dc_offset d) (dc_data d))"

text \<open>\<open>data\<close> holds \<open>offset + capacity\<close> bytes, of which \<open>len\<close> are in use.\<close>

definition cell_ok :: "data_cell \<Rightarrow> bool" where
  "cell_ok d \<longleftrightarrow> 0 \<le> dc_goff d \<and> dc_len d \<le> dc_capacity d \<and>
     dc_offset d + dc_capacity d \<le> length (dc_data d)"

lemma length_cell_bytes [simp]: "cell_ok d \<Longrightarrow> length (cell_bytes d) = dc_len d"
  by (auto simp: cell_ok_def cell_bytes_def intro: min_absorb2)

text \<open>The cells that continue a run which ends at \<open>end\<close>, and the rest.\<close>

fun contiguous :: "int \<Rightarrow> data_cell list \<Rightarrow> data_cell list \<times> data_cell list" where
  "contiguous end' [] = ([], [])"
| "contiguous end' (d # ds) =
     (if dc_goff d = end'
      then let (run, rest) = contiguous (end' + int (dc_len d)) ds in (d # run, rest)
      else ([], d # ds))"

lemma contiguous_length: "length (snd (contiguous e ds)) \<le> length ds"
  by (induction e ds rule: contiguous.induct) (auto simp: case_prod_beta)

text \<open>\<open>writeCache\<close> of both adaptors: each run of touching cells is one \<open>writeData\<close>.\<close>

function writeCache ::
  "(byte list \<Rightarrow> int \<Rightarrow> 's \<Rightarrow> 's outcome) \<Rightarrow> data_cell list \<Rightarrow> 's \<Rightarrow> 's outcome" where
  "writeCache writeData [] s = (s, None)"
| "writeCache writeData (d # ds) s =
     (let (run, rest) = contiguous (dc_goff d + int (dc_len d)) ds;
          r = (if run = [] then writeData (cell_bytes d) (dc_goff d) s
               else writeData (concat (map cell_bytes (d # run))) (dc_goff d) s)
      in and_then r (writeCache writeData rest))"
  by pat_completeness auto
termination
  by (relation "measure (\<lambda>(_, ds, _). length ds)")
    (auto simp: less_Suc_eq_le, metis contiguous_length snd_conv)

lemma contiguous_split: "contiguous e ds = (run, rest) \<Longrightarrow> ds = run @ rest"
  by (induction e ds arbitrary: run rest rule: contiguous.induct)
    (auto simp: case_prod_beta split: if_splits)

lemma contiguous_run_cells:
  "contiguous e ds = (run, rest) \<Longrightarrow> \<forall>d\<in>set ds. cell_ok d \<Longrightarrow>
     fold (\<lambda>d c. patch c (dc_goff d) (cell_bytes d)) run c = patch c e (concat (map cell_bytes run)) \<and>
     (\<forall>d\<in>set run. e \<le> dc_goff d) \<and>
     (run \<noteq> [] \<longrightarrow> e + int (length (concat (map cell_bytes run))) = dc_goff (last run) + int (dc_len (last run)))"
proof (induction e ds arbitrary: run rest c rule: contiguous.induct)
  case (1 e)
  then show ?case by simp
next
  case (2 e d ds)
  show ?case
  proof (cases "dc_goff d = e")
    case False
    then show ?thesis using 2 by auto
  next
    case True
    define run' where "run' = fst (contiguous (e + int (dc_len d)) ds)"
    have run: "run = d # run'" using 2(2) True by (auto simp: run'_def case_prod_beta)
    have r': "contiguous (e + int (dc_len d)) ds = (run', snd (contiguous (e + int (dc_len d)) ds))"
      by (simp add: run'_def)
    have ok: "cell_ok d" "\<forall>d\<in>set ds. cell_ok d" using 2(3) by auto
    have ih: "fold (\<lambda>d c. patch c (dc_goff d) (cell_bytes d)) run' c' =
          patch c' (e + int (dc_len d)) (concat (map cell_bytes run'))"
        "\<forall>x\<in>set run'. e + int (dc_len d) \<le> dc_goff x"
        "run' \<noteq> [] \<longrightarrow> e + int (dc_len d) + int (length (concat (map cell_bytes run'))) =
          dc_goff (last run') + int (dc_len (last run'))" for c'
      using 2(1) [OF True r' ok(2)] by blast+
    show ?thesis using ih True ok(1) unfolding run
      by (auto simp: patch_append algebra_simps)
  qed
qed

text \<open>
  The interface to the disk: \<open>view\<close> is the download as an array of bytes, and a write that does
  not fail, of a range that fits, patches it.
\<close>

locale content_writer =
  fixes writeData :: "byte list \<Rightarrow> int \<Rightarrow> 's \<Rightarrow> 's outcome"
    and view :: "'s \<Rightarrow> int \<Rightarrow> byte"
    and good :: "'s \<Rightarrow> bool"
    and room :: "'s \<Rightarrow> int \<Rightarrow> bool"
  assumes write_view: "good s \<Longrightarrow> 0 \<le> off \<Longrightarrow> room s (off + int (length xs)) \<Longrightarrow>
      writeData xs off s = (s', None) \<Longrightarrow>
      good s' \<and> room s' = room s \<and> view s' = patch (view s) off xs"
begin

text \<open>Flushing the cells, merged as they are, patches the array with each cell in turn.\<close>

lemma writeCache_view:
  "writeCache writeData ds s = (s', None) \<Longrightarrow> good s \<Longrightarrow>
   \<forall>d\<in>set ds. cell_ok d \<and> room s (dc_goff d + int (dc_len d)) \<Longrightarrow>
   good s' \<and> room s' = room s \<and> view s' = fold (\<lambda>d c. patch c (dc_goff d) (cell_bytes d)) ds (view s)"
proof (induction ds arbitrary: s rule: length_induct)
  case (1 ds)
  show ?case
  proof (cases ds)
    case Nil
    then show ?thesis using 1 by simp
  next
    case (Cons d ds')
    obtain run rest where c: "contiguous (dc_goff d + int (dc_len d)) ds' = (run, rest)" by fastforce
    have split: "ds' = run @ rest" using contiguous_split [OF c] .
    have ok: "cell_ok d" "\<forall>x\<in>set ds'. cell_ok x" using "1.prems"(3) Cons by auto
    note cells = contiguous_run_cells [OF c ok(2)]
    define xs where "xs = concat (map cell_bytes (d # run))"
    obtain t where t: "writeData xs (dc_goff d) s = (t, None)" and rest: "writeCache writeData rest t = (s', None)"
      using "1.prems"(1) Cons c by (cases "run = []") (auto simp: and_then_ok xs_def)
    have end': "dc_goff d + int (length xs) =
        (if run = [] then dc_goff d + int (dc_len d) else dc_goff (last run) + int (dc_len (last run)))"
      using cells ok(1) by (auto simp: xs_def add.assoc)
    have "last run \<in> set ds" if "run \<noteq> []" using that split Cons by simp
    then have room: "room s (dc_goff d + int (length xs))" using "1.prems"(3) Cons unfolding end' by auto
    have w: "good t \<and> room t = room s \<and> view t = patch (view s) (dc_goff d) xs"
      by (rule write_view [OF "1.prems"(2) _ room t]) (use ok(1) in \<open>simp add: cell_ok_def\<close>)
    have "good s' \<and> room s' = room t \<and> view s' = fold (\<lambda>d c. patch c (dc_goff d) (cell_bytes d)) rest (view t)"
      by (rule "1.IH" [rule_format, OF _ rest]) (use w "1.prems"(3) Cons split in auto)
    moreover have "view t = fold (\<lambda>d c. patch c (dc_goff d) (cell_bytes d)) (d # run) (view s)"
      using w cells ok(1) by (simp add: xs_def patch_append)
    ultimately show ?thesis using w Cons split by simp
  qed
qed

end

end
