(* ===== verification/WrDiskCache.thy ===== *)
theory WrDiskCache
  imports DiskAdaptor
begin

text \<open>
  The write cache: \<open>WrDiskCacheEntry\<close> holds the cells of one piece, \<open>WrDiskCache\<close> the set of
  entries of all downloads, ordered by the size recorded at the last update (largest first) and
  then by age. Entries are shared with the pieces that own them, so they live in a store
  \<open>ws_ents\<close> and pointers are \<open>nat\<close>; \<open>ws_disk\<close> is the state behind all disk adaptors, and
  \<open>writeTo a\<close> is \<open>writeData\<close> of the adaptor numbered \<open>a\<close>.
\<close>

subsection \<open>Cache entries\<close>

record wr_entry =
  we_sizeKey :: nat
  we_lastUpdate :: int
  we_size :: nat
  we_set :: "data_cell list"
  we_error :: bool
  we_errorCode :: error_code
  we_adaptor :: nat

definition we_new :: "nat \<Rightarrow> wr_entry" where
  "we_new adaptor = \<lparr>we_sizeKey = 0, we_lastUpdate = 0, we_size = 0, we_set = [],
     we_error = False, we_errorCode = UNDEFINED, we_adaptor = adaptor\<rparr>"

definition deleteDataCells :: "wr_entry \<Rightarrow> wr_entry" where
  "deleteDataCells e = e\<lparr>we_set := [], we_size := 0\<rparr>"

definition we_clear :: "wr_entry \<Rightarrow> wr_entry" where
  "we_clear e = deleteDataCells e"

type_synonym 'd write_to = "nat \<Rightarrow> byte list \<Rightarrow> int \<Rightarrow> 'd \<Rightarrow> 'd outcome"

definition writeToDisk :: "'d write_to \<Rightarrow> wr_entry \<Rightarrow> 'd \<Rightarrow> wr_entry \<times> 'd" where
  "writeToDisk writeTo e disk =
     (case writeCache (writeTo (we_adaptor e)) (we_set e) disk of
        (disk, None) \<Rightarrow> (deleteDataCells e, disk)
      | (disk, Some code) \<Rightarrow> (deleteDataCells (e\<lparr>we_error := True, we_errorCode := code\<rparr>), disk))"

text \<open>The cell set is ordered by \<open>goff\<close>; inserting fails if the offset is taken.\<close>

definition cacheData :: "wr_entry \<Rightarrow> data_cell \<Rightarrow> wr_entry \<times> bool" where
  "cacheData e cell =
     (if dc_goff cell \<in> dc_goff ` set (we_set e) then (e, False)
      else (e\<lparr>we_set := insort_key dc_goff cell (we_set e), we_size := we_size e + dc_len cell\<rparr>, True))"

definition we_append :: "wr_entry \<Rightarrow> int \<Rightarrow> byte list \<Rightarrow> wr_entry \<times> nat" where
  "we_append e goff data =
     (if we_set e = [] then (e, 0)
      else
        let c = last (we_set e) in
        if dc_goff c + int (dc_len c) = goff
        then
          let wlen = min (usub (dc_capacity c) (dc_len c)) (length data);
              at = dc_offset c + dc_len c;
              c = c\<lparr>dc_data := take at (dc_data c) @ take wlen data @ drop (at + wlen) (dc_data c),
                    dc_len := dc_len c + wlen\<rparr>
          in (e\<lparr>we_set := butlast (we_set e) @ [c], we_size := we_size e + wlen\<rparr>, wlen)
        else (e, 0))"

definition we_less :: "wr_entry \<Rightarrow> wr_entry \<Rightarrow> bool" where
  "we_less a b \<longleftrightarrow> we_sizeKey a > we_sizeKey b \<or>
     (we_sizeKey a = we_sizeKey b \<and> we_lastUpdate a < we_lastUpdate b)"

subsection \<open>The cache\<close>

record wr_cache =
  wc_limit :: nat
  wc_total :: nat
  wc_set :: "nat list"
  wc_clock :: int

record 'd wr_state =
  ws_cache :: wr_cache
  ws_ents :: "nat \<Rightarrow> wr_entry"
  ws_disk :: 'd

definition wc_new :: "nat \<Rightarrow> wr_cache" where
  "wc_new limit = \<lparr>wc_limit = limit, wc_total = 0, wc_set = [], wc_clock = 0\<rparr>"

text \<open>\<open>std::set\<close> with the comparison of the entries pointed to: insert and erase by equivalence.\<close>

fun set_insert :: "(nat \<Rightarrow> wr_entry) \<Rightarrow> nat \<Rightarrow> nat list \<Rightarrow> nat list \<times> bool" where
  "set_insert ents x [] = ([x], True)"
| "set_insert ents x (y # ys) =
     (if we_less (ents x) (ents y) then (x # y # ys, True)
      else if we_less (ents y) (ents x) then (let (zs, r) = set_insert ents x ys in (y # zs, r))
      else (y # ys, False))"

definition set_erase :: "(nat \<Rightarrow> wr_entry) \<Rightarrow> nat \<Rightarrow> nat list \<Rightarrow> nat list \<times> bool" where
  "set_erase ents x ys =
     (filter (\<lambda>y. we_less (ents x) (ents y) \<or> we_less (ents y) (ents x)) ys,
      \<exists>y\<in>set ys. \<not> we_less (ents x) (ents y) \<and> \<not> we_less (ents y) (ents x))"

text \<open>\<open>setSizeKey(getSize())\<close> and \<open>setLastUpdate(++clock_)\<close>.\<close>

definition touch :: "'d wr_state \<Rightarrow> nat \<Rightarrow> 'd wr_state" where
  "touch s ent =
     (let clock = wc_clock (ws_cache s) + 1 in
      s\<lparr>ws_cache := (ws_cache s)\<lparr>wc_clock := clock\<rparr>,
        ws_ents := (ws_ents s)(ent := (ws_ents s ent)
          \<lparr>we_sizeKey := we_size (ws_ents s ent), we_lastUpdate := clock\<rparr>)\<rparr>)"

definition set_add :: "'d wr_state \<Rightarrow> nat \<Rightarrow> 'd wr_state \<times> bool" where
  "set_add s ent =
     (let (set', r) = set_insert (ws_ents s) ent (wc_set (ws_cache s)) in
      (s\<lparr>ws_cache := (ws_cache s)\<lparr>wc_set := set'\<rparr>\<rparr>, r))"

text \<open>The body of the eviction loop; the set is not empty there.\<close>

definition evict_first :: "'d write_to \<Rightarrow> 'd wr_state \<Rightarrow> 'd wr_state" where
  "evict_first writeTo s =
     (let ent = hd (wc_set (ws_cache s));
          total = usub (wc_total (ws_cache s)) (we_size (ws_ents s ent));
          (e, disk) = writeToDisk writeTo (ws_ents s ent) (ws_disk s);
          s = s\<lparr>ws_cache := (ws_cache s)\<lparr>wc_total := total, wc_set := tl (wc_set (ws_cache s))\<rparr>,
                ws_ents := (ws_ents s)(ent := e), ws_disk := disk\<rparr>
      in fst (set_add (touch s ent) ent))"

text \<open>
  The loop ends only if evicting lowers the total, so it is partial: \<open>None\<close> is a loop that does
  not end, or the first element of an empty set.
\<close>

partial_function (option) ensureLimit :: "'d write_to \<Rightarrow> 'd wr_state \<Rightarrow> 'd wr_state option" where
  "ensureLimit writeTo s =
     (if wc_total (ws_cache s) > wc_limit (ws_cache s)
      then if wc_set (ws_cache s) = [] then None else ensureLimit writeTo (evict_first writeTo s)
      else Some s)"

definition wc_add :: "'d write_to \<Rightarrow> 'd wr_state \<Rightarrow> nat \<Rightarrow> ('d wr_state \<times> bool) option" where
  "wc_add writeTo s ent =
     (let (s, inserted) = set_add (touch s ent) ent in
      if inserted
      then do {
        s \<leftarrow> ensureLimit writeTo (s\<lparr>ws_cache := (ws_cache s)\<lparr>wc_total :=
               wc_total (ws_cache s) + we_size (ws_ents s ent)\<rparr>\<rparr>);
        Some (s, True) }
      else Some (s, False))"

definition wc_remove :: "'d wr_state \<Rightarrow> nat \<Rightarrow> 'd wr_state \<times> bool" where
  "wc_remove s ent =
     (let (set', erased) = set_erase (ws_ents s) ent (wc_set (ws_cache s)) in
      if erased
      then (s\<lparr>ws_cache := (ws_cache s)\<lparr>wc_set := set',
               wc_total := usub (wc_total (ws_cache s)) (we_size (ws_ents s ent))\<rparr>\<rparr>, True)
      else (s, False))"

text \<open>The assertion on a negative \<open>delta\<close> is a \<open>None\<close>.\<close>

definition wc_update :: "'d write_to \<Rightarrow> 'd wr_state \<Rightarrow> nat \<Rightarrow> int \<Rightarrow> ('d wr_state \<times> bool) option" where
  "wc_update writeTo s ent delta =
     (let (set', erased) = set_erase (ws_ents s) ent (wc_set (ws_cache s)) in
      if \<not> erased then Some (s, False)
      else
        let s = fst (set_add (touch (s\<lparr>ws_cache := (ws_cache s)\<lparr>wc_set := set'\<rparr>\<rparr>) ent) ent) in
        if delta < 0 \<and> \<not> int (wc_total (ws_cache s)) \<ge> - delta then None
        else do {
          s \<leftarrow> ensureLimit writeTo (s\<lparr>ws_cache := (ws_cache s)\<lparr>wc_total :=
                 size_of_int (int (wc_total (ws_cache s)) + delta)\<rparr>\<rparr>);
          Some (s, True) })"

subsection \<open>Invariant\<close>

text \<open>
  The set is ordered and has no duplicates, its keys are older than the clock, an entry is never
  larger than its key (flushing shrinks entries without touching the key), and the total is the
  sum of the sizes. \<open>wc_inv\<close> adds that the total respects the limit.
\<close>

definition wc_ordered :: "'d wr_state \<Rightarrow> bool" where
  "wc_ordered s \<longleftrightarrow> distinct (wc_set (ws_cache s)) \<and>
     sorted_wrt (\<lambda>i j. we_less (ws_ents s i) (ws_ents s j)) (wc_set (ws_cache s)) \<and>
     (\<forall>i\<in>set (wc_set (ws_cache s)). we_lastUpdate (ws_ents s i) \<le> wc_clock (ws_cache s))"

definition wc_sizes :: "'d wr_state \<Rightarrow> bool" where
  "wc_sizes s \<longleftrightarrow> (\<forall>i\<in>set (wc_set (ws_cache s)). we_size (ws_ents s i) \<le> we_sizeKey (ws_ents s i)) \<and>
     wc_total (ws_cache s) = (\<Sum>i\<in>set (wc_set (ws_cache s)). we_size (ws_ents s i))"

definition wc_inv :: "'d wr_state \<Rightarrow> bool" where
  "wc_inv s \<longleftrightarrow> wc_ordered s \<and> wc_sizes s \<and> wc_total (ws_cache s) \<le> wc_limit (ws_cache s)"

lemma we_less_irrefl [simp]: "\<not> we_less e e"
  by (simp add: we_less_def)

lemma we_less_trans: "we_less a b \<Longrightarrow> we_less b c \<Longrightarrow> we_less a c"
  by (auto simp: we_less_def)

lemma we_less_asym: "we_less a b \<Longrightarrow> \<not> we_less b a"
  by (auto simp: we_less_def)


abbreviation keyed :: "(nat \<Rightarrow> wr_entry) \<Rightarrow> nat list \<Rightarrow> bool" where
  "keyed ents \<equiv> sorted_wrt (\<lambda>i j. we_less (ents i) (ents j))"

lemma set_insert_new:
  "set_insert ents x ys = (zs, r) \<Longrightarrow> keyed ents ys \<Longrightarrow>
     \<forall>y\<in>set ys. we_less (ents x) (ents y) \<or> we_less (ents y) (ents x) \<Longrightarrow>
     r \<and> keyed ents zs \<and> set zs = insert x (set ys) \<and> (distinct ys \<and> x \<notin> set ys \<longrightarrow> distinct zs)"
proof (induction ents x ys arbitrary: zs r rule: set_insert.induct)
  case (2 ents x y ys)
  show ?case
  proof (cases "we_less (ents x) (ents y)")
    case True
    then have "\<forall>z\<in>set ys. we_less (ents x) (ents z)"
      using "2.prems"(2) we_less_trans [OF True] by simp
    then show ?thesis using 2 True by auto
  next
    case False
    then have yx: "we_less (ents y) (ents x)" using "2.prems"(3) by simp
    obtain ws where ws: "set_insert ents x ys = (ws, r)" "zs = y # ws"
      using "2.prems"(1) False yx by (auto split: prod.splits)
    have "r \<and> keyed ents ws \<and> set ws = insert x (set ys) \<and> (distinct ys \<and> x \<notin> set ys \<longrightarrow> distinct ws)"
      using "2.IH" [OF False yx ws(1)] "2.prems"(2,3) by simp
    then show ?thesis using ws(2) "2.prems"(2) yx by auto
  qed
qed simp

lemma set_erase_member:
  assumes "keyed ents ys" and "x \<in> set ys"
  shows "set_erase ents x ys = (filter (\<lambda>y. y \<noteq> x) ys, True)"
proof -
  have cmp: "we_less (ents x) (ents y) \<or> we_less (ents y) (ents x)" if "y \<in> set ys" "y \<noteq> x" for y
    using assms that
  proof (induction ys)
    case (Cons a ys)
    then show ?case by (cases "y = a"; cases "x = a") auto
  qed simp
  have "filter (\<lambda>y. we_less (ents x) (ents y) \<or> we_less (ents y) (ents x)) ys = filter (\<lambda>y. y \<noteq> x) ys"
    by (rule filter_cong) (use cmp in auto)
  then show ?thesis using assms(2) by (auto simp: set_erase_def intro: bexI [of _ x])
qed

lemma keyed_cong: "\<forall>i\<in>set ys. ents' i = ents i \<Longrightarrow> keyed ents' ys = keyed ents ys"
  by (induction ys) auto

lemma keyed_filter: "keyed ents ys \<Longrightarrow> keyed ents (filter P ys)"
  by (induction ys) auto

text \<open>Putting an entry that is not in the set at its place with a fresh time stamp.\<close>

lemma touch_add:
  assumes ord: "wc_ordered s" and new: "ent \<notin> set (wc_set (ws_cache s))"
  defines "s' \<equiv> fst (set_add (touch s ent) ent)"
  shows "wc_ordered s'" "set (wc_set (ws_cache s')) = insert ent (set (wc_set (ws_cache s)))"
    "snd (set_add (touch s ent) ent)"
    "ws_ents s' = (ws_ents s)(ent := (ws_ents s ent)
        \<lparr>we_sizeKey := we_size (ws_ents s ent), we_lastUpdate := wc_clock (ws_cache s) + 1\<rparr>)"
    "ws_disk s' = ws_disk s" "wc_total (ws_cache s') = wc_total (ws_cache s)"
    "wc_limit (ws_cache s') = wc_limit (ws_cache s)" "wc_clock (ws_cache s') = wc_clock (ws_cache s) + 1"
proof -
  let ?old = "wc_set (ws_cache s)"
  let ?ents = "(ws_ents s)(ent := (ws_ents s ent)
        \<lparr>we_sizeKey := we_size (ws_ents s ent), we_lastUpdate := wc_clock (ws_cache s) + 1\<rparr>)"
  obtain zs r where ins: "set_insert ?ents ent ?old = (zs, r)" by fastforce
  have eq: "set_add (touch s ent) ent =
      (s\<lparr>ws_cache := (ws_cache s)\<lparr>wc_clock := wc_clock (ws_cache s) + 1, wc_set := zs\<rparr>, ws_ents := ?ents\<rparr>, r)"
    using ins by (simp add: set_add_def touch_def Let_def)
  have same: "?ents i = ws_ents s i" if "i \<in> set ?old" for i using that new by auto
  have keyed: "keyed ?ents ?old" using ord keyed_cong [of ?old ?ents "ws_ents s"] same
    by (simp add: wc_ordered_def)
  have "\<forall>y\<in>set ?old. we_less (?ents ent) (?ents y) \<or> we_less (?ents y) (?ents ent)"
    using ord new by (fastforce simp: wc_ordered_def we_less_def)
  from set_insert_new [OF ins keyed this] have z: "r" "keyed ?ents zs" "set zs = insert ent (set ?old)" "distinct zs"
    using ord new by (auto simp: wc_ordered_def)
  show "snd (set_add (touch s ent) ent)" by (simp add: eq z)
  show "set (wc_set (ws_cache s')) = insert ent (set ?old)"
    "ws_ents s' = ?ents" "ws_disk s' = ws_disk s" "wc_total (ws_cache s') = wc_total (ws_cache s)"
    "wc_limit (ws_cache s') = wc_limit (ws_cache s)" "wc_clock (ws_cache s') = wc_clock (ws_cache s) + 1"
    by (simp_all add: s'_def eq z)
  show "wc_ordered s'" using z ord by (auto simp: s'_def eq wc_ordered_def)
qed

text \<open>Flushing an entry empties it, whatever the disk does.\<close>

lemma writeToDisk_empty:
  assumes "writeToDisk writeTo e d = (e', d')"
  shows "we_size e' = 0" "we_set e' = []" "we_sizeKey e' = we_sizeKey e" "we_lastUpdate e' = we_lastUpdate e"
    "we_adaptor e' = we_adaptor e"
  using assms by (auto simp: writeToDisk_def deleteDataCells_def split: prod.splits option.splits)

lemma sum_remove_member:
  fixes f :: "nat \<Rightarrow> nat"
  assumes "finite A" and "x \<in> A"
  shows "(\<Sum>i\<in>A. f i) = f x + (\<Sum>i\<in>A - {x}. f i)"
  using assms by (simp add: sum.remove)

text \<open>Over the limit there is something to flush at the front of the set.\<close>

lemma over_limit_front:
  assumes "wc_ordered s" and "wc_sizes s" and "wc_limit (ws_cache s) < wc_total (ws_cache s)"
  obtains ent rest where "wc_set (ws_cache s) = ent # rest" "ent \<notin> set rest" "0 < we_sizeKey (ws_ents s ent)"
proof -
  have "(\<Sum>i\<in>set (wc_set (ws_cache s)). we_size (ws_ents s i)) \<noteq> 0"
    using assms(2,3) unfolding wc_sizes_def by linarith
  then obtain j where j: "j \<in> set (wc_set (ws_cache s))" "we_size (ws_ents s j) \<noteq> 0"
    by (meson sum.neutral)
  then obtain ent rest where set': "wc_set (ws_cache s) = ent # rest" by (cases "wc_set (ws_cache s)") auto
  have "0 < we_sizeKey (ws_ents s j)" using assms(2) j by (auto simp: wc_sizes_def dest!: bspec)
  then have "0 < we_sizeKey (ws_ents s ent)"
    using assms(1) j(1) set' by (auto simp: wc_ordered_def we_less_def)
  then show thesis using that set' assms(1) by (auto simp: wc_ordered_def)
qed

lemma evict_first_step:
  fixes writeTo :: "'d write_to" and s :: "'d wr_state"
  assumes "wc_ordered s" and "wc_sizes s" and "wc_limit (ws_cache s) < wc_total (ws_cache s)"
  defines "s' \<equiv> evict_first writeTo s"
  shows "wc_ordered s'" "wc_sizes s'" "wc_limit (ws_cache s') = wc_limit (ws_cache s)"
    "set (wc_set (ws_cache s')) = set (wc_set (ws_cache s))" "wc_set (ws_cache s) \<noteq> []"
    "{i \<in> set (wc_set (ws_cache s')). 0 < we_sizeKey (ws_ents s' i)} \<subset>
       {i \<in> set (wc_set (ws_cache s)). 0 < we_sizeKey (ws_ents s i)}"
    "\<forall>i. we_size (ws_ents s' i) \<le> we_size (ws_ents s i)"
    "\<forall>i. i \<notin> set (wc_set (ws_cache s)) \<longrightarrow> ws_ents s' i = ws_ents s i"
proof -
  obtain ent rest where front: "wc_set (ws_cache s) = ent # rest" "ent \<notin> set rest"
      "0 < we_sizeKey (ws_ents s ent)" using over_limit_front [OF assms(1-3)] .
  obtain e d where w: "writeToDisk writeTo (ws_ents s ent) (ws_disk s) = (e, d)" by fastforce
  note e = writeToDisk_empty [OF w]
  define t where "t = s\<lparr>ws_cache := (ws_cache s)\<lparr>wc_total := usub (wc_total (ws_cache s)) (we_size (ws_ents s ent)),
      wc_set := rest\<rparr>, ws_ents := (ws_ents s)(ent := e), ws_disk := d\<rparr>"
  have s': "s' = fst (set_add (touch t ent) ent)"
    by (simp add: s'_def evict_first_def front(1) w t_def Let_def)
  have ent: "ws_ents t ent = e" "\<And>i. i \<noteq> ent \<Longrightarrow> ws_ents t i = ws_ents s i" by (simp_all add: t_def)
  have set_t: "wc_set (ws_cache t) = rest" by (simp add: t_def)
  have "keyed (ws_ents t) rest = keyed (ws_ents s) rest"
    by (rule keyed_cong) (use ent(2) front(2) in metis)
  then have ord: "wc_ordered t" using assms(1) front ent by (auto simp: wc_ordered_def t_def)
  note ta = touch_add [OF ord, of ent, unfolded set_t, OF front(2), folded s']
  have total: "wc_total (ws_cache s) = we_size (ws_ents s ent) + (\<Sum>i\<in>set rest. we_size (ws_ents s i))"
    using assms(2) front by (simp add: wc_sizes_def)
  have rest: "(\<Sum>i\<in>set rest. we_size (ws_ents s' i)) = (\<Sum>i\<in>set rest. we_size (ws_ents s i))"
    by (rule sum.cong) (use ta(4) ent front(2) in auto)
  have s'_ent: "we_size (ws_ents s' ent) = 0" "we_sizeKey (ws_ents s' ent) = 0"
    using ta(4) ent e by simp_all
  have s'_other: "ws_ents s' i = ws_ents s i" if "i \<noteq> ent" for i using ta(4) ent that by simp
  show "wc_ordered s'" by (rule ta)
  show "wc_limit (ws_cache s') = wc_limit (ws_cache s)" using ta(7) by (simp add: t_def)
  show sets: "set (wc_set (ws_cache s')) = set (wc_set (ws_cache s))" using ta(2) front by simp
  show "wc_set (ws_cache s) \<noteq> []" using front by simp
  have "wc_total (ws_cache s') = (\<Sum>i\<in>set rest. we_size (ws_ents s i))"
    using ta(6) total by (simp add: t_def)
  moreover have "we_size (ws_ents s' i) \<le> we_sizeKey (ws_ents s' i)" if "i \<in> insert ent (set rest)" for i
    using assms(2) that s'_ent s'_other [of i] front(1) by (cases "i = ent") (auto simp: wc_sizes_def)
  ultimately show "wc_sizes s'" using front(1,2) rest s'_ent sets
    by (simp add: wc_sizes_def)
  show "{i \<in> set (wc_set (ws_cache s')). 0 < we_sizeKey (ws_ents s' i)} \<subset>
       {i \<in> set (wc_set (ws_cache s)). 0 < we_sizeKey (ws_ents s i)}"
    using front s'_ent s'_other unfolding sets by (auto simp: set_eq_iff psubset_eq) (metis less_irrefl)+
  show "\<forall>i. we_size (ws_ents s' i) \<le> we_size (ws_ents s i)"
    using s'_ent s'_other by (metis le0 order_refl)
  show "\<forall>i. i \<notin> set (wc_set (ws_cache s)) \<longrightarrow> ws_ents s' i = ws_ents s i"
    using s'_other front by auto
qed

abbreviation centries :: "'d wr_state \<Rightarrow> nat set" where
  "centries s \<equiv> set (wc_set (ws_cache s))"

subsection \<open>Evictions\<close>

text \<open>What an eviction can change of an entry, without the keys of the ordering.\<close>

definition bare :: "wr_entry \<Rightarrow> data_cell list \<times> nat \<times> nat" where
  "bare e = (we_set e, we_size e, we_adaptor e)"

lemma bare_eq: "bare e = bare e' \<longleftrightarrow> we_set e = we_set e' \<and> we_size e = we_size e' \<and> we_adaptor e = we_adaptor e'"
  by (simp add: bare_def)

text \<open>\<open>settles s s'\<close>: entries of the set have been written and emptied, one after the other.\<close>

inductive settles :: "'d write_to \<Rightarrow> 'd wr_state \<Rightarrow> 'd wr_state \<Rightarrow> bool" for writeTo s where
  same: "centries s' = centries s \<Longrightarrow> (\<And>i. bare (ws_ents s' i) = bare (ws_ents s i)) \<Longrightarrow>
     ws_disk s' = ws_disk s \<Longrightarrow> settles writeTo s s'"
| evict: "settles writeTo s t \<Longrightarrow> i \<in> centries t \<Longrightarrow>
     writeToDisk writeTo (ws_ents t i) (ws_disk t) = (e, ws_disk s') \<Longrightarrow> bare (ws_ents s' i) = bare e \<Longrightarrow>
     (\<And>k. k \<noteq> i \<Longrightarrow> bare (ws_ents s' k) = bare (ws_ents t k)) \<Longrightarrow> centries s' = centries t \<Longrightarrow>
     settles writeTo s s'"

lemma settles_centries: "settles writeTo s s' \<Longrightarrow> centries s' = centries s"
  by (induction rule: settles.induct) simp_all

lemma settles_cong:
  assumes "settles writeTo s t" and "centries t' = centries t" and "\<And>i. bare (ws_ents t' i) = bare (ws_ents t i)"
    and "ws_disk t' = ws_disk t"
  shows "settles writeTo s t'"
  using assms
proof (cases rule: settles.cases)
  case same
  then show ?thesis using assms by (intro settles.same) simp_all
next
  case (evict u i e)
  show ?thesis
    by (rule settles.evict [OF evict(1,2), of e]) (use evict assms in simp_all)
qed

lemma settles_trans:
  assumes "settles writeTo s t" and "settles writeTo t u"
  shows "settles writeTo s u"
  using assms(2)
proof (induction rule: settles.induct)
  case (same s')
  then show ?case by (rule settles_cong [OF assms(1)])
next
  case (evict v i e s')
  show ?case by (rule settles.evict [OF evict.IH evict.hyps(2-4)]) (fact evict.hyps)+
qed

lemma evict_first_settles:
  assumes "wc_ordered s" and "wc_sizes s" and "wc_limit (ws_cache s) < wc_total (ws_cache s)"
  shows "settles writeTo s (evict_first writeTo s)"
proof -
  obtain ent rest where front: "wc_set (ws_cache s) = ent # rest" "ent \<notin> set rest"
    using over_limit_front [OF assms] .
  obtain e d where w: "writeToDisk writeTo (ws_ents s ent) (ws_disk s) = (e, d)" by fastforce
  define t where "t = s\<lparr>ws_cache := (ws_cache s)\<lparr>wc_total := usub (wc_total (ws_cache s)) (we_size (ws_ents s ent)),
      wc_set := rest\<rparr>, ws_ents := (ws_ents s)(ent := e), ws_disk := d\<rparr>"
  have s': "evict_first writeTo s = fst (set_add (touch t ent) ent)"
    by (simp add: evict_first_def front(1) w t_def Let_def)
  have "keyed (ws_ents t) rest = keyed (ws_ents s) rest"
    by (rule keyed_cong) (use front(2) in \<open>auto simp: t_def\<close>)
  then have ord: "wc_ordered t" using assms(1) front by (auto simp: wc_ordered_def t_def)
  have "ent \<notin> set (wc_set (ws_cache t))" using front by (simp add: t_def)
  note ta = touch_add [OF ord this, folded s']
  show ?thesis
  proof (rule settles.evict [of _ _ s ent e])
    show "settles writeTo s s" by (rule settles.same) simp_all
  qed (use ta front w in \<open>auto simp: t_def bare_def\<close>)
qed

text \<open>Hence the loop ends, within the limit; each round takes one entry to key zero.\<close>

lemma ensureLimit_ends:
  "wc_ordered s \<Longrightarrow> wc_sizes s \<Longrightarrow> \<exists>s'. ensureLimit writeTo s = Some s' \<and> wc_inv s' \<and>
     wc_limit (ws_cache s') = wc_limit (ws_cache s) \<and> set (wc_set (ws_cache s')) = set (wc_set (ws_cache s)) \<and>
     (\<forall>i. we_size (ws_ents s' i) \<le> we_size (ws_ents s i)) \<and>
     (\<forall>i. i \<notin> set (wc_set (ws_cache s)) \<longrightarrow> ws_ents s' i = ws_ents s i) \<and> settles writeTo s s'"
proof (induction "card {i \<in> set (wc_set (ws_cache s)). 0 < we_sizeKey (ws_ents s i)}" arbitrary: s rule: less_induct)
  case (less s)
  show ?case
  proof (cases "wc_limit (ws_cache s) < wc_total (ws_cache s)")
    case False
    then show ?thesis using less.prems by (simp add: ensureLimit.simps [of writeTo s] wc_inv_def settles.same)
  next
    case True
    note st = evict_first_step [OF less.prems True]
    have "card {i \<in> set (wc_set (ws_cache (evict_first writeTo s))). 0 < we_sizeKey (ws_ents (evict_first writeTo s) i)}
        < card {i \<in> set (wc_set (ws_cache s)). 0 < we_sizeKey (ws_ents s i)}"
      by (rule psubset_card_mono [OF _ st(6)]) simp
    from less.hyps [OF this st(1,2)] obtain s' where s': "ensureLimit writeTo (evict_first writeTo s) = Some s'"
        "wc_inv s'" "wc_limit (ws_cache s') = wc_limit (ws_cache s)"
        "set (wc_set (ws_cache s')) = set (wc_set (ws_cache s))"
        "\<forall>i. we_size (ws_ents s' i) \<le> we_size (ws_ents (evict_first writeTo s) i)"
        "\<forall>i. i \<notin> set (wc_set (ws_cache s)) \<longrightarrow> ws_ents s' i = ws_ents (evict_first writeTo s) i"
        "settles writeTo (evict_first writeTo s) s'"
      using st(3,4) by auto
    have "settles writeTo s s'"
      by (rule settles_trans [OF evict_first_settles [OF less.prems True] s'(7)])
    moreover have "\<forall>i. we_size (ws_ents s' i) \<le> we_size (ws_ents s i)" using s'(5) st(7) le_trans by blast
    ultimately show ?thesis using s' st(5,8) True by (simp add: ensureLimit.simps [of writeTo s])
  qed
qed


subsection \<open>The operations keep the invariant\<close>

lemma total_field:
  "wc_ordered (s\<lparr>ws_cache := (ws_cache s)\<lparr>wc_total := t\<rparr>\<rparr>) = wc_ordered s"
  by (simp add: wc_ordered_def)

lemma wc_add_spec:
  assumes "wc_inv s" and "ent \<notin> set (wc_set (ws_cache s))"
  shows "\<exists>s'. wc_add writeTo s ent = Some (s', True) \<and> wc_inv s' \<and>
    wc_limit (ws_cache s') = wc_limit (ws_cache s) \<and>
    set (wc_set (ws_cache s')) = insert ent (set (wc_set (ws_cache s))) \<and>
    (\<forall>i. i \<notin> insert ent (set (wc_set (ws_cache s))) \<longrightarrow> ws_ents s' i = ws_ents s i) \<and>
    settles writeTo (fst (set_add (touch s ent) ent)) s'"
proof -
  have ord: "wc_ordered s" and sizes: "wc_sizes s" using assms(1) by (simp_all add: wc_inv_def)
  define t where "t = fst (set_add (touch s ent) ent)"
  note ta = touch_add [OF ord assms(2), folded t_def]
  define u where "u = t\<lparr>ws_cache := (ws_cache t)\<lparr>wc_total := wc_total (ws_cache t) + we_size (ws_ents t ent)\<rparr>\<rparr>"
  have "wc_ordered u" using ta(1) by (simp add: u_def total_field)
  moreover have "wc_sizes u"
  proof -
    have "(\<Sum>i\<in>set (wc_set (ws_cache s)). we_size (ws_ents t i)) =
        (\<Sum>i\<in>set (wc_set (ws_cache s)). we_size (ws_ents s i))"
      by (rule sum.cong) (use ta(4) assms(2) in auto)
    then show ?thesis using sizes ta assms(2) by (auto simp: wc_sizes_def u_def)
  qed
  ultimately obtain s' where s': "ensureLimit writeTo u = Some s'" "wc_inv s'"
      "wc_limit (ws_cache s') = wc_limit (ws_cache u)" "set (wc_set (ws_cache s')) = set (wc_set (ws_cache u))"
      "\<forall>i. i \<notin> set (wc_set (ws_cache u)) \<longrightarrow> ws_ents s' i = ws_ents u i" "settles writeTo u s'"
    using ensureLimit_ends by blast
  have "wc_add writeTo s ent = Some (s', True)"
    using ta(3) s'(1) by (simp add: wc_add_def case_prod_beta t_def [symmetric] u_def [symmetric])
  moreover have "settles writeTo t s'"
    by (rule settles_trans [OF settles.same s'(6)]) (simp_all add: u_def)
  ultimately show ?thesis using s'(2-5) ta by (auto simp: u_def t_def [symmetric])
qed

lemma wc_remove_spec:
  assumes "wc_inv s" and "ent \<in> set (wc_set (ws_cache s))"
  shows "\<exists>s'. wc_remove s ent = (s', True) \<and> wc_inv s' \<and> ws_ents s' = ws_ents s \<and>
    wc_limit (ws_cache s') = wc_limit (ws_cache s) \<and>
    set (wc_set (ws_cache s')) = set (wc_set (ws_cache s)) - {ent}"
proof -
  have keyed: "keyed (ws_ents s) (wc_set (ws_cache s))" using assms(1) by (simp add: wc_inv_def wc_ordered_def)
  have total: "wc_total (ws_cache s) = we_size (ws_ents s ent) +
      (\<Sum>i\<in>set (wc_set (ws_cache s)) - {ent}. we_size (ws_ents s i))"
    using assms sum_remove_member [OF _ assms(2), of "\<lambda>i. we_size (ws_ents s i)"]
    by (simp add: wc_inv_def wc_sizes_def)
  have sets: "{x \<in> A. x \<noteq> ent} = A - {ent}" for A :: "nat set" by auto
  show ?thesis using assms total keyed_filter [OF keyed]
    by (auto simp: wc_remove_def set_erase_member [OF keyed assms(2)] wc_inv_def wc_ordered_def wc_sizes_def sets)
qed

text \<open>The first half of \<open>update\<close>: take the entry out and put it back under its new key.\<close>

definition rekey :: "'d wr_state \<Rightarrow> nat \<Rightarrow> 'd wr_state" where
  "rekey s ent = fst (set_add (touch (s\<lparr>ws_cache := (ws_cache s)\<lparr>wc_set :=
     filter (\<lambda>y. y \<noteq> ent) (wc_set (ws_cache s))\<rparr>\<rparr>) ent) ent)"

lemma rekey_props:
  assumes "wc_ordered s" and "ent \<in> set (wc_set (ws_cache s))"
  shows "wc_ordered (rekey s ent)" "set (wc_set (ws_cache (rekey s ent))) = set (wc_set (ws_cache s))"
    "ws_ents (rekey s ent) = (ws_ents s)(ent := (ws_ents s ent)
        \<lparr>we_sizeKey := we_size (ws_ents s ent), we_lastUpdate := wc_clock (ws_cache s) + 1\<rparr>)"
    "ws_disk (rekey s ent) = ws_disk s" "wc_total (ws_cache (rekey s ent)) = wc_total (ws_cache s)"
    "wc_limit (ws_cache (rekey s ent)) = wc_limit (ws_cache s)"
proof -
  define t where "t = s\<lparr>ws_cache := (ws_cache s)\<lparr>wc_set := filter (\<lambda>y. y \<noteq> ent) (wc_set (ws_cache s))\<rparr>\<rparr>"
  have ord: "wc_ordered t" using assms(1) by (auto simp: wc_ordered_def t_def intro: keyed_filter)
  have new: "ent \<notin> set (wc_set (ws_cache t))" by (simp add: t_def)
  note ta = touch_add [OF ord new, folded rekey_def [of s ent, folded t_def]]
  show "wc_ordered (rekey s ent)" "set (wc_set (ws_cache (rekey s ent))) = set (wc_set (ws_cache s))"
    "ws_ents (rekey s ent) = (ws_ents s)(ent := (ws_ents s ent)
        \<lparr>we_sizeKey := we_size (ws_ents s ent), we_lastUpdate := wc_clock (ws_cache s) + 1\<rparr>)"
    "ws_disk (rekey s ent) = ws_disk s" "wc_total (ws_cache (rekey s ent)) = wc_total (ws_cache s)"
    "wc_limit (ws_cache (rekey s ent)) = wc_limit (ws_cache s)"
    using ta assms(2) by (auto simp: t_def)
qed

lemma wc_update_eq:
  assumes "wc_ordered s" and "ent \<in> set (wc_set (ws_cache s))"
    and "0 \<le> int (wc_total (ws_cache s)) + delta" and "int (wc_total (ws_cache s)) + delta < 2 ^ 64"
  shows "wc_update writeTo s ent delta = do {
    s' \<leftarrow> ensureLimit writeTo ((rekey s ent)\<lparr>ws_cache := (ws_cache (rekey s ent))\<lparr>wc_total :=
       nat (int (wc_total (ws_cache s)) + delta)\<rparr>\<rparr>);
    Some (s', True) }"
proof -
  have keyed: "keyed (ws_ents s) (wc_set (ws_cache s))" using assms(1) by (simp add: wc_ordered_def)
  show ?thesis using assms(3,4) rekey_props(5) [OF assms(1,2)]
    by (simp add: wc_update_def set_erase_member [OF keyed assms(2)] rekey_def [symmetric] Let_def)
qed

text \<open>
  After the size of an entry has changed by \<open>delta\<close>, \<open>update\<close> restores the invariant: the
  total was right for the old size.
\<close>

lemma wc_update_spec:
  assumes "wc_ordered s" and "ent \<in> set (wc_set (ws_cache s))"
    and "\<forall>i\<in>set (wc_set (ws_cache s)) - {ent}. we_size (ws_ents s i) \<le> we_sizeKey (ws_ents s i)"
    and "int (wc_total (ws_cache s)) + delta = int (\<Sum>i\<in>set (wc_set (ws_cache s)). we_size (ws_ents s i))"
    and "int (wc_total (ws_cache s)) + delta < 2 ^ 64"
  shows "\<exists>s'. wc_update writeTo s ent delta = Some (s', True) \<and> wc_inv s' \<and>
    wc_limit (ws_cache s') = wc_limit (ws_cache s) \<and>
    set (wc_set (ws_cache s')) = set (wc_set (ws_cache s)) \<and>
    (\<forall>i. i \<notin> set (wc_set (ws_cache s)) \<longrightarrow> ws_ents s' i = ws_ents s i) \<and> settles writeTo s s'"
proof -
  note rk = rekey_props [OF assms(1,2)]
  define u where "u = (rekey s ent)\<lparr>ws_cache := (ws_cache (rekey s ent))\<lparr>wc_total :=
       nat (int (wc_total (ws_cache s)) + delta)\<rparr>\<rparr>"
  have "wc_ordered u" using rk(1) by (simp add: u_def total_field)
  moreover have "wc_sizes u"
  proof -
    have "(\<Sum>i\<in>set (wc_set (ws_cache s)). we_size (ws_ents (rekey s ent) i)) =
        (\<Sum>i\<in>set (wc_set (ws_cache s)). we_size (ws_ents s i))"
      by (rule sum.cong) (simp_all add: rk(3))
    moreover have "nat (int (wc_total (ws_cache s)) + delta) =
        (\<Sum>i\<in>set (wc_set (ws_cache s)). we_size (ws_ents s i))" unfolding assms(4) by (rule nat_int)
    ultimately show ?thesis using assms(3) rk(2,3) by (auto simp: wc_sizes_def u_def)
  qed
  ultimately obtain s' where s': "ensureLimit writeTo u = Some s'" "wc_inv s'"
      "wc_limit (ws_cache s') = wc_limit (ws_cache u)" "set (wc_set (ws_cache s')) = set (wc_set (ws_cache u))"
      "\<forall>i. i \<notin> set (wc_set (ws_cache u)) \<longrightarrow> ws_ents s' i = ws_ents u i" "settles writeTo u s'"
    using ensureLimit_ends by blast
  have "settles writeTo s s'"
    by (rule settles_trans [OF settles.same s'(6)]) (simp_all add: u_def rk bare_def)
  moreover have "wc_update writeTo s ent delta = Some (s', True)"
  proof -
    have nonneg: "0 \<le> int (wc_total (ws_cache s)) + delta" unfolding assms(4) by (rule of_nat_0_le_iff)
    show ?thesis unfolding wc_update_eq [OF assms(1,2) nonneg assms(5)] u_def [symmetric] s'(1) by simp
  qed
  ultimately show ?thesis using s'(2-5) rk assms(2) by (auto simp: u_def)
qed

lemma ensureLimit_within:
  "wc_total (ws_cache s) \<le> wc_limit (ws_cache s) \<Longrightarrow> ensureLimit writeTo s = Some s"
  by (simp add: ensureLimit.simps [of writeTo s])

text \<open>
  Announcing that an entry is about to be emptied takes its size off the total without evicting
  anything: the total was within the limit.
\<close>

lemma wc_update_release:
  assumes "wc_inv s" and "ent \<in> set (wc_set (ws_cache s))" and "wc_limit (ws_cache s) < 2 ^ 64"
  shows "wc_update writeTo s ent (- int (we_size (ws_ents s ent))) =
    Some ((rekey s ent)\<lparr>ws_cache := (ws_cache (rekey s ent))\<lparr>wc_total :=
       wc_total (ws_cache s) - we_size (ws_ents s ent)\<rparr>\<rparr>, True)"
    and "we_size (ws_ents s ent) \<le> wc_total (ws_cache s)"
proof -
  have ord: "wc_ordered s" and tot: "wc_total (ws_cache s) = (\<Sum>i\<in>set (wc_set (ws_cache s)). we_size (ws_ents s i))"
    and lim: "wc_total (ws_cache s) \<le> wc_limit (ws_cache s)"
    using assms(1) by (simp_all add: wc_inv_def wc_sizes_def)
  show le: "we_size (ws_ents s ent) \<le> wc_total (ws_cache s)"
    unfolding tot using assms(2) by (intro member_le_sum) simp_all
  have nat: "nat (int (wc_total (ws_cache s)) + - int (we_size (ws_ents s ent))) =
      wc_total (ws_cache s) - we_size (ws_ents s ent)" by simp
  show "wc_update writeTo s ent (- int (we_size (ws_ents s ent))) =
    Some ((rekey s ent)\<lparr>ws_cache := (ws_cache (rekey s ent))\<lparr>wc_total :=
       wc_total (ws_cache s) - we_size (ws_ents s ent)\<rparr>\<rparr>, True)"
  proof (subst wc_update_eq [OF ord assms(2)])
    show "0 \<le> int (wc_total (ws_cache s)) + - int (we_size (ws_ents s ent))" using le by simp
    show "int (wc_total (ws_cache s)) + - int (we_size (ws_ents s ent)) < 2 ^ 64" using lim assms(3) by simp
    have "ensureLimit writeTo ((rekey s ent)\<lparr>ws_cache := (ws_cache (rekey s ent))\<lparr>wc_total :=
        wc_total (ws_cache s) - we_size (ws_ents s ent)\<rparr>\<rparr>) =
      Some ((rekey s ent)\<lparr>ws_cache := (ws_cache (rekey s ent))\<lparr>wc_total :=
        wc_total (ws_cache s) - we_size (ws_ents s ent)\<rparr>\<rparr>)"
      by (rule ensureLimit_within) (use lim rekey_props(6) [OF ord assms(2)] in simp)
    then show "ensureLimit writeTo ((rekey s ent)\<lparr>ws_cache := (ws_cache (rekey s ent))\<lparr>wc_total :=
          nat (int (wc_total (ws_cache s)) + - int (we_size (ws_ents s ent)))\<rparr>\<rparr>) \<bind> (\<lambda>s'. Some (s', True)) =
        Some ((rekey s ent)\<lparr>ws_cache := (ws_cache (rekey s ent))\<lparr>wc_total :=
          wc_total (ws_cache s) - we_size (ws_ents s ent)\<rparr>\<rparr>, True)"
      unfolding nat by simp
  qed
qed

text \<open>Emptying an entry of the set keeps the order; the total must then be that of the others.\<close>

lemma emptied_inv:
  assumes "wc_inv s" and "ent \<in> set (wc_set (ws_cache s))" and "wc_limit (ws_cache s) < 2 ^ 64"
    and "we_size e = 0" and "we_sizeKey e = we_size (ws_ents s ent)"
    and "we_lastUpdate e = wc_clock (ws_cache s) + 1"
  shows "wc_inv ((rekey s ent)\<lparr>ws_cache := (ws_cache (rekey s ent))\<lparr>wc_total :=
       wc_total (ws_cache s) - we_size (ws_ents s ent)\<rparr>,
     ws_ents := (ws_ents (rekey s ent))(ent := e), ws_disk := d\<rparr>)" (is "wc_inv ?t")
proof -
  have ord: "wc_ordered s" and sizes: "wc_sizes s" and lim: "wc_total (ws_cache s) \<le> wc_limit (ws_cache s)"
    using assms(1) by (simp_all add: wc_inv_def)
  note rk = rekey_props [OF ord assms(2)]
  have key: "we_less (ws_ents ?t i) (ws_ents ?t j) = we_less (ws_ents (rekey s ent) i) (ws_ents (rekey s ent) j)" for i j
    using assms(5,6) rk(3) by (simp add: we_less_def)
  have upd: "we_lastUpdate (ws_ents ?t i) = we_lastUpdate (ws_ents (rekey s ent) i)" for i
    using assms(6) rk(3) by simp
  have "wc_ordered ?t" using rk(1) key upd unfolding wc_ordered_def by (simp del: fun_upd_apply)
  moreover have "wc_sizes ?t"
  proof -
    have "(\<Sum>i\<in>set (wc_set (ws_cache s)). we_size (ws_ents ?t i)) =
        (\<Sum>i\<in>set (wc_set (ws_cache s)) - {ent}. we_size (ws_ents s i))"
      using sum_remove_member [OF _ assms(2), of "\<lambda>i. we_size (ws_ents ?t i)"] assms(4) rk(3) by simp
    moreover have "wc_total (ws_cache s) = we_size (ws_ents s ent) +
        (\<Sum>i\<in>set (wc_set (ws_cache s)) - {ent}. we_size (ws_ents s i))"
      using sizes sum_remove_member [OF _ assms(2), of "\<lambda>i. we_size (ws_ents s i)"] by (simp add: wc_sizes_def)
    ultimately show ?thesis using sizes rk(2,3) assms(4) by (auto simp: wc_sizes_def)
  qed
  ultimately show ?thesis using lim rk(6) by (simp add: wc_inv_def)
qed

end
