(* ===== verification/Piece.thy ===== *)
theory Piece
  imports BlockMap WrDiskCache
begin

text \<open>
  \<open>Piece\<close>: the blocks of one piece, who downloads it, its running hash and its write cache
  entry. The digest (\<open>MessageDigest\<close>, a wrapper of the crypto libraries) is a parameter \<open>'h\<close> with
  its three operations; reading from the disk adaptor is a parameter too. A null \<open>WrDiskCache\<close>
  pointer is \<open>diskCache = False\<close>. The default constructor, which builds search keys for
  \<open>DefaultPieceStorage::findUsedPiece\<close>, is not needed.
\<close>

record 'h digest_ops =
  dg_create :: "string \<Rightarrow> 'h"
  dg_update :: "'h \<Rightarrow> byte list \<Rightarrow> 'h"
  dg_digest :: "'h \<Rightarrow> byte list"

record 'h piece =
  pc_bitfield :: bitfield_man
  pc_wrCache :: "nat option"
  pc_mdctx :: "'h option"
  pc_users :: "int list"
  pc_hashType :: string
  pc_index :: nat
  pc_length :: int
  pc_nextBegin :: int
  pc_usedBySegment :: bool

abbreviation BLOCK_LENGTH :: int where
  "BLOCK_LENGTH \<equiv> 16384"

definition piece_new :: "nat \<Rightarrow> int \<Rightarrow> int \<Rightarrow> 'h piece" where
  "piece_new index len blockLength =
     \<lparr>pc_bitfield = bm_new blockLength len, pc_wrCache = None, pc_mdctx = None, pc_users = [],
      pc_hashType = [], pc_index = index, pc_length = len, pc_nextBegin = 0, pc_usedBySegment = False\<rparr>"

subsection \<open>Blocks\<close>

definition completeBlock :: "nat \<Rightarrow> 'h piece \<Rightarrow> 'h piece" where
  "completeBlock blockIndex p =
     (let m = fst (setBit (pc_bitfield p) blockIndex);
          m = fst (unsetUseBit m blockIndex)
      in p\<lparr>pc_bitfield := m\<rparr>)"

definition cancelBlock :: "nat \<Rightarrow> 'h piece \<Rightarrow> 'h piece" where
  "cancelBlock blockIndex p = p\<lparr>pc_bitfield := fst (unsetUseBit (pc_bitfield p) blockIndex)\<rparr>"

definition setAllBlock :: "'h piece \<Rightarrow> 'h piece" where
  "setAllBlock p = p\<lparr>pc_bitfield := setAllBit (pc_bitfield p)\<rparr>"

definition pieceComplete :: "'h piece \<Rightarrow> bool" where
  "pieceComplete p = isAllBitSet (pc_bitfield p)"

definition countBlock :: "'h piece \<Rightarrow> nat" where
  "countBlock p = bm_blocks (pc_bitfield p)"

definition piece_getBlockLength :: "'h piece \<Rightarrow> nat \<Rightarrow> int" where
  "piece_getBlockLength p index = getBlockLength (pc_bitfield p) index"

definition isBlockUsed :: "'h piece \<Rightarrow> nat \<Rightarrow> bool option" where
  "isBlockUsed p index = isUseBitSet (pc_bitfield p) index"

definition countCompleteBlock :: "'h piece \<Rightarrow> nat" where
  "countCompleteBlock p = usub (bm_blocks (pc_bitfield p)) (bm_cachedNumMissingBlock (pc_bitfield p))"

definition piece_countMissingBlock :: "'h piece \<Rightarrow> nat" where
  "piece_countMissingBlock p = bm_cachedNumMissingBlock (pc_bitfield p)"

definition hasBlock :: "'h piece \<Rightarrow> nat \<Rightarrow> bool option" where
  "hasBlock p blockIndex = isBitSet (pc_bitfield p) blockIndex"

definition getMissingUnusedBlockIndex :: "'h piece \<Rightarrow> 'h piece \<times> nat option" where
  "getMissingUnusedBlockIndex p =
     (case getFirstMissingUnusedIndex (pc_bitfield p) of
        Some index \<Rightarrow> (p\<lparr>pc_bitfield := fst (setUseBit (pc_bitfield p) index)\<rparr>, Some index)
      | None \<Rightarrow> (p, None))"

text \<open>Returns the indexes appended; all of them become used.\<close>

definition getMissingUnusedBlockIndexes :: "'h piece \<Rightarrow> nat \<Rightarrow> 'h piece \<times> nat list" where
  "getMissingUnusedBlockIndexes p n =
     (let indexes = getFirstNMissingUnusedIndex (pc_bitfield p) n in
      (p\<lparr>pc_bitfield := fold (\<lambda>i m. fst (setUseBit m i)) indexes (pc_bitfield p)\<rparr>, indexes))"

definition getFirstMissingBlockIndexWithoutLock :: "'h piece \<Rightarrow> nat option" where
  "getFirstMissingBlockIndexWithoutLock p = getFirstMissingIndex (pc_bitfield p)"

definition getAllMissingBlockIndexes :: "'h piece \<Rightarrow> byte list \<Rightarrow> (byte list \<times> bool) option" where
  "getAllMissingBlockIndexes p misbitfield = getAllMissingIndexes (pc_bitfield p) misbitfield"

definition reconfigure :: "int \<Rightarrow> 'h piece \<Rightarrow> 'h piece" where
  "reconfigure len p = p\<lparr>pc_length := len, pc_bitfield := bm_new (2 ^ 31 - 1) len\<rparr>"

definition piece_setBitfield :: "byte list \<Rightarrow> 'h piece \<Rightarrow> 'h piece" where
  "piece_setBitfield bitfield p = p\<lparr>pc_bitfield := setBitfield (pc_bitfield p) bitfield\<rparr>"

definition piece_getCompletedLength :: "'h piece \<Rightarrow> int" where
  "piece_getCompletedLength p = bm_cachedCompletedLength (pc_bitfield p)"

subsection \<open>Users\<close>

definition usedBy :: "'h piece \<Rightarrow> int \<Rightarrow> bool" where
  "usedBy p cuid \<longleftrightarrow> cuid \<in> set (pc_users p)"

definition addUser :: "int \<Rightarrow> 'h piece \<Rightarrow> 'h piece" where
  "addUser cuid p = (if cuid \<in> set (pc_users p) then p else p\<lparr>pc_users := pc_users p @ [cuid]\<rparr>)"

definition removeUser :: "int \<Rightarrow> 'h piece \<Rightarrow> 'h piece" where
  "removeUser cuid p = p\<lparr>pc_users := filter (\<lambda>u. u \<noteq> cuid) (pc_users p)\<rparr>"

definition getUsed :: "'h piece \<Rightarrow> bool" where
  "getUsed p \<longleftrightarrow> pc_users p \<noteq> []"

subsection \<open>Hash\<close>

definition setHashType :: "string \<Rightarrow> 'h piece \<Rightarrow> 'h piece" where
  "setHashType hashType p = p\<lparr>pc_hashType := hashType\<rparr>"

definition updateHash :: "'h digest_ops \<Rightarrow> int \<Rightarrow> byte list \<Rightarrow> 'h piece \<Rightarrow> 'h piece \<times> bool" where
  "updateHash ops begin' data p =
     (if pc_hashType p = [] then (p, False)
      else if begin' = pc_nextBegin p \<and> pc_nextBegin p + int (length data) \<le> pc_length p
      then
        let ctx = (case pc_mdctx p of None \<Rightarrow> dg_create ops (pc_hashType p) | Some ctx \<Rightarrow> ctx)
        in (p\<lparr>pc_mdctx := Some (dg_update ops ctx data),
               pc_nextBegin := pc_nextBegin p + int (length data)\<rparr>, True)
      else (p, False))"

definition isHashCalculated :: "'h piece \<Rightarrow> bool" where
  "isHashCalculated p \<longleftrightarrow> pc_mdctx p \<noteq> None \<and> pc_nextBegin p = pc_length p"

definition destroyHashContext :: "'h piece \<Rightarrow> 'h piece" where
  "destroyHashContext p = p\<lparr>pc_mdctx := None, pc_nextBegin := 0\<rparr>"

definition getDigest :: "'h digest_ops \<Rightarrow> 'h piece \<Rightarrow> 'h piece \<times> byte list" where
  "getDigest ops p =
     (case pc_mdctx p of
        None \<Rightarrow> (p, [])
      | Some ctx \<Rightarrow> (destroyHashContext p, dg_digest ops ctx))"

text \<open>\<open>readData\<close> of the adaptor; a short read throws.\<close>

type_synonym 'd reader = "nat \<Rightarrow> int \<Rightarrow> 'd \<Rightarrow> 'd \<times> (byte list + error_code)"

definition read_exactly :: "'d reader \<Rightarrow> nat \<Rightarrow> int \<Rightarrow> 'd \<Rightarrow> 'd \<times> (byte list + error_code)" where
  "read_exactly readData n offset d =
     (case readData n offset d of
        (d, Inr err) \<Rightarrow> (d, Inr err)
      | (d, Inl bs) \<Rightarrow> if length bs \<noteq> n then (d, Inr UNKNOWN_ERROR) else (d, Inl bs))"

fun hash_chunks ::
  "'h digest_ops \<Rightarrow> 'd reader \<Rightarrow> nat \<Rightarrow> 'h \<Rightarrow> int \<Rightarrow> 'd \<Rightarrow> 'd \<times> ('h \<times> int + error_code)" where
  "hash_chunks ops readData 0 ctx offset d = (d, Inl (ctx, offset))"
| "hash_chunks ops readData (Suc n) ctx offset d =
     (case read_exactly readData 4096 offset d of
        (d, Inr err) \<Rightarrow> (d, Inr err)
      | (d, Inl bs) \<Rightarrow> hash_chunks ops readData n (dg_update ops ctx bs) (offset + int (length bs)) d)"

definition updateHashWithRead ::
  "'h digest_ops \<Rightarrow> 'd reader \<Rightarrow> 'h \<Rightarrow> int \<Rightarrow> nat \<Rightarrow> 'd \<Rightarrow> 'd \<times> ('h + error_code)" where
  "updateHashWithRead ops readData ctx offset len d =
     (case hash_chunks ops readData (len div 4096) ctx offset d of
        (d, Inr err) \<Rightarrow> (d, Inr err)
      | (d, Inl (ctx, offset)) \<Rightarrow>
          if len mod 4096 = 0 then (d, Inl ctx)
          else (case read_exactly readData (len mod 4096) offset d of
              (d, Inr err) \<Rightarrow> (d, Inr err)
            | (d, Inl bs) \<Rightarrow> (d, Inl (dg_update ops ctx bs))))"

fun hash_cells ::
  "'h digest_ops \<Rightarrow> 'd reader \<Rightarrow> data_cell list \<Rightarrow> 'h \<Rightarrow> int \<Rightarrow> 'd \<Rightarrow> 'd \<times> ('h \<times> int + error_code)" where
  "hash_cells ops readData [] ctx goff d = (d, Inl (ctx, goff))"
| "hash_cells ops readData (c # cs) ctx goff d =
     (case (if goff < dc_goff c
            then updateHashWithRead ops readData ctx goff (size_of_int (dc_goff c - goff)) d
            else (d, Inl ctx)) of
        (d, Inr err) \<Rightarrow> (d, Inr err)
      | (d, Inl ctx) \<Rightarrow>
          hash_cells ops readData cs (dg_update ops ctx (cell_bytes c)) (dc_goff c + int (dc_len c)) d)"

text \<open>\<open>dataSet\<close> is the cell set of the write cache entry, \<open>None\<close> without one.\<close>

definition getDigestWithWrCache ::
  "'h digest_ops \<Rightarrow> 'd reader \<Rightarrow> nat \<Rightarrow> data_cell list option \<Rightarrow> 'h piece \<Rightarrow> 'd \<Rightarrow>
     'd \<times> (byte list + error_code)" where
  "getDigestWithWrCache ops readData pieceLength dataSet p d =
     (let ctx = dg_create ops (pc_hashType p);
          start = int (pc_index p) * int pieceLength;
          r = (case dataSet of
                Some cells \<Rightarrow>
                  (case hash_cells ops readData cells ctx start d of
                     (d, Inr err) \<Rightarrow> (d, Inr err)
                   | (d, Inl (ctx, goff)) \<Rightarrow>
                       updateHashWithRead ops readData ctx goff (size_of_int (start + pc_length p - goff)) d)
              | None \<Rightarrow> updateHashWithRead ops readData ctx start (size_of_int (pc_length p)) d)
      in case r of (d, Inr err) \<Rightarrow> (d, Inr err) | (d, Inl ctx) \<Rightarrow> (d, Inl (dg_digest ops ctx)))"

subsection \<open>Write cache\<close>

text \<open>
  The outer \<open>option\<close> is a failed assertion (or a cache loop that does not end). \<open>ent\<close> is the
  address of the new entry.
\<close>

type_synonym ('h, 'd) piece_cache = "'h piece \<times> 'd wr_state"

definition set_ent :: "nat \<Rightarrow> wr_entry \<Rightarrow> 'd wr_state \<Rightarrow> 'd wr_state" where
  "set_ent i e s = s\<lparr>ws_ents := (ws_ents s)(i := e)\<rparr>"

definition initWrCache ::
  "'d write_to \<Rightarrow> bool \<Rightarrow> nat \<Rightarrow> nat \<Rightarrow> 'h piece \<Rightarrow> 'd wr_state \<Rightarrow> ('h, 'd) piece_cache option" where
  "initWrCache writeTo diskCache ent diskAdaptor p s =
     (if \<not> diskCache then Some (p, s)
      else if pc_wrCache p \<noteq> None then None
      else do {
        (s, rv) \<leftarrow> wc_add writeTo (set_ent ent (we_new diskAdaptor) s) ent;
        if rv then Some (p\<lparr>pc_wrCache := Some ent\<rparr>, s) else None })"

definition flushWrCache ::
  "'d write_to \<Rightarrow> bool \<Rightarrow> 'h piece \<Rightarrow> 'd wr_state \<Rightarrow> 'd wr_state option" where
  "flushWrCache writeTo diskCache p s =
     (if \<not> diskCache then Some s
      else do {
        ent \<leftarrow> pc_wrCache p;
        (s, _) \<leftarrow> wc_update writeTo s ent (- int (we_size (ws_ents s ent)));
        let (e, disk) = writeToDisk writeTo (ws_ents s ent) (ws_disk s);
        Some ((set_ent ent e s)\<lparr>ws_disk := disk\<rparr>) })"

definition clearWrCache ::
  "'d write_to \<Rightarrow> bool \<Rightarrow> 'h piece \<Rightarrow> 'd wr_state \<Rightarrow> 'd wr_state option" where
  "clearWrCache writeTo diskCache p s =
     (if \<not> diskCache then Some s
      else do {
        ent \<leftarrow> pc_wrCache p;
        (s, _) \<leftarrow> wc_update writeTo s ent (- int (we_size (ws_ents s ent)));
        Some (set_ent ent (we_clear (ws_ents s ent)) s) })"

definition clearAllBlock ::
  "'d write_to \<Rightarrow> bool \<Rightarrow> 'h piece \<Rightarrow> 'd wr_state \<Rightarrow> ('h, 'd) piece_cache option" where
  "clearAllBlock writeTo diskCache p s =
     (let p = p\<lparr>pc_bitfield := clearAllUseBit (clearAllBit (pc_bitfield p))\<rparr> in
      if diskCache \<and> pc_wrCache p \<noteq> None
      then do { s \<leftarrow> clearWrCache writeTo diskCache p s; Some (p, s) }
      else Some (p, s))"

definition updateWrCache ::
  "'d write_to \<Rightarrow> bool \<Rightarrow> byte list \<Rightarrow> nat \<Rightarrow> nat \<Rightarrow> nat \<Rightarrow> int \<Rightarrow> 'h piece \<Rightarrow> 'd wr_state \<Rightarrow> 'd wr_state option" where
  "updateWrCache writeTo diskCache data offset len capacity goff p s =
     (if \<not> diskCache then Some s
      else do {
        ent \<leftarrow> pc_wrCache p;
        let (e, rv) = cacheData (ws_ents s ent) \<lparr>dc_goff = goff, dc_data = data, dc_offset = offset,
              dc_len = len, dc_capacity = capacity\<rparr>;
        if \<not> rv then None else do {
          (s, rv) \<leftarrow> wc_update writeTo (set_ent ent e s) ent (int len);
          if rv then Some s else None } })"

definition appendWrCache ::
  "'d write_to \<Rightarrow> bool \<Rightarrow> int \<Rightarrow> byte list \<Rightarrow> 'h piece \<Rightarrow> 'd wr_state \<Rightarrow> ('d wr_state \<times> nat) option" where
  "appendWrCache writeTo diskCache goff data p s =
     (if \<not> diskCache then Some (s, 0)
      else do {
        ent \<leftarrow> pc_wrCache p;
        let (e, delta) = we_append (ws_ents s ent) goff data;
        if delta > 0 then do {
          (s, rv) \<leftarrow> wc_update writeTo (set_ent ent e s) ent (int delta);
          if rv then Some (s, delta) else None }
        else Some (set_ent ent e s, delta) })"

definition releaseWrCache ::
  "bool \<Rightarrow> 'h piece \<Rightarrow> 'd wr_state \<Rightarrow> 'h piece \<times> 'd wr_state" where
  "releaseWrCache diskCache p s =
     (case pc_wrCache p of
        Some ent \<Rightarrow> if diskCache
          then let s = fst (wc_remove s ent)
               in (p\<lparr>pc_wrCache := None\<rparr>, set_ent ent (deleteDataCells (ws_ents s ent)) s)
          else (p, s)
      | None \<Rightarrow> (p, s))"

end
