(* ===== verification/PieceProps.thy ===== *)
theory PieceProps
  imports Piece
begin

text \<open>
  Lemmas on pieces: blocks and their views, the running hash, the digest over disk and cache, and
  the write cache operations, which never fail an assertion from a proper state.
\<close>

subsection \<open>Blocks\<close>

definition piece_inv :: "'h piece \<Rightarrow> bool" where
  "piece_inv p \<longleftrightarrow> bm_inv (pc_bitfield p)"

lemma piece_new_inv:
  "len < 2 ^ 63 \<Longrightarrow> b < 2 ^ 31 \<Longrightarrow> piece_inv (piece_new i len b)"
  by (simp add: piece_inv_def piece_new_def bm_new_inv)

lemma block_ops_inv [inv_intros]:
  assumes "piece_inv p"
  shows "piece_inv (completeBlock i p)" "piece_inv (cancelBlock i p)" "piece_inv (setAllBlock p)"
    "piece_inv (fst (getMissingUnusedBlockIndex p))" "piece_inv (fst (getMissingUnusedBlockIndexes p n))"
    "piece_inv (addUser c p)" "piece_inv (removeUser c p)" "piece_inv (setHashType t p)"
    "piece_inv (destroyHashContext p)"
proof -
  have "bm_inv (fold (\<lambda>i m. fst (setUseBit m i)) is m)" if "bm_inv m" for "is" m
    using that by (induction "is" arbitrary: m) (simp_all add: set_ops_inv)
  then show "piece_inv (completeBlock i p)" "piece_inv (cancelBlock i p)" "piece_inv (setAllBlock p)"
    "piece_inv (fst (getMissingUnusedBlockIndex p))" "piece_inv (fst (getMissingUnusedBlockIndexes p n))"
    "piece_inv (addUser c p)" "piece_inv (removeUser c p)" "piece_inv (setHashType t p)"
    "piece_inv (destroyHashContext p)"
    using assms by (auto simp: piece_inv_def completeBlock_def cancelBlock_def setAllBlock_def
        getMissingUnusedBlockIndex_def getMissingUnusedBlockIndexes_def addUser_def removeUser_def
        setHashType_def destroyHashContext_def Let_def set_ops_inv setAll_inv split: option.split)
qed

abbreviation phaves :: "'h piece \<Rightarrow> nat set" where
  "phaves p \<equiv> haves (pc_bitfield p)"

abbreviation puses :: "'h piece \<Rightarrow> nat set" where
  "puses p \<equiv> uses (pc_bitfield p)"

lemma block_ops_views [abs_simps]:
  assumes "piece_inv p"
  shows "phaves (completeBlock i p) = phaves p \<union> ({i} \<inter> {..<countBlock p})"
    "puses (completeBlock i p) = puses p - {i}"
    "phaves (cancelBlock i p) = phaves p" "puses (cancelBlock i p) = puses p - {i}"
    "phaves (setAllBlock p) = {..<countBlock p}" "puses (setAllBlock p) = puses p"
    "pc_bitfield (addUser c p) = pc_bitfield p" "pc_bitfield (removeUser c p) = pc_bitfield p"
  using assms set_ops_inv(1) [of "pc_bitfield p" i]
  by (auto simp: piece_inv_def completeBlock_def cancelBlock_def setAllBlock_def Let_def countBlock_def
      addUser_def removeUser_def set_ops_views setAll_views)

lemma fold_setUse:
  assumes "bm_inv m" and "set is \<subseteq> {..<bm_blocks m}"
  shows "uses (fold (\<lambda>i m. fst (setUseBit m i)) is m) = uses m \<union> set is \<and>
    haves (fold (\<lambda>i m. fst (setUseBit m i)) is m) = haves m"
  using assms
proof (induction "is" arbitrary: m)
  case (Cons i "is")
  then show ?case using set_ops_inv(3) [OF Cons.prems(1), of i] set_ops_views [OF Cons.prems(1), of i]
    by auto
qed simp

text \<open>Blocks handed out: the first \<open>n\<close> missing and unused ones, which become used.\<close>

lemma getMissingUnusedBlockIndexes_spec:
  assumes "piece_inv p" and "getMissingUnusedBlockIndexes p n = (p', ixs)"
  shows "ixs = take n (filter (\<lambda>i. i \<in> missing (pc_bitfield p) - puses p) [0..<countBlock p])"
    "puses p' = puses p \<union> set ixs" "phaves p' = phaves p" "distinct ixs"
    "set ixs \<subseteq> missing (pc_bitfield p) - puses p"
proof -
  note inv = assms(1) [unfolded piece_inv_def]
  have ixs: "ixs = getFirstNMissingUnusedIndex (pc_bitfield p) n"
      and p': "p' = p\<lparr>pc_bitfield := fold (\<lambda>i m. fst (setUseBit m i)) ixs (pc_bitfield p)\<rparr>"
    using assms(2) by (auto simp: getMissingUnusedBlockIndexes_def Let_def)
  show eq: "ixs = take n (filter (\<lambda>i. i \<in> missing (pc_bitfield p) - puses p) [0..<countBlock p])"
    unfolding ixs countBlock_def by (rule getFirstN_take [OF bm_invD(1) [OF inv]])
  show sub: "set ixs \<subseteq> missing (pc_bitfield p) - puses p"
    unfolding eq by (auto dest: in_set_takeD)
  show "distinct ixs" unfolding eq by (simp add: distinct_take)
  have "set ixs \<subseteq> {..<bm_blocks (pc_bitfield p)}" using sub missing_less by blast
  then show "puses p' = puses p \<union> set ixs" "phaves p' = phaves p"
    using fold_setUse [OF inv, of ixs] p' by simp_all
qed

subsection \<open>Hashing\<close>

text \<open>Digests are incremental.\<close>

definition digest_law :: "'h digest_ops \<Rightarrow> bool" where
  "digest_law ops \<longleftrightarrow> (\<forall>h. dg_update ops h [] = h) \<and>
     (\<forall>h xs ys. dg_update ops (dg_update ops h xs) ys = dg_update ops h (xs @ ys))"

lemma digest_simps:
  assumes "digest_law ops"
  shows "dg_update ops h [] = h" "dg_update ops (dg_update ops h xs) ys = dg_update ops h (xs @ ys)"
  using assms by (simp_all add: digest_law_def)

text \<open>The bytes of a segment, and a reader that returns them.\<close>

definition seg :: "(int \<Rightarrow> byte) \<Rightarrow> int \<Rightarrow> nat \<Rightarrow> byte list" where
  "seg c a n = map (\<lambda>k. c (a + int k)) [0..<n]"

lemma length_seg [simp]: "length (seg c a n) = n"
  by (simp add: seg_def)

lemma seg_append: "seg c a (m + n) = seg c a m @ seg c (a + int m) n"
  by (rule nth_equalityI) (auto simp: seg_def nth_append algebra_simps)

lemma seg_cong: "(\<And>x. a \<le> x \<Longrightarrow> x < a + int n \<Longrightarrow> c x = c' x) \<Longrightarrow> seg c a n = seg c' a n"
  by (simp add: seg_def)

definition full_reader :: "'d reader \<Rightarrow> (int \<Rightarrow> byte) \<Rightarrow> 'd \<Rightarrow> bool" where
  "full_reader readData c d \<longleftrightarrow> (\<forall>n off. 0 \<le> off \<longrightarrow> readData n off d = (d, Inl (seg c off n)))"

lemma hash_chunks_seg:
  assumes "digest_law ops" and "full_reader rd c d"
  shows "0 \<le> off \<Longrightarrow> hash_chunks ops rd n ctx off d =
    (d, Inl (dg_update ops ctx (seg c off (4096 * n)), off + 4096 * int n))"
proof (induction n arbitrary: ctx off)
  case 0
  then show ?case using digest_simps(1) [OF assms(1)] by (simp add: seg_def)
next
  case (Suc n)
  have "read_exactly rd 4096 off d = (d, Inl (seg c off 4096))"
    using assms(2) Suc.prems by (simp add: read_exactly_def full_reader_def)
  then have "hash_chunks ops rd (Suc n) ctx off d =
      hash_chunks ops rd n (dg_update ops ctx (seg c off 4096)) (off + 4096) d" by simp
  also have "\<dots> = (d, Inl (dg_update ops ctx (seg c off (4096 * Suc n)), off + 4096 * int (Suc n)))"
    using Suc.IH [of "off + 4096"] Suc.prems digest_simps(2) [OF assms(1)] seg_append [of c off 4096 "4096 * n"]
    by simp
  finally show ?case .
qed

lemma updateHashWithRead_seg:
  assumes "digest_law ops" and "full_reader rd c d" and "0 \<le> off"
  shows "updateHashWithRead ops rd ctx off len d = (d, Inl (dg_update ops ctx (seg c off len)))"
proof -
  have len: "len = 4096 * (len div 4096) + len mod 4096" by simp
  note chunks = hash_chunks_seg [OF assms, of "len div 4096" ctx]
  have off: "0 \<le> off + 4096 * int (len div 4096)" using assms(3) by simp
  have "read_exactly rd (len mod 4096) (off + 4096 * int (len div 4096)) d =
      (d, Inl (seg c (off + 4096 * int (len div 4096)) (len mod 4096)))"
    using assms(2) off by (simp add: read_exactly_def full_reader_def)
  moreover have "seg c off len = seg c off (4096 * (len div 4096)) @
      seg c (off + 4096 * int (len div 4096)) (len mod 4096)"
    using seg_append [of c off "4096 * (len div 4096)" "len mod 4096"] len by simp
  moreover have "len mod 4096 = 0 \<Longrightarrow> seg c off len = seg c off (4096 * (len div 4096))" using len by simp
  ultimately show ?thesis using chunks digest_simps(2) [OF assms(1)]
    by (simp add: updateHashWithRead_def)
qed

text \<open>Cells in order, between \<open>a\<close> and \<open>e\<close>.\<close>

fun cells_between :: "int \<Rightarrow> int \<Rightarrow> data_cell list \<Rightarrow> bool" where
  "cells_between a e [] \<longleftrightarrow> a \<le> e"
| "cells_between a e (c # cs) \<longleftrightarrow> a \<le> dc_goff c \<and> cell_ok c \<and> cells_between (dc_goff c + int (dc_len c)) e cs"

abbreviation overlay :: "data_cell list \<Rightarrow> (int \<Rightarrow> byte) \<Rightarrow> int \<Rightarrow> byte" where
  "overlay cs c \<equiv> fold (\<lambda>d c. patch c (dc_goff d) (cell_bytes d)) cs c"

lemma cells_between_le: "cells_between a e cs \<Longrightarrow> a \<le> e"
  by (induction cs arbitrary: a) fastforce+

lemma overlay_before: "cells_between a e cs \<Longrightarrow> x < a \<Longrightarrow> overlay cs c x = c x"
proof (induction cs arbitrary: a c)
  case (Cons d cs)
  then have "overlay cs (patch c (dc_goff d) (cell_bytes d)) x = patch c (dc_goff d) (cell_bytes d) x"
    by (intro Cons.IH [of "dc_goff d + int (dc_len d)"]) auto
  then show ?case using Cons.prems by (simp add: patch_def)
qed simp

lemma overlay_cong: "c x = c' x \<Longrightarrow> overlay cs c x = overlay cs c' x"
proof (induction cs arbitrary: c c')
  case (Cons d cs)
  have "patch c (dc_goff d) (cell_bytes d) x = patch c' (dc_goff d) (cell_bytes d) x"
    unfolding patch_def using Cons.prems by simp
  then have "overlay cs (patch c (dc_goff d) (cell_bytes d)) x = overlay cs (patch c' (dc_goff d) (cell_bytes d)) x"
    by (rule Cons.IH)
  then show ?case by simp
qed simp

lemma hash_cells_seg:
  assumes law: "digest_law ops" and rd: "full_reader rd c d"
  shows "cells_between a e cs \<Longrightarrow> 0 \<le> a \<Longrightarrow> e < 2 ^ 63 \<Longrightarrow> \<exists>z. hash_cells ops rd cs ctx a d =
     (d, Inl (dg_update ops ctx (seg (overlay cs c) a (nat (z - a))), z)) \<and> a \<le> z \<and> z \<le> e \<and>
     (\<forall>x\<ge>z. overlay cs c x = c x)"
proof (induction cs arbitrary: a ctx)
  case Nil
  then show ?case using digest_simps(1) [OF law] by (intro exI [of _ a]) (simp add: seg_def)
next
  case (Cons b cs)
  let ?a = "dc_goff b + int (dc_len b)"
  have b: "a \<le> dc_goff b" "cell_ok b" "cells_between ?a e cs" using Cons.prems by simp_all
  have ale: "?a \<le> e" using cells_between_le [OF b(3)] .
  let ?gap = "nat (dc_goff b - a)"
  have gap: "(if a < dc_goff b then updateHashWithRead ops rd ctx a (size_of_int (dc_goff b - a)) d else (d, Inl ctx)) =
      (d, Inl (dg_update ops ctx (seg c a ?gap)))"
    using updateHashWithRead_seg [OF law rd Cons.prems(2)] b(1) ale Cons.prems(2,3) digest_simps(1) [OF law]
    by (auto simp: seg_def)
  from Cons.IH [OF b(3) _ Cons.prems(3)] b(1) Cons.prems(2)
  obtain z where z: "hash_cells ops rd cs (dg_update ops (dg_update ops ctx (seg c a ?gap)) (cell_bytes b)) ?a d =
      (d, Inl (dg_update ops (dg_update ops (dg_update ops ctx (seg c a ?gap)) (cell_bytes b))
        (seg (overlay cs c) ?a (nat (z - ?a))), z))" "?a \<le> z" "z \<le> e" "\<forall>x\<ge>z. overlay cs c x = c x"
    by fastforce
  let ?o = "overlay (b # cs) c"
  have o1: "seg c a ?gap = seg ?o a ?gap"
    by (rule seg_cong) (use overlay_before [of "dc_goff b" e "b # cs" _ c] b in simp)
  have in_b: "?o (dc_goff b + int k) = cell_bytes b ! k" if "k < dc_len b" for k
  proof -
    have "?o (dc_goff b + int k) = patch c (dc_goff b) (cell_bytes b) (dc_goff b + int k)"
      using overlay_before [OF b(3), of "dc_goff b + int k" "patch c (dc_goff b) (cell_bytes b)"] that by simp
    then show ?thesis using that b(2) by (simp add: patch_def)
  qed
  have o2: "cell_bytes b = seg ?o (dc_goff b) (dc_len b)"
    by (rule nth_equalityI) (use b(2) in_b in \<open>auto simp: seg_def\<close>)
  have after: "overlay cs c x = ?o x" if "?a \<le> x" for x
    using overlay_cong [of c x "patch c (dc_goff b) (cell_bytes b)" cs] that b(2) by (simp add: patch_def)
  have o3: "seg (overlay cs c) ?a (nat (z - ?a)) = seg ?o ?a (nat (z - ?a))"
    by (rule seg_cong) (use after in simp)
  have lens: "nat (z - a) = ?gap + (dc_len b + nat (z - ?a))" "a + int ?gap = dc_goff b"
    using b(1) z(2) by linarith+
  have "seg ?o a (nat (z - a)) = seg c a ?gap @ cell_bytes b @ seg (overlay cs c) ?a (nat (z - ?a))"
  proof -
    have "a + int ?gap + int (dc_len b) = ?a" using lens(2) by simp
    then have "seg ?o a (nat (z - a)) = seg ?o a ?gap @ seg ?o (dc_goff b) (dc_len b) @ seg ?o ?a (nat (z - ?a))"
      by (simp only: lens seg_append)
    then show ?thesis by (simp only: o1 o2 o3)
  qed
  moreover have "\<forall>x\<ge>z. ?o x = c x" using z(2,4) after by fastforce
  ultimately show ?case using z gap b(1)
    by (intro exI [of _ z]) (simp add: digest_simps(2) [OF law])
qed

lemma getDigestWithWrCache_seg:
  assumes law: "digest_law ops" and rd: "full_reader rd c d"
    and start: "start = int (pc_index p) * int pieceLength" and len: "0 \<le> pc_length p" "start + pc_length p < 2 ^ 63"
    and cells: "\<forall>cs\<in>set_option dataSet. cells_between start (start + pc_length p) cs"
  shows "getDigestWithWrCache ops rd pieceLength dataSet p d =
    (d, Inl (dg_digest ops (dg_update ops (dg_create ops (pc_hashType p))
      (seg (overlay (case dataSet of None \<Rightarrow> [] | Some cs \<Rightarrow> cs) c) start (nat (pc_length p))))))"
proof -
  have s: "0 \<le> start" by (simp add: start)
  show ?thesis
  proof (cases dataSet)
    case None
    then show ?thesis using updateHashWithRead_seg [OF law rd s] len s
      by (simp add: getDigestWithWrCache_def start [symmetric] Let_def)
  next
    case (Some cs)
    then have "cells_between start (start + pc_length p) cs" using cells by simp
    from hash_cells_seg [OF law rd this s len(2), of "dg_create ops (pc_hashType p)"]
    obtain z where z: "hash_cells ops rd cs (dg_create ops (pc_hashType p)) start d =
        (d, Inl (dg_update ops (dg_create ops (pc_hashType p)) (seg (overlay cs c) start (nat (z - start))), z))"
      "start \<le> z" "z \<le> start + pc_length p" "\<forall>x\<ge>z. overlay cs c x = c x" by blast
    let ?rest = "start + pc_length p - z"
    have tail: "seg c z (nat ?rest) = seg (overlay cs c) z (nat ?rest)"
      by (rule seg_cong) (use z(4) in simp)
    have lens: "nat (pc_length p) = nat (z - start) + nat ?rest" "start + int (nat (z - start)) = z"
      using z(2,3) by linarith+
    have "size_of_int ?rest = nat ?rest" using z(2,3) len s by simp
    then show ?thesis using Some z updateHashWithRead_seg [OF law rd, of z] s tail
      by (simp add: getDigestWithWrCache_def start [symmetric] Let_def lens(1) seg_append lens(2)
          digest_simps(2) [OF law])
  qed
qed


lemma updateHash_run:
  assumes law: "digest_law ops" and "pc_hashType p \<noteq> []"
    and "case pc_mdctx p of None \<Rightarrow> done = [] | Some h \<Rightarrow> h = dg_update ops (dg_create ops (pc_hashType p)) done"
    and "pc_nextBegin p = int (length done)" and "int (length done) + int (length data) \<le> pc_length p"
  shows "\<exists>p'. updateHash ops (int (length done)) data p = (p', True) \<and>
    pc_mdctx p' = Some (dg_update ops (dg_create ops (pc_hashType p)) (done @ data)) \<and>
    pc_nextBegin p' = int (length (done @ data)) \<and> pc_hashType p' = pc_hashType p \<and> pc_length p' = pc_length p"
  using assms digest_simps [OF law]
  by (cases "pc_mdctx p") (auto simp: updateHash_def)

subsection \<open>The write cache\<close>

lemma wc_inv_set_ent_new:
  assumes "wc_inv s" and "ent \<notin> centries s"
  shows "wc_inv (set_ent ent e s)"
proof -
  have same: "ws_ents (set_ent ent e s) i = ws_ents s i" if "i \<in> centries s" for i
    using that assms(2) by (auto simp: set_ent_def)
  then have "keyed (ws_ents (set_ent ent e s)) (wc_set (ws_cache s)) = keyed (ws_ents s) (wc_set (ws_cache s))"
    by (intro keyed_cong) blast
  moreover have "(\<Sum>i\<in>centries s. we_size (ws_ents (set_ent ent e s) i)) = (\<Sum>i\<in>centries s. we_size (ws_ents s i))"
    by (rule sum.cong) (simp_all add: same)
  ultimately show ?thesis using assms(1) same
    by (simp add: wc_inv_def wc_ordered_def wc_sizes_def set_ent_def [of ent e s] del: fun_upd_apply)
qed

lemma initWrCache_spec:
  assumes "wc_inv s" and "pc_wrCache p = None" and "ent \<notin> centries s"
  shows "\<exists>s'. initWrCache writeTo True ent a p s = Some (p\<lparr>pc_wrCache := Some ent\<rparr>, s') \<and> wc_inv s' \<and>
    centries s' = insert ent (centries s) \<and> wc_limit (ws_cache s') = wc_limit (ws_cache s) \<and>
    (\<exists>u. centries u = insert ent (centries s) \<and> ws_disk u = ws_disk s \<and> settles writeTo u s' \<and>
       (\<forall>i. bare (ws_ents u i) = bare (if i = ent then we_new a else ws_ents s i)))"
proof -
  have c: "ws_cache (set_ent ent (we_new a) s) = ws_cache s" by (simp add: set_ent_def)
  note inv = wc_inv_set_ent_new [OF assms(1,3), of "we_new a"]
  from wc_add_spec [OF inv, of ent writeTo] assms(3)
  obtain s' where s': "wc_add writeTo (set_ent ent (we_new a) s) ent = Some (s', True)" "wc_inv s'"
      "wc_limit (ws_cache s') = wc_limit (ws_cache s)" "centries s' = insert ent (centries s)"
      "settles writeTo (fst (set_add (touch (set_ent ent (we_new a) s) ent) ent)) s'"
    unfolding c by blast
  have ord: "wc_ordered (set_ent ent (we_new a) s)" using inv by (simp add: wc_inv_def)
  have new: "ent \<notin> centries (set_ent ent (we_new a) s)" using assms(3) c by simp
  note ta = touch_add [OF ord new]
  have "\<exists>u. centries u = insert ent (centries s) \<and> ws_disk u = ws_disk s \<and> settles writeTo u s' \<and>
       (\<forall>i. bare (ws_ents u i) = bare (if i = ent then we_new a else ws_ents s i))"
    by (rule exI [of _ "fst (set_add (touch (set_ent ent (we_new a) s) ent) ent)"])
      (use ta(2,4,5) s'(5) in \<open>auto simp: set_ent_def bare_def\<close>)
  then show ?thesis using assms(2) s' by (simp add: initWrCache_def)
qed

text \<open>Flushing and clearing both announce the entry's size and then empty the entry.\<close>

lemma announce_size:
  assumes "wc_inv s" and "ent \<in> centries s" and "wc_limit (ws_cache s) < 2 ^ 64"
  obtains t where "wc_update writeTo s ent (- int (we_size (ws_ents s ent))) = Some (t, True)"
    "ws_disk t = ws_disk s" "centries t = centries s" "wc_limit (ws_cache t) = wc_limit (ws_cache s)"
    "\<And>i. i \<noteq> ent \<Longrightarrow> ws_ents t i = ws_ents s i"
    "we_set (ws_ents t ent) = we_set (ws_ents s ent)" "we_adaptor (ws_ents t ent) = we_adaptor (ws_ents s ent)"
    "\<And>e d. we_size e = 0 \<Longrightarrow> we_sizeKey e = we_sizeKey (ws_ents t ent) \<Longrightarrow>
      we_lastUpdate e = we_lastUpdate (ws_ents t ent) \<Longrightarrow> wc_inv ((set_ent ent e t)\<lparr>ws_disk := d\<rparr>)"
proof -
  have ord: "wc_ordered s" using assms(1) by (simp add: wc_inv_def)
  note rk = rekey_props [OF ord assms(2)]
  define t where "t = (rekey s ent)\<lparr>ws_cache := (ws_cache (rekey s ent))\<lparr>wc_total :=
      wc_total (ws_cache s) - we_size (ws_ents s ent)\<rparr>\<rparr>"
  have inv: "wc_inv ((set_ent ent e t)\<lparr>ws_disk := d\<rparr>)"
    if "we_size e = 0" "we_sizeKey e = we_sizeKey (ws_ents t ent)" "we_lastUpdate e = we_lastUpdate (ws_ents t ent)" for e d
    using emptied_inv [OF assms, of e d] that rk(3) by (simp add: t_def set_ent_def)
  show thesis
    by (rule that [OF wc_update_release(1) [OF assms, folded t_def] _ _ _ _ _ _ inv])
      (use rk in \<open>simp_all add: t_def\<close>)
qed

lemma flushWrCache_spec:
  assumes "wc_inv s" and "pc_wrCache p = Some ent" and "ent \<in> centries s" and "wc_limit (ws_cache s) < 2 ^ 64"
  shows "\<exists>s'. flushWrCache writeTo True p s = Some s' \<and> wc_inv s' \<and> centries s' = centries s \<and>
    wc_limit (ws_cache s') = wc_limit (ws_cache s) \<and> we_set (ws_ents s' ent) = [] \<and> we_size (ws_ents s' ent) = 0 \<and>
    ws_disk s' = fst (writeCache (writeTo (we_adaptor (ws_ents s ent))) (we_set (ws_ents s ent)) (ws_disk s)) \<and>
    we_adaptor (ws_ents s' ent) = we_adaptor (ws_ents s ent) \<and> (\<forall>i. i \<noteq> ent \<longrightarrow> ws_ents s' i = ws_ents s i)"
proof -
  obtain t where t: "wc_update writeTo s ent (- int (we_size (ws_ents s ent))) = Some (t, True)"
    "ws_disk t = ws_disk s" "centries t = centries s" "wc_limit (ws_cache t) = wc_limit (ws_cache s)"
    "\<And>i. i \<noteq> ent \<Longrightarrow> ws_ents t i = ws_ents s i"
    "we_set (ws_ents t ent) = we_set (ws_ents s ent)" "we_adaptor (ws_ents t ent) = we_adaptor (ws_ents s ent)"
    "\<And>e d. we_size e = 0 \<Longrightarrow> we_sizeKey e = we_sizeKey (ws_ents t ent) \<Longrightarrow>
      we_lastUpdate e = we_lastUpdate (ws_ents t ent) \<Longrightarrow> wc_inv ((set_ent ent e t)\<lparr>ws_disk := d\<rparr>)"
    by (rule announce_size [OF assms(1,3,4), where writeTo = writeTo], rule that) (assumption | blast)+
  obtain e d where w: "writeToDisk writeTo (ws_ents t ent) (ws_disk t) = (e, d)" by fastforce
  note e = writeToDisk_empty [OF w]
  have d: "d = fst (writeCache (writeTo (we_adaptor (ws_ents s ent))) (we_set (ws_ents s ent)) (ws_disk s))"
    using w t(2,6,7) by (auto simp: writeToDisk_def split: prod.splits option.splits)
  have "flushWrCache writeTo True p s = Some ((set_ent ent e t)\<lparr>ws_disk := d\<rparr>)"
    using assms(2) t(1) w by (simp add: flushWrCache_def)
  moreover have "wc_inv ((set_ent ent e t)\<lparr>ws_disk := d\<rparr>)" using t(8) e by simp
  ultimately show ?thesis using t(3-5,7) e d by (auto simp: set_ent_def)
qed

lemma clearWrCache_spec:
  assumes "wc_inv s" and "pc_wrCache p = Some ent" and "ent \<in> centries s" and "wc_limit (ws_cache s) < 2 ^ 64"
  shows "\<exists>s'. clearWrCache writeTo True p s = Some s' \<and> wc_inv s' \<and> centries s' = centries s \<and>
    wc_limit (ws_cache s') = wc_limit (ws_cache s) \<and> we_set (ws_ents s' ent) = [] \<and> we_size (ws_ents s' ent) = 0 \<and>
    we_adaptor (ws_ents s' ent) = we_adaptor (ws_ents s ent) \<and> ws_disk s' = ws_disk s \<and>
    (\<forall>i. i \<noteq> ent \<longrightarrow> ws_ents s' i = ws_ents s i)"
proof -
  obtain t where t: "wc_update writeTo s ent (- int (we_size (ws_ents s ent))) = Some (t, True)"
    "ws_disk t = ws_disk s" "centries t = centries s" "wc_limit (ws_cache t) = wc_limit (ws_cache s)"
    "\<And>i. i \<noteq> ent \<Longrightarrow> ws_ents t i = ws_ents s i" "we_adaptor (ws_ents t ent) = we_adaptor (ws_ents s ent)"
    "\<And>e d. we_size e = 0 \<Longrightarrow> we_sizeKey e = we_sizeKey (ws_ents t ent) \<Longrightarrow>
      we_lastUpdate e = we_lastUpdate (ws_ents t ent) \<Longrightarrow> wc_inv ((set_ent ent e t)\<lparr>ws_disk := d\<rparr>)"
    by (rule announce_size [OF assms(1,3,4), where writeTo = writeTo], rule that) (assumption | blast)+
  let ?e = "we_clear (ws_ents t ent)"
  have "wc_inv ((set_ent ent ?e t)\<lparr>ws_disk := ws_disk t\<rparr>)"
    by (rule t(7)) (simp_all add: we_clear_def deleteDataCells_def)
  then have "wc_inv (set_ent ent ?e t)" by (simp add: set_ent_def)
  then show ?thesis using assms(2) t(1-6)
    by (simp add: clearWrCache_def) (simp add: set_ent_def we_clear_def deleteDataCells_def)
qed

text \<open>An entry that has grown by \<open>delta\<close> is announced with \<open>update\<close>.\<close>

lemma grown_update:
  assumes "wc_inv s" and "ent \<in> centries s"
    and "we_size e = we_size (ws_ents s ent) + delta" and "we_sizeKey e = we_sizeKey (ws_ents s ent)"
    and "we_lastUpdate e = we_lastUpdate (ws_ents s ent)"
    and "wc_limit (ws_cache s) + delta < 2 ^ 64"
  shows "\<exists>s'. wc_update writeTo (set_ent ent e s) ent (int delta) = Some (s', True) \<and> wc_inv s' \<and>
    centries s' = centries s \<and> wc_limit (ws_cache s') = wc_limit (ws_cache s) \<and>
    settles writeTo (set_ent ent e s) s'"
proof -
  let ?t = "set_ent ent e s"
  have t: "ws_cache ?t = ws_cache s" "ws_ents ?t ent = e" "\<And>i. i \<noteq> ent \<Longrightarrow> ws_ents ?t i = ws_ents s i"
    by (simp_all add: set_ent_def)
  have key: "we_less (ws_ents ?t i) (ws_ents ?t j) = we_less (ws_ents s i) (ws_ents s j)" for i j
    using assms(4,5) by (simp add: set_ent_def we_less_def)
  have upd: "we_lastUpdate (ws_ents ?t i) = we_lastUpdate (ws_ents s i)" for i
    using assms(5) by (simp add: set_ent_def)
  have ord: "wc_ordered ?t" using assms(1) unfolding wc_inv_def wc_ordered_def t(1) key upd by simp
  have sizes: "wc_sizes s" "wc_total (ws_cache s) \<le> wc_limit (ws_cache s)" using assms(1) by (simp_all add: wc_inv_def)
  have sum: "(\<Sum>i\<in>centries s. we_size (ws_ents ?t i)) = (\<Sum>i\<in>centries s. we_size (ws_ents s i)) + delta"
  proof -
    have "(\<Sum>i\<in>centries s - {ent}. we_size (ws_ents ?t i)) = (\<Sum>i\<in>centries s - {ent}. we_size (ws_ents s i))"
      by (rule sum.cong) (simp_all add: t(3))
    then show ?thesis
      using sum_remove_member [OF _ assms(2), of "\<lambda>i. we_size (ws_ents ?t i)"]
        sum_remove_member [OF _ assms(2), of "\<lambda>i. we_size (ws_ents s i)"] assms(3) t(2) by simp
  qed
  have "\<exists>s'. wc_update writeTo ?t ent (int delta) = Some (s', True) \<and> wc_inv s' \<and>
    wc_limit (ws_cache s') = wc_limit (ws_cache ?t) \<and> centries s' = centries ?t \<and>
    (\<forall>i. i \<notin> centries ?t \<longrightarrow> ws_ents s' i = ws_ents ?t i) \<and> settles writeTo ?t s'"
  proof (rule wc_update_spec [OF ord])
    show "ent \<in> centries ?t" using assms(2) t(1) by simp
    show "\<forall>i\<in>centries ?t - {ent}. we_size (ws_ents ?t i) \<le> we_sizeKey (ws_ents ?t i)"
      using sizes(1) t by (auto simp: wc_sizes_def)
    show "int (wc_total (ws_cache ?t)) + int delta = int (\<Sum>i\<in>centries ?t. we_size (ws_ents ?t i))"
      using sizes(1) sum unfolding t(1) wc_sizes_def by simp
    show "int (wc_total (ws_cache ?t)) + int delta < 2 ^ 64" using sizes(2) assms(6) t(1) by simp
  qed
  then show ?thesis unfolding t(1) by blast
qed

lemma updateWrCache_spec:
  assumes "wc_inv s" and "pc_wrCache p = Some ent" and "ent \<in> centries s"
    and "wc_limit (ws_cache s) + len < 2 ^ 64" and "goff \<notin> dc_goff ` set (we_set (ws_ents s ent))"
  shows "\<exists>s'. updateWrCache writeTo True data offset len capacity goff p s = Some s' \<and> wc_inv s' \<and>
    centries s' = centries s \<and> wc_limit (ws_cache s') = wc_limit (ws_cache s) \<and>
    settles writeTo (set_ent ent (fst (cacheData (ws_ents s ent) \<lparr>dc_goff = goff, dc_data = data,
      dc_offset = offset, dc_len = len, dc_capacity = capacity\<rparr>)) s) s'"
proof -
  let ?cell = "\<lparr>dc_goff = goff, dc_data = data, dc_offset = offset, dc_len = len, dc_capacity = capacity\<rparr>"
  define e where "e = fst (cacheData (ws_ents s ent) ?cell)"
  have e: "cacheData (ws_ents s ent) ?cell = (e, True)" "we_size e = we_size (ws_ents s ent) + len"
      "we_sizeKey e = we_sizeKey (ws_ents s ent)" "we_lastUpdate e = we_lastUpdate (ws_ents s ent)"
    using assms(5) by (simp_all add: e_def cacheData_def)
  from grown_update [OF assms(1,3) e(2-4) assms(4), of writeTo] show ?thesis
    using assms(2) by (auto simp: updateWrCache_def e(1))
qed

lemma appendWrCache_spec:
  assumes "wc_inv s" and "pc_wrCache p = Some ent" and "ent \<in> centries s"
    and "wc_limit (ws_cache s) + length data < 2 ^ 64"
  shows "\<exists>s' n. appendWrCache writeTo True goff data p s = Some (s', n) \<and> n \<le> length data \<and> wc_inv s' \<and>
    centries s' = centries s \<and> wc_limit (ws_cache s') = wc_limit (ws_cache s) \<and>
    n = snd (we_append (ws_ents s ent) goff data) \<and>
    settles writeTo (set_ent ent (fst (we_append (ws_ents s ent) goff data)) s) s'"
proof -
  obtain e n where e: "we_append (ws_ents s ent) goff data = (e, n)" by fastforce
  then have props: "we_size e = we_size (ws_ents s ent) + n" "n \<le> length data"
      "we_sizeKey e = we_sizeKey (ws_ents s ent)" "we_lastUpdate e = we_lastUpdate (ws_ents s ent)"
      "n = 0 \<Longrightarrow> set_ent ent e s = s \<or> we_size e = we_size (ws_ents s ent)"
    by (auto simp: we_append_def Let_def split: if_splits)
  show ?thesis
  proof (cases "n = 0")
    case False
    have "wc_limit (ws_cache s) + n < 2 ^ 64" using assms(4) props(2) by linarith
    from grown_update [OF assms(1,3) props(1,3,4) this, of writeTo] show ?thesis
      using assms(2) e False props(2) by (auto simp: appendWrCache_def)
  next
    case True
    have key: "we_less (ws_ents (set_ent ent e s) i) (ws_ents (set_ent ent e s) j) = we_less (ws_ents s i) (ws_ents s j)"
      "we_lastUpdate (ws_ents (set_ent ent e s) i) = we_lastUpdate (ws_ents s i)"
      "we_size (ws_ents (set_ent ent e s) i) = we_size (ws_ents s i)"
      "we_sizeKey (ws_ents (set_ent ent e s) i) = we_sizeKey (ws_ents s i)" for i j
      using props True by (simp_all add: set_ent_def we_less_def)
    have c: "ws_cache (set_ent ent e s) = ws_cache s" by (simp add: set_ent_def)
    have "wc_inv (set_ent ent e s)"
      using assms(1) unfolding wc_inv_def wc_ordered_def wc_sizes_def c key .
    then show ?thesis using assms(2) e True c by (simp add: appendWrCache_def settles.same)
  qed
qed

lemma releaseWrCache_spec:
  assumes "wc_inv s" and "pc_wrCache p = Some ent" and "ent \<in> centries s"
  shows "\<exists>s'. releaseWrCache True p s = (p\<lparr>pc_wrCache := None\<rparr>, s') \<and> wc_inv s' \<and>
    centries s' = centries s - {ent} \<and> wc_limit (ws_cache s') = wc_limit (ws_cache s) \<and>
    (\<forall>i. i \<noteq> ent \<longrightarrow> ws_ents s' i = ws_ents s i)"
proof -
  obtain t where t: "wc_remove s ent = (t, True)" "wc_inv t" "ws_ents t = ws_ents s"
      "wc_limit (ws_cache t) = wc_limit (ws_cache s)" "centries t = centries s - {ent}"
    using wc_remove_spec [OF assms(1,3)] by blast
  have "wc_inv (set_ent ent (deleteDataCells (ws_ents t ent)) t)"
    by (rule wc_inv_set_ent_new [OF t(2)]) (simp add: t(5))
  then show ?thesis using assms(2) t by (simp add: releaseWrCache_def) (simp add: set_ent_def)
qed

end
