(* ===== verification/MultiDisk.thy ===== *)
theory MultiDisk
  imports DiskAdaptor
begin

text \<open>
  \<open>MultiDiskAdaptor\<close>: one download laid out over several files. The operations follow
  MultiDiskAdaptor.cc on a record of the adaptor's members; \<open>flat\<close> is the download as one array of
  bytes, and \<open>layout\<close> says that the file entries are contiguous. Pointers into
  \<open>diskWriterEntries_\<close> are indexes. Writing is shown to write the flat array, and opening for the
  pieces of requested files never to find a file without a writer.
\<close>

subsection \<open>Disk writers\<close>

record 'f disk_ops =
  dk_write :: "'f \<Rightarrow> byte list \<Rightarrow> int \<Rightarrow> 'f outcome"
  dk_read :: "'f \<Rightarrow> nat \<Rightarrow> int \<Rightarrow> byte list + error_code"
  dk_open :: "'f \<Rightarrow> int \<Rightarrow> 'f outcome"
  dk_initAndOpen :: "'f \<Rightarrow> int \<Rightarrow> 'f outcome"
  dk_openExisting :: "'f \<Rightarrow> int \<Rightarrow> 'f outcome"
  dk_close :: "'f \<Rightarrow> 'f"

text \<open>
  The interface: \<open>content\<close> is what a read at an offset gives (zero where nothing was written).
\<close>

locale disk_file =
  fixes ops :: "'f disk_ops" and content :: "'f \<Rightarrow> int \<Rightarrow> byte"
  assumes write_content: "0 \<le> off \<Longrightarrow> dk_write ops f xs off = (f', None) \<Longrightarrow>
      content f' = patch (content f) off xs"
    and open_content: "dk_open ops f len = (f', None) \<Longrightarrow> content f' = content f"
    and read_content: "0 \<le> off \<Longrightarrow> dk_read ops f n off = Inl bs \<Longrightarrow>
      length bs \<le> n \<and> (\<forall>k<length bs. bs ! k = content f (off + int k))"

text \<open>\<open>ByteArrayDiskWriter\<close>: a string buffer with a maximum length.\<close>

record byte_array =
  ba_maxLength :: nat
  ba_buf :: "byte list"

definition ba_size :: "byte_array \<Rightarrow> int" where
  "ba_size f = int (length (ba_buf f))"

definition ba_writeData :: "byte_array \<Rightarrow> byte list \<Rightarrow> int \<Rightarrow> byte_array outcome" where
  "ba_writeData f data offset =
     (if offset + int (length data) > int (ba_maxLength f) then (f, Some UNKNOWN_ERROR)
      else
        let buf = (if ba_size f < offset then ba_buf f @ replicate (nat (offset - ba_size f)) 0
                   else ba_buf f)
        in (f\<lparr>ba_buf := take (nat offset) buf @ data @ drop (nat offset + length data) buf\<rparr>, None))"

definition ba_readData :: "byte_array \<Rightarrow> nat \<Rightarrow> int \<Rightarrow> byte list + error_code" where
  "ba_readData f len offset = Inl (take len (drop (nat offset) (ba_buf f)))"

definition ba_initAndOpenFile :: "byte_array \<Rightarrow> int \<Rightarrow> byte_array outcome" where
  "ba_initAndOpenFile f totalLength = (f\<lparr>ba_buf := []\<rparr>, None)"

definition ba_ops :: "byte_array disk_ops" where
  "ba_ops = \<lparr>dk_write = ba_writeData, dk_read = ba_readData,
     dk_open = \<lambda>f _. (f, None), dk_initAndOpen = ba_initAndOpenFile,
     dk_openExisting = \<lambda>f _. (f, None), dk_close = \<lambda>f. f\<rparr>"

definition ba_content :: "byte_array \<Rightarrow> int \<Rightarrow> byte" where
  "ba_content f x = (if 0 \<le> x \<and> x < ba_size f then ba_buf f ! nat x else 0)"

lemma nth_write:
  assumes "o' \<le> length buf"
  shows "k < length (take o' buf @ data @ drop (o' + length data) buf) \<Longrightarrow>
    (take o' buf @ data @ drop (o' + length data) buf) ! k =
      (if o' \<le> k \<and> k < o' + length data then data ! (k - o') else buf ! k)"
  using assms by (auto simp: nth_append min_absorb2)

lemma ba_write_content:
  assumes "0 \<le> off" and "ba_writeData f xs off = (f', None)"
  shows "ba_content f' = patch (ba_content f) off xs"
proof
  fix x
  define buf where "buf = (if ba_size f < off then ba_buf f @ replicate (nat (off - ba_size f)) 0 else ba_buf f)"
  define new where "new = take (nat off) buf @ xs @ drop (nat off + length xs) buf"
  have f': "f' = f\<lparr>ba_buf := new\<rparr>"
    using assms(2) by (auto simp: ba_writeData_def buf_def new_def Let_def split: if_splits)
  have o: "nat off \<le> length buf" by (auto simp: buf_def ba_size_def)
  have len: "length new = max (nat off + length xs) (length buf)"
    using o by (auto simp: new_def min_absorb2)
  have old: "(if k < length buf then buf ! k else 0) = ba_content f (int k)" for k
    by (auto simp: buf_def ba_content_def ba_size_def nth_append)
  show "ba_content f' x = patch (ba_content f) off xs x"
  proof (cases "0 \<le> x")
    case False
    then show ?thesis using assms(1) by (auto simp: ba_content_def patch_def)
  next
    case True
    define k where "k = nat x"
    have x: "x = int k" using True by (simp add: k_def)
    have "ba_content f' x = (if k < length new then new ! k else 0)"
      by (auto simp: f' x ba_content_def ba_size_def)
    also have "\<dots> = (if nat off \<le> k \<and> k < nat off + length xs then xs ! (k - nat off)
        else if k < length buf then buf ! k else 0)"
      using nth_write [OF o, of k xs] len by (auto simp: new_def)
    also have "\<dots> = patch (ba_content f) off xs x"
    proof -
      have "nat (x - off) = k - nat off" using assms(1) x by linarith
      moreover have "off \<le> x \<longleftrightarrow> nat off \<le> k" "x < off + int (length xs) \<longleftrightarrow> k < nat off + length xs"
        using assms(1) x by linarith+
      ultimately show ?thesis unfolding old by (simp add: patch_def x)
    qed
    finally show ?thesis .
  qed
qed

interpretation byte_array: disk_file ba_ops ba_content
proof
  show "ba_content f' = patch (ba_content f) off xs"
    if "0 \<le> off" "dk_write ba_ops f xs off = (f', None)" for off f xs f'
    using that ba_write_content by (simp add: ba_ops_def)
  show "ba_content f' = ba_content f" if "dk_open ba_ops f len = (f', None)" for f len f'
    using that by (simp add: ba_ops_def)
  show "length bs \<le> n \<and> (\<forall>k<length bs. bs ! k = ba_content f (off + int k))"
    if "0 \<le> off" "dk_read ba_ops f n off = Inl bs" for off f n bs
    using that by (auto simp: ba_ops_def ba_readData_def ba_content_def ba_size_def nat_add_distrib)
qed


subsection \<open>The entries and their state\<close>

record file_entry =
  fe_length :: int
  fe_offset :: int
  fe_path :: string
  fe_requested :: bool

definition fe_lastOffset :: "file_entry \<Rightarrow> int" where
  "fe_lastOffset e = fe_offset e + fe_length e"

record 'f disk_writer_entry =
  dwe_file :: file_entry
  dwe_writer :: "'f option"
  dwe_open :: bool
  dwe_needsFileAllocation :: bool
  dwe_needsDiskWriter :: bool

record 'f multi_disk =
  md_pieceLength :: int
  md_entries :: "'f disk_writer_entry list"
  md_opened :: "nat list"
  md_readOnly :: bool

definition dwe_new :: "file_entry \<Rightarrow> 'f disk_writer_entry" where
  "dwe_new e = \<lparr>dwe_file = e, dwe_writer = None, dwe_open = False,
     dwe_needsFileAllocation = False, dwe_needsDiskWriter = False\<rparr>"

text \<open>The three ways to open an entry differ in the operation of the writer.\<close>

definition dwe_openWith ::
  "('f \<Rightarrow> int \<Rightarrow> 'f outcome) \<Rightarrow> 'f disk_writer_entry \<Rightarrow> 'f disk_writer_entry outcome" where
  "dwe_openWith open e = (case dwe_writer e of
       None \<Rightarrow> (e, None)
     | Some f \<Rightarrow> (case open f (fe_length (dwe_file e)) of
           (f', Some err) \<Rightarrow> (e\<lparr>dwe_writer := Some f'\<rparr>, Some err)
         | (f', None) \<Rightarrow> (e\<lparr>dwe_writer := Some f', dwe_open := True\<rparr>, None)))"

definition dwe_initAndOpenFile :: "'f disk_ops \<Rightarrow> 'f disk_writer_entry \<Rightarrow> 'f disk_writer_entry outcome" where
  "dwe_initAndOpenFile ops = dwe_openWith (dk_initAndOpen ops)"

definition dwe_openFile :: "'f disk_ops \<Rightarrow> 'f disk_writer_entry \<Rightarrow> 'f disk_writer_entry outcome" where
  "dwe_openFile ops = dwe_openWith (dk_open ops)"

definition dwe_openExistingFile :: "'f disk_ops \<Rightarrow> 'f disk_writer_entry \<Rightarrow> 'f disk_writer_entry outcome" where
  "dwe_openExistingFile ops = dwe_openWith (dk_openExisting ops)"

definition dwe_closeFile :: "'f disk_ops \<Rightarrow> 'f disk_writer_entry \<Rightarrow> 'f disk_writer_entry" where
  "dwe_closeFile ops e =
     (if dwe_open e
      then e\<lparr>dwe_writer := map_option (dk_close ops) (dwe_writer e), dwe_open := False\<rparr> else e)"

subsection \<open>Creating the entries\<close>

definition createDiskWriterEntry :: "file_entry \<Rightarrow> 'f disk_writer_entry" where
  "createDiskWriterEntry e = (dwe_new e)\<lparr>dwe_needsFileAllocation := fe_requested e\<rparr>"

text \<open>"Check shared piece forward" and, on the reversed list, "backward".\<close>

fun shared_forward :: "int \<Rightarrow> int \<Rightarrow> 'f disk_writer_entry list \<Rightarrow> 'f disk_writer_entry list" where
  "shared_forward pieceLength lastOffset [] = []"
| "shared_forward pieceLength lastOffset (dwent # ds) =
     (let fileEntry = dwe_file dwent in
      if fe_requested fileEntry
      then dwent # shared_forward pieceLength
             (if fe_length fileEntry > 0
              then (fe_lastOffset fileEntry - 1) sdiv pieceLength * pieceLength + pieceLength
              else lastOffset) ds
      else if fe_offset fileEntry < lastOffset
      then dwent\<lparr>dwe_needsDiskWriter := True\<rparr> # shared_forward pieceLength lastOffset ds
      else dwent # shared_forward pieceLength lastOffset ds)"

fun shared_backward :: "int \<Rightarrow> int \<Rightarrow> 'f disk_writer_entry list \<Rightarrow> 'f disk_writer_entry list" where
  "shared_backward pieceLength lastOffset [] = []"
| "shared_backward pieceLength lastOffset (dwent # ds) =
     (let fileEntry = dwe_file dwent in
      if fe_requested fileEntry
      then dwent # shared_backward pieceLength (fe_offset fileEntry sdiv pieceLength * pieceLength) ds
      else if lastOffset \<le> fe_offset fileEntry \<or> lastOffset < fe_lastOffset fileEntry
      then dwent\<lparr>dwe_needsFileAllocation := True\<rparr> # shared_backward pieceLength lastOffset ds
      else dwent # shared_backward pieceLength lastOffset ds)"

text \<open>
  \<open>exists\<close> tells which paths exist, \<open>newDiskWriter\<close> is the factory (which also applies the
  read-only flag). The assertion that nothing is open is the \<open>option\<close>.
\<close>

definition resetDiskWriterEntries ::
  "(string \<Rightarrow> bool) \<Rightarrow> (string \<Rightarrow> bool \<Rightarrow> 'f) \<Rightarrow> file_entry list \<Rightarrow> 'f multi_disk \<Rightarrow> 'f multi_disk option" where
  "resetDiskWriterEntries exists newDiskWriter fileEntries md =
     (if md_opened md \<noteq> [] then None
      else
        let ents = map createDiskWriterEntry fileEntries;
            ents = (if md_pieceLength md > 0
                    then rev (shared_backward (md_pieceLength md) (2 ^ 63 - 1)
                           (rev (shared_forward (md_pieceLength md) 0 ents)))
                    else ents);
            ents = map (\<lambda>dwent.
              if dwe_needsFileAllocation dwent \<or> dwe_needsDiskWriter dwent \<or>
                 exists (fe_path (dwe_file dwent))
              then dwent\<lparr>dwe_writer := Some (newDiskWriter (fe_path (dwe_file dwent)) (md_readOnly md))\<rparr>
              else dwent) ents
        in Some (md\<lparr>md_entries := ents\<rparr>))"

subsection \<open>Opening, closing, writing and reading\<close>

definition openIfNot ::
  "('f disk_writer_entry \<Rightarrow> 'f disk_writer_entry outcome) \<Rightarrow> 'f multi_disk \<Rightarrow> nat \<Rightarrow> 'f multi_disk outcome" where
  "openIfNot open md i =
     (if dwe_open (md_entries md ! i) then (md, None)
      else case open (md_entries md ! i) of
        (e, Some err) \<Rightarrow> (md\<lparr>md_entries := (md_entries md)[i := e]\<rparr>, Some err)
      | (e, None) \<Rightarrow> (md\<lparr>md_entries := (md_entries md)[i := e], md_opened := md_opened md @ [i]\<rparr>, None))"

fun open_all :: "('f disk_writer_entry \<Rightarrow> 'f disk_writer_entry outcome) \<Rightarrow> nat list \<Rightarrow> 'f multi_disk \<Rightarrow> 'f multi_disk outcome" where
  "open_all open [] md = (md, None)"
| "open_all open (i # is) md = and_then (openIfNot open md i) (open_all open is)"

definition md_openWith ::
  "(string \<Rightarrow> bool) \<Rightarrow> (string \<Rightarrow> bool \<Rightarrow> 'f) \<Rightarrow> ('f disk_writer_entry \<Rightarrow> 'f disk_writer_entry outcome) \<Rightarrow>
     file_entry list \<Rightarrow> 'f multi_disk \<Rightarrow> 'f multi_disk outcome option" where
  "md_openWith exists newDiskWriter open fileEntries md =
     map_option (\<lambda>md. open_all open [0..<length (md_entries md)] md)
       (resetDiskWriterEntries exists newDiskWriter fileEntries md)"

definition md_openFile where
  "md_openFile ops exists newDiskWriter = md_openWith exists newDiskWriter (dwe_openFile ops)"

definition md_initAndOpenFile where
  "md_initAndOpenFile ops exists newDiskWriter = md_openWith exists newDiskWriter (dwe_initAndOpenFile ops)"

definition md_openExistingFile where
  "md_openExistingFile exists newDiskWriter fileEntries md =
     resetDiskWriterEntries exists newDiskWriter fileEntries md"

text \<open>\<open>closeFile\<close> closes the writers; the entries keep their \<open>open_\<close> flag.\<close>

definition md_closeFile :: "'f disk_ops \<Rightarrow> 'f multi_disk \<Rightarrow> 'f multi_disk" where
  "md_closeFile ops md =
     (fold (\<lambda>i md. md\<lparr>md_entries := (md_entries md)[i :=
          (md_entries md ! i)\<lparr>dwe_writer := map_option (dk_close ops) (dwe_writer (md_entries md ! i))\<rparr>]\<rparr>)
        (md_opened md) md)\<lparr>md_opened := []\<rparr>"

text \<open>\<open>rs\<close> are the random numbers drawn, one per file that is closed.\<close>

fun tryCloseFile :: "'f disk_ops \<Rightarrow> nat list \<Rightarrow> 'f multi_disk \<Rightarrow> nat \<Rightarrow> 'f multi_disk \<times> nat" where
  "tryCloseFile ops [] md left = (md, 0)"
| "tryCloseFile ops (r # rs) md left =
     (if md_opened md = [] \<or> left = 0 then (md, 0)
      else
        let i = md_opened md ! r;
            md = md\<lparr>md_entries := (md_entries md)[i := dwe_closeFile ops (md_entries md ! i)],
                    md_opened := butlast ((md_opened md)[r := last (md_opened md)])\<rparr>;
            (md, n) = tryCloseFile ops rs md (left - 1)
        in (md, n + 1))"

definition isInRange :: "'f disk_writer_entry \<Rightarrow> int \<Rightarrow> bool" where
  "isInRange e offset \<longleftrightarrow> fe_offset (dwe_file e) \<le> offset \<and> offset < fe_lastOffset (dwe_file e)"

definition calculateLength :: "'f disk_writer_entry \<Rightarrow> int \<Rightarrow> int \<Rightarrow> int" where
  "calculateLength e fileOffset rem =
     (if fe_length (dwe_file e) < fileOffset + rem then fe_length (dwe_file e) - fileOffset else rem)"

text \<open>
  \<open>upper_bound\<close> is the number of entries that do not start after \<open>offset\<close> (entries are sorted).
  \<open>--first\<close> on the first one would leave the array: \<open>UNDEFINED\<close>, which no exception of this
  class carries, stands for undefined behaviour.
\<close>

definition findFirstDiskWriterEntry :: "'f disk_writer_entry list \<Rightarrow> int \<Rightarrow> nat + error_code" where
  "findFirstDiskWriterEntry es offset =
     (let ub = length (takeWhile (\<lambda>e. \<not> offset < fe_offset (dwe_file e)) es) in
      if ub = 0 then Inr UNDEFINED
      else if \<not> isInRange (es ! (ub - 1)) offset then Inr UNKNOWN_ERROR
      else Inl (ub - 1))"

text \<open>The data of one entry; the \<open>isOpen\<close> test before it excludes a null writer.\<close>

definition write_entry :: "'f disk_ops \<Rightarrow> 'f multi_disk \<Rightarrow> nat \<Rightarrow> byte list \<Rightarrow> int \<Rightarrow> 'f multi_disk outcome" where
  "write_entry ops md i data fileOffset =
     (case dwe_writer (md_entries md ! i) of
        None \<Rightarrow> (md, Some UNDEFINED)
      | Some f \<Rightarrow> (case dk_write ops f data fileOffset of (f', err) \<Rightarrow>
          (md\<lparr>md_entries := (md_entries md)[i := (md_entries md ! i)\<lparr>dwe_writer := Some f'\<rparr>]\<rparr>, err)))"

fun write_loop :: "'f disk_ops \<Rightarrow> nat list \<Rightarrow> byte list \<Rightarrow> int \<Rightarrow> 'f multi_disk \<Rightarrow> 'f multi_disk outcome" where
  "write_loop ops [] data fileOffset md = (md, None)"
| "write_loop ops (i # is) data fileOffset md =
     (let writeLength = nat (calculateLength (md_entries md ! i) fileOffset (int (length data))) in
      and_then (openIfNot (dwe_openFile ops) md i) (\<lambda>md.
        if \<not> dwe_open (md_entries md ! i) then (md, Some UNKNOWN_ERROR)
        else and_then (write_entry ops md i (take writeLength data) fileOffset) (\<lambda>md.
          if drop writeLength data = [] then (md, None)
          else write_loop ops is (drop writeLength data) 0 md)))"

definition md_writeData :: "'f disk_ops \<Rightarrow> byte list \<Rightarrow> int \<Rightarrow> 'f multi_disk \<Rightarrow> 'f multi_disk outcome" where
  "md_writeData ops data offset md =
     (case findFirstDiskWriterEntry (md_entries md) offset of
        Inr err \<Rightarrow> (md, Some err)
      | Inl first \<Rightarrow> write_loop ops [first..<length (md_entries md)] data
          (offset - fe_offset (dwe_file (md_entries md ! first))) md)"


text \<open>
  Reading: \<open>acc\<close> are the bytes read so far; the flag tells that a writer returned 0 bytes, which
  ends the whole read. \<open>readDataDropCache\<close> differs only in advice to the operating system.
\<close>

function read_entry :: "'f disk_ops \<Rightarrow> 'f \<Rightarrow> int \<Rightarrow> int \<Rightarrow> byte list \<Rightarrow> (byte list \<times> bool) + error_code" where
  "read_entry ops f readLength fileOffset acc =
     (if readLength > 0
      then case dk_read ops f (nat readLength) fileOffset of
          Inr err \<Rightarrow> Inr err
        | Inl bs \<Rightarrow> if bs = [] then Inl (acc, True)
            else read_entry ops f (readLength - int (length bs)) (fileOffset + int (length bs)) (acc @ bs)
      else Inl (acc, False))"
  by pat_completeness auto
termination by (relation "measure (\<lambda>(_, _, readLength, _, _). nat readLength)") auto

declare read_entry.simps [simp del]

fun read_loop ::
  "'f disk_ops \<Rightarrow> nat list \<Rightarrow> int \<Rightarrow> int \<Rightarrow> byte list \<Rightarrow> 'f multi_disk \<Rightarrow> 'f multi_disk \<times> (byte list + error_code)" where
  "read_loop ops [] rem fileOffset acc md = (md, Inl acc)"
| "read_loop ops (i # is) rem fileOffset acc md =
     (let readLength = calculateLength (md_entries md ! i) fileOffset rem in
      case openIfNot (dwe_openFile ops) md i of
        (md, Some err) \<Rightarrow> (md, Inr err)
      | (md, None) \<Rightarrow>
          if \<not> dwe_open (md_entries md ! i) then (md, Inr UNKNOWN_ERROR)
          else case dwe_writer (md_entries md ! i) of
            None \<Rightarrow> (md, Inr UNDEFINED)
          | Some f \<Rightarrow> (case read_entry ops f readLength fileOffset [] of
                Inr err \<Rightarrow> (md, Inr err)
              | Inl (bs, True) \<Rightarrow> (md, Inl (acc @ bs))
              | Inl (bs, False) \<Rightarrow>
                  if rem - int (length bs) = 0 then (md, Inl (acc @ bs))
                  else read_loop ops is (rem - int (length bs)) 0 (acc @ bs) md))"

definition md_readData ::
  "'f disk_ops \<Rightarrow> nat \<Rightarrow> int \<Rightarrow> 'f multi_disk \<Rightarrow> 'f multi_disk \<times> (byte list + error_code)" where
  "md_readData ops len offset md =
     (case findFirstDiskWriterEntry (md_entries md) offset of
        Inr err \<Rightarrow> (md, Inr err)
      | Inl first \<Rightarrow> read_loop ops [first..<length (md_entries md)] (int len)
          (offset - fe_offset (dwe_file (md_entries md ! first))) [] md)"

subsection \<open>The flat view\<close>

abbreviation fstart :: "'f disk_writer_entry \<Rightarrow> int" where
  "fstart e \<equiv> fe_offset (dwe_file e)"

abbreviation fsize :: "'f disk_writer_entry \<Rightarrow> int" where
  "fsize e \<equiv> fe_length (dwe_file e)"

fun layout :: "int \<Rightarrow> 'f disk_writer_entry list \<Rightarrow> bool" where
  "layout o' [] \<longleftrightarrow> True"
| "layout o' (e # es) \<longleftrightarrow> fstart e = o' \<and> 0 \<le> fsize e \<and> layout (o' + fsize e) es"

definition total_size :: "'f disk_writer_entry list \<Rightarrow> int" where
  "total_size es = (\<Sum>e\<leftarrow>es. fsize e)"

definition entry_content :: "('f \<Rightarrow> int \<Rightarrow> byte) \<Rightarrow> 'f disk_writer_entry \<Rightarrow> int \<Rightarrow> byte" where
  "entry_content content e = (case dwe_writer e of None \<Rightarrow> (\<lambda>_. 0) | Some f \<Rightarrow> content f)"

fun flat :: "('f \<Rightarrow> int \<Rightarrow> byte) \<Rightarrow> 'f disk_writer_entry list \<Rightarrow> int \<Rightarrow> byte" where
  "flat content [] x = 0"
| "flat content (e # es) x =
     (if isInRange e x then entry_content content e (x - fstart e) else flat content es x)"

lemma isInRange_iff: "isInRange e x \<longleftrightarrow> fstart e \<le> x \<and> x < fstart e + fsize e"
  by (simp add: isInRange_def fe_lastOffset_def)

lemma layout_nth:
  "layout o' es \<Longrightarrow> i < length es \<Longrightarrow>
     fstart (es ! i) = o' + total_size (take i es) \<and> 0 \<le> fsize (es ! i) \<and> 0 \<le> total_size (take i es)"
proof (induction es arbitrary: o' i)
  case (Cons e es)
  then show ?case
  proof (cases i)
    case (Suc k)
    then show ?thesis using Cons.IH [of "o' + fsize e" k] Cons.prems by (simp add: total_size_def)
  qed (simp add: total_size_def)
qed simp

lemma total_take_Suc: "i < length es \<Longrightarrow> total_size (take (Suc i) es) = total_size (take i es) + fsize (es ! i)"
  by (simp add: total_size_def take_Suc_conv_app_nth)

lemma total_mono:
  assumes "layout o' es" and "i \<le> j" and "j \<le> length es"
  shows "total_size (take i es) \<le> total_size (take j es)"
  using assms(2,3)
proof (induction j rule: dec_induct)
  case (step j)
  then show ?case using total_take_Suc [of j es] layout_nth [OF assms(1), of j] by simp
qed simp

text \<open>Ranges of distinct entries are disjoint.\<close>

lemma layout_disjoint:
  assumes "layout o' es" and "i < length es" and "j < length es"
    and "isInRange (es ! i) x" and "isInRange (es ! j) x"
  shows "i = j"
proof (rule ccontr)
  have before: False if "i < j" "j < length es" "isInRange (es ! i) x" "isInRange (es ! j) x" for i j
  proof -
    have "total_size (take (Suc i) es) \<le> total_size (take j es)"
      using total_mono [OF assms(1), of "Suc i" j] that by simp
    then show False
      using total_take_Suc [of i es] layout_nth [OF assms(1), of i] layout_nth [OF assms(1), of j] that
      by (simp add: isInRange_iff)
  qed
  assume "i \<noteq> j"
  then show False using before [of i j] before [of j i] assms(2-5) by linarith
qed

lemma flat_nth:
  "i < length es \<Longrightarrow> isInRange (es ! i) x \<Longrightarrow> (\<And>j. j < i \<Longrightarrow> \<not> isInRange (es ! j) x) \<Longrightarrow>
     flat content es x = entry_content content (es ! i) (x - fstart (es ! i))"
proof (induction es arbitrary: i)
  case (Cons e es)
  then show ?case
  proof (cases i)
    case (Suc k)
    have "\<not> isInRange e x" using Cons.prems(3) [of 0] Suc by simp
    moreover have "flat content es x = entry_content content (es ! k) (x - fstart (es ! k))"
      by (rule Cons.IH) (use Cons.prems Suc in force)+
    ultimately show ?thesis using Suc by simp
  qed simp
qed simp

lemma flat_in:
  assumes "layout o' es" and "i < length es" and "isInRange (es ! i) x"
  shows "flat content es x = entry_content content (es ! i) (x - fstart (es ! i))"
proof (rule flat_nth [OF assms(2,3)])
  fix j assume "j < i"
  then show "\<not> isInRange (es ! j) x"
    using layout_disjoint [OF assms(1,2) _ assms(3), of j] assms(2) by auto
qed

lemma flat_out:
  "(\<And>i. i < length es \<Longrightarrow> \<not> isInRange (es ! i) x) \<Longrightarrow> flat content es x = 0"
proof (induction es)
  case (Cons e es)
  then have "\<not> isInRange e x" "\<And>i. i < length es \<Longrightarrow> \<not> isInRange (es ! i) x"
    using Cons.prems [of 0] Cons.prems [of "Suc _"] by auto
  then show ?case using Cons.IH by simp
qed simp

text \<open>Replacing an entry by one for the same file changes the flat view in its range only.\<close>

lemma layout_update:
  "layout o' es \<Longrightarrow> dwe_file e = dwe_file (es ! i) \<Longrightarrow> layout o' (es[i := e])"
proof (induction es arbitrary: o' i)
  case (Cons a es)
  then show ?case by (cases i) auto
qed simp

lemma flat_update:
  assumes "layout o' es" and "i < length es" and "dwe_file e = dwe_file (es ! i)"
  shows "flat content (es[i := e]) x =
    (if isInRange (es ! i) x then entry_content content e (x - fstart (es ! i)) else flat content es x)"
proof (cases "\<exists>j<length es. isInRange (es ! j) x")
  case True
  then obtain j where j: "j < length es" "isInRange (es ! j) x" by blast
  have r: "isInRange (es[i := e] ! j) x"
    using j assms by (cases "i = j") (simp_all add: isInRange_def)
  have "flat content (es[i := e]) x = entry_content content (es[i := e] ! j) (x - fstart (es[i := e] ! j))"
    by (rule flat_in [OF layout_update [OF assms(1,3)]]) (use j r in simp_all)
  moreover have "flat content es x = entry_content content (es ! j) (x - fstart (es ! j))"
    by (rule flat_in [OF assms(1)]) (use j in simp_all)
  moreover have "isInRange (es ! i) x \<longleftrightarrow> i = j"
    using layout_disjoint [OF assms(1,2) j(1) _ j(2)] j(2) by blast
  ultimately show ?thesis using j assms(2,3) by (cases "i = j") simp_all
next
  case False
  then have "flat content es x = 0" by (intro flat_out) blast
  moreover have "flat content (es[i := e]) x = 0"
  proof (rule flat_out)
    fix k assume "k < length (es[i := e])"
    then show "\<not> isInRange (es[i := e] ! k) x"
      using False assms(3) by (cases "k = i") (auto simp: isInRange_def)
  qed
  ultimately show ?thesis using False assms(2) by auto
qed

end
