(* ===== verification/MultiDiskProps.thy ===== *)
theory MultiDiskProps
  imports MultiDisk
begin

text \<open>
  \<open>MultiDiskAdaptor\<close> writes and reads the flat array of the download, and the marking of shared
  pieces in \<open>resetDiskWriterEntries\<close> gives a writer to every file that shares a piece with a
  requested one.
\<close>

subsection \<open>Opening and writing on the flat view\<close>

definition files :: "'f multi_disk \<Rightarrow> file_entry list" where
  "files md = map dwe_file (md_entries md)"

lemma layout_files: "map dwe_file es = map dwe_file es' \<Longrightarrow> layout o' es = layout o' es'"
proof (induction es arbitrary: o' es')
  case (Cons e es)
  then show ?case by (cases es') auto
qed simp

lemma files_nth: "files md' = files md \<Longrightarrow> i < length (md_entries md) \<Longrightarrow>
    dwe_file (md_entries md' ! i) = dwe_file (md_entries md ! i) \<and> i < length (md_entries md')"
  unfolding files_def by (metis length_map nth_map)

lemma files_length: "files md' = files md \<Longrightarrow> length (md_entries md') = length (md_entries md)"
  unfolding files_def by (metis length_map)

lemma total_size_files: "total_size (md_entries md) = sum_list (map fe_length (files md))"
  by (simp add: total_size_def files_def comp_def)

lemma files_total: "files md' = files md \<Longrightarrow> total_size (md_entries md') = total_size (md_entries md)"
  by (simp only: total_size_files)

lemma map_update_same: "f e = f (es ! i) \<Longrightarrow> map f (es[i := e]) = map f es"
  by (cases "i < length es") (auto simp: map_update list_update_same_conv list_update_beyond)

lemma files_update:
  "dwe_file e = dwe_file (md_entries md ! i) \<Longrightarrow> files (md\<lparr>md_entries := (md_entries md)[i := e]\<rparr>) = files md"
  by (simp add: files_def map_update_same)

context disk_file
begin

lemma dwe_openFile_ok:
  assumes "dwe_openFile ops e = (e', None)"
  shows "dwe_file e' = dwe_file e \<and> entry_content content e' = entry_content content e"
  using assms open_content
  by (auto simp: dwe_openFile_def dwe_openWith_def entry_content_def split: option.splits prod.splits)

lemma openIfNot_ok:
  assumes "openIfNot (dwe_openFile ops) md i = (md', None)" and "i < length (md_entries md)"
    and "layout o' (md_entries md)"
  shows "files md' = files md \<and> flat content (md_entries md') = flat content (md_entries md)"
proof (cases "dwe_open (md_entries md ! i)")
  case True
  then show ?thesis using assms(1) by (simp add: openIfNot_def)
next
  case False
  then obtain e where e: "dwe_openFile ops (md_entries md ! i) = (e, None)"
      and md': "md' = md\<lparr>md_entries := (md_entries md)[i := e], md_opened := md_opened md @ [i]\<rparr>"
    using assms(1) by (auto simp: openIfNot_def split: prod.splits option.splits)
  note same = dwe_openFile_ok [OF e]
  have "flat content (md_entries md') x = flat content (md_entries md) x" for x
    using flat_update [OF assms(3,2), of e content x] flat_in [OF assms(3,2), of x content] same md' by auto
  moreover have "files md' = files md" using same md' files_update [of e md i] by (simp add: files_def)
  ultimately show ?thesis by blast
qed

lemma write_entry_ok:
  assumes "write_entry ops md i xs fo = (md', None)" and "i < length (md_entries md)"
    and "layout o' (md_entries md)" and "0 \<le> fo" and "fo + int (length xs) \<le> fsize (md_entries md ! i)"
  shows "files md' = files md \<and>
    flat content (md_entries md') = patch (flat content (md_entries md)) (fstart (md_entries md ! i) + fo) xs"
proof -
  let ?e = "md_entries md ! i"
  obtain f f' where f: "dwe_writer ?e = Some f" "dk_write ops f xs fo = (f', None)"
      and md': "md' = md\<lparr>md_entries := (md_entries md)[i := ?e\<lparr>dwe_writer := Some f'\<rparr>]\<rparr>"
    using assms(1) by (auto simp: write_entry_def split: option.splits prod.splits)
  have c: "content f' = patch (content f) fo xs" using write_content [OF assms(4) f(2)] .
  have "flat content (md_entries md') x = patch (flat content (md_entries md)) (fstart ?e + fo) xs x" for x
  proof (cases "isInRange ?e x")
    case True
    have "flat content (md_entries md') x = content f' (x - fstart ?e)"
      using flat_update [OF assms(3,2), of "?e\<lparr>dwe_writer := Some f'\<rparr>" content x] True md'
      by (simp add: entry_content_def)
    moreover have "flat content (md_entries md) x = content f (x - fstart ?e)"
      using flat_in [OF assms(3,2) True, of content] f(1) by (simp add: entry_content_def)
    moreover have "nat (x - fstart ?e - fo) = nat (x - (fstart ?e + fo))" by (simp add: algebra_simps)
    ultimately show ?thesis unfolding c patch_def by auto
  next
    case False
    then have "\<not> (fstart ?e + fo \<le> x \<and> x < fstart ?e + fo + int (length xs))"
      using assms(4,5) by (auto simp: isInRange_iff)
    then show ?thesis using flat_update [OF assms(3,2), of "?e\<lparr>dwe_writer := Some f'\<rparr>" content x] False md'
      by (auto simp: patch_def)
  qed
  moreover have "files md' = files md" using md' files_update [of "?e\<lparr>dwe_writer := Some f'\<rparr>" md i] by simp
  ultimately show ?thesis by blast
qed

lemma layout_of_files: "files md' = files md \<Longrightarrow> layout o' (md_entries md) \<Longrightarrow> layout o' (md_entries md')"
  using layout_files [of "md_entries md'" "md_entries md"] by (simp add: files_def)

lemma calculateLength_min:
  "calculateLength e fo rem = min rem (fsize e - fo)"
  by (auto simp: calculateLength_def)

lemma write_loop_ok:
  "write_loop ops [i..<length (md_entries md)] xs fo md = (md', None) \<Longrightarrow> i < length (md_entries md) \<Longrightarrow>
   layout 0 (md_entries md) \<Longrightarrow> 0 \<le> fo \<Longrightarrow> fo \<le> fsize (md_entries md ! i) \<Longrightarrow>
   fstart (md_entries md ! i) + fo + int (length xs) \<le> total_size (md_entries md) \<Longrightarrow>
   files md' = files md \<and>
   flat content (md_entries md') = patch (flat content (md_entries md)) (fstart (md_entries md ! i) + fo) xs"
proof (induction "length (md_entries md) - i" arbitrary: i xs fo md)
  case 0
  then show ?case by simp
next
  case (Suc k)
  let ?n = "length (md_entries md)"
  let ?e = "md_entries md ! i"
  define wl where "wl = nat (calculateLength ?e fo (int (length xs)))"
  have wl: "wl \<le> length xs" "fo + int wl \<le> fsize ?e" "wl = length xs \<or> fo + int wl = fsize ?e"
    using Suc.prems(4,5) by (auto simp: wl_def calculateLength_min min_def)
  have idx: "[i..<?n] = i # [Suc i..<?n]" using Suc.prems(2) by (simp add: upt_conv_Cons)
  obtain m1 where m1: "openIfNot (dwe_openFile ops) md i = (m1, None)"
    using Suc.prems(1) unfolding idx by (auto simp: and_then_ok Let_def)
  note o1 = openIfNot_ok [OF m1 Suc.prems(2,3)]
  note n1 = files_nth [OF conjunct1 [OF o1] Suc.prems(2)]
  obtain m2 where m2: "write_entry ops m1 i (take wl xs) fo = (m2, None)"
      and rest: "if drop wl xs = [] then (m2, None) = (md', None)
        else write_loop ops [Suc i..<?n] (drop wl xs) 0 m2 = (md', None)"
    using Suc.prems(1) m1 unfolding idx
    by (auto simp: and_then_ok Let_def wl_def [symmetric] split: if_splits)
  have w: "files m2 = files m1 \<and> flat content (md_entries m2) =
      patch (flat content (md_entries m1)) (fstart (md_entries m1 ! i) + fo) (take wl xs)"
    by (rule write_entry_ok [OF m2]) (use n1 wl Suc.prems layout_of_files [of m1 md] o1 in auto)
  have f2: "files m2 = files md" using w o1 by simp
  have flat2: "flat content (md_entries m2) = patch (flat content (md_entries md)) (fstart ?e + fo) (take wl xs)"
    using w o1 n1 by simp
  show ?case
  proof (cases "drop wl xs = []")
    case True
    then show ?thesis using rest f2 flat2 by simp
  next
    case False
    then have full: "fo + int wl = fsize ?e" "wl < length xs" using wl by auto
    have next': "fstart ?e + fsize ?e = total_size (take (Suc i) (md_entries md))"
      using layout_nth [OF Suc.prems(3,2)] total_take_Suc [OF Suc.prems(2)] by simp
    have Suci: "Suc i < ?n"
    proof (rule ccontr)
      assume "\<not> Suc i < ?n"
      then have "fstart ?e + fsize ?e = total_size (md_entries md)" using next' Suc.prems(2) by simp
      then show False using Suc.prems(6) full by linarith
    qed
    have len2: "length (md_entries m2) = ?n" using files_length [OF f2] .
    have lay2: "layout 0 (md_entries m2)" using layout_of_files [OF f2 Suc.prems(3)] .
    have start2: "fstart (md_entries m2 ! Suc i) = fstart ?e + fo + int wl"
      using layout_nth [OF Suc.prems(3) Suci] next' files_nth [OF f2 Suci] full by simp
    have "files md' = files m2 \<and> flat content (md_entries md') =
        patch (flat content (md_entries m2)) (fstart (md_entries m2 ! Suc i) + 0) (drop wl xs)"
      by (rule Suc.hyps(1))
        (use Suc.hyps(2) Suc.prems(6) rest False len2 Suci lay2 start2 wl(1) files_total [OF f2]
          layout_nth [OF lay2, of "Suc i"] in auto)
    then show ?thesis using f2 flat2 start2 wl(1)
      patch_append [of "flat content (md_entries md)" "fstart ?e + fo" "take wl xs" "drop wl xs"]
      by (simp add: min_absorb2)
  qed
qed

lemma findFirst_in:
  assumes "findFirstDiskWriterEntry es off = Inl i"
  shows "i < length es \<and> isInRange (es ! i) off"
proof -
  define ub where "ub = length (takeWhile (\<lambda>e. \<not> off < fstart e) es)"
  have "ub \<le> length es" by (simp add: ub_def length_takeWhile_le)
  then show ?thesis using assms
    by (auto simp: findFirstDiskWriterEntry_def ub_def [symmetric] Let_def simp del: length_greater_0_conv length_0_conv
        split: if_splits)
qed

lemma md_writeData_ok:
  assumes "md_writeData ops xs off md = (md', None)" and "layout 0 (md_entries md)"
    and "off + int (length xs) \<le> total_size (md_entries md)"
  shows "files md' = files md \<and>
    flat content (md_entries md') = patch (flat content (md_entries md)) off xs"
proof -
  obtain i where i: "findFirstDiskWriterEntry (md_entries md) off = Inl i"
      and w: "write_loop ops [i..<length (md_entries md)] xs (off - fstart (md_entries md ! i)) md = (md', None)"
    using assms(1) by (auto simp: md_writeData_def split: sum.splits)
  note r = findFirst_in [OF i]
  show ?thesis using write_loop_ok [OF w _ assms(2)] r assms(3) by (simp add: isInRange_iff)
qed

text \<open>Reading.\<close>

lemma read_entry_ok:
  "read_entry ops f rl fo acc = Inl (bs, eof) \<Longrightarrow> 0 \<le> rl \<Longrightarrow> 0 \<le> fo \<Longrightarrow>
   \<exists>zs. bs = acc @ zs \<and> int (length zs) \<le> rl \<and> (\<not> eof \<longrightarrow> int (length zs) = rl) \<and>
     (\<forall>k<length zs. zs ! k = content f (fo + int k))"
proof (induction "nat rl" arbitrary: rl fo acc rule: less_induct)
  case (less rl fo acc)
  show ?case
  proof (cases "rl > 0")
    case False
    then have "bs = acc" using less.prems unfolding read_entry.simps [of ops f rl fo acc] by simp
    then show ?thesis using False less.prems by auto
  next
    case True
    then obtain cs where cs: "dk_read ops f (nat rl) fo = Inl cs"
      using less.prems(1) by (auto simp: read_entry.simps [of ops f rl fo acc] split: sum.splits)
    have c: "length cs \<le> nat rl" "\<forall>k<length cs. cs ! k = content f (fo + int k)"
      using read_content [of fo f "nat rl" cs] cs less.prems by auto
    show ?thesis
    proof (cases "cs = []")
      case True
      then show ?thesis using less.prems \<open>rl > 0\<close> cs by (auto simp: read_entry.simps [of ops f rl fo acc])
    next
      case False
      then have "read_entry ops f (rl - int (length cs)) (fo + int (length cs)) (acc @ cs) = Inl (bs, eof)"
        using less.prems(1) \<open>rl > 0\<close> cs by (simp add: read_entry.simps [of ops f rl fo acc])
      moreover have "nat (rl - int (length cs)) < nat rl" using False \<open>rl > 0\<close> c(1) by (cases cs) auto
      ultimately have "\<exists>zs. bs = (acc @ cs) @ zs \<and> int (length zs) \<le> rl - int (length cs) \<and>
          (\<not> eof \<longrightarrow> int (length zs) = rl - int (length cs)) \<and>
          (\<forall>k<length zs. zs ! k = content f (fo + int (length cs) + int k))"
        using less.hyps [of "rl - int (length cs)" "fo + int (length cs)" "acc @ cs"] c(1) less.prems(3) \<open>rl > 0\<close>
        by simp
      then
      obtain zs where zs: "bs = (acc @ cs) @ zs" "int (length zs) \<le> rl - int (length cs)"
          "\<not> eof \<longrightarrow> int (length zs) = rl - int (length cs)"
          "\<forall>k<length zs. zs ! k = content f (fo + int (length cs) + int k)"
        by blast
      have "(cs @ zs) ! k = content f (fo + int k)" if "k < length (cs @ zs)" for k
        using that c(2) zs(4) by (cases "k < length cs") (auto simp: nth_append)
      then show ?thesis using zs by (intro exI [of _ "cs @ zs"]) auto
    qed
  qed
qed

lemma read_loop_ok:
  "read_loop ops [i..<length (md_entries md)] rem fo acc md = (md', Inl bs) \<Longrightarrow> i < length (md_entries md) \<Longrightarrow>
   layout 0 (md_entries md) \<Longrightarrow> 0 \<le> fo \<Longrightarrow> fo \<le> fsize (md_entries md ! i) \<Longrightarrow> 0 \<le> rem \<Longrightarrow>
   files md' = files md \<and> flat content (md_entries md') = flat content (md_entries md) \<and>
   (\<exists>zs. bs = acc @ zs \<and> int (length zs) \<le> rem \<and>
     (\<forall>k<length zs. zs ! k = flat content (md_entries md) (fstart (md_entries md ! i) + fo + int k)))"
proof (induction "length (md_entries md) - i" arbitrary: i rem fo acc md)
  case 0
  then show ?case by simp
next
  case (Suc n)
  let ?n = "length (md_entries md)"
  let ?e = "md_entries md ! i"
  have idx: "[i..<?n] = i # [Suc i..<?n]" using Suc.prems(2) by (simp add: upt_conv_Cons)
  define rl where "rl = calculateLength ?e fo rem"
  have rl: "0 \<le> rl" "rl \<le> rem" "fo + rl \<le> fsize ?e" "rl = rem \<or> fo + rl = fsize ?e"
    using Suc.prems(4-6) by (auto simp: rl_def calculateLength_min min_def)
  obtain m1 f ys eof where m1: "openIfNot (dwe_openFile ops) md i = (m1, None)"
      and f: "dwe_writer (md_entries m1 ! i) = Some f"
      and ys: "read_entry ops f rl fo [] = Inl (ys, eof)"
      and rest: "if eof \<or> rem - int (length ys) = 0 then (md', Inl bs) = (m1, Inl (acc @ ys) :: byte list + error_code)
        else read_loop ops [Suc i..<?n] (rem - int (length ys)) 0 (acc @ ys) m1 = (md', Inl bs)"
    using Suc.prems(1) unfolding idx
    by (auto simp: Let_def rl_def [symmetric] split: prod.splits option.splits sum.splits if_splits bool.splits)
  note o1 = openIfNot_ok [OF m1 Suc.prems(2,3)]
  have lay1: "layout 0 (md_entries m1)" using layout_of_files [of m1 md 0] o1 Suc.prems(3) by blast
  note n1 = files_nth [OF conjunct1 [OF o1] Suc.prems(2)]
  have y: "int (length ys) \<le> rl" "\<not> eof \<longrightarrow> int (length ys) = rl"
      "\<forall>k<length ys. ys ! k = content f (fo + int k)"
    using read_entry_ok [OF ys rl(1) Suc.prems(4)] by auto
  have here: "ys ! k = flat content (md_entries md) (fstart ?e + fo + int k)" if "k < length ys" for k
  proof -
    have "isInRange (md_entries m1 ! i) (fstart ?e + fo + int k)"
      using that y(1) rl(3) Suc.prems(4) n1 by (simp add: isInRange_iff)
    then have "flat content (md_entries m1) (fstart ?e + fo + int k) = content f (fo + int k)"
      using flat_in [OF lay1, of i _ content] n1 f by (simp add: entry_content_def)
    then show ?thesis using that y(3) o1 by simp
  qed
  show ?case
  proof (cases "eof \<or> rem - int (length ys) = 0")
    case True
    then show ?thesis using rest o1 here y rl by auto
  next
    case False
    then have full: "int (length ys) = rl" "fo + rl = fsize ?e" using y rl(4) by auto
    have len1: "length (md_entries m1) = ?n" using files_length [of m1 md] o1 by blast
    show ?thesis
    proof (cases "Suc i < ?n")
      case True
      have next': "fstart ?e + fsize ?e = fstart (md_entries m1 ! Suc i)"
        using layout_nth [OF Suc.prems(3,2)] total_take_Suc [OF Suc.prems(2)]
          layout_nth [OF Suc.prems(3) True] files_nth [of m1 md "Suc i"] o1 True by simp
      have "files md' = files m1 \<and> flat content (md_entries md') = flat content (md_entries m1) \<and>
        (\<exists>zs. bs = (acc @ ys) @ zs \<and> int (length zs) \<le> rem - int (length ys) \<and>
          (\<forall>k<length zs. zs ! k = flat content (md_entries m1) (fstart (md_entries m1 ! Suc i) + 0 + int k)))"
        by (rule Suc.hyps(1))
          (use Suc.hyps(2) rest False len1 True lay1 full rl(2) layout_nth [OF lay1, of "Suc i"] in auto)
      then obtain zs where zs: "files md' = files m1" "flat content (md_entries md') = flat content (md_entries m1)"
          "bs = (acc @ ys) @ zs" "int (length zs) \<le> rem - int (length ys)"
          "\<forall>k<length zs. zs ! k = flat content (md_entries m1) (fstart (md_entries m1 ! Suc i) + int k)" by auto
      have "(ys @ zs) ! k = flat content (md_entries md) (fstart ?e + fo + int k)" if "k < length (ys @ zs)" for k
      proof (cases "k < length ys")
        case True
        then show ?thesis using here by (simp add: nth_append)
      next
        case False
        then have "zs ! (k - length ys) = flat content (md_entries md)
            (fstart (md_entries m1 ! Suc i) + int (k - length ys))"
          using zs(5) that o1 by simp
        moreover have "fstart (md_entries m1 ! Suc i) + int (k - length ys) = fstart ?e + fo + int k"
          using next' full False by (simp add: of_nat_diff)
        ultimately have "zs ! (k - length ys) = flat content (md_entries md) (fstart ?e + fo + int k)" by metis
        then show ?thesis using False by (simp add: nth_append)
      qed
      then show ?thesis using zs o1 by (intro conjI exI [of _ "ys @ zs"]) auto
    next
      case False
      then have "[Suc i..<?n] = []" by simp
      then have "md' = m1" "bs = acc @ ys" using rest \<open>\<not> (eof \<or> rem - int (length ys) = 0)\<close> by auto
      then show ?thesis using o1 here y rl by auto
    qed
  qed
qed

lemma md_readData_ok:
  assumes "md_readData ops n off md = (md', Inl bs)" and "layout 0 (md_entries md)"
  shows "files md' = files md \<and> flat content (md_entries md') = flat content (md_entries md) \<and>
    length bs \<le> n \<and> (\<forall>k<length bs. bs ! k = flat content (md_entries md) (off + int k))"
proof -
  obtain i where i: "findFirstDiskWriterEntry (md_entries md) off = Inl i"
      and w: "read_loop ops [i..<length (md_entries md)] (int n) (off - fstart (md_entries md ! i)) [] md = (md', Inl bs)"
    using assms(1) by (auto simp: md_readData_def split: sum.splits)
  note r = findFirst_in [OF i]
  show ?thesis using read_loop_ok [OF w _ assms(2)] r by (simp add: isInRange_iff)
qed

end

text \<open>Both adaptors are disks for the write cache.\<close>

sublocale disk_file \<subseteq> multi: content_writer "md_writeData ops" "\<lambda>md. flat content (md_entries md)"
    "\<lambda>md. layout 0 (md_entries md)" "\<lambda>md x. x \<le> total_size (md_entries md)"
proof
  fix md md' :: "'f multi_disk" and off xs
  assume "layout 0 (md_entries md)" "off + int (length xs) \<le> total_size (md_entries md)"
    and "md_writeData ops xs off md = (md', None)"
  then show "layout 0 (md_entries md') \<and>
      (\<lambda>x. x \<le> total_size (md_entries md')) = (\<lambda>x. x \<le> total_size (md_entries md)) \<and>
      flat content (md_entries md') = patch (flat content (md_entries md)) off xs"
    using md_writeData_ok [of xs off md md'] layout_of_files [of md' md 0] files_total [of md' md] by simp
qed

context disk_file
begin

lemma multi_content_writer:
  "content_writer (md_writeData ops) (\<lambda>md. flat content (md_entries md))
     (\<lambda>md. layout 0 (md_entries md)) (\<lambda>md x. x \<le> total_size (md_entries md))"
  by (rule multi.content_writer_axioms)

end

text \<open>\<open>AbstractSingleDiskAdaptor::writeData\<close> is that of its one writer.\<close>

definition sd_writeData :: "'f disk_ops \<Rightarrow> byte list \<Rightarrow> int \<Rightarrow> 'f \<Rightarrow> 'f outcome" where
  "sd_writeData ops data offset f = dk_write ops f data offset"

definition sd_readData :: "'f disk_ops \<Rightarrow> nat \<Rightarrow> int \<Rightarrow> 'f \<Rightarrow> byte list + error_code" where
  "sd_readData ops len offset f = dk_read ops f len offset"

sublocale disk_file \<subseteq> single: content_writer "sd_writeData ops" content "\<lambda>_. True" "\<lambda>_ _. True"
  by unfold_locales (simp add: sd_writeData_def write_content)

subsection \<open>Files that share a piece with a requested file\<close>

text \<open>
  A file touches a piece (number \<open>p\<close>) if it has a byte in it or, being empty, lies inside it.
\<close>

definition touches :: "int \<Rightarrow> int \<Rightarrow> file_entry \<Rightarrow> bool" where
  "touches pl p e \<longleftrightarrow> fe_offset e < (p + 1) * pl \<and> p * pl < fe_lastOffset e"

fun file_layout :: "int \<Rightarrow> file_entry list \<Rightarrow> bool" where
  "file_layout o' [] \<longleftrightarrow> True"
| "file_layout o' (e # es) \<longleftrightarrow> fe_offset e = o' \<and> 0 \<le> fe_length e \<and> file_layout (o' + fe_length e) es"

lemma layout_of_map: "layout o' es = file_layout o' (map dwe_file es)"
  by (induction es arbitrary: o') auto

abbreviation marked :: "'f disk_writer_entry \<Rightarrow> bool" where
  "marked e \<equiv> dwe_needsFileAllocation e \<or> dwe_needsDiskWriter e"

lemma shared_forward_files [simp]: "map dwe_file (shared_forward pl l ds) = map dwe_file ds"
  by (induction pl l ds rule: shared_forward.induct) (auto simp: Let_def)

lemma shared_backward_files [simp]: "map dwe_file (shared_backward pl l ds) = map dwe_file ds"
  by (induction pl l ds rule: shared_backward.induct) (auto simp: Let_def)

lemma shared_lengths [simp]: "length (shared_forward pl l ds) = length ds" "length (shared_backward pl l ds) = length ds"
  by (metis length_map shared_forward_files, metis length_map shared_backward_files)

lemma shared_keeps_marks:
  "i < length ds \<Longrightarrow> marked (ds ! i) \<Longrightarrow> marked (shared_forward pl l ds ! i)"
  "i < length ds \<Longrightarrow> marked (ds ! i) \<Longrightarrow> marked (shared_backward pl l ds ! i)"
proof -
  show "i < length ds \<Longrightarrow> marked (ds ! i) \<Longrightarrow> marked (shared_forward pl l ds ! i)"
  proof (induction pl l ds arbitrary: i rule: shared_forward.induct)
    case (2 pl l d ds)
    then show ?case by (cases i) (auto simp: Let_def)
  qed simp
  show "i < length ds \<Longrightarrow> marked (ds ! i) \<Longrightarrow> marked (shared_backward pl l ds ! i)"
  proof (induction pl l ds arbitrary: i rule: shared_backward.induct)
    case (2 pl l d ds)
    then show ?case by (cases i) (auto simp: Let_def)
  qed simp
qed

abbreviation requested :: "'f disk_writer_entry \<Rightarrow> bool" where
  "requested e \<equiv> fe_requested (dwe_file e)"

text \<open>The end of the piece that holds the byte before \<open>x\<close>, and the start of the one that holds \<open>x\<close>.\<close>

abbreviation piece_end :: "int \<Rightarrow> int \<Rightarrow> int" where
  "piece_end pl x \<equiv> (x - 1) div pl * pl + pl"

abbreviation piece_start :: "int \<Rightarrow> int \<Rightarrow> int" where
  "piece_start pl x \<equiv> x div pl * pl"

lemma piece_mono: "0 < pl \<Longrightarrow> x \<le> y \<Longrightarrow> piece_end pl x \<le> piece_end pl y"
  "0 < pl \<Longrightarrow> x \<le> y \<Longrightarrow> piece_start pl x \<le> piece_start pl y"
  by (simp_all add: zdiv_mono1 mult_right_mono)

lemma forward_marks:
  "file_layout o' (map dwe_file ds) \<Longrightarrow> 0 < pl \<Longrightarrow> 0 \<le> o' \<Longrightarrow> l \<le> piece_end pl o' \<Longrightarrow> i < length ds \<Longrightarrow>
   \<not> requested (ds ! i) \<Longrightarrow> fstart (ds ! i) < l \<Longrightarrow> marked (shared_forward pl l ds ! i)"
proof (induction pl l ds arbitrary: o' i rule: shared_forward.induct)
  case (2 pl l d ds)
  let ?o = "o' + fsize d"
  define l' where "l' = (if requested d \<and> 0 < fsize d then piece_end pl ?o else l)"
  have d: "fstart d = o'" "0 \<le> fsize d" "file_layout ?o (map dwe_file ds)" using "2.prems" by auto
  have "piece_end pl o' \<le> piece_end pl ?o" using "2.prems"(2) d(2) by (intro piece_mono) simp_all
  then have le: "l \<le> piece_end pl ?o" using "2.prems"(4) by linarith
  have l': "l \<le> l'" "l' \<le> piece_end pl ?o" using le by (auto simp: l'_def)
  have tail: "shared_forward pl l (d # ds) ! Suc k = shared_forward pl l' ds ! k" for k
    using d "2.prems"(3) by (auto simp: Let_def l'_def fe_lastOffset_def sdiv_nonneg "2.prems"(2))
  show ?case
  proof (cases i)
    case 0
    then show ?thesis using "2.prems" d by (simp add: Let_def)
  next
    case (Suc k)
    have "marked (shared_forward pl l' ds ! k)"
    proof (cases "requested d")
      case True
      then show ?thesis using "2.IH"(1) [OF refl True d(3) "2.prems"(2), of k] l' "2.prems" Suc d
        by (auto simp: l'_def fe_lastOffset_def sdiv_nonneg split: if_splits)
    next
      case False
      then show ?thesis
        using "2.IH"(2) [OF refl False _ d(3) "2.prems"(2), of k] "2.IH"(3) [OF refl False _ d(3) "2.prems"(2), of k]
          l' "2.prems" Suc d
        by (cases "fstart d < l") (auto simp: l'_def)
    qed
    then show ?thesis using tail Suc by simp
  qed
qed simp


lemma forward_shared:
  "file_layout o' (map dwe_file ds) \<Longrightarrow> 0 < pl \<Longrightarrow> 0 \<le> o' \<Longrightarrow> l \<le> piece_end pl o' \<Longrightarrow> j < i \<Longrightarrow> i < length ds \<Longrightarrow>
   requested (ds ! j) \<Longrightarrow> 0 < fsize (ds ! j) \<Longrightarrow> \<not> requested (ds ! i) \<Longrightarrow>
   fstart (ds ! i) < piece_end pl (fe_lastOffset (dwe_file (ds ! j))) \<Longrightarrow> marked (shared_forward pl l ds ! i)"
proof (induction ds arbitrary: o' l i j)
  case (Cons d ds)
  let ?o = "o' + fsize d"
  define l' where "l' = (if requested d \<and> 0 < fsize d then piece_end pl ?o else l)"
  have d: "fstart d = o'" "0 \<le> fsize d" "file_layout ?o (map dwe_file ds)" using Cons.prems by auto
  have "piece_end pl o' \<le> piece_end pl ?o" using Cons.prems(2) d(2) by (intro piece_mono) simp_all
  then have le: "l \<le> piece_end pl ?o" using Cons.prems(4) by linarith
  have l': "l' \<le> piece_end pl ?o" using le by (auto simp: l'_def)
  have tail: "marked (shared_forward pl l (d # ds) ! Suc k) = marked (shared_forward pl l' ds ! k)" for k
    using d Cons.prems(3) by (auto simp: Let_def l'_def fe_lastOffset_def sdiv_nonneg Cons.prems(2))
  obtain k where i: "i = Suc k" "k < length ds" using Cons.prems by (cases i) auto
  have "marked (shared_forward pl l' ds ! k)"
  proof (cases j)
    case 0
    then have "l' = piece_end pl ?o" "fstart (ds ! k) < l'"
      using Cons.prems i d by (auto simp: l'_def fe_lastOffset_def)
    then show ?thesis using forward_marks [OF d(3) Cons.prems(2) _ l' i(2)] Cons.prems i d by simp
  next
    case (Suc j')
    then show ?thesis using Cons.IH [OF d(3) Cons.prems(2) _ l', of j' k] Cons.prems i d by simp
  qed
  then show ?case using tail i by simp
qed simp

lemma file_layout_append:
  "file_layout o' (xs @ ys) \<longleftrightarrow> file_layout o' xs \<and> file_layout (o' + (\<Sum>e\<leftarrow>xs. fe_length e)) ys"
  by (induction xs arbitrary: o') (auto simp: algebra_simps)

lemma file_layout_bounds:
  "file_layout o' es \<Longrightarrow> i < length es \<Longrightarrow> 0 \<le> fe_length (es ! i) \<and> o' \<le> fe_offset (es ! i) \<and>
    fe_lastOffset (es ! i) \<le> o' + (\<Sum>e\<leftarrow>es. fe_length e) \<and> 0 \<le> (\<Sum>e\<leftarrow>es. fe_length e)"
proof (induction es arbitrary: o' i)
  case (Cons e es)
  have sum: "0 \<le> (\<Sum>e\<leftarrow>es. fe_length e)" if "es \<noteq> []"
    using Cons.IH [of "o' + fe_length e" 0] Cons.prems that by simp
  show ?case
  proof (cases i)
    case 0
    then show ?thesis using Cons.prems sum by (cases "es = []") (auto simp: fe_lastOffset_def)
  next
    case (Suc k)
    then show ?thesis using Cons.IH [of "o' + fe_length e" k] Cons.prems by auto
  qed
qed simp

text \<open>The backward pass, on the reversed list: \<open>t\<close> is the end of its first file.\<close>

abbreviation sizes :: "'f disk_writer_entry list \<Rightarrow> int" where
  "sizes rs \<equiv> (\<Sum>e\<leftarrow>map dwe_file rs. fe_length e)"

lemma rev_layout_Cons:
  assumes "file_layout 0 (map dwe_file (rev (r # rs)))"
  shows "file_layout 0 (map dwe_file (rev rs))" "fstart r = sizes rs" "0 \<le> fsize r"
  using assms by (auto simp: file_layout_append rev_map [symmetric] sum_list_rev comp_def)

lemma rev_layout_sizes:
  assumes "file_layout 0 (map dwe_file (rev rs))"
  shows "0 \<le> sizes rs"
proof (cases rs)
  case (Cons r rs')
  then show ?thesis
    using file_layout_bounds [OF assms, of 0] by (simp add: rev_map [symmetric] sum_list_rev)
qed simp

lemma backward_marks:
  "file_layout 0 (map dwe_file (rev rs)) \<Longrightarrow> 0 < pl \<Longrightarrow> piece_start pl (sizes rs) \<le> l \<Longrightarrow> i < length rs \<Longrightarrow>
   \<not> requested (rs ! i) \<Longrightarrow> l < fe_lastOffset (dwe_file (rs ! i)) \<Longrightarrow> marked (shared_backward pl l rs ! i)"
proof (induction rs arbitrary: l i)
  case (Cons r rs)
  define l' where "l' = (if requested r then piece_start pl (fstart r) else l)"
  note r = rev_layout_Cons [OF Cons.prems(1)]
  have nonneg: "0 \<le> fstart r" using rev_layout_sizes [OF r(1)] r(2) by simp
  have "piece_start pl (sizes rs) \<le> piece_start pl (sizes (r # rs))"
    by (rule piece_mono) (use Cons.prems(2) r(3) in simp_all)
  then have le: "piece_start pl (sizes rs) \<le> l" using Cons.prems(3) by linarith
  then have l': "piece_start pl (sizes rs) \<le> l'" "l' \<le> l" using r(2) by (auto simp: l'_def)
  have tail: "marked (shared_backward pl l (r # rs) ! Suc k) = marked (shared_backward pl l' rs ! k)" for k
    using nonneg by (auto simp: Let_def l'_def sdiv_nonneg Cons.prems(2))
  show ?case
  proof (cases i)
    case 0
    then show ?thesis using Cons.prems by (simp add: Let_def)
  next
    case (Suc k)
    then show ?thesis using Cons.IH [OF r(1) Cons.prems(2) l'(1), of k] Cons.prems l'(2) tail by simp
  qed
qed simp

lemma backward_shared:
  "file_layout 0 (map dwe_file (rev rs)) \<Longrightarrow> 0 < pl \<Longrightarrow> piece_start pl (sizes rs) \<le> l \<Longrightarrow> j < i \<Longrightarrow> i < length rs \<Longrightarrow>
   requested (rs ! j) \<Longrightarrow> \<not> requested (rs ! i) \<Longrightarrow>
   piece_start pl (fstart (rs ! j)) < fe_lastOffset (dwe_file (rs ! i)) \<Longrightarrow> marked (shared_backward pl l rs ! i)"
proof (induction rs arbitrary: l i j)
  case (Cons r rs)
  define l' where "l' = (if requested r then piece_start pl (fstart r) else l)"
  note r = rev_layout_Cons [OF Cons.prems(1)]
  have nonneg: "0 \<le> fstart r" using rev_layout_sizes [OF r(1)] r(2) by simp
  have "piece_start pl (sizes rs) \<le> piece_start pl (sizes (r # rs))"
    by (rule piece_mono) (use Cons.prems(2) r(3) in simp_all)
  then have le: "piece_start pl (sizes rs) \<le> l" using Cons.prems(3) by linarith
  then have l': "piece_start pl (sizes rs) \<le> l'" using r(2) by (auto simp: l'_def)
  have tail: "marked (shared_backward pl l (r # rs) ! Suc k) = marked (shared_backward pl l' rs ! k)" for k
    using nonneg by (auto simp: Let_def l'_def sdiv_nonneg Cons.prems(2))
  obtain k where i: "i = Suc k" "k < length rs" using Cons.prems by (cases i) auto
  have "marked (shared_backward pl l' rs ! k)"
  proof (cases j)
    case 0
    then have "l' < fe_lastOffset (dwe_file (rs ! k))" using Cons.prems i by (simp add: l'_def)
    then show ?thesis using backward_marks [OF r(1) Cons.prems(2) l' i(2)] Cons.prems i by simp
  next
    case (Suc j')
    then show ?thesis using Cons.IH [OF r(1) Cons.prems(2) l', of j' k] Cons.prems i by simp
  qed
  then show ?case using tail i by simp
qed simp


lemma shared_piece_bounds:
  assumes "0 < pl" and "touches pl p e" and "touches pl p f"
  shows "fe_offset e < piece_end pl (fe_lastOffset f)" "piece_start pl (fe_offset f) < fe_lastOffset e"
proof -
  have "p \<le> (fe_lastOffset f - 1) div pl"
    using assms(1,3) le_div_iff [OF assms(1), of p "fe_lastOffset f - 1"] by (simp add: touches_def)
  then have "(p + 1) * pl \<le> ((fe_lastOffset f - 1) div pl + 1) * pl"
    using assms(1) by (intro mult_right_mono) simp_all
  moreover have "fe_offset e < (p + 1) * pl" using assms(2) by (simp add: touches_def)
  moreover have "((fe_lastOffset f - 1) div pl + 1) * pl = piece_end pl (fe_lastOffset f)"
    by (simp add: distrib_right)
  ultimately show "fe_offset e < piece_end pl (fe_lastOffset f)" by linarith
  have "fe_offset f div pl < p + 1"
    using assms(3) div_less_iff [OF assms(1), of "fe_offset f" "p + 1"] by (simp add: touches_def)
  then have "fe_offset f div pl * pl \<le> p * pl" using assms(1) by (intro mult_right_mono) simp_all
  then show "piece_start pl (fe_offset f) < fe_lastOffset e" using assms(2) by (simp add: touches_def)
qed

lemma file_layout_less:
  assumes "file_layout 0 es" and "(\<Sum>e\<leftarrow>es. fe_length e) < 2 ^ 63" and "0 < pl"
  shows "piece_start pl (\<Sum>e\<leftarrow>es. fe_length e) \<le> 2 ^ 63 - 1"
  using assms(2) le_div_iff [OF assms(3), of "(\<Sum>e\<leftarrow>es. fe_length e) div pl" "\<Sum>e\<leftarrow>es. fe_length e"] by simp

lemma createDiskWriterEntry_simps [simp]:
  "dwe_file (createDiskWriterEntry e) = e" "dwe_needsFileAllocation (createDiskWriterEntry e) = fe_requested e"
  "dwe_needsDiskWriter (createDiskWriterEntry e) = False"
  by (simp_all add: createDiskWriterEntry_def dwe_new_def)

lemma piece_end_zero: "0 < pl \<Longrightarrow> piece_end pl 0 = 0"
  using div_eq_iff_between [of pl "-1" "-1"] by simp

lemma marked_entries:
  fixes fes :: "file_entry list"
  assumes pl: "0 < pl" and lay: "file_layout 0 fes" and tot: "(\<Sum>e\<leftarrow>fes. fe_length e) < 2 ^ 63"
    and idx: "i < length fes" "j < length fes"
    and share: "touches pl p (fes ! i)" "touches pl p (fes ! j)"
    and req: "fe_requested (fes ! j)" "0 < fe_length (fes ! j)"
  defines "fwd \<equiv> shared_forward pl 0 (map createDiskWriterEntry fes)"
  shows "marked (rev (shared_backward pl (2 ^ 63 - 1) (rev fwd)) ! i)"
proof -
  let ?ds = "map createDiskWriterEntry fes"
  let ?bwd = "shared_backward pl (2 ^ 63 - 1) (rev fwd)"
  note b = shared_piece_bounds [OF pl share]
  have files: "map dwe_file ?ds = fes" by (simp add: comp_def)
  have ffiles: "map dwe_file fwd = fes" unfolding fwd_def by (simp add: comp_def)
  have len: "length fwd = length fes" by (simp add: fwd_def)
  have at: "dwe_file (fwd ! k) = fes ! k" if "k < length fes" for k
    using that ffiles len by (metis nth_map)
  have rev_nth': "rev ?bwd ! i = ?bwd ! (length fes - Suc i)" "rev fwd ! (length fes - Suc k) = fwd ! k"
    if "k < length fes" for k
    using idx(1) len that by (simp_all add: rev_nth)
  have bkeep: "marked (?bwd ! (length fes - Suc i))" if "marked (fwd ! i)"
    using shared_keeps_marks(2) [of "length fes - Suc i" "rev fwd" pl "2 ^ 63 - 1"] that rev_nth'(2) [OF idx(1)] idx(1) len
    by simp
  show ?thesis
  proof (cases "fe_requested (fes ! i)")
    case True
    then have "marked (fwd ! i)" unfolding fwd_def
      by (intro shared_keeps_marks(1)) (use idx in auto)
    then show ?thesis using bkeep rev_nth'(1) [OF idx(1)] by simp
  next
    case False
    then have ne: "i \<noteq> j" using req by auto
    show ?thesis
    proof (cases "j < i")
      case True
      have "marked (fwd ! i)" unfolding fwd_def
        by (rule forward_shared [of 0 ?ds pl 0 j i]) (use files lay pl True idx req b \<open>\<not> fe_requested (fes ! i)\<close> piece_end_zero [OF pl] in \<open>auto simp: comp_def\<close>)
      then show ?thesis using bkeep rev_nth'(1) [OF idx(1)] by simp
    next
      case False
      have "marked (?bwd ! (length fes - Suc i))"
      proof (rule backward_shared [of "rev fwd" pl "2 ^ 63 - 1" "length fes - Suc j" "length fes - Suc i"])
        show "file_layout 0 (map dwe_file (rev (rev fwd)))" using ffiles lay by simp
        show "piece_start pl (sizes (rev fwd)) \<le> 2 ^ 63 - 1"
          using file_layout_less [OF lay tot pl] ffiles by (simp add: rev_map [symmetric] sum_list_rev)
      qed (use pl False ne idx len rev_nth'(2) at req \<open>\<not> fe_requested (fes ! i)\<close> b in auto)
      then show ?thesis using rev_nth'(1) [OF idx(1)] by simp
    qed
  qed
qed

lemma reset_writers:
  assumes "resetDiskWriterEntries exists' new fes md = Some md'"
    and "0 < md_pieceLength md" and "file_layout 0 fes" and "(\<Sum>e\<leftarrow>fes. fe_length e) < 2 ^ 63"
  shows "files md' = fes \<and> layout 0 (md_entries md') \<and>
    (\<forall>i<length fes. \<forall>j<length fes. fe_requested (fes ! j) \<longrightarrow>
      0 < fe_length (fes ! j) \<longrightarrow>
      touches (md_pieceLength md) p (fes ! i) \<longrightarrow> touches (md_pieceLength md) p (fes ! j) \<longrightarrow>
      dwe_writer (md_entries md' ! i) \<noteq> None)"
proof -
  let ?pl = "md_pieceLength md"
  define ents where "ents = rev (shared_backward ?pl (2 ^ 63 - 1) (rev (shared_forward ?pl 0
    (map createDiskWriterEntry fes :: 'a disk_writer_entry list))))"
  define final where "final = map (\<lambda>d. if marked d \<or> exists' (fe_path (dwe_file d))
    then d\<lparr>dwe_writer := Some (new (fe_path (dwe_file d)) (md_readOnly md))\<rparr> else d) ents"
  have md': "md_entries md' = final"
    using assms(1,2) by (auto simp: resetDiskWriterEntries_def Let_def final_def ents_def disj_assoc split: if_splits)
  have ents_files: "map dwe_file ents = fes"
    by (simp add: ents_def rev_map [symmetric] comp_def)
  then have files': "files md' = fes" unfolding files_def md' final_def
    by (simp add: comp_def if_distrib [of dwe_file] cong: if_cong)
  moreover have "layout 0 (md_entries md')"
    using layout_of_map [of 0 "md_entries md'"] files' assms(3) by (simp add: files_def)
  moreover have "dwe_writer (md_entries md' ! i) \<noteq> None"
    if "i < length fes" "j < length fes" "fe_requested (fes ! j)" "0 < fe_length (fes ! j)"
      "touches ?pl p (fes ! i)" "touches ?pl p (fes ! j)"
    for i j
  proof -
    have "marked (ents ! i)"
      using marked_entries [OF assms(2-4) that(1,2,5,6,3,4)] by (simp add: ents_def)
    moreover have "length ents = length fes" using ents_files by (metis length_map)
    ultimately show ?thesis using that(1) by (auto simp: md' final_def)
  qed
  ultimately show ?thesis by blast
qed

text \<open>The factory's writers are the only ones after a reset.\<close>

lemma reset_new_writers:
  assumes "resetDiskWriterEntries exists' new fes md = Some md'" and "i < length (md_entries md')"
    and "dwe_writer (md_entries md' ! i) = Some f"
  shows "f = new (fe_path (dwe_file (md_entries md' ! i))) (md_readOnly md)"
proof -
  have keep: "map dwe_writer (shared_forward pl l ds) = map dwe_writer ds"
    "map dwe_writer (shared_backward pl l ds) = map dwe_writer ds" for pl l and ds :: "'a disk_writer_entry list"
    by (induction ds arbitrary: l) (simp_all add: Let_def)
  define ents where "ents = (if md_pieceLength md > 0
      then rev (shared_backward (md_pieceLength md) (2 ^ 63 - 1)
             (rev (shared_forward (md_pieceLength md) 0 (map createDiskWriterEntry fes :: 'a disk_writer_entry list))))
      else map createDiskWriterEntry fes)"
  have "map dwe_writer ents = map (\<lambda>_. None) fes"
    by (simp add: ents_def rev_map [symmetric] keep) (simp add: comp_def createDiskWriterEntry_def dwe_new_def rev_map)
  then have "\<forall>w\<in>set (map dwe_writer ents). w = None" by simp
  then have none: "\<forall>d\<in>set ents. dwe_writer d = None" by simp
  have "md_entries md' = map (\<lambda>dwent. if dwe_needsFileAllocation dwent \<or> dwe_needsDiskWriter dwent \<or>
      exists' (fe_path (dwe_file dwent))
    then dwent\<lparr>dwe_writer := Some (new (fe_path (dwe_file dwent)) (md_readOnly md))\<rparr> else dwent) ents"
    using assms(1) by (auto simp: resetDiskWriterEntries_def Let_def ents_def split: if_splits)
  then show ?thesis using assms(2,3) none nth_mem [of i ents] by (auto split: if_splits)
qed

subsection \<open>Writing succeeds\<close>

text \<open>A disk that accepts what fits (the limit of a \<open>ByteArrayDiskWriter\<close>, the space on a device).\<close>

locale roomy_disk = disk_file +
  fixes fits :: "'a \<Rightarrow> int \<Rightarrow> bool"
  assumes write_returns: "0 \<le> off \<Longrightarrow> off + int (length xs) \<le> n \<Longrightarrow> fits f n \<Longrightarrow>
      \<exists>f'. dk_write ops f xs off = (f', None) \<and> fits f' = fits f"
    and open_returns: "fits f n \<Longrightarrow> \<exists>f'. dk_open ops f n = (f', None) \<and> fits f' = fits f"

definition ba_fits :: "byte_array \<Rightarrow> int \<Rightarrow> bool" where
  "ba_fits f n \<longleftrightarrow> n \<le> int (ba_maxLength f)"

interpretation byte_array: roomy_disk ba_ops ba_content ba_fits
  by unfold_locales (auto simp: ba_ops_def ba_writeData_def ba_fits_def Let_def fun_eq_iff)

definition ready :: "('f \<Rightarrow> int \<Rightarrow> bool) \<Rightarrow> 'f disk_writer_entry \<Rightarrow> bool" where
  "ready fits e \<longleftrightarrow> (\<exists>f. dwe_writer e = Some f \<and> fits f (fsize e))"

context roomy_disk
begin

lemma openIfNot_returns:
  assumes "ready fits (md_entries md ! i)" and "i < length (md_entries md)"
  shows "\<exists>md'. openIfNot (dwe_openFile ops) md i = (md', None) \<and> ready fits (md_entries md' ! i) \<and>
    dwe_open (md_entries md' ! i) \<and> (\<forall>k. k \<noteq> i \<longrightarrow> md_entries md' ! k = md_entries md ! k) \<and>
    length (md_entries md') = length (md_entries md) \<and> dwe_file (md_entries md' ! i) = dwe_file (md_entries md ! i)"
proof (cases "dwe_open (md_entries md ! i)")
  case True
  then show ?thesis using assms by (simp add: openIfNot_def)
next
  case False
  obtain f where f: "dwe_writer (md_entries md ! i) = Some f" "fits f (fsize (md_entries md ! i))"
    using assms(1) by (auto simp: ready_def)
  from open_returns [OF f(2)] obtain f' where "dk_open ops f (fsize (md_entries md ! i)) = (f', None)"
      "fits f' = fits f" by blast
  then show ?thesis using False f assms(2)
    by (simp add: openIfNot_def dwe_openFile_def dwe_openWith_def ready_def)
qed

lemma write_entry_returns:
  assumes "ready fits (md_entries md ! i)" and "i < length (md_entries md)"
    and "0 \<le> fo" and "fo + int (length xs) \<le> fsize (md_entries md ! i)"
  shows "\<exists>md'. write_entry ops md i xs fo = (md', None) \<and> ready fits (md_entries md' ! i) \<and>
    (\<forall>k. k \<noteq> i \<longrightarrow> md_entries md' ! k = md_entries md ! k)"
proof -
  obtain f where f: "dwe_writer (md_entries md ! i) = Some f" "fits f (fsize (md_entries md ! i))"
    using assms(1) by (auto simp: ready_def)
  from write_returns [OF assms(3,4) f(2)] show ?thesis using f assms(2) by (auto simp: write_entry_def ready_def)
qed

lemma write_loop_returns:
  "i < length (md_entries md) \<Longrightarrow> layout 0 (md_entries md) \<Longrightarrow> 0 \<le> fo \<Longrightarrow> fo \<le> fsize (md_entries md ! i) \<Longrightarrow>
   fstart (md_entries md ! i) + fo + int (length xs) \<le> total_size (md_entries md) \<Longrightarrow>
   ready fits (md_entries md ! i) \<Longrightarrow>
   (\<And>k. i < k \<Longrightarrow> k < length (md_entries md) \<Longrightarrow>
      fstart (md_entries md ! k) < fstart (md_entries md ! i) + fo + int (length xs) \<Longrightarrow> ready fits (md_entries md ! k)) \<Longrightarrow>
   \<exists>md'. write_loop ops [i..<length (md_entries md)] xs fo md = (md', None) \<and>
     (\<forall>k. ready fits (md_entries md ! k) \<longrightarrow> ready fits (md_entries md' ! k))"
proof (induction "length (md_entries md) - i" arbitrary: i xs fo md)
  case 0
  then show ?case by simp
next
  case (Suc m)
  let ?n = "length (md_entries md)"
  let ?e = "md_entries md ! i"
  define wl where "wl = nat (calculateLength ?e fo (int (length xs)))"
  have wl: "wl \<le> length xs" "fo + int wl \<le> fsize ?e" "wl = length xs \<or> fo + int wl = fsize ?e"
    using Suc.prems(3,4) by (auto simp: wl_def calculateLength_min min_def)
  have idx: "[i..<?n] = i # [Suc i..<?n]" using Suc.prems(1) by (simp add: upt_conv_Cons)
  from openIfNot_returns [OF Suc.prems(6,1)] obtain m1 where m1: "openIfNot (dwe_openFile ops) md i = (m1, None)"
      "ready fits (md_entries m1 ! i)" "dwe_open (md_entries m1 ! i)"
      "\<forall>k. k \<noteq> i \<longrightarrow> md_entries m1 ! k = md_entries md ! k" "length (md_entries m1) = ?n"
      "dwe_file (md_entries m1 ! i) = dwe_file ?e" by blast
  have fit1: "fo + int (length (take wl xs)) \<le> fsize (md_entries m1 ! i)" using wl m1(6) by simp
  from write_entry_returns [OF m1(2) _ Suc.prems(3) fit1] m1(5) Suc.prems(1)
  obtain m2 where m2: "write_entry ops m1 i (take wl xs) fo = (m2, None)"
      "\<forall>k. k \<noteq> i \<longrightarrow> md_entries m2 ! k = md_entries m1 ! k" "ready fits (md_entries m2 ! i)" by auto
  have keep: "ready fits (md_entries m2 ! k)" if "ready fits (md_entries md ! k)" for k
    using that m1(4) m2(2,3) by (cases "k = i") simp_all
  have unfold: "write_loop ops [i..<?n] xs fo md =
      (if drop wl xs = [] then (m2, None) else write_loop ops [Suc i..<?n] (drop wl xs) 0 m2)"
    using m1(1,3) m2(1) by (simp add: idx Let_def wl_def [symmetric])
  note o1 = openIfNot_ok [OF m1(1) Suc.prems(1,2)]
  have w: "files m2 = files m1"
    using write_entry_ok [OF m2(1) _ layout_of_files [OF conjunct1 [OF o1] Suc.prems(2)] Suc.prems(3) fit1]
      m1(5) Suc.prems(1) by simp
  then have f2: "files m2 = files md" using o1 by simp
  have len2: "length (md_entries m2) = ?n" using files_length [OF f2] .
  show ?case
  proof (cases "drop wl xs = []")
    case True
    then show ?thesis using unfold keep by simp
  next
    case False
    then have full: "fo + int wl = fsize ?e" "wl < length xs" using wl by auto
    have next': "fstart ?e + fsize ?e = total_size (take (Suc i) (md_entries md))"
      using layout_nth [OF Suc.prems(2,1)] total_take_Suc [OF Suc.prems(1)] by simp
    have Suci: "Suc i < ?n"
    proof (rule ccontr)
      assume "\<not> Suc i < ?n"
      then have "fstart ?e + fsize ?e = total_size (md_entries md)" using next' Suc.prems(1) by simp
      then show False using Suc.prems(5) full by linarith
    qed
    have lay2: "layout 0 (md_entries m2)" using layout_of_files [OF f2 Suc.prems(2)] .
    have same: "md_entries m2 ! k = md_entries md ! k" if "k \<noteq> i" for k using m2(2) m1(4) that by simp
    have start: "fstart (md_entries md ! Suc i) = fstart ?e + fo + int wl"
      using layout_nth [OF Suc.prems(2) Suci] next' full by simp
    have rem: "int (length (drop wl xs)) = int (length xs) - int wl" using wl(1) by simp
    have "\<exists>md'. write_loop ops [Suc i..<length (md_entries m2)] (drop wl xs) 0 m2 = (md', None) \<and>
        (\<forall>k. ready fits (md_entries m2 ! k) \<longrightarrow> ready fits (md_entries md' ! k))"
    proof (rule Suc.hyps(1))
      show "m = length (md_entries m2) - Suc i" using Suc.hyps(2) len2 by simp
      show "0 \<le> fsize (md_entries m2 ! Suc i)" using layout_nth [OF lay2, of "Suc i"] len2 Suci by simp
      show "ready fits (md_entries m2 ! Suc i)"
        using Suc.prems(7) [of "Suc i"] Suci start full(2) same [of "Suc i"] by simp
      show "ready fits (md_entries m2 ! k)" if "Suc i < k" "k < length (md_entries m2)"
          "fstart (md_entries m2 ! k) < fstart (md_entries m2 ! Suc i) + 0 + int (length (drop wl xs))" for k
        using Suc.prems(7) [of k] that len2 start rem same [of k] same [of "Suc i"] by simp
    qed (use lay2 len2 Suci Suc.prems(5) start rem same [of "Suc i"] files_total [OF f2] in simp_all)
    then show ?thesis using unfold False len2 keep by auto
  qed
qed

end

text \<open>The entry that holds an offset is found.\<close>

lemma findFirst_returns:
  assumes "layout 0 es" and "0 \<le> off" and "off < total_size es"
  shows "\<exists>i. findFirstDiskWriterEntry es off = Inl i"
proof -
  let ?P = "\<lambda>e. \<not> off < fstart e"
  define ub where "ub = length (takeWhile ?P es)"
  have le: "ub \<le> length es" by (simp add: ub_def length_takeWhile_le)
  have pos: "ub \<noteq> 0"
  proof
    assume "ub = 0"
    moreover have "es \<noteq> []" using assms(2,3) by (auto simp: total_size_def)
    ultimately show False using assms(1,2) by (cases es) (auto simp: ub_def split: if_splits)
  qed
  then obtain k where k: "ub = Suc k" "k < length es" using le by (cases ub) auto
  have "fstart (es ! k) \<le> off"
    using nth_mem [of k "takeWhile ?P es"] set_takeWhileD [of "takeWhile ?P es ! k" ?P es] k(1) takeWhile_nth [of k ?P es]
    by (simp add: ub_def)
  moreover have "off < total_size (take (Suc k) es)"
  proof (cases "Suc k < length es")
    case True
    then have "off < fstart (es ! Suc k)" using nth_length_takeWhile [of ?P es] k by (simp add: ub_def [symmetric])
    then show ?thesis using layout_nth [OF assms(1) True] by simp
  qed (use assms(3) k in simp)
  ultimately have "isInRange (es ! k) off"
    using layout_nth [OF assms(1) k(2)] total_take_Suc [OF k(2)] by (simp add: isInRange_iff)
  then show ?thesis using k by (simp add: findFirstDiskWriterEntry_def ub_def [symmetric])
qed

end
