(* ===== verification/PieceCache.thy ===== *)
theory PieceCache
  imports PieceProps MultiDiskProps
begin

text \<open>
  All pieces and the write cache they share, as one state machine: \<open>cache_exec\<close> runs one operation
  of a piece, \<open>cache_reach\<close> are the states reached by legal operations. The invariant says that
  no assertion fails; the locale \<open>cached_disk\<close> shows that the cache is transparent: what the
  cells and the disks hold together is what was written, however entries are evicted.
\<close>

subsection \<open>Entries\<close>

definition entry_ok :: "wr_entry \<Rightarrow> bool" where
  "entry_ok e \<longleftrightarrow> (\<forall>c\<in>set (we_set e). cell_ok c) \<and> sorted (map dc_goff (we_set e)) \<and>
     distinct (map dc_goff (we_set e)) \<and> we_size e = sum_list (map dc_len (we_set e))"

lemma entry_ok_bare: "bare e = bare e' \<Longrightarrow> entry_ok e = entry_ok e'"
  by (simp add: bare_eq entry_ok_def)

lemma entry_ok_empty: "we_set e = [] \<Longrightarrow> we_size e = 0 \<Longrightarrow> entry_ok e"
  by (simp add: entry_ok_def)

lemma insort_key_props:
  assumes "f x \<notin> f ` set xs"
  shows "distinct (map f (insort_key f x xs)) = distinct (map f xs)"
    "sum_list (map g (insort_key f x xs)) = g x + (sum_list (map g xs) :: nat)"
  using assms by (induction xs) (auto simp: set_insort_key)

lemma cacheData_entry_ok:
  assumes "entry_ok e" and "cell_ok c" and "dc_goff c \<notin> dc_goff ` set (we_set e)"
  shows "entry_ok (fst (cacheData e c))"
  using assms by (auto simp: entry_ok_def cacheData_def set_insort_key insort_key_props sorted_insort_key)

text \<open>What \<open>append\<close> does to the last cell.\<close>

abbreviation cell_fill :: "nat \<Rightarrow> byte list \<Rightarrow> data_cell \<Rightarrow> data_cell" where
  "cell_fill wlen data c \<equiv> c\<lparr>dc_data := take (dc_offset c + dc_len c) (dc_data c) @ take wlen data @
     drop (dc_offset c + dc_len c + wlen) (dc_data c), dc_len := dc_len c + wlen\<rparr>"

lemma we_append_cases:
  obtains (same) "we_append e goff data = (e, 0)"
  | (extend) cs c wlen c' where "we_set e = cs @ [c]" "dc_goff c + int (dc_len c) = goff"
      "wlen = min (usub (dc_capacity c) (dc_len c)) (length data)"
      "c' = cell_fill wlen data c"
      "we_append e goff data = (e\<lparr>we_set := cs @ [c'], we_size := we_size e + wlen\<rparr>, wlen)"
proof (cases "we_set e = [] \<or> dc_goff (last (we_set e)) + int (dc_len (last (we_set e))) \<noteq> goff")
  case True
  then show ?thesis using same by (auto simp: we_append_def Let_def)
next
  case False
  then have split: "we_set e = butlast (we_set e) @ [last (we_set e)]" by simp
  show ?thesis
    by (rule extend [OF split _ refl refl]) (use False in \<open>simp_all add: we_append_def Let_def\<close>)
qed

lemma extended_cell:
  assumes "cell_ok c" and "wlen \<le> dc_capacity c - dc_len c" and "wlen \<le> length data"
  shows "cell_ok (cell_fill wlen data c)" "cell_bytes (cell_fill wlen data c) = cell_bytes c @ take wlen data"
proof -
  have room: "dc_offset c + dc_len c + wlen \<le> length (dc_data c)" "dc_len c + wlen \<le> dc_capacity c"
    using assms by (auto simp: cell_ok_def)
  have tk: "length (take (dc_offset c + dc_len c) (dc_data c)) = dc_offset c + dc_len c" using room by simp
  show "cell_ok (cell_fill wlen data c)" using assms room by (auto simp: cell_ok_def)
  have "drop (dc_offset c) (take (dc_offset c + dc_len c) (dc_data c)) = take (dc_len c) (drop (dc_offset c) (dc_data c))"
    by (simp add: drop_take)
  then show "cell_bytes (cell_fill wlen data c) = cell_bytes c @ take wlen data"
    using room tk assms(3) by (simp add: cell_bytes_def min_absorb2)
qed

lemma we_append_entry_ok:
  assumes "entry_ok e" and "length data < 2 ^ 64"
  shows "entry_ok (fst (we_append e goff data))"
proof (cases rule: we_append_cases [of e goff data])
  case same
  then show ?thesis using assms by simp
next
  case (extend cs c wlen c')
  have "cell_ok c" using assms(1) extend(1) by (simp add: entry_ok_def)
  then have "cell_ok c'"
    unfolding extend(4) by (intro extended_cell) (use extend(3) in \<open>auto simp: cell_ok_def usub_def\<close>)
  then show ?thesis using assms extend(1,4,5) by (simp add: entry_ok_def)
qed

lemma settles_entry_ok:
  "settles writeTo s s' \<Longrightarrow> \<forall>k\<in>centries s. entry_ok (ws_ents s k) \<Longrightarrow> \<forall>k\<in>centries s'. entry_ok (ws_ents s' k)"
proof (induction rule: settles.induct)
  case (same s')
  then show ?case using entry_ok_bare by blast
next
  case (evict t i e s')
  have "entry_ok e" using writeToDisk_empty [OF evict.hyps(3)] by (simp add: entry_ok_empty)
  then have "entry_ok (ws_ents s' k)" if "k \<in> centries t" for k
    using evict.IH [OF evict.prems] evict.hyps(4,5) entry_ok_bare that by (cases "k = i") metis+
  then show ?case using evict.hyps(6) by simp
qed

subsection \<open>The machine\<close>

text \<open>\<open>CInit i ent a\<close> allocates the entry \<open>ent\<close> on adaptor \<open>a\<close> for piece \<open>i\<close>.\<close>

datatype cache_op =
    CInit nat nat nat
  | CUpdate nat data_cell
  | CAppend nat int "byte list"
  | CFlush nat
  | CClear nat
  | CClearAll nat
  | CRelease nat

type_synonym ('h, 'd) pool = "(nat \<Rightarrow> 'h piece) \<times> 'd wr_state"

fun cache_exec :: "'d write_to \<Rightarrow> cache_op \<Rightarrow> ('h, 'd) pool \<Rightarrow> ('h, 'd) pool option" where
  "cache_exec writeTo (CInit i ent a) (P, s) =
     map_option (\<lambda>(p, s). (P(i := p), s)) (initWrCache writeTo True ent a (P i) s)"
| "cache_exec writeTo (CUpdate i c) (P, s) =
     map_option (Pair P) (updateWrCache writeTo True (dc_data c) (dc_offset c) (dc_len c) (dc_capacity c) (dc_goff c) (P i) s)"
| "cache_exec writeTo (CAppend i goff data) (P, s) =
     map_option (\<lambda>(s, _). (P, s)) (appendWrCache writeTo True goff data (P i) s)"
| "cache_exec writeTo (CFlush i) (P, s) = map_option (Pair P) (flushWrCache writeTo True (P i) s)"
| "cache_exec writeTo (CClear i) (P, s) = map_option (Pair P) (clearWrCache writeTo True (P i) s)"
| "cache_exec writeTo (CClearAll i) (P, s) =
     map_option (\<lambda>(p, s). (P(i := p), s)) (clearAllBlock writeTo True (P i) s)"
| "cache_exec writeTo (CRelease i) (P, s) =
     (let (p, s) = releaseWrCache True (P i) s in Some (P(i := p), s))"

text \<open>What the callers respect: a piece has one entry, and a cell is new.\<close>

fun cache_legal :: "nat \<Rightarrow> cache_op \<Rightarrow> ('h, 'd) pool \<Rightarrow> bool" where
  "cache_legal limit (CInit i ent a) (P, s) \<longleftrightarrow> pc_wrCache (P i) = None \<and> ent \<notin> centries s"
| "cache_legal limit (CUpdate i c) (P, s) \<longleftrightarrow> (case pc_wrCache (P i) of None \<Rightarrow> False | Some ent \<Rightarrow>
     cell_ok c \<and> dc_goff c \<notin> dc_goff ` set (we_set (ws_ents s ent)) \<and> limit + dc_len c < 2 ^ 64)"
| "cache_legal limit (CAppend i goff data) (P, s) \<longleftrightarrow> pc_wrCache (P i) \<noteq> None \<and> limit + length data < 2 ^ 64"
| "cache_legal limit (CFlush i) (P, s) \<longleftrightarrow> pc_wrCache (P i) \<noteq> None"
| "cache_legal limit (CClear i) (P, s) \<longleftrightarrow> pc_wrCache (P i) \<noteq> None"
| "cache_legal limit (CClearAll i) (P, s) \<longleftrightarrow> True"
| "cache_legal limit (CRelease i) (P, s) \<longleftrightarrow> True"

inductive cache_reach :: "'d write_to \<Rightarrow> nat \<Rightarrow> ('h, 'd) pool \<Rightarrow> bool" for writeTo limit where
  start: "(\<And>i. pc_wrCache (P i) = None) \<Longrightarrow> ws_cache s = wc_new limit \<Longrightarrow> cache_reach writeTo limit (P, s)"
| step: "cache_reach writeTo limit c \<Longrightarrow> cache_legal limit op c \<Longrightarrow> cache_exec writeTo op c = Some c' \<Longrightarrow>
     cache_reach writeTo limit c'"

definition pool_inv :: "nat \<Rightarrow> ('h, 'd) pool \<Rightarrow> bool" where
  "pool_inv limit c \<longleftrightarrow> (case c of (P, s) \<Rightarrow>
     wc_inv s \<and> wc_limit (ws_cache s) = limit \<and>
     (\<forall>i j ent. pc_wrCache (P i) = Some ent \<longrightarrow> pc_wrCache (P j) = Some ent \<longrightarrow> i = j) \<and>
     (\<forall>i ent. pc_wrCache (P i) = Some ent \<longrightarrow> ent \<in> centries s) \<and>
     (\<forall>k\<in>centries s. entry_ok (ws_ents s k)))"

lemma pool_invD:
  assumes "pool_inv limit (P, s)"
  shows "wc_inv s" "wc_limit (ws_cache s) = limit"
    "\<And>i j ent. pc_wrCache (P i) = Some ent \<Longrightarrow> pc_wrCache (P j) = Some ent \<Longrightarrow> i = j"
    "\<And>i ent. pc_wrCache (P i) = Some ent \<Longrightarrow> ent \<in> centries s"
    "\<And>k. k \<in> centries s \<Longrightarrow> entry_ok (ws_ents s k)"
  using assms by (auto simp: pool_inv_def)

text \<open>The pieces keep their entries, the cache changes inside.\<close>

lemma pool_inv_same:
  assumes "pool_inv limit (P, s)" and "wc_inv s'" and "centries s' = centries s"
    and "wc_limit (ws_cache s') = wc_limit (ws_cache s)" and "\<forall>k\<in>centries s. entry_ok (ws_ents s' k)"
    and "\<And>i. pc_wrCache (P' i) = pc_wrCache (P i)"
  shows "pool_inv limit (P', s')"
  using assms(2-6) pool_invD [OF assms(1)] by (auto simp: pool_inv_def)

lemma entry_ok_set_ent:
  "\<forall>k\<in>centries s. entry_ok (ws_ents s k) \<Longrightarrow> entry_ok e \<Longrightarrow> \<forall>k\<in>centries s. entry_ok (ws_ents (set_ent ent e s) k)"
  by (simp add: set_ent_def)

lemma centries_set_ent [simp]: "centries (set_ent ent e s) = centries s"
  by (simp add: set_ent_def)


subsection \<open>Legal operations return and keep the invariant\<close>

text \<open>Each operation in terms of evictions.\<close>

lemma CInit_steps:
  assumes "pool_inv limit (P, s)" and "cache_legal limit (CInit i ent a) (P, s)"
  shows "\<exists>s' u. cache_exec writeTo (CInit i ent a) (P, s) = Some (P(i := (P i)\<lparr>pc_wrCache := Some ent\<rparr>), s') \<and>
    wc_inv s' \<and> wc_limit (ws_cache s') = limit \<and> centries s' = insert ent (centries s) \<and>
    centries u = insert ent (centries s) \<and> ws_disk u = ws_disk s \<and> settles writeTo u s' \<and>
    (\<forall>k. bare (ws_ents u k) = bare (if k = ent then we_new a else ws_ents s k))"
proof -
  have l: "pc_wrCache (P i) = None" "ent \<notin> centries s" using assms(2) by simp_all
  from initWrCache_spec [OF pool_invD(1) [OF assms(1)] l, of writeTo a]
  obtain s' u where s': "initWrCache writeTo True ent a (P i) s = Some ((P i)\<lparr>pc_wrCache := Some ent\<rparr>, s')"
      "wc_inv s'" "centries s' = insert ent (centries s)" "wc_limit (ws_cache s') = wc_limit (ws_cache s)"
      "centries u = insert ent (centries s)" "ws_disk u = ws_disk s" "settles writeTo u s'"
      "\<forall>k. bare (ws_ents u k) = bare (if k = ent then we_new a else ws_ents s k)" by blast
  show ?thesis
    by (rule exI [of _ s'], rule exI [of _ u]) (use s' pool_invD(2) [OF assms(1)] in simp)
qed

lemma CUpdate_steps:
  assumes "pool_inv limit (P, s)" and "cache_legal limit (CUpdate i c) (P, s)" and "pc_wrCache (P i) = Some ent"
  shows "\<exists>s'. cache_exec writeTo (CUpdate i c) (P, s) = Some (P, s') \<and>
    wc_inv s' \<and> wc_limit (ws_cache s') = limit \<and> centries s' = centries s \<and>
    settles writeTo (set_ent ent (fst (cacheData (ws_ents s ent) c)) s) s'"
proof -
  have l: "wc_limit (ws_cache s) + dc_len c < 2 ^ 64" "dc_goff c \<notin> dc_goff ` set (we_set (ws_ents s ent))"
    using assms(2,3) pool_invD(2) [OF assms(1)] by simp_all
  have eta: "\<lparr>dc_goff = dc_goff c, dc_data = dc_data c, dc_offset = dc_offset c, dc_len = dc_len c,
      dc_capacity = dc_capacity c\<rparr> = c" by simp
  from updateWrCache_spec [OF pool_invD(1) [OF assms(1)] assms(3) pool_invD(4) [OF assms(1,3)] l, of writeTo
      "dc_data c" "dc_offset c" "dc_capacity c", unfolded eta]
  obtain s' where s': "updateWrCache writeTo True (dc_data c) (dc_offset c) (dc_len c) (dc_capacity c) (dc_goff c) (P i) s = Some s'"
      "wc_inv s'" "centries s' = centries s" "wc_limit (ws_cache s') = wc_limit (ws_cache s)"
      "settles writeTo (set_ent ent (fst (cacheData (ws_ents s ent) c)) s) s'" by blast
  show ?thesis
    by (rule exI [of _ s']) (use s' pool_invD(2) [OF assms(1)] in simp)
qed

lemma CAppend_steps:
  assumes "pool_inv limit (P, s)" and "cache_legal limit (CAppend i goff data) (P, s)" and "pc_wrCache (P i) = Some ent"
  shows "\<exists>s'. cache_exec writeTo (CAppend i goff data) (P, s) = Some (P, s') \<and>
    wc_inv s' \<and> wc_limit (ws_cache s') = limit \<and> centries s' = centries s \<and>
    settles writeTo (set_ent ent (fst (we_append (ws_ents s ent) goff data)) s) s'"
proof -
  have l: "wc_limit (ws_cache s) + length data < 2 ^ 64" using assms(2) pool_invD(2) [OF assms(1)] by simp
  show ?thesis
    using appendWrCache_spec [OF pool_invD(1) [OF assms(1)] assms(3) pool_invD(4) [OF assms(1,3)] l, of writeTo goff]
      pool_invD(2) [OF assms(1)] by auto
qed

lemma CFlush_steps:
  assumes "pool_inv limit (P, s)" and "limit < 2 ^ 64" and "pc_wrCache (P i) = Some ent"
  shows "\<exists>s'. cache_exec writeTo (CFlush i) (P, s) = Some (P, s') \<and>
    wc_inv s' \<and> wc_limit (ws_cache s') = limit \<and> centries s' = centries s \<and> settles writeTo s s' \<and>
    we_set (ws_ents s' ent) = []"
proof -
  from flushWrCache_spec [OF pool_invD(1) [OF assms(1)] assms(3) pool_invD(4) [OF assms(1,3)], of writeTo]
    pool_invD(2) [OF assms(1)] assms(2)
  obtain s' where s': "flushWrCache writeTo True (P i) s = Some s'" "wc_inv s'" "centries s' = centries s"
      "wc_limit (ws_cache s') = limit" "we_set (ws_ents s' ent) = []" "we_size (ws_ents s' ent) = 0"
      "ws_disk s' = fst (writeCache (writeTo (we_adaptor (ws_ents s ent))) (we_set (ws_ents s ent)) (ws_disk s))"
      "we_adaptor (ws_ents s' ent) = we_adaptor (ws_ents s ent)" "\<forall>k. k \<noteq> ent \<longrightarrow> ws_ents s' k = ws_ents s k"
    by auto
  obtain e d where w: "writeToDisk writeTo (ws_ents s ent) (ws_disk s) = (e, d)" by fastforce
  note e = writeToDisk_empty [OF w]
  have d: "d = ws_disk s'" using w s'(7) by (auto simp: writeToDisk_def split: prod.splits option.splits)
  have "settles writeTo s s'"
  proof (rule settles.evict [of writeTo s s ent e])
    show "settles writeTo s s" by (rule settles.same) simp_all
    show "bare (ws_ents s' ent) = bare e" using e s'(5,6,8) by (simp add: bare_def)
  qed (use w d s'(3,9) pool_invD(4) [OF assms(1,3)] in simp_all)
  then show ?thesis using s' by simp
qed

lemma CClear_steps:
  assumes "pool_inv limit (P, s)" and "limit < 2 ^ 64" and "pc_wrCache (P i) = Some ent"
    and "pc_wrCache p = Some ent"
  shows "\<exists>s'. clearWrCache writeTo True p s = Some s' \<and> wc_inv s' \<and> wc_limit (ws_cache s') = limit \<and>
    centries s' = centries s \<and> we_set (ws_ents s' ent) = [] \<and> we_size (ws_ents s' ent) = 0 \<and>
    we_adaptor (ws_ents s' ent) = we_adaptor (ws_ents s ent) \<and> ws_disk s' = ws_disk s \<and>
    (\<forall>i. i \<noteq> ent \<longrightarrow> ws_ents s' i = ws_ents s i)"
  using clearWrCache_spec [OF pool_invD(1) [OF assms(1)] assms(4) pool_invD(4) [OF assms(1,3)], of writeTo]
    pool_invD(2) [OF assms(1)] assms(2) by auto

lemma cleared_pool:
  assumes "pool_inv limit (P, s)" and "limit < 2 ^ 64" and "pc_wrCache (P i) = Some ent"
    and "pc_wrCache p = Some ent" and "\<And>k. pc_wrCache (P' k) = pc_wrCache (P k)"
  shows "\<exists>s'. clearWrCache writeTo True p s = Some s' \<and> pool_inv limit (P', s')"
proof -
  from CClear_steps [OF assms(1-4), of writeTo]
  obtain s' where s': "clearWrCache writeTo True p s = Some s'" "wc_inv s'"
      "wc_limit (ws_cache s') = limit" "centries s' = centries s" "we_set (ws_ents s' ent) = []"
      "we_size (ws_ents s' ent) = 0" "\<forall>i. i \<noteq> ent \<longrightarrow> ws_ents s' i = ws_ents s i" by auto
  have ok: "\<forall>k\<in>centries s. entry_ok (ws_ents s' k)"
  proof
    fix k assume "k \<in> centries s"
    then show "entry_ok (ws_ents s' k)"
      using pool_invD(5) [OF assms(1)] s'(5-7) entry_ok_empty by (cases "k = ent") simp_all
  qed
  have lim: "wc_limit (ws_cache s') = wc_limit (ws_cache s)" using s'(3) pool_invD(2) [OF assms(1)] by simp
  have "pool_inv limit (P', s')" by (rule pool_inv_same [OF assms(1) s'(2,4) lim ok assms(5)])
  then show ?thesis using s'(1) by blast
qed

lemma cache_exec_inv:
  assumes inv: "pool_inv limit c" and lim: "limit < 2 ^ 64" and legal: "cache_legal limit op c"
  shows "\<exists>c'. cache_exec writeTo op c = Some c' \<and> pool_inv limit c'"
proof -
  obtain P s where c: "c = (P, s)" by fastforce
  note inv = inv [unfolded c] and legal = legal [unfolded c]
  have ok: "\<forall>k\<in>centries s. entry_ok (ws_ents s k)" using pool_invD(5) [OF inv] by blast
  show ?thesis
  proof (cases op)
    case (CInit i ent a)
    from CInit_steps [OF inv, of i ent a writeTo] legal CInit
    obtain s' u where s': "cache_exec writeTo op c = Some (P(i := (P i)\<lparr>pc_wrCache := Some ent\<rparr>), s')"
        "wc_inv s'" "wc_limit (ws_cache s') = limit" "centries s' = insert ent (centries s)"
        "centries u = insert ent (centries s)" "settles writeTo u s'"
        "\<forall>k. bare (ws_ents u k) = bare (if k = ent then we_new a else ws_ents s k)" using c by metis
    have "entry_ok (ws_ents u k)" if "k \<in> centries u" for k
    proof (cases "k = ent")
      case True
      then have "bare (ws_ents u k) = bare (we_new a)" using s'(7) by simp
      then show ?thesis using entry_ok_bare [of "ws_ents u k" "we_new a"]
        by (simp add: entry_ok_empty we_new_def)
    next
      case False
      then have "bare (ws_ents u k) = bare (ws_ents s k)" using s'(7) by simp
      then show ?thesis using entry_ok_bare [of "ws_ents u k" "ws_ents s k"] ok that False s'(5) by simp
    qed
    then have "\<forall>k\<in>centries s'. entry_ok (ws_ents s' k)" using settles_entry_ok [OF s'(6)] by blast
    then have "pool_inv limit (P(i := (P i)\<lparr>pc_wrCache := Some ent\<rparr>), s')"
      using s'(2-4) pool_invD(3,4) [OF inv] legal CInit by (auto simp: pool_inv_def)
    then show ?thesis using s'(1) by blast
  next
    case (CUpdate i cl)
    then obtain ent where ent: "pc_wrCache (P i) = Some ent" "cell_ok cl"
        "dc_goff cl \<notin> dc_goff ` set (we_set (ws_ents s ent))" using legal by (auto split: option.splits)
    from CUpdate_steps [OF inv legal [unfolded CUpdate] ent(1), of writeTo]
    obtain s' where s': "cache_exec writeTo op c = Some (P, s')" "wc_inv s'" "wc_limit (ws_cache s') = limit"
        "centries s' = centries s" "settles writeTo (set_ent ent (fst (cacheData (ws_ents s ent) cl)) s) s'"
      using c CUpdate by blast
    have "entry_ok (fst (cacheData (ws_ents s ent) cl))"
      by (rule cacheData_entry_ok) (use ok pool_invD(4) [OF inv ent(1)] ent in simp_all)
    from settles_entry_ok [OF s'(5)] entry_ok_set_ent [OF ok this, of ent]
    have "\<forall>k\<in>centries s'. entry_ok (ws_ents s' k)" by simp
    then have "pool_inv limit (P, s')"
      by (intro pool_inv_same [OF inv s'(2,4)]) (simp_all add: s'(3,4) pool_invD(2) [OF inv])
    then show ?thesis using s'(1) by blast
  next
    case (CAppend i goff data)
    then obtain ent where ent: "pc_wrCache (P i) = Some ent" "length data < 2 ^ 64" using legal by auto
    from CAppend_steps [OF inv legal [unfolded CAppend] ent(1), of writeTo]
    obtain s' where s': "cache_exec writeTo op c = Some (P, s')" "wc_inv s'" "wc_limit (ws_cache s') = limit"
        "centries s' = centries s" "settles writeTo (set_ent ent (fst (we_append (ws_ents s ent) goff data)) s) s'"
      using c CAppend by blast
    have "entry_ok (fst (we_append (ws_ents s ent) goff data))"
      by (rule we_append_entry_ok) (use ok pool_invD(4) [OF inv ent(1)] ent in simp_all)
    from settles_entry_ok [OF s'(5)] entry_ok_set_ent [OF ok this, of ent]
    have "\<forall>k\<in>centries s'. entry_ok (ws_ents s' k)" by simp
    then have "pool_inv limit (P, s')"
      by (intro pool_inv_same [OF inv s'(2,4)]) (simp_all add: s'(3,4) pool_invD(2) [OF inv])
    then show ?thesis using s'(1) by blast
  next
    case (CFlush i)
    then obtain ent where ent: "pc_wrCache (P i) = Some ent" using legal by auto
    from CFlush_steps [OF inv lim ent, of writeTo]
    obtain s' where s': "cache_exec writeTo op c = Some (P, s')" "wc_inv s'" "wc_limit (ws_cache s') = limit"
        "centries s' = centries s" "settles writeTo s s'" using c CFlush by blast
    have "\<forall>k\<in>centries s'. entry_ok (ws_ents s' k)" using settles_entry_ok [OF s'(5) ok] .
    then have "pool_inv limit (P, s')"
      by (intro pool_inv_same [OF inv s'(2,4)]) (simp_all add: s'(3,4) pool_invD(2) [OF inv])
    then show ?thesis using s'(1) by blast
  next
    case (CClear i)
    then obtain ent where ent: "pc_wrCache (P i) = Some ent" using legal by auto
    from cleared_pool [OF inv lim ent ent refl, of writeTo] show ?thesis using c CClear by auto
  next
    case (CClearAll i)
    let ?p = "(P i)\<lparr>pc_bitfield := clearAllUseBit (clearAllBit (pc_bitfield (P i)))\<rparr>"
    show ?thesis
    proof (cases "pc_wrCache (P i)")
      case None
      then have "cache_exec writeTo op c = Some (P(i := ?p), s)"
        using c CClearAll by (simp add: clearAllBlock_def Let_def)
      moreover have "pool_inv limit (P(i := ?p), s)"
        by (rule pool_inv_same [OF inv pool_invD(1) [OF inv] refl refl ok]) simp
      ultimately show ?thesis by blast
    next
      case (Some ent)
      have p: "pc_wrCache ?p = Some ent" using Some by simp
      have same: "pc_wrCache ((P(i := ?p)) k) = pc_wrCache (P k)" for k by simp
      from cleared_pool [OF inv lim Some p, where P' = "P(i := ?p)" and writeTo = writeTo, OF same]
      obtain s' where "clearWrCache writeTo True ?p s = Some s'" "pool_inv limit (P(i := ?p), s')" by blast
      then show ?thesis using c CClearAll Some by (simp add: clearAllBlock_def Let_def)
    qed
  next
    case (CRelease i)
    show ?thesis
    proof (cases "pc_wrCache (P i)")
      case None
      then show ?thesis using c CRelease inv by (simp add: releaseWrCache_def)
    next
      case (Some ent)
      from releaseWrCache_spec [OF pool_invD(1) [OF inv] Some pool_invD(4) [OF inv Some]]
      obtain s' where s': "releaseWrCache True (P i) s = ((P i)\<lparr>pc_wrCache := None\<rparr>, s')" "wc_inv s'"
          "centries s' = centries s - {ent}" "wc_limit (ws_cache s') = wc_limit (ws_cache s)"
          "\<forall>k. k \<noteq> ent \<longrightarrow> ws_ents s' k = ws_ents s k" by blast
      have "pool_inv limit (P(i := (P i)\<lparr>pc_wrCache := None\<rparr>), s')"
        using s'(2-5) pool_invD [OF inv] Some by (fastforce simp: pool_inv_def)
      then show ?thesis using s'(1) c CRelease by simp
    qed
  qed
qed

lemma cache_reach_inv:
  assumes "cache_reach writeTo limit c" and "limit < 2 ^ 64"
  shows "pool_inv limit c"
  using assms(1)
proof (induction rule: cache_reach.induct)
  case (start P s)
  then show ?case by (simp add: pool_inv_def wc_inv_def wc_ordered_def wc_sizes_def wc_new_def)
next
  case (step c op c')
  then show ?case using cache_exec_inv [OF step.IH assms(2) step.hyps(2), of writeTo] by auto
qed


subsection \<open>Transparency\<close>

text \<open>
  A flush of cells that the writer accepts returns; \<open>I\<close> is whatever single writes keep, and with
  \<open>pos\<close> no write is empty.
\<close>

context content_writer
begin

lemma writeCache_returns:
  assumes step: "\<And>xs off s. good s \<Longrightarrow> I s \<Longrightarrow> 0 \<le> off \<Longrightarrow> room s (off + int (length xs)) \<Longrightarrow>
      pos \<longrightarrow> xs \<noteq> [] \<Longrightarrow> \<exists>s'. writeData xs off s = (s', None) \<and> I s'"
  shows "good s \<Longrightarrow> I s \<Longrightarrow>
    \<forall>d\<in>set ds. cell_ok d \<and> room s (dc_goff d + int (dc_len d)) \<and> (pos \<longrightarrow> 0 < dc_len d) \<Longrightarrow>
    \<exists>s'. writeCache writeData ds s = (s', None) \<and> I s'"
proof (induction ds arbitrary: s rule: length_induct)
  case (1 ds)
  show ?case
  proof (cases ds)
    case Nil
    then show ?thesis using 1 by simp
  next
    case (Cons d ds')
    obtain run rest where c: "contiguous (dc_goff d + int (dc_len d)) ds' = (run, rest)" by fastforce
    have split: "ds' = run @ rest" using contiguous_split [OF c] .
    have ok: "cell_ok d" "\<forall>x\<in>set ds'. cell_ok x" using "1.prems"(3) Cons by auto
    note cells = contiguous_run_cells [OF c ok(2)]
    define xs where "xs = concat (map cell_bytes (d # run))"
    have unfold: "writeCache writeData ds s = and_then (writeData xs (dc_goff d) s) (writeCache writeData rest)"
      using Cons c by (cases "run = []") (auto simp: xs_def)
    have end': "dc_goff d + int (length xs) =
        (if run = [] then dc_goff d + int (dc_len d) else dc_goff (last run) + int (dc_len (last run)))"
      using cells ok(1) by (auto simp: xs_def add.assoc)
    have "last run \<in> set ds" if "run \<noteq> []" using that split Cons by simp
    then have room: "room s (dc_goff d + int (length xs))" using "1.prems"(3) Cons unfolding end' by auto
    have off: "0 \<le> dc_goff d" using ok(1) by (simp add: cell_ok_def)
    have len: "length (cell_bytes d) = dc_len d" using ok(1) by simp
    have "pos \<longrightarrow> 0 < length (cell_bytes d)" using "1.prems"(3) Cons unfolding len by simp
    then have "pos \<longrightarrow> xs \<noteq> []" by (auto simp: xs_def simp del: length_cell_bytes)
    from step [OF "1.prems"(1,2) off room this] obtain t where t: "writeData xs (dc_goff d) s = (t, None)" "I t"
      by blast
    have w: "good t \<and> room t = room s" using write_view [OF "1.prems"(1) off room t(1)] by blast
    have "\<exists>s'. writeCache writeData rest t = (s', None) \<and> I s'"
      by (rule "1.IH" [rule_format, OF _ _ t(2)]) (use w "1.prems"(3) Cons split in auto)
    then show ?thesis using unfold t(1) by simp
  qed
qed

end

text \<open>The adaptors of all downloads; each accepts what fits and leaves the others alone.\<close>

locale cached_disk =
  fixes writeTo :: "'d write_to" and content :: "nat \<Rightarrow> 'd \<Rightarrow> int \<Rightarrow> byte" and fits :: "nat \<Rightarrow> 'd \<Rightarrow> int \<Rightarrow> bool"
  assumes write_own: "0 \<le> off \<Longrightarrow> fits a d (off + int (length xs)) \<Longrightarrow> \<exists>d'. writeTo a xs off d = (d', None) \<and>
      (\<forall>b. content b d' = (if b = a then patch (content a d) off xs else content b d)) \<and> (\<forall>b. fits b d' = fits b d)"

definition covers :: "data_cell \<Rightarrow> int \<Rightarrow> bool" where
  "covers c x \<longleftrightarrow> dc_goff c \<le> x \<and> x < dc_goff c + int (dc_len c)"

definition cell_at :: "data_cell \<Rightarrow> int \<Rightarrow> byte" where
  "cell_at c x = cell_bytes c ! nat (x - dc_goff c)"

definition cached :: "'d wr_state \<Rightarrow> nat \<Rightarrow> data_cell \<Rightarrow> bool" where
  "cached s a c \<longleftrightarrow> (\<exists>k\<in>centries s. we_adaptor (ws_ents s k) = a \<and> c \<in> set (we_set (ws_ents s k)))"

text \<open>The bytes of the download on adaptor \<open>a\<close> are \<open>v a\<close>: in a cell, or on disk where no cell is.\<close>

definition represents :: "(nat \<Rightarrow> 'd \<Rightarrow> int \<Rightarrow> byte) \<Rightarrow> 'd wr_state \<Rightarrow> (nat \<Rightarrow> int \<Rightarrow> byte) \<Rightarrow> bool" where
  "represents content s v \<longleftrightarrow>
     (\<forall>a c x. cached s a c \<longrightarrow> covers c x \<longrightarrow> cell_at c x = v a x) \<and>
     (\<forall>a x. (\<forall>c. cached s a c \<longrightarrow> \<not> covers c x) \<longrightarrow> content a (ws_disk s) x = v a x)"

definition roomed :: "(nat \<Rightarrow> 'd \<Rightarrow> int \<Rightarrow> bool) \<Rightarrow> 'd wr_state \<Rightarrow> bool" where
  "roomed fits s \<longleftrightarrow> (\<forall>a c. cached s a c \<longrightarrow> cell_ok c \<and> fits a (ws_disk s) (dc_goff c + int (dc_len c)))"

lemma patch_cell: "cell_ok c \<Longrightarrow> patch f (dc_goff c) (cell_bytes c) x = (if covers c x then cell_at c x else f x)"
  by (simp add: patch_def covers_def cell_at_def)

lemma overlay_agree:
  "\<forall>c\<in>set cs. cell_ok c \<Longrightarrow> \<forall>c\<in>set cs. covers c x \<longrightarrow> cell_at c x = y \<Longrightarrow>
     overlay cs f x = (if \<exists>c\<in>set cs. covers c x then y else f x)"
  by (induction cs arbitrary: f) (auto simp: patch_cell)

lemma cached_same:
  assumes "centries s' = centries s" and "\<And>k. bare (ws_ents s' k) = bare (ws_ents s k)"
  shows "cached s' = cached s"
  using assms by (auto simp: cached_def bare_eq fun_eq_iff)

context cached_disk
begin

sublocale adaptor: content_writer "writeTo a" "content a" "\<lambda>_. True" "fits a" for a
proof
  fix d d' off xs
  assume "0 \<le> off" "fits a d (off + int (length xs))" "writeTo a xs off d = (d', None)"
  then show "True \<and> fits a d' = fits a d \<and> content a d' = patch (content a d) off xs"
    using write_own [of off a d xs] by auto
qed

lemma settles_represents:
  "settles writeTo s s' \<Longrightarrow> represents content s v \<Longrightarrow> roomed fits s \<Longrightarrow> represents content s' v \<and> roomed fits s'"
proof (induction rule: settles.induct)
  case (same s')
  have "cached s' = cached s" by (rule cached_same) (fact same)+
  then show ?case using same by (simp add: represents_def roomed_def)
next
  case (evict t i e s')
  let ?a = "we_adaptor (ws_ents t i)" and ?cs = "we_set (ws_ents t i)"
  have t: "represents content t v" "roomed fits t" using evict.IH [OF evict.prems] by blast+
  have own: "cached t ?a c" if "c \<in> set ?cs" for c using that evict.hyps(2) by (auto simp: cached_def)
  have cells: "\<forall>c\<in>set ?cs. cell_ok c \<and> fits ?a (ws_disk t) (dc_goff c + int (dc_len c))"
    using t(2) own by (auto simp: roomed_def)
  let ?I = "\<lambda>d. \<forall>b. fits b d = fits b (ws_disk t) \<and> (b \<noteq> ?a \<longrightarrow> content b d = content b (ws_disk t))"
  have "\<exists>d. writeCache (writeTo ?a) ?cs (ws_disk t) = (d, None) \<and> ?I d"
  proof (rule adaptor.writeCache_returns [where pos = False])
    show "\<exists>d'. writeTo ?a xs off d = (d', None) \<and> ?I d'"
      if "?I d" "0 \<le> off" "fits ?a d (off + int (length xs))" for xs off d
      using write_own [OF that(2,3)] that(1) by auto
  qed (use cells in simp_all)
  then obtain d where d: "writeCache (writeTo ?a) ?cs (ws_disk t) = (d, None)" "?I d" by blast
  have view: "content ?a d = overlay ?cs (content ?a (ws_disk t))"
    using adaptor.writeCache_view [OF d(1)] cells by blast
  have e: "ws_disk s' = d" "bare e = ([], 0, ?a)"
    using evict.hyps(3) d(1) by (auto simp: writeToDisk_def deleteDataCells_def bare_def)
  have new: "cached s' a c \<longleftrightarrow> (\<exists>k\<in>centries t. k \<noteq> i \<and> we_adaptor (ws_ents t k) = a \<and> c \<in> set (we_set (ws_ents t k)))" for a c
    using evict.hyps(4-6) e(2) unfolding cached_def bare_eq by (auto simp: bare_def) (metis empty_iff empty_set)+
  have sub: "cached t a c" if "cached s' a c" for a c using that unfolding new by (auto simp: cached_def)
  have gone: "cached s' a c \<or> (a = ?a \<and> c \<in> set ?cs)" if held: "cached t a c" for a c
  proof -
    obtain k where "k \<in> centries t" "we_adaptor (ws_ents t k) = a" "c \<in> set (we_set (ws_ents t k))"
      using held by (auto simp: cached_def)
    then show ?thesis using new [of a c] by (cases "k = i") blast+
  qed
  have "content a d x = v a x" if free: "\<forall>c. cached s' a c \<longrightarrow> \<not> covers c x" for a x
  proof (cases "\<exists>c. cached t a c \<and> covers c x")
    case True
    then obtain c where c: "a = ?a" "c \<in> set ?cs" "covers c x" using gone free by blast
    have "\<forall>c\<in>set ?cs. covers c x \<longrightarrow> cell_at c x = v ?a x" using t(1) own by (simp add: represents_def)
    then show ?thesis using overlay_agree [of ?cs x "v ?a x"] cells c view by auto
  next
    case False
    then have same: "content a (ws_disk t) x = v a x" using t(1) by (simp add: represents_def)
    show ?thesis
    proof (cases "a = ?a")
      case True
      have none: "\<not> (\<exists>c\<in>set ?cs. covers c x)" using False own True by blast
      then show ?thesis using overlay_agree [of ?cs x undefined "content ?a (ws_disk t)"] cells same view True by auto
    qed (use d(2) same in simp)
  qed
  moreover have "cell_at c x = v a x" if "cached s' a c" "covers c x" for a c x
    using t(1) sub [OF that(1)] that(2) by (simp add: represents_def)
  moreover have "cell_ok c \<and> fits a d (dc_goff c + int (dc_len c))" if "cached s' a c" for a c
    using t(2) sub [OF that] d(2) by (simp add: roomed_def)
  ultimately show ?case by (simp add: represents_def roomed_def e(1))
qed

end


text \<open>
  The download as the operations change it: \<open>cache_view\<close> is the new array of bytes and
  \<open>cache_fits\<close> what the callers respect for it: a new cell or appended bytes do not overlap cells
  that are held and fit on the disk, and only emptied entries are dropped.
\<close>

fun cache_view :: "cache_op \<Rightarrow> ('h, 'd) pool \<Rightarrow> (nat \<Rightarrow> int \<Rightarrow> byte) \<Rightarrow> nat \<Rightarrow> int \<Rightarrow> byte" where
  "cache_view (CUpdate i c) (P, s) v = (case pc_wrCache (P i) of None \<Rightarrow> v | Some ent \<Rightarrow>
     let a = we_adaptor (ws_ents s ent) in v(a := patch (v a) (dc_goff c) (cell_bytes c)))"
| "cache_view (CAppend i goff data) (P, s) v = (case pc_wrCache (P i) of None \<Rightarrow> v | Some ent \<Rightarrow>
     let a = we_adaptor (ws_ents s ent); n = snd (we_append (ws_ents s ent) goff data)
     in v(a := patch (v a) goff (take n data)))"
| "cache_view op c v = v"

definition new_range :: "(nat \<Rightarrow> 'd \<Rightarrow> int \<Rightarrow> bool) \<Rightarrow> 'd wr_state \<Rightarrow> nat \<Rightarrow> int \<Rightarrow> nat \<Rightarrow> bool" where
  "new_range fits s a goff n \<longleftrightarrow> fits a (ws_disk s) (goff + int n) \<and>
     (\<forall>c x. cached s a c \<longrightarrow> covers c x \<longrightarrow> \<not> (goff \<le> x \<and> x < goff + int n))"

fun cache_fits :: "(nat \<Rightarrow> 'd \<Rightarrow> int \<Rightarrow> bool) \<Rightarrow> cache_op \<Rightarrow> ('h, 'd) pool \<Rightarrow> bool" where
  "cache_fits fits (CInit i ent a) (P, s) \<longleftrightarrow> True"
| "cache_fits fits (CUpdate i c) (P, s) \<longleftrightarrow> (\<forall>ent. pc_wrCache (P i) = Some ent \<longrightarrow>
     new_range fits s (we_adaptor (ws_ents s ent)) (dc_goff c) (dc_len c))"
| "cache_fits fits (CAppend i goff data) (P, s) \<longleftrightarrow> (\<forall>ent. pc_wrCache (P i) = Some ent \<longrightarrow>
     new_range fits s (we_adaptor (ws_ents s ent)) goff (snd (we_append (ws_ents s ent) goff data)))"
| "cache_fits fits (CFlush i) (P, s) \<longleftrightarrow> True"
| "cache_fits fits (CClear i) (P, s) \<longleftrightarrow> (\<forall>ent. pc_wrCache (P i) = Some ent \<longrightarrow> we_set (ws_ents s ent) = [])"
| "cache_fits fits (CClearAll i) (P, s) \<longleftrightarrow> (\<forall>ent. pc_wrCache (P i) = Some ent \<longrightarrow> we_set (ws_ents s ent) = [])"
| "cache_fits fits (CRelease i) (P, s) \<longleftrightarrow> (\<forall>ent. pc_wrCache (P i) = Some ent \<longrightarrow> we_set (ws_ents s ent) = [])"

inductive cache_run ::
  "'d write_to \<Rightarrow> (nat \<Rightarrow> 'd \<Rightarrow> int \<Rightarrow> byte) \<Rightarrow> (nat \<Rightarrow> 'd \<Rightarrow> int \<Rightarrow> bool) \<Rightarrow> nat \<Rightarrow> ('h, 'd) pool \<Rightarrow>
     (nat \<Rightarrow> int \<Rightarrow> byte) \<Rightarrow> bool" for writeTo content fits limit where
  start: "(\<And>i. pc_wrCache (P i) = None) \<Longrightarrow> ws_cache s = wc_new limit \<Longrightarrow>
     cache_run writeTo content fits limit (P, s) (\<lambda>a. content a (ws_disk s))"
| step: "cache_run writeTo content fits limit c v \<Longrightarrow> cache_legal limit op c \<Longrightarrow> cache_fits fits op c \<Longrightarrow>
     cache_exec writeTo op c = Some c' \<Longrightarrow> cache_run writeTo content fits limit c' (cache_view op c v)"

lemma cache_run_reach: "cache_run writeTo content fits limit c v \<Longrightarrow> cache_reach writeTo limit c"
  by (induction rule: cache_run.induct) (auto intro: cache_reach.intros)

lemma cached_set_ent:
  assumes "ent \<in> centries s" and "we_adaptor e = we_adaptor (ws_ents s ent)"
  shows "cached (set_ent ent e s) a c \<longleftrightarrow> (\<exists>k\<in>centries s. k \<noteq> ent \<and> we_adaptor (ws_ents s k) = a \<and> c \<in> set (we_set (ws_ents s k))) \<or>
    (a = we_adaptor (ws_ents s ent) \<and> c \<in> set (we_set e))"
  using assms by (auto simp: cached_def set_ent_def)

lemma cached_split:
  assumes "ent \<in> centries s"
  shows "cached s a c \<longleftrightarrow> (\<exists>k\<in>centries s. k \<noteq> ent \<and> we_adaptor (ws_ents s k) = a \<and> c \<in> set (we_set (ws_ents s k))) \<or>
    (a = we_adaptor (ws_ents s ent) \<and> c \<in> set (we_set (ws_ents s ent)))"
  using assms by (auto simp: cached_def)

text \<open>A change of the entry \<open>ent\<close> that puts the bytes \<open>xs\<close> at \<open>goff\<close> into its cells.\<close>

lemma represents_write:
  assumes "represents content s v" and "roomed fits s" and "new_range fits s a goff (length xs)"
    and disk: "ws_disk s' = ws_disk s"
    and new: "\<And>b d. cached s' b d \<Longrightarrow> cached s b d \<or> (b = a \<and> d = c')"
    and old: "\<And>b d. cached s b d \<Longrightarrow> cached s' b d \<or> (b = a \<and> (\<forall>x. covers d x \<longrightarrow> covers c' x \<and> cell_at c' x = cell_at d x))"
    and c': "cached s' a c'" "cell_ok c'" "dc_goff c' + int (dc_len c') = goff + int (length xs)"
      "\<And>x. goff \<le> x \<Longrightarrow> x < goff + int (length xs) \<Longrightarrow> covers c' x \<and> cell_at c' x = xs ! nat (x - goff)"
      "\<And>x. covers c' x \<Longrightarrow> \<not> (goff \<le> x \<and> x < goff + int (length xs)) \<Longrightarrow> \<exists>d. cached s a d \<and> covers d x \<and> cell_at d x = cell_at c' x"
  shows "represents content s' (v(a := patch (v a) goff xs)) \<and> roomed fits s'"
proof
  let ?v = "v(a := patch (v a) goff xs)"
  have free: "\<not> (goff \<le> x \<and> x < goff + int (length xs))" if "cached s a d" "covers d x" for d x
    using assms(3) that by (simp add: new_range_def)
  have vin: "?v a x = xs ! nat (x - goff)" if "goff \<le> x" "x < goff + int (length xs)" for x
    using that by (simp add: patch_def)
  have vout: "?v b x = v b x" if "b = a \<Longrightarrow> \<not> (goff \<le> x \<and> x < goff + int (length xs))" for b x
    using that by (auto simp: patch_def)
  have held: "cell_at d x = v b x" if "cached s b d" "covers d x" for b d x
    using assms(1) that by (simp add: represents_def)
  show "represents content s' ?v" unfolding represents_def disk
  proof (intro conjI allI impI)
    fix b d x assume d: "cached s' b d" "covers d x"
    show "cell_at d x = ?v b x"
    proof (cases "b = a \<and> d = c'")
      case True
      show ?thesis
      proof (cases "goff \<le> x \<and> x < goff + int (length xs)")
        case False
        then obtain e where "cached s a e" "covers e x" "cell_at e x = cell_at c' x" using c'(5) d True by blast
        then show ?thesis using held [of a e x] vout [of b x] False True by simp
      qed (use True c'(4) vin in simp)
    next
      case False
      then have s: "cached s b d" using new d(1) by blast
      then have "b = a \<Longrightarrow> \<not> (goff \<le> x \<and> x < goff + int (length xs))" using free d(2) by blast
      then show ?thesis using held [OF s d(2)] vout [of b x] by simp
    qed
  next
    fix b x assume un: "\<forall>d. cached s' b d \<longrightarrow> \<not> covers d x"
    have out: "b = a \<Longrightarrow> \<not> (goff \<le> x \<and> x < goff + int (length xs))" using un c'(1,4) by blast
    have "\<forall>d. cached s b d \<longrightarrow> \<not> covers d x" using un old c'(1) by blast
    then have "content b (ws_disk s) x = v b x" using assms(1) by (simp add: represents_def)
    then show "content b (ws_disk s) x = ?v b x" using vout [OF out] by simp
  qed
  show "roomed fits s'"
    using new c'(2,3) assms(2,3) unfolding roomed_def new_range_def disk by metis
qed

lemma cacheData_represents:
  assumes rep: "represents content s v" and room: "roomed fits s" and ent: "ent \<in> centries s"
    and cell: "cell_ok c" "dc_goff c \<notin> dc_goff ` set (we_set (ws_ents s ent))"
    and new: "new_range fits s (we_adaptor (ws_ents s ent)) (dc_goff c) (dc_len c)"
  defines "s' \<equiv> set_ent ent (fst (cacheData (ws_ents s ent) c)) s"
  shows "represents content s' (v(we_adaptor (ws_ents s ent) := patch (v (we_adaptor (ws_ents s ent))) (dc_goff c) (cell_bytes c))) \<and>
    roomed fits s'"
proof -
  let ?a = "we_adaptor (ws_ents s ent)"
  let ?e = "fst (cacheData (ws_ents s ent) c)"
  have e: "we_adaptor ?e = ?a" "set (we_set ?e) = insert c (set (we_set (ws_ents s ent)))"
    using cell(2) by (simp_all add: cacheData_def set_insort_key)
  have cached': "cached s' b d \<longleftrightarrow> cached s b d \<or> (b = ?a \<and> d = c)" for b d
    unfolding s'_def cached_set_ent [OF ent e(1)] cached_split [OF ent, of b d] e(2) by auto
  show ?thesis
  proof (rule represents_write [OF rep room, of ?a "dc_goff c" "cell_bytes c" s' c])
    show "new_range fits s ?a (dc_goff c) (length (cell_bytes c))" using new cell(1) by simp
  qed (use cell cached' in \<open>auto simp: s'_def set_ent_def covers_def cell_at_def\<close>)
qed

lemma we_append_represents:
  assumes rep: "represents content s v" and room: "roomed fits s" and ent: "ent \<in> centries s"
    and new: "new_range fits s (we_adaptor (ws_ents s ent)) goff (snd (we_append (ws_ents s ent) goff data))"
    and len: "length data < 2 ^ 64"
  defines "s' \<equiv> set_ent ent (fst (we_append (ws_ents s ent) goff data)) s"
  shows "represents content s' (v(we_adaptor (ws_ents s ent) :=
      patch (v (we_adaptor (ws_ents s ent))) goff (take (snd (we_append (ws_ents s ent) goff data)) data))) \<and> roomed fits s'"
proof (cases rule: we_append_cases [of "ws_ents s ent" goff data])
  case same
  then have "s' = s" by (simp add: s'_def set_ent_def)
  then show ?thesis using same rep room by simp
next
  case (extend cs c wlen c')
  let ?a = "we_adaptor (ws_ents s ent)"
  let ?e = "fst (we_append (ws_ents s ent) goff data)"
  have c: "cached s ?a c" using ent extend(1) by (auto simp: cached_def)
  then have ok: "cell_ok c" using room by (simp add: roomed_def)
  have w: "wlen \<le> dc_capacity c - dc_len c" "wlen \<le> length data"
    using extend(3) ok by (auto simp: cell_ok_def usub_def)
  note ext = extended_cell [OF ok w, folded extend(4)]
  have len': "dc_len c' = dc_len c + wlen" "dc_goff c' = dc_goff c" using extend(4) by simp_all
  have e: "we_adaptor ?e = ?a" "set (we_set ?e) = insert c' (set cs)"
      "set (we_set (ws_ents s ent)) = insert c (set cs)"
    using extend(1,5) by simp_all
  have cov: "covers c' x \<longleftrightarrow> covers c x \<or> (goff \<le> x \<and> x < goff + int wlen)" for x
    using extend(2) len' by (auto simp: covers_def)
  have at_old: "cell_at c' x = cell_at c x" if "covers c x" for x
  proof -
    have "nat (x - dc_goff c) < dc_len c" using that unfolding covers_def by linarith
    then show ?thesis using ok by (simp add: cell_at_def ext(2) len'(2) nth_append)
  qed
  have at_new: "cell_at c' x = take wlen data ! nat (x - goff)" if "goff \<le> x" "x < goff + int wlen" for x
  proof -
    have "nat (x - dc_goff c) = dc_len c + nat (x - goff)" using that(1) extend(2) by linarith
    then show ?thesis using ok by (simp add: cell_at_def ext(2) len'(2) nth_append)
  qed
  have split': "cached s' b d \<longleftrightarrow> (\<exists>k\<in>centries s. k \<noteq> ent \<and> we_adaptor (ws_ents s k) = b \<and> d \<in> set (we_set (ws_ents s k))) \<or>
      (b = ?a \<and> (d = c' \<or> d \<in> set cs))" for b d
    unfolding s'_def cached_set_ent [OF ent e(1)] e(2) by simp
  have split: "cached s b d \<longleftrightarrow> (\<exists>k\<in>centries s. k \<noteq> ent \<and> we_adaptor (ws_ents s k) = b \<and> d \<in> set (we_set (ws_ents s k))) \<or>
      (b = ?a \<and> (d = c \<or> d \<in> set cs))" for b d
    unfolding cached_split [OF ent, of b d] e(3) by simp
  have snd': "snd (we_append (ws_ents s ent) goff data) = wlen" using extend(5) by simp
  have n: "length (take wlen data) = wlen" using w by simp
  show ?thesis unfolding snd'
  proof (rule represents_write [OF rep room, of ?a goff "take wlen data" s' c'])
    show "new_range fits s ?a goff (length (take wlen data))" using new n unfolding snd' by simp
    show "cached s b d \<or> (b = ?a \<and> d = c')" if "cached s' b d" for b d using that unfolding split split' by blast
    show "cached s' b d \<or> (b = ?a \<and> (\<forall>x. covers d x \<longrightarrow> covers c' x \<and> cell_at c' x = cell_at d x))"
      if "cached s b d" for b d using that cov at_old unfolding split split' by blast
    show "cached s' ?a c'" unfolding split' by simp
    show "\<exists>d. cached s ?a d \<and> covers d x \<and> cell_at d x = cell_at c' x"
      if "covers c' x" "\<not> (goff \<le> x \<and> x < goff + int (length (take wlen data)))" for x
      using that c cov [of x] at_old [of x] unfolding n by metis
  qed (use ext(1) n cov at_new len' extend(2) in \<open>simp_all add: s'_def set_ent_def\<close>)
qed

lemma dropped_same:
  assumes "\<And>k. k \<in> centries s' \<Longrightarrow> k \<in> centries s" and "\<And>k. k \<in> centries s \<Longrightarrow> k \<notin> centries s' \<or> k = ent \<Longrightarrow> we_set (ws_ents s k) = []"
    and "\<And>k. k \<noteq> ent \<Longrightarrow> ws_ents s' k = ws_ents s k" and "ent \<in> centries s' \<Longrightarrow> we_set (ws_ents s' ent) = []"
  shows "cached s' = cached s"
proof (rule ext)+
  fix a c
  have "(\<exists>k\<in>centries s'. we_adaptor (ws_ents s' k) = a \<and> c \<in> set (we_set (ws_ents s' k))) =
      (\<exists>k\<in>centries s. we_adaptor (ws_ents s k) = a \<and> c \<in> set (we_set (ws_ents s k)))"
    using assms by (metis empty_iff empty_set)
  then show "cached s' a c = cached s a c" by (simp add: cached_def)
qed

context cached_disk
begin

lemma cache_exec_represents:
  assumes inv: "pool_inv limit (P, s)" and lim: "limit < 2 ^ 64" and legal: "cache_legal limit op (P, s)"
    and fit: "cache_fits fits op (P, s)" and rep: "represents content s v" and room: "roomed fits s"
    and exec: "cache_exec writeTo op (P, s) = Some (P', s')"
  shows "represents content s' (cache_view op (P, s) v) \<and> roomed fits s'"
proof (cases op)
  case (CInit i ent a)
  from CInit_steps [OF inv, of i ent a writeTo] legal CInit exec
  obtain u where u: "centries u = insert ent (centries s)" "ws_disk u = ws_disk s" "settles writeTo u s'"
      "\<forall>k. bare (ws_ents u k) = bare (if k = ent then we_new a else ws_ents s k)" by auto
  have "ent \<notin> centries s" using legal CInit by simp
  then have "cached u b d = cached s b d" for b d
    using u(1,4) by (auto simp: cached_def bare_eq we_new_def)
  then have "cached u = cached s" by (intro ext)
  then have "represents content u v" "roomed fits u" using rep room u(2) by (simp_all add: represents_def roomed_def)
  then show ?thesis using settles_represents [OF u(3)] CInit by simp
next
  case (CUpdate i c)
  then obtain ent where ent: "pc_wrCache (P i) = Some ent" "cell_ok c"
      "dc_goff c \<notin> dc_goff ` set (we_set (ws_ents s ent))" using legal by (auto split: option.splits)
  have st: "settles writeTo (set_ent ent (fst (cacheData (ws_ents s ent) c)) s) s'"
    using CUpdate_steps [OF inv legal [unfolded CUpdate] ent(1), of writeTo] exec CUpdate by auto
  have "new_range fits s (we_adaptor (ws_ents s ent)) (dc_goff c) (dc_len c)" using fit CUpdate ent(1) by simp
  note r = cacheData_represents [OF rep room pool_invD(4) [OF inv ent(1)] ent(2,3) this]
  show ?thesis using settles_represents [OF st conjunct1 [OF r] conjunct2 [OF r]] CUpdate ent(1) by (simp add: Let_def)
next
  case (CAppend i goff data)
  then obtain ent where ent: "pc_wrCache (P i) = Some ent" "length data < 2 ^ 64" using legal by auto
  have st: "settles writeTo (set_ent ent (fst (we_append (ws_ents s ent) goff data)) s) s'"
    using CAppend_steps [OF inv legal [unfolded CAppend] ent(1), of writeTo] exec CAppend by auto
  have "new_range fits s (we_adaptor (ws_ents s ent)) goff (snd (we_append (ws_ents s ent) goff data))"
    using fit CAppend ent(1) by simp
  note r = we_append_represents [OF rep room pool_invD(4) [OF inv ent(1)] this ent(2)]
  show ?thesis using settles_represents [OF st conjunct1 [OF r] conjunct2 [OF r]] CAppend ent(1) by (simp add: Let_def)
next
  case (CFlush i)
  then obtain ent where ent: "pc_wrCache (P i) = Some ent" using legal by auto
  have "settles writeTo s s'" using CFlush_steps [OF inv lim ent, of writeTo] exec CFlush by auto
  then show ?thesis using settles_represents [OF _ rep room] CFlush by simp
next
  case (CClear i)
  then obtain ent where ent: "pc_wrCache (P i) = Some ent" using legal by auto
  have s': "centries s' = centries s" "we_set (ws_ents s' ent) = []" "ws_disk s' = ws_disk s"
      "\<forall>k. k \<noteq> ent \<longrightarrow> ws_ents s' k = ws_ents s k"
    using CClear_steps [OF inv lim ent ent, of writeTo] exec CClear by auto
  have "cached s' = cached s" by (rule dropped_same [where ent = ent]) (use s' fit CClear ent in auto)
  then show ?thesis using rep room s'(3) CClear by (simp add: represents_def roomed_def)
next
  case (CClearAll i)
  let ?p = "(P i)\<lparr>pc_bitfield := clearAllUseBit (clearAllBit (pc_bitfield (P i)))\<rparr>"
  show ?thesis
  proof (cases "pc_wrCache (P i)")
    case None
    then show ?thesis using exec CClearAll rep room by (simp add: clearAllBlock_def Let_def)
  next
    case (Some ent)
    then have "pc_wrCache ?p = Some ent" by simp
    from CClear_steps [OF inv lim Some this, of writeTo] exec CClearAll Some
    have s': "centries s' = centries s" "we_set (ws_ents s' ent) = []" "ws_disk s' = ws_disk s"
        "\<forall>k. k \<noteq> ent \<longrightarrow> ws_ents s' k = ws_ents s k" by (auto simp: clearAllBlock_def Let_def)
    have "cached s' = cached s" by (rule dropped_same [where ent = ent]) (use s' fit CClearAll Some in auto)
    then show ?thesis using rep room s'(3) CClearAll by (simp add: represents_def roomed_def)
  qed
next
  case (CRelease i)
  show ?thesis
  proof (cases "pc_wrCache (P i)")
    case None
    then show ?thesis using exec CRelease rep room by (simp add: releaseWrCache_def)
  next
    case (Some ent)
    have disk: "ws_disk s' = ws_disk s" using exec CRelease Some
      by (auto simp: releaseWrCache_def wc_remove_def set_ent_def Let_def split: prod.splits if_splits)
    from releaseWrCache_spec [OF pool_invD(1) [OF inv] Some pool_invD(4) [OF inv Some]] exec CRelease
    have s': "centries s' = centries s - {ent}" "\<forall>k. k \<noteq> ent \<longrightarrow> ws_ents s' k = ws_ents s k" by auto
    have "cached s' = cached s" by (rule dropped_same [where ent = ent]) (use s' fit CRelease Some in auto)
    then show ?thesis using rep room disk CRelease by (simp add: represents_def roomed_def)
  qed
qed

lemma cache_run_represents:
  assumes "cache_run writeTo content fits limit c v" and "limit < 2 ^ 64"
  shows "represents content (snd c) v \<and> roomed fits (snd c)"
  using assms(1)
proof (induction rule: cache_run.induct)
  case (start P s)
  then show ?case by (auto simp: represents_def roomed_def cached_def wc_new_def)
next
  case (step c v op c')
  obtain P s P' s' where c: "c = (P, s)" "c' = (P', s')" by fastforce
  have "pool_inv limit (P, s)" using cache_reach_inv [OF cache_run_reach [OF step.hyps(1)] assms(2)] c by simp
  from cache_exec_represents [OF this assms(2)] step c show ?case by (metis snd_conv)
qed

end

text \<open>The adaptors of several downloads, each with its own disk writer.\<close>

definition adaptor_write :: "'f disk_ops \<Rightarrow> (nat \<Rightarrow> 'f) write_to" where
  "adaptor_write ops a xs off D = (case dk_write ops (D a) xs off of (f, err) \<Rightarrow> (D(a := f), err))"

sublocale roomy_disk \<subseteq> adaptors: cached_disk "adaptor_write ops" "\<lambda>a D. content (D a)" "\<lambda>a D. fits (D a)"
proof
  fix a off and xs :: "byte list" and D :: "nat \<Rightarrow> 'a"
  assume "0 \<le> off" "fits (D a) (off + int (length xs))"
  from write_returns [OF this(1) _ this(2)] obtain f' where f': "dk_write ops (D a) xs off = (f', None)" "fits f' = fits (D a)"
    by auto
  have "content f' = patch (content (D a)) off xs" using write_content [OF \<open>0 \<le> off\<close> f'(1)] .
  then show "\<exists>D'. adaptor_write ops a xs off D = (D', None) \<and>
      (\<forall>b. content (D' b) = (if b = a then patch (content (D a)) off xs else content (D b))) \<and>
      (\<forall>b. fits (D' b) = fits (D b))"
    using f' by (simp add: adaptor_write_def)
qed

end
