(* ===== verification/DiskProperties.thy ===== *)
theory DiskProperties
  imports PieceCache
begin

text \<open>
  What the disk adaptors, the write cache and the pieces guarantee: reads and writes of a download
  that is laid out over several files act on one flat array of bytes, a piece of a requested file
  can always be written, and the write cache holds back exactly the bytes it later writes.
\<close>

text \<open>A small download for the witnesses: files of 3, 2 (not requested) and 4 bytes, pieces of 4.\<close>

definition three_files :: "file_entry list" where
  "three_files = [\<lparr>fe_length = 3, fe_offset = 0, fe_path = ''a'', fe_requested = True\<rparr>,
     \<lparr>fe_length = 2, fe_offset = 3, fe_path = ''b'', fe_requested = False\<rparr>,
     \<lparr>fe_length = 4, fe_offset = 5, fe_path = ''c'', fe_requested = True\<rparr>]"

definition three_reset :: "byte_array multi_disk" where
  "three_reset = the (resetDiskWriterEntries (\<lambda>_. False) (\<lambda>_ _. \<lparr>ba_maxLength = 10, ba_buf = []\<rparr>) three_files
     \<lparr>md_pieceLength = 4, md_entries = [], md_opened = [], md_readOnly = False\<rparr>)"

lemma three_reset_Some:
  "resetDiskWriterEntries (\<lambda>_. False) (\<lambda>_ _. \<lparr>ba_maxLength = 10, ba_buf = []\<rparr>) three_files
     \<lparr>md_pieceLength = 4, md_entries = [], md_opened = [], md_readOnly = False\<rparr> = Some three_reset"
  by (simp add: three_reset_def resetDiskWriterEntries_def)

lemma three_layout: "file_layout 0 three_files" "layout 0 (md_entries three_reset)"
    "total_size (md_entries three_reset) = 9"
  by code_simp+

subsection \<open>Disks\<close>

text \<open>
  C5: after the entries of a download are created, any range of a piece that holds a byte of a
  requested file can be written: whatever files the range crosses (requested or not, empty or
  not), each has a writer, and the write returns without an error and patches the flat array.
  The disk is one that accepts what fits.
\<close>

theorem piece_of_requested_file_is_writable:
  assumes disk: "roomy_disk ops content fits"
    and reset: "resetDiskWriterEntries exists' new fes md = Some md'" and pl: "0 < md_pieceLength md"
    and lay: "file_layout 0 fes" and tot: "(\<Sum>e\<leftarrow>fes. fe_length e) < 2 ^ 63"
    and new: "\<forall>e\<in>set fes. fits (new (fe_path e) (md_readOnly md)) (fe_length e)"
    and j: "j < length fes" "fe_requested (fes ! j)" "0 < fe_length (fes ! j)"
      "touches (md_pieceLength md) p (fes ! j)"
    and rng: "xs \<noteq> []" "p * md_pieceLength md \<le> off" "0 \<le> off" "off + int (length xs) \<le> (p + 1) * md_pieceLength md"
      "off + int (length xs) \<le> (\<Sum>e\<leftarrow>fes. fe_length e)"
  shows "\<exists>md''. md_writeData ops xs off md' = (md'', None) \<and> files md'' = fes \<and>
    flat content (md_entries md'') = patch (flat content (md_entries md')) off xs"
proof -
  have df: "disk_file ops content" by (rule roomy_disk.axioms(1) [OF disk])
  let ?es = "md_entries md'" and ?pl = "md_pieceLength md"
  note rw = reset_writers [OF reset pl lay tot]
  have fl: "files md' = fes" and layout': "layout 0 ?es" using rw by blast+
  have len: "length ?es = length fes" using fl by (metis files_def length_map)
  have file_at: "dwe_file (?es ! k) = fes ! k" if "k < length fes" for k
    using fl that len by (metis files_def nth_map)
  have total: "total_size ?es = (\<Sum>e\<leftarrow>fes. fe_length e)" using total_size_files [of md'] fl by simp
  have n: "0 < int (length xs)" using rng(1) by simp
  have off: "off < total_size ?es" using rng(5) n total by linarith
  obtain i where i: "findFirstDiskWriterEntry ?es off = Inl i"
    using findFirst_returns [OF layout' rng(3) off] by blast
  note first = disk_file.findFirst_in [OF df i]
  have rdy: "ready fits (?es ! k)" if k: "k < length ?es" "p * ?pl < fstart (?es ! k) + fsize (?es ! k)"
      "fstart (?es ! k) < off + int (length xs)" for k
  proof -
    have klen: "k < length fes" using k(1) len by simp
    have "touches ?pl p (fes ! k)" unfolding touches_def
      using k(2,3) rng(4) file_at [OF klen] by (simp add: fe_lastOffset_def)
    then obtain f where f: "dwe_writer (?es ! k) = Some f"
      using rw [of p] j klen by blast
    have "f = new (fe_path (fes ! k)) (md_readOnly md)"
      using reset_new_writers [OF reset k(1) f] file_at [OF klen] by simp
    then show ?thesis using f new nth_mem [OF klen] file_at [OF klen] by (simp add: ready_def)
  qed
  have ends: "fstart (?es ! i) + fsize (?es ! i) \<le> fstart (?es ! k)" if "i < k" "k < length ?es" for k
    using total_mono [OF layout', of "Suc i" k] total_take_Suc [of i ?es] layout_nth [OF layout', of i]
      layout_nth [OF layout', of k] first that by simp
  have "\<exists>md''. write_loop ops [i..<length ?es] xs (off - fstart (?es ! i)) md' = (md'', None) \<and>
      (\<forall>k. ready fits (?es ! k) \<longrightarrow> ready fits (md_entries md'' ! k))"
  proof (rule roomy_disk.write_loop_returns [OF disk _ layout'])
    show "ready fits (?es ! i)" 
      by (rule rdy) (use first rng(2) n in \<open>unfold isInRange_iff, linarith+\<close>)
    show "ready fits (?es ! k)" if "i < k" "k < length ?es"
        "fstart (?es ! k) < fstart (?es ! i) + (off - fstart (?es ! i)) + int (length xs)" for k
    proof (rule rdy [OF that(2)])
      show "p * ?pl < fstart (?es ! k) + fsize (?es ! k)"
        using ends [OF that(1,2)] layout_nth [OF layout' that(2)] first rng(2) by (simp add: isInRange_iff)
    qed (use that(3) in simp)
  qed (use first rng(5) total in \<open>simp_all add: isInRange_iff\<close>)
  then obtain md'' where w: "md_writeData ops xs off md' = (md'', None)"
    by (auto simp: md_writeData_def i)
  show ?thesis using disk_file.md_writeData_ok [OF df w layout'] w rng(5) fl total by simp
qed

theorem piece_of_requested_file_is_writable_witness:
  "\<exists>md''. md_writeData ba_ops [7, 8, 9, 10] 4 three_reset = (md'', None) \<and> files md'' = three_files \<and>
    flat ba_content (md_entries md'') = patch (flat ba_content (md_entries three_reset)) 4 [7, 8, 9, 10]"
  by (rule piece_of_requested_file_is_writable
      [OF byte_array.roomy_disk_axioms three_reset_Some, where p = 1 and j = 2])
    (simp_all add: three_files_def touches_def fe_lastOffset_def ba_fits_def)

text \<open>
  C6: the cells of the write cache, merged into as few writes as they allow, reach a download
  of several files exactly: with room for them the flush returns, and the flat array is the old
  one with each cell written over it in turn.
\<close>

theorem multi_disk_flush:
  assumes disk: "roomy_disk ops content fits" and lay: "layout 0 (md_entries md)"
    and rdy: "\<forall>e\<in>set (md_entries md). ready fits e"
    and cells: "\<forall>c\<in>set cs. cell_ok c \<and> 0 < dc_len c \<and> dc_goff c + int (dc_len c) \<le> total_size (md_entries md)"
  shows "\<exists>md'. writeCache (md_writeData ops) cs md = (md', None) \<and> map dwe_file (md_entries md') = map dwe_file (md_entries md) \<and>
    flat content (md_entries md') = overlay cs (flat content (md_entries md))"
proof -
  have df: "disk_file ops content" by (rule roomy_disk.axioms(1) [OF disk])
  let ?room = "\<lambda>md x. x \<le> total_size (md_entries md)"
  have cw: "content_writer (md_writeData ops) (\<lambda>md. flat content (md_entries md)) (\<lambda>md. layout 0 (md_entries md)) ?room"
    by (rule disk_file.multi_content_writer [OF df])
  let ?I = "\<lambda>m. files m = files md \<and> (\<forall>k<length (md_entries m). ready fits (md_entries m ! k))"
  have "\<exists>md'. writeCache (md_writeData ops) cs md = (md', None) \<and> ?I md'"
  proof (rule content_writer.writeCache_returns [OF cw, where pos = True])
    show "\<exists>m'. md_writeData ops xs off m = (m', None) \<and> ?I m'"
      if good: "layout 0 (md_entries m)" and I: "?I m" and off: "0 \<le> off" "off + int (length xs) \<le> total_size (md_entries m)"
        and ne: "True \<longrightarrow> xs \<noteq> []" for xs off m
    proof -
      have "off < total_size (md_entries m)" using off ne by (cases xs) simp_all
      from findFirst_returns [OF good off(1) this]
      obtain i where i: "findFirstDiskWriterEntry (md_entries m) off = Inl i" ..
      note first = disk_file.findFirst_in [OF df i]
      have "\<exists>m'. write_loop ops [i..<length (md_entries m)] xs (off - fstart (md_entries m ! i)) m = (m', None) \<and>
          (\<forall>k. ready fits (md_entries m ! k) \<longrightarrow> ready fits (md_entries m' ! k))"
        by (rule roomy_disk.write_loop_returns [OF disk _ good]) (use first off I in \<open>simp_all add: isInRange_iff\<close>)
      then obtain m' where m': "md_writeData ops xs off m = (m', None)"
          "\<forall>k. ready fits (md_entries m ! k) \<longrightarrow> ready fits (md_entries m' ! k)"
        by (auto simp: md_writeData_def i)
      have fl: "files m' = files m" using disk_file.md_writeData_ok [OF df m'(1) good off(2)] by blast
      then show ?thesis using m' I files_length [OF fl] by auto
    qed
  qed (use lay rdy cells in auto)
  then obtain md' where md': "writeCache (md_writeData ops) cs md = (md', None)" "files md' = files md" by blast
  have "flat content (md_entries md') = overlay cs (flat content (md_entries md))"
    using content_writer.writeCache_view [OF cw md'(1) lay] cells by blast
  then show ?thesis using md' by (auto simp: files_def)
qed

definition three_open :: "byte_array multi_disk" where
  "three_open = three_reset\<lparr>md_entries := map (\<lambda>e. e\<lparr>dwe_writer := Some \<lparr>ba_maxLength = 10, ba_buf = []\<rparr>\<rparr>)
     (md_entries three_reset)\<rparr>"

definition two_cells :: "data_cell list" where
  "two_cells = [\<lparr>dc_goff = 1, dc_data = [1, 2, 3], dc_offset = 0, dc_len = 3, dc_capacity = 3\<rparr>,
     \<lparr>dc_goff = 4, dc_data = [9, 4, 5], dc_offset = 1, dc_len = 2, dc_capacity = 2\<rparr>]"

theorem multi_disk_flush_witness:
  "\<exists>md'. writeCache (md_writeData ba_ops) two_cells three_open = (md', None) \<and>
    map dwe_file (md_entries md') = map dwe_file (md_entries three_open) \<and>
    flat ba_content (md_entries md') = overlay two_cells (flat ba_content (md_entries three_open))"
proof (rule multi_disk_flush [OF byte_array.roomy_disk_axioms])
  show "layout 0 (md_entries three_open)"
    by (rule layout_files [THEN iffD2, OF _ three_layout(2)]) (simp add: three_open_def)
  have files: "map dwe_file (md_entries three_reset) = three_files"
    by code_simp
  have "fsize e \<le> 10" if "e \<in> set (md_entries three_reset)" for e
  proof -
    have "dwe_file e \<in> set three_files" using that files by (metis image_eqI set_map)
    then show ?thesis by (auto simp: three_files_def)
  qed
  then show "\<forall>e\<in>set (md_entries three_open). ready ba_fits e"
    by (auto simp: ready_def ba_fits_def three_open_def)
  have "total_size (md_entries three_open) = 9" by code_simp
  then show "\<forall>c\<in>set two_cells. cell_ok c \<and> 0 < dc_len c \<and> dc_goff c + int (dc_len c) \<le> total_size (md_entries three_open)"
    by (simp add: two_cells_def cell_ok_def)
qed



text \<open>
  \<open>ByteArrayDiskWriter\<close> refuses exactly the writes that end beyond its maximum length, with
  no effect; any other write extends the buffer as far as needed (with zeros up to the offset),
  changes no other byte, keeps the limit, and is read back.
\<close>

theorem byte_array_writer:
  assumes "0 \<le> offset" and "ba_size f \<le> int (ba_maxLength f)"
  shows "(if int (ba_maxLength f) < offset + int (length data)
          then ba_writeData f data offset = (f, Some UNKNOWN_ERROR)
          else \<exists>f'. ba_writeData f data offset = (f', None) \<and> ba_content f' = patch (ba_content f) offset data \<and>
            ba_maxLength f' = ba_maxLength f \<and> ba_size f' = max (ba_size f) (offset + int (length data)) \<and>
            ba_size f' \<le> int (ba_maxLength f') \<and> ba_readData f' (length data) offset = Inl data)"
proof (cases "int (ba_maxLength f) < offset + int (length data)")
  case True
  then show ?thesis by (simp add: ba_writeData_def)
next
  case False
  define buf where "buf = (if ba_size f < offset then ba_buf f @ replicate (nat (offset - ba_size f)) 0 else ba_buf f)"
  define f' where "f' = f\<lparr>ba_buf := take (nat offset) buf @ data @ drop (nat offset + length data) buf\<rparr>"
  have w: "ba_writeData f data offset = (f', None)"
    using False by (simp add: ba_writeData_def f'_def buf_def Let_def)
  have len: "int (length buf) = max (ba_size f) offset" using assms(1) by (auto simp: buf_def ba_size_def)
  then have ge: "nat offset \<le> length buf" by linarith
  have size: "ba_size f' = max (ba_size f) (offset + int (length data))"
  proof -
    have "length (ba_buf f') = nat offset + length data + (length buf - (nat offset + length data))"
      using ge by (simp add: f'_def)
    then show ?thesis using len ge assms(1) by (simp add: ba_size_def)
  qed
  have "ba_readData f' (length data) offset = Inl data" using ge by (simp add: ba_readData_def f'_def)
  then show ?thesis using w size False assms ba_write_content [OF assms(1) w] by (simp add: f'_def)
qed

theorem byte_array_writer_witness:
  "\<exists>f'. ba_writeData \<lparr>ba_maxLength = 6, ba_buf = [1, 2]\<rparr> [7, 8] 4 = (f', None) \<and> ba_buf f' = [1, 2, 0, 0, 7, 8]"
proof -
  have "\<exists>f'. ba_writeData \<lparr>ba_maxLength = 6, ba_buf = [1, 2]\<rparr> [7, 8] 4 = (f', None)"
    using byte_array_writer [of 4 "\<lparr>ba_maxLength = 6, ba_buf = [1, 2]\<rparr>" "[7, 8]"] by (auto simp: ba_size_def)
  then show ?thesis by (simp add: ba_writeData_def ba_size_def Let_def numeral_eq_Suc)
qed

subsection \<open>Write cache\<close>

text \<open>
  C8: whatever pieces do with the write cache, in any order, its total is the sum of the bytes
  held and stays within the limit, every piece's entry is in the set, the cells of an entry are
  in order; and the next operation, if legal, returns: no assertion fails and the eviction loop
  ends, even if writes to the disk fail.
\<close>

theorem write_cache_operations_return:
  assumes "cache_reach writeTo limit (P, s)" and "limit < 2 ^ 64"
  shows "wc_total (ws_cache s) = (\<Sum>k\<in>centries s. sum_list (map dc_len (we_set (ws_ents s k)))) \<and>
    wc_total (ws_cache s) \<le> limit \<and>
    (\<forall>i ent. pc_wrCache (P i) = Some ent \<longrightarrow> ent \<in> centries s) \<and>
    (\<forall>k\<in>centries s. sorted (map dc_goff (we_set (ws_ents s k))) \<and> distinct (map dc_goff (we_set (ws_ents s k)))) \<and>
    (\<forall>op. cache_legal limit op (P, s) \<longrightarrow> (\<exists>P' s'. cache_exec writeTo op (P, s) = Some (P', s')))"
proof -
  note inv = cache_reach_inv [OF assms]
  have sizes: "wc_total (ws_cache s) = (\<Sum>k\<in>centries s. we_size (ws_ents s k))" "wc_total (ws_cache s) \<le> limit"
    using pool_invD(1,2) [OF inv] by (auto simp: wc_inv_def wc_sizes_def)
  have "(\<Sum>k\<in>centries s. we_size (ws_ents s k)) = (\<Sum>k\<in>centries s. sum_list (map dc_len (we_set (ws_ents s k))))"
    by (rule sum.cong) (use pool_invD(5) [OF inv] in \<open>simp_all add: entry_ok_def\<close>)
  then show ?thesis using sizes pool_invD(4,5) [OF inv] cache_exec_inv [OF inv assms(2), of _ writeTo]
    by (fastforce simp: entry_ok_def)
qed

definition no_pieces :: "nat \<Rightarrow> byte list piece" where
  "no_pieces i = piece_new i 10 16384"

definition empty_cache :: "(nat \<Rightarrow> byte_array) wr_state" where
  "empty_cache = \<lparr>ws_cache = wc_new 3, ws_ents = \<lambda>_. we_new 0, ws_disk = \<lambda>_. \<lparr>ba_maxLength = 10, ba_buf = []\<rparr>\<rparr>"

lemma empty_cache_simps [simp]:
  "pc_wrCache (no_pieces i) = None" "ws_cache empty_cache = wc_new 3"
  by (simp_all add: no_pieces_def piece_new_def empty_cache_def)

theorem write_cache_operations_return_witness:
  "\<exists>P' s'. cache_exec (adaptor_write ba_ops) (CInit 0 7 0) (no_pieces, empty_cache) = Some (P', s')"
proof -
  have "cache_reach (adaptor_write ba_ops) 3 (no_pieces, empty_cache)" by (rule cache_reach.start) simp_all
  from write_cache_operations_return [OF this]
  have "\<forall>op. cache_legal 3 op (no_pieces, empty_cache) \<longrightarrow>
      (\<exists>P' s'. cache_exec (adaptor_write ba_ops) op (no_pieces, empty_cache) = Some (P', s'))" by simp
  moreover have "cache_legal 3 (CInit 0 7 0) (no_pieces, empty_cache)" by (simp add: wc_new_def)
  ultimately show ?thesis by blast
qed

text \<open>
  C9: the write cache is transparent: while nothing that is still held is thrown away, the
  download is at any time what was written to it, cells that are held over the bytes on disk, no
  matter which entries have been evicted; once the cells are flushed, the disks hold all of it.
\<close>

theorem write_cache_transparent:
  assumes disk: "cached_disk writeTo content fits"
    and run: "cache_run writeTo content fits limit (P, s) v" and lim: "limit < 2 ^ 64"
  shows "represents content s v \<and>
    ((\<forall>k\<in>centries s. we_set (ws_ents s k) = []) \<longrightarrow> (\<forall>a. content a (ws_disk s) = v a))"
proof -
  have rep: "represents content s v" using cached_disk.cache_run_represents [OF disk run lim] by simp
  moreover have "content a (ws_disk s) = v a" if "\<forall>k\<in>centries s. we_set (ws_ents s k) = []" for a
    using rep that by (auto simp: represents_def cached_def fun_eq_iff)
  ultimately show ?thesis by blast
qed

definition after_init :: "(byte list, nat \<Rightarrow> byte_array) pool" where
  "after_init = the (cache_exec (adaptor_write ba_ops) (CInit 0 7 0) (no_pieces, empty_cache))"

definition after_write :: "(byte list, nat \<Rightarrow> byte_array) pool" where
  "after_write = the (cache_exec (adaptor_write ba_ops) (CUpdate 0 (hd two_cells)) after_init)"

lemma after_init_eq:
  "cache_exec (adaptor_write ba_ops) (CInit 0 7 0) (no_pieces, empty_cache) = Some after_init"
  "after_init = (no_pieces(0 := (no_pieces 0)\<lparr>pc_wrCache := Some 7\<rparr>),
     empty_cache\<lparr>ws_cache := \<lparr>wc_limit = 3, wc_total = 0, wc_set = [7], wc_clock = 1\<rparr>,
       ws_ents := (ws_ents empty_cache)(7 := (we_new 0)\<lparr>we_sizeKey := 0, we_lastUpdate := 1\<rparr>)\<rparr>)"
  by (simp_all add: after_init_def initWrCache_def wc_add_def set_add_def touch_def set_ent_def wc_new_def
      we_new_def Let_def ensureLimit.simps [of "adaptor_write ba_ops"])

lemma after_write_eq:
  "cache_exec (adaptor_write ba_ops) (CUpdate 0 (hd two_cells)) after_init = Some after_write"
  by (simp add: after_write_def after_init_eq(2) updateWrCache_def wc_update_def set_erase_def cacheData_def two_cells_def
      set_add_def touch_def set_ent_def we_new_def we_less_def Let_def ensureLimit.simps [of "adaptor_write ba_ops"])

theorem write_cache_transparent_witness:
  "represents (\<lambda>a D. ba_content (D a)) (snd after_write)
     (cache_view (CUpdate 0 (hd two_cells)) after_init (\<lambda>a. ba_content (ws_disk empty_cache a)))"
proof -
  have "cache_run (adaptor_write ba_ops) (\<lambda>a D. ba_content (D a)) (\<lambda>a D. ba_fits (D a)) 3 (no_pieces, empty_cache)
      (\<lambda>a. ba_content (ws_disk empty_cache a))"
    by (rule cache_run.start) simp_all
  from cache_run.step [OF this _ _ after_init_eq(1)]
  have "cache_run (adaptor_write ba_ops) (\<lambda>a D. ba_content (D a)) (\<lambda>a D. ba_fits (D a)) 3 after_init
      (\<lambda>a. ba_content (ws_disk empty_cache a))" by (simp add: wc_new_def)
  from cache_run.step [OF this _ _ after_write_eq]
  have "cache_run (adaptor_write ba_ops) (\<lambda>a D. ba_content (D a)) (\<lambda>a D. ba_fits (D a)) 3 (fst after_write, snd after_write)
      (cache_view (CUpdate 0 (hd two_cells)) after_init (\<lambda>a. ba_content (ws_disk empty_cache a)))"
    by (simp add: after_init_eq(2) two_cells_def cell_ok_def we_new_def new_range_def cached_def ba_fits_def empty_cache_def)
  from write_cache_transparent [OF byte_array.adaptors.cached_disk_axioms this] show ?thesis by simp
qed

subsection \<open>Pieces\<close>

text \<open>A digest for the witnesses: the bytes themselves.\<close>

definition plain_digest :: "byte list digest_ops" where
  "plain_digest = \<lparr>dg_create = \<lambda>_. [], dg_update = (@), dg_digest = \<lambda>h. h\<rparr>"

lemma plain_digest_law: "digest_law plain_digest"
  by (simp add: digest_law_def plain_digest_def)



text \<open>Feeding the running hash with consecutive chunks.\<close>

fun feed :: "'h digest_ops \<Rightarrow> int \<Rightarrow> byte list list \<Rightarrow> 'h piece \<Rightarrow> 'h piece \<times> bool" where
  "feed ops begin' [] p = (p, True)"
| "feed ops begin' (x # xs) p =
     (case updateHash ops begin' x p of
        (p, False) \<Rightarrow> (p, False)
      | (p, True) \<Rightarrow> feed ops (begin' + int (length x)) xs p)"

lemma feed_run:
  assumes law: "digest_law ops" and "pc_hashType p \<noteq> []"
    and "case pc_mdctx p of None \<Rightarrow> seen = [] | Some h \<Rightarrow> h = dg_update ops (dg_create ops (pc_hashType p)) seen"
    and "pc_nextBegin p = int (length seen)" and "int (length seen) + int (length (concat xs)) \<le> pc_length p"
  shows "\<exists>p'. feed ops (int (length seen)) xs p = (p', True) \<and>
    (xs \<noteq> [] \<longrightarrow> pc_mdctx p' = Some (dg_update ops (dg_create ops (pc_hashType p)) (seen @ concat xs))) \<and>
    pc_nextBegin p' = int (length (seen @ concat xs)) \<and> pc_hashType p' = pc_hashType p \<and> pc_length p' = pc_length p"
  using assms(2-)
proof (induction xs arbitrary: p seen)
  case (Cons x xs)
  from updateHash_run [OF law Cons.prems(1-3), of x] Cons.prems(4)
  obtain p1 where p1: "updateHash ops (int (length seen)) x p = (p1, True)"
      "pc_mdctx p1 = Some (dg_update ops (dg_create ops (pc_hashType p)) (seen @ x))"
      "pc_nextBegin p1 = int (length (seen @ x))" "pc_hashType p1 = pc_hashType p" "pc_length p1 = pc_length p"
    by auto
  have "\<exists>p'. feed ops (int (length (seen @ x))) xs p1 = (p', True) \<and>
    (xs \<noteq> [] \<longrightarrow> pc_mdctx p' = Some (dg_update ops (dg_create ops (pc_hashType p1)) ((seen @ x) @ concat xs))) \<and>
    pc_nextBegin p' = int (length ((seen @ x) @ concat xs)) \<and> pc_hashType p' = pc_hashType p1 \<and> pc_length p' = pc_length p1"
    by (rule Cons.IH) (use p1 Cons.prems in auto)
  then obtain p' where r: "feed ops (int (length (seen @ x))) xs p1 = (p', True)"
    "xs \<noteq> [] \<longrightarrow> pc_mdctx p' = Some (dg_update ops (dg_create ops (pc_hashType p1)) ((seen @ x) @ concat xs))"
    "pc_nextBegin p' = int (length ((seen @ x) @ concat xs))" "pc_hashType p' = pc_hashType p1" "pc_length p' = pc_length p1"
    by blast
  have "feed ops (int (length seen)) (x # xs) p = (p', True)" using p1(1) r(1) by simp
  moreover have "pc_mdctx p' = Some (dg_update ops (dg_create ops (pc_hashType p)) (seen @ concat (x # xs)))"
  proof (cases "xs = []")
    case True
    then show ?thesis using r(1) p1(2) by simp
  next
    case False
    then show ?thesis using r(2) p1(4) by simp
  qed
  moreover have "pc_nextBegin p' = int (length (seen @ concat (x # xs)))" using r(3) by simp
  ultimately show ?case using r(4,5) p1(4,5) by metis
qed simp

text \<open>
  A piece whose bytes arrive in order is hashed while it arrives: every chunk is accepted,
  the hash counts as calculated exactly when the whole piece has been seen, and the digest handed
  out is that of the bytes, after which the piece starts afresh; a chunk out of order, or one that
  runs over the end, is refused and changes nothing.
\<close>

theorem running_hash:
  assumes "digest_law ops" and "pc_hashType p \<noteq> []" and "pc_mdctx p = None" and "pc_nextBegin p = 0"
    and "xs \<noteq> []" and "int (length (concat xs)) \<le> pc_length p"
  shows "\<exists>p'. feed ops 0 xs p = (p', True) \<and>
    isHashCalculated p' = (int (length (concat xs)) = pc_length p) \<and>
    getDigest ops p' = (p'\<lparr>pc_mdctx := None, pc_nextBegin := 0\<rparr>,
      dg_digest ops (dg_update ops (dg_create ops (pc_hashType p)) (concat xs))) \<and>
    (\<forall>b x. b \<noteq> int (length (concat xs)) \<or> pc_length p < b + int (length x) \<longrightarrow> updateHash ops b x p' = (p', False))"
proof -
  from feed_run [OF assms(1,2), of "[]" xs] assms(3-6)
  obtain p' where "feed ops 0 xs p = (p', True)"
      "pc_mdctx p' = Some (dg_update ops (dg_create ops (pc_hashType p)) (concat xs))"
      "pc_nextBegin p' = int (length (concat xs))" "pc_hashType p' = pc_hashType p" "pc_length p' = pc_length p"
    by auto
  then show ?thesis
    by (intro exI [of _ p']) (auto simp: isHashCalculated_def getDigest_def destroyHashContext_def updateHash_def)
qed

theorem running_hash_witness:
  "\<exists>p'. feed plain_digest 0 [[1, 2], [3]] (setHashType ''sha-1'' (piece_new 0 3 16384)) = (p', True) \<and>
    isHashCalculated p' = (int (length (concat [[1, 2], [3 :: byte]])) = 3) \<and> snd (getDigest plain_digest p') = [1, 2, 3]"
proof -
  let ?p = "setHashType ''sha-1'' (piece_new 0 3 16384) :: byte list piece"
  have p: "pc_hashType ?p = ''sha-1''" "pc_mdctx ?p = None" "pc_nextBegin ?p = 0" "pc_length ?p = 3"
    by (simp_all add: setHashType_def piece_new_def)
  have "\<exists>p'. feed plain_digest 0 [[1, 2], [3]] ?p = (p', True) \<and>
      isHashCalculated p' = (int (length (concat [[1, 2], [3 :: byte]])) = pc_length ?p) \<and>
      getDigest plain_digest p' = (p'\<lparr>pc_mdctx := None, pc_nextBegin := 0\<rparr>,
        dg_digest plain_digest (dg_update plain_digest (dg_create plain_digest (pc_hashType ?p)) (concat [[1, 2], [3]]))) \<and>
      (\<forall>b x. b \<noteq> int (length (concat [[1, 2], [3 :: byte]])) \<or> pc_length ?p < b + int (length x) \<longrightarrow>
        updateHash plain_digest b x p' = (p', False))"
    by (rule running_hash [OF plain_digest_law]) (simp_all add: p)
  then show ?thesis unfolding p(4) by (elim exE conjE) (simp add: plain_digest_def)
qed

text \<open>
  Blocks handed out by one piece: a request gets the lowest blocks that are neither present
  nor in use, as many as asked for if there are; they become used, so the next request gets
  others; completing a block makes it present and free of use, cancelling it only the latter.
\<close>

theorem blocks_handed_out_once:
  assumes "piece_inv p" and "getMissingUnusedBlockIndexes p n = (p1, xs)"
    and "getMissingUnusedBlockIndexes p1 m = (p2, ys)"
  shows "xs = take n (filter (\<lambda>i. i \<in> missing (pc_bitfield p) - puses p) [0..<countBlock p]) \<and>
    distinct (xs @ ys) \<and> (\<forall>i\<in>set (xs @ ys). i \<notin> phaves p \<and> i \<notin> puses p \<and> i \<in> puses p2) \<and>
    (\<forall>i\<in>set (xs @ ys). phaves (completeBlock i p2) = insert i (phaves p) \<and> puses (completeBlock i p2) = puses p2 - {i} \<and>
      phaves (cancelBlock i p2) = phaves p \<and> puses (cancelBlock i p2) = puses p2 - {i})"
proof -
  note a = getMissingUnusedBlockIndexes_spec [OF assms(1,2)]
  have inv1: "piece_inv p1" using block_ops_inv(5) [OF assms(1), of n] assms(2) by simp
  note b = getMissingUnusedBlockIndexes_spec [OF inv1 assms(3)]
  have inv2: "piece_inv p2" using block_ops_inv(5) [OF inv1, of m] assms(3) by simp
  have views: "phaves p2 = phaves p" "puses p2 = puses p \<union> set (xs @ ys)" using a(2,3) b(2,3) by auto
  have less: "i < countBlock p2" if "i \<in> set (xs @ ys)" for i
    using that views(2) by (auto simp: uses_def countBlock_def)
  have ops: "phaves (completeBlock i p2) = insert i (phaves p) \<and> puses (completeBlock i p2) = puses p2 - {i} \<and>
      phaves (cancelBlock i p2) = phaves p \<and> puses (cancelBlock i p2) = puses p2 - {i}" if "i \<in> set (xs @ ys)" for i
    using block_ops_views(1-4) [OF inv2, of i] views(1) less [OF that] by auto
  have "distinct (xs @ ys)" using a(2,4) b(4,5) by auto
  moreover have "i \<notin> phaves p \<and> i \<notin> puses p" if "i \<in> set (xs @ ys)" for i
    using that a(2,3,5) b(5) by (auto simp: missing_def)
  ultimately show ?thesis using a(1) views(2) ops by blast
qed

definition three_blocks :: "byte list piece" where
  "three_blocks = piece_new 0 (3 * 16384) 16384"

theorem blocks_handed_out_once_witness:
  "let (p1, xs) = getMissingUnusedBlockIndexes three_blocks 2; (p2, ys) = getMissingUnusedBlockIndexes p1 2
   in xs = [0, 1] \<and> distinct (xs @ ys)"
proof -
  obtain p1 xs where 1: "getMissingUnusedBlockIndexes three_blocks 2 = (p1, xs)" by fastforce
  obtain p2 ys where 2: "getMissingUnusedBlockIndexes p1 2 = (p2, ys)" by fastforce
  have inv: "piece_inv three_blocks"
    unfolding three_blocks_def by (rule piece_new_inv) simp_all
  have "snd (getMissingUnusedBlockIndexes three_blocks 2) = [0, 1]" by code_simp
  then have xs: "xs = [0, 1]" by (simp only: 1 snd_conv)
  have "distinct (xs @ ys)" using blocks_handed_out_once [OF inv 1 2] by blast
  then show ?thesis unfolding 1 2 Let_def prod.case using xs by blast
qed

end
