(* ===== verification/PieceSelector.thy ===== *)
theory PieceSelector
  imports BitfieldSearch
begin

text \<open>
  Choosing the next piece from the bits of those that could be fetched: \<open>PieceStatMan\<close> counts how
  many peers have each piece, and \<open>RarestPieceSelector\<close>, \<open>LongestSequencePieceSelector\<close> and
  \<open>PriorityPieceSelector\<close> implement PieceSelector.h. The shuffled order is an argument (a
  permutation). The bitfields handed in have a bit for every piece.
\<close>

subsection \<open>Piece statistics\<close>

record piece_stats =
  st_order :: "nat list"
  st_counts :: "int list"

definition stats_new :: "nat list \<Rightarrow> piece_stats" where
  "stats_new order = \<lparr>st_order = order, st_counts = replicate (length order) 0\<rparr>"

abbreviation INT_MAX :: int where
  "INT_MAX \<equiv> 2147483647"

definition stat_inc :: "int \<Rightarrow> int" where
  "stat_inc x = (if x < INT_MAX then x + 1 else x)"

definition stat_sub :: "int \<Rightarrow> int" where
  "stat_sub x = (if x > 0 then x - 1 else x)"

text \<open>\<open>counts[i]\<close> for every \<open>i\<close>, one after the other.\<close>

definition addPieceStats :: "byte list \<Rightarrow> piece_stats \<Rightarrow> piece_stats" where
  "addPieceStats bitfield s =
     (let nbits = length (st_counts s) in
      s\<lparr>st_counts := map (\<lambda>i. if test (array bitfield) nbits i then stat_inc (st_counts s ! i) else st_counts s ! i)
          [0..<nbits]\<rparr>)"

definition subtractPieceStats :: "byte list \<Rightarrow> piece_stats \<Rightarrow> piece_stats" where
  "subtractPieceStats bitfield s =
     (let nbits = length (st_counts s) in
      s\<lparr>st_counts := map (\<lambda>i. if test (array bitfield) nbits i then stat_sub (st_counts s ! i) else st_counts s ! i)
          [0..<nbits]\<rparr>)"

definition updatePieceStats :: "byte list \<Rightarrow> byte list \<Rightarrow> piece_stats \<Rightarrow> piece_stats" where
  "updatePieceStats newBitfield oldBitfield s =
     (let nbits = length (st_counts s) in
      s\<lparr>st_counts := map (\<lambda>i.
          let inNew = test (array newBitfield) nbits i; inOld = test (array oldBitfield) nbits i in
          if inNew then (if \<not> inOld then stat_inc (st_counts s ! i) else st_counts s ! i)
          else if inOld then stat_sub (st_counts s ! i) else st_counts s ! i) [0..<nbits]\<rparr>)"

definition addPieceStat :: "nat \<Rightarrow> piece_stats \<Rightarrow> piece_stats" where
  "addPieceStat index s = s\<lparr>st_counts := (st_counts s)[index := stat_inc (st_counts s ! index)]\<rparr>"

subsection \<open>Selectors\<close>

text \<open>The loop of \<open>RarestPieceSelector::select\<close>; \<open>best\<close> is \<open>nbits\<close> until a piece is found.\<close>

fun rarest_loop :: "piece_stats \<Rightarrow> byte list \<Rightarrow> nat \<Rightarrow> nat list \<Rightarrow> int \<Rightarrow> nat \<Rightarrow> nat" where
  "rarest_loop s bitfield nbits [] least best = best"
| "rarest_loop s bitfield nbits (i # is) least best =
     (let idx = st_order s ! i in
      if test (array bitfield) nbits idx \<and> st_counts s ! idx < least
      then rarest_loop s bitfield nbits is (st_counts s ! idx) idx
      else rarest_loop s bitfield nbits is least best)"

definition rarest_select :: "piece_stats \<Rightarrow> byte list \<Rightarrow> nat \<Rightarrow> nat option" where
  "rarest_select s bitfield nbits =
     (let bestIdx = rarest_loop s bitfield nbits [0..<nbits] INT_MAX nbits in
      if bestIdx = nbits then None else Some bestIdx)"

text \<open>\<open>getStartIndex\<close> and \<open>getEndIndex\<close> of the longest sequence selector.\<close>

function run_start :: "nat \<Rightarrow> byte list \<Rightarrow> nat \<Rightarrow> nat" where
  "run_start from' bitfield nbits =
     (if from' < nbits \<and> \<not> test (array bitfield) nbits from' then run_start (from' + 1) bitfield nbits
      else if nbits \<le> from' then nbits else from')"
  by pat_completeness auto
termination by (relation "measure (\<lambda>(from', _, nbits). nbits - from')") auto

function run_end :: "nat \<Rightarrow> byte list \<Rightarrow> nat \<Rightarrow> nat" where
  "run_end from' bitfield nbits =
     (if from' < nbits \<and> test (array bitfield) nbits from' then run_end (from' + 1) bitfield nbits else from')"
  by pat_completeness auto
termination by (relation "measure (\<lambda>(from', _, nbits). nbits - from')") auto

declare run_start.simps [simp del] run_end.simps [simp del]

lemma run_start_eq: "run_start i bf n = getStartIndex i (arr_not (array bf)) n"
proof (induction i bf n rule: run_start.induct)
  case (1 i bf n)
  then show ?case
    by (simp add: run_start.simps [of i bf n] getStartIndex.simps [of i "arr_not (array bf)" n])
qed

lemma run_end_eq: "run_end i bf n = getEndIndex i (arr_not (array bf)) n"
proof (induction i bf n rule: run_end.induct)
  case (1 i bf n)
  then show ?case
    by (simp add: run_end.simps [of i bf n] getEndIndex.simps [of i "arr_not (array bf)" n])
qed

lemma run_start_props:
  "run_start i bf n \<noteq> n \<Longrightarrow> i \<le> run_start i bf n \<and> run_start i bf n < n \<and> bitat (array bf) (run_start i bf n) \<and>
     (\<forall>j. i \<le> j \<and> j < run_start i bf n \<longrightarrow> \<not> bitat (array bf) j)"
  using getStartIndex_props [of i "arr_not (array bf)" n] by (simp add: run_start_eq)

lemma run_start_none:
  "i \<le> n \<Longrightarrow> run_start i bf n = n \<Longrightarrow> i \<le> j \<Longrightarrow> j < n \<Longrightarrow> \<not> bitat (array bf) j"
  using getStartIndex_blocks [of i n "arr_not (array bf)" j] by (simp add: run_start_eq)

lemma run_end_props:
  "i \<le> n \<Longrightarrow> i \<le> run_end i bf n \<and> run_end i bf n \<le> n \<and> (\<forall>j. i \<le> j \<and> j < run_end i bf n \<longrightarrow> bitat (array bf) j) \<and>
     (i < n \<longrightarrow> bitat (array bf) i \<longrightarrow> i < run_end i bf n)"
  using getEndIndex_props [of i n "arr_not (array bf)"] unfolding run_end_eq bitat_arr not_not by blast

text \<open>A run ends at a bit that is not set, or at the end.\<close>

lemma run_end_stop: "run_end i bf n < n \<Longrightarrow> \<not> bitat (array bf) (run_end i bf n)"
proof (induction i bf n rule: run_end.induct)
  case (1 i bf n)
  then show ?case by (auto simp: run_end.simps [of i bf n] split: if_splits)
qed

lemma longest_step:
  assumes "i < n" and "run_start i bf n \<noteq> n"
  shows "n - run_end (run_start i bf n) bf n < n - i"
  using run_start_props [OF assms(2)] run_end_props [of "run_start i bf n" n bf] by linarith

text \<open>The loop of \<open>LongestSequencePieceSelector::select\<close>, with the longest run so far.\<close>

function longest_loop :: "byte list \<Rightarrow> nat \<Rightarrow> nat \<Rightarrow> nat \<times> nat \<Rightarrow> nat \<times> nat" where
  "longest_loop bitfield nbits nextIndex (mstart, mend) =
     (if nextIndex < nbits then
        let startindex = run_start nextIndex bitfield nbits in
        if startindex = nbits then (mstart, mend)
        else
          let endindex = run_end startindex bitfield nbits in
          longest_loop bitfield nbits endindex
            (if usub mend mstart < usub endindex startindex then (startindex, endindex) else (mstart, mend))
      else (mstart, mend))"
  by pat_completeness auto
termination
  by (relation "measure (\<lambda>(_, nbits, nextIndex, _). nbits - nextIndex)") (auto simp: longest_step)

declare longest_loop.simps [simp del]

definition longest_select :: "byte list \<Rightarrow> nat \<Rightarrow> nat option" where
  "longest_select bitfield nbits =
     (let (mstartindex, mendindex) = longest_loop bitfield nbits 0 (0, 0) in
      if usub mendindex mstartindex > 0 then Some (mendindex - 1) else None)"

definition priority_select :: "nat list \<Rightarrow> (byte list \<Rightarrow> nat \<Rightarrow> nat option) \<Rightarrow> byte list \<Rightarrow> nat \<Rightarrow> nat option" where
  "priority_select prioritizedPieces select bitfield nbits =
     (case find (\<lambda>p. test (array bitfield) nbits p) prioritizedPieces of
        Some p \<Rightarrow> Some p | None \<Rightarrow> select bitfield nbits)"

text \<open>The selector object of a storage.\<close>

datatype selector = Rarest | LongestSequence | Priority "nat list" selector

fun sel_select :: "piece_stats \<Rightarrow> selector \<Rightarrow> byte list \<Rightarrow> nat \<Rightarrow> nat option" where
  "sel_select s Rarest = rarest_select s"
| "sel_select s LongestSequence = longest_select"
| "sel_select s (Priority prioritizedPieces selector) = priority_select prioritizedPieces (sel_select s selector)"

subsection \<open>The interface\<close>

text \<open>A selection is a set bit, and fails only if there is none.\<close>

locale piece_selector =
  fixes select :: "'s \<Rightarrow> byte list \<Rightarrow> nat \<Rightarrow> nat option" and legal :: "'s \<Rightarrow> nat \<Rightarrow> bool"
  assumes select_set: "legal s n \<Longrightarrow> select s bf n = Some i \<Longrightarrow> i < n \<and> bitat (array bf) i"
    and select_none: "legal s n \<Longrightarrow> select s bf n = None \<Longrightarrow> i < n \<Longrightarrow> \<not> bitat (array bf) i"
begin

lemma select_decides: "legal s n \<Longrightarrow> select s bf n = None \<longleftrightarrow> (\<forall>i<n. \<not> bitat (array bf) i)"
  using select_set select_none by (metis not_None_eq)

end

text \<open>\<open>RarestPieceSelector\<close>: the order is a permutation and no counter is saturated.\<close>

definition stats_ok :: "piece_stats \<Rightarrow> nat \<Rightarrow> bool" where
  "stats_ok s n \<longleftrightarrow> distinct (st_order s) \<and> set (st_order s) = {..<n} \<and> length (st_counts s) = n \<and>
     (\<forall>c\<in>set (st_counts s). 0 \<le> c \<and> c < INT_MAX)"

lemma stats_ok_order:
  assumes "stats_ok s n"
  shows "length (st_order s) = n" "\<And>i. i < n \<Longrightarrow> st_order s ! i < n"
proof -
  have "card (set (st_order s)) = length (st_order s)"
    by (rule distinct_card) (use assms in \<open>simp add: stats_ok_def\<close>)
  then show "length (st_order s) = n" using assms by (metis card_lessThan stats_ok_def)
  then show "st_order s ! i < n" if "i < n" for i
    using assms that nth_mem [of i "st_order s"] by (auto simp: stats_ok_def)
qed

text \<open>The result is the first in the order among those with the least counter.\<close>

lemma rarest_loop_props:
  assumes "rarest_loop s bf n is least best = b"
  shows "(b = best \<and> (\<forall>i\<in>set is. bitat (array bf) (st_order s ! i) \<longrightarrow> least \<le> st_counts s ! (st_order s ! i))) \<or>
    (b \<in> (\<lambda>i. st_order s ! i) ` set is \<and> bitat (array bf) b \<and> st_counts s ! b < least \<and>
     (\<forall>i\<in>set is. bitat (array bf) (st_order s ! i) \<longrightarrow> st_counts s ! b \<le> st_counts s ! (st_order s ! i)))"
  using assms
proof (induction "is" arbitrary: least best)
  case (Cons i "is")
  let ?x = "st_order s ! i"
  show ?case
  proof (cases "bitat (array bf) ?x \<and> st_counts s ! ?x < least")
    case True
    then have "rarest_loop s bf n is (st_counts s ! ?x) ?x = b" using Cons.prems by (simp add: Let_def)
    from Cons.IH [OF this] show ?thesis using True by fastforce
  next
    case False
    then have "rarest_loop s bf n is least best = b" using Cons.prems by (auto simp: Let_def)
    from Cons.IH [OF this] show ?thesis using False by fastforce
  qed
qed simp

lemma rarest_select_spec:
  assumes "stats_ok s n"
  shows "rarest_select s bf n = None \<Longrightarrow> \<forall>i<n. \<not> bitat (array bf) i"
    and "rarest_select s bf n = Some b \<Longrightarrow> b < n \<and> bitat (array bf) b \<and>
      (\<forall>i<n. bitat (array bf) i \<longrightarrow> st_counts s ! b \<le> st_counts s ! i)"
proof -
  have perm: "(\<lambda>i. st_order s ! i) ` {0..<n} = {..<n}"
    using nth_image [of n "st_order s"] assms stats_ok_order(1) [OF assms] by (simp add: stats_ok_def)
  have all: "(\<forall>i\<in>set [0..<n]. P (st_order s ! i)) \<longleftrightarrow> (\<forall>i<n. P i)" for P
    using perm by (metis (no_types, lifting) image_iff lessThan_iff set_upt)
  define b' where "b' = rarest_loop s bf n [0..<n] INT_MAX n"
  note props = rarest_loop_props [OF b'_def [symmetric], unfolded all [of "\<lambda>x. bitat (array bf) x \<longrightarrow> INT_MAX \<le> st_counts s ! x"]
      all [of "\<lambda>x. bitat (array bf) x \<longrightarrow> st_counts s ! b' \<le> st_counts s ! x"]]
  have small: "st_counts s ! i < INT_MAX" if "i < n" for i
    using assms that by (simp add: stats_ok_def)
  have eq: "rarest_select s bf n = (if b' = n then None else Some b')" by (simp add: rarest_select_def b'_def)
  have lt: "b' < n" if "b' \<in> (\<lambda>i. st_order s ! i) ` set [0..<n]" using that perm by auto
  consider (none) "b' = n" "\<forall>i<n. bitat (array bf) i \<longrightarrow> INT_MAX \<le> st_counts s ! i"
    | (some) "b' < n" "bitat (array bf) b'" "\<forall>i<n. bitat (array bf) i \<longrightarrow> st_counts s ! b' \<le> st_counts s ! i"
    using props lt by blast
  then have "(b' = n \<and> (\<forall>i<n. \<not> bitat (array bf) i)) \<or>
      (b' < n \<and> bitat (array bf) b' \<and> (\<forall>i<n. bitat (array bf) i \<longrightarrow> st_counts s ! b' \<le> st_counts s ! i))"
  proof cases
    case none
    then show ?thesis using small by (meson not_less)
  qed blast
  then show "rarest_select s bf n = None \<Longrightarrow> \<forall>i<n. \<not> bitat (array bf) i"
    and "rarest_select s bf n = Some b \<Longrightarrow> b < n \<and> bitat (array bf) b \<and>
      (\<forall>i<n. bitat (array bf) i \<longrightarrow> st_counts s ! b \<le> st_counts s ! i)"
    unfolding eq by (auto split: if_splits)
qed

interpretation rarest: piece_selector rarest_select stats_ok
  by unfold_locales (use rarest_select_spec in blast)+

text \<open>\<open>LongestSequencePieceSelector\<close>.\<close>

definition is_run :: "byte list \<Rightarrow> nat \<Rightarrow> nat \<Rightarrow> bool" where
  "is_run bf s e \<longleftrightarrow> (\<forall>j. s \<le> j \<and> j < e \<longrightarrow> bitat (array bf) j)"

lemma longest_loop_props:
  "next' \<le> n \<Longrightarrow> n < 2 ^ 64 \<Longrightarrow> ms \<le> me \<Longrightarrow> me \<le> next' \<Longrightarrow> is_run bf ms me \<Longrightarrow>
   (next' < n \<and> 0 < next' \<longrightarrow> \<not> bitat (array bf) next') \<Longrightarrow>
   \<forall>s e. e \<le> next' \<and> is_run bf s e \<longrightarrow> e - s \<le> me - ms \<Longrightarrow>
   longest_loop bf n next' (ms, me) = (s', e') \<Longrightarrow>
   s' \<le> e' \<and> e' \<le> n \<and> is_run bf s' e' \<and> (\<forall>s e. e \<le> n \<and> is_run bf s e \<longrightarrow> e - s \<le> e' - s')"
proof (induction "n - next'" arbitrary: next' ms me rule: less_induct)
  case less
  show ?case
  proof (cases "next' < n")
    case False
    then have "longest_loop bf n next' (ms, me) = (ms, me)" by (simp add: longest_loop.simps [of bf n next'])
    moreover have "next' = n" using False less.prems(1) by simp
    ultimately show ?thesis using less.prems by simp
  next
    case True
    define s where "s = run_start next' bf n"
    show ?thesis
    proof (cases "s = n")
      case True
      then have none: "\<not> bitat (array bf) j" if "next' \<le> j" "j < n" for j
        using run_start_none [OF less.prems(1)] that by (simp add: s_def)
      have "(s', e') = (ms, me)" using less.prems(8) \<open>next' < n\<close> True
        by (simp add: longest_loop.simps [of bf n next'] s_def)
      moreover have "e - s2 \<le> me - ms" if "e \<le> n" "is_run bf s2 e" for s2 e
      proof (cases "e \<le> next'")
        case False
        have "e \<le> s2"
        proof (rule ccontr)
          assume "\<not> e \<le> s2"
          then have "bitat (array bf) (e - 1)" using that(2) by (simp add: is_run_def)
          moreover have "next' \<le> e - 1" "e - 1 < n" using False that(1) by linarith+
          ultimately show False using none by blast
        qed
        then show ?thesis by simp
      qed (use less.prems(7) that in blast)
      ultimately show ?thesis using less.prems by simp
    next
      case False
      define e where "e = run_end s bf n"
      have s: "next' \<le> s" "s < n" "bitat (array bf) s" "\<forall>j. next' \<le> j \<and> j < s \<longrightarrow> \<not> bitat (array bf) j"
        using run_start_props [of next' bf n] False by (simp_all add: s_def)
      have e: "s < e" "e \<le> n" "is_run bf s e" using run_end_props [of s n bf] s by (auto simp: e_def is_run_def)
      have stop: "e < n \<longrightarrow> \<not> bitat (array bf) e" using run_end_stop [of s bf n] by (simp add: e_def)
      have usubs: "usub me ms = me - ms" "usub e s = e - s"
        using less.prems(2-4) e s True by (simp_all add: usub_def)
      define m' where "m' = (if me - ms < e - s then (s, e) else (ms, me))"
      have rec: "longest_loop bf n e m' = (s', e')"
        using less.prems(8) True False
        by (simp add: longest_loop.simps [of bf n next'] s_def [symmetric] e_def [symmetric] usubs m'_def)
      have bound: "e2 - s2 \<le> snd m' - fst m'" if "e2 \<le> e" "is_run bf s2 e2" for s2 e2
      proof -
        have mm: "me - ms \<le> snd m' - fst m'" "e - s \<le> snd m' - fst m'" by (auto simp: m'_def)
        consider "e2 \<le> next'" | "next' < e2" "s2 < s" | "s \<le> s2" by linarith
        then show ?thesis
        proof cases
          case 1
          then show ?thesis using less.prems(7) that(2) mm(1) order_trans by blast
        next
          case 2
          have "e2 \<le> s2"
          proof (rule ccontr)
            assume "\<not> e2 \<le> s2"
            define k where "k = max s2 next'"
            have k: "s2 \<le> k" "k < e2" "next' \<le> k" using 2 \<open>\<not> e2 \<le> s2\<close> by (auto simp: k_def)
            have "bitat (array bf) k" using that(2) k by (simp add: is_run_def)
            have "\<not> k < s" using s(4) k \<open>bitat (array bf) k\<close> by blast
            then have "next' = s" using 2 s(1) by (cases "s2 \<le> next'") (simp_all add: k_def)
            then show False using less.prems(6) s(3) True 2 \<open>\<not> e2 \<le> s2\<close> by simp
          qed
          then show ?thesis by simp
        next
          case 3
          then show ?thesis using that(1) mm(2) by linarith
        qed
      qed
      have "n - e < n - next'" using s e by linarith
      from less.hyps [OF this e(2) less.prems(2), of "fst m'" "snd m'"] rec bound stop e s less.prems(3-5)
      show ?thesis by (auto simp: m'_def split: if_splits)
    qed
  qed
qed

lemma longest_select_spec:
  assumes "n < 2 ^ 64"
  shows "longest_select bf n = None \<Longrightarrow> \<forall>i<n. \<not> bitat (array bf) i"
    and "longest_select bf n = Some b \<Longrightarrow> b < n \<and> bitat (array bf) b \<and>
      (\<exists>s\<le>b. is_run bf s (Suc b) \<and> (\<forall>s' e'. e' \<le> n \<and> is_run bf s' e' \<longrightarrow> e' - s' \<le> Suc b - s))"
proof -
  obtain s e where l: "longest_loop bf n 0 (0, 0) = (s, e)" by fastforce
  have p: "s \<le> e" "e \<le> n" "is_run bf s e" "\<forall>s' e'. e' \<le> n \<and> is_run bf s' e' \<longrightarrow> e' - s' \<le> e - s"
    using longest_loop_props [OF _ assms, of 0 0 0 bf s e] l by (auto simp: is_run_def)
  have sel: "longest_select bf n = (if 0 < e - s then Some (e - 1) else None)"
    using p(1,2) assms by (simp add: longest_select_def l usub_def)
  show "\<forall>i<n. \<not> bitat (array bf) i" if "longest_select bf n = None"
  proof (intro allI impI notI)
    fix i assume "i < n" "bitat (array bf) i"
    then have "Suc i \<le> n \<and> is_run bf i (Suc i)" using less_Suc_eq_le by (auto simp: is_run_def le_antisym)
    then have "Suc i - i \<le> e - s" using p(4) by blast
    then show False using that sel by (simp split: if_splits)
  qed
  show "b < n \<and> bitat (array bf) b \<and>
      (\<exists>s\<le>b. is_run bf s (Suc b) \<and> (\<forall>s' e'. e' \<le> n \<and> is_run bf s' e' \<longrightarrow> e' - s' \<le> Suc b - s))"
    if "longest_select bf n = Some b"
  proof -
    have b: "e = Suc b" "s \<le> b" using that sel by (auto split: if_splits)
    have "bitat (array bf) b" using p(3) b by (simp add: is_run_def)
    then show ?thesis using p b by auto
  qed
qed

interpretation longest: piece_selector "\<lambda>_ :: unit. longest_select" "\<lambda>_ n. n < 2 ^ 64"
  by unfold_locales (use longest_select_spec in blast)+

text \<open>\<open>PriorityPieceSelector\<close> on top of any other.\<close>

lemma find_set: "find P xs = Some x \<Longrightarrow> x \<in> set xs \<and> P x"
  by (induction xs) (auto split: if_splits)

context piece_selector
begin

lemma priority_selector:
  "piece_selector (\<lambda>(ps, s). priority_select ps (select s)) (\<lambda>(ps, s) n. legal s n \<and> (\<forall>p\<in>set ps. p < n))"
proof
  fix s :: "nat list \<times> 's" and n bf i
  obtain ps t where s: "s = (ps, t)" by fastforce
  assume legal: "(case s of (ps, s) \<Rightarrow> \<lambda>n. legal s n \<and> (\<forall>p\<in>set ps. p < n)) n"
  show "i < n \<and> bitat (array bf) i" if "(case s of (ps, s) \<Rightarrow> priority_select ps (select s)) bf n = Some i"
    using that legal select_set [of t n bf i] find_set [of "\<lambda>p. bitat (array bf) p" ps]
    by (auto simp: s priority_select_def split: option.splits)
  show "\<not> bitat (array bf) i" if "(case s of (ps, s) \<Rightarrow> priority_select ps (select s)) bf n = None" "i < n"
    using that legal select_none [of t n bf i] by (auto simp: s priority_select_def split: option.splits)
qed

end

interpretation rarest_first: piece_selector
    "\<lambda>(ps, s). priority_select ps (rarest_select s)" "\<lambda>(ps, s) n. stats_ok s n \<and> (\<forall>p\<in>set ps. p < n)"
  by (rule rarest.priority_selector)

text \<open>The selector object: any nesting of the three.\<close>

fun sel_legal :: "piece_stats \<times> selector \<Rightarrow> nat \<Rightarrow> bool" where
  "sel_legal (s, Rarest) n \<longleftrightarrow> stats_ok s n"
| "sel_legal (s, LongestSequence) n \<longleftrightarrow> n < 2 ^ 64"
| "sel_legal (s, Priority ps selector) n \<longleftrightarrow> sel_legal (s, selector) n \<and> (\<forall>p\<in>set ps. p < n)"

lemma sel_select_spec:
  "sel_legal (s, sel) n \<Longrightarrow>
     (\<forall>i. sel_select s sel bf n = Some i \<longrightarrow> i < n \<and> bitat (array bf) i) \<and>
     (sel_select s sel bf n = None \<longrightarrow> (\<forall>i<n. \<not> bitat (array bf) i))"
proof (induction sel)
  case Rarest
  then show ?case using rarest.select_set rarest.select_none by simp
next
  case LongestSequence
  then show ?case using longest.select_set longest.select_none by simp
next
  case (Priority ps sel)
  show ?case
  proof (cases "find (\<lambda>p. bitat (array bf) p) ps")
    case None
    then have "sel_select s (Priority ps sel) bf n = sel_select s sel bf n" by (simp add: priority_select_def)
    then show ?thesis using Priority by simp
  next
    case (Some p)
    then have "sel_select s (Priority ps sel) bf n = Some p" by (simp add: priority_select_def)
    then show ?thesis using find_set [OF Some] Priority.prems by simp
  qed
qed

interpretation selector: piece_selector "\<lambda>(s, sel). sel_select s sel" sel_legal
proof
  fix x :: "piece_stats \<times> selector" and n bf i
  obtain s sel where x: "x = (s, sel)" by fastforce
  show "sel_legal x n \<Longrightarrow> (case x of (s, sel) \<Rightarrow> sel_select s sel) bf n = Some i \<Longrightarrow> i < n \<and> bitat (array bf) i"
    and "sel_legal x n \<Longrightarrow> (case x of (s, sel) \<Rightarrow> sel_select s sel) bf n = None \<Longrightarrow> i < n \<Longrightarrow> \<not> bitat (array bf) i"
    using sel_select_spec [of s sel n bf] by (simp_all add: x)
qed

subsection \<open>Statistics\<close>

lemma stats_new_ok: "distinct order \<Longrightarrow> set order = {..<n} \<Longrightarrow> stats_ok (stats_new order) n"
  using distinct_card [of order] by (simp add: stats_ok_def stats_new_def)

text \<open>The counters count peers: with one list of bitfields per peer, bit \<open>i\<close> is counted once per peer.\<close>

definition counts_peers :: "byte list list \<Rightarrow> piece_stats \<Rightarrow> bool" where
  "counts_peers peers s \<longleftrightarrow>
     (\<forall>i<length (st_counts s). st_counts s ! i = int (length (filter (\<lambda>bf. bitat (array bf) i) peers)))"

lemma addPieceStats_counts:
  assumes "counts_peers peers s" and "int (length peers) < INT_MAX"
  shows "counts_peers (bf # peers) (addPieceStats bf s)"
proof -
  have "int (length (filter P peers)) < INT_MAX" for P using assms(2) length_filter_le [of P peers] by linarith
  then show ?thesis using assms(1) by (simp add: counts_peers_def addPieceStats_def Let_def stat_inc_def)
qed

lemma filter_split_length:
  "length (filter P (xs @ x # ys)) = length (filter P (xs @ ys)) + (if P x then 1 else 0)"
  by simp

lemma subtractPieceStats_counts:
  assumes "counts_peers (xs @ bf # ys) s"
  shows "counts_peers (xs @ ys) (subtractPieceStats bf s)"
  using assms by (auto simp: counts_peers_def subtractPieceStats_def Let_def stat_sub_def)

lemma updatePieceStats_counts:
  assumes "counts_peers (xs @ old # ys) s" and "int (length (xs @ ys)) < INT_MAX"
  shows "counts_peers (xs @ new # ys) (updatePieceStats new old s)"
proof -
  have "int (length (filter P (xs @ ys))) < INT_MAX" for P
    using assms(2) length_filter_le [of P "xs @ ys"] by linarith
  then show ?thesis using assms(1)
    by (auto simp: counts_peers_def updatePieceStats_def Let_def stat_sub_def stat_inc_def)
qed

lemma stats_lengths [simp]:
  "length (st_counts (addPieceStats bf s)) = length (st_counts s)"
  "length (st_counts (subtractPieceStats bf s)) = length (st_counts s)"
  "length (st_counts (updatePieceStats bf bf' s)) = length (st_counts s)"
  "length (st_counts (addPieceStat i s)) = length (st_counts s)"
  "st_order (addPieceStats bf s) = st_order s" "st_order (subtractPieceStats bf s) = st_order s"
  "st_order (updatePieceStats bf bf' s) = st_order s" "st_order (addPieceStat i s) = st_order s"
  by (simp_all add: addPieceStats_def subtractPieceStats_def updatePieceStats_def addPieceStat_def Let_def)

end
