(* ===== verification/NetStat.thy ===== *)
theory NetStat
  imports FluxPrelude
begin

text \<open>
  Transfer statistics: \<open>SpeedCalc\<close> measures a speed over a sliding window of ten seconds kept in
  slots of about one second, \<open>NetStat\<close> has one for each direction, \<open>TransferStat\<close> adds them up.
  Times are nanoseconds of the steady clock; \<open>now\<close> is \<open>global::wallclock()\<close> at the call.
\<close>

definition tm_difference :: "int \<Rightarrow> int \<Rightarrow> int" where
  "tm_difference tp timer = (if timer < tp then 0 else timer - tp)"

abbreviation SECOND :: int where
  "SECOND \<equiv> 1000000000"

abbreviation WINDOW_TIME :: int where
  "WINDOW_TIME \<equiv> 10 * SECOND"

subsection \<open>Speed\<close>

record speed_calc =
  sc_timeSlots :: "(int \<times> nat) list"
  sc_start :: int
  sc_accumulatedLength :: int
  sc_bytesWindow :: int
  sc_maxSpeed :: int

text \<open>The constructor; \<open>start_\<close> is the time of creation.\<close>

definition sc_new :: "int \<Rightarrow> speed_calc" where
  "sc_new now = \<lparr>sc_timeSlots = [], sc_start = now, sc_accumulatedLength = 0, sc_bytesWindow = 0, sc_maxSpeed = 0\<rparr>"

definition sc_reset :: "int \<Rightarrow> speed_calc \<Rightarrow> speed_calc" where
  "sc_reset now sc = sc\<lparr>sc_timeSlots := [], sc_start := now, sc_accumulatedLength := 0,
     sc_bytesWindow := 0, sc_maxSpeed := 0\<rparr>"

fun drop_stale :: "int \<Rightarrow> (int \<times> nat) list \<Rightarrow> int \<Rightarrow> (int \<times> nat) list \<times> int" where
  "drop_stale now [] bytesWindow = ([], bytesWindow)"
| "drop_stale now ((t, b) # slots) bytesWindow =
     (if tm_difference t now \<le> WINDOW_TIME then ((t, b) # slots, bytesWindow)
      else drop_stale now slots (int64_of (bytesWindow - int b)))"

definition removeStaleTimeSlot :: "int \<Rightarrow> speed_calc \<Rightarrow> speed_calc" where
  "removeStaleTimeSlot now sc =
     (let (slots, w) = drop_stale now (sc_timeSlots sc) (sc_bytesWindow sc)
      in sc\<lparr>sc_timeSlots := slots, sc_bytesWindow := w\<rparr>)"

definition calculateSpeed :: "int \<Rightarrow> speed_calc \<Rightarrow> speed_calc \<times> int" where
  "calculateSpeed now sc =
     (let sc = removeStaleTimeSlot now sc in
      case sc_timeSlots sc of
        [] \<Rightarrow> (sc, 0)
      | (t, b) # slots \<Rightarrow>
          let elapsed = tm_difference t now sdiv 1000000;
              elapsed = (if elapsed \<le> 0 then 1 else elapsed);
              speed = int32_of (sc_bytesWindow sc * 1000 sdiv elapsed)
          in (sc\<lparr>sc_maxSpeed := max speed (sc_maxSpeed sc)\<rparr>, speed))"

definition sc_update :: "int \<Rightarrow> nat \<Rightarrow> speed_calc \<Rightarrow> speed_calc" where
  "sc_update now bytes sc =
     (let sc = removeStaleTimeSlot now sc;
          slots = sc_timeSlots sc;
          slots = (if slots = [] \<or> tm_difference (fst (last slots)) now sdiv SECOND \<ge> 1
                   then slots @ [(now, bytes)]
                   else butlast slots @ [(fst (last slots), (snd (last slots) + bytes) mod 2 ^ 64)])
      in sc\<lparr>sc_timeSlots := slots, sc_bytesWindow := int64_of (sc_bytesWindow sc + int bytes),
            sc_accumulatedLength := int64_of (sc_accumulatedLength sc + int bytes)\<rparr>)"

definition calculateAvgSpeed :: "int \<Rightarrow> speed_calc \<Rightarrow> int" where
  "calculateAvgSpeed now sc =
     (let milliElapsed = tm_difference (sc_start sc) now sdiv 1000000 in
      if milliElapsed > 4 then int32_of (sc_accumulatedLength sc * 1000 sdiv milliElapsed) else 0)"

subsection \<open>Statistics of a download or a peer\<close>

datatype net_status = IDLE | ACTIVE

record net_stat =
  ns_downloadSpeed :: speed_calc
  ns_uploadSpeed :: speed_calc
  ns_downloadStartTime :: int
  ns_status :: net_status
  ns_avgDownloadSpeed :: int
  ns_avgUploadSpeed :: int
  ns_sessionDownloadLength :: int
  ns_sessionUploadLength :: int

definition ns_new :: "int \<Rightarrow> net_stat" where
  "ns_new now = \<lparr>ns_downloadSpeed = sc_new now, ns_uploadSpeed = sc_new now, ns_downloadStartTime = now,
     ns_status = IDLE, ns_avgDownloadSpeed = 0, ns_avgUploadSpeed = 0, ns_sessionDownloadLength = 0,
     ns_sessionUploadLength = 0\<rparr>"

definition calculateDownloadSpeed :: "int \<Rightarrow> net_stat \<Rightarrow> net_stat \<times> int" where
  "calculateDownloadSpeed now ns =
     (let (sc, v) = calculateSpeed now (ns_downloadSpeed ns) in (ns\<lparr>ns_downloadSpeed := sc\<rparr>, v))"

definition calculateUploadSpeed :: "int \<Rightarrow> net_stat \<Rightarrow> net_stat \<times> int" where
  "calculateUploadSpeed now ns =
     (let (sc, v) = calculateSpeed now (ns_uploadSpeed ns) in (ns\<lparr>ns_uploadSpeed := sc\<rparr>, v))"

definition calculateAvgDownloadSpeed :: "int \<Rightarrow> net_stat \<Rightarrow> net_stat \<times> int" where
  "calculateAvgDownloadSpeed now ns =
     (let v = calculateAvgSpeed now (ns_downloadSpeed ns) in (ns\<lparr>ns_avgDownloadSpeed := v\<rparr>, v))"

definition calculateAvgUploadSpeed :: "int \<Rightarrow> net_stat \<Rightarrow> net_stat \<times> int" where
  "calculateAvgUploadSpeed now ns =
     (let v = calculateAvgSpeed now (ns_uploadSpeed ns) in (ns\<lparr>ns_avgUploadSpeed := v\<rparr>, v))"

definition ns_updateDownload :: "int \<Rightarrow> nat \<Rightarrow> net_stat \<Rightarrow> net_stat" where
  "ns_updateDownload now bytes ns =
     ns\<lparr>ns_downloadSpeed := sc_update now bytes (ns_downloadSpeed ns),
        ns_sessionDownloadLength := int64_of (ns_sessionDownloadLength ns + int bytes)\<rparr>"

definition ns_updateUpload :: "int \<Rightarrow> nat \<Rightarrow> net_stat \<Rightarrow> net_stat" where
  "ns_updateUpload now bytes ns =
     ns\<lparr>ns_uploadSpeed := sc_update now bytes (ns_uploadSpeed ns),
        ns_sessionUploadLength := int64_of (ns_sessionUploadLength ns + int bytes)\<rparr>"

definition ns_updateUploadSpeed :: "int \<Rightarrow> nat \<Rightarrow> net_stat \<Rightarrow> net_stat" where
  "ns_updateUploadSpeed now bytes ns = ns\<lparr>ns_uploadSpeed := sc_update now bytes (ns_uploadSpeed ns)\<rparr>"

definition ns_updateUploadLength :: "nat \<Rightarrow> net_stat \<Rightarrow> net_stat" where
  "ns_updateUploadLength bytes ns =
     ns\<lparr>ns_sessionUploadLength := int64_of (ns_sessionUploadLength ns + int bytes)\<rparr>"

definition ns_reset :: "int \<Rightarrow> net_stat \<Rightarrow> net_stat" where
  "ns_reset now ns =
     ns\<lparr>ns_downloadSpeed := sc_reset now (ns_downloadSpeed ns), ns_uploadSpeed := sc_reset now (ns_uploadSpeed ns),
        ns_downloadStartTime := now, ns_status := IDLE, ns_sessionDownloadLength := 0, ns_sessionUploadLength := 0\<rparr>"

definition ns_downloadStart :: "int \<Rightarrow> net_stat \<Rightarrow> net_stat" where
  "ns_downloadStart now ns = (ns_reset now ns)\<lparr>ns_status := ACTIVE\<rparr>"

definition ns_downloadStop :: "int \<Rightarrow> net_stat \<Rightarrow> net_stat" where
  "ns_downloadStop now ns =
     (fst (calculateAvgUploadSpeed now (fst (calculateAvgDownloadSpeed now ns))))\<lparr>ns_status := IDLE\<rparr>"

record transfer_stat =
  ts_downloadSpeed :: int
  ts_uploadSpeed :: int
  ts_sessionDownloadLength :: int
  ts_sessionUploadLength :: int
  ts_allTimeUploadLength :: int

definition toTransferStat :: "int \<Rightarrow> net_stat \<Rightarrow> net_stat \<times> transfer_stat" where
  "toTransferStat now ns =
     (let (ns, d) = calculateDownloadSpeed now ns;
          (ns, u) = calculateUploadSpeed now ns
      in (ns, \<lparr>ts_downloadSpeed = d, ts_uploadSpeed = u,
           ts_sessionDownloadLength = int64_of (int (size_of_int (ns_sessionDownloadLength ns))),
           ts_sessionUploadLength = int64_of (int (size_of_int (ns_sessionUploadLength ns))),
           ts_allTimeUploadLength = 0\<rparr>))"

definition ts_add :: "transfer_stat \<Rightarrow> transfer_stat \<Rightarrow> transfer_stat" where
  "ts_add a b = a\<lparr>ts_downloadSpeed := int32_of (ts_downloadSpeed a + ts_downloadSpeed b),
     ts_uploadSpeed := int32_of (ts_uploadSpeed a + ts_uploadSpeed b),
     ts_sessionDownloadLength := int64_of (ts_sessionDownloadLength a + ts_sessionDownloadLength b),
     ts_sessionUploadLength := int64_of (ts_sessionUploadLength a + ts_sessionUploadLength b)\<rparr>"

definition ts_sub :: "transfer_stat \<Rightarrow> transfer_stat \<Rightarrow> transfer_stat" where
  "ts_sub a b = a\<lparr>ts_downloadSpeed := max 0 (int32_of (ts_downloadSpeed a - ts_downloadSpeed b)),
     ts_uploadSpeed := max 0 (int32_of (ts_uploadSpeed a - ts_uploadSpeed b)),
     ts_sessionDownloadLength := max 0 (int64_of (ts_sessionDownloadLength a - ts_sessionDownloadLength b)),
     ts_sessionUploadLength := max 0 (int64_of (ts_sessionUploadLength a - ts_sessionUploadLength b))\<rparr>"

subsection \<open>The window\<close>

text \<open>
  \<open>H\<close> is the history of updates, oldest first. It splits into forgotten updates and one group per
  slot: a slot carries the time of its first update and the bytes of all of its group.
\<close>

definition slot_of :: "(int \<times> nat) list \<Rightarrow> int \<times> nat \<Rightarrow> bool" where
  "slot_of G sl \<longleftrightarrow> G \<noteq> [] \<and> (\<forall>(t, _)\<in>set G. fst sl \<le> t \<and> t < fst sl + SECOND) \<and> sum_list (map snd G) = snd sl"

fun spaced :: "int list \<Rightarrow> bool" where
  "spaced [] \<longleftrightarrow> True"
| "spaced [t] \<longleftrightarrow> True"
| "spaced (t # u # ts) \<longleftrightarrow> t + SECOND \<le> u \<and> spaced (u # ts)"

definition total_bytes :: "(int \<times> nat) list \<Rightarrow> nat" where
  "total_bytes H = sum_list (map snd H)"

definition sc_inv :: "(int \<times> nat) list \<Rightarrow> int \<Rightarrow> speed_calc \<Rightarrow> bool" where
  "sc_inv H now sc \<longleftrightarrow> (\<exists>H0 Gs. H = H0 @ concat Gs \<and> list_all2 slot_of Gs (sc_timeSlots sc) \<and>
       (\<forall>(t, _)\<in>set H0. t < now - 9 * SECOND)) \<and>
     spaced (map fst (sc_timeSlots sc)) \<and> (\<forall>(t, _)\<in>set (sc_timeSlots sc). t \<le> now) \<and>
     sc_bytesWindow sc = int (sum_list (map snd (sc_timeSlots sc))) \<and>
     sc_accumulatedLength sc = int (total_bytes H) \<and> total_bytes H < 2 ^ 63"

lemma spaced_Cons: "spaced (t # ts) \<Longrightarrow> spaced ts \<and> (\<forall>u\<in>set ts. t + SECOND \<le> u)"
proof (induction ts arbitrary: t)
  case (Cons u ts)
  then show ?case by fastforce
qed simp

lemma spaced_snoc: "spaced (ts @ [u]) \<longleftrightarrow> spaced ts \<and> (ts \<noteq> [] \<longrightarrow> last ts + SECOND \<le> u)"
proof (induction ts)
  case (Cons t ts)
  then show ?case by (cases ts) auto
qed simp

lemma total_bytes_append [simp]: "total_bytes (xs @ ys) = total_bytes xs + total_bytes ys"
  by (simp add: total_bytes_def)

lemma groups_total: "list_all2 slot_of Gs sl \<Longrightarrow> total_bytes (concat Gs) = sum_list (map snd sl)"
  by (induction rule: list_all2_induct) (simp_all add: slot_of_def, simp_all add: total_bytes_def)

text \<open>Dropping stale slots keeps the invariant at a later time, and leaves only slots of the window.\<close>

lemma drop_stale_inv:
  "list_all2 slot_of Gs sl \<Longrightarrow> spaced (map fst sl) \<Longrightarrow> \<forall>(t, _)\<in>set sl. t \<le> now \<Longrightarrow>
   int (sum_list (map snd sl)) < 2 ^ 63 \<Longrightarrow> w = int (sum_list (map snd sl)) \<Longrightarrow>
   \<exists>G0 G1. Gs = G0 @ G1 \<and> list_all2 slot_of G1 (fst (drop_stale now sl w)) \<and>
     (\<forall>(t, _)\<in>set (concat G0). t < now - 9 * SECOND) \<and>
     snd (drop_stale now sl w) = int (sum_list (map snd (fst (drop_stale now sl w)))) \<and>
     spaced (map fst (fst (drop_stale now sl w))) \<and> set (fst (drop_stale now sl w)) \<subseteq> set sl \<and>
     (\<forall>(t, _)\<in>set (fst (drop_stale now sl w)). now - WINDOW_TIME \<le> t)"
proof (induction Gs sl arbitrary: w rule: list_all2_induct)
  case Nil
  then show ?case by simp
next
  case (Cons G Gs x sl)
  obtain t b where x: "x = (t, b)" by fastforce
  have le: "t \<le> now" and sp: "\<forall>u\<in>set (map fst sl). t + SECOND \<le> u" "spaced (map fst sl)"
    using Cons.prems(1,2) x spaced_Cons [of t "map fst sl"] by auto
  show ?case
  proof (cases "now - t \<le> WINDOW_TIME")
    case True
    then have keep: "drop_stale now (x # sl) w = (x # sl, w)" using x le by (simp add: tm_difference_def)
    have "\<forall>(u, _)\<in>set (x # sl). now - WINDOW_TIME \<le> u" using sp(1) True x by fastforce
    then show ?thesis unfolding keep using Cons.hyps Cons.prems by (intro exI [of _ "[]"] exI [of _ "G # Gs"]) simp
  next
    case False
    let ?w = "int64_of (w - int b)"
    have w: "?w = int (sum_list (map snd sl))" using Cons.prems(3,4) x by simp
    have dr: "drop_stale now (x # sl) w = drop_stale now sl ?w" using x le False by (simp add: tm_difference_def)
    have "\<exists>G0 G1. Gs = G0 @ G1 \<and> list_all2 slot_of G1 (fst (drop_stale now sl ?w)) \<and>
     (\<forall>(t, _)\<in>set (concat G0). t < now - 9 * SECOND) \<and>
     snd (drop_stale now sl ?w) = int (sum_list (map snd (fst (drop_stale now sl ?w)))) \<and>
     spaced (map fst (fst (drop_stale now sl ?w))) \<and> set (fst (drop_stale now sl ?w)) \<subseteq> set sl \<and>
     (\<forall>(t, _)\<in>set (fst (drop_stale now sl ?w)). now - WINDOW_TIME \<le> t)"
      by (rule Cons.IH) (use Cons.prems sp(2) w in auto)
    then obtain G0 G1 where ih: "Gs = G0 @ G1" "list_all2 slot_of G1 (fst (drop_stale now sl ?w))"
     "\<forall>(t, _)\<in>set (concat G0). t < now - 9 * SECOND"
     "snd (drop_stale now sl ?w) = int (sum_list (map snd (fst (drop_stale now sl ?w))))"
     "spaced (map fst (fst (drop_stale now sl ?w)))" "set (fst (drop_stale now sl ?w)) \<subseteq> set sl"
     "\<forall>(t, _)\<in>set (fst (drop_stale now sl ?w)). now - WINDOW_TIME \<le> t" by blast
    have "\<forall>(u, _)\<in>set G. u < now - 9 * SECOND" using Cons.hyps(1) x False by (fastforce simp: slot_of_def)
    then show ?thesis unfolding dr using ih by (intro exI [of _ "G # G0"] exI [of _ G1]) auto
  qed
qed

lemma removeStale_inv:
  assumes "sc_inv H t0 sc" and "t0 \<le> now"
  shows "sc_inv H now (removeStaleTimeSlot now sc)"
    "\<forall>(t, _)\<in>set (sc_timeSlots (removeStaleTimeSlot now sc)). now - WINDOW_TIME \<le> t"
proof -
  obtain H0 Gs where H: "H = H0 @ concat Gs" "list_all2 slot_of Gs (sc_timeSlots sc)" "\<forall>(t, _)\<in>set H0. t < t0 - 9 * SECOND"
    using assms(1) by (auto simp: sc_inv_def)
  have facts: "spaced (map fst (sc_timeSlots sc))" "\<forall>(t, _)\<in>set (sc_timeSlots sc). t \<le> t0"
      "sc_bytesWindow sc = int (sum_list (map snd (sc_timeSlots sc)))"
      "sc_accumulatedLength sc = int (total_bytes H)" "total_bytes H < 2 ^ 63" using assms(1) by (simp_all add: sc_inv_def)
  have small: "int (sum_list (map snd (sc_timeSlots sc))) < 2 ^ 63"
    using groups_total [OF H(2)] facts(5) H(1) by simp
  have le: "\<forall>(t, _)\<in>set (sc_timeSlots sc). t \<le> now" using facts(2) assms(2) by fastforce
  let ?d = "drop_stale now (sc_timeSlots sc) (sc_bytesWindow sc)"
  from drop_stale_inv [OF H(2) facts(1) le small facts(3)]
  obtain G0 G1 where g: "Gs = G0 @ G1" "list_all2 slot_of G1 (fst ?d)" "\<forall>(t, _)\<in>set (concat G0). t < now - 9 * SECOND"
     "snd ?d = int (sum_list (map snd (fst ?d)))" "spaced (map fst (fst ?d))" "set (fst ?d) \<subseteq> set (sc_timeSlots sc)"
     "\<forall>(t, _)\<in>set (fst ?d). now - WINDOW_TIME \<le> t" by blast
  have sc': "removeStaleTimeSlot now sc = sc\<lparr>sc_timeSlots := fst ?d, sc_bytesWindow := snd ?d\<rparr>"
    by (simp add: removeStaleTimeSlot_def case_prod_beta)
  have old: "\<forall>(t, _)\<in>set (H0 @ concat G0). t < now - 9 * SECOND" using g(3) H(3) assms(2) by fastforce
  have split: "\<exists>H0 Gs. H = H0 @ concat Gs \<and> list_all2 slot_of Gs (fst ?d) \<and> (\<forall>(t, _)\<in>set H0. t < now - 9 * SECOND)"
    by (rule exI [of _ "H0 @ concat G0"], rule exI [of _ G1]) (use old g(1,2) H(1) in simp)
  have "\<forall>(t, _)\<in>set (fst ?d). t \<le> now" using g(6) le by blast
  then show "sc_inv H now (removeStaleTimeSlot now sc)"
    using split g(4,5) facts(4,5) unfolding sc_inv_def sc' by simp
  show "\<forall>(t, _)\<in>set (sc_timeSlots (removeStaleTimeSlot now sc)). now - WINDOW_TIME \<le> t" using g(7) unfolding sc' by simp
qed

lemma sc_update_inv:
  assumes "sc_inv H t0 sc" and "t0 \<le> now" and "total_bytes H + bytes < 2 ^ 63"
  shows "sc_inv (H @ [(now, bytes)]) now (sc_update now bytes sc)"
proof -
  define sc1 where "sc1 = removeStaleTimeSlot now sc"
  note inv = removeStale_inv(1) [OF assms(1,2), folded sc1_def]
  define sl where "sl = sc_timeSlots sc1"
  obtain H0 Gs where H: "H = H0 @ concat Gs" "list_all2 slot_of Gs sl" "\<forall>(t, _)\<in>set H0. t < now - 9 * SECOND"
    using inv by (auto simp: sc_inv_def sl_def)
  have facts: "spaced (map fst sl)" "\<forall>(t, _)\<in>set sl. t \<le> now" "sc_bytesWindow sc1 = int (sum_list (map snd sl))"
      "sc_accumulatedLength sc1 = int (total_bytes H)" using inv by (simp_all add: sc_inv_def sl_def)
  have sum: "sum_list (map snd sl) \<le> total_bytes H" using groups_total [OF H(2)] H(1) by simp
  define sl' where "sl' = (if sl = [] \<or> tm_difference (fst (last sl)) now sdiv SECOND \<ge> 1 then sl @ [(now, bytes)]
      else butlast sl @ [(fst (last sl), (snd (last sl) + bytes) mod 2 ^ 64)])"
  have sc': "sc_update now bytes sc = sc1\<lparr>sc_timeSlots := sl', sc_bytesWindow := int64_of (sc_bytesWindow sc1 + int bytes),
      sc_accumulatedLength := int64_of (sc_accumulatedLength sc1 + int bytes)\<rparr>"
    by (simp add: sc_update_def Let_def sc1_def [symmetric] sl_def [symmetric] sl'_def)
  have res: "(\<exists>Gs'. H @ [(now, bytes)] = H0 @ concat Gs' \<and> list_all2 slot_of Gs' sl') \<and>
      spaced (map fst sl') \<and> (\<forall>(t, _)\<in>set sl'. t \<le> now) \<and> sum_list (map snd sl') = sum_list (map snd sl) + bytes"
  proof (cases "sl = [] \<or> tm_difference (fst (last sl)) now sdiv SECOND \<ge> 1")
    case True
    then have sl': "sl' = sl @ [(now, bytes)]" unfolding sl'_def by simp
    have new: "slot_of [(now, bytes)] (now, bytes)" by (simp add: slot_of_def)
    have "list_all2 slot_of (Gs @ [[(now, bytes)]]) sl'"
      unfolding sl' using H(2) new by (intro list_all2_appendI) simp_all
    moreover have "H @ [(now, bytes)] = H0 @ concat (Gs @ [[(now, bytes)]])" using H(1) by simp
    moreover have "sl \<noteq> [] \<longrightarrow> fst (last sl) + SECOND \<le> now"
    proof
      assume ne: "sl \<noteq> []"
      then have "fst (last sl) \<le> now" using facts(2) last_in_set by (metis case_prodE fst_conv)
      then show "fst (last sl) + SECOND \<le> now" using True ne le_div_iff [of SECOND 1 "now - fst (last sl)"]
        by (simp add: tm_difference_def sdiv_nonneg)
    qed
    ultimately show ?thesis using facts(1,2) unfolding sl'
      by (intro conjI exI [of _ "Gs @ [[(now, bytes)]]"]) (auto simp: spaced_snoc last_map)
  next
    case False
    then obtain tl t b where sl: "sl = tl @ [(t, b)]" by (cases sl rule: rev_cases) auto
    obtain Gt G where G: "Gs = Gt @ [G]" "list_all2 slot_of Gt tl" "slot_of G (t, b)"
      using H(2) unfolding sl by (auto simp: list_all2_append2 list_all2_Cons2)
    have le: "t \<le> now" using facts(2) sl by auto
    have lt: "now < t + SECOND" using False le le_div_iff [of SECOND 1 "now - t"] sl
      by (simp add: tm_difference_def sdiv_nonneg)
    have "b \<le> total_bytes H" using sum sl by simp
    then have "(b + bytes) mod 2 ^ 64 = b + bytes" using assms(3) by simp
    then have sl': "sl' = tl @ [(t, b + bytes)]" unfolding sl'_def using False sl by auto
    have "slot_of (G @ [(now, bytes)]) (t, b + bytes)" using G(3) le lt by (auto simp: slot_of_def)
    then have "list_all2 slot_of (Gt @ [G @ [(now, bytes)]]) sl'"
      unfolding sl' using G(2) by (intro list_all2_appendI) simp_all
    moreover have "H @ [(now, bytes)] = H0 @ concat (Gt @ [G @ [(now, bytes)]])" using H(1) G(1) by simp
    ultimately show ?thesis using facts(1,2) unfolding sl' sl
      by (intro conjI exI [of _ "Gt @ [G @ [(now, bytes)]]"]) (auto simp: spaced_snoc last_map)
  qed
  then obtain Gs' where g: "H @ [(now, bytes)] = H0 @ concat Gs'" "list_all2 slot_of Gs' sl'" by blast
  have "int64_of (sc_bytesWindow sc1 + int bytes) = int (sum_list (map snd sl'))"
    using res facts(3) sum assms(3) by simp
  moreover have "int64_of (sc_accumulatedLength sc1 + int bytes) = int (total_bytes (H @ [(now, bytes)]))"
    using facts(4) assms(3) by (simp add: total_bytes_def)
  moreover have "total_bytes (H @ [(now, bytes)]) < 2 ^ 63" using assms(3) by (simp add: total_bytes_def)
  moreover have "\<exists>H0 Gs. H @ [(now, bytes)] = H0 @ concat Gs \<and> list_all2 slot_of Gs sl' \<and>
      (\<forall>(t, _)\<in>set H0. t < now - 9 * SECOND)"
    by (rule exI [of _ H0], rule exI [of _ Gs']) (use g H(3) in blast)
  ultimately show ?thesis unfolding sc_inv_def sc' using res by simp
qed

text \<open>A history of updates from a fresh object.\<close>

definition sc_run :: "int \<Rightarrow> (int \<times> nat) list \<Rightarrow> speed_calc" where
  "sc_run t0 H = fold (\<lambda>(t, b). sc_update t b) H (sc_new t0)"

lemma sc_run_inv:
  "sorted (map fst H) \<Longrightarrow> \<forall>(t, _)\<in>set H. t0 \<le> t \<Longrightarrow> total_bytes H < 2 ^ 63 \<Longrightarrow>
     \<exists>t. sc_inv H t (sc_run t0 H) \<and> t = (if H = [] then t0 else fst (last H))"
proof (induction H rule: rev_induct)
  case Nil
  have "sc_inv [] t0 (sc_new t0)"
    unfolding sc_inv_def by (simp add: sc_new_def total_bytes_def)
  then show ?case by (simp add: sc_run_def)
next
  case (snoc x H)
  obtain t b where x: "x = (t, b)" by fastforce
  define t1 where "t1 = (if H = [] then t0 else fst (last H))"
  have inv: "sc_inv H t1 (sc_run t0 H)"
    using snoc.IH snoc.prems by (simp add: sorted_append t1_def)
  have "t1 \<le> t" using snoc.prems(1,2) x by (auto simp: t1_def sorted_append)
  then have "sc_inv (H @ [(t, b)]) t (sc_update t b (sc_run t0 H))"
    by (rule sc_update_inv [OF inv]) (use snoc.prems(3) x in \<open>simp add: total_bytes_def\<close>)
  then show ?case using x by (simp add: sc_run_def)
qed

text \<open>What the window holds.\<close>

lemma total_bytes_filter: "total_bytes (filter P H) \<le> total_bytes H"
  by (induction H) (auto simp: total_bytes_def)

lemma window_bytes:
  assumes "sc_inv H now sc" and "\<forall>(t, _)\<in>set (sc_timeSlots sc). now - WINDOW_TIME \<le> t"
  shows "int (total_bytes (filter (\<lambda>(t, _). now - 9 * SECOND \<le> t) H)) \<le> sc_bytesWindow sc"
    "sc_bytesWindow sc \<le> int (total_bytes (filter (\<lambda>(t, _). now - WINDOW_TIME \<le> t) H))"
proof -
  obtain H0 Gs where H: "H = H0 @ concat Gs" "list_all2 slot_of Gs (sc_timeSlots sc)" "\<forall>(t, _)\<in>set H0. t < now - 9 * SECOND"
    using assms(1) by (auto simp: sc_inv_def)
  have w: "sc_bytesWindow sc = int (total_bytes (concat Gs))"
    using assms(1) groups_total [OF H(2)] by (simp add: sc_inv_def)
  have "filter (\<lambda>(t, _). now - 9 * SECOND \<le> t) H0 = []" using H(3) by (force simp: filter_empty_conv)
  then show "int (total_bytes (filter (\<lambda>(t, _). now - 9 * SECOND \<le> t) H)) \<le> sc_bytesWindow sc"
    using total_bytes_filter [of "\<lambda>(t, _). now - 9 * SECOND \<le> t" "concat Gs"] w H(1) by simp
  have "\<forall>(t, _)\<in>set (concat Gs). now - WINDOW_TIME \<le> t"
    using H(2) assms(2) by (induction rule: list_all2_induct) (fastforce simp: slot_of_def)+
  then have "filter (\<lambda>(t, _). now - WINDOW_TIME \<le> t) (concat Gs) = concat Gs"
    by (simp only: filter_id_conv)
  then show "sc_bytesWindow sc \<le> int (total_bytes (filter (\<lambda>(t, _). now - WINDOW_TIME \<le> t) H))"
    using w H(1) by simp
qed

lemma spaced_length: "spaced ts \<Longrightarrow> ts \<noteq> [] \<Longrightarrow> hd ts + (int (length ts) - 1) * SECOND \<le> last ts"
proof (induction ts rule: spaced.induct)
  case (3 t u ts)
  then show ?case by (simp add: distrib_right)
qed simp_all

lemma window_slots:
  assumes "sc_inv H now sc" and "\<forall>(t, _)\<in>set (sc_timeSlots sc). now - WINDOW_TIME \<le> t"
  shows "length (sc_timeSlots sc) \<le> 11"
proof (cases "sc_timeSlots sc = []")
  case False
  let ?ts = "map fst (sc_timeSlots sc)"
  have "hd ?ts + (int (length ?ts) - 1) * SECOND \<le> last ?ts"
    by (rule spaced_length) (use assms(1) False in \<open>simp_all add: sc_inv_def\<close>)
  moreover have "now - WINDOW_TIME \<le> hd ?ts" using assms(2) False by (cases "sc_timeSlots sc") auto
  moreover have "last ?ts \<le> now"
  proof -
    have "\<forall>(t, _)\<in>set (sc_timeSlots sc). t \<le> now" using assms(1) by (simp add: sc_inv_def)
    from bspec [OF this last_in_set [OF False]] show ?thesis using False by (simp add: last_map case_prod_beta)
  qed
  ultimately have "(int (length ?ts) - 1) * SECOND \<le> 10 * SECOND" by linarith
  then show ?thesis by simp
qed simp

end
