(* ===== verification/Peer.thy ===== *)
theory Peer
  imports BitfieldProps NetStat
begin

text \<open>
  A BitTorrent peer: \<open>Peer\<close> and the session state it has while connected, \<open>PeerSessionResource\<close>
  with its \<open>ExtensionMessageRegistry\<close>. \<open>assert(res_)\<close> of a peer without a session is \<open>None\<close>.
  The dispatcher pointer, through which a peer only forwards two counters, is left out; \<open>now\<close> is
  the wall clock. Index sets are sorted lists, as \<open>std::set\<close> iterates over them.
\<close>

subsection \<open>Extension messages\<close>

text \<open>\<open>UT_METADATA\<close> is 0, \<open>UT_PEX\<close> 1 and \<open>MAX_EXTENSION\<close> 2.\<close>

definition MAX_EXTENSION :: nat where
  "MAX_EXTENSION = 2"

definition EXTENSION_NAMES :: "string option list" where
  "EXTENSION_NAMES = [Some ''ut_metadata'', Some ''ut_pex'', None]"

type_synonym ext_registry = "int list"

definition reg_new :: ext_registry where
  "reg_new = replicate MAX_EXTENSION 0"

text \<open>The stored \<open>int\<close> is returned as \<open>uint8_t\<close>.\<close>

definition getExtensionMessageID :: "ext_registry \<Rightarrow> nat \<Rightarrow> nat option" where
  "getExtensionMessageID reg key =
     (if key < MAX_EXTENSION then Some (nat (reg ! key mod 256)) else None)"

definition getExtensionName :: "ext_registry \<Rightarrow> nat \<Rightarrow> string option" where
  "getExtensionName reg msgId =
     (if msgId = 0 then None
      else case find (\<lambda>i. reg ! i = int msgId) [0..<MAX_EXTENSION] of
          Some i \<Rightarrow> EXTENSION_NAMES ! i
        | None \<Rightarrow> EXTENSION_NAMES ! MAX_EXTENSION)"

definition setExtensionMessageID :: "nat \<Rightarrow> nat \<Rightarrow> ext_registry \<Rightarrow> ext_registry option" where
  "setExtensionMessageID key msgId reg = (if key < MAX_EXTENSION then Some (reg[key := int msgId]) else None)"

definition removeExtension :: "nat \<Rightarrow> ext_registry \<Rightarrow> ext_registry option" where
  "removeExtension key reg = (if key < MAX_EXTENSION then Some (reg[key := 0]) else None)"

definition setExtensions :: "int list \<Rightarrow> ext_registry \<Rightarrow> ext_registry" where
  "setExtensions extensions reg = extensions"

definition strBtExtension :: "nat \<Rightarrow> string option" where
  "strBtExtension key = (if key \<ge> MAX_EXTENSION then None else EXTENSION_NAMES ! key)"

definition keyBtExtension :: "string \<Rightarrow> nat" where
  "keyBtExtension name =
     (case find (\<lambda>i. EXTENSION_NAMES ! i = Some name) [0..<MAX_EXTENSION] of
        Some i \<Rightarrow> i | None \<Rightarrow> MAX_EXTENSION)"

subsection \<open>The session\<close>

record session_resource =
  sr_bitfieldMan :: bitfield_man
  sr_peerAllowedIndexSet :: "nat list"
  sr_amAllowedIndexSet :: "nat list"
  sr_extreg :: ext_registry
  sr_netStat :: net_stat
  sr_lastDownloadUpdate :: int
  sr_lastAmUnchoking :: int
  sr_amChoking :: bool
  sr_amInterested :: bool
  sr_peerChoking :: bool
  sr_peerInterested :: bool
  sr_chokingRequired :: bool
  sr_optUnchoking :: bool
  sr_snubbing :: bool
  sr_fastExtensionEnabled :: bool
  sr_extendedMessagingEnabled :: bool
  sr_dhtEnabled :: bool
  sr_encrypted :: bool

definition sr_new :: "int \<Rightarrow> int \<Rightarrow> int \<Rightarrow> session_resource" where
  "sr_new now pieceLength totalLength =
     \<lparr>sr_bitfieldMan = bm_new pieceLength totalLength, sr_peerAllowedIndexSet = [], sr_amAllowedIndexSet = [],
      sr_extreg = reg_new, sr_netStat = ns_new now, sr_lastDownloadUpdate = 0, sr_lastAmUnchoking = 0,
      sr_amChoking = True, sr_amInterested = False, sr_peerChoking = True, sr_peerInterested = False,
      sr_chokingRequired = True, sr_optUnchoking = False, sr_snubbing = False, sr_fastExtensionEnabled = False,
      sr_extendedMessagingEnabled = False, sr_dhtEnabled = False, sr_encrypted = False\<rparr>"

definition sr_setAmChoking :: "int \<Rightarrow> bool \<Rightarrow> session_resource \<Rightarrow> session_resource" where
  "sr_setAmChoking now b r =
     (let r = r\<lparr>sr_amChoking := b\<rparr> in if \<not> b then r\<lparr>sr_lastAmUnchoking := now\<rparr> else r)"

definition sr_setAmInterested :: "bool \<Rightarrow> session_resource \<Rightarrow> session_resource" where
  "sr_setAmInterested b r = r\<lparr>sr_amInterested := b\<rparr>"

definition sr_setPeerChoking :: "bool \<Rightarrow> session_resource \<Rightarrow> session_resource" where
  "sr_setPeerChoking b r = r\<lparr>sr_peerChoking := b\<rparr>"

definition sr_setPeerInterested :: "bool \<Rightarrow> session_resource \<Rightarrow> session_resource" where
  "sr_setPeerInterested b r = r\<lparr>sr_peerInterested := b\<rparr>"

definition sr_setChokingRequired :: "bool \<Rightarrow> session_resource \<Rightarrow> session_resource" where
  "sr_setChokingRequired b r = r\<lparr>sr_chokingRequired := b\<rparr>"

definition sr_setOptUnchoking :: "bool \<Rightarrow> session_resource \<Rightarrow> session_resource" where
  "sr_setOptUnchoking b r = r\<lparr>sr_optUnchoking := b\<rparr>"

definition sr_shouldBeChoking :: "session_resource \<Rightarrow> bool" where
  "sr_shouldBeChoking r = (if sr_optUnchoking r then False else sr_chokingRequired r)"

definition sr_setSnubbing :: "bool \<Rightarrow> session_resource \<Rightarrow> session_resource" where
  "sr_setSnubbing b r =
     (let r = r\<lparr>sr_snubbing := b\<rparr> in
      if sr_snubbing r then sr_setOptUnchoking False (sr_setChokingRequired True r) else r)"

definition sr_hasAllPieces :: "session_resource \<Rightarrow> bool" where
  "sr_hasAllPieces r = isAllBitSet (sr_bitfieldMan r)"

definition sr_updateBitfield :: "nat \<Rightarrow> int \<Rightarrow> session_resource \<Rightarrow> session_resource" where
  "sr_updateBitfield index operation r =
     (if operation = 1 then r\<lparr>sr_bitfieldMan := fst (setBit (sr_bitfieldMan r) index)\<rparr>
      else if operation = 0 then r\<lparr>sr_bitfieldMan := fst (unsetBit (sr_bitfieldMan r) index)\<rparr>
      else r)"

definition sr_setBitfield :: "byte list \<Rightarrow> session_resource \<Rightarrow> session_resource" where
  "sr_setBitfield bitfield r = r\<lparr>sr_bitfieldMan := setBitfield (sr_bitfieldMan r) bitfield\<rparr>"

definition sr_hasPiece :: "session_resource \<Rightarrow> nat \<Rightarrow> bool option" where
  "sr_hasPiece r index = isBitSet (sr_bitfieldMan r) index"

definition sr_markSeeder :: "session_resource \<Rightarrow> session_resource" where
  "sr_markSeeder r = r\<lparr>sr_bitfieldMan := setAllBit (sr_bitfieldMan r)\<rparr>"

definition sr_setFastExtensionEnabled :: "bool \<Rightarrow> session_resource \<Rightarrow> session_resource" where
  "sr_setFastExtensionEnabled b r = r\<lparr>sr_fastExtensionEnabled := b\<rparr>"

definition index_insert :: "nat \<Rightarrow> nat list \<Rightarrow> nat list" where
  "index_insert i is = (if i \<in> set is then is else insort i is)"

definition sr_addPeerAllowedIndex :: "nat \<Rightarrow> session_resource \<Rightarrow> session_resource" where
  "sr_addPeerAllowedIndex i r = r\<lparr>sr_peerAllowedIndexSet := index_insert i (sr_peerAllowedIndexSet r)\<rparr>"

definition sr_addAmAllowedIndex :: "nat \<Rightarrow> session_resource \<Rightarrow> session_resource" where
  "sr_addAmAllowedIndex i r = r\<lparr>sr_amAllowedIndexSet := index_insert i (sr_amAllowedIndexSet r)\<rparr>"

definition sr_setExtendedMessagingEnabled :: "bool \<Rightarrow> session_resource \<Rightarrow> session_resource" where
  "sr_setExtendedMessagingEnabled b r = r\<lparr>sr_extendedMessagingEnabled := b\<rparr>"

definition sr_setDhtEnabled :: "bool \<Rightarrow> session_resource \<Rightarrow> session_resource" where
  "sr_setDhtEnabled b r = r\<lparr>sr_dhtEnabled := b\<rparr>"

text \<open>\<open>int32_t bytes\<close> becomes a \<open>size_t\<close> in \<open>NetStat\<close>.\<close>

definition sr_updateUploadSpeed :: "int \<Rightarrow> int \<Rightarrow> session_resource \<Rightarrow> session_resource" where
  "sr_updateUploadSpeed now bytes r = r\<lparr>sr_netStat := ns_updateUploadSpeed now (size_of_int bytes) (sr_netStat r)\<rparr>"

definition sr_updateUploadLength :: "int \<Rightarrow> session_resource \<Rightarrow> session_resource" where
  "sr_updateUploadLength bytes r = r\<lparr>sr_netStat := ns_updateUploadLength (size_of_int bytes) (sr_netStat r)\<rparr>"

definition sr_updateDownload :: "int \<Rightarrow> int \<Rightarrow> session_resource \<Rightarrow> session_resource" where
  "sr_updateDownload now bytes r =
     r\<lparr>sr_netStat := ns_updateDownload now (size_of_int bytes) (sr_netStat r), sr_lastDownloadUpdate := now\<rparr>"

definition sr_reconfigure :: "int \<Rightarrow> int \<Rightarrow> session_resource \<Rightarrow> session_resource" where
  "sr_reconfigure pieceLength totalLength r = r\<lparr>sr_bitfieldMan := bm_new pieceLength totalLength\<rparr>"

subsection \<open>The peer\<close>

record peer =
  pr_ipaddr :: string
  pr_port :: nat
  pr_origPort :: nat
  pr_cuid :: int
  pr_peerId :: "byte list"
  pr_firstContactTime :: int
  pr_dropStartTime :: int
  pr_connectedDuration :: nat
  pr_seeder :: bool
  pr_res :: "session_resource option"
  pr_incoming :: bool
  pr_localPeer :: bool
  pr_disconnectedGracefully :: bool
  pr_utp :: bool
  pr_utpTried :: bool
  pr_utpFailCount :: nat
  pr_lastUtpFailTime :: int
  pr_lastSessionDownloadLength :: nat
  pr_lastSessionSeconds :: nat
  pr_utpCapable :: bool
  pr_fromDHT :: bool
  pr_fromPEX :: bool

definition peer_new :: "int \<Rightarrow> string \<Rightarrow> nat \<Rightarrow> bool \<Rightarrow> peer" where
  "peer_new now ipaddr port incoming =
     \<lparr>pr_ipaddr = ipaddr, pr_port = port, pr_origPort = port, pr_cuid = 0, pr_peerId = replicate 20 0,
      pr_firstContactTime = now, pr_dropStartTime = 0, pr_connectedDuration = 0, pr_seeder = False, pr_res = None, pr_incoming = incoming,
      pr_localPeer = False, pr_disconnectedGracefully = False, pr_utp = False, pr_utpTried = False,
      pr_utpFailCount = 0, pr_lastUtpFailTime = 0, pr_lastSessionDownloadLength = 0, pr_lastSessionSeconds = 0,
      pr_utpCapable = False, pr_fromDHT = False, pr_fromPEX = False\<rparr>"

text \<open>\<open>assert(res_)\<close>, then an operation on the session or a question to it.\<close>

definition with_res :: "(session_resource \<Rightarrow> session_resource) \<Rightarrow> peer \<Rightarrow> peer option" where
  "with_res f p = map_option (\<lambda>r. p\<lparr>pr_res := Some (f r)\<rparr>) (pr_res p)"

definition ask_res :: "(session_resource \<Rightarrow> 'a) \<Rightarrow> peer \<Rightarrow> 'a option" where
  "ask_res f p = map_option f (pr_res p)"

definition updateSeeder :: "peer \<Rightarrow> peer option" where
  "updateSeeder p = map_option (\<lambda>r. p\<lparr>pr_seeder := sr_hasAllPieces r\<rparr>) (pr_res p)"

definition allocateSessionResource :: "int \<Rightarrow> int \<Rightarrow> int \<Rightarrow> peer \<Rightarrow> peer option" where
  "allocateSessionResource now pieceLength totalLength p =
     (let r = sr_new now pieceLength totalLength;
          r = r\<lparr>sr_netStat := ns_downloadStart now (sr_netStat r)\<rparr>
      in updateSeeder (p\<lparr>pr_res := Some r\<rparr>))"

definition reconfigureSessionResource :: "int \<Rightarrow> int \<Rightarrow> peer \<Rightarrow> peer option" where
  "reconfigureSessionResource pieceLength totalLength = with_res (sr_reconfigure pieceLength totalLength)"

definition releaseSessionResource :: "int \<Rightarrow> peer \<Rightarrow> peer" where
  "releaseSessionResource now p =
     (case pr_res p of
        Some r \<Rightarrow> p\<lparr>pr_lastSessionDownloadLength :=
              size_of_int (int64_of (int (size_of_int (ns_sessionDownloadLength (sr_netStat r))))),
            pr_lastSessionSeconds := size_of_int (tm_difference (pr_firstContactTime p) now sdiv SECOND),
            pr_res := None\<rparr>
      | None \<Rightarrow> p)"

definition peer_usedBy :: "int \<Rightarrow> peer \<Rightarrow> peer" where
  "peer_usedBy cuid p = p\<lparr>pr_cuid := cuid\<rparr>"

text \<open>\<open>peerId\<close> points to at least \<open>PEER_ID_LENGTH\<close> = 20 bytes.\<close>

definition setPeerId :: "byte list \<Rightarrow> peer \<Rightarrow> peer" where
  "setPeerId peerId p = p\<lparr>pr_peerId := take 20 peerId\<rparr>"

definition startDrop :: "int \<Rightarrow> peer \<Rightarrow> peer" where
  "startDrop now p = p\<lparr>pr_dropStartTime := now\<rparr>"

definition setIncomingPeer :: "bool \<Rightarrow> peer \<Rightarrow> peer" where
  "setIncomingPeer incoming p = p\<lparr>pr_incoming := incoming\<rparr>"

definition setFirstContactTime :: "int \<Rightarrow> peer \<Rightarrow> peer" where
  "setFirstContactTime time p = p\<lparr>pr_firstContactTime := time\<rparr>"

definition peer_amChoking :: "peer \<Rightarrow> bool option" where "peer_amChoking = ask_res sr_amChoking"
definition peer_setAmChoking :: "int \<Rightarrow> bool \<Rightarrow> peer \<Rightarrow> peer option" where
  "peer_setAmChoking now b = with_res (sr_setAmChoking now b)"
definition peer_amInterested :: "peer \<Rightarrow> bool option" where "peer_amInterested = ask_res sr_amInterested"
definition peer_setAmInterested :: "bool \<Rightarrow> peer \<Rightarrow> peer option" where
  "peer_setAmInterested b = with_res (sr_setAmInterested b)"
definition peer_peerChoking :: "peer \<Rightarrow> bool option" where "peer_peerChoking = ask_res sr_peerChoking"
definition peer_setPeerChoking :: "bool \<Rightarrow> peer \<Rightarrow> peer option" where
  "peer_setPeerChoking b = with_res (sr_setPeerChoking b)"
definition peer_peerInterested :: "peer \<Rightarrow> bool option" where "peer_peerInterested = ask_res sr_peerInterested"
definition peer_setPeerInterested :: "bool \<Rightarrow> peer \<Rightarrow> peer option" where
  "peer_setPeerInterested b = with_res (sr_setPeerInterested b)"
definition peer_chokingRequired :: "peer \<Rightarrow> bool option" where "peer_chokingRequired = ask_res sr_chokingRequired"
definition peer_setChokingRequired :: "bool \<Rightarrow> peer \<Rightarrow> peer option" where
  "peer_setChokingRequired b = with_res (sr_setChokingRequired b)"
definition peer_optUnchoking :: "peer \<Rightarrow> bool option" where "peer_optUnchoking = ask_res sr_optUnchoking"
definition peer_setOptUnchoking :: "bool \<Rightarrow> peer \<Rightarrow> peer option" where
  "peer_setOptUnchoking b = with_res (sr_setOptUnchoking b)"
definition peer_snubbing :: "peer \<Rightarrow> bool option" where "peer_snubbing = ask_res sr_snubbing"
definition peer_setSnubbing :: "bool \<Rightarrow> peer \<Rightarrow> peer option" where
  "peer_setSnubbing b = with_res (sr_setSnubbing b)"
definition peer_shouldBeChoking :: "peer \<Rightarrow> bool option" where
  "peer_shouldBeChoking = ask_res sr_shouldBeChoking"

definition peer_updateUploadSpeed :: "int \<Rightarrow> int \<Rightarrow> peer \<Rightarrow> peer option" where
  "peer_updateUploadSpeed now bytes = with_res (sr_updateUploadSpeed now bytes)"
definition peer_updateUploadLength :: "int \<Rightarrow> peer \<Rightarrow> peer option" where
  "peer_updateUploadLength bytes = with_res (sr_updateUploadLength bytes)"
definition peer_updateDownload :: "int \<Rightarrow> int \<Rightarrow> peer \<Rightarrow> peer option" where
  "peer_updateDownload now bytes = with_res (sr_updateDownload now bytes)"

definition peer_calculateUploadSpeed :: "int \<Rightarrow> peer \<Rightarrow> (peer \<times> int) option" where
  "peer_calculateUploadSpeed now p = do {
     r \<leftarrow> pr_res p;
     let (ns, v) = calculateUploadSpeed now (sr_netStat r);
     Some (p\<lparr>pr_res := Some (r\<lparr>sr_netStat := ns\<rparr>)\<rparr>, v) }"
definition peer_calculateDownloadSpeed :: "int \<Rightarrow> peer \<Rightarrow> (peer \<times> int) option" where
  "peer_calculateDownloadSpeed now p = do {
     r \<leftarrow> pr_res p;
     let (ns, v) = calculateDownloadSpeed now (sr_netStat r);
     Some (p\<lparr>pr_res := Some (r\<lparr>sr_netStat := ns\<rparr>)\<rparr>, v) }"
definition peer_getSessionUploadLength :: "peer \<Rightarrow> int option" where
  "peer_getSessionUploadLength = ask_res (\<lambda>r. int64_of (int (size_of_int (ns_sessionUploadLength (sr_netStat r)))))"
definition peer_getSessionDownloadLength :: "peer \<Rightarrow> int option" where
  "peer_getSessionDownloadLength = ask_res (\<lambda>r. int64_of (int (size_of_int (ns_sessionDownloadLength (sr_netStat r)))))"

definition peer_updateBitfield :: "nat \<Rightarrow> int \<Rightarrow> peer \<Rightarrow> peer option" where
  "peer_updateBitfield index operation p = do { p \<leftarrow> with_res (sr_updateBitfield index operation) p; updateSeeder p }"
definition peer_setBitfield :: "byte list \<Rightarrow> peer \<Rightarrow> peer option" where
  "peer_setBitfield bitfield p = do { p \<leftarrow> with_res (sr_setBitfield bitfield) p; updateSeeder p }"
definition peer_setAllBitfield :: "peer \<Rightarrow> peer option" where
  "peer_setAllBitfield p = do { p \<leftarrow> with_res sr_markSeeder p; updateSeeder p }"
definition peer_getBitfield :: "peer \<Rightarrow> byte list option" where
  "peer_getBitfield = ask_res (\<lambda>r. bm_bitfield (sr_bitfieldMan r))"
definition peer_hasPiece :: "peer \<Rightarrow> nat \<Rightarrow> bool option" where
  "peer_hasPiece p index = do { r \<leftarrow> pr_res p; sr_hasPiece r index }"
definition peer_getCompletedLength :: "peer \<Rightarrow> int option" where
  "peer_getCompletedLength = ask_res (\<lambda>r. bm_cachedCompletedLength (sr_bitfieldMan r))"

definition peer_setFastExtensionEnabled :: "bool \<Rightarrow> peer \<Rightarrow> peer option" where
  "peer_setFastExtensionEnabled b = with_res (sr_setFastExtensionEnabled b)"
definition peer_isFastExtensionEnabled :: "peer \<Rightarrow> bool option" where
  "peer_isFastExtensionEnabled = ask_res sr_fastExtensionEnabled"
definition countPeerAllowedIndexSet :: "peer \<Rightarrow> nat option" where
  "countPeerAllowedIndexSet = ask_res (\<lambda>r. length (sr_peerAllowedIndexSet r))"
definition getPeerAllowedIndexSet :: "peer \<Rightarrow> nat list option" where
  "getPeerAllowedIndexSet = ask_res sr_peerAllowedIndexSet"
definition isInPeerAllowedIndexSet :: "peer \<Rightarrow> nat \<Rightarrow> bool option" where
  "isInPeerAllowedIndexSet p index = ask_res (\<lambda>r. index \<in> set (sr_peerAllowedIndexSet r)) p"
definition addPeerAllowedIndex :: "nat \<Rightarrow> peer \<Rightarrow> peer option" where
  "addPeerAllowedIndex index = with_res (sr_addPeerAllowedIndex index)"
definition isInAmAllowedIndexSet :: "peer \<Rightarrow> nat \<Rightarrow> bool option" where
  "isInAmAllowedIndexSet p index = ask_res (\<lambda>r. index \<in> set (sr_amAllowedIndexSet r)) p"
definition addAmAllowedIndex :: "nat \<Rightarrow> peer \<Rightarrow> peer option" where
  "addAmAllowedIndex index = with_res (sr_addAmAllowedIndex index)"

definition peer_getExtensionMessageID :: "peer \<Rightarrow> nat \<Rightarrow> nat option" where
  "peer_getExtensionMessageID p key = do { r \<leftarrow> pr_res p; getExtensionMessageID (sr_extreg r) key }"
definition peer_getExtensionName :: "peer \<Rightarrow> nat \<Rightarrow> string option option" where
  "peer_getExtensionName p msgId = ask_res (\<lambda>r. getExtensionName (sr_extreg r) msgId) p"
definition peer_setExtension :: "nat \<Rightarrow> nat \<Rightarrow> peer \<Rightarrow> peer option" where
  "peer_setExtension key msgId p = do {
     r \<leftarrow> pr_res p; reg \<leftarrow> setExtensionMessageID key msgId (sr_extreg r);
     Some (p\<lparr>pr_res := Some (r\<lparr>sr_extreg := reg\<rparr>)\<rparr>) }"
definition peer_setExtendedMessagingEnabled :: "bool \<Rightarrow> peer \<Rightarrow> peer option" where
  "peer_setExtendedMessagingEnabled b = with_res (sr_setExtendedMessagingEnabled b)"
definition peer_setDHTEnabled :: "bool \<Rightarrow> peer \<Rightarrow> peer option" where
  "peer_setDHTEnabled b = with_res (sr_setDhtEnabled b)"

definition peer_isExtendedMessagingEnabled :: "peer \<Rightarrow> bool option" where
  "peer_isExtendedMessagingEnabled = ask_res sr_extendedMessagingEnabled"
definition peer_isDHTEnabled :: "peer \<Rightarrow> bool option" where
  "peer_isDHTEnabled = ask_res sr_dhtEnabled"
definition peer_getLastDownloadUpdate :: "peer \<Rightarrow> int option" where
  "peer_getLastDownloadUpdate = ask_res sr_lastDownloadUpdate"
definition peer_getLastAmUnchoking :: "peer \<Rightarrow> int option" where
  "peer_getLastAmUnchoking = ask_res sr_lastAmUnchoking"

definition peer_isEncrypted :: "peer \<Rightarrow> bool" where
  "peer_isEncrypted p = (case pr_res p of None \<Rightarrow> False | Some r \<Rightarrow> sr_encrypted r)"
definition peer_setEncrypted :: "bool \<Rightarrow> peer \<Rightarrow> peer" where
  "peer_setEncrypted b p =
     (case pr_res p of None \<Rightarrow> p | Some r \<Rightarrow> p\<lparr>pr_res := Some (r\<lparr>sr_encrypted := b\<rparr>)\<rparr>)"

definition MAX_UTP_FAILURES :: nat where "MAX_UTP_FAILURES = 3"

definition recordUtpFailure :: "int \<Rightarrow> peer \<Rightarrow> peer" where
  "recordUtpFailure now p = p\<lparr>pr_utpFailCount := (pr_utpFailCount p + 1) mod 2 ^ 64, pr_lastUtpFailTime := now\<rparr>"
definition resetUtpFailures :: "peer \<Rightarrow> peer" where
  "resetUtpFailures p = p\<lparr>pr_utpFailCount := 0\<rparr>"
definition utpProbeAllowed :: "int \<Rightarrow> peer \<Rightarrow> bool" where
  "utpProbeAllowed now p =
     (if pr_utpFailCount p = 0 then True
      else if pr_utpFailCount p \<ge> MAX_UTP_FAILURES then False
      else tm_difference (pr_lastUtpFailTime p) now \<ge> 300 * SECOND)"

definition countSeeder :: "peer list \<Rightarrow> nat" where
  "countSeeder peers = length (filter (\<lambda>p. pr_res p \<noteq> None \<and> pr_seeder p) peers)"

end
