(* ===== verification/PieceStorage.thy ===== *)
theory PieceStorage
  imports StreamSelector PieceCache PieceSelector Peer
begin

text \<open>
  \<open>DefaultPieceStorage\<close>: which pieces the download has, which are being fetched and by whom. The
  \<open>BitfieldMan\<close> here counts pieces (its blocks are \<open>getPieceLength()\<close> long); \<open>pst_used\<close> is
  \<open>usedPieces_\<close>, a \<open>std::set\<close> ordered by piece index. A \<open>shared_ptr<Piece>\<close> that a caller
  holds is passed as the current value of the object; an operation that changes it returns the new
  value and, where the object is in \<open>pst_used\<close>, updates it there. The outer \<open>None\<close> is a failed
  assertion (or an undefined access); logging is left out. \<open>writeTo\<close> is the disk, \<open>alloc\<close> gives the
  address of a new write cache entry.
\<close>

subsection \<open>State\<close>

record have_entry =
  he_haveIndex :: nat
  he_cuid :: int
  he_index :: nat
  he_registeredTime :: int

datatype stream_sel = DefaultStream | InorderStream | RandomStream | GeomStream geom_selector

record ('h, 'd) piece_storage =
  pst_bitfieldMan :: bitfield_man
  pst_used :: "'h piece list"
  pst_endGame :: bool
  pst_endGamePieceNum :: nat
  pst_nextHaveIndex :: nat
  pst_haves :: "have_entry list"
  pst_stats :: piece_stats
  pst_selector :: selector
  pst_stream :: "stream_sel option"
  pst_hasCache :: bool
  pst_cache :: "'d wr_state"
  pst_adaptor :: nat
  pst_hashType :: string
  pst_inMemory :: bool

text \<open>
  The constructor; \<open>order\<close> is the shuffled order of the \<open>getNumPieces()\<close> pieces, \<open>opt\<close> the
  value of \<open>PREF_STREAM_PIECE_SELECTOR\<close>. The disk adaptor, set by \<open>initStorage\<close>, and the state
  of the write cache are given; \<open>hashType\<close> and \<open>inMemory\<close> belong to the download context.
\<close>

definition stream_of_option :: "string \<Rightarrow> stream_sel option" where
  "stream_of_option opt =
     (if opt = [] \<or> opt = ''default'' then Some DefaultStream
      else if opt = ''inorder'' then Some InorderStream
      else if opt = ''random'' then Some RandomStream
      else if opt = ''geom'' then Some (GeomStream (geomStream_new (3 / 2)))
      else None)"

definition pst_new ::
  "int \<Rightarrow> int \<Rightarrow> nat list \<Rightarrow> string \<Rightarrow> string \<Rightarrow> bool \<Rightarrow> nat \<Rightarrow> 'd wr_state \<Rightarrow> ('h, 'd) piece_storage" where
  "pst_new pieceLength totalLength order opt hashType inMemory adaptor cache =
     \<lparr>pst_bitfieldMan = bm_new pieceLength totalLength, pst_used = [], pst_endGame = False,
      pst_endGamePieceNum = 20, pst_nextHaveIndex = 1, pst_haves = [], pst_stats = stats_new order,
      pst_selector = Rarest, pst_stream = stream_of_option opt, pst_hasCache = False, pst_cache = cache,
      pst_adaptor = adaptor, pst_hashType = hashType, pst_inMemory = inMemory\<rparr>"

definition setWrDiskCache :: "bool \<Rightarrow> 'd wr_state \<Rightarrow> ('h, 'd) piece_storage \<Rightarrow> ('h, 'd) piece_storage" where
  "setWrDiskCache hasCache cache st = st\<lparr>pst_hasCache := hasCache, pst_cache := cache\<rparr>"

definition setPieceSelector :: "selector \<Rightarrow> ('h, 'd) piece_storage \<Rightarrow> ('h, 'd) piece_storage" where
  "setPieceSelector sel st = st\<lparr>pst_selector := sel\<rparr>"

definition setEndGamePieceNum :: "nat \<Rightarrow> ('h, 'd) piece_storage \<Rightarrow> ('h, 'd) piece_storage" where
  "setEndGamePieceNum num st = st\<lparr>pst_endGamePieceNum := num\<rparr>"

definition enterEndGame :: "('h, 'd) piece_storage \<Rightarrow> ('h, 'd) piece_storage" where
  "enterEndGame st = st\<lparr>pst_endGame := True\<rparr>"

subsection \<open>Used pieces\<close>

fun used_insert :: "'h piece \<Rightarrow> 'h piece list \<Rightarrow> 'h piece list" where
  "used_insert p [] = [p]"
| "used_insert p (q # qs) =
     (if pc_index p < pc_index q then p # q # qs
      else if pc_index q < pc_index p then q # used_insert p qs
      else q # qs)"

definition addUsedPiece :: "'h piece \<Rightarrow> ('h, 'd) piece_storage \<Rightarrow> ('h, 'd) piece_storage" where
  "addUsedPiece p st = st\<lparr>pst_used := used_insert p (pst_used st)\<rparr>"

definition findUsedPiece :: "('h, 'd) piece_storage \<Rightarrow> nat \<Rightarrow> 'h piece option" where
  "findUsedPiece st index = List.find (\<lambda>p. pc_index p = index) (pst_used st)"

text \<open>The object of that index has changed.\<close>

definition put_used :: "'h piece \<Rightarrow> ('h, 'd) piece_storage \<Rightarrow> ('h, 'd) piece_storage" where
  "put_used p st = st\<lparr>pst_used := map (\<lambda>q. if pc_index q = pc_index p then p else q) (pst_used st)\<rparr>"

definition hasPiece :: "('h, 'd) piece_storage \<Rightarrow> nat \<Rightarrow> bool option" where
  "hasPiece st index = isBitSet (pst_bitfieldMan st) index"

definition isPieceUsed :: "('h, 'd) piece_storage \<Rightarrow> nat \<Rightarrow> bool option" where
  "isPieceUsed st index = isUseBitSet (pst_bitfieldMan st) index"

definition checkOutPiece ::
  "'d write_to \<Rightarrow> ('d wr_state \<Rightarrow> nat) \<Rightarrow> nat \<Rightarrow> int \<Rightarrow> ('h, 'd) piece_storage \<Rightarrow>
     (('h, 'd) piece_storage \<times> 'h piece) option" where
  "checkOutPiece writeTo alloc index cuid st = do {
     wanted \<leftarrow> (if bm_filterEnabled (pst_bitfieldMan st) then isFilterBitSet (pst_bitfieldMan st) index
               else Some True);
     if \<not> wanted then None else do {
       let m = fst (setUseBit (pst_bitfieldMan st) index);
       let st = st\<lparr>pst_bitfieldMan := m\<rparr>;
       let (p, st) = (case findUsedPiece st index of
             Some p \<Rightarrow> (p, st)
           | None \<Rightarrow>
               let p = setHashType (pst_hashType st) (piece_new index (getBlockLength m index) BLOCK_LENGTH)
               in (p, addUsedPiece p st));
       let p = addUser cuid p;
       if \<not> pst_inMemory st \<and> pst_hasCache st \<and> pc_wrCache p = None
       then do {
         (p, cache) \<leftarrow> initWrCache writeTo True (alloc (pst_cache st)) (pst_adaptor st) p (pst_cache st);
         Some ((put_used p st)\<lparr>pst_cache := cache\<rparr>, p) }
       else Some (put_used p st, p) } }"

text \<open>A piece that is not used is made up for the call.\<close>

definition getPiece :: "('h, 'd) piece_storage \<Rightarrow> nat \<Rightarrow> 'h piece option option" where
  "getPiece st index =
     (if index \<le> usub (bm_blocks (pst_bitfieldMan st)) 1
      then case findUsedPiece st index of
          Some p \<Rightarrow> Some (Some p)
        | None \<Rightarrow> do {
            let p = piece_new index (getBlockLength (pst_bitfieldMan st) index) BLOCK_LENGTH;
            has \<leftarrow> hasPiece st index;
            Some (Some (if has then setAllBlock p else p)) }
      else Some None)"

definition deleteUsedPiece ::
  "'h piece \<Rightarrow> ('h, 'd) piece_storage \<Rightarrow> ('h, 'd) piece_storage \<times> 'h piece" where
  "deleteUsedPiece p st =
     (let used = filter (\<lambda>q. pc_index q \<noteq> pc_index p) (pst_used st);
          (p, cache) = releaseWrCache (pst_hasCache st) p (pst_cache st)
      in (st\<lparr>pst_used := used, pst_cache := cache\<rparr>, p))"

subsection \<open>Choosing pieces for a peer\<close>

definition pst_hasMissingPiece :: "('h, 'd) piece_storage \<Rightarrow> peer \<Rightarrow> bool option" where
  "pst_hasMissingPiece st peer = map_option (hasMissingPiece (pst_bitfieldMan st)) (peer_getBitfield peer)"

text \<open>The loop of the end game, over the shuffled indexes.\<close>

fun endgame_loop ::
  "'d write_to \<Rightarrow> ('d wr_state \<Rightarrow> nat) \<Rightarrow> nat \<Rightarrow> int \<Rightarrow> nat list \<Rightarrow> nat \<Rightarrow> 'h piece list \<Rightarrow>
     ('h, 'd) piece_storage \<Rightarrow> (('h, 'd) piece_storage \<times> 'h piece list) option" where
  "endgame_loop writeTo alloc minMissingBlocks cuid [] misBlock pieces st = Some (st, pieces)"
| "endgame_loop writeTo alloc minMissingBlocks cuid (i # is) misBlock pieces st =
     (if misBlock < minMissingBlocks then do {
        (st, p) \<leftarrow> checkOutPiece writeTo alloc i cuid st;
        if pc_usedBySegment p
        then endgame_loop writeTo alloc minMissingBlocks cuid is misBlock pieces (put_used (removeUser cuid p) st)
        else endgame_loop writeTo alloc minMissingBlocks cuid is (misBlock + piece_countMissingBlock p) (pieces @ [p]) st }
      else Some (st, pieces))"

text \<open>The loop of the normal case; \<open>None\<close> also if it does not end.\<close>

partial_function (option) select_loop ::
  "'d write_to \<Rightarrow> ('d wr_state \<Rightarrow> nat) \<Rightarrow> nat \<Rightarrow> int \<Rightarrow> byte list \<Rightarrow> nat \<Rightarrow> 'h piece list \<Rightarrow>
     ('h, 'd) piece_storage \<Rightarrow> (('h, 'd) piece_storage \<times> 'h piece list) option" where
  "select_loop writeTo alloc minMissingBlocks cuid misbitfield misBlock pieces st =
     (if misBlock < minMissingBlocks then
        case sel_select (pst_stats st) (pst_selector st) misbitfield (bm_blocks (pst_bitfieldMan st)) of
          Some index \<Rightarrow> do {
            (st, p) \<leftarrow> checkOutPiece writeTo alloc index cuid st;
            misbitfield \<leftarrow> flipBit misbitfield (bm_blocks (pst_bitfieldMan st)) index;
            select_loop writeTo alloc minMissingBlocks cuid misbitfield (misBlock + piece_countMissingBlock p)
              (pieces @ [p]) st }
        | None \<Rightarrow> Some (st, pieces)
      else Some (st, pieces))"

text \<open>\<open>shuffle\<close> is \<open>std::shuffle\<close>; the result is the vector of pieces, empty before.\<close>

definition getMissingPieces ::
  "'d write_to \<Rightarrow> ('d wr_state \<Rightarrow> nat) \<Rightarrow> (nat list \<Rightarrow> nat list) \<Rightarrow> nat \<Rightarrow> byte list \<Rightarrow> int \<Rightarrow>
     ('h, 'd) piece_storage \<Rightarrow> (('h, 'd) piece_storage \<times> 'h piece list) option" where
  "getMissingPieces writeTo alloc shuffle minMissingBlocks bitfield cuid st =
     (let m = pst_bitfieldMan st;
          misbitfield = replicate (bm_bitfieldLength m) 0;
          blocks = bm_blocks m
      in if pst_endGame st then do {
           (misbitfield, r) \<leftarrow> getAllMissingIndexesOf m misbitfield bitfield;
           if \<not> r then Some (st, [])
           else endgame_loop writeTo alloc minMissingBlocks cuid
                  (shuffle (filter (\<lambda>i. test (array misbitfield) blocks i) [0..<blocks])) 0 [] st }
         else do {
           (misbitfield, r) \<leftarrow> getAllMissingUnusedIndexes m misbitfield bitfield;
           if \<not> r then Some (st, [])
           else select_loop writeTo alloc minMissingBlocks cuid misbitfield 0 [] st })"

definition unsetExcludedIndexes :: "nat list \<Rightarrow> bitfield_man \<Rightarrow> bitfield_man" where
  "unsetExcludedIndexes excludedIndexes m = fold (\<lambda>i m. fst (unsetBit m i)) excludedIndexes m"

fun fast_indexes ::
  "bitfield_man \<Rightarrow> peer \<Rightarrow> nat list \<Rightarrow> bitfield_man \<Rightarrow> bitfield_man option" where
  "fast_indexes own peer [] bitfield = Some bitfield"
| "fast_indexes own peer (i # is) bitfield = do {
     have \<leftarrow> isBitSet own i;
     offered \<leftarrow> (if have then Some False else peer_hasPiece peer i);
     fast_indexes own peer is (if offered then fst (setBit bitfield i) else bitfield) }"

definition createFastIndexBitfield ::
  "('h, 'd) piece_storage \<Rightarrow> peer \<Rightarrow> bitfield_man \<Rightarrow> bitfield_man option" where
  "createFastIndexBitfield st peer bitfield = do {
     is \<leftarrow> getPeerAllowedIndexSet peer; fast_indexes (pst_bitfieldMan st) peer is bitfield }"

definition tempBitfield :: "('h, 'd) piece_storage \<Rightarrow> bitfield_man" where
  "tempBitfield st = bm_new (bm_blockLength (pst_bitfieldMan st)) (bm_totalLength (pst_bitfieldMan st))"

definition getMissingPiecesOf where
  "getMissingPiecesOf writeTo alloc shuffle minMissingBlocks peer cuid st = do {
     bitfield \<leftarrow> peer_getBitfield peer;
     getMissingPieces writeTo alloc shuffle minMissingBlocks bitfield cuid st }"

definition getMissingPiecesExcept where
  "getMissingPiecesExcept writeTo alloc shuffle minMissingBlocks peer excludedIndexes cuid st = do {
     bitfield \<leftarrow> peer_getBitfield peer;
     let temp = unsetExcludedIndexes excludedIndexes (setBitfield (tempBitfield st) bitfield);
     getMissingPieces writeTo alloc shuffle minMissingBlocks (bm_bitfield temp) cuid st }"

definition fastAllowed :: "peer \<Rightarrow> bool option" where
  "fastAllowed peer = do {
     fast \<leftarrow> peer_isFastExtensionEnabled peer;
     if fast then map_option (\<lambda>n. n > 0) (countPeerAllowedIndexSet peer) else Some False }"

definition getMissingFastPieces where
  "getMissingFastPieces writeTo alloc shuffle minMissingBlocks peer cuid st = do {
     fast \<leftarrow> fastAllowed peer;
     if fast then do {
       temp \<leftarrow> createFastIndexBitfield st peer (tempBitfield st);
       getMissingPieces writeTo alloc shuffle minMissingBlocks (bm_bitfield temp) cuid st }
     else Some (st, []) }"

definition getMissingFastPiecesExcept where
  "getMissingFastPiecesExcept writeTo alloc shuffle minMissingBlocks peer excludedIndexes cuid st = do {
     fast \<leftarrow> fastAllowed peer;
     if fast then do {
       temp \<leftarrow> createFastIndexBitfield st peer (tempBitfield st);
       let temp = unsetExcludedIndexes excludedIndexes temp;
       getMissingPieces writeTo alloc shuffle minMissingBlocks (bm_bitfield temp) cuid st }
     else Some (st, []) }"

text \<open>\<open>pieces.empty() ? nullptr : pieces.front()\<close>.\<close>

definition front :: "(('h, 'd) piece_storage \<times> 'h piece list) option \<Rightarrow> (('h, 'd) piece_storage \<times> 'h piece option) option" where
  "front r = map_option (\<lambda>(st, pieces). (st, case pieces of [] \<Rightarrow> None | p # _ \<Rightarrow> Some p)) r"

definition getMissingPieceOf where
  "getMissingPieceOf writeTo alloc shuffle peer cuid st =
     front (getMissingPiecesOf writeTo alloc shuffle 1 peer cuid st)"

definition getMissingPieceExcept where
  "getMissingPieceExcept writeTo alloc shuffle peer excludedIndexes cuid st =
     front (getMissingPiecesExcept writeTo alloc shuffle 1 peer excludedIndexes cuid st)"

definition getMissingFastPiece where
  "getMissingFastPiece writeTo alloc shuffle peer cuid st =
     front (getMissingFastPieces writeTo alloc shuffle 1 peer cuid st)"

definition getMissingFastPieceExcept where
  "getMissingFastPieceExcept writeTo alloc shuffle peer excludedIndexes cuid st =
     front (getMissingFastPiecesExcept writeTo alloc shuffle 1 peer excludedIndexes cuid st)"

subsection \<open>Choosing a piece for a stream\<close>

text \<open>\<open>start\<close> is the random start index; \<open>fuel\<close> and \<open>rnd\<close> are those of the geometric search.\<close>

fun stream_select ::
  "nat \<Rightarrow> nat \<Rightarrow> (rat \<Rightarrow> rat) \<Rightarrow> stream_sel \<Rightarrow> bitfield_man \<Rightarrow> nat \<Rightarrow> byte list \<Rightarrow>
     (bitfield_man \<times> nat option) option" where
  "stream_select start fuel rnd DefaultStream = defaultStream_select"
| "stream_select start fuel rnd InorderStream = inorderStream_select"
| "stream_select start fuel rnd RandomStream = randomStream_select start"
| "stream_select start fuel rnd (GeomStream gs) = geomStream_select fuel rnd gs"

definition getMissingPieceSplit ::
  "'d write_to \<Rightarrow> ('d wr_state \<Rightarrow> nat) \<Rightarrow> nat \<Rightarrow> nat \<Rightarrow> (rat \<Rightarrow> rat) \<Rightarrow> nat \<Rightarrow> byte list \<Rightarrow> int \<Rightarrow>
     ('h, 'd) piece_storage \<Rightarrow> (('h, 'd) piece_storage \<times> 'h piece option) option" where
  "getMissingPieceSplit writeTo alloc start fuel rnd minSplitSize ignoreBitfield cuid st = do {
     sel \<leftarrow> pst_stream st;
     (m, r) \<leftarrow> stream_select start fuel rnd sel (pst_bitfieldMan st) minSplitSize ignoreBitfield;
     let st = st\<lparr>pst_bitfieldMan := m\<rparr>;
     case r of
       Some index \<Rightarrow> map_option (\<lambda>(st, p). (st, Some p)) (checkOutPiece writeTo alloc index cuid st)
     | None \<Rightarrow> Some (st, None) }"

definition getMissingPieceAt ::
  "'d write_to \<Rightarrow> ('d wr_state \<Rightarrow> nat) \<Rightarrow> nat \<Rightarrow> int \<Rightarrow> ('h, 'd) piece_storage \<Rightarrow>
     (('h, 'd) piece_storage \<times> 'h piece option) option" where
  "getMissingPieceAt writeTo alloc index cuid st = do {
     has \<leftarrow> hasPiece st index;
     used \<leftarrow> isPieceUsed st index;
     filtered \<leftarrow> (if bm_filterEnabled (pst_bitfieldMan st)
                 then map_option Not (isFilterBitSet (pst_bitfieldMan st) index) else Some False);
     if has \<or> used \<or> filtered then Some (st, None)
     else map_option (\<lambda>(st, p). (st, Some p)) (checkOutPiece writeTo alloc index cuid st) }"

definition hasMissingUnusedPiece :: "('h, 'd) piece_storage \<Rightarrow> bool" where
  "hasMissingUnusedPiece st \<longleftrightarrow> getFirstMissingUnusedIndex (pst_bitfieldMan st) \<noteq> None"

definition countMissingPiece :: "('h, 'd) piece_storage \<Rightarrow> nat" where
  "countMissingPiece st = bm_cachedNumMissingBlock (pst_bitfieldMan st)"

definition onDownloadIncomplete :: "('h, 'd) piece_storage \<Rightarrow> ('h, 'd) piece_storage option" where
  "onDownloadIncomplete st = do {
     sel \<leftarrow> pst_stream st;
     Some (case sel of
       GeomStream gs \<Rightarrow> st\<lparr>pst_stream := Some (GeomStream (geomStream_onBitfieldInit gs (pst_bitfieldMan st)))\<rparr>
     | _ \<Rightarrow> st) }"

subsection \<open>Progress\<close>

definition isSelectiveDownloadingMode :: "('h, 'd) piece_storage \<Rightarrow> bool" where
  "isSelectiveDownloadingMode st = bm_filterEnabled (pst_bitfieldMan st)"

definition downloadFinished :: "('h, 'd) piece_storage \<Rightarrow> bool" where
  "downloadFinished st = isFilteredAllBitSet (pst_bitfieldMan st)"

definition allDownloadFinished :: "('h, 'd) piece_storage \<Rightarrow> bool" where
  "allDownloadFinished st = isAllBitSet (pst_bitfieldMan st)"

definition pst_addPieceStat :: "nat \<Rightarrow> ('h, 'd) piece_storage \<Rightarrow> ('h, 'd) piece_storage" where
  "pst_addPieceStat index st = st\<lparr>pst_stats := addPieceStat index (pst_stats st)\<rparr>"

definition pst_addPieceStats :: "byte list \<Rightarrow> ('h, 'd) piece_storage \<Rightarrow> ('h, 'd) piece_storage" where
  "pst_addPieceStats bitfield st = st\<lparr>pst_stats := addPieceStats bitfield (pst_stats st)\<rparr>"

definition pst_subtractPieceStats :: "byte list \<Rightarrow> ('h, 'd) piece_storage \<Rightarrow> ('h, 'd) piece_storage" where
  "pst_subtractPieceStats bitfield st = st\<lparr>pst_stats := subtractPieceStats bitfield (pst_stats st)\<rparr>"

definition pst_updatePieceStats :: "byte list \<Rightarrow> byte list \<Rightarrow> ('h, 'd) piece_storage \<Rightarrow> ('h, 'd) piece_storage" where
  "pst_updatePieceStats newBitfield oldBitfield st = st\<lparr>pst_stats := updatePieceStats newBitfield oldBitfield (pst_stats st)\<rparr>"

text \<open>
  \<open>completePiece\<close> and \<open>cancelPiece\<close> do nothing for a null pointer. The flag says that the download
  is finished with this piece: then the caller's context resets its stop time, runs the completion
  hooks and switches to seeding.
\<close>

definition completePiece ::
  "'h piece \<Rightarrow> ('h, 'd) piece_storage \<Rightarrow> ('h, 'd) piece_storage \<times> 'h piece \<times> bool" where
  "completePiece p st =
     (let (st, p) = deleteUsedPiece p st in
      if allDownloadFinished st then (st, p, False)
      else
        let m = fst (setBit (pst_bitfieldMan st) (pc_index p));
            m = fst (unsetUseBit m (pc_index p));
            st = pst_addPieceStat (pc_index p) (st\<lparr>pst_bitfieldMan := m\<rparr>)
        in (st, p, downloadFinished st))"

definition cancelPiece ::
  "'h piece \<Rightarrow> int \<Rightarrow> ('h, 'd) piece_storage \<Rightarrow> ('h, 'd) piece_storage \<times> 'h piece" where
  "cancelPiece p cuid st =
     (let p = removeUser cuid p;
          st = put_used p st;
          st = (if \<not> getUsed p
                then st\<lparr>pst_bitfieldMan := fst (unsetUseBit (pst_bitfieldMan st) (pc_index p))\<rparr> else st)
      in if \<not> pst_endGame st \<and> piece_getCompletedLength p = 0 then deleteUsedPiece p st else (st, p))"

definition pst_getTotalLength :: "('h, 'd) piece_storage \<Rightarrow> int" where
  "pst_getTotalLength st = bm_totalLength (pst_bitfieldMan st)"

definition pst_getFilteredTotalLength :: "('h, 'd) piece_storage \<Rightarrow> int" where
  "pst_getFilteredTotalLength st = bm_cachedFilteredTotalLength (pst_bitfieldMan st)"

definition getInFlightPieceCompletedLength :: "('h, 'd) piece_storage \<Rightarrow> int" where
  "getInFlightPieceCompletedLength st =
     fold (\<lambda>p len. int64_of (len + piece_getCompletedLength p)) (pst_used st) 0"

fun inflight_filtered :: "bitfield_man \<Rightarrow> 'h piece list \<Rightarrow> int \<Rightarrow> int option" where
  "inflight_filtered m [] len = Some len"
| "inflight_filtered m (p # ps) len = do {
     wanted \<leftarrow> isFilterBitSet m (pc_index p);
     inflight_filtered m ps (if wanted then int64_of (len + piece_getCompletedLength p) else len) }"

definition getInFlightPieceFilteredCompletedLength :: "('h, 'd) piece_storage \<Rightarrow> int option" where
  "getInFlightPieceFilteredCompletedLength st = inflight_filtered (pst_bitfieldMan st) (pst_used st) 0"

definition pst_getCompletedLength :: "('h, 'd) piece_storage \<Rightarrow> int" where
  "pst_getCompletedLength st =
     (let completedLength = int64_of (bm_cachedCompletedLength (pst_bitfieldMan st) + getInFlightPieceCompletedLength st);
          totalLength = pst_getTotalLength st
      in if completedLength > totalLength then totalLength else completedLength)"

definition pst_getFilteredCompletedLength :: "('h, 'd) piece_storage \<Rightarrow> int option" where
  "pst_getFilteredCompletedLength st = map_option
     (\<lambda>len. int64_of (bm_cachedFilteredCompletedLength (pst_bitfieldMan st) + len))
     (getInFlightPieceFilteredCompletedLength st)"

text \<open>\<open>fes\<close> are the file entries of the download context.\<close>

fun add_filters :: "file_entry list \<Rightarrow> bitfield_man \<Rightarrow> bitfield_man option" where
  "add_filters [] m = Some m"
| "add_filters (e # es) m = do {
     m \<leftarrow> (if fe_requested e then addFilter m (fe_offset e) (fe_length e) else Some m);
     add_filters es m }"

definition setupFileFilter :: "file_entry list \<Rightarrow> ('h, 'd) piece_storage \<Rightarrow> ('h, 'd) piece_storage option" where
  "setupFileFilter fes st =
     (if List.find (\<lambda>e. \<not> fe_requested e) fes = None then Some st
      else do {
        m \<leftarrow> add_filters fes (pst_bitfieldMan st);
        Some (st\<lparr>pst_bitfieldMan := enableFilter m\<rparr>) })"

definition clearFileFilter :: "('h, 'd) piece_storage \<Rightarrow> ('h, 'd) piece_storage" where
  "clearFileFilter st = st\<lparr>pst_bitfieldMan := clearFilter (pst_bitfieldMan st)\<rparr>"

definition pst_setBitfield :: "byte list \<Rightarrow> ('h, 'd) piece_storage \<Rightarrow> ('h, 'd) piece_storage" where
  "pst_setBitfield bitfield st =
     pst_addPieceStats bitfield (st\<lparr>pst_bitfieldMan := setBitfield (pst_bitfieldMan st) bitfield\<rparr>)"

definition pst_getPieceLength :: "('h, 'd) piece_storage \<Rightarrow> nat \<Rightarrow> int" where
  "pst_getPieceLength st index = getBlockLength (pst_bitfieldMan st) index"

definition markAllPiecesDone :: "('h, 'd) piece_storage \<Rightarrow> ('h, 'd) piece_storage" where
  "markAllPiecesDone st = st\<lparr>pst_bitfieldMan := setAllBit (pst_bitfieldMan st)\<rparr>"

definition markPieceMissing :: "nat \<Rightarrow> ('h, 'd) piece_storage \<Rightarrow> ('h, 'd) piece_storage" where
  "markPieceMissing index st = st\<lparr>pst_bitfieldMan := fst (unsetBit (pst_bitfieldMan st) index)\<rparr>"

text \<open>A piece length of zero divides by zero.\<close>

definition markPiecesDone :: "int \<Rightarrow> ('h, 'd) piece_storage \<Rightarrow> ('h, 'd) piece_storage option" where
  "markPiecesDone len st =
     (let m = pst_bitfieldMan st in
      if len = bm_totalLength m then Some (st\<lparr>pst_bitfieldMan := setAllBit m\<rparr>)
      else if len = 0 then Some (st\<lparr>pst_bitfieldMan := clearAllBit m, pst_used := []\<rparr>)
      else if bm_blockLength m = 0 then None
      else
        let numPiece = size_of_int (len sdiv bm_blockLength m);
            st = (if numPiece > 0 then st\<lparr>pst_bitfieldMan := setBitRange m 0 (numPiece - 1)\<rparr> else st);
            r = size_of_int (len smod bm_blockLength m sdiv BLOCK_LENGTH)
        in if r > 0 then
             let p = piece_new numPiece (getBlockLength m numPiece) BLOCK_LENGTH;
                 p = setHashType (pst_hashType st) (fold completeBlock [0..<r] p)
             in Some (addUsedPiece p st)
           else Some st)"

definition addInFlightPiece :: "'h piece list \<Rightarrow> ('h, 'd) piece_storage \<Rightarrow> ('h, 'd) piece_storage" where
  "addInFlightPiece pieces st = st\<lparr>pst_used := fold used_insert pieces (pst_used st)\<rparr>"

definition countInFlightPiece :: "('h, 'd) piece_storage \<Rightarrow> nat" where
  "countInFlightPiece st = length (pst_used st)"

definition getInFlightPieces :: "('h, 'd) piece_storage \<Rightarrow> 'h piece list \<Rightarrow> 'h piece list" where
  "getInFlightPieces st pieces = pieces @ pst_used st"

fun next_used :: "bitfield_man \<Rightarrow> nat list \<Rightarrow> nat option" where
  "next_used m [] = Some (bm_blocks m)"
| "next_used m (i # is) = do {
     use \<leftarrow> isUseBitSet m i;
     busy \<leftarrow> (if use then Some True else isBitSet m i);
     if busy then Some i else next_used m is }"

definition getNextUsedIndex :: "('h, 'd) piece_storage \<Rightarrow> nat \<Rightarrow> nat option" where
  "getNextUsedIndex st index =
     next_used (pst_bitfieldMan st) [(index + 1) mod 2 ^ 64..<bm_blocks (pst_bitfieldMan st)]"

subsection \<open>Flushing the write cache\<close>

fun flush_entries ::
  "'d write_to \<Rightarrow> bool \<Rightarrow> 'h piece list \<Rightarrow> 'd wr_state \<Rightarrow> ('h piece list \<times> 'd wr_state) option" where
  "flush_entries writeTo releaseEntries [] s = Some ([], s)"
| "flush_entries writeTo releaseEntries (p # ps) s = do {
     (p, s) \<leftarrow> (if pc_wrCache p = None then Some (p, s) else do {
       s \<leftarrow> flushWrCache writeTo True p s;
       Some (if releaseEntries then releaseWrCache True p s else (p, s)) });
     (ps, s) \<leftarrow> flush_entries writeTo releaseEntries ps s;
     Some (p # ps, s) }"

definition flushWrDiskCacheEntry ::
  "'d write_to \<Rightarrow> bool \<Rightarrow> ('h, 'd) piece_storage \<Rightarrow> ('h, 'd) piece_storage option" where
  "flushWrDiskCacheEntry writeTo releaseEntries st =
     (if \<not> pst_hasCache st then Some st
      else map_option (\<lambda>(ps, s). st\<lparr>pst_used := ps, pst_cache := s\<rparr>)
        (flush_entries writeTo releaseEntries (pst_used st) (pst_cache st)))"

fun flush_completed :: "'d write_to \<Rightarrow> 'h piece list \<Rightarrow> 'd wr_state \<Rightarrow> 'd wr_state option" where
  "flush_completed writeTo [] s = Some s"
| "flush_completed writeTo (p # ps) s =
     (if pc_wrCache p \<noteq> None \<and> piece_getCompletedLength p = pc_length p
      then do { s \<leftarrow> flushWrCache writeTo True p s; flush_completed writeTo ps s }
      else flush_completed writeTo ps s)"

definition flushCompletedWrDiskCache ::
  "'d write_to \<Rightarrow> ('h, 'd) piece_storage \<Rightarrow> ('h, 'd) piece_storage option" where
  "flushCompletedWrDiskCache writeTo st =
     (if \<not> pst_hasCache st then Some st
      else map_option (\<lambda>s. st\<lparr>pst_cache := s\<rparr>) (flush_completed writeTo (pst_used st) (pst_cache st)))"

subsection \<open>Advertised pieces\<close>

text \<open>\<open>std::upper_bound\<close>: \<open>after x\<close> is the comparison \<open>value < x\<close>.\<close>

function upper_bound_loop :: "('a \<Rightarrow> bool) \<Rightarrow> 'a list \<Rightarrow> nat \<Rightarrow> nat \<Rightarrow> nat" where
  "upper_bound_loop after xs first len =
     (if len = 0 then first
      else let half = len div 2 in
        if after (xs ! (first + half)) then upper_bound_loop after xs first half
        else upper_bound_loop after xs (first + half + 1) (len - half - 1))"
  by pat_completeness auto
termination by (relation "measure (\<lambda>(_, _, _, len). len)") auto

declare upper_bound_loop.simps [simp del]

definition upper_bound :: "('a \<Rightarrow> bool) \<Rightarrow> 'a list \<Rightarrow> nat" where
  "upper_bound after xs = upper_bound_loop after xs 0 (length xs)"

definition advertisePiece :: "int \<Rightarrow> nat \<Rightarrow> int \<Rightarrow> ('h, 'd) piece_storage \<Rightarrow> ('h, 'd) piece_storage" where
  "advertisePiece cuid index registeredTime st =
     st\<lparr>pst_haves := pst_haves st @ [\<lparr>he_haveIndex = pst_nextHaveIndex st, he_cuid = cuid, he_index = index,
          he_registeredTime = registeredTime\<rparr>],
        pst_nextHaveIndex := (pst_nextHaveIndex st + 1) mod 2 ^ 64\<rparr>"

definition getAdvertisedPieceIndexes :: "('h, 'd) piece_storage \<Rightarrow> nat \<Rightarrow> nat list \<times> nat" where
  "getAdvertisedPieceIndexes st lastHaveIndex =
     (let it = upper_bound (\<lambda>have. lastHaveIndex < he_haveIndex have) (pst_haves st) in
      if it = length (pst_haves st) then ([], lastHaveIndex)
      else (map he_index (drop it (pst_haves st)), he_haveIndex (last (pst_haves st))))"

definition removeAdvertisedPiece :: "int \<Rightarrow> ('h, 'd) piece_storage \<Rightarrow> ('h, 'd) piece_storage" where
  "removeAdvertisedPiece expiry st =
     st\<lparr>pst_haves := drop (upper_bound (\<lambda>have. expiry < he_registeredTime have) (pst_haves st)) (pst_haves st)\<rparr>"

end
