(* ===== verification/PieceStorageProps.thy ===== *)
theory PieceStorageProps
  imports PieceStorage BlockMap
begin

text \<open>
  The invariant of the piece storage and what its operations do to it, in terms of the views of
  the piece map (\<open>haves\<close>, \<open>uses\<close>, \<open>selected\<close>) and of the map from indexes to used pieces.
\<close>

subsection \<open>Used pieces\<close>

abbreviation smap :: "('h, 'd) piece_storage \<Rightarrow> bitfield_man" where
  "smap st \<equiv> pst_bitfieldMan st"

abbreviation used_sorted :: "'h piece list \<Rightarrow> bool" where
  "used_sorted ps \<equiv> sorted_wrt (<) (map pc_index ps)"

lemma used_insert_set:
  "used_sorted qs \<Longrightarrow> pc_index p \<in> pc_index ` set qs \<Longrightarrow> used_insert p qs = qs"
  "used_sorted qs \<Longrightarrow> pc_index p \<notin> pc_index ` set qs \<Longrightarrow> set (used_insert p qs) = insert p (set qs)"
proof -
  show "used_sorted qs \<Longrightarrow> pc_index p \<in> pc_index ` set qs \<Longrightarrow> used_insert p qs = qs"
    by (induction qs) force+
  show "used_sorted qs \<Longrightarrow> pc_index p \<notin> pc_index ` set qs \<Longrightarrow> set (used_insert p qs) = insert p (set qs)"
    by (induction qs) auto
qed

lemma used_insert_sorted:
  assumes "used_sorted qs"
  shows "used_sorted (used_insert p qs)"
  using assms
proof (induction qs)
  case (Cons q qs)
  then have tl: "used_sorted qs" and above: "\<forall>x\<in>set qs. pc_index q < pc_index x" by auto
  have "\<forall>x\<in>set (used_insert p qs). x = p \<or> x \<in> set qs"
    using used_insert_set(1,2) [OF tl, of p] by (cases "pc_index p \<in> pc_index ` set qs") auto
  then show ?case using Cons.IH [OF tl] tl above by fastforce
qed simp

definition piece_at :: "'h piece list \<Rightarrow> nat \<Rightarrow> 'h piece option" where
  "piece_at ps i = List.find (\<lambda>p. pc_index p = i) ps"

lemma findUsedPiece_at: "findUsedPiece st i = piece_at (pst_used st) i"
  by (simp add: findUsedPiece_def piece_at_def)

lemma piece_at_None: "piece_at ps i = None \<longleftrightarrow> i \<notin> pc_index ` set ps"
  by (induction ps) (auto simp: piece_at_def)

lemma piece_at_Some:
  "used_sorted ps \<Longrightarrow> piece_at ps i = Some p \<longleftrightarrow> p \<in> set ps \<and> pc_index p = i"
  by (induction ps) (auto simp: piece_at_def)

lemma piece_at_Nil [simp]: "piece_at [] = Map.empty"
  by (simp add: piece_at_def fun_eq_iff)

lemma piece_at_insert:
  assumes "used_sorted qs"
  shows "piece_at (used_insert p qs) = (if piece_at qs (pc_index p) = None then (piece_at qs)(pc_index p \<mapsto> p) else piece_at qs)"
proof (cases "pc_index p \<in> pc_index ` set qs")
  case True
  then show ?thesis using used_insert_set(1) [OF assms, of p] by (simp add: piece_at_None)
next
  case False
  have "piece_at (used_insert p qs) i = ((piece_at qs)(pc_index p \<mapsto> p)) i" for i
    using assms False by (induction qs) (auto simp: piece_at_def)
  then show ?thesis using False by (auto simp: piece_at_None)
qed

lemma piece_at_put:
  "piece_at (map (\<lambda>q. if pc_index q = pc_index p then p else q) qs) =
     (if piece_at qs (pc_index p) = None then piece_at qs else (piece_at qs)(pc_index p \<mapsto> p))"
proof -
  have "piece_at (map (\<lambda>q. if pc_index q = pc_index p then p else q) qs) i =
     (if i = pc_index p \<and> piece_at qs i \<noteq> None then Some p else piece_at qs i)" for i
    by (induction qs) (auto simp: piece_at_def)
  then show ?thesis by (auto simp: fun_eq_iff)
qed

lemma put_sorted:
  "map pc_index (map (\<lambda>q. if pc_index q = pc_index p then p else q) qs) = map pc_index qs"
  by (induction qs) auto

lemma piece_at_delete:
  "piece_at (filter (\<lambda>q. pc_index q \<noteq> i) qs) = (piece_at qs)(i := None)"
  by (induction qs) (auto simp: piece_at_def fun_eq_iff)

lemma used_sorted_filter: "used_sorted qs \<Longrightarrow> used_sorted (filter P qs)"
  by (induction qs) auto

lemma set_piece_at: "used_sorted qs \<Longrightarrow> p \<in> set qs \<longleftrightarrow> piece_at qs (pc_index p) = Some p"
  by (simp add: piece_at_Some)

lemma piece_at_index: "piece_at qs i = Some p \<Longrightarrow> pc_index p = i"
  by (induction qs) (auto simp: piece_at_def split: if_splits)

subsection \<open>The invariant\<close>

definition piece_fits :: "bitfield_man \<Rightarrow> nat \<Rightarrow> 'h piece \<Rightarrow> bool" where
  "piece_fits m i p \<longleftrightarrow> pc_index p = i \<and> i < bm_blocks m \<and> piece_inv p \<and> pc_length p = getBlockLength m i \<and>
     bm_totalLength (pc_bitfield p) = pc_length p"

text \<open>
  Sharing: a piece with a user is marked used, and outside the end game it has one user. \<open>U\<close> is
  the map of used pieces.
\<close>

definition shared_ok :: "bool \<Rightarrow> nat set \<Rightarrow> (nat \<rightharpoonup> 'h piece) \<Rightarrow> bool" where
  "shared_ok endGame us U \<longleftrightarrow> (\<forall>i p. U i = Some p \<longrightarrow> (pc_users p \<noteq> [] \<longrightarrow> i \<in> us) \<and>
     (\<not> endGame \<longrightarrow> length (pc_users p) \<le> 1))"

abbreviation pool_of :: "(nat \<rightharpoonup> 'h piece) \<Rightarrow> nat \<Rightarrow> 'h piece" where
  "pool_of U i \<equiv> (case U i of Some p \<Rightarrow> p | None \<Rightarrow> piece_new 0 0 0)"

definition cache_ok :: "nat \<Rightarrow> bool \<Rightarrow> (nat \<rightharpoonup> 'h piece) \<Rightarrow> 'd wr_state \<Rightarrow> bool" where
  "cache_ok limit hasCache U s \<longleftrightarrow> (hasCache \<longrightarrow> limit < 2 ^ 64 \<and> pool_inv limit (pool_of U, s))"

definition storage_inv :: "nat \<Rightarrow> ('h, 'd) piece_storage \<Rightarrow> bool" where
  "storage_inv limit st \<longleftrightarrow> bm_inv (smap st) \<and> used_sorted (pst_used st) \<and>
     (\<forall>i p. piece_at (pst_used st) i = Some p \<longrightarrow> piece_fits (smap st) i p) \<and>
     shared_ok (pst_endGame st) (uses (smap st)) (piece_at (pst_used st)) \<and>
     cache_ok limit (pst_hasCache st) (piece_at (pst_used st)) (pst_cache st)"

lemma storage_invD:
  assumes "storage_inv limit st"
  shows "bm_inv (smap st)" "used_sorted (pst_used st)"
    "\<And>i p. piece_at (pst_used st) i = Some p \<Longrightarrow> piece_fits (smap st) i p"
    "shared_ok (pst_endGame st) (uses (smap st)) (piece_at (pst_used st))"
    "cache_ok limit (pst_hasCache st) (piece_at (pst_used st)) (pst_cache st)"
  using assms by (auto simp: storage_inv_def)

lemma piece_fits_geometry:
  assumes "geometry m' = geometry m"
  shows "piece_fits m' = piece_fits m"
proof -
  have "getBlockLength m' = getBlockLength m" "bm_blocks m' = bm_blocks m"
    using assms by (auto simp: fun_eq_iff getBlockLength_def getLastBlockLength_def Let_def geometry_def)
  then show ?thesis by (simp add: fun_eq_iff piece_fits_def)
qed

lemma piece_new_wrCache [simp]: "pc_wrCache (piece_new i l b) = None" "pc_users (piece_new i l b) = []"
    "pc_index (piece_new i l b) = i"
  by (simp_all add: piece_new_def)

lemma addUser_fields [simp]:
  "pc_index (addUser c p) = pc_index p" "pc_wrCache (addUser c p) = pc_wrCache p"
  "pc_length (addUser c p) = pc_length p" "pc_bitfield (addUser c p) = pc_bitfield p"
  "pc_usedBySegment (addUser c p) = pc_usedBySegment p" "c \<in> set (pc_users (addUser c p))"
  by (simp_all add: addUser_def)

lemma removeUser_fields [simp]:
  "pc_index (removeUser c p) = pc_index p" "pc_wrCache (removeUser c p) = pc_wrCache p"
  "pc_length (removeUser c p) = pc_length p" "pc_bitfield (removeUser c p) = pc_bitfield p"
  by (simp_all add: removeUser_def)

lemma setHashType_fields [simp]:
  "pc_index (setHashType t p) = pc_index p" "pc_wrCache (setHashType t p) = pc_wrCache p"
  "pc_length (setHashType t p) = pc_length p" "pc_bitfield (setHashType t p) = pc_bitfield p"
  "pc_users (setHashType t p) = pc_users p" "pc_usedBySegment (setHashType t p) = pc_usedBySegment p"
  by (simp_all add: setHashType_def)

text \<open>A new piece of the storage.\<close>

lemma piece_new_fits:
  assumes "bm_inv m" and "i < bm_blocks m"
  shows "piece_fits m i (setHashType t (piece_new i (getBlockLength m i) BLOCK_LENGTH))"
proof -
  note b = getBlockLength_bounds [OF bm_invD(1) [OF assms(1)] assms(2)]
  have "bm_blockLength m < 2 ^ 31" using bm_invD(1) [OF assms(1)] by (simp add: bm_shape_def)
  then have "piece_inv (piece_new i (getBlockLength m i) BLOCK_LENGTH)"
    by (intro piece_new_inv) (use b in simp_all)
  then show ?thesis using assms(2) by (simp add: piece_fits_def piece_inv_def) (simp add: piece_new_def)
qed

subsection \<open>Checking a piece out\<close>

lemma cache_ok_cong:
  assumes "cache_ok limit hc U s" and "\<And>i. pc_wrCache (pool_of U' i) = pc_wrCache (pool_of U i)"
  shows "cache_ok limit hc U' s"
proof (cases hc)
  case True
  then have inv: "pool_inv limit (pool_of U, s)" "limit < 2 ^ 64" using assms(1) by (simp_all add: cache_ok_def)
  have "\<forall>k\<in>centries s. entry_ok (ws_ents s k)" using pool_invD(5) [OF inv(1)] by blast
  then have "pool_inv limit (pool_of U', s)"
    by (intro pool_inv_same [OF inv(1) pool_invD(1) [OF inv(1)] refl refl]) (use assms(2) in simp_all)
  then show ?thesis using inv(2) by (simp add: cache_ok_def)
qed (simp add: cache_ok_def)

lemma pool_of_upd: "pool_of (U(i \<mapsto> p)) = (pool_of U)(i := p)"
  by auto

lemma cache_ok_init:
  assumes "cache_ok limit True U s" and "U i = Some p" and "pc_wrCache p = None" and "ent \<notin> centries s"
  shows "\<exists>s'. initWrCache writeTo True ent a p s = Some (p\<lparr>pc_wrCache := Some ent\<rparr>, s') \<and>
    cache_ok limit True (U(i \<mapsto> p\<lparr>pc_wrCache := Some ent\<rparr>)) s'"
proof -
  have inv: "pool_inv limit (pool_of U, s)" "limit < 2 ^ 64" using assms(1) by (simp_all add: cache_ok_def)
  have Pi: "pool_of U i = p" using assms(2) by simp
  have legal: "cache_legal limit (CInit i ent a) (pool_of U, s)" using assms(3,4) Pi by simp
  from cache_exec_inv [OF inv legal, of writeTo]
  obtain c' where c': "cache_exec writeTo (CInit i ent a) (pool_of U, s) = Some c'" "pool_inv limit c'" by blast
  from initWrCache_spec [OF pool_invD(1) [OF inv(1)] assms(3,4), of writeTo a]
  obtain s' where s': "initWrCache writeTo True ent a p s = Some (p\<lparr>pc_wrCache := Some ent\<rparr>, s')" by blast
  have "c' = ((pool_of U)(i := p\<lparr>pc_wrCache := Some ent\<rparr>), s')" using c'(1) s' by (simp add: Pi)
  then show ?thesis using c'(2) s' inv(2) unfolding cache_ok_def pool_of_upd by blast
qed

text \<open>
  \<open>checked_out\<close> describes the result: only the use bit, the used piece of that index and the cache
  have changed; the piece is the used one with the caller as a user, or a new one.
\<close>

definition checked_out ::
  "('h, 'd) piece_storage \<Rightarrow> nat \<Rightarrow> int \<Rightarrow> ('h, 'd) piece_storage \<Rightarrow> 'h piece \<Rightarrow> bool" where
  "checked_out st i cuid st' p \<longleftrightarrow>
     (\<exists>U C. st' = st\<lparr>pst_bitfieldMan := fst (setUseBit (smap st) i), pst_used := U, pst_cache := C\<rparr>) \<and>
     piece_at (pst_used st') = (piece_at (pst_used st))(i \<mapsto> p) \<and> pc_index p = i \<and> cuid \<in> set (pc_users p) \<and>
     (case piece_at (pst_used st) i of
        Some q \<Rightarrow> pc_bitfield p = pc_bitfield q \<and> pc_users p = pc_users (addUser cuid q) \<and>
          pc_usedBySegment p = pc_usedBySegment q
      | None \<Rightarrow> pc_bitfield p = bm_new BLOCK_LENGTH (getBlockLength (smap st) i) \<and> pc_users p = [cuid] \<and>
          \<not> pc_usedBySegment p)"

lemma shared_ok_upd:
  assumes "shared_ok e us U" and "us \<subseteq> us'" and "pc_users p \<noteq> [] \<longrightarrow> i \<in> us'" and "\<not> e \<longrightarrow> length (pc_users p) \<le> 1"
  shows "shared_ok e us' (U(i \<mapsto> p))"
  using assms by (auto simp: shared_ok_def)

lemma getBlockLength_geometry: "geometry m' = geometry m \<Longrightarrow> getBlockLength m' = getBlockLength m"
  by (auto simp: fun_eq_iff getBlockLength_def getLastBlockLength_def Let_def geometry_def)

lemma checkOut_spec:
  fixes st :: "('h, 'd) piece_storage"
  assumes inv: "storage_inv limit st" and i: "i \<in> selected (smap st)" and fresh: "\<And>s. alloc s \<notin> centries s"
    and free: "\<not> pst_endGame st \<longrightarrow> i \<notin> uses (smap st)"
  shows "\<exists>st' p. checkOutPiece writeTo alloc i cuid st = Some (st', p) \<and> storage_inv limit st' \<and>
    checked_out st i cuid st' p"
proof -
  note I = storage_invD [OF inv]
  let ?m = "smap st"
  define m where "m = fst (setUseBit ?m i)"
  have lt: "i < bm_blocks ?m" using i by (rule views_less)
  have geo: "geometry m = geometry ?m" by (simp add: m_def)
  have m: "bm_inv m" "uses m = insert i (uses ?m)" using lt set_ops_views [OF I(1), of i] I(1)
    by (simp_all add: m_def set_ops_inv)
  define U where "U = piece_at (pst_used st)"
  have guard: "(if bm_filterEnabled ?m then isFilterBitSet ?m i else Some True) = Some True"
    using i lt by (simp add: selected_def isFilterBitSet_filts split: if_splits)
  define p0 where "p0 = (case U i of Some p \<Rightarrow> p
    | None \<Rightarrow> setHashType (pst_hashType st) (piece_new i (getBlockLength ?m i) BLOCK_LENGTH))"
  define used1 where "used1 = (case U i of Some p \<Rightarrow> pst_used st | None \<Rightarrow> used_insert p0 (pst_used st))"
  have p0: "pc_index p0 = i" using piece_at_index [of "pst_used st" i]
    by (auto simp: p0_def U_def split: option.split)
  have used1: "piece_at used1 = U(i \<mapsto> p0)" "used_sorted used1"
  proof -
    show "piece_at used1 = U(i \<mapsto> p0)"
    proof (cases "U i")
      case None
      then show ?thesis using piece_at_insert [OF I(2), of p0] p0 by (simp add: used1_def U_def)
    next
      case (Some p)
      then show ?thesis by (auto simp: used1_def p0_def U_def fun_upd_idem)
    qed
    show "used_sorted used1" using I(2) used_insert_sorted by (auto simp: used1_def split: option.split)
  qed
  have fit0: "piece_fits ?m i p0"
    using piece_new_fits [OF I(1) lt] I(3) by (auto simp: p0_def U_def split: option.split)
  have noent: "U i = None \<Longrightarrow> pc_wrCache p0 = None" by (simp add: p0_def)
  define p1 where "p1 = addUser cuid p0"
  define used2 where "used2 = map (\<lambda>q. if pc_index q = i then p1 else q) used1"
  have p1: "pc_index p1 = i" "piece_fits ?m i p1" "pc_wrCache p1 = pc_wrCache (pool_of U i)"
    using p0 fit0 noent by (auto simp: p1_def piece_fits_def piece_inv_def p0_def split: option.split)
  have putq: "piece_at (map (\<lambda>q. if pc_index q = i then q' else q) qs) = (piece_at qs)(i \<mapsto> q')"
    if "pc_index q' = i" "piece_at qs i \<noteq> None" for q' :: "'h piece" and qs
    using piece_at_put [of q' qs] that by auto
  have sorted: "used_sorted (map (\<lambda>q. if pc_index q = i then q' else q) qs)" if "pc_index q' = i" "used_sorted qs"
    for q' :: "'h piece" and qs
    using put_sorted [of q' qs] that by metis
  have used2: "piece_at used2 = U(i \<mapsto> p1)" "used_sorted used2"
    using putq [OF p1(1), of used1] sorted [OF p1(1), of used1] used1 by (simp_all add: used2_def)
  have one: "\<not> pst_endGame st \<longrightarrow> length (pc_users p1) \<le> 1"
  proof
    assume e: "\<not> pst_endGame st"
    then have "pc_users p0 = []" using I(4) free
      by (auto simp: p0_def U_def shared_ok_def split: option.split)
    then show "length (pc_users p1) \<le> 1" by (simp add: p1_def addUser_def)
  qed
  have out: "cuid \<in> set (pc_users p1) \<and> (case U i of
        Some q \<Rightarrow> pc_bitfield p1 = pc_bitfield q \<and> pc_users p1 = pc_users (addUser cuid q) \<and>
          pc_usedBySegment p1 = pc_usedBySegment q
      | None \<Rightarrow> pc_bitfield p1 = bm_new BLOCK_LENGTH (getBlockLength ?m i) \<and> pc_users p1 = [cuid] \<and>
          \<not> pc_usedBySegment p1)"
    by (auto simp: p1_def p0_def addUser_def setHashType_def piece_new_def split: option.split)
  have step: "checkOutPiece writeTo alloc i cuid st =
      (let st2 = st\<lparr>pst_bitfieldMan := m, pst_used := used1\<rparr> in
       if \<not> pst_inMemory st \<and> pst_hasCache st \<and> pc_wrCache p1 = None
       then do {
         (p, cache) \<leftarrow> initWrCache writeTo True (alloc (pst_cache st)) (pst_adaptor st) p1 (pst_cache st);
         Some ((put_used p st2)\<lparr>pst_cache := cache\<rparr>, p) }
       else Some (put_used p1 st2, p1))"
  proof (cases "U i")
    case None
    then show ?thesis using guard getBlockLength_geometry [OF geo]
      by (simp add: checkOutPiece_def findUsedPiece_at U_def m_def [symmetric] p1_def p0_def used1_def addUsedPiece_def Let_def)
  next
    case (Some p)
    then show ?thesis using guard
      by (simp add: checkOutPiece_def findUsedPiece_at U_def m_def [symmetric] p1_def p0_def used1_def Let_def)
  qed
  have cache: "cache_ok limit (pst_hasCache st) (U(i \<mapsto> p1)) (pst_cache st)"
    by (rule cache_ok_cong [OF I(5)]) (use p1(3) in \<open>auto simp: U_def\<close>)
  have result: "storage_inv limit st' \<and> checked_out st i cuid st' p"
    if st': "st' = st\<lparr>pst_bitfieldMan := m, pst_used := map (\<lambda>q. if pc_index q = i then p else q) used1, pst_cache := C\<rparr>"
      and p: "p = p1 \<or> (\<exists>ent. p = p1\<lparr>pc_wrCache := ent\<rparr>)" and C: "cache_ok limit (pst_hasCache st) (U(i \<mapsto> p)) C" for st' p C
  proof -
    have same: "pc_index p = i" "pc_users p = pc_users p1" "pc_bitfield p = pc_bitfield p1" "pc_length p = pc_length p1"
      "pc_usedBySegment p = pc_usedBySegment p1" using p p1(1) by auto
    have at: "piece_at (pst_used st') = U(i \<mapsto> p)" "used_sorted (pst_used st')"
      using putq [OF same(1), of used1] sorted [OF same(1) used1(2)] used1(1) by (simp_all add: st')
    have fit: "piece_fits ?m i p" using p1(2) same by (simp add: piece_fits_def piece_inv_def)
    have fits: "piece_fits m j q" if "(U(i \<mapsto> p)) j = Some q" for j q
      using that I(3) [of j q] fit by (auto simp: U_def piece_fits_geometry [OF geo] split: if_splits)
    have "shared_ok (pst_endGame st) (uses m) (U(i \<mapsto> p))"
      by (rule shared_ok_upd [OF I(4) [folded U_def]]) (use m(2) one same in auto)
    then have "storage_inv limit st'"
      unfolding storage_inv_def at(1) using at(2) m(1) fits C by (simp add: st')
    then show ?thesis using at(1) out same
      by (auto simp: checked_out_def st' m_def U_def split: option.splits)
  qed
  show ?thesis
  proof (cases "\<not> pst_inMemory st \<and> pst_hasCache st \<and> pc_wrCache p1 = None")
    case False
    define st' where "st' = put_used p1 (st\<lparr>pst_bitfieldMan := m, pst_used := used1\<rparr>)"
    have "st' = st\<lparr>pst_bitfieldMan := m, pst_used := map (\<lambda>q. if pc_index q = i then p1 else q) used1, pst_cache := pst_cache st\<rparr>"
      using p1(1) by (simp add: st'_def put_used_def)
    from result [OF this _ cache] have "storage_inv limit st' \<and> checked_out st i cuid st' p1" by blast
    moreover have "checkOutPiece writeTo alloc i cuid st = Some (st', p1)"
      using False unfolding step st'_def by (auto simp: Let_def)
    ultimately show ?thesis by blast
  next
    case True
    let ?ent = "alloc (pst_cache st)" and ?p = "p1\<lparr>pc_wrCache := Some (alloc (pst_cache st))\<rparr>"
    have "cache_ok limit True (U(i \<mapsto> p1)) (pst_cache st)" using cache True by simp
    from cache_ok_init [OF this _ _ fresh [of "pst_cache st"], of i p1 writeTo "pst_adaptor st"] True
    obtain C where C: "initWrCache writeTo True ?ent (pst_adaptor st) p1 (pst_cache st) = Some (?p, C)"
        "cache_ok limit True (U(i \<mapsto> ?p)) C" by auto
    define st' where "st' = (put_used ?p (st\<lparr>pst_bitfieldMan := m, pst_used := used1\<rparr>))\<lparr>pst_cache := C\<rparr>"
    have "st' = st\<lparr>pst_bitfieldMan := m, pst_used := map (\<lambda>q. if pc_index q = i then ?p else q) used1, pst_cache := C\<rparr>"
      using p1(1) by (simp add: st'_def put_used_def)
    from result [OF this] have "storage_inv limit st' \<and> checked_out st i cuid st' ?p" using C(2) True by (metis (full_types))
    moreover have "checkOutPiece writeTo alloc i cuid st = Some (st', ?p)"
      using True C(1) unfolding step st'_def by (simp add: Let_def)
    ultimately show ?thesis by blast
  qed
qed

lemma checked_outD:
  assumes "storage_inv limit st" and "checked_out st i cuid st' p" and "i < bm_blocks (smap st)"
  shows "haves (smap st') = haves (smap st)" "uses (smap st') = insert i (uses (smap st))"
    "selected (smap st') = selected (smap st)" "geometry (smap st') = geometry (smap st)"
    "bm_blocks (smap st') = bm_blocks (smap st)"
    "piece_at (pst_used st') = (piece_at (pst_used st))(i \<mapsto> p)" "pc_index p = i" "cuid \<in> set (pc_users p)"
    "pst_endGame st' = pst_endGame st" "pst_stats st' = pst_stats st" "pst_selector st' = pst_selector st"
    "bm_filterEnabled (smap st') = bm_filterEnabled (smap st)"
proof -
  obtain U C where st': "st' = st\<lparr>pst_bitfieldMan := fst (setUseBit (smap st) i), pst_used := U, pst_cache := C\<rparr>"
    using assms(2) by (auto simp: checked_out_def)
  note v = set_ops_views [OF storage_invD(1) [OF assms(1)], of i]
  show "haves (smap st') = haves (smap st)" "uses (smap st') = insert i (uses (smap st))"
    "selected (smap st') = selected (smap st)" "geometry (smap st') = geometry (smap st)"
    "bm_blocks (smap st') = bm_blocks (smap st)" "pst_endGame st' = pst_endGame st"
    "pst_stats st' = pst_stats st" "pst_selector st' = pst_selector st"
    "bm_filterEnabled (smap st') = bm_filterEnabled (smap st)"
    using v assms(3) by (simp_all add: st' selected_def)
  show "piece_at (pst_used st') = (piece_at (pst_used st))(i \<mapsto> p)" "pc_index p = i" "cuid \<in> set (pc_users p)"
    using assms(2) by (simp_all add: checked_out_def)
qed

text \<open>
  Handing out: \<open>ps\<close> are the pieces given to \<open>cuid\<close> between two states. They are distinct, become
  used, and nothing else changes.
\<close>

definition handed_out ::
  "('h, 'd) piece_storage \<Rightarrow> int \<Rightarrow> ('h, 'd) piece_storage \<Rightarrow> 'h piece list \<Rightarrow> bool" where
  "handed_out st cuid st' ps \<longleftrightarrow>
     distinct (map pc_index ps) \<and> geometry (smap st') = geometry (smap st) \<and> haves (smap st') = haves (smap st) \<and>
     uses (smap st) \<union> pc_index ` set ps \<subseteq> uses (smap st') \<and> selected (smap st') = selected (smap st) \<and>
     (\<forall>p\<in>set ps. cuid \<in> set (pc_users p) \<and> piece_at (pst_used st') (pc_index p) = Some p)"

abbreviation idxs :: "'h piece list \<Rightarrow> nat set" where
  "idxs ps \<equiv> pc_index ` set ps"

abbreviation missing_blocks :: "'h piece list \<Rightarrow> nat" where
  "missing_blocks ps \<equiv> sum_list (map piece_countMissingBlock ps)"

lemma handed_out_Nil [simp]: "handed_out st cuid st []"
  by (simp add: handed_out_def)

lemma handed_out_Cons:
  assumes inv: "storage_inv limit st" and c: "checked_out st i cuid st' p" and i: "i < bm_blocks (smap st)"
    and h: "handed_out st' cuid st'' ps" and new: "i \<notin> idxs ps"
    and keep: "piece_at (pst_used st'') i = piece_at (pst_used st') i"
  shows "handed_out st cuid st'' (p # ps)"
  using h new keep checked_outD [OF inv c i] by (auto simp: handed_out_def)

lemma select_loop_spec:
  fixes st :: "('h, 'd) piece_storage"
  assumes fresh: "\<And>s. alloc s \<notin> centries s"
  shows "storage_inv limit st \<Longrightarrow> \<not> pst_endGame st \<Longrightarrow> sel_legal (pst_stats st, pst_selector st) (bm_blocks (smap st)) \<Longrightarrow>
    length mis = bm_bitfieldLength (smap st) \<Longrightarrow> A = {i. i < bm_blocks (smap st) \<and> bitat (array mis) i} \<Longrightarrow>
    A \<subseteq> selected (smap st) - uses (smap st) \<Longrightarrow>
    \<exists>st' ps. select_loop writeTo alloc n cuid mis k pieces st = Some (st', pieces @ ps) \<and> storage_inv limit st' \<and>
      pst_endGame st' = pst_endGame st \<and> handed_out st cuid st' ps \<and> uses (smap st') = uses (smap st) \<union> idxs ps \<and> idxs ps \<subseteq> A \<and>
      (n \<le> k + missing_blocks ps \<or> idxs ps = A) \<and> (\<forall>j. j \<notin> idxs ps \<longrightarrow> piece_at (pst_used st') j = piece_at (pst_used st) j)"
proof (induction "card A" arbitrary: A mis k pieces st rule: less_induct)
  case less
  let ?m = "smap st" and ?loop = "select_loop writeTo alloc n cuid"
  let ?sel = "sel_select (pst_stats st) (pst_selector st) mis (bm_blocks ?m)"
  note spec = sel_select_spec [OF less.prems(3), of mis]
  show ?case
  proof (cases "k < n \<and> ?sel \<noteq> None")
    case False
    then have ret: "?loop mis k pieces st = Some (st, pieces)"
      by (auto simp: select_loop.simps [of _ _ _ _ mis] split: option.split)
    have "n \<le> k \<or> A = {}"
    proof (cases "k < n")
      case True
      then have "?sel = None" using False by blast
      then have "\<forall>i<bm_blocks ?m. \<not> bitat (array mis) i" using spec by blast
      then show ?thesis using less.prems(5) by blast
    qed simp
    then show ?thesis
      by (intro exI [of _ st] exI [of _ "[]"]) (use ret less.prems in auto)
  next
    case True
    then obtain i where sel: "?sel = Some i" and k: "k < n" by blast
    have i: "i < bm_blocks ?m" "bitat (array mis) i" using spec sel by blast+
    then have iA: "i \<in> A" "i \<in> selected ?m" "i \<notin> uses ?m" using less.prems(5,6) by blast+
    from checkOut_spec [OF less.prems(1) iA(2) fresh, of writeTo cuid] iA(3)
    obtain st1 p where c: "checkOutPiece writeTo alloc i cuid st = Some (st1, p)" "storage_inv limit st1"
      "checked_out st i cuid st1 p" by blast
    note d = checked_outD [OF less.prems(1) c(3) i(1)]
    have len: "bm_bitfieldLength (smap st1) = bm_bitfieldLength ?m" using d(4) by (simp add: geometry_def)
    have fits: "i div 8 < length mis" using i(1) less.prems(4) shape_lengths(4) [OF bm_invD(1) [OF storage_invD(1) [OF less.prems(1)]]]
      by (simp add: less_mult_imp_div_less)
    then obtain mis' where f: "flipBit mis (bm_blocks (smap st1)) i = Some mis'"
      using i(1) d(5) div_le_dividend [of i 8] by (auto simp: flipBit_def Let_def)
    have mis': "length mis' = length mis" "A - {i} = {j. j < bm_blocks (smap st1) \<and> bitat (array mis') j}"
      using flipBit_Some [OF f] i less.prems(5) d(5) by auto
    have finA: "finite A" using less.prems(5) by simp
    have "\<exists>st' ps. ?loop mis' (k + piece_countMissingBlock p) (pieces @ [p]) st1 = Some (st', (pieces @ [p]) @ ps) \<and>
      storage_inv limit st' \<and> pst_endGame st' = pst_endGame st1 \<and> handed_out st1 cuid st' ps \<and> uses (smap st') = uses (smap st1) \<union> idxs ps \<and>
      idxs ps \<subseteq> A - {i} \<and> (n \<le> k + piece_countMissingBlock p + missing_blocks ps \<or> idxs ps = A - {i}) \<and>
      (\<forall>j. j \<notin> idxs ps \<longrightarrow> piece_at (pst_used st') j = piece_at (pst_used st1) j)"
    proof (rule less.hyps)
      show "card (A - {i}) < card A" by (rule card_Diff1_less [OF finA iA(1)])
      show "\<not> pst_endGame st1" using less.prems(2) d(9) by simp
      show "sel_legal (pst_stats st1, pst_selector st1) (bm_blocks (smap st1))"
        using less.prems(3) unfolding d(5,10,11) .
      show "length mis' = bm_bitfieldLength (smap st1)" using mis'(1) less.prems(4) len by simp
      show "A - {i} \<subseteq> selected (smap st1) - uses (smap st1)" using less.prems(6) d(2,3) by blast
    qed (use c(2) mis'(2) in simp_all)
    then obtain st' ps where r: "?loop mis' (k + piece_countMissingBlock p) (pieces @ [p]) st1 = Some (st', pieces @ p # ps)"
      "storage_inv limit st'" "pst_endGame st' = pst_endGame st1" "handed_out st1 cuid st' ps" "uses (smap st') = uses (smap st1) \<union> idxs ps"
      "idxs ps \<subseteq> A - {i}" "n \<le> k + piece_countMissingBlock p + missing_blocks ps \<or> idxs ps = A - {i}"
      "\<forall>j. j \<notin> idxs ps \<longrightarrow> piece_at (pst_used st') j = piece_at (pst_used st1) j" by auto
    have ret: "?loop mis k pieces st = Some (st', pieces @ p # ps)"
      using k sel c(1) f r(1) by (simp add: select_loop.simps [of _ _ _ _ mis])
    have new: "i \<notin> idxs ps" using r(6) by blast
    have "handed_out st cuid st' (p # ps)"
      by (rule handed_out_Cons [OF less.prems(1) c(3) i(1) r(4) new]) (use r(8) new in blast)
    moreover have "uses (smap st') = uses ?m \<union> idxs (p # ps)" using r(5) d(2,7) by auto
    moreover have "idxs (p # ps) \<subseteq> A" using r(6) iA(1) d(7) by auto
    moreover have "n \<le> k + missing_blocks (p # ps) \<or> idxs (p # ps) = A"
      using r(7) iA(1) d(7) by (auto simp: add.assoc)
    moreover have "\<forall>j. j \<notin> idxs (p # ps) \<longrightarrow> piece_at (pst_used st') j = piece_at (pst_used st) j"
      using r(8) d(6,7) by auto
    ultimately show ?thesis using ret r(2,3) d(9) by (intro exI [of _ st'] exI [of _ "p # ps"]) simp
  qed
qed

subsection \<open>The end game\<close>

lemma put_used_inv:
  fixes st :: "('h, 'd) piece_storage"
  assumes inv: "storage_inv limit st" and p: "piece_at (pst_used st) i = Some p" and q: "piece_fits (smap st) i q"
    and "pc_wrCache q = pc_wrCache p" and "pc_users q \<noteq> [] \<longrightarrow> i \<in> uses (smap st)"
    and "\<not> pst_endGame st \<longrightarrow> length (pc_users q) \<le> 1"
  shows "storage_inv limit (put_used q st)" "piece_at (pst_used (put_used q st)) = (piece_at (pst_used st))(i \<mapsto> q)"
    "smap (put_used q st) = smap st" "pst_endGame (put_used q st) = pst_endGame st"
proof -
  note I = storage_invD [OF inv]
  have idx: "pc_index q = i" using q by (simp add: piece_fits_def)
  show at: "piece_at (pst_used (put_used q st)) = (piece_at (pst_used st))(i \<mapsto> q)"
    using piece_at_put [of q "pst_used st"] idx p by (simp add: put_used_def)
  show "smap (put_used q st) = smap st" "pst_endGame (put_used q st) = pst_endGame st" by (simp_all add: put_used_def)
  have "used_sorted (pst_used (put_used q st))" using put_sorted [of q "pst_used st"] I(2) by (simp add: put_used_def del: map_map)
  moreover have "shared_ok (pst_endGame st) (uses (smap st)) ((piece_at (pst_used st))(i \<mapsto> q))"
    by (rule shared_ok_upd [OF I(4)]) (use assms(5,6) in auto)
  moreover have "cache_ok limit (pst_hasCache st) ((piece_at (pst_used st))(i \<mapsto> q)) (pst_cache st)"
    by (rule cache_ok_cong [OF I(5)]) (use assms(4) p in auto)
  ultimately show "storage_inv limit (put_used q st)"
    unfolding storage_inv_def at using I(1,3) q by (auto simp: put_used_def)
qed

definition by_segment :: "('h, 'd) piece_storage \<Rightarrow> nat \<Rightarrow> bool" where
  "by_segment st i = (case piece_at (pst_used st) i of Some q \<Rightarrow> pc_usedBySegment q | None \<Rightarrow> False)"

lemma endgame_loop_spec:
  fixes st :: "('h, 'd) piece_storage"
  assumes fresh: "\<And>s. alloc s \<notin> centries s"
  shows "storage_inv limit st \<Longrightarrow> pst_endGame st \<Longrightarrow> distinct is \<Longrightarrow> set is \<subseteq> selected (smap st) \<Longrightarrow>
    \<exists>st' ps. endgame_loop writeTo alloc n cuid is k pieces st = Some (st', pieces @ ps) \<and> storage_inv limit st' \<and>
      pst_endGame st' \<and> handed_out st cuid st' ps \<and> idxs ps \<subseteq> {i \<in> set is. \<not> by_segment st i} \<and>
      (n \<le> k + missing_blocks ps \<or> idxs ps = {i \<in> set is. \<not> by_segment st i}) \<and>
      (\<forall>j. j \<notin> set is \<longrightarrow> piece_at (pst_used st') j = piece_at (pst_used st) j)"
proof (induction "is" arbitrary: k pieces st)
  case Nil
  then show ?case by (intro exI [of _ st] exI [of _ "[]"]) simp
next
  case (Cons i "is")
  let ?loop = "endgame_loop writeTo alloc n cuid"
  show ?case
  proof (cases "k < n")
    case False
    then show ?thesis using Cons.prems(1,2) by (intro exI [of _ st] exI [of _ "[]"]) simp
  next
    case k: True
    have i: "i \<in> selected (smap st)" "i < bm_blocks (smap st)" using Cons.prems(4) views_less(4) by auto
    from checkOut_spec [OF Cons.prems(1) i(1) fresh, of writeTo cuid] Cons.prems(2)
    obtain st1 p where c: "checkOutPiece writeTo alloc i cuid st = Some (st1, p)" "storage_inv limit st1"
      "checked_out st i cuid st1 p" by blast
    note d = checked_outD [OF Cons.prems(1) c(3) i(2)]
    have seg: "pc_usedBySegment p = by_segment st i"
      using c(3) by (auto simp: checked_out_def by_segment_def split: option.splits)
    have segs: "by_segment st2 j = by_segment st j" if "piece_at (pst_used st2) j = piece_at (pst_used st) j" for st2 :: "('h, 'd) piece_storage" and j
      using that by (simp add: by_segment_def)
    have i_new: "i \<notin> set is" "distinct is" using Cons.prems(3) by simp_all
    show ?thesis
    proof (cases "pc_usedBySegment p")
      case True
      define st2 where "st2 = put_used (removeUser cuid p) st1"
      have p1: "piece_at (pst_used st1) i = Some p" using d(6) by simp
      have fits: "piece_fits (smap st1) i (removeUser cuid p)"
        using storage_invD(3) [OF c(2) p1] by (simp add: piece_fits_def piece_inv_def)
      have e1: "pst_endGame st1" using d(9) Cons.prems(2) by simp
      have st2: "storage_inv limit st2" "piece_at (pst_used st2) = (piece_at (pst_used st1))(i \<mapsto> removeUser cuid p)"
        "smap st2 = smap st1" "pst_endGame st2"
        unfolding st2_def by (rule put_used_inv [OF c(2) p1 fits] | use d(2) e1 in \<open>simp add: put_used_def\<close>)+
      have others: "piece_at (pst_used st2) j = piece_at (pst_used st) j" if "j \<noteq> i" for j
        using that st2(2) d(6) by simp
      have "set is \<subseteq> selected (smap st2)" using Cons.prems(4) st2(3) d(3) by simp
      from Cons.IH [OF st2(1,4) i_new(2) this, of k pieces]
      obtain st' ps where r: "?loop is k pieces st2 = Some (st', pieces @ ps)" "storage_inv limit st'" "pst_endGame st'"
        "handed_out st2 cuid st' ps" "idxs ps \<subseteq> {i \<in> set is. \<not> by_segment st2 i}"
        "n \<le> k + missing_blocks ps \<or> idxs ps = {i \<in> set is. \<not> by_segment st2 i}"
        "\<forall>j. j \<notin> set is \<longrightarrow> piece_at (pst_used st') j = piece_at (pst_used st2) j" by blast
      have same: "by_segment st2 j = by_segment st j" if "j \<in> set is" for j
        using segs others i_new(1) that by metis
      have eqs: "{i \<in> set is. \<not> by_segment st2 i} = {j \<in> set (i # is). \<not> by_segment st j}"
        using same True seg by auto
      have "?loop (i # is) k pieces st = Some (st', pieces @ ps)"
        using k c(1) True r(1) by (simp add: st2_def)
      moreover have "handed_out st cuid st' ps"
        using r(4) d(1-4) st2(3) by (auto simp: handed_out_def)
      ultimately show ?thesis using r eqs others by (intro exI [of _ st'] exI [of _ ps]) auto
    next
      case False
      have others: "piece_at (pst_used st1) j = piece_at (pst_used st) j" if "j \<noteq> i" for j
        using that d(6) by simp
      have "set is \<subseteq> selected (smap st1)" "pst_endGame st1" using Cons.prems(2,4) d(3,9) by simp_all
      from Cons.IH [OF c(2) this(2) i_new(2) this(1), of "k + piece_countMissingBlock p" "pieces @ [p]"]
      obtain st' ps where r: "?loop is (k + piece_countMissingBlock p) (pieces @ [p]) st1 = Some (st', (pieces @ [p]) @ ps)"
        "storage_inv limit st'" "pst_endGame st'" "handed_out st1 cuid st' ps" "idxs ps \<subseteq> {i \<in> set is. \<not> by_segment st1 i}"
        "n \<le> k + piece_countMissingBlock p + missing_blocks ps \<or> idxs ps = {i \<in> set is. \<not> by_segment st1 i}"
        "\<forall>j. j \<notin> set is \<longrightarrow> piece_at (pst_used st') j = piece_at (pst_used st1) j" by blast
      have same: "by_segment st1 j = by_segment st j" if "j \<in> set is" for j
        using segs others i_new(1) that by metis
      have eqs: "insert i {i \<in> set is. \<not> by_segment st1 i} = {j \<in> set (i # is). \<not> by_segment st j}"
        using same False seg by auto
      have new: "i \<notin> idxs ps" using r(5) i_new(1) by blast
      have "handed_out st cuid st' (p # ps)"
        by (rule handed_out_Cons [OF Cons.prems(1) c(3) i(2) r(4) new]) (use r(7) i_new(1) in blast)
      moreover have "?loop (i # is) k pieces st = Some (st', pieces @ p # ps)"
        using k c(1) False r(1) by simp
      moreover have "idxs (p # ps) = insert i (idxs ps)" using d(7) by simp
      moreover have "missing_blocks (p # ps) = piece_countMissingBlock p + missing_blocks ps" by simp
      moreover have "\<forall>j. j \<notin> set (i # is) \<longrightarrow> piece_at (pst_used st') j = piece_at (pst_used st) j"
        using r(7) others by simp
      ultimately show ?thesis using r(2,3,5,6) eqs
        by (intro exI [of _ st'] exI [of _ "p # ps"]) (metis (no_types, lifting) add.assoc insert_mono)
    qed
  qed
qed

end
