(* ===== verification/PieceStorageRun.thy ===== *)
theory PieceStorageRun
  imports PieceStorageProps "HOL-Library.Multiset"
begin

text \<open>
  The other operations of the piece storage and the invariant: completing and cancelling pieces,
  flushing the write cache, the control operations; then the storage as a state machine.
\<close>

subsection \<open>Flushing\<close>

text \<open>
  \<open>Q\<close> is any property of the pieces and the cache that flushing and releasing one entry keep.
\<close>

definition flush_stable :: "'d write_to \<Rightarrow> (('h, 'd) pool \<Rightarrow> bool) \<Rightarrow> bool" where
  "flush_stable writeTo Q \<longleftrightarrow> (\<forall>P s i ent. Q (P, s) \<longrightarrow> pc_wrCache (P i) = Some ent \<longrightarrow>
     (\<exists>s'. flushWrCache writeTo True (P i) s = Some s' \<and> Q (P, s') \<and>
       Q (P(i := (P i)\<lparr>pc_wrCache := None\<rparr>), snd (releaseWrCache True (P i) s'))))"

lemma flush_stableD:
  assumes "flush_stable writeTo Q" and "Q (P, s)" and "pc_wrCache (P i) = Some ent"
  shows "\<exists>s'. flushWrCache writeTo True (P i) s = Some s' \<and> Q (P, s') \<and>
    Q (P(i := (P i)\<lparr>pc_wrCache := None\<rparr>), snd (releaseWrCache True (P i) s'))"
  using assms unfolding flush_stable_def by blast

lemma releaseWrCache_piece: "fst (releaseWrCache True p s) = p\<lparr>pc_wrCache := None\<rparr>"
  by (cases "pc_wrCache p") (simp_all add: releaseWrCache_def Let_def)

lemma no_entry: "pc_wrCache p = None \<Longrightarrow> p\<lparr>pc_wrCache := None\<rparr> = p"
  by (cases p) simp

definition released :: "bool \<Rightarrow> 'h piece \<Rightarrow> 'h piece" where
  "released rel p = (if rel then p\<lparr>pc_wrCache := None\<rparr> else p)"

lemma released_fields [simp]:
  "pc_index (released rel p) = pc_index p" "pc_bitfield (released rel p) = pc_bitfield p"
  "pc_users (released rel p) = pc_users p" "pc_length (released rel p) = pc_length p"
  by (simp_all add: released_def)

lemma flush_entries_spec:
  assumes st: "flush_stable writeTo Q"
  shows "Q (P, s) \<Longrightarrow> distinct (map pc_index ps) \<Longrightarrow> \<forall>p\<in>set ps. P (pc_index p) = p \<Longrightarrow>
    \<exists>s'. flush_entries writeTo rel ps s = Some (map (released rel) ps, s') \<and>
      Q (\<lambda>i. if i \<in> idxs ps then released rel (P i) else P i, s')"
proof (induction ps arbitrary: P s)
  case (Cons p ps)
  let ?i = "pc_index p"
  have Pi: "P ?i = p" and new: "?i \<notin> idxs ps" "distinct (map pc_index ps)" using Cons.prems(2,3) by auto
  define P1 where "P1 = P(?i := released rel p)"
  have rest: "\<forall>q\<in>set ps. P1 (pc_index q) = q" 
  proof
    fix q assume q: "q \<in> set ps"
    then have "pc_index q \<noteq> ?i" using new(1) by (metis image_eqI)
    moreover have "P (pc_index q) = q" using Cons.prems(3) q by simp
    ultimately show "P1 (pc_index q) = q" by (simp add: P1_def)
  qed
  have "\<exists>s1. (if pc_wrCache p = None then Some (p, s) else do {
       s \<leftarrow> flushWrCache writeTo True p s;
       Some (if rel then releaseWrCache True p s else (p, s)) }) = Some (released rel p, s1) \<and> Q (P1, s1)"
  proof (cases "pc_wrCache p")
    case None
    then have "released rel p = p" by (simp add: released_def no_entry)
    then show ?thesis using None Cons.prems(1) Pi by (simp add: P1_def fun_upd_idem)
  next
    case (Some ent)
    from flush_stableD [OF st Cons.prems(1), of ?i ent] Some Pi
    obtain s' where s': "flushWrCache writeTo True p s = Some s'" "Q (P, s')"
      "Q (P(?i := p\<lparr>pc_wrCache := None\<rparr>), snd (releaseWrCache True p s'))" by auto
    show ?thesis
    proof (cases rel)
      case True
      then show ?thesis using Some s' releaseWrCache_piece [of p s']
        by (intro exI [of _ "snd (releaseWrCache True p s')"]) (simp add: P1_def released_def prod_eq_iff)
    next
      case False
      then show ?thesis using Some s' Pi by (simp add: P1_def released_def fun_upd_idem)
    qed
  qed
  then obtain s1 where s1: "(if pc_wrCache p = None then Some (p, s) else do {
       s \<leftarrow> flushWrCache writeTo True p s;
       Some (if rel then releaseWrCache True p s else (p, s)) }) = Some (released rel p, s1)" "Q (P1, s1)" by blast
  from Cons.IH [OF s1(2) new(2) rest]
  obtain s' where s': "flush_entries writeTo rel ps s1 = Some (map (released rel) ps, s')"
    "Q (\<lambda>i. if i \<in> idxs ps then released rel (P1 i) else P1 i, s')" by blast
  have "(\<lambda>i. if i \<in> idxs ps then released rel (P1 i) else P1 i) =
      (\<lambda>i. if i \<in> idxs (p # ps) then released rel (P i) else P i)"
    using new(1) Pi by (auto simp: P1_def)
  then show ?case using s' s1(1) by simp
qed simp

lemma flush_completed_spec:
  assumes st: "flush_stable writeTo Q"
  shows "Q (P, s) \<Longrightarrow> \<forall>p\<in>set ps. P (pc_index p) = p \<Longrightarrow>
    \<exists>s'. flush_completed writeTo ps s = Some s' \<and> Q (P, s')"
proof (induction ps arbitrary: s)
  case (Cons p ps)
  show ?case
  proof (cases "pc_wrCache p \<noteq> None \<and> piece_getCompletedLength p = pc_length p")
    case True
    then obtain ent where ent: "pc_wrCache p = Some ent" by blast
    have "P (pc_index p) = p" using Cons.prems(2) by simp
    with flush_stableD [OF st Cons.prems(1), of "pc_index p" ent] ent
    obtain s1 where "flushWrCache writeTo True p s = Some s1" "Q (P, s1)" by auto
    then show ?thesis using Cons.IH [of s1] Cons.prems(2) True by simp
  next
    case False
    then show ?thesis using Cons.IH [of s] Cons.prems by auto
  qed
qed simp

lemma pool_flush_stable:
  fixes writeTo :: "'d write_to"
  assumes "limit < 2 ^ 64"
  shows "flush_stable writeTo (pool_inv limit :: ('h, 'd) pool \<Rightarrow> bool)"
  unfolding flush_stable_def
proof (intro allI impI)
  fix P :: "nat \<Rightarrow> 'h piece" and s :: "'d wr_state" and i ent
  assume inv: "pool_inv limit (P, s)" and ent: "pc_wrCache (P i) = Some ent"
  have "cache_legal limit (CFlush i) (P, s)" using ent by simp
  from cache_exec_inv [OF inv assms this, of writeTo]
  obtain s' where s': "flushWrCache writeTo True (P i) s = Some s'" "pool_inv limit (P, s')" by auto
  have "cache_legal limit (CRelease i) (P, s')" by simp
  from cache_exec_inv [OF s'(2) assms this, of writeTo]
  have "pool_inv limit (P(i := fst (releaseWrCache True (P i) s')), snd (releaseWrCache True (P i) s'))"
    by (auto simp: case_prod_beta)
  then show "\<exists>s'. flushWrCache writeTo True (P i) s = Some s' \<and> pool_inv limit (P, s') \<and>
       pool_inv limit (P(i := (P i)\<lparr>pc_wrCache := None\<rparr>), snd (releaseWrCache True (P i) s'))"
    using s' by (simp add: releaseWrCache_piece)
qed

subsection \<open>Completing and cancelling\<close>

lemma storage_inv_map:
  assumes "storage_inv limit st" and "bm_inv m" and "geometry m = geometry (smap st)"
    and "shared_ok (pst_endGame st) (uses m) (piece_at (pst_used st))"
  shows "storage_inv limit (st\<lparr>pst_bitfieldMan := m\<rparr>)"
  using storage_invD [OF assms(1)] assms(2,4) by (simp add: storage_inv_def piece_fits_geometry [OF assms(3)])

lemma storage_inv_fields [simp]:
  "storage_inv limit (st\<lparr>pst_stats := x\<rparr>) = storage_inv limit st"
  "storage_inv limit (st\<lparr>pst_selector := y\<rparr>) = storage_inv limit st"
  "storage_inv limit (st\<lparr>pst_stream := z\<rparr>) = storage_inv limit st"
  "storage_inv limit (st\<lparr>pst_haves := h\<rparr>) = storage_inv limit st"
  by (simp_all add: storage_inv_def)

lemma shared_ok_map:
  assumes "shared_ok e us U" and "\<And>j p. U j = Some p \<Longrightarrow> j \<in> us \<Longrightarrow> pc_users p \<noteq> [] \<Longrightarrow> j \<in> us'"
  shows "shared_ok e us' U"
  using assms unfolding shared_ok_def by blast

lemma release_same:
  "pc_wrCache p = pc_wrCache q \<Longrightarrow> snd (releaseWrCache h p s) = snd (releaseWrCache h q s)"
  by (auto simp: releaseWrCache_def Let_def split: option.split)

lemma deleteUsedPiece_spec:
  fixes st :: "('h, 'd) piece_storage"
  assumes inv: "storage_inv limit st" and p0: "piece_at (pst_used st) (pc_index p) = Some p0"
    and same: "pc_wrCache p = pc_wrCache p0" and d: "deleteUsedPiece p st = (st', p')"
  shows "storage_inv limit st'" "piece_at (pst_used st') = (piece_at (pst_used st))(pc_index p := None)"
    "smap st' = smap st" "pst_stats st' = pst_stats st" "pst_endGame st' = pst_endGame st" "pc_index p' = pc_index p"
proof -
  note I = storage_invD [OF inv]
  let ?i = "pc_index p" and ?U = "piece_at (pst_used st)"
  obtain q s' where r: "releaseWrCache (pst_hasCache st) p (pst_cache st) = (q, s')" by fastforce
  have st': "st' = st\<lparr>pst_used := filter (\<lambda>q. pc_index q \<noteq> ?i) (pst_used st), pst_cache := s'\<rparr>" "p' = q"
    using d r by (simp_all add: deleteUsedPiece_def)
  show "pc_index p' = pc_index p" using r st'(2) by (auto simp: releaseWrCache_def Let_def split: option.splits if_splits)
  show at: "piece_at (pst_used st') = ?U(?i := None)" by (simp add: st' piece_at_delete)
  show "smap st' = smap st" "pst_stats st' = pst_stats st" "pst_endGame st' = pst_endGame st" by (simp_all add: st')
  have "cache_ok limit (pst_hasCache st) (?U(?i := None)) s'"
  proof (cases "pst_hasCache st")
    case True
    then have P: "pool_inv limit (pool_of ?U, pst_cache st)" "limit < 2 ^ 64" using I(5) by (simp_all add: cache_ok_def)
    have "cache_legal limit (CRelease ?i) (pool_of ?U, pst_cache st)" by simp
    from cache_exec_inv [OF P this, of undefined]
    have "pool_inv limit ((pool_of ?U)(?i := fst (releaseWrCache True p0 (pst_cache st))), snd (releaseWrCache True p0 (pst_cache st)))"
      using p0 by (auto simp: case_prod_beta)
    then have Q: "pool_inv limit ((pool_of ?U)(?i := p0\<lparr>pc_wrCache := None\<rparr>), s')"
      using r True release_same [OF same, of True "pst_cache st"] by (simp add: releaseWrCache_piece)
    have "\<forall>k\<in>centries s'. entry_ok (ws_ents s' k)" using pool_invD(5) [OF Q] by blast
    then have "pool_inv limit (pool_of (?U(?i := None)), s')"
      by (intro pool_inv_same [OF Q pool_invD(1) [OF Q] refl refl]) auto
    then show ?thesis using P(2) by (simp add: cache_ok_def)
  qed (simp add: cache_ok_def)
  moreover have "shared_ok (pst_endGame st) (uses (smap st)) (?U(?i := None))"
    using I(4) by (simp add: shared_ok_def)
  moreover have "used_sorted (filter (\<lambda>q. pc_index q \<noteq> ?i) (pst_used st))" by (rule used_sorted_filter [OF I(2)])
  ultimately show "storage_inv limit st'"
    unfolding storage_inv_def at using I(1,3) by (simp add: st' split: if_splits)
qed

lemma completePiece_spec:
  fixes st :: "('h, 'd) piece_storage"
  assumes inv: "storage_inv limit st" and p: "piece_at (pst_used st) i = Some p"
    and c: "completePiece p st = (st', p', finished)"
  shows "storage_inv limit st'" "piece_at (pst_used st') = (piece_at (pst_used st))(i := None)"
    "haves (smap st') = insert i (haves (smap st))" "selected (smap st') = selected (smap st)"
    "uses (smap st') = (if haves (smap st) = {..<bm_blocks (smap st)} then uses (smap st) else uses (smap st) - {i})"
    "finished \<longleftrightarrow> haves (smap st) \<noteq> {..<bm_blocks (smap st)} \<and> selected (smap st) \<subseteq> insert i (haves (smap st))"
    "pst_endGame st' = pst_endGame st"
proof -
  have fits: "piece_fits (smap st) i p" using storage_invD(3) [OF inv p] .
  then have i: "pc_index p = i" "i < bm_blocks (smap st)" by (simp_all add: piece_fits_def)
  obtain st1 p1 where d: "deleteUsedPiece p st = (st1, p1)" by fastforce
  have p0: "piece_at (pst_used st) (pc_index p) = Some p" using p i by simp
  note D = deleteUsedPiece_spec [OF inv p0 refl d]
  note I = storage_invD [OF D(1)]
  have all: "allDownloadFinished st1 \<longleftrightarrow> haves (smap st) = {..<bm_blocks (smap st)}"
    using isAllBitSet_iff [OF I(1)] D(3) by (simp add: allDownloadFinished_def)
  let ?m1 = "fst (setBit (smap st) i)"
  let ?m = "fst (unsetUseBit ?m1 i)"
  have bi: "bm_inv (smap st)" using storage_invD(1) [OF inv] .
  have v1: "bm_inv ?m1" "haves ?m1 = insert i (haves (smap st))" "uses ?m1 = uses (smap st)" "filts ?m1 = filts (smap st)"
    using set_ops_inv(1) [OF bi] set_ops_views(1-3) [OF bi, of i] i(2) by simp_all
  have v: "bm_inv ?m" "haves ?m = insert i (haves (smap st))" "uses ?m = uses (smap st) - {i}" "selected ?m = selected (smap st)"
    "geometry ?m = geometry (smap st)"
    using set_ops_inv(4) [OF v1(1)] set_ops_views(10-12) [OF v1(1), of i] v1 by (simp_all add: selected_def)
  have "storage_inv limit st' \<and> piece_at (pst_used st') = (piece_at (pst_used st))(i := None) \<and>
      haves (smap st') = insert i (haves (smap st)) \<and> selected (smap st') = selected (smap st) \<and>
      uses (smap st') = (if haves (smap st) = {..<bm_blocks (smap st)} then uses (smap st) else uses (smap st) - {i}) \<and>
      finished = (haves (smap st) \<noteq> {..<bm_blocks (smap st)} \<and> selected (smap st) \<subseteq> insert i (haves (smap st))) \<and>
      pst_endGame st' = pst_endGame st"
  proof (cases "allDownloadFinished st1")
    case True
    then have "st' = st1" "\<not> finished" using c d by (simp_all add: completePiece_def)
    then show ?thesis
      using D i all True by auto
  next
    case False
    have st': "st' = pst_addPieceStat i (st1\<lparr>pst_bitfieldMan := ?m\<rparr>)" "finished = downloadFinished st'"
      using c d False D(3,6) i(1) by (auto simp: completePiece_def Let_def)
    have "storage_inv limit (st1\<lparr>pst_bitfieldMan := ?m\<rparr>)"
      by (rule storage_inv_map [OF D(1) v(1)]) (use v D(2,3) i I(4) in \<open>auto simp: shared_ok_def\<close>)
    then have "storage_inv limit st'" by (simp add: st'(1) pst_addPieceStat_def)
    moreover have "finished \<longleftrightarrow> selected (smap st) \<subseteq> insert i (haves (smap st))"
      using isFilteredAllBitSet_iff [OF v(1)] v(2,4) by (simp add: st' downloadFinished_def pst_addPieceStat_def)
    ultimately show ?thesis
      using D i all False v by (simp add: st'(1) pst_addPieceStat_def)
  qed
  then show "storage_inv limit st'" "piece_at (pst_used st') = (piece_at (pst_used st))(i := None)"
    "haves (smap st') = insert i (haves (smap st))" "selected (smap st') = selected (smap st)"
    "uses (smap st') = (if haves (smap st) = {..<bm_blocks (smap st)} then uses (smap st) else uses (smap st) - {i})"
    "finished \<longleftrightarrow> haves (smap st) \<noteq> {..<bm_blocks (smap st)} \<and> selected (smap st) \<subseteq> insert i (haves (smap st))"
    "pst_endGame st' = pst_endGame st"
    by simp_all
qed

lemma users_remove: "pc_users (removeUser c p) = filter (\<lambda>u. u \<noteq> c) (pc_users p)"
  by (simp add: removeUser_def)

lemma cancelPiece_spec:
  fixes st :: "('h, 'd) piece_storage"
  assumes inv: "storage_inv limit st" and p: "piece_at (pst_used st) i = Some p"
    and c: "cancelPiece p cuid st = (st', p')"
  shows "storage_inv limit st' \<and> haves (smap st') = haves (smap st) \<and> selected (smap st') = selected (smap st) \<and>
    uses (smap st') = (if filter (\<lambda>u. u \<noteq> cuid) (pc_users p) = [] then uses (smap st) - {i} else uses (smap st)) \<and>
    piece_at (pst_used st') = (piece_at (pst_used st))
      (i := if \<not> pst_endGame st \<and> piece_getCompletedLength p = 0 then None else Some (removeUser cuid p)) \<and>
    pst_endGame st' = pst_endGame st"
proof -
  let ?q = "removeUser cuid p"
  have fits: "piece_fits (smap st) i p" using storage_invD(3) [OF inv p] .
  then have i: "pc_index p = i" "i < bm_blocks (smap st)" by (simp_all add: piece_fits_def)
  have fq: "piece_fits (smap st) i ?q" using fits by (simp add: piece_fits_def piece_inv_def)
  have sh: "pc_users p \<noteq> [] \<longrightarrow> i \<in> uses (smap st)" "\<not> pst_endGame st \<longrightarrow> length (pc_users p) \<le> 1"
    using storage_invD(4) [OF inv] p by (simp_all add: shared_ok_def)
  have len: "length (pc_users ?q) \<le> length (pc_users p)" "pc_users ?q \<noteq> [] \<Longrightarrow> pc_users p \<noteq> []"
    by (auto simp: users_remove)
  define st1 where "st1 = put_used ?q st"
  have u1: "pc_users ?q \<noteq> [] \<longrightarrow> i \<in> uses (smap st)" and u2: "\<not> pst_endGame st \<longrightarrow> length (pc_users ?q) \<le> 1"
    using sh len by linarith+
  note P = put_used_inv [OF inv p fq _ u1 u2, folded st1_def]
  define st2 where "st2 = (if \<not> getUsed ?q then st1\<lparr>pst_bitfieldMan := fst (unsetUseBit (smap st1) i)\<rparr> else st1)"
  have bi: "bm_inv (smap st)" using storage_invD(1) [OF inv] .
  note v = set_ops_inv(4) [OF bi, of i] set_ops_views(10-12) [OF bi, of i]
  have at2: "piece_at (pst_used st2) = (piece_at (pst_used st))(i \<mapsto> ?q)" "pst_endGame st2 = pst_endGame st"
    using P by (simp_all add: st2_def)
  have m2: "haves (smap st2) = haves (smap st)" "selected (smap st2) = selected (smap st)"
    "uses (smap st2) = (if filter (\<lambda>u. u \<noteq> cuid) (pc_users p) = [] then uses (smap st) - {i} else uses (smap st))"
    using P v by (simp_all add: st2_def getUsed_def users_remove selected_def)
  have "storage_inv limit st2"
  proof (cases "getUsed ?q")
    case False
    have "shared_ok (pst_endGame st1) (uses (fst (unsetUseBit (smap st1) i))) (piece_at (pst_used st1))"
      by (rule shared_ok_map [OF storage_invD(4) [OF P(1)]])
        (use P v False in \<open>auto simp: getUsed_def split: if_splits\<close>)
    then show ?thesis unfolding st2_def using False P(1,3) v by (simp add: storage_inv_map)
  qed (use P(1) in \<open>simp add: st2_def\<close>)
  moreover have step: "cancelPiece p cuid st = (if \<not> pst_endGame st2 \<and> piece_getCompletedLength p = 0
      then deleteUsedPiece ?q st2 else (st2, ?q))"
    using i(1) by (simp add: cancelPiece_def Let_def st1_def st2_def piece_getCompletedLength_def)
  ultimately show ?thesis
  proof (cases "\<not> pst_endGame st \<and> piece_getCompletedLength p = 0")
    case True
    then have d: "deleteUsedPiece ?q st2 = (st', p')" using c step at2(2) by simp
    have p0: "piece_at (pst_used st2) (pc_index ?q) = Some ?q" using at2(1) i(1) by simp
    note D = deleteUsedPiece_spec [OF \<open>storage_inv limit st2\<close> p0 refl d]
    show ?thesis using D at2 m2 i True by (simp add: fun_upd_idem)
  next
    case False
    then have "st' = st2" using c step at2(2) by auto
    then show ?thesis using False at2 m2 \<open>storage_inv limit st2\<close> by auto
  qed
qed

subsection \<open>Handing out\<close>

lemma shuffled_perm:
  assumes "mset (shuffle xs) = mset xs"
  shows "set (shuffle xs) = set xs" "distinct (shuffle xs) = distinct xs"
  using assms by (auto dest: mset_eq_setD mset_eq_imp_distinct_iff)

text \<open>The pieces that a peer with that bitfield could give us.\<close>

definition offered :: "('h, 'd) piece_storage \<Rightarrow> byte list \<Rightarrow> nat set" where
  "offered st bf = {i \<in> missing (smap st). bitat (array bf) i}"

lemma getMissingPieces_spec:
  fixes st :: "('h, 'd) piece_storage"
  assumes inv: "storage_inv limit st" and fresh: "\<And>s. alloc s \<notin> centries s"
    and sh: "\<And>xs. mset (shuffle xs) = mset xs" and n: "0 < bm_blocks (smap st)"
    and bf: "length bf = bm_bitfieldLength (smap st)"
    and sel: "\<not> pst_endGame st \<Longrightarrow> sel_legal (pst_stats st, pst_selector st) (bm_blocks (smap st))"
  defines "A \<equiv> (if pst_endGame st then {i \<in> offered st bf. \<not> by_segment st i} else offered st bf - uses (smap st))"
  shows "\<exists>st' ps. getMissingPieces writeTo alloc shuffle k bf cuid st = Some (st', ps) \<and> storage_inv limit st' \<and>
    handed_out st cuid st' ps \<and> idxs ps \<subseteq> A \<and> (k \<le> missing_blocks ps \<or> idxs ps = A) \<and>
    pst_endGame st' = pst_endGame st \<and>
    (\<forall>j. j \<notin> offered st bf \<longrightarrow> piece_at (pst_used st') j = piece_at (pst_used st) j)"
proof -
  let ?m = "smap st" and ?z = "replicate (bm_bitfieldLength (smap st)) (0::byte)"
  note bi = storage_invD(1) [OF inv]
  have z: "length ?z = bm_bitfieldLength ?m" by simp
  note views = getAll_views [OF bm_invD(1) [OF bi] n z]
  have len: "bm_blocks ?m \<le> 8 * bm_bitfieldLength ?m" using shape_lengths(5) [OF bm_invD(1) [OF bi]] .
  have none: ?thesis if "A = {}" "getMissingPieces writeTo alloc shuffle k bf cuid st = Some (st, [])"
    using that inv by (intro exI [of _ st] exI [of _ "[]"]) simp
  show ?thesis
  proof (cases "pst_endGame st")
    case False
    have A: "A = {i \<in> missing ?m - uses ?m. bitat (array bf) i}" using False by (auto simp: A_def offered_def)
    from views(3) [OF bf] obtain mis where mis: "getAllMissingUnusedIndexes ?m ?z bf = Some (mis, A \<noteq> {})"
      "length mis = bm_bitfieldLength ?m" "{i. i < 8 * length mis \<and> bitat (array mis) i} = A" unfolding A by blast
    have Aset: "A = {i. i < bm_blocks ?m \<and> bitat (array mis) i}"
      using mis(2,3) len missing_less [of _ ?m] unfolding A by force
    have run: "getMissingPieces writeTo alloc shuffle k bf cuid st =
        (if A = {} then Some (st, []) else select_loop writeTo alloc k cuid mis 0 [] st)"
      using False mis(1) by (simp add: getMissingPieces_def)
    have sub: "A \<subseteq> selected ?m - uses ?m" unfolding A missing_def by blast
    show ?thesis
    proof (cases "A = {}")
      case True
      show ?thesis by (rule none) (use True run in simp_all)
    next
      case ne: False
      from select_loop_spec [OF fresh inv False sel [OF False] mis(2) Aset sub, of writeTo k cuid 0 "[]"]
      obtain st' ps where r: "select_loop writeTo alloc k cuid mis 0 [] st = Some (st', ps)" "storage_inv limit st'"
        "handed_out st cuid st' ps" "idxs ps \<subseteq> A" "k \<le> missing_blocks ps \<or> idxs ps = A" "pst_endGame st' = pst_endGame st"
        "\<forall>j. j \<notin> idxs ps \<longrightarrow> piece_at (pst_used st') j = piece_at (pst_used st) j" by auto
      have "A \<subseteq> offered st bf" unfolding A offered_def by blast
      then have "\<forall>j. j \<notin> offered st bf \<longrightarrow> piece_at (pst_used st') j = piece_at (pst_used st) j"
        using r(4,7) by blast
      then show ?thesis using r(1-6) run ne by (intro exI [of _ st'] exI [of _ ps]) simp
    qed
  next
    case True
    let ?O = "offered st bf"
    from views(2) [OF bf] obtain mis where mis: "getAllMissingIndexesOf ?m ?z bf = Some (mis, ?O \<noteq> {})"
      "length mis = bm_bitfieldLength ?m" "{i. i < 8 * length mis \<and> bitat (array mis) i} = ?O"
      unfolding offered_def by blast
    define ixs where "ixs = shuffle (filter (\<lambda>i. test (array mis) (bm_blocks ?m) i) [0..<bm_blocks ?m])"
    have Oset: "?O = {i. i < bm_blocks ?m \<and> bitat (array mis) i}"
      using mis(2,3) len missing_less [of _ ?m] unfolding offered_def by force
    have ixs: "set ixs = ?O" "distinct ixs"
      using shuffled_perm [of shuffle "filter (\<lambda>i. test (array mis) (bm_blocks ?m) i) [0..<bm_blocks ?m]", OF sh] Oset
      by (auto simp: ixs_def)
    have run: "getMissingPieces writeTo alloc shuffle k bf cuid st =
        (if ?O = {} then Some (st, []) else endgame_loop writeTo alloc k cuid ixs 0 [] st)"
      using True mis(1) by (simp add: getMissingPieces_def Let_def ixs_def del: test_bitat)
    have A: "A = {i \<in> set ixs. \<not> by_segment st i}" using True ixs(1) by (auto simp: A_def)
    show ?thesis
    proof (cases "?O = {}")
      case e: True
      show ?thesis by (rule none) (use e A run ixs(1) in simp_all)
    next
      case ne: False
      have "set ixs \<subseteq> selected ?m" unfolding ixs(1) offered_def missing_def by blast
      from endgame_loop_spec [OF fresh inv True ixs(2) this, of writeTo k cuid 0 "[]", folded A]
      obtain st' ps where r: "endgame_loop writeTo alloc k cuid ixs 0 [] st = Some (st', [] @ ps)" "storage_inv limit st'"
        "pst_endGame st'" "handed_out st cuid st' ps" "idxs ps \<subseteq> A" "k \<le> 0 + missing_blocks ps \<or> idxs ps = A"
        "\<forall>j. j \<notin> set ixs \<longrightarrow> piece_at (pst_used st') j = piece_at (pst_used st) j" by blast
      show ?thesis
        by (rule exI [of _ st'], rule exI [of _ ps]) (use r run ne True ixs(1) in simp)
    qed
  qed
qed

subsection \<open>Stream selectors\<close>

fun stream_legal :: "nat \<times> nat \<times> (rat \<Rightarrow> rat) \<times> stream_sel \<Rightarrow> bitfield_man \<Rightarrow> bool" where
  "stream_legal (start, fuel, rnd, RandomStream) m \<longleftrightarrow> start < bm_blocks m"
| "stream_legal (start, fuel, rnd, GeomStream gs) m \<longleftrightarrow> geom_legal (fuel, rnd, gs) m"
| "stream_legal _ m \<longleftrightarrow> True"

definition stream_call ::
  "nat \<times> nat \<times> (rat \<Rightarrow> rat) \<times> stream_sel \<Rightarrow> bitfield_man \<Rightarrow> nat \<Rightarrow> byte list \<Rightarrow> (bitfield_man \<times> nat option) option" where
  "stream_call = (\<lambda>(start, fuel, rnd, sel). stream_select start fuel rnd sel)"

lemma stream_call_cases:
  obtains (default) "stream_call s = no_state defaultStream_select ()" "\<And>m. stream_legal s m"
  | (inorder) "stream_call s = no_state inorderStream_select ()" "\<And>m. stream_legal s m"
  | (random) start where "stream_call s = randomStream_select start" "\<And>m. stream_legal s m \<longleftrightarrow> start < bm_blocks m"
  | (geom) g where "stream_call s = geom_call g" "\<And>m. stream_legal s m \<longleftrightarrow> geom_legal g m"
proof -
  obtain start fuel rnd sel where s: "s = (start, fuel, rnd, sel)" by (cases s)
  show thesis
  proof (cases sel)
    case (GeomStream gs)
    show thesis by (rule geom [of "(fuel, rnd, gs)"]) (simp_all add: s GeomStream stream_call_def geom_call_def)
  qed (use default inorder random s in \<open>auto simp: stream_call_def no_state_def\<close>)
qed

text \<open>The selector object of a storage is one of the four, so it meets the interface.\<close>

interpretation storage_stream: stream_selector stream_call stream_legal
proof
  fix s m ms ig m' r
  assume inv: "bm_inv m"
  show "m' = m\<lparr>bm_sparseHint := bm_sparseHint m'\<rparr>" if "stream_call s m ms ig = Some (m', r)"
    by (cases s rule: stream_call_cases)
      (use that default_stream.only_hint [OF inv] inorder_stream.only_hint [OF inv]
        random_stream.only_hint [OF inv] geom_stream.only_hint [OF inv] in metis)+
  show "i \<in> free m ig" if "stream_call s m ms ig = Some (m', Some i)" for i
    by (cases s rule: stream_call_cases)
      (use that default_stream.sound [OF inv] inorder_stream.sound [OF inv]
        random_stream.sound [OF inv] geom_stream.sound [OF inv] in metis)+
  show "free m ig = {}" if "stream_call s m ms ig = Some (m', None)" "int32_of (int ms) \<le> bm_blockLength m"
    by (cases s rule: stream_call_cases)
      (use that default_stream.complete [OF inv] inorder_stream.complete [OF inv]
        random_stream.complete [OF inv] geom_stream.complete [OF inv] in metis)+
  show "stream_call s m ms ig \<noteq> None" if "0 < bm_blocks m" "stream_legal s m"
    by (cases s rule: stream_call_cases)
      (use that default_stream.returns [OF inv] inorder_stream.returns [OF inv]
        random_stream.returns [OF inv] geom_stream.returns [OF inv] in metis)+
qed

lemma getMissingPieceSplit_spec:
  fixes st :: "('h, 'd) piece_storage"
  assumes inv: "storage_inv limit st" and fresh: "\<And>s. alloc s \<notin> centries s"
    and n: "0 < bm_blocks (smap st)" and sel: "pst_stream st = Some sel" "stream_legal (start, fuel, rnd, sel) (smap st)"
  shows "\<exists>st' r. getMissingPieceSplit writeTo alloc start fuel rnd ms ig cuid st = Some (st', r) \<and> storage_inv limit st' \<and>
    (case r of
       None \<Rightarrow> (int32_of (int ms) \<le> bm_blockLength (smap st) \<longrightarrow> free (smap st) ig = {}) \<and>
         haves (smap st') = haves (smap st) \<and> uses (smap st') = uses (smap st) \<and> pst_used st' = pst_used st
     | Some p \<Rightarrow> pc_index p \<in> free (smap st) ig \<and> cuid \<in> set (pc_users p) \<and>
         haves (smap st') = haves (smap st) \<and> uses (smap st') = insert (pc_index p) (uses (smap st)) \<and>
         piece_at (pst_used st') = (piece_at (pst_used st))(pc_index p \<mapsto> p)) \<and>
    pst_endGame st' = pst_endGame st \<and> geometry (smap st') = geometry (smap st)"
proof -
  let ?s = "(start, fuel, rnd, sel)"
  note bi = storage_invD(1) [OF inv]
  obtain m' r where c: "stream_call ?s (smap st) ms ig = Some (m', r)"
    using storage_stream.returns [OF bi n sel(2), of ms ig] by auto
  then have call: "stream_select start fuel rnd sel (smap st) ms ig = Some (m', r)" by (simp add: stream_call_def)
  obtain h where h: "m' = (smap st)\<lparr>bm_sparseHint := h\<rparr>" using storage_stream.only_hint [OF bi c] by blast
  define st1 where "st1 = st\<lparr>pst_bitfieldMan := m'\<rparr>"
  have v: "haves m' = haves (smap st)" "uses m' = uses (smap st)" "selected m' = selected (smap st)" "bm_inv m'"
    using bi hint_views hint_inv by (simp_all add: h)
  have inv1: "storage_inv limit st1" unfolding st1_def
    by (rule storage_inv_map [OF inv v(4)]) (use h v(2) storage_invD(4) [OF inv] in simp_all)
  show ?thesis
  proof (cases r)
    case None
    have "getMissingPieceSplit writeTo alloc start fuel rnd ms ig cuid st = Some (st1, None)"
      using call None sel(1) by (simp add: getMissingPieceSplit_def st1_def)
    moreover have "int32_of (int ms) \<le> bm_blockLength (smap st) \<longrightarrow> free (smap st) ig = {}"
      using storage_stream.complete [OF bi, of ?s ms ig m'] c None by simp
    moreover have "smap st1 = m'" "pst_used st1 = pst_used st" "pst_endGame st1 = pst_endGame st"
      "geometry (smap st1) = geometry (smap st)" by (simp_all add: st1_def h)
    ultimately show ?thesis using inv1 v by (intro exI [of _ st1] exI [of _ None]) simp
  next
    case (Some i)
    then have fr: "i \<in> free (smap st) ig" using storage_stream.sound [OF bi, of ?s ms ig m' i] c by simp
    then have i: "i \<in> selected (smap st1)" "i \<notin> uses (smap st1)" "i < bm_blocks (smap st1)"
      using v free_less [OF fr] h by (auto simp: free_def missing_def st1_def)
    from checkOut_spec [OF inv1 i(1) fresh, of writeTo cuid] i(2)
    obtain st2 p where k: "checkOutPiece writeTo alloc i cuid st1 = Some (st2, p)" "storage_inv limit st2"
      "checked_out st1 i cuid st2 p" by blast
    note d = checked_outD [OF inv1 k(3) i(3)]
    have "getMissingPieceSplit writeTo alloc start fuel rnd ms ig cuid st = Some (st2, Some p)"
      using call Some sel(1) k(1) by (simp add: getMissingPieceSplit_def st1_def)
    moreover have "smap st1 = m'" "pst_used st1 = pst_used st" "pst_endGame st1 = pst_endGame st"
      "geometry (smap st1) = geometry (smap st)" by (simp_all add: st1_def h)
    ultimately show ?thesis using k(2) d fr v by (intro exI [of _ st2] exI [of _ "Some p"]) simp
  qed
qed

lemma getMissingPieceAt_spec:
  fixes st :: "('h, 'd) piece_storage"
  assumes inv: "storage_inv limit st" and fresh: "\<And>s. alloc s \<notin> centries s" and i: "i < bm_blocks (smap st)"
  shows "\<exists>st' r. getMissingPieceAt writeTo alloc i cuid st = Some (st', r) \<and> storage_inv limit st' \<and>
    (r = None \<longleftrightarrow> i \<notin> missing (smap st) - uses (smap st)) \<and> (r = None \<longrightarrow> st' = st) \<and>
    (\<forall>p. r = Some p \<longrightarrow> checked_out st i cuid st' p)"
proof -
  have guard: "(if bm_filterEnabled (smap st) then map_option Not (isFilterBitSet (smap st) i) else Some False) =
      Some (i \<notin> selected (smap st))"
    using i by (simp add: isFilterBitSet_filts selected_def)
  have step: "getMissingPieceAt writeTo alloc i cuid st =
      (if i \<notin> missing (smap st) - uses (smap st) then Some (st, None)
       else map_option (\<lambda>(st, p). (st, Some p)) (checkOutPiece writeTo alloc i cuid st))"
    using i guard by (auto simp: getMissingPieceAt_def hasPiece_def isPieceUsed_def isBitSet_haves isUseBitSet_uses missing_def)
  show ?thesis
  proof (cases "i \<in> missing (smap st) - uses (smap st)")
    case False
    then show ?thesis using step inv by simp
  next
    case True
    then have "i \<in> selected (smap st)" "i \<notin> uses (smap st)" by (auto simp: missing_def)
    with checkOut_spec [OF inv _ fresh, of i writeTo cuid] show ?thesis using True step by fastforce
  qed
qed

end
