(* ===== verification/StorageMachine.thy ===== *)
theory StorageMachine
  imports PieceStorageRun
begin

text \<open>
  The piece storage as a state machine: the requests of peers and streams, the work of the pieces'
  holders, completion and cancellation, and the control operations, in any order.
\<close>

datatype storage_op =
    OGet nat "byte list" int
  | OAt nat int
  | OStream nat nat "rat \<Rightarrow> rat" nat "byte list" int
  | OComplete nat
  | OCancel nat int
  | OBlock nat nat
  | OSegment nat
  | OEnterEndGame
  | OMarkMissing nat
  | OAllDone
  | OFilter "file_entry list"
  | OClearFilter
  | OFlush bool
  | OFlushCompleted
  | OPeerJoins "byte list"
  | OPeerLeaves "byte list"
  | OCell nat data_cell
  | OAppend nat int "byte list"

text \<open>An operation on the used piece of an index, if there is one.\<close>

definition on_used ::
  "nat \<Rightarrow> ('h piece \<Rightarrow> ('h, 'd) piece_storage \<Rightarrow> ('h, 'd) piece_storage) \<Rightarrow> ('h, 'd) piece_storage \<Rightarrow> ('h, 'd) piece_storage" where
  "on_used i f st = (case findUsedPiece st i of None \<Rightarrow> st | Some p \<Rightarrow> f p st)"

text \<open>
  What a holder of a used piece that has an entry caches, as \<open>BtPieceMessage\<close> and
  \<open>SinkStreamFilter\<close> do.
\<close>

definition on_entry ::
  "nat \<Rightarrow> ('h piece \<Rightarrow> 'd wr_state \<Rightarrow> 'd wr_state option) \<Rightarrow> ('h, 'd) piece_storage \<Rightarrow> ('h, 'd) piece_storage option" where
  "on_entry i f st = (case findUsedPiece st i of None \<Rightarrow> Some st | Some p \<Rightarrow>
     if pc_wrCache p = None then Some st else map_option (\<lambda>s. st\<lparr>pst_cache := s\<rparr>) (f p (pst_cache st)))"

fun storage_exec ::
  "'d write_to \<Rightarrow> ('d wr_state \<Rightarrow> nat) \<Rightarrow> (nat list \<Rightarrow> nat list) \<Rightarrow> storage_op \<Rightarrow>
     ('h, 'd) piece_storage \<Rightarrow> ('h, 'd) piece_storage option" where
  "storage_exec writeTo alloc shuffle (OGet k bf cuid) st = map_option fst (getMissingPieces writeTo alloc shuffle k bf cuid st)"
| "storage_exec writeTo alloc shuffle (OAt i cuid) st = map_option fst (getMissingPieceAt writeTo alloc i cuid st)"
| "storage_exec writeTo alloc shuffle (OStream start fuel rnd ms ig cuid) st =
     map_option fst (getMissingPieceSplit writeTo alloc start fuel rnd ms ig cuid st)"
| "storage_exec writeTo alloc shuffle (OComplete i) st = Some (on_used i (\<lambda>p st. fst (completePiece p st)) st)"
| "storage_exec writeTo alloc shuffle (OCancel i cuid) st = Some (on_used i (\<lambda>p st. fst (cancelPiece p cuid st)) st)"
| "storage_exec writeTo alloc shuffle (OBlock i b) st = Some (on_used i (\<lambda>p. put_used (completeBlock b p)) st)"
| "storage_exec writeTo alloc shuffle (OSegment i) st = Some (on_used i (\<lambda>p. put_used (p\<lparr>pc_usedBySegment := True\<rparr>)) st)"
| "storage_exec writeTo alloc shuffle OEnterEndGame st = Some (enterEndGame st)"
| "storage_exec writeTo alloc shuffle (OMarkMissing i) st = Some (markPieceMissing i st)"
| "storage_exec writeTo alloc shuffle OAllDone st = Some (markAllPiecesDone st)"
| "storage_exec writeTo alloc shuffle (OFilter fes) st = setupFileFilter fes st"
| "storage_exec writeTo alloc shuffle OClearFilter st = Some (clearFileFilter st)"
| "storage_exec writeTo alloc shuffle (OFlush rel) st = flushWrDiskCacheEntry writeTo rel st"
| "storage_exec writeTo alloc shuffle OFlushCompleted st = flushCompletedWrDiskCache writeTo st"
| "storage_exec writeTo alloc shuffle (OPeerJoins bf) st = Some (pst_addPieceStats bf st)"
| "storage_exec writeTo alloc shuffle (OPeerLeaves bf) st = Some (pst_subtractPieceStats bf st)"
| "storage_exec writeTo alloc shuffle (OCell i c) st = on_entry i (updateWrCache writeTo (pst_hasCache st)
     (dc_data c) (dc_offset c) (dc_len c) (dc_capacity c) (dc_goff c)) st"
| "storage_exec writeTo alloc shuffle (OAppend i goff data) st =
     on_entry i (\<lambda>p s. map_option fst (appendWrCache writeTo (pst_hasCache st) goff data p s)) st"

text \<open>What callers respect: sizes of bitfields, indexes in range, a selector that is set up.\<close>

fun storage_legal :: "('h, 'd) piece_storage \<Rightarrow> storage_op \<Rightarrow> bool" where
  "storage_legal st (OGet k bf cuid) \<longleftrightarrow> length bf = bm_bitfieldLength (smap st) \<and>
     (\<not> pst_endGame st \<longrightarrow> sel_legal (pst_stats st, pst_selector st) (bm_blocks (smap st)))"
| "storage_legal st (OAt i cuid) \<longleftrightarrow> i < bm_blocks (smap st)"
| "storage_legal st (OStream start fuel rnd ms ig cuid) \<longleftrightarrow>
     (case pst_stream st of None \<Rightarrow> False | Some sel \<Rightarrow> stream_legal (start, fuel, rnd, sel) (smap st))"
| "storage_legal st (OFilter fes) \<longleftrightarrow> (\<forall>e\<in>set fes. 0 \<le> fe_offset e \<and> fe_offset e + fe_length e \<le> 2 ^ 63)"
| "storage_legal st (OCell i c) \<longleftrightarrow> (\<forall>p ent. findUsedPiece st i = Some p \<longrightarrow> pc_wrCache p = Some ent \<longrightarrow>
     cell_ok c \<and> dc_goff c \<notin> dc_goff ` set (we_set (ws_ents (pst_cache st) ent)) \<and>
     wc_limit (ws_cache (pst_cache st)) + dc_len c < 2 ^ 64)"
| "storage_legal st (OAppend i goff data) \<longleftrightarrow> wc_limit (ws_cache (pst_cache st)) + length data < 2 ^ 64"
| "storage_legal st _ \<longleftrightarrow> True"

inductive storage_reach ::
  "'d write_to \<Rightarrow> ('d wr_state \<Rightarrow> nat) \<Rightarrow> (nat list \<Rightarrow> nat list) \<Rightarrow> nat \<Rightarrow> ('h, 'd) piece_storage \<Rightarrow> bool"
  for writeTo alloc shuffle limit where
  start: "0 < pieceLength \<Longrightarrow> pieceLength < 2 ^ 31 \<Longrightarrow> 0 < totalLength \<Longrightarrow> totalLength < 2 ^ 63 \<Longrightarrow>
    ws_cache cache = wc_new limit \<Longrightarrow>
    storage_reach writeTo alloc shuffle limit
      (setWrDiskCache hasCache cache (pst_new pieceLength totalLength order opt hashType inMemory adaptor cache))"
| step: "storage_reach writeTo alloc shuffle limit st \<Longrightarrow> storage_legal st op \<Longrightarrow>
    storage_exec writeTo alloc shuffle op st = Some st' \<Longrightarrow> storage_reach writeTo alloc shuffle limit st'"

inductive_cases storage_stepE: "storage_reach writeTo alloc shuffle limit st"

subsection \<open>The invariant is kept\<close>

definition nonempty_inv :: "nat \<Rightarrow> ('h, 'd) piece_storage \<Rightarrow> bool" where
  "nonempty_inv limit st \<longleftrightarrow> storage_inv limit st \<and> 0 < bm_blocks (smap st)"

lemma storage_start:
  assumes "0 < pieceLength" and "pieceLength < 2 ^ 31" and "0 < totalLength" and "totalLength < 2 ^ 63"
    and "ws_cache cache = wc_new limit" and "limit < 2 ^ 64"
  shows "nonempty_inv limit
    (setWrDiskCache hasCache cache (pst_new pieceLength totalLength order opt hashType inMemory adaptor cache) :: ('h, 'd) piece_storage)"
proof -
  have bi: "bm_inv (bm_new pieceLength totalLength)" using assms by (simp add: bm_new_inv)
  then have "bm_blocks (bm_new pieceLength totalLength) = ceil_blocks pieceLength totalLength"
    using bm_invD(1) [OF bi] by (simp add: bm_shape_def)
  then have "0 < bm_blocks (bm_new pieceLength totalLength)"
    using ceil_div_bounds(3) [OF assms(1,3)] assms(1,3) by (simp add: ceil_blocks_def)
  moreover have "pool_inv limit (pool_of (Map.empty :: nat \<rightharpoonup> 'h piece), cache)"
    by (rule cache_reach_inv [OF cache_reach.start assms(6)]) (use assms(5) in simp_all)
  ultimately show ?thesis using bi assms(6)
    by (simp add: nonempty_inv_def storage_inv_def setWrDiskCache_def pst_new_def shared_ok_def cache_ok_def)
qed

lemma blocks_geometry: "geometry m' = geometry m \<Longrightarrow> bm_blocks m' = bm_blocks m"
  by (simp add: geometry_def)

lemma storage_inv_smap:
  assumes "storage_inv limit st" and "bm_inv m" and "geometry m = geometry (smap st)" and "uses m = uses (smap st)"
  shows "storage_inv limit (st\<lparr>pst_bitfieldMan := m\<rparr>)"
  using storage_inv_map [OF assms(1-3)] storage_invD(4) [OF assms(1)] assms(4) by simp

lemma add_filters_spec:
  assumes "\<forall>e\<in>set fes. 0 \<le> fe_offset e \<and> fe_offset e + fe_length e \<le> 2 ^ 63"
  shows "bm_inv m \<Longrightarrow> 0 < bm_blocks m \<Longrightarrow>
    \<exists>m'. add_filters fes m = Some m' \<and> bm_inv m' \<and> haves m' = haves m \<and> uses m' = uses m \<and>
      geometry m' = geometry m \<and>
      filts m' = filts m \<union> (\<Union>e\<in>{e \<in> set fes. fe_requested e}. touched m (fe_offset e) (fe_length e))"
  using assms
proof (induction fes arbitrary: m)
  case (Cons e fes)
  have bl: "0 < bm_blockLength m" using blocks_blockLength bm_invD(1) Cons.prems(1,2) by blast
  show ?case
  proof (cases "fe_requested e")
    case True
    have "\<exists>m1. addFilter m (fe_offset e) (fe_length e) = Some m1 \<and> bm_inv m1 \<and> haves m1 = haves m \<and> uses m1 = uses m \<and>
        filts m1 = filts m \<union> touched m (fe_offset e) (fe_length e)"
    proof (cases "0 < fe_length e")
      case pos: True
      have "0 \<le> fe_offset e" "fe_offset e + fe_length e \<le> 2 ^ 63" using Cons.prems(3) by simp_all
      from addFilter_spec [OF Cons.prems(1) this(1) pos this(2) bl] show ?thesis by blast
    next
      case False
      then have "touched m (fe_offset e) (fe_length e) = {}" by (auto simp: touched_def)
      then show ?thesis using False filter_ops_empty(1) [of "fe_length e" m "fe_offset e"] filter_noop [OF Cons.prems(1)] by simp
    qed
    then obtain m1 where m1: "addFilter m (fe_offset e) (fe_length e) = Some m1" "bm_inv m1" "haves m1 = haves m"
      "uses m1 = uses m" "filts m1 = filts m \<union> touched m (fe_offset e) (fe_length e)" by blast
    have geo: "geometry m1 = geometry m" using geometry_exec [of "AddFilter (fe_offset e) (fe_length e)" m m1] m1(1) by simp
    have t: "touched m1 = touched m" using geo by (auto simp: fun_eq_iff touched_def geometry_def)
    from Cons.IH [OF m1(2)] blocks_geometry [OF geo] Cons.prems(2,3)
    obtain m' where "add_filters fes m1 = Some m'" "bm_inv m'" "haves m' = haves m1" "uses m' = uses m1"
      "geometry m' = geometry m1" "filts m' = filts m1 \<union> (\<Union>e\<in>{e \<in> set fes. fe_requested e}. touched m1 (fe_offset e) (fe_length e))"
      by auto
    then show ?thesis using True m1 geo t by auto
  next
    case False
    from Cons.IH [OF Cons.prems(1,2)] Cons.prems(3) obtain m' where "add_filters fes m = Some m'" "bm_inv m'"
      "haves m' = haves m" "uses m' = uses m" "geometry m' = geometry m"
      "filts m' = filts m \<union> (\<Union>e\<in>{e \<in> set fes. fe_requested e}. touched m (fe_offset e) (fe_length e))" by auto
    moreover have "{x \<in> set (e # fes). fe_requested x} = {x \<in> set fes. fe_requested x}" using False by auto
    ultimately show ?thesis using False by simp
  qed
qed simp

text \<open>Flushing the storage, for any property \<open>Q\<close> of the pieces and the cache that it keeps.\<close>

lemma piece_at_released: "piece_at (map (released rel) ps) i = map_option (released rel) (piece_at ps i)"
  by (induction ps) (auto simp: piece_at_def)

lemma pool_of_released:
  "(\<lambda>i. if i \<in> idxs ps then released rel (pool_of (piece_at ps) i) else pool_of (piece_at ps) i) =
     pool_of (piece_at (map (released rel) ps))"
proof
  fix i
  show "(if i \<in> idxs ps then released rel (pool_of (piece_at ps) i) else pool_of (piece_at ps) i) =
     pool_of (piece_at (map (released rel) ps)) i"
    using piece_at_None [of ps i] by (auto simp: piece_at_released split: option.split)
qed

lemma used_distinct: "used_sorted ps \<Longrightarrow> distinct (map pc_index ps)"
  using strict_sorted_iff by blast

lemma flush_storage_spec:
  fixes st :: "('h, 'd) piece_storage"
  assumes inv: "storage_inv limit st" and stable: "flush_stable writeTo Q"
    and Q: "Q (pool_of (piece_at (pst_used st)), pst_cache st)" and hc: "pst_hasCache st"
  shows "\<exists>s'. flushWrDiskCacheEntry writeTo rel st =
      Some (st\<lparr>pst_used := map (released rel) (pst_used st), pst_cache := s'\<rparr>) \<and>
      Q (pool_of (piece_at (map (released rel) (pst_used st))), s')"
    and "\<exists>s'. flushCompletedWrDiskCache writeTo st = Some (st\<lparr>pst_cache := s'\<rparr>) \<and>
      Q (pool_of (piece_at (pst_used st)), s')"
proof -
  note I = storage_invD [OF inv]
  have own: "\<forall>p\<in>set (pst_used st). pool_of (piece_at (pst_used st)) (pc_index p) = p"
    using set_piece_at [OF I(2)] by simp
  from flush_entries_spec [OF stable Q used_distinct [OF I(2)] own, of rel]
  show "\<exists>s'. flushWrDiskCacheEntry writeTo rel st =
      Some (st\<lparr>pst_used := map (released rel) (pst_used st), pst_cache := s'\<rparr>) \<and>
      Q (pool_of (piece_at (map (released rel) (pst_used st))), s')"
    using hc unfolding pool_of_released by (auto simp: flushWrDiskCacheEntry_def)
  from flush_completed_spec [OF stable Q own]
  show "\<exists>s'. flushCompletedWrDiskCache writeTo st = Some (st\<lparr>pst_cache := s'\<rparr>) \<and>
      Q (pool_of (piece_at (pst_used st)), s')"
    using hc by (auto simp: flushCompletedWrDiskCache_def)
qed

lemma flush_storage_inv:
  fixes st :: "('h, 'd) piece_storage"
  assumes inv: "storage_inv limit st"
  shows "\<exists>st'. flushWrDiskCacheEntry writeTo rel st = Some st' \<and> storage_inv limit st' \<and> smap st' = smap st"
    and "\<exists>st'. flushCompletedWrDiskCache writeTo st = Some st' \<and> storage_inv limit st' \<and> smap st' = smap st"
proof -
  note I = storage_invD [OF inv]
  have "(\<exists>st'. flushWrDiskCacheEntry writeTo rel st = Some st' \<and> storage_inv limit st' \<and> smap st' = smap st) \<and>
    (\<exists>st'. flushCompletedWrDiskCache writeTo st = Some st' \<and> storage_inv limit st' \<and> smap st' = smap st)"
  proof (cases "pst_hasCache st")
    case False
    then show ?thesis using inv by (simp add: flushWrDiskCacheEntry_def flushCompletedWrDiskCache_def)
  next
    case True
    then have P: "pool_inv limit (pool_of (piece_at (pst_used st)), pst_cache st)" and lim: "limit < 2 ^ 64"
      using I(5) by (simp_all add: cache_ok_def)
    note spec = flush_storage_spec [OF inv pool_flush_stable [OF lim] P True]
    obtain s' where s': "flushWrDiskCacheEntry writeTo rel st = Some (st\<lparr>pst_used := map (released rel) (pst_used st), pst_cache := s'\<rparr>)"
      "pool_inv limit (pool_of (piece_at (map (released rel) (pst_used st))), s')" using spec(1) [of writeTo rel] by blast
    obtain t where t: "flushCompletedWrDiskCache writeTo st = Some (st\<lparr>pst_cache := t\<rparr>)"
      "pool_inv limit (pool_of (piece_at (pst_used st)), t)" using spec(2) [of writeTo] by blast
    have fits: "piece_fits (smap st) i (released rel p)" if "piece_at (pst_used st) i = Some p" for i p
      using I(3) [OF that] by (simp add: piece_fits_def piece_inv_def)
    have srt: "used_sorted (map (released rel) (pst_used st))"
      using I(2) by (simp add: comp_def)
    have sh: "shared_ok (pst_endGame st) (uses (smap st)) (piece_at (map (released rel) (pst_used st)))"
      using I(4) by (auto simp: shared_ok_def piece_at_released)
    have co: "cache_ok limit True (piece_at (map (released rel) (pst_used st))) s'"
      using s'(2) lim unfolding cache_ok_def by blast
    have all: "\<forall>i p. piece_at (map (released rel) (pst_used st)) i = Some p \<longrightarrow> piece_fits (smap st) i p"
      using fits by (auto simp: piece_at_released)
    have "storage_inv limit (st\<lparr>pst_used := map (released rel) (pst_used st), pst_cache := s'\<rparr>)"
      unfolding storage_inv_def using I(1) srt sh co all True by (simp del: map_map)
    moreover have "storage_inv limit (st\<lparr>pst_cache := t\<rparr>)"
      using I t(2) lim True by (simp add: storage_inv_def cache_ok_def)
    ultimately show ?thesis using s'(1) t(1) by (auto intro!: exI)
  qed
  then show "\<exists>st'. flushWrDiskCacheEntry writeTo rel st = Some st' \<and> storage_inv limit st' \<and> smap st' = smap st"
    and "\<exists>st'. flushCompletedWrDiskCache writeTo st = Some st' \<and> storage_inv limit st' \<and> smap st' = smap st" by blast+
qed

lemma completeBlock_fields [simp]:
  "pc_index (completeBlock b p) = pc_index p" "pc_wrCache (completeBlock b p) = pc_wrCache p"
  "pc_users (completeBlock b p) = pc_users p" "pc_length (completeBlock b p) = pc_length p"
  "bm_totalLength (pc_bitfield (completeBlock b p)) = bm_totalLength (pc_bitfield p)"
  "pc_usedBySegment (completeBlock b p) = pc_usedBySegment p"
  by (simp_all add: completeBlock_def Let_def)

lemma smap_unchanged [simp]:
  "smap (put_used p st) = smap st" "smap (enterEndGame st) = smap st" "smap (pst_addPieceStats bf st) = smap st"
  "smap (pst_subtractPieceStats bf st) = smap st"
  by (simp_all add: put_used_def enterEndGame_def pst_addPieceStats_def pst_subtractPieceStats_def)

lemma on_used_inv:
  assumes "storage_inv limit st" and "\<And>p. piece_at (pst_used st) i = Some p \<Longrightarrow> storage_inv limit (f p st)"
  shows "storage_inv limit (on_used i f st)"
  using assms by (auto simp: on_used_def findUsedPiece_at split: option.split)

text \<open>Changing the blocks or the owner of a used piece.\<close>

lemma put_work_inv:
  assumes inv: "storage_inv limit st" and p: "piece_at (pst_used st) i = Some p"
    and q: "pc_index q = pc_index p" "pc_wrCache q = pc_wrCache p" "pc_users q = pc_users p"
      "pc_length q = pc_length p" "bm_totalLength (pc_bitfield q) = bm_totalLength (pc_bitfield p)" "piece_inv q"
  shows "storage_inv limit (put_used q st)"
  by (rule put_used_inv [OF inv p])
    (use storage_invD(3) [OF inv p] storage_invD(4) [OF inv] p q in \<open>auto simp: piece_fits_def shared_ok_def\<close>)

lemma work_inv:
  assumes inv: "storage_inv limit st" and p: "piece_at (pst_used st) i = Some p"
  shows "storage_inv limit (put_used (completeBlock b p) st)"
    "storage_inv limit (put_used (p\<lparr>pc_usedBySegment := True\<rparr>) st)"
proof -
  have "piece_inv p" using storage_invD(3) [OF inv p] by (simp add: piece_fits_def)
  then have "piece_inv (completeBlock b p)" "piece_inv (p\<lparr>pc_usedBySegment := True\<rparr>)"
    by (simp_all add: block_ops_inv) (simp add: piece_inv_def)
  then show "storage_inv limit (put_used (completeBlock b p) st)"
    "storage_inv limit (put_used (p\<lparr>pc_usedBySegment := True\<rparr>) st)"
    by (auto intro!: put_work_inv [OF inv p])
qed

lemma enterEndGame_inv: "storage_inv limit st \<Longrightarrow> storage_inv limit (enterEndGame st)"
  by (auto simp: storage_inv_def enterEndGame_def shared_ok_def)

lemma setupFileFilter_spec:
  assumes inv: "storage_inv limit st" and n: "0 < bm_blocks (smap st)"
    and ok: "\<forall>e\<in>set fes. 0 \<le> fe_offset e \<and> fe_offset e + fe_length e \<le> 2 ^ 63"
  shows "\<exists>st'. setupFileFilter fes st = Some st' \<and> storage_inv limit st' \<and> geometry (smap st') = geometry (smap st) \<and>
    (if \<forall>e\<in>set fes. fe_requested e then st' = st
     else haves (smap st') = haves (smap st) \<and> uses (smap st') = uses (smap st) \<and> bm_filterEnabled (smap st') \<and>
       filts (smap st') = filts (smap st) \<union>
         (\<Union>e\<in>{e \<in> set fes. fe_requested e}. touched (smap st) (fe_offset e) (fe_length e)))"
proof (cases "\<forall>e\<in>set fes. fe_requested e")
  case True
  then show ?thesis using inv by (simp add: setupFileFilter_def find_None_iff)
next
  case False
  note bi = storage_invD(1) [OF inv]
  from add_filters_spec [OF ok bi n] obtain m' where m': "add_filters fes (smap st) = Some m'" "bm_inv m'"
    "haves m' = haves (smap st)" "uses m' = uses (smap st)" "geometry m' = geometry (smap st)"
    "filts m' = filts (smap st) \<union> (\<Union>e\<in>{e \<in> set fes. fe_requested e}. touched (smap st) (fe_offset e) (fe_length e))"
    by blast
  have geo: "geometry (enableFilter m') = geometry m'" using geometry_exec [of EnableFilter m'] by simp
  have "storage_inv limit (st\<lparr>pst_bitfieldMan := enableFilter m'\<rparr>)"
    by (rule storage_inv_smap [OF inv]) (use m' geo switch_filter_inv switch_filter_views in simp_all)
  then show ?thesis using False m' geo switch_filter_views(1-3,10) [OF m'(2)]
    by (simp add: setupFileFilter_def find_None_iff) blast
qed

lemma mark_ops_inv:
  assumes inv: "storage_inv limit st"
  shows "storage_inv limit (markPieceMissing i st)" "geometry (smap (markPieceMissing i st)) = geometry (smap st)"
    "storage_inv limit (markAllPiecesDone st)" "geometry (smap (markAllPiecesDone st)) = geometry (smap st)"
    "storage_inv limit (clearFileFilter st)" "geometry (smap (clearFileFilter st)) = geometry (smap st)"
proof -
  note bi = storage_invD(1) [OF inv]
  have g: "geometry (setAllBit (smap st)) = geometry (smap st)" "geometry (clearFilter (smap st)) = geometry (smap st)"
    using geometry_exec [of SetAllBit "smap st"] geometry_exec [of ClearFilter "smap st"] by simp_all
  show "storage_inv limit (markPieceMissing i st)" unfolding markPieceMissing_def
    by (rule storage_inv_smap [OF inv]) (use bi set_ops_inv set_ops_views in simp_all)
  show "storage_inv limit (markAllPiecesDone st)" unfolding markAllPiecesDone_def
    by (rule storage_inv_smap [OF inv]) (use bi g setAll_inv setAll_views in simp_all)
  show "storage_inv limit (clearFileFilter st)" unfolding clearFileFilter_def
    by (rule storage_inv_smap [OF inv]) (use bi g switch_filter_inv switch_filter_views in simp_all)
  show "geometry (smap (markPieceMissing i st)) = geometry (smap st)"
    "geometry (smap (markAllPiecesDone st)) = geometry (smap st)"
    "geometry (smap (clearFileFilter st)) = geometry (smap st)"
    using g by (simp_all add: markPieceMissing_def markAllPiecesDone_def clearFileFilter_def)
qed

lemma stats_ops_inv:
  "storage_inv limit (pst_addPieceStats bf st) = storage_inv limit st"
  "storage_inv limit (pst_subtractPieceStats bf st) = storage_inv limit st"
  by (simp_all add: pst_addPieceStats_def pst_subtractPieceStats_def)

lemma geometry_on_used:
  assumes "\<And>p. geometry (smap (f p st)) = geometry (smap st)"
  shows "geometry (smap (on_used i f st)) = geometry (smap st)"
  using assms by (auto simp: on_used_def split: option.split)

lemma deleteUsedPiece_smap: "smap (fst (deleteUsedPiece p st)) = smap st"
  by (simp add: deleteUsedPiece_def case_prod_beta Let_def)

lemma geometry_complete_cancel:
  "geometry (smap (fst (completePiece p st))) = geometry (smap st)"
  "geometry (smap (fst (cancelPiece p cuid st))) = geometry (smap st)"
  by (simp_all add: completePiece_def cancelPiece_def case_prod_beta Let_def pst_addPieceStat_def deleteUsedPiece_smap)

lemma no_cache_off:
  "updateWrCache writeTo False data offset len capacity goff p s = Some s"
  "appendWrCache writeTo False goff data p s = Some (s, 0)"
  by (simp_all add: updateWrCache_def appendWrCache_def)

text \<open>Caching for one piece is a step of the write cache's machine.\<close>

lemma on_entry_inv:
  fixes st :: "('h, 'd) piece_storage"
  assumes inv: "storage_inv limit st"
    and op: "\<And>P p (s :: 'd wr_state). pst_hasCache st \<Longrightarrow> P i = p \<Longrightarrow>
      cache_exec writeTo op (P, s) = map_option (Pair (P :: nat \<Rightarrow> 'h piece)) (f p s)"
    and legal: "\<And>p ent (P :: nat \<Rightarrow> 'h piece). pst_hasCache st \<Longrightarrow> findUsedPiece st i = Some p \<Longrightarrow> pc_wrCache p = Some ent \<Longrightarrow>
      wc_limit (ws_cache (pst_cache st)) = limit \<Longrightarrow> P i = p \<Longrightarrow> cache_legal limit op (P, pst_cache st)"
    and off: "\<And>p s. \<not> pst_hasCache st \<Longrightarrow> f p s = Some s"
  shows "\<exists>st'. on_entry i f st = Some st' \<and> storage_inv limit st' \<and> smap st' = smap st"
proof (cases "findUsedPiece st i")
  case None
  then show ?thesis using inv by (simp add: on_entry_def)
next
  case (Some p)
  show ?thesis
  proof (cases "pc_wrCache p = None \<or> \<not> pst_hasCache st")
    case True
    then show ?thesis using Some inv off by (auto simp: on_entry_def)
  next
    case False
    then obtain ent where ent: "pc_wrCache p = Some ent" and hc: "pst_hasCache st" by auto
    let ?P = "pool_of (piece_at (pst_used st))"
    note I = storage_invD [OF inv]
    have pool: "pool_inv limit (?P, pst_cache st)" and lim: "limit < 2 ^ 64"
      using I(5) hc by (simp_all add: cache_ok_def)
    have Pi: "?P i = p" using Some by (simp add: findUsedPiece_at)
    have legal': "cache_legal limit op (?P, pst_cache st)"
      by (rule legal [where P = ?P and p = p and ent = ent, OF hc Some ent pool_invD(2) [OF pool] Pi])
    obtain c where c: "cache_exec writeTo op (?P, pst_cache st) = Some c" "pool_inv limit c"
      using cache_exec_inv [OF pool lim legal', of writeTo] by blast
    then obtain s' where s': "f p (pst_cache st) = Some s'" "pool_inv limit (?P, s')"
      using op [where P = ?P, OF hc Pi] by auto
    have "storage_inv limit (st\<lparr>pst_cache := s'\<rparr>)"
      using I s'(2) lim hc by (simp add: storage_inv_def cache_ok_def)
    then show ?thesis using Some ent s'(1) by (simp add: on_entry_def)
  qed
qed

lemma storage_exec_inv:
  fixes st :: "('h, 'd) piece_storage"
  assumes inv: "nonempty_inv limit st" and legal: "storage_legal st op"
    and fresh: "\<And>s. alloc s \<notin> centries s" and sh: "\<And>xs. mset (shuffle xs) = mset xs"
  shows "\<exists>st'. storage_exec writeTo alloc shuffle op st = Some st' \<and> nonempty_inv limit st'"
proof -
  have i: "storage_inv limit st" and n: "0 < bm_blocks (smap st)" using inv by (simp_all add: nonempty_inv_def)
  have ok: "nonempty_inv limit st'" if "storage_inv limit st'" "geometry (smap st') = geometry (smap st)"
    for st' :: "('h, 'd) piece_storage"
    using that n blocks_geometry [OF that(2)] by (simp add: nonempty_inv_def)
  show ?thesis
  proof (cases op)
    case (OGet k bf cuid)
    then have l: "length bf = bm_bitfieldLength (smap st)"
      "\<not> pst_endGame st \<Longrightarrow> sel_legal (pst_stats st, pst_selector st) (bm_blocks (smap st))" using legal by simp_all
    from getMissingPieces_spec [OF i fresh sh n l, of writeTo k cuid]
    obtain st' ps where "getMissingPieces writeTo alloc shuffle k bf cuid st = Some (st', ps)" "storage_inv limit st'"
      "handed_out st cuid st' ps" by blast
    then show ?thesis using ok [of st'] OGet by (simp add: handed_out_def)
  next
    case (OAt j cuid)
    then have "j < bm_blocks (smap st)" using legal by simp
    from getMissingPieceAt_spec [OF i fresh this, of writeTo cuid]
    obtain st' r where r: "getMissingPieceAt writeTo alloc j cuid st = Some (st', r)" "storage_inv limit st'"
      "r = None \<longrightarrow> st' = st" "\<forall>p. r = Some p \<longrightarrow> checked_out st j cuid st' p" by blast
    have "geometry (smap st') = geometry (smap st)"
      using r(3,4) checked_outD(4) [OF i _ \<open>j < bm_blocks (smap st)\<close>] by (cases r) auto
    then show ?thesis using r(1,2) OAt ok by simp
  next
    case (OStream start fuel rnd ms ig cuid)
    then obtain sel where sel: "pst_stream st = Some sel" "stream_legal (start, fuel, rnd, sel) (smap st)"
      using legal by (auto split: option.splits)
    from getMissingPieceSplit_spec [OF i fresh n sel, of writeTo ms ig cuid]
    obtain st' r where "getMissingPieceSplit writeTo alloc start fuel rnd ms ig cuid st = Some (st', r)"
      "storage_inv limit st'" "geometry (smap st') = geometry (smap st)" by blast
    then show ?thesis using OStream ok by simp
  next
    case (OComplete j)
    have "storage_inv limit (fst (completePiece p st))" if "piece_at (pst_used st) j = Some p" for p
      using completePiece_spec(1) [OF i that] by (metis prod.exhaust_sel)
    then have "storage_inv limit (on_used j (\<lambda>p st. fst (completePiece p st)) st)" by (rule on_used_inv [OF i])
    moreover have "geometry (smap (on_used j (\<lambda>p st. fst (completePiece p st)) st)) = geometry (smap st)"
      by (rule geometry_on_used) (rule geometry_complete_cancel(1))
    ultimately show ?thesis using ok OComplete by simp
  next
    case (OCancel j cuid)
    have "storage_inv limit (fst (cancelPiece p cuid st))" if "piece_at (pst_used st) j = Some p" for p
      using cancelPiece_spec [OF i that] by (metis prod.exhaust_sel)
    then have "storage_inv limit (on_used j (\<lambda>p st. fst (cancelPiece p cuid st)) st)" by (rule on_used_inv [OF i])
    moreover have "geometry (smap (on_used j (\<lambda>p st. fst (cancelPiece p cuid st)) st)) = geometry (smap st)"
      by (rule geometry_on_used) (rule geometry_complete_cancel(2))
    ultimately show ?thesis using ok OCancel by simp
  next
    case (OFilter fes)
    with setupFileFilter_spec [OF i n, of fes] legal ok show ?thesis by auto
  next
    case (OFlush rel)
    with flush_storage_inv(1) [OF i, of writeTo rel] ok show ?thesis by auto
  next
    case OFlushCompleted
    with flush_storage_inv(2) [OF i, of writeTo] ok show ?thesis by auto
  next
    case (OBlock j b)
    have "storage_inv limit (on_used j (\<lambda>p. put_used (completeBlock b p)) st)" by (rule on_used_inv [OF i]) (rule work_inv(1) [OF i])
    moreover have "geometry (smap (on_used j (\<lambda>p. put_used (completeBlock b p)) st)) = geometry (smap st)"
      by (rule geometry_on_used) simp
    ultimately show ?thesis using ok OBlock by simp
  next
    case (OSegment j)
    have "storage_inv limit (on_used j (\<lambda>p. put_used (p\<lparr>pc_usedBySegment := True\<rparr>)) st)" by (rule on_used_inv [OF i]) (rule work_inv(2) [OF i])
    moreover have "geometry (smap (on_used j (\<lambda>p. put_used (p\<lparr>pc_usedBySegment := True\<rparr>)) st)) = geometry (smap st)"
      by (rule geometry_on_used) simp
    ultimately show ?thesis using ok OSegment by simp
  next
    case (OCell j c)
    have "\<exists>st'. storage_exec writeTo alloc shuffle op st = Some st' \<and> storage_inv limit st' \<and> smap st' = smap st"
      unfolding OCell storage_exec.simps
      by (rule on_entry_inv [OF i, where op = "CUpdate j c" and writeTo = writeTo])
        (use legal OCell in \<open>auto simp: no_cache_off\<close>)
    then show ?thesis using ok by auto
  next
    case (OAppend j goff data)
    have "\<exists>st'. storage_exec writeTo alloc shuffle op st = Some st' \<and> storage_inv limit st' \<and> smap st' = smap st"
      unfolding OAppend storage_exec.simps
      by (rule on_entry_inv [OF i, where op = "CAppend j goff data" and writeTo = writeTo])
        (use legal OAppend in \<open>auto simp: no_cache_off option.map_comp comp_def case_prod_unfold\<close>)
    then show ?thesis using ok by auto
  qed (use ok enterEndGame_inv [OF i] mark_ops_inv [OF i] stats_ops_inv [of limit _ st] i in simp_all)
qed

lemma storage_reach_inv:
  assumes "storage_reach writeTo alloc shuffle limit st" and "limit < 2 ^ 64"
    and "\<And>s. alloc s \<notin> centries s" and "\<And>xs. mset (shuffle xs) = mset xs"
  shows "nonempty_inv limit st"
  using assms(1)
proof (induction rule: storage_reach.induct)
  case (start pieceLength totalLength cache hasCache order opt hashType inMemory adaptor)
  then show ?case using storage_start assms(2) by blast
next
  case (step st op st')
  then show ?case using storage_exec_inv [OF step.IH step.hyps(2) assms(3,4), of writeTo] by auto
qed

end
