(* ===== verification/StorageFlush.thy ===== *)
theory StorageFlush
  imports StorageMachine
begin

text \<open>
  What a flush of the piece storage leaves on disk: the invariant that the write cache and the
  disk together hold the bytes of the downloads is kept by every entry that is flushed and
  released, so that a flush that releases all entries leaves those bytes on disk.
\<close>

text \<open>
  \<open>v\<close> is what has been written; every entry on the adaptor \<open>a\<close> belongs to a piece of the pool.
\<close>

definition flush_safe :: "nat \<Rightarrow> (nat \<Rightarrow> 'd \<Rightarrow> int \<Rightarrow> byte) \<Rightarrow> (nat \<Rightarrow> 'd \<Rightarrow> int \<Rightarrow> bool) \<Rightarrow>
    (nat \<Rightarrow> int \<Rightarrow> byte) \<Rightarrow> nat \<Rightarrow> ('h, 'd) pool \<Rightarrow> bool" where
  "flush_safe limit content fits v a c \<longleftrightarrow> (case c of (P, s) \<Rightarrow>
     pool_inv limit (P, s) \<and> represents content s v \<and> roomed fits s \<and>
     (\<forall>k\<in>centries s. we_adaptor (ws_ents s k) = a \<longrightarrow> (\<exists>i. pc_wrCache (P i) = Some k)))"

context cached_disk
begin

lemma flush_one:
  assumes safe: "flush_safe limit content fits v a (P, s)" and lim: "limit < 2 ^ 64"
    and ent: "pc_wrCache (P i) = Some ent"
  shows "\<exists>s'. flushWrCache writeTo True (P i) s = Some s' \<and> flush_safe limit content fits v a (P, s') \<and>
    flush_safe limit content fits v a (P(i := (P i)\<lparr>pc_wrCache := None\<rparr>), snd (releaseWrCache True (P i) s'))"
proof -
  have inv: "pool_inv limit (P, s)" and rep: "represents content s v" and room: "roomed fits s"
    and own: "\<forall>k\<in>centries s. we_adaptor (ws_ents s k) = a \<longrightarrow> (\<exists>i. pc_wrCache (P i) = Some k)"
    using safe by (simp_all add: flush_safe_def)
  have small: "wc_limit (ws_cache s) < 2 ^ 64" using pool_invD(2) [OF inv] lim by simp
  from flushWrCache_spec [OF pool_invD(1) [OF inv] ent pool_invD(4) [OF inv ent] small, of writeTo]
  obtain s' where s': "flushWrCache writeTo True (P i) s = Some s'" "centries s' = centries s"
      "we_set (ws_ents s' ent) = []" "we_adaptor (ws_ents s' ent) = we_adaptor (ws_ents s ent)"
      "\<forall>k. k \<noteq> ent \<longrightarrow> ws_ents s' k = ws_ents s k" by blast
  have fl: "cache_legal limit (CFlush i) (P, s)" "cache_exec writeTo (CFlush i) (P, s) = Some (P, s')"
    using ent s'(1) by simp_all
  obtain c' where "cache_exec writeTo (CFlush i) (P, s) = Some c'" "pool_inv limit c'"
    using cache_exec_inv [OF inv lim fl(1), of writeTo] by blast
  then have inv': "pool_inv limit (P, s')" using fl(2) by simp
  have rep': "represents content s' v \<and> roomed fits s'"
    using cache_exec_represents [OF inv lim fl(1) _ rep room fl(2)] by simp
  have adaptor: "we_adaptor (ws_ents s' k) = we_adaptor (ws_ents s k)" for k
    using s'(4,5) by (cases "k = ent") simp_all
  have one: "flush_safe limit content fits v a (P, s')"
    using inv' rep' own by (simp add: flush_safe_def s'(2) adaptor)
  from releaseWrCache_spec [OF pool_invD(1) [OF inv'] ent pool_invD(4) [OF inv' ent]]
  obtain t where t: "releaseWrCache True (P i) s' = ((P i)\<lparr>pc_wrCache := None\<rparr>, t)"
      "centries t = centries s' - {ent}" "\<forall>k. k \<noteq> ent \<longrightarrow> ws_ents t k = ws_ents s' k" by blast
  let ?P = "P(i := (P i)\<lparr>pc_wrCache := None\<rparr>)"
  have rl: "cache_legal limit (CRelease i) (P, s')" "cache_fits fits (CRelease i) (P, s')"
    "cache_exec writeTo (CRelease i) (P, s') = Some (?P, t)"
    using t(1) ent s'(3) by simp_all
  obtain c'' where "cache_exec writeTo (CRelease i) (P, s') = Some c''" "pool_inv limit c''"
    using cache_exec_inv [OF inv' lim rl(1), of writeTo] by blast
  then have inv'': "pool_inv limit (?P, t)" using rl(3) by simp
  have rep'': "represents content t v \<and> roomed fits t"
    using cache_exec_represents [OF inv' lim rl(1,2) conjunct1 [OF rep'] conjunct2 [OF rep'] rl(3)] by simp
  have "\<exists>j. pc_wrCache (?P j) = Some k" if k: "k \<in> centries t" "we_adaptor (ws_ents t k) = a" for k
  proof -
    have k': "k \<noteq> ent" "k \<in> centries s" "we_adaptor (ws_ents s k) = a"
      using k t(2,3) s'(2) adaptor by auto
    then obtain j where "pc_wrCache (P j) = Some k" using own by blast
    then show ?thesis using k'(1) ent by (intro exI [of _ j]) auto
  qed
  then have "flush_safe limit content fits v a (?P, t)"
    using inv'' rep'' by (simp add: flush_safe_def)
  then show ?thesis using s'(1) one t(1) by (intro exI [of _ s']) simp
qed

lemma safe_flush_stable:
  assumes "limit < 2 ^ 64"
  shows "flush_stable writeTo (flush_safe limit content fits v a)"
  unfolding flush_stable_def using flush_one [OF _ assms] by blast

lemma nothing_cached:
  assumes "represents content s v" and "\<forall>k\<in>centries s. we_adaptor (ws_ents s k) \<noteq> a"
  shows "content a (ws_disk s) = v a"
proof -
  have "\<not> cached s a c" for c using assms(2) by (auto simp: cached_def)
  then show ?thesis using assms(1) by (auto simp: represents_def)
qed

end

text \<open>A piece that is not in use has no entry.\<close>

lemma pool_of_entry: "pc_wrCache (pool_of U i) = Some ent \<Longrightarrow> \<exists>p. U i = Some p \<and> pc_wrCache p = Some ent"
  by (cases "U i") (simp_all add: piece_new_def)

end
