(* ===== verification/StorageProgress.thy ===== *)
theory StorageProgress
  imports PieceStorageProps
begin

text \<open>
  Lengths of a download, resuming from a length (\<open>markPiecesDone\<close>) and the queue of advertised
  pieces.
\<close>

subsection \<open>Lengths\<close>

lemma fold_int64_sum:
  fixes f :: "'a \<Rightarrow> int"
  assumes "\<forall>x\<in>set xs. 0 \<le> f x" and "0 \<le> a" and "a + sum_list (map f xs) < 2 ^ 63"
  shows "fold (\<lambda>x acc. int64_of (acc + f x)) xs a = a + sum_list (map f xs)"
  using assms
proof (induction xs arbitrary: a)
  case (Cons x xs)
  have "0 \<le> sum_list (map f xs)" using Cons.prems(1) by (intro sum_list_nonneg) auto
  then have "int64_of (a + f x) = a + f x" using Cons.prems by simp
  then show ?case using Cons by (simp add: add.assoc)
qed simp

lemma haves_length_bounds:
  assumes "bm_inv m"
  shows "0 \<le> bm_cachedCompletedLength m" "bm_totalLength m \<ge> 0 \<Longrightarrow> bm_cachedCompletedLength m \<le> bm_totalLength m"
proof -
  note sh = bm_invD(1) [OF assms]
  have pos: "0 \<le> getBlockLength m i" if "i < bm_blocks m" for i using getBlockLength_bounds(1) [OF sh that] by simp
  have eq: "bm_cachedCompletedLength m = (\<Sum>i\<in>haves m. getBlockLength m i)" using cached_meaning(4) [OF assms] .
  show "0 \<le> bm_cachedCompletedLength m" unfolding eq by (rule sum_nonneg) (use pos views_less(1) in blast)
  show "bm_cachedCompletedLength m \<le> bm_totalLength m" if "0 \<le> bm_totalLength m"
  proof (cases "bm_blocks m = 0")
    case True
    then have "haves m = {}" using views_less(1) by fastforce
    then show ?thesis using eq that by simp
  next
    case False
    have "(\<Sum>i\<in>haves m. getBlockLength m i) \<le> (\<Sum>i<bm_blocks m. getBlockLength m i)"
      by (rule sum_mono2) (use pos views_less(1) in auto)
    then show ?thesis using sum_all_blocks [OF sh] False eq by simp
  qed
qed

lemma piece_completed_bounds:
  assumes "bm_inv m" and "piece_fits m i p"
  shows "0 \<le> piece_getCompletedLength p" "piece_getCompletedLength p \<le> getBlockLength m i"
proof -
  have f: "bm_inv (pc_bitfield p)" "bm_totalLength (pc_bitfield p) = getBlockLength m i" "i < bm_blocks m"
    using assms(2) by (simp_all add: piece_fits_def piece_inv_def)
  show "0 \<le> piece_getCompletedLength p" "piece_getCompletedLength p \<le> getBlockLength m i"
    using haves_length_bounds [OF f(1)] f(2) getBlockLength_bounds(1) [OF bm_invD(1) [OF assms(1)] f(3)]
    by (simp_all add: piece_getCompletedLength_def)
qed

definition in_flight :: "('h, 'd) piece_storage \<Rightarrow> int" where
  "in_flight st = (\<Sum>p\<leftarrow>pst_used st. piece_getCompletedLength p)"

lemma sum_list_used:
  assumes "used_sorted ps"
  shows "(\<Sum>p\<leftarrow>ps. f (pc_index p)) = (\<Sum>i\<in>idxs ps. f i)"
proof -
  have "distinct (map pc_index ps)" using assms strict_sorted_iff by blast
  then have "(\<Sum>i\<leftarrow>map pc_index ps. f i) = (\<Sum>i\<in>idxs ps. f i)"
    by (simp only: sum_list_distinct_conv_sum_set set_map)
  then show ?thesis by (simp add: comp_def)
qed

lemma in_flight_bounds:
  assumes inv: "storage_inv limit st"
  shows "0 \<le> in_flight st" "in_flight st \<le> (\<Sum>i\<in>idxs (pst_used st). getBlockLength (smap st) i)"
    "idxs (pst_used st) \<subseteq> {..<bm_blocks (smap st)}"
proof -
  note I = storage_invD [OF inv]
  have fit: "piece_fits (smap st) (pc_index p) p" if "p \<in> set (pst_used st)" for p
    using I(3) set_piece_at [OF I(2)] that by blast
  have b: "0 \<le> piece_getCompletedLength p" "piece_getCompletedLength p \<le> getBlockLength (smap st) (pc_index p)"
    if "p \<in> set (pst_used st)" for p
    using piece_completed_bounds [OF I(1) fit [OF that]] .
  show "0 \<le> in_flight st" unfolding in_flight_def by (rule sum_list_nonneg) (use b in auto)
  show "in_flight st \<le> (\<Sum>i\<in>idxs (pst_used st). getBlockLength (smap st) i)"
    unfolding in_flight_def sum_list_used [OF I(2), symmetric] by (rule sum_list_mono) (use b in auto)
  show "idxs (pst_used st) \<subseteq> {..<bm_blocks (smap st)}" using fit by (auto simp: piece_fits_def)
qed

lemma sum_blocks_le_total:
  assumes "bm_inv m" and "S \<subseteq> {..<bm_blocks m}" and "0 \<le> bm_totalLength m"
  shows "0 \<le> (\<Sum>i\<in>S. getBlockLength m i)" "(\<Sum>i\<in>S. getBlockLength m i) \<le> bm_totalLength m"
proof -
  note sh = bm_invD(1) [OF assms(1)]
  have pos: "0 \<le> getBlockLength m i" if "i < bm_blocks m" for i using getBlockLength_bounds(1) [OF sh that] by simp
  show "0 \<le> (\<Sum>i\<in>S. getBlockLength m i)" by (rule sum_nonneg) (use pos assms(2) in blast)
  show "(\<Sum>i\<in>S. getBlockLength m i) \<le> bm_totalLength m"
  proof (cases "bm_blocks m = 0")
    case True
    then show ?thesis using assms(2,3) by simp
  next
    case False
    have "(\<Sum>i\<in>S. getBlockLength m i) \<le> (\<Sum>i<bm_blocks m. getBlockLength m i)"
      by (rule sum_mono2) (use pos assms(2) in auto)
    then show ?thesis using sum_all_blocks [OF sh] False by simp
  qed
qed

lemma completed_length_eq:
  assumes inv: "storage_inv limit st" and n: "0 < bm_blocks (smap st)"
  defines "m \<equiv> smap st" and "have \<equiv> (\<Sum>i\<in>haves (smap st). getBlockLength (smap st) i)"
  shows "have + in_flight st < 2 ^ 63 \<Longrightarrow> pst_getCompletedLength st = min (have + in_flight st) (bm_totalLength m)"
    and "haves m \<inter> idxs (pst_used st) = {} \<Longrightarrow> have + in_flight st \<le> bm_totalLength m"
    and "0 \<le> have" "have \<le> bm_totalLength m" "in_flight st \<le> bm_totalLength m"
proof -
  note I = storage_invD [OF inv]
  note F = in_flight_bounds [OF inv]
  have tot: "0 < bm_totalLength m" "bm_totalLength m < 2 ^ 63"
    using bm_blocks_ceil(2) [OF bm_invD(1) [OF I(1)] n] bm_invD(1) [OF I(1)] by (simp_all add: m_def bm_shape_def)
  have hsub: "haves (smap st) \<subseteq> {..<bm_blocks (smap st)}" using views_less(1) by blast
  note H = sum_blocks_le_total [OF I(1) hsub]
  note U = sum_blocks_le_total [OF I(1) F(3)]
  show have0: "0 \<le> have" "have \<le> bm_totalLength m" and fl: "in_flight st \<le> bm_totalLength m"
    using H U F(2) tot by (simp_all add: have_def m_def)
  have nonneg: "\<forall>p\<in>set (pst_used st). 0 \<le> piece_getCompletedLength p"
    using I(3) set_piece_at [OF I(2)] piece_completed_bounds(1) [OF I(1)] by blast
  have "getInFlightPieceCompletedLength st = in_flight st"
    using fold_int64_sum [OF nonneg, of 0] fl tot by (simp add: getInFlightPieceCompletedLength_def in_flight_def)
  then show "pst_getCompletedLength st = min (have + in_flight st) (bm_totalLength m)" if "have + in_flight st < 2 ^ 63"
    using that have0(1) F(1) cached_meaning(4) [OF I(1)]
    by (simp add: pst_getCompletedLength_def pst_getTotalLength_def Let_def m_def have_def)
  show "have + in_flight st \<le> bm_totalLength m" if d: "haves m \<inter> idxs (pst_used st) = {}"
  proof -
    have "have + (\<Sum>i\<in>idxs (pst_used st). getBlockLength (smap st) i) =
        (\<Sum>i\<in>haves (smap st) \<union> idxs (pst_used st). getBlockLength (smap st) i)"
      unfolding have_def by (rule sum.union_disjoint [symmetric]) (use d m_def in auto)
    moreover have "\<dots> \<le> bm_totalLength (smap st)"
      by (rule sum_blocks_le_total(2) [OF I(1)]) (use hsub F(3) tot m_def in auto)
    ultimately show ?thesis using F(2) by (simp add: m_def)
  qed
qed

subsection \<open>Resuming from a length\<close>

lemma completeBlocks_haves:
  assumes "piece_inv p" and "r \<le> countBlock p"
  shows "piece_inv (fold completeBlock [0..<r] p)" "phaves (fold completeBlock [0..<r] p) = phaves p \<union> {..<r}"
    "countBlock (fold completeBlock [0..<r] p) = countBlock p" "pc_index (fold completeBlock [0..<r] p) = pc_index p"
    "geometry (pc_bitfield (fold completeBlock [0..<r] p)) = geometry (pc_bitfield p)"
    "pc_wrCache (fold completeBlock [0..<r] p) = pc_wrCache p" "pc_users (fold completeBlock [0..<r] p) = pc_users p"
    "pc_length (fold completeBlock [0..<r] p) = pc_length p"
proof -
  have "piece_inv (fold completeBlock [0..<r] p) \<and> phaves (fold completeBlock [0..<r] p) = phaves p \<union> {..<r} \<and>
    countBlock (fold completeBlock [0..<r] p) = countBlock p \<and> pc_index (fold completeBlock [0..<r] p) = pc_index p \<and>
    geometry (pc_bitfield (fold completeBlock [0..<r] p)) = geometry (pc_bitfield p) \<and>
    pc_wrCache (fold completeBlock [0..<r] p) = pc_wrCache p \<and> pc_users (fold completeBlock [0..<r] p) = pc_users p \<and>
    pc_length (fold completeBlock [0..<r] p) = pc_length p"
    using assms(2)
  proof (induction r)
    case (Suc r)
    let ?q = "fold completeBlock [0..<r] p"
    have q: "piece_inv ?q" "phaves ?q = phaves p \<union> {..<r}" "countBlock ?q = countBlock p" "pc_index ?q = pc_index p"
      "geometry (pc_bitfield ?q) = geometry (pc_bitfield p)" "pc_wrCache ?q = pc_wrCache p" "pc_users ?q = pc_users p"
      "pc_length ?q = pc_length p"
      using Suc by simp_all
    have fields: "pc_index (completeBlock r ?q) = pc_index ?q" "pc_wrCache (completeBlock r ?q) = pc_wrCache ?q"
      "pc_users (completeBlock r ?q) = pc_users ?q" "pc_length (completeBlock r ?q) = pc_length ?q"
      "countBlock (completeBlock r ?q) = countBlock ?q" "geometry (pc_bitfield (completeBlock r ?q)) = geometry (pc_bitfield ?q)"
      by (simp_all add: completeBlock_def Let_def countBlock_def)
    have r: "r < countBlock p" using Suc.prems by simp
    have "phaves (completeBlock r ?q) = phaves p \<union> {..<Suc r}"
      using block_ops_views(1) [OF q(1), of r] q(2,3) r by (auto simp: lessThan_Suc)
    then show ?case using block_ops_inv(1) [OF q(1)] fields q by simp
  qed (use assms(1) in simp)
  then show "piece_inv (fold completeBlock [0..<r] p)" "phaves (fold completeBlock [0..<r] p) = phaves p \<union> {..<r}"
    "countBlock (fold completeBlock [0..<r] p) = countBlock p" "pc_index (fold completeBlock [0..<r] p) = pc_index p"
    "geometry (pc_bitfield (fold completeBlock [0..<r] p)) = geometry (pc_bitfield p)"
    "pc_wrCache (fold completeBlock [0..<r] p) = pc_wrCache p" "pc_users (fold completeBlock [0..<r] p) = pc_users p"
    "pc_length (fold completeBlock [0..<r] p) = pc_length p" by blast+
qed

text \<open>The length of the first blocks, none of which is the last.\<close>

lemma first_blocks_length:
  assumes "bm_inv m" and "n < bm_blocks m"
  shows "(\<Sum>i<n. getBlockLength m i) = int n * bm_blockLength m"
proof -
  have "getBlockLength m i = bm_blockLength m" if "i < n" for i
  proof -
    have "i \<noteq> bm_blocks m - 1" using assms(2) that by linarith
    then show ?thesis using getBlockLength_in [of m i] assms(2) that by simp
  qed
  then show ?thesis by simp
qed

text \<open>Where a length in the middle of the download falls.\<close>

lemma resume_point:
  assumes inv: "bm_inv m" and len: "0 < len" "len < bm_totalLength m" and n: "0 < bm_blocks m"
  defines "np \<equiv> nat (len div bm_blockLength m)" and "r \<equiv> nat (len mod bm_blockLength m div BLOCK_LENGTH)"
  shows "size_of_int (len sdiv bm_blockLength m) = np" "size_of_int (len smod bm_blockLength m sdiv BLOCK_LENGTH) = r"
    "np < bm_blocks m" "int r * BLOCK_LENGTH < getBlockLength m np"
    "int np * bm_blockLength m + int r * BLOCK_LENGTH \<le> len" "len < int np * bm_blockLength m + int r * BLOCK_LENGTH + BLOCK_LENGTH"
proof -
  note sh = bm_invD(1) [OF inv]
  have b: "0 < bm_blockLength m" "bm_blockLength m < 2 ^ 31" using bm_blocks_ceil(1) [OF sh n] sh by (simp_all add: bm_shape_def)
  have t: "bm_totalLength m < 2 ^ 63" using sh by (simp add: bm_shape_def)
  have blocks: "int (bm_blocks m) = (bm_totalLength m + bm_blockLength m - 1) div bm_blockLength m"
    using bm_blocks_ceil(3) [OF sh n] .
  have md: "0 \<le> len mod bm_blockLength m" "len mod bm_blockLength m < bm_blockLength m" using b by simp_all
  have q: "0 \<le> len div bm_blockLength m" "len div bm_blockLength m < int (bm_blocks m)"
    using len b div_less_ceil [OF b(1), of len "bm_totalLength m"] blocks by (simp_all add: pos_imp_zdiv_nonneg_iff)
  then show np: "np < bm_blocks m" by (simp add: np_def)
  show "size_of_int (len sdiv bm_blockLength m) = np"
    using size_of_div [of len "bm_blockLength m"] len b t by (simp add: np_def)
  have "len smod bm_blockLength m = len mod bm_blockLength m"
    using len b by (simp add: signed_modulo_int_def sdiv_nonneg minus_div_mult_eq_mod)
  then show "size_of_int (len smod bm_blockLength m sdiv BLOCK_LENGTH) = r"
    using size_of_div [of "len mod bm_blockLength m" BLOCK_LENGTH, OF md(1)] order_less_trans [OF md(2), of "2 ^ 64"] b
    by (simp add: r_def)
  have split: "int np * bm_blockLength m + len mod bm_blockLength m = len"
    using q(1) by (simp add: np_def)
  have r: "int r * BLOCK_LENGTH \<le> len mod bm_blockLength m" "len mod bm_blockLength m < int r * BLOCK_LENGTH + BLOCK_LENGTH"
  proof -
    have ir: "int r = len mod bm_blockLength m div BLOCK_LENGTH"
      using md(1) by (simp add: r_def pos_imp_zdiv_nonneg_iff)
    show "int r * BLOCK_LENGTH \<le> len mod bm_blockLength m"
      by (rule iffD1 [OF le_div_iff]) (simp_all add: ir)
    have "len mod bm_blockLength m < (int r + 1) * BLOCK_LENGTH"
      by (rule iffD1 [OF div_less_iff]) (simp_all add: ir)
    then show "len mod bm_blockLength m < int r * BLOCK_LENGTH + BLOCK_LENGTH" by simp
  qed
  show "int np * bm_blockLength m + int r * BLOCK_LENGTH \<le> len" "len < int np * bm_blockLength m + int r * BLOCK_LENGTH + BLOCK_LENGTH"
    using r split by linarith+
  have "len mod bm_blockLength m < getBlockLength m np"
  proof (cases "np = bm_blocks m - 1")
    case True
    then have "getBlockLength m np = bm_totalLength m - bm_blockLength m * int np"
      using getBlockLength_in [OF n np] getLastBlockLength_rest(1) [OF sh n] by simp
    then show ?thesis using split len(2) by (simp add: mult.commute)
  next
    case False
    then show ?thesis using getBlockLength_in [OF n np] md(2) by simp
  qed
  then show "int r * BLOCK_LENGTH < getBlockLength m np" using r(1) by linarith
qed

lemma setBitRange_uses:
  assumes "bm_inv m"
  shows "uses (setBitRange m a b) = uses m" "filts (setBitRange m a b) = filts m"
    "selected (setBitRange m a b) = selected m"
proof -
  have "uses (fold (\<lambda>i m. fst (setBit m i)) is m) = uses m \<and> filts (fold (\<lambda>i m. fst (setBit m i)) is m) = filts m \<and>
      selected (fold (\<lambda>i m. fst (setBit m i)) is m) = selected m" for "is"
    using assms
  proof (induction "is" arbitrary: m)
    case (Cons i "is")
    then show ?case using set_ops_inv(1) [of m i] set_ops_views(2,3) [of m i] by (simp add: selected_def)
  qed simp
  then show "uses (setBitRange m a b) = uses m" "filts (setBitRange m a b) = filts m"
    "selected (setBitRange m a b) = selected m"
    by (simp_all add: setBitRange_def)
qed

lemma geometry_setBitRange: "geometry (setBitRange m a b) = geometry m"
  by (simp add: setBitRange_def)

text \<open>
  \<open>markPiecesDone\<close> on a storage without pieces: whole pieces are had, the whole blocks of the next
  one are in flight.
\<close>

lemma markPiecesDone_spec:
  fixes st :: "('h, 'd) piece_storage"
  assumes inv: "storage_inv limit st" and n: "0 < bm_blocks (smap st)" and len: "0 < len" "len < bm_totalLength (smap st)"
    and empty: "haves (smap st) = {}" "pst_used st = []"
  defines "np \<equiv> nat (len div bm_blockLength (smap st))" and "r \<equiv> nat (len mod bm_blockLength (smap st) div BLOCK_LENGTH)"
  shows "\<exists>st'. markPiecesDone len st = Some st' \<and> storage_inv limit st' \<and> haves (smap st') = {..<np} \<and>
    geometry (smap st') = geometry (smap st) \<and> selected (smap st') = selected (smap st) \<and>
    (if r = 0 then pst_used st' = []
     else \<exists>p. pst_used st' = [p] \<and> pc_index p = np \<and> phaves p = {..<r} \<and> pc_users p = [] \<and>
       piece_getCompletedLength p = int r * BLOCK_LENGTH)"
proof -
  let ?m = "smap st"
  note bi = storage_invD(1) [OF inv]
  note R = resume_point [OF bi len n, folded np_def r_def]
  define m' where "m' = (if np > 0 then setBitRange ?m 0 (np - 1) else ?m)"
  have m': "bm_inv m'" "haves m' = {..<np}" "uses m' = uses ?m" "selected m' = selected ?m" "geometry m' = geometry ?m"
  proof -
    have "{0..np - 1} \<inter> {..<bm_blocks ?m} = {..<np}" if "0 < np" using R(3) that by auto
    then show "bm_inv m'" "haves m' = {..<np}" "uses m' = uses ?m" "selected m' = selected ?m" "geometry m' = geometry ?m"
      using setBitRange_spec [OF bi] setBitRange_uses [OF bi] bi empty(1)
      by (auto simp: m'_def geometry_setBitRange)
  qed
  define st1 where "st1 = st\<lparr>pst_bitfieldMan := m'\<rparr>"
  have st1: "storage_inv limit st1"
    using storage_invD [OF inv] m' empty(2) by (simp add: storage_inv_def st1_def)
  have b: "bm_blockLength ?m \<noteq> 0" using bm_blocks_ceil(1) [OF bm_invD(1) [OF bi] n] by simp
  define p where "p = setHashType (pst_hashType st) (fold completeBlock [0..<r] (piece_new np (getBlockLength ?m np) BLOCK_LENGTH :: 'h piece))"
  have run: "markPiecesDone len st = Some (if r = 0 then st1 else addUsedPiece p st1)"
    using len b R(1,2) by (auto simp: markPiecesDone_def Let_def st1_def m'_def p_def)
  show ?thesis
  proof (cases "r = 0")
    case True
    then show ?thesis using run st1 m' empty(2) by (simp add: st1_def)
  next
    case False
    let ?L = "getBlockLength ?m np" and ?q = "piece_new np (getBlockLength ?m np) BLOCK_LENGTH :: 'h piece"
    have fit0: "piece_fits ?m np (setHashType [] ?q)" by (rule piece_new_fits [OF bi R(3)])
    then have q: "piece_inv ?q" "pc_length ?q = ?L" by (simp_all add: piece_fits_def piece_inv_def)
    note gb = getBlockLength_bounds(1) [OF bm_invD(1) [OF bi] R(3)]
    have qi: "bm_inv (bm_new BLOCK_LENGTH ?L)" using q(1) by (simp add: piece_inv_def piece_new_def)
    have qb: "0 < bm_blocks (bm_new BLOCK_LENGTH ?L)" "int (bm_blocks (bm_new BLOCK_LENGTH ?L)) = (?L + BLOCK_LENGTH - 1) div BLOCK_LENGTH"
      using bm_invD(1) [OF qi] ceil_div_bounds(3) [of BLOCK_LENGTH ?L] gb by (simp_all add: bm_shape_def ceil_blocks_def)
    have "?L \<le> int (bm_blocks (bm_new BLOCK_LENGTH ?L)) * BLOCK_LENGTH"
      using ceil_div_bounds(2) [of BLOCK_LENGTH ?L] gb qb(2) by simp
    then have rb: "r < bm_blocks (bm_new BLOCK_LENGTH ?L)" using R(4) by linarith
    have cb: "countBlock ?q = bm_blocks (bm_new BLOCK_LENGTH ?L)" by (simp add: countBlock_def piece_new_def)
    have rle: "r \<le> countBlock ?q" using rb cb by simp
    note c = completeBlocks_haves [OF q(1) rle]
    have h: "phaves p = {..<r}" using c(2) by (simp add: p_def) (simp add: piece_new_def)
    have geo: "geometry (pc_bitfield p) = geometry (bm_new BLOCK_LENGTH ?L)" using c(5) by (simp add: p_def piece_new_def)
    have pinv: "bm_inv (pc_bitfield p)" using c(1) by (simp add: p_def piece_inv_def)
    have "piece_getCompletedLength p = (\<Sum>i<r. getBlockLength (pc_bitfield p) i)"
      using cached_meaning(4) [OF pinv] h by (simp add: piece_getCompletedLength_def)
    also have "\<dots> = int r * BLOCK_LENGTH"
      using first_blocks_length [OF pinv, of r] rb geo by (simp add: geometry_def)
    finally have pl: "piece_getCompletedLength p = int r * BLOCK_LENGTH" .
    have fields: "pc_index p = np" "pc_users p = []" "pc_wrCache p = None" using c(4,6,7) by (simp_all add: p_def)
    have fits: "piece_fits ?m np p"
      using c(8) q(2) R(3) pinv geo fields(1) by (simp add: piece_fits_def piece_inv_def geometry_def p_def)
    have "storage_inv limit (addUsedPiece p st1)"
    proof -
      have "piece_at [p] = [np \<mapsto> p]" using fields(1) by (auto simp: piece_at_def)
      moreover have "cache_ok limit (pst_hasCache st) [np \<mapsto> p] (pst_cache st)"
        by (rule cache_ok_cong [of _ _ "Map.empty"]) (use storage_invD(5) [OF inv] empty(2) fields in auto)
      moreover have "shared_ok (pst_endGame st) (uses m') [np \<mapsto> p]" using fields(2) by (simp add: shared_ok_def)
      ultimately show ?thesis using m' fits empty(2)
        by (simp add: storage_inv_def addUsedPiece_def st1_def piece_fits_geometry [OF m'(5)])
    qed
    then show ?thesis using False run m' fields(1,2) h pl empty(2)
      by (simp add: addUsedPiece_def st1_def)
  qed
qed

subsection \<open>Advertised pieces\<close>

text \<open>\<open>upper_bound\<close> finds the boundary of a partitioned range.\<close>

lemma upper_bound_loop_spec:
  "\<forall>i<length xs. after (xs ! i) \<longleftrightarrow> k \<le> i \<Longrightarrow> first \<le> k \<Longrightarrow> k \<le> first + len \<Longrightarrow> first + len \<le> length xs \<Longrightarrow>
     upper_bound_loop after xs first len = k"
proof (induction after xs first len rule: upper_bound_loop.induct)
  case (1 after xs first len)
  show ?case
  proof (cases "len = 0")
    case True
    then show ?thesis using "1.prems" by (subst upper_bound_loop.simps) simp
  next
    case False
    then have at: "after (xs ! (first + len div 2)) \<longleftrightarrow> k \<le> first + len div 2" using "1.prems"(1,4) by simp
    then show ?thesis using 1 False by (simp add: upper_bound_loop.simps [of after xs first len] Let_def)
  qed
qed

lemma upper_bound_partition:
  assumes "\<forall>x\<in>set xs. \<not> after x" and "\<forall>x\<in>set ys. after x"
  shows "upper_bound after (xs @ ys) = length xs"
  unfolding upper_bound_def
  by (rule upper_bound_loop_spec) (use assms in \<open>auto simp: nth_append\<close>)

text \<open>Entries in order split at any bound.\<close>

lemma sorted_split:
  fixes f :: "'a \<Rightarrow> 'b :: linorder"
  assumes "sorted (map f xs)"
  shows "xs = filter (\<lambda>x. \<not> v < f x) xs @ filter (\<lambda>x. v < f x) xs"
  using assms
proof (induction xs)
  case (Cons x xs)
  show ?case
  proof (cases "v < f x")
    case True
    then have "filter (\<lambda>x. \<not> v < f x) xs = []" "filter (\<lambda>x. v < f x) xs = xs"
      using Cons.prems by (auto simp: filter_empty_conv filter_id_conv intro: less_le_trans)
    then show ?thesis using True by simp
  next
    case False
    then show ?thesis using Cons by simp
  qed
qed simp

lemma upper_bound_sorted:
  fixes f :: "'a \<Rightarrow> 'b :: linorder"
  assumes "sorted (map f xs)"
  shows "drop (upper_bound (\<lambda>x. v < f x) xs) xs = filter (\<lambda>x. v < f x) xs"
    "upper_bound (\<lambda>x. v < f x) xs = length xs \<longleftrightarrow> filter (\<lambda>x. v < f x) xs = []"
proof -
  let ?a = "filter (\<lambda>x. \<not> v < f x) xs" and ?b = "filter (\<lambda>x. v < f x) xs"
  have split: "xs = ?a @ ?b" by (rule sorted_split [OF assms])
  have ub: "upper_bound (\<lambda>x. v < f x) xs = length ?a"
    by (subst split) (rule upper_bound_partition, auto)
  have "length xs = length ?a + length ?b" using split by (metis length_append)
  then show "upper_bound (\<lambda>x. v < f x) xs = length xs \<longleftrightarrow> ?b = []" using ub by simp
  have "drop (length ?a) (?a @ ?b) = ?b" by simp
  then show "drop (upper_bound (\<lambda>x. v < f x) xs) xs = ?b" using ub split by metis
qed

text \<open>The queue: have indexes grow, so do the times, and the next index is above all.\<close>

definition have_inv :: "('h, 'd) piece_storage \<Rightarrow> bool" where
  "have_inv st \<longleftrightarrow> sorted_wrt (<) (map he_haveIndex (pst_haves st)) \<and> sorted (map he_registeredTime (pst_haves st)) \<and>
     (\<forall>h\<in>set (pst_haves st). he_haveIndex h < pst_nextHaveIndex st)"

lemma getAdvertised_filter:
  fixes lastHave :: nat
  assumes "have_inv st"
  defines "new \<equiv> filter (\<lambda>h. lastHave < he_haveIndex h) (pst_haves st)"
  shows "getAdvertisedPieceIndexes st lastHave =
    (map he_index new, if new = [] then lastHave else he_haveIndex (last (pst_haves st)))"
proof -
  have "sorted (map he_haveIndex (pst_haves st))"
    using assms(1) strict_sorted_imp_sorted by (auto simp: have_inv_def)
  from upper_bound_sorted [OF this, of lastHave] show ?thesis
    by (auto simp: getAdvertisedPieceIndexes_def Let_def new_def)
qed

lemma have_inv_ops:
  assumes "have_inv st"
  shows "pst_nextHaveIndex st + 1 < 2 ^ 64 \<Longrightarrow> \<forall>h\<in>set (pst_haves st). he_registeredTime h \<le> time \<Longrightarrow>
      have_inv (advertisePiece cuid i time st)"
    and "have_inv (removeAdvertisedPiece expiry st)"
    and "pst_haves (removeAdvertisedPiece expiry st) = filter (\<lambda>h. expiry < he_registeredTime h) (pst_haves st)"
proof -
  show "have_inv (advertisePiece cuid i time st)"
    if "pst_nextHaveIndex st + 1 < 2 ^ 64" "\<forall>h\<in>set (pst_haves st). he_registeredTime h \<le> time"
    using assms that by (auto simp: have_inv_def advertisePiece_def sorted_wrt_append sorted_append)
  have srt: "sorted (map he_registeredTime (pst_haves st))" using assms by (simp add: have_inv_def)
  show eq: "pst_haves (removeAdvertisedPiece expiry st) = filter (\<lambda>h. expiry < he_registeredTime h) (pst_haves st)"
    using upper_bound_sorted(1) [OF srt, of expiry] by (simp add: removeAdvertisedPiece_def)
  have next': "pst_nextHaveIndex (removeAdvertisedPiece expiry st) = pst_nextHaveIndex st"
    by (simp add: removeAdvertisedPiece_def)
  show "have_inv (removeAdvertisedPiece expiry st)"
    using assms unfolding have_inv_def eq next'
    by (simp add: sorted_wrt_map sorted_wrt_filter sorted_map)
qed

text \<open>A run of announcements: who, which piece, when.\<close>

definition advertised :: "(int \<times> nat \<times> int) list \<Rightarrow> ('h, 'd) piece_storage \<Rightarrow> ('h, 'd) piece_storage" where
  "advertised evs st = fold (\<lambda>(cuid, index, time). advertisePiece cuid index time) evs st"

definition announced :: "nat \<Rightarrow> (int \<times> nat \<times> int) list \<Rightarrow> have_entry list" where
  "announced n evs = map2 (\<lambda>k (cuid, index, time).
     \<lparr>he_haveIndex = k, he_cuid = cuid, he_index = index, he_registeredTime = time\<rparr>) [n..<n + length evs] evs"

lemma announced_append: "announced n (xs @ ys) = announced n xs @ announced (n + length xs) ys"
  unfolding announced_def length_append add.assoc [symmetric] upt_add_eq_append [OF le_add1]
  by (subst zip_append) simp_all

lemma announced_fields:
  "map he_haveIndex (announced n evs) = [n..<n + length evs]"
  "map he_index (announced n evs) = map (\<lambda>(cuid, index, time). index) evs"
  "map he_registeredTime (announced n evs) = map (\<lambda>(cuid, index, time). time) evs"
  by (auto simp: announced_def intro!: nth_equalityI split: prod.split)

lemma advertised_haves:
  assumes "pst_nextHaveIndex st + length evs < 2 ^ 64"
  shows "pst_haves (advertised evs st) = pst_haves st @ announced (pst_nextHaveIndex st) evs"
    "pst_nextHaveIndex (advertised evs st) = pst_nextHaveIndex st + length evs"
proof -
  have "pst_haves (advertised evs st) = pst_haves st @ announced (pst_nextHaveIndex st) evs \<and>
    pst_nextHaveIndex (advertised evs st) = pst_nextHaveIndex st + length evs"
    using assms
  proof (induction evs rule: rev_induct)
    case Nil
    then show ?case by (simp add: advertised_def announced_def)
  next
    case (snoc e es)
    obtain c i t where e: "e = (c, i, t)" by (cases e)
    have IH: "pst_haves (advertised es st) = pst_haves st @ announced (pst_nextHaveIndex st) es"
      "pst_nextHaveIndex (advertised es st) = pst_nextHaveIndex st + length es"
      using snoc by simp_all
    have step: "advertised (es @ [e]) st = advertisePiece c i t (advertised es st)"
      by (simp add: advertised_def e)
    show ?case
      unfolding step advertisePiece_def announced_append using IH snoc.prems
      by (simp add: announced_def e)
  qed
  then show "pst_haves (advertised evs st) = pst_haves st @ announced (pst_nextHaveIndex st) evs"
    "pst_nextHaveIndex (advertised evs st) = pst_nextHaveIndex st + length evs" by simp_all
qed

lemma filter_announced:
  "k < n \<Longrightarrow> filter (\<lambda>h. k < he_haveIndex h) (announced n evs) = announced n evs"
  "n + length evs \<le> k + 1 \<Longrightarrow> filter (\<lambda>h. k < he_haveIndex h) (announced n evs) = []"
  by (auto simp: announced_def filter_id_conv filter_empty_conv set_zip split: prod.splits)

lemma announced_late:
  "map he_index (filter (\<lambda>h. expiry < he_registeredTime h) (announced n evs)) =
   map (\<lambda>(cuid, index, time). index) (filter (\<lambda>(cuid, index, time). expiry < time) evs)"
proof (induction evs arbitrary: n)
  case (Cons e evs)
  obtain c i t where e: "e = (c, i, t)" by (cases e)
  have "announced n (e # evs) = announced n [e] @ announced (Suc n) evs"
    using announced_append [of n "[e]" evs] by simp
  moreover have "announced n [e] = [\<lparr>he_haveIndex = n, he_cuid = c, he_index = i, he_registeredTime = t\<rparr>]"
    by (simp add: announced_def e)
  ultimately show ?case using Cons.IH [of "Suc n"] by (simp add: e)
qed (simp add: announced_def)

lemma announced_inv:
  assumes "pst_haves st = announced n evs" and "pst_nextHaveIndex st = n + length evs"
    and "sorted (map (\<lambda>(cuid, index, time). time) evs)"
  shows "have_inv st"
proof -
  have "he_haveIndex ` set (announced n evs) = {n..<n + length evs}"
    unfolding set_map [symmetric] announced_fields by simp
  then show ?thesis
    using assms by (auto simp: have_inv_def announced_fields)
qed

end
