(* ===== verification/StorageProperties.thy ===== *)
theory StorageProperties
  imports StorageFlush StorageProgress
begin

text \<open>
  What the piece storage promises, for every state that a download can reach: which pieces it
  hands out and to whom, how progress is counted, what a flush leaves on disk and what peers are
  told.
\<close>

text \<open>
  A small download for the witnesses: three pieces of one block, no write cache; the addresses of
  cache entries are fresh and the shuffle keeps the order.
\<close>

definition demo_write :: "(nat \<Rightarrow> byte_array) write_to" where
  "demo_write = adaptor_write ba_ops"

definition demo_alloc :: "'d wr_state \<Rightarrow> nat" where
  "demo_alloc s = Suc (foldr max (wc_set (ws_cache s)) 0)"

definition demo_cache :: "(nat \<Rightarrow> byte_array) wr_state" where
  "demo_cache = \<lparr>ws_cache = wc_new 1000, ws_ents = (\<lambda>_. we_new 0), ws_disk = \<lambda>_. \<lparr>ba_maxLength = 49152, ba_buf = []\<rparr>\<rparr>"

definition demo0 :: "(unit, nat \<Rightarrow> byte_array) piece_storage" where
  "demo0 = pst_new 16384 49152 [0, 1, 2] ''default'' ''sha-1'' False 0 demo_cache"

definition demo :: "(unit, nat \<Rightarrow> byte_array) piece_storage" where
  "demo = setWrDiskCache True demo_cache (pst_new 16384 49152 [0, 1, 2] ''default'' ''sha-1'' False 0 demo_cache)"

lemma demo_alloc_fresh: "demo_alloc s \<notin> centries s"
proof
  assume "demo_alloc s \<in> centries s"
  moreover have "x \<in> set xs \<Longrightarrow> x \<le> foldr max xs 0" for x :: nat and xs
    by (induction xs) auto
  ultimately show False by (fastforce simp: demo_alloc_def)
qed

lemma demo_reach: "storage_reach demo_write demo_alloc id 1000 demo"
  unfolding demo_def by (rule storage_reach.start) (simp_all add: demo_cache_def)

lemma smap_demo: "smap demo = bm_new 16384 49152"
  by (simp add: demo_def setWrDiskCache_def pst_new_def)

lemma demo_facts:
  "bm_blocks (smap demo) = 3" "bm_bitfieldLength (smap demo) = 1" "pst_endGame demo = False"
  "pst_stream demo = Some DefaultStream" "pst_used demo = []"
  "missing (smap demo) = {..<3}" "uses (smap demo) = {}" "haves (smap demo) = {}"
  "sel_legal (pst_stats demo, pst_selector demo) 3"
proof -
  show b: "bm_blocks (smap demo) = 3" "bm_bitfieldLength (smap demo) = 1" unfolding smap_demo by code_simp+
  show "pst_endGame demo = False" "pst_used demo = []" "pst_stream demo = Some DefaultStream"
    by (simp_all add: demo_def setWrDiskCache_def pst_new_def stream_of_option_def)
  show "uses (smap demo) = {}" "haves (smap demo) = {}" "missing (smap demo) = {..<3}"
    using b by (simp_all add: smap_demo missing_def selected_def)
  have "{..<3} = {0, 1, 2::nat}" by auto
  then have "stats_ok (stats_new [0, 1, 2]) 3" by (intro stats_new_ok) simp_all
  then show "sel_legal (pst_stats demo, pst_selector demo) 3"
    by (simp add: demo_def setWrDiskCache_def pst_new_def)
qed

lemmas demo_simps = demo_facts demo_alloc_fresh

subsection \<open>Handing out pieces\<close>

text \<open>
  C11: a request for pieces on behalf of a peer always returns. The pieces are distinct; each is
  one that the user wants and we miss, that the peer has and nobody else is fetching; each is from
  then on marked used and has the requester as a user. Either they have as many missing blocks as
  asked for, or they are all such pieces. Pieces already had do not change.
\<close>

theorem missing_pieces_for_peer:
  assumes reach: "storage_reach writeTo alloc shuffle limit st" and lim: "limit < 2 ^ 64"
    and fresh: "\<And>s. alloc s \<notin> centries s" and sh: "\<And>xs. mset (shuffle xs) = mset xs"
    and normal: "\<not> pst_endGame st" and sel: "sel_legal (pst_stats st, pst_selector st) (bm_blocks (smap st))"
    and bf: "length bf = bm_bitfieldLength (smap st)"
  defines "A \<equiv> {i \<in> missing (smap st) - uses (smap st). bitat (array bf) i}"
  shows "\<exists>st' ps. getMissingPieces writeTo alloc shuffle k bf cuid st = Some (st', ps) \<and>
    distinct (map pc_index ps) \<and> idxs ps \<subseteq> A \<and> (k \<le> missing_blocks ps \<or> idxs ps = A) \<and>
    (\<forall>p\<in>set ps. isPieceUsed st' (pc_index p) = Some True \<and> findUsedPiece st' (pc_index p) = Some p \<and> cuid \<in> set (pc_users p)) \<and>
    haves (smap st') = haves (smap st)"
proof -
  have inv: "storage_inv limit st" "0 < bm_blocks (smap st)"
    using storage_reach_inv [OF reach lim fresh sh] by (simp_all add: nonempty_inv_def)
  have A: "(if pst_endGame st then {i \<in> offered st bf. \<not> by_segment st i} else offered st bf - uses (smap st)) = A"
    using normal by (auto simp: A_def offered_def)
  from getMissingPieces_spec [OF inv(1) fresh sh inv(2) bf sel, of writeTo k cuid, unfolded A]
  obtain st' ps where r: "getMissingPieces writeTo alloc shuffle k bf cuid st = Some (st', ps)"
    "handed_out st cuid st' ps" "idxs ps \<subseteq> A" "k \<le> missing_blocks ps \<or> idxs ps = A" by blast
  have "uses (smap st) \<union> idxs ps \<subseteq> uses (smap st')" using r(2) by (simp add: handed_out_def)
  then have "isPieceUsed st' (pc_index p) = Some True" if "p \<in> set ps" for p
    using that views_less(2) by (auto simp: isPieceUsed_def isUseBitSet_uses)
  then show ?thesis using r by (intro exI [of _ st'] exI [of _ ps]) (simp add: handed_out_def findUsedPiece_at)
qed

theorem missing_pieces_for_peer_witness:
  "\<exists>st' ps. getMissingPieces demo_write demo_alloc id 2 [0xA0] 7 demo = Some (st', ps) \<and>
    distinct (map pc_index ps) \<and> idxs ps \<subseteq> {i \<in> missing (smap demo) - uses (smap demo). bitat (array [0xA0]) i} \<and>
    (2 \<le> missing_blocks ps \<or> idxs ps = {i \<in> missing (smap demo) - uses (smap demo). bitat (array [0xA0]) i}) \<and>
    (\<forall>p\<in>set ps. isPieceUsed st' (pc_index p) = Some True \<and> findUsedPiece st' (pc_index p) = Some p \<and> 7 \<in> set (pc_users p)) \<and>
    haves (smap st') = haves (smap demo)"
  by (rule missing_pieces_for_peer [OF demo_reach]) (use demo_simps in simp_all)

text \<open>
  C12: in the end game a request returns pieces that others may be fetching too, but never one that
  a HTTP/FTP segment fetches; again they are wanted, missing and offered by the peer, and they have
  as many missing blocks as asked for unless there are no more such pieces.
\<close>

theorem end_game_pieces:
  assumes reach: "storage_reach writeTo alloc shuffle limit st" and lim: "limit < 2 ^ 64"
    and fresh: "\<And>s. alloc s \<notin> centries s" and sh: "\<And>xs. mset (shuffle xs) = mset xs"
    and endgame: "pst_endGame st" and bf: "length bf = bm_bitfieldLength (smap st)"
  defines "A \<equiv> {i \<in> missing (smap st). bitat (array bf) i \<and>
    (case findUsedPiece st i of Some q \<Rightarrow> \<not> pc_usedBySegment q | None \<Rightarrow> True)}"
  shows "\<exists>st' ps. getMissingPieces writeTo alloc shuffle k bf cuid st = Some (st', ps) \<and>
    distinct (map pc_index ps) \<and> idxs ps \<subseteq> A \<and> (k \<le> missing_blocks ps \<or> idxs ps = A) \<and>
    (\<forall>p\<in>set ps. isPieceUsed st' (pc_index p) = Some True \<and> cuid \<in> set (pc_users p)) \<and>
    haves (smap st') = haves (smap st)"
proof -
  have inv: "storage_inv limit st" "0 < bm_blocks (smap st)"
    using storage_reach_inv [OF reach lim fresh sh] by (simp_all add: nonempty_inv_def)
  have A: "(if pst_endGame st then {i \<in> offered st bf. \<not> by_segment st i} else offered st bf - uses (smap st)) = A"
    using endgame by (auto simp: A_def offered_def by_segment_def findUsedPiece_at split: option.splits)
  have "\<not> pst_endGame st \<Longrightarrow> sel_legal (pst_stats st, pst_selector st) (bm_blocks (smap st))" using endgame by simp
  from getMissingPieces_spec [OF inv(1) fresh sh inv(2) bf this, of writeTo k cuid, unfolded A]
  obtain st' ps where r: "getMissingPieces writeTo alloc shuffle k bf cuid st = Some (st', ps)"
    "handed_out st cuid st' ps" "idxs ps \<subseteq> A" "k \<le> missing_blocks ps \<or> idxs ps = A" by blast
  have "uses (smap st) \<union> idxs ps \<subseteq> uses (smap st')" using r(2) by (simp add: handed_out_def)
  then have "isPieceUsed st' (pc_index p) = Some True" if "p \<in> set ps" for p
    using that views_less(2) by (auto simp: isPieceUsed_def isUseBitSet_uses)
  then show ?thesis using r by (intro exI [of _ st'] exI [of _ ps]) (simp add: handed_out_def)
qed

lemma enterEndGame_on [simp]: "pst_endGame (enterEndGame st)"
  by (simp add: enterEndGame_def)

lemma demo_endgame: "storage_reach demo_write demo_alloc id 1000 (enterEndGame demo)"
  by (rule storage_reach.step [OF demo_reach, of OEnterEndGame]) simp_all

theorem end_game_pieces_witness:
  "\<exists>st' ps. getMissingPieces demo_write demo_alloc id 2 [0xA0] 7 (enterEndGame demo) = Some (st', ps) \<and>
    distinct (map pc_index ps) \<and>
    idxs ps \<subseteq> {i \<in> missing (smap (enterEndGame demo)). bitat (array [0xA0]) i \<and>
      (case findUsedPiece (enterEndGame demo) i of Some q \<Rightarrow> \<not> pc_usedBySegment q | None \<Rightarrow> True)} \<and>
    (2 \<le> missing_blocks ps \<or> idxs ps = {i \<in> missing (smap (enterEndGame demo)). bitat (array [0xA0]) i \<and>
      (case findUsedPiece (enterEndGame demo) i of Some q \<Rightarrow> \<not> pc_usedBySegment q | None \<Rightarrow> True)}) \<and>
    (\<forall>p\<in>set ps. isPieceUsed st' (pc_index p) = Some True \<and> 7 \<in> set (pc_users p)) \<and>
    haves (smap st') = haves (smap (enterEndGame demo))"
  by (rule end_game_pieces [OF demo_endgame]) (use demo_simps in simp_all)



subsection \<open>Runs\<close>

text \<open>
  C14: in every state reached by requests, completions, cancellations, blocks, flushes, filters and
  the other operations in any order, the used pieces are in index order, each is a piece of the
  download with no more bytes than its length; a piece somebody fetches is marked used, outside the
  end game it is fetched by one user only; and every further operation returns (no assertion fails,
  no loop runs forever).
\<close>

theorem storage_runs:
  assumes reach: "storage_reach writeTo alloc shuffle limit st" and lim: "limit < 2 ^ 64"
    and fresh: "\<And>s. alloc s \<notin> centries s" and sh: "\<And>xs. mset (shuffle xs) = mset xs"
  shows "sorted_wrt (<) (map pc_index (pst_used st)) \<and>
    (\<forall>p\<in>set (pst_used st). pc_index p < bm_blocks (smap st) \<and>
       0 \<le> piece_getCompletedLength p \<and> piece_getCompletedLength p \<le> pst_getPieceLength st (pc_index p) \<and>
       (pc_users p \<noteq> [] \<longrightarrow> isPieceUsed st (pc_index p) = Some True) \<and>
       (\<not> pst_endGame st \<longrightarrow> length (pc_users p) \<le> 1)) \<and>
    (\<forall>op. storage_legal st op \<longrightarrow> storage_exec writeTo alloc shuffle op st \<noteq> None)"
proof -
  have ninv: "nonempty_inv limit st" using storage_reach_inv [OF reach lim fresh sh] .
  then have inv: "storage_inv limit st" by (simp add: nonempty_inv_def)
  note I = storage_invD [OF inv]
  have each: "pc_index p < bm_blocks (smap st) \<and>
       0 \<le> piece_getCompletedLength p \<and> piece_getCompletedLength p \<le> pst_getPieceLength st (pc_index p) \<and>
       (pc_users p \<noteq> [] \<longrightarrow> isPieceUsed st (pc_index p) = Some True) \<and>
       (\<not> pst_endGame st \<longrightarrow> length (pc_users p) \<le> 1)" if p: "p \<in> set (pst_used st)" for p
  proof -
    have at: "piece_at (pst_used st) (pc_index p) = Some p" using set_piece_at [OF I(2)] p by simp
    have f: "piece_fits (smap st) (pc_index p) p" using I(3) [OF at] .
    show ?thesis using f piece_completed_bounds [OF I(1) f] I(4) at
      by (auto simp: piece_fits_def shared_ok_def pst_getPieceLength_def isPieceUsed_def isUseBitSet_uses)
  qed
  have "storage_exec writeTo alloc shuffle op st \<noteq> None" if "storage_legal st op" for op
    using storage_exec_inv [OF ninv that fresh sh, of writeTo] by auto
  then show ?thesis using I(2) each by blast
qed

text \<open>
  C15: completing a used piece makes it one we have, takes it out of the pieces in flight and, unless
  everything was there already, out of use; the completion flag is set exactly when all pieces the
  user wants are there now. Cancelling takes the user away, frees the piece when nobody is left,
  and outside the end game forgets it if no byte has arrived; what we have stays.
\<close>

theorem complete_and_cancel:
  fixes st :: "('h, 'd) piece_storage"
  assumes reach: "storage_reach writeTo alloc shuffle limit st" and lim: "limit < 2 ^ 64"
    and fresh: "\<And>s. alloc s \<notin> centries s" and sh: "\<And>xs. mset (shuffle xs) = mset xs"
    and p: "findUsedPiece st i = Some p"
  shows "(\<exists>st' p' finished. completePiece p st = (st', p', finished) \<and>
      haves (smap st') = insert i (haves (smap st)) \<and> findUsedPiece st' = (findUsedPiece st)(i := None) \<and>
      (haves (smap st) \<noteq> {..<bm_blocks (smap st)} \<longrightarrow> uses (smap st') = uses (smap st) - {i} \<and>
        (finished \<longleftrightarrow> selected (smap st) \<subseteq> insert i (haves (smap st))))) \<and>
    (\<exists>st' p'. cancelPiece p cuid st = (st', p') \<and> haves (smap st') = haves (smap st) \<and>
      uses (smap st') = uses (smap st) - (if set (pc_users p) \<subseteq> {cuid} then {i} else {}) \<and>
      findUsedPiece st' = (findUsedPiece st)(i :=
        if \<not> pst_endGame st \<and> piece_getCompletedLength p = 0 then None else Some (removeUser cuid p)))"
proof
  have inv: "storage_inv limit st" using storage_reach_inv [OF reach lim fresh sh] by (simp add: nonempty_inv_def)
  have at: "findUsedPiece st = piece_at (pst_used st)" for st :: "('h, 'd) piece_storage"
    by (simp add: fun_eq_iff findUsedPiece_at)
  have p': "piece_at (pst_used st) i = Some p" using p at by metis
  obtain st' q finished where c: "completePiece p st = (st', q, finished)" by (cases "completePiece p st")
  note C = completePiece_spec [OF inv p' c]
  have "haves (smap st') = insert i (haves (smap st)) \<and> findUsedPiece st' = (findUsedPiece st)(i := None) \<and>
      (haves (smap st) \<noteq> {..<bm_blocks (smap st)} \<longrightarrow> uses (smap st') = uses (smap st) - {i} \<and>
        (finished \<longleftrightarrow> selected (smap st) \<subseteq> insert i (haves (smap st))))"
    unfolding at using C by simp
  then show "\<exists>st' p' finished. completePiece p st = (st', p', finished) \<and>
      haves (smap st') = insert i (haves (smap st)) \<and> findUsedPiece st' = (findUsedPiece st)(i := None) \<and>
      (haves (smap st) \<noteq> {..<bm_blocks (smap st)} \<longrightarrow> uses (smap st') = uses (smap st) - {i} \<and>
        (finished \<longleftrightarrow> selected (smap st) \<subseteq> insert i (haves (smap st))))" using c by blast
  obtain st2 q2 where k: "cancelPiece p cuid st = (st2, q2)" by fastforce
  have left: "filter (\<lambda>u. u \<noteq> cuid) (pc_users p) = [] \<longleftrightarrow> set (pc_users p) \<subseteq> {cuid}"
    by (auto simp: filter_empty_conv)
  have "haves (smap st2) = haves (smap st) \<and>
      uses (smap st2) = uses (smap st) - (if set (pc_users p) \<subseteq> {cuid} then {i} else {}) \<and>
      findUsedPiece st2 = (findUsedPiece st)(i :=
        if \<not> pst_endGame st \<and> piece_getCompletedLength p = 0 then None else Some (removeUser cuid p))"
    unfolding at using cancelPiece_spec [OF inv p' k] left by simp
  then show "\<exists>st' p'. cancelPiece p cuid st = (st', p') \<and> haves (smap st') = haves (smap st) \<and>
      uses (smap st') = uses (smap st) - (if set (pc_users p) \<subseteq> {cuid} then {i} else {}) \<and>
      findUsedPiece st' = (findUsedPiece st)(i :=
        if \<not> pst_endGame st \<and> piece_getCompletedLength p = 0 then None else Some (removeUser cuid p))"
    using k by blast
qed

text \<open>The state after user 7 has asked for piece 1.\<close>

definition demo1 :: "(unit, nat \<Rightarrow> byte_array) piece_storage" where
  "demo1 = fst (the (getMissingPieceAt demo_write demo_alloc 1 7 demo))"

definition demo1_piece :: "unit piece" where
  "demo1_piece = the (findUsedPiece demo1 1)"

lemma demo_inv: "storage_inv 1000 demo" "0 < bm_blocks (smap demo)"
  using storage_reach_inv [OF demo_reach _ demo_alloc_fresh] by (simp_all add: nonempty_inv_def)

lemma demo1_props:
  "storage_reach demo_write demo_alloc id 1000 demo1" "findUsedPiece demo1 1 = Some demo1_piece"
  "pst_getTotalLength demo1 = 49152"
proof -
  have "1 < bm_blocks (smap demo)" by (simp add: demo_facts)
  from getMissingPieceAt_spec [OF demo_inv(1) demo_alloc_fresh this, of demo_write 7]
  obtain st' r where r: "getMissingPieceAt demo_write demo_alloc 1 7 demo = Some (st', r)"
    "r = None \<longleftrightarrow> 1 \<notin> missing (smap demo) - uses (smap demo)" "\<forall>p. r = Some p \<longrightarrow> checked_out demo 1 7 st' p" by blast
  have st': "st' = demo1" using r(1) by (simp add: demo1_def)
  obtain p where "r = Some p" using r(2) by (auto simp: demo_facts)
  then have "checked_out demo 1 7 demo1 p" using r(3) st' by simp
  then have "findUsedPiece demo1 1 = Some p" by (simp add: checked_out_def findUsedPiece_at)
  then show "findUsedPiece demo1 1 = Some demo1_piece" by (simp add: demo1_piece_def)
  have "geometry (smap demo1) = geometry (smap demo)"
    using checked_outD(4) [OF demo_inv(1) \<open>checked_out demo 1 7 demo1 p\<close>] by (simp add: demo_facts)
  then have "pst_getTotalLength demo1 = pst_getTotalLength demo" by (simp add: pst_getTotalLength_def geometry_def)
  moreover have "pst_getTotalLength demo = 49152" unfolding pst_getTotalLength_def smap_demo by code_simp
  ultimately show "pst_getTotalLength demo1 = 49152" by simp
  have "storage_exec demo_write demo_alloc id (OAt 1 7) demo = Some demo1" using r(1) st' by simp
  then show "storage_reach demo_write demo_alloc id 1000 demo1"
    by (rule storage_reach.step [OF demo_reach, rotated]) (simp add: demo_facts)
qed

theorem complete_and_cancel_witness:
  "(\<exists>st' p' finished. completePiece demo1_piece demo1 = (st', p', finished) \<and>
      haves (smap st') = insert 1 (haves (smap demo1)) \<and> findUsedPiece st' = (findUsedPiece demo1)(1 := None) \<and>
      (haves (smap demo1) \<noteq> {..<bm_blocks (smap demo1)} \<longrightarrow> uses (smap st') = uses (smap demo1) - {1} \<and>
        (finished \<longleftrightarrow> selected (smap demo1) \<subseteq> insert 1 (haves (smap demo1))))) \<and>
    (\<exists>st' p'. cancelPiece demo1_piece 7 demo1 = (st', p') \<and> haves (smap st') = haves (smap demo1) \<and>
      uses (smap st') = uses (smap demo1) - (if set (pc_users demo1_piece) \<subseteq> {7} then {1} else {}) \<and>
      findUsedPiece st' = (findUsedPiece demo1)(1 :=
        if \<not> pst_endGame demo1 \<and> piece_getCompletedLength demo1_piece = 0 then None else Some (removeUser 7 demo1_piece)))"
  by (rule complete_and_cancel [OF demo1_props(1) _ _ _ demo1_props(2)]) (use demo_simps in simp_all)

subsection \<open>Progress\<close>

text \<open>
  C16: the completed length is the length of the pieces we have plus the bytes of those in flight,
  at most the total length. The cut at the total length is needed only when a piece in flight is
  one we have already; without such a piece the sum itself is at most the total, and no addition
  of \<open>int64_t\<close> overflows. With one, it is exact for downloads of less than \<open>2 ^ 62\<close> bytes.
\<close>

theorem completed_length:
  assumes reach: "storage_reach writeTo alloc shuffle limit st" and lim: "limit < 2 ^ 64"
    and fresh: "\<And>s. alloc s \<notin> centries s" and sh: "\<And>xs. mset (shuffle xs) = mset xs"
    and small: "haves (smap st) \<inter> idxs (pst_used st) = {} \<or> pst_getTotalLength st < 2 ^ 62"
  defines "amount \<equiv> (\<Sum>i\<in>haves (smap st). pst_getPieceLength st i) + (\<Sum>p\<leftarrow>pst_used st. piece_getCompletedLength p)"
  shows "pst_getCompletedLength st = min amount (pst_getTotalLength st) \<and> 0 \<le> pst_getCompletedLength st \<and>
    (haves (smap st) \<inter> idxs (pst_used st) = {} \<longrightarrow> pst_getCompletedLength st = amount)"
proof -
  have inv: "storage_inv limit st" "0 < bm_blocks (smap st)"
    using storage_reach_inv [OF reach lim fresh sh] by (simp_all add: nonempty_inv_def)
  have s: "amount = (\<Sum>i\<in>haves (smap st). getBlockLength (smap st) i) + in_flight st"
    by (simp add: amount_def in_flight_def pst_getPieceLength_def)
  note E = completed_length_eq [OF inv, folded s]
  have t: "bm_totalLength (smap st) < 2 ^ 63"
    using bm_invD(1) [OF storage_invD(1) [OF inv(1)]] by (simp add: bm_shape_def)
  have "amount < 2 ^ 63"
  proof (cases "haves (smap st) \<inter> idxs (pst_used st) = {}")
    case True
    then show ?thesis using E(2) t by linarith
  next
    case False
    then have "bm_totalLength (smap st) < 2 ^ 62" using small by (simp add: pst_getTotalLength_def)
    moreover have "(2::int) ^ 62 + 2 ^ 62 = 2 ^ 63" by simp
    moreover have "amount \<le> bm_totalLength (smap st) + in_flight st" using s E(4) by linarith
    ultimately show ?thesis using E(5) by linarith
  qed
  then have eq: "pst_getCompletedLength st = min amount (pst_getTotalLength st)" using E(1) by (simp add: pst_getTotalLength_def)
  moreover have "0 \<le> amount" "0 \<le> pst_getTotalLength st"
    using E(3,4) in_flight_bounds(1) [OF inv(1)] s by (simp_all add: pst_getTotalLength_def)
  ultimately show ?thesis using E(2) by (auto simp: pst_getTotalLength_def)
qed

theorem completed_length_witness:
  "pst_getCompletedLength demo1 =
      min ((\<Sum>i\<in>haves (smap demo1). pst_getPieceLength demo1 i) + (\<Sum>p\<leftarrow>pst_used demo1. piece_getCompletedLength p)) 49152 \<and>
    0 \<le> pst_getCompletedLength demo1"
proof -
  have small: "haves (smap demo1) \<inter> idxs (pst_used demo1) = {} \<or> pst_getTotalLength demo1 < 2 ^ 62"
    using demo1_props(3) by simp
  have lim: "(1000::nat) < 2 ^ 64" and sh: "\<And>xs :: nat list. mset (id xs) = mset xs" by simp_all
  from completed_length [OF demo1_props(1) lim demo_alloc_fresh sh small]
  show ?thesis unfolding demo1_props(3) by blast
qed

text \<open>
  C17: resuming a download from the length of a partial file (\<open>markPiecesDone\<close>) on a storage that
  has nothing yet gives back that length, rounded down to a whole block of 16 KiB: the completed
  length read afterwards is at most the given one and less than a block below it.
\<close>

theorem resume_from_length:
  fixes st :: "('h, 'd) piece_storage"
  assumes reach: "storage_reach writeTo alloc shuffle limit st" and lim: "limit < 2 ^ 64"
    and fresh: "\<And>s. alloc s \<notin> centries s" and sh: "\<And>xs. mset (shuffle xs) = mset xs"
    and empty: "haves (smap st) = {}" "pst_used st = []" and len: "0 < len" "len < pst_getTotalLength st"
  shows "\<exists>st'. markPiecesDone len st = Some st' \<and> pst_getCompletedLength st' \<le> len \<and>
    len < pst_getCompletedLength st' + BLOCK_LENGTH \<and>
    haves (smap st') = {..<nat (len div bm_blockLength (smap st))}"
proof -
  have inv: "storage_inv limit st" "0 < bm_blocks (smap st)"
    using storage_reach_inv [OF reach lim fresh sh] by (simp_all add: nonempty_inv_def)
  let ?m = "smap st"
  define np where "np = nat (len div bm_blockLength ?m)"
  define r where "r = nat (len mod bm_blockLength ?m div BLOCK_LENGTH)"
  have len2: "len < bm_totalLength ?m" using len(2) by (simp add: pst_getTotalLength_def)
  note bi = storage_invD(1) [OF inv(1)]
  note R = resume_point [OF bi len(1) len2 inv(2), folded np_def r_def]
  from markPiecesDone_spec [OF inv len(1) len2 empty, folded np_def r_def]
  obtain st' where st': "markPiecesDone len st = Some st'" "storage_inv limit st'" "haves (smap st') = {..<np}"
    "geometry (smap st') = geometry ?m" and used: "if r = 0 then pst_used st' = []
     else \<exists>p. pst_used st' = [p] \<and> pc_index p = np \<and> phaves p = {..<r} \<and> pc_users p = [] \<and>
       piece_getCompletedLength p = int r * BLOCK_LENGTH" by blast
  have n': "0 < bm_blocks (smap st')" using inv(2) blocks_geometry [OF st'(4)] by simp
  note E = completed_length_eq [OF st'(2) n']
  have fl: "in_flight st' = int r * BLOCK_LENGTH \<and> {..<np} \<inter> idxs (pst_used st') = {}"
  proof (cases "r = 0")
    case True
    then show ?thesis using used by (simp add: in_flight_def)
  next
    case False
    then obtain p where "pst_used st' = [p]" "pc_index p = np" "piece_getCompletedLength p = int r * BLOCK_LENGTH"
      using used by auto
    then show ?thesis by (simp add: in_flight_def)
  qed
  have hv: "(\<Sum>i\<in>haves (smap st'). getBlockLength (smap st') i) = int np * bm_blockLength ?m"
    unfolding st'(3) getBlockLength_geometry [OF st'(4)] by (rule first_blocks_length [OF bi R(3)])
  have le: "int np * bm_blockLength ?m + int r * BLOCK_LENGTH \<le> bm_totalLength (smap st')"
    using E(2) fl st'(3) hv by simp
  have "bm_totalLength (smap st') < 2 ^ 63"
    using bm_invD(1) [OF storage_invD(1) [OF st'(2)]] by (simp add: bm_shape_def)
  then have "pst_getCompletedLength st' = min (int np * bm_blockLength ?m + int r * BLOCK_LENGTH) (bm_totalLength (smap st'))"
    using E(1) le unfolding hv fl [THEN conjunct1] by linarith
  then have eq: "pst_getCompletedLength st' = int np * bm_blockLength ?m + int r * BLOCK_LENGTH"
    using le by linarith
  have bounds: "pst_getCompletedLength st' \<le> len" "len < pst_getCompletedLength st' + BLOCK_LENGTH"
    unfolding eq by (rule R(5), rule R(6))
  show ?thesis
    by (intro exI [of _ st'] conjI) (rule st'(1) bounds st'(3) [unfolded np_def])+
qed

theorem resume_from_length_witness:
  "\<exists>st'. markPiecesDone 20000 demo = Some st' \<and> pst_getCompletedLength st' \<le> 20000 \<and>
    20000 < pst_getCompletedLength st' + BLOCK_LENGTH \<and>
    haves (smap st') = {..<nat (20000 div bm_blockLength (smap demo))}"
proof (rule resume_from_length [OF demo_reach])
  show "20000 < pst_getTotalLength demo" unfolding pst_getTotalLength_def smap_demo by code_simp
qed (use demo_simps in simp_all)

text \<open>
  C18: every announced piece reaches every connection, once and in order. A new connection asks
  with the index 0 and is told of all pieces announced so far; asking again with the index it was
  given, it is told of exactly the pieces announced in between, and of nothing when there are none.
  Dropping old announcements before it asks loses it only those that have expired.
\<close>

theorem announcements_reach_every_peer:
  assumes times: "sorted (map (\<lambda>(cuid, index, time). time) (xs @ ys))" and few: "length (xs @ ys) + 1 < 2 ^ 64"
    and st0: "st0 = pst_new pieceLength totalLength order opt hashType inMemory adaptor cache"
  defines "told \<equiv> map (\<lambda>(cuid, index, time). index)"
  shows "getAdvertisedPieceIndexes (advertised xs st0) 0 = (told xs, length xs) \<and>
    getAdvertisedPieceIndexes (advertised xs st0) (length xs) = ([], length xs) \<and>
    getAdvertisedPieceIndexes (advertised ys (advertised xs st0)) (length xs) = (told ys, length (xs @ ys)) \<and>
    fst (getAdvertisedPieceIndexes (removeAdvertisedPiece expiry (advertised ys (advertised xs st0))) (length xs)) =
      told (filter (\<lambda>(cuid, index, time). expiry < time) ys)"
proof -
  let ?s1 = "advertised xs st0" and ?s2 = "advertised ys (advertised xs st0)"
  have n0: "pst_nextHaveIndex st0 = 1" "pst_haves st0 = []" by (simp_all add: st0 pst_new_def)
  have s1: "pst_haves ?s1 = announced 1 xs" "pst_nextHaveIndex ?s1 = 1 + length xs"
    using advertised_haves [of st0 xs] few n0 by simp_all
  have s2: "pst_haves ?s2 = announced 1 (xs @ ys)" "pst_nextHaveIndex ?s2 = 1 + length (xs @ ys)"
    using advertised_haves [of ?s1 ys] few s1 by (simp_all add: announced_append)
  have inv1: "have_inv ?s1" by (rule announced_inv [OF s1]) (use times in \<open>simp add: sorted_append\<close>)
  have inv2: "have_inv ?s2" by (rule announced_inv [OF s2 times])
  have last_index: "he_haveIndex (last (announced 1 evs)) = length evs" if "evs \<noteq> []" for evs
  proof -
    have "announced 1 evs \<noteq> []" using that announced_fields(2) [of 1 evs] by (metis map_is_Nil_conv)
    then have "he_haveIndex (last (announced 1 evs)) = last (map he_haveIndex (announced 1 evs))" by (simp add: last_map)
    then show ?thesis using that by (cases evs) (simp_all add: announced_fields)
  qed
  have new: "filter (\<lambda>h. length xs < he_haveIndex h) (announced 1 (xs @ ys)) = announced (1 + length xs) ys"
    unfolding announced_append by (simp add: filter_announced)
  have none: "announced n evs = [] \<longleftrightarrow> evs = []" for n evs
    using announced_fields(2) [of n evs] by (metis map_is_Nil_conv)
  have a: "getAdvertisedPieceIndexes ?s1 0 = (told xs, length xs)"
    using getAdvertised_filter [OF inv1, of 0] last_index [of xs] unfolding s1 filter_announced(1) [OF zero_less_one]
    by (cases "xs = []") (simp_all add: announced_fields told_def none)
  have b: "getAdvertisedPieceIndexes ?s1 (length xs) = ([], length xs)"
    using getAdvertised_filter [OF inv1, of "length xs"] by (simp add: s1 filter_announced)
  have c: "getAdvertisedPieceIndexes ?s2 (length xs) = (told ys, length (xs @ ys))"
    using getAdvertised_filter [OF inv2, of "length xs"] last_index [of "xs @ ys"] unfolding s2(1) new
    by (cases "ys = []") (simp_all add: announced_fields told_def none)
  let ?late = "\<lambda>h. expiry < he_registeredTime h"
  have "fst (getAdvertisedPieceIndexes (removeAdvertisedPiece expiry ?s2) (length xs)) =
      map he_index (filter (\<lambda>h. length xs < he_haveIndex h) (filter ?late (announced 1 (xs @ ys))))"
    using getAdvertised_filter [OF have_inv_ops(2) [OF inv2]] by (simp add: have_inv_ops(3) [OF inv2] s2)
  also have "\<dots> = map he_index (filter ?late (announced (1 + length xs) ys))"
    unfolding new [symmetric] filter_filter by (simp only: conj_commute)
  also have "\<dots> = told (filter (\<lambda>(cuid, index, time). expiry < time) ys)"
    unfolding told_def by (rule announced_late)
  finally show ?thesis using a b c by blast
qed

theorem announcements_reach_every_peer_witness:
  "getAdvertisedPieceIndexes (advertised [(1, 5, 10), (2, 6, 20)] demo0) 0 = ([5, 6], 2) \<and>
    fst (getAdvertisedPieceIndexes (removeAdvertisedPiece 30
      (advertised [(1, 7, 30), (1, 8, 40)] (advertised [(1, 5, 10), (2, 6, 20)] demo0))) 2) = [8]"
proof -
  have "sorted (map (\<lambda>(cuid, index, time). time) ([(1, 5, 10), (2, 6, 20)] @ [(1, 7, 30), (1, 8, 40)] :: (int \<times> nat \<times> int) list))"
    "length ([(1, 5, 10), (2, 6, 20)] @ [(1, 7, 30), (1, 8, 40)] :: (int \<times> nat \<times> int) list) + 1 < 2 ^ 64" by simp_all
  from announcements_reach_every_peer [OF this demo0_def, of 30] show ?thesis by (simp add: numeral_2_eq_2)
qed

subsection \<open>Flushing\<close>

text \<open>
  C19: a flush that releases the entries leaves on disk all that has been written. If every entry of
  the write cache on this download's adaptor belongs to one of its pieces, then after the flush no
  entry is left for it, no piece has one, the adaptor holds exactly the bytes written to the
  download, the other downloads' bytes are still represented, and the bitfields have not changed.
\<close>

theorem flush_reaches_disk:
  assumes reach: "storage_reach writeTo alloc shuffle limit st" and lim: "limit < 2 ^ 64"
    and fresh: "\<And>s. alloc s \<notin> centries s" and sh: "\<And>xs. mset (shuffle xs) = mset xs" and hc: "pst_hasCache st"
    and disk: "cached_disk writeTo content fits"
    and rep: "represents content (pst_cache st) v" "roomed fits (pst_cache st)"
    and own: "\<And>k. k \<in> centries (pst_cache st) \<Longrightarrow> we_adaptor (ws_ents (pst_cache st) k) = pst_adaptor st \<Longrightarrow>
      \<exists>p\<in>set (pst_used st). pc_wrCache p = Some k"
  shows "\<exists>s'. flushWrDiskCacheEntry writeTo True st =
      Some (st\<lparr>pst_used := map (\<lambda>p. p\<lparr>pc_wrCache := None\<rparr>) (pst_used st), pst_cache := s'\<rparr>) \<and>
    (\<forall>k\<in>centries s'. we_adaptor (ws_ents s' k) \<noteq> pst_adaptor st) \<and>
    content (pst_adaptor st) (ws_disk s') = v (pst_adaptor st) \<and> represents content s' v"
proof -
  have inv: "storage_inv limit st"
    using storage_reach_inv [OF reach lim fresh sh] by (simp add: nonempty_inv_def)
  let ?U = "piece_at (pst_used st)" and ?V = "piece_at (map (released True) (pst_used st))"
  let ?Q = "flush_safe limit content fits v (pst_adaptor st)"
  have pool: "pool_inv limit (pool_of ?U, pst_cache st)"
    using storage_invD(5) [OF inv] hc by (simp add: cache_ok_def)
  have "\<exists>i. pc_wrCache (pool_of ?U i) = Some k"
    if k: "k \<in> centries (pst_cache st)" "we_adaptor (ws_ents (pst_cache st) k) = pst_adaptor st" for k
  proof -
    obtain p where p: "p \<in> set (pst_used st)" "pc_wrCache p = Some k" using own [OF k] by blast
    then have "?U (pc_index p) = Some p" using set_piece_at [OF storage_invD(2) [OF inv]] by simp
    then show ?thesis using p(2) by (intro exI [of _ "pc_index p"]) simp
  qed
  then have Q: "?Q (pool_of ?U, pst_cache st)" using pool rep by (simp add: flush_safe_def)
  from flush_storage_spec(1) [OF inv cached_disk.safe_flush_stable [OF disk lim] Q hc, of True]
  obtain s' where s': "flushWrDiskCacheEntry writeTo True st =
      Some (st\<lparr>pst_used := map (released True) (pst_used st), pst_cache := s'\<rparr>)" "?Q (pool_of ?V, s')" by blast
  have bare: "pc_wrCache (pool_of ?V i) = None" for i
    by (cases "?U i") (simp_all add: piece_at_released released_def piece_new_def)
  have none: "\<forall>k\<in>centries s'. we_adaptor (ws_ents s' k) \<noteq> pst_adaptor st" and rep': "represents content s' v"
    using s'(2) bare by (auto simp: flush_safe_def simp del: map_map)
  from cached_disk.nothing_cached [OF disk rep' none] none rep' s'(1) show ?thesis
    by (intro exI [of _ s']) (simp add: released_def)
qed

text \<open>The state after user 7 has cached two bytes of piece 1.\<close>

definition demo_cell :: data_cell where
  "demo_cell = \<lparr>dc_goff = 16384, dc_data = [5, 6], dc_offset = 0, dc_len = 2, dc_capacity = 2\<rparr>"

definition demo2 :: "(unit, nat \<Rightarrow> byte_array) piece_storage" where
  "demo2 = the (storage_exec demo_write demo_alloc id (OCell 1 demo_cell) demo1)"

lemma demo_bits:
  "isBitSet (bm_new 16384 49152) 1 = Some False" "isUseBitSet (bm_new 16384 49152) 1 = Some False"
  "bm_filterEnabled (bm_new 16384 49152) = False"
  "getBlockLength (fst (setUseBit (bm_new 16384 49152) 1)) 1 = 16384"
  by code_simp+

lemma demo_fields:
  "pst_used demo = []" "\<not> pst_endGame demo" "pst_cache demo = demo_cache" "pst_hasCache demo" "\<not> pst_inMemory demo" "pst_adaptor demo = 0"
  by (simp_all add: demo_def setWrDiskCache_def pst_new_def)

lemma demo_init:
  "pc_wrCache p = None \<Longrightarrow> initWrCache demo_write True (demo_alloc demo_cache) 0 p demo_cache = Some (p\<lparr>pc_wrCache := Some 1\<rparr>,
     demo_cache\<lparr>ws_cache := \<lparr>wc_limit = 1000, wc_total = 0, wc_set = [1], wc_clock = 1\<rparr>,
       ws_ents := (ws_ents demo_cache)(1 := (we_new 0)\<lparr>we_sizeKey := 0, we_lastUpdate := 1\<rparr>)\<rparr>)"
  by (simp add: demo_alloc_def demo_cache_def initWrCache_def wc_add_def set_add_def touch_def set_ent_def wc_new_def
      we_new_def Let_def ensureLimit.simps [of demo_write])

lemma demo1_cache:
  "pst_hasCache demo1" "pst_adaptor demo1 = 0" "pst_used demo1 = [demo1_piece]" "pc_wrCache demo1_piece = Some 1" "pc_index demo1_piece = 1"
  "pst_cache demo1 = demo_cache\<lparr>ws_cache := \<lparr>wc_limit = 1000, wc_total = 0, wc_set = [1], wc_clock = 1\<rparr>,
       ws_ents := (ws_ents demo_cache)(1 := (we_new 0)\<lparr>we_sizeKey := 0, we_lastUpdate := 1\<rparr>)\<rparr>"
  "pc_users demo1_piece = [7]" "\<not> pst_endGame demo1"
  by (simp_all add: smap_demo demo_bits [unfolded One_nat_def] demo_fields demo_init demo1_piece_def demo1_def getMissingPieceAt_def hasPiece_def
      isPieceUsed_def checkOutPiece_def findUsedPiece_def addUsedPiece_def put_used_def setHashType_def addUser_def piece_new_def Let_def)

theorem storage_runs_witness:
  "sorted_wrt (<) (map pc_index (pst_used demo1)) \<and> pc_index demo1_piece < bm_blocks (smap demo1) \<and>
    piece_getCompletedLength demo1_piece \<le> pst_getPieceLength demo1 1 \<and> isPieceUsed demo1 1 = Some True \<and>
    length (pc_users demo1_piece) \<le> 1 \<and> storage_exec demo_write demo_alloc id (OComplete 1) demo1 \<noteq> None"
proof -
  from storage_runs [OF demo1_props(1) _ demo_alloc_fresh]
  have R: "\<forall>p\<in>set (pst_used demo1). pc_index p < bm_blocks (smap demo1) \<and>
       0 \<le> piece_getCompletedLength p \<and> piece_getCompletedLength p \<le> pst_getPieceLength demo1 (pc_index p) \<and>
       (pc_users p \<noteq> [] \<longrightarrow> isPieceUsed demo1 (pc_index p) = Some True) \<and>
       (\<not> pst_endGame demo1 \<longrightarrow> length (pc_users p) \<le> 1)"
    "sorted_wrt (<) (map pc_index (pst_used demo1))"
    "\<forall>op. storage_legal demo1 op \<longrightarrow> storage_exec demo_write demo_alloc id op demo1 \<noteq> None" by simp_all
  have "storage_legal demo1 (OComplete 1)" by simp
  then show ?thesis using R demo1_cache(3,5,7,8) by auto
qed

lemma demo2_cache:
  fixes P :: "nat \<Rightarrow> unit piece"
  defines "P \<equiv> pool_of (piece_at (pst_used demo1))"
  shows "storage_reach demo_write demo_alloc id 1000 demo2" "pst_used demo2 = [demo1_piece]" "pst_hasCache demo2" "pst_adaptor demo2 = 0"
    "cache_exec demo_write (CUpdate 1 demo_cell) (P, pst_cache demo1) = Some (P, pst_cache demo2)"
    "centries (pst_cache demo2) = {1}"
proof -
  have inv: "storage_inv 1000 demo1"
    using storage_reach_inv [OF demo1_props(1) _ demo_alloc_fresh] by (simp add: nonempty_inv_def)
  have legal: "storage_legal demo1 (OCell 1 demo_cell)"
    using demo1_props(2) demo1_cache by (simp add: demo_cell_def cell_ok_def we_new_def)
  from storage_exec_inv [OF _ legal demo_alloc_fresh, of 1000 id demo_write]
  have ex: "storage_exec demo_write demo_alloc id (OCell 1 demo_cell) demo1 = Some demo2"
    using storage_reach_inv [OF demo1_props(1) _ demo_alloc_fresh] by (auto simp: demo2_def)
  show "storage_reach demo_write demo_alloc id 1000 demo2"
    by (rule storage_reach.step [OF demo1_props(1) legal ex])
  have P1: "P 1 = demo1_piece" using demo1_props(2) by (simp add: P_def findUsedPiece_at)
  obtain s' where s': "updateWrCache demo_write True (dc_data demo_cell) (dc_offset demo_cell) (dc_len demo_cell)
      (dc_capacity demo_cell) (dc_goff demo_cell) demo1_piece (pst_cache demo1) = Some s'" "demo2 = demo1\<lparr>pst_cache := s'\<rparr>"
    using ex demo1_props(2) demo1_cache(1,4) by (auto simp: on_entry_def)
  show "pst_used demo2 = [demo1_piece]" "pst_hasCache demo2" "pst_adaptor demo2 = 0"
    unfolding s'(2) using demo1_cache(1-3) by simp_all
  show run: "cache_exec demo_write (CUpdate 1 demo_cell) (P, pst_cache demo1) = Some (P, pst_cache demo2)"
    using s'(1) P1 unfolding s'(2) by simp
  have "pool_inv 1000 (P, pst_cache demo1)"
    using storage_invD(5) [OF inv] demo1_cache(1) by (simp add: cache_ok_def P_def)
  moreover have "cache_legal 1000 (CUpdate 1 demo_cell) (P, pst_cache demo1)"
    unfolding cache_legal.simps P1 demo1_cache(4) demo1_cache(6) by (simp add: demo_cell_def cell_ok_def we_new_def)
  moreover have "pc_wrCache (P 1) = Some 1" using P1 demo1_cache(4) by simp
  ultimately obtain s'' where "cache_exec demo_write (CUpdate 1 demo_cell) (P, pst_cache demo1) = Some (P, s'')"
      "centries s'' = centries (pst_cache demo1)" by (blast dest: CUpdate_steps)
  then have "centries (pst_cache demo2) = centries (pst_cache demo1)" using run by (metis option.inject prod.inject)
  then show "centries (pst_cache demo2) = {1}" unfolding demo1_cache(6) by simp
qed

theorem flush_reaches_disk_witness:
  "\<exists>s'. flushWrDiskCacheEntry demo_write True demo2 =
      Some (demo2\<lparr>pst_used := [demo1_piece\<lparr>pc_wrCache := None\<rparr>], pst_cache := s'\<rparr>) \<and>
    ba_content (ws_disk s' 0) 16384 = 5 \<and> ba_content (ws_disk s' 0) 16385 = 6"
proof -
  let ?c = "\<lambda>a D. ba_content (D a)" and ?f = "\<lambda>a D. ba_fits (D a)" and ?P = "pool_of (piece_at (pst_used demo1))"
  have disk: "cached_disk demo_write ?c ?f" unfolding demo_write_def by (rule byte_array.adaptors.cached_disk_axioms)
  have inv: "storage_inv 1000 demo1"
    using storage_reach_inv [OF demo1_props(1) _ demo_alloc_fresh] by (simp add: nonempty_inv_def)
  have pool: "pool_inv 1000 (?P, pst_cache demo1)"
    using storage_invD(5) [OF inv] demo1_cache(1) by (simp add: cache_ok_def)
  have P1: "?P 1 = demo1_piece" using demo1_props(2) by (simp add: findUsedPiece_at)
  have none: "\<not> cached (pst_cache demo1) a c" for a c by (simp add: cached_def demo1_cache(6) we_new_def)
  let ?v = "\<lambda>a. ba_content (ws_disk (pst_cache demo1) a)"
  have rep: "represents ?c (pst_cache demo1) ?v" "roomed ?f (pst_cache demo1)"
    using none by (simp_all add: represents_def roomed_def)
  have fits: "cache_legal 1000 (CUpdate 1 demo_cell) (?P, pst_cache demo1)" "cache_fits ?f (CUpdate 1 demo_cell) (?P, pst_cache demo1)"
    using P1 none unfolding cache_legal.simps cache_fits.simps P1 demo1_cache(4)
    by (auto simp: demo1_cache(6) demo_cell_def cell_ok_def we_new_def new_range_def ba_fits_def demo_cache_def)
  from cached_disk.cache_exec_represents [OF disk pool _ fits rep demo2_cache(5)]
  have rep2: "represents ?c (pst_cache demo2) (cache_view (CUpdate 1 demo_cell) (?P, pst_cache demo1) ?v)" "roomed ?f (pst_cache demo2)"
    by simp_all
  have v: "cache_view (CUpdate 1 demo_cell) (?P, pst_cache demo1) ?v 0 = patch (?v 0) 16384 [5, 6]"
    unfolding cache_view.simps P1 demo1_cache(4) by (simp add: demo1_cache(6) we_new_def demo_cell_def cell_bytes_def Let_def)
  from flush_reaches_disk [OF demo2_cache(1) _ demo_alloc_fresh _ demo2_cache(3) disk rep2]
  show ?thesis using demo2_cache(2,4,6) demo1_cache(4) v by (auto simp: patch_def)
qed

end
