(* ===== verification/Choke.thy ===== *)
theory Choke
  imports Peer "HOL-Library.Multiset"
begin

text \<open>
  Who may download from us: \<open>BtLeecherStateChoke\<close> and \<open>BtSeederStateChoke\<close>. The peers of a
  \<open>PeerSet\<close> are a list, and an entry refers to its peer by the position there. A peer with a
  session is active; \<open>assert(res_)\<close> of one without is \<open>None\<close>. \<open>std::partition\<close>,
  \<open>std::shuffle\<close> and \<open>std::sort\<close> are parameters, with the laws of \<open>std_algorithms\<close>; \<open>now\<close> is
  the wall clock of the round.
\<close>

subsection \<open>The standard algorithms\<close>

text \<open>\<open>std::sort\<close> needs a strict weak order on the elements of the range.\<close>

definition strict_weak_on :: "'e set \<Rightarrow> ('e \<Rightarrow> 'e \<Rightarrow> bool) \<Rightarrow> bool" where
  "strict_weak_on A before \<longleftrightarrow>
     (\<forall>x\<in>A. \<not> before x x) \<and>
     (\<forall>x\<in>A. \<forall>y\<in>A. \<forall>z\<in>A. before x y \<longrightarrow> before y z \<longrightarrow> before x z) \<and>
     (\<forall>x\<in>A. \<forall>y\<in>A. \<forall>z\<in>A. \<not> before x y \<longrightarrow> \<not> before y x \<longrightarrow> \<not> before y z \<longrightarrow> \<not> before z y \<longrightarrow>
        \<not> before x z \<and> \<not> before z x)"

text \<open>
  \<open>parting P xs\<close> is the range before and the range after the iterator that is returned.
\<close>

locale std_algorithms =
  fixes parting :: "('e \<Rightarrow> bool) \<Rightarrow> 'e list \<Rightarrow> 'e list \<times> 'e list"
    and shuffle :: "'e list \<Rightarrow> 'e list"
    and sorting :: "('e \<Rightarrow> 'e \<Rightarrow> bool) \<Rightarrow> 'e list \<Rightarrow> 'e list"
  assumes parting_yes: "parting P xs = (ys, zs) \<Longrightarrow> mset ys = filter_mset P (mset xs)"
    and parting_no: "parting P xs = (ys, zs) \<Longrightarrow> mset zs = filter_mset (\<lambda>x. \<not> P x) (mset xs)"
    and shuffle_mset: "mset (shuffle xs) = mset xs"
    and sorting_mset: "strict_weak_on (set xs) before \<Longrightarrow> mset (sorting before xs) = mset xs"
    and sorting_sorted: "strict_weak_on (set xs) before \<Longrightarrow> sorted_wrt (\<lambda>x y. \<not> before y x) (sorting before xs)"

subsection \<open>Shared steps\<close>

definition isActive :: "peer \<Rightarrow> bool" where
  "isActive p \<longleftrightarrow> pr_res p \<noteq> None"

text \<open>A method called through the pointer of an entry.\<close>

definition on_peer :: "nat \<Rightarrow> (peer \<Rightarrow> peer option) \<Rightarrow> peer list \<Rightarrow> peer list option" where
  "on_peer k f ps = map_option (\<lambda>p. ps[k := p]) (f (ps ! k))"

fun on_peers :: "nat list \<Rightarrow> (peer \<Rightarrow> peer option) \<Rightarrow> peer list \<Rightarrow> peer list option" where
  "on_peers [] f ps = Some ps"
| "on_peers (k # ks) f ps = do { ps \<leftarrow> on_peer k f ps; on_peers ks f ps }"

definition next_round :: "int \<Rightarrow> int" where
  "next_round round = (if round + 1 = 3 then 0 else round + 1)"

record choke_state =
  ch_round :: int
  ch_lastRound :: int

definition ch_new :: choke_state where
  "ch_new = \<lparr>ch_round = 0, ch_lastRound = 0\<rparr>"

subsection \<open>While downloading\<close>

record le_entry =
  le_peer :: nat
  le_downloadSpeed :: int
  le_regularUnchoker :: bool

definition le_new :: "int \<Rightarrow> nat \<Rightarrow> peer \<Rightarrow> (peer \<times> le_entry) option" where
  "le_new now k p = do {
     (p, speed) \<leftarrow> peer_calculateDownloadSpeed now p;
     interested \<leftarrow> peer_peerInterested p;
     update \<leftarrow> peer_getLastDownloadUpdate p;
     Some (p, \<lparr>le_peer = k, le_downloadSpeed = speed,
       le_regularUnchoker = (interested \<and> tm_difference update now < 30 * SECOND)\<rparr>) }"

definition le_less :: "le_entry \<Rightarrow> le_entry \<Rightarrow> bool" where
  "le_less e e' \<longleftrightarrow> le_downloadSpeed e > le_downloadSpeed e'"

text \<open>The function object \<open>PeerFilter(amChoking, peerInterested)\<close>.\<close>

definition peer_filter :: "bool \<Rightarrow> bool \<Rightarrow> peer \<Rightarrow> bool" where
  "peer_filter amChoking peerInterested p \<longleftrightarrow>
     peer_amChoking p = Some amChoking \<and> peer_peerInterested p = Some peerInterested"

definition plannedOptimisticUnchoke ::
  "((le_entry \<Rightarrow> bool) \<Rightarrow> le_entry list \<Rightarrow> le_entry list \<times> le_entry list) \<Rightarrow> (le_entry list \<Rightarrow> le_entry list) \<Rightarrow>
     le_entry list \<Rightarrow> peer list \<Rightarrow> (peer list \<times> le_entry list) option" where
  "plannedOptimisticUnchoke parting shuffle es ps = do {
     ps \<leftarrow> on_peers (map le_peer es) (peer_setOptUnchoking False) ps;
     let (yes, no) = parting (\<lambda>e. peer_filter True True (ps ! le_peer e)) es;
     if yes \<noteq> [] then do {
       let yes = shuffle yes;
       ps \<leftarrow> on_peer (le_peer (hd yes)) (peer_setOptUnchoking True) ps;
       Some (ps, yes @ no) }
     else Some (ps, yes @ no) }"

text \<open>The loop over the first entries; the \<open>quota\<close> (\<open>count\<close>) goes down also for peers that are not interested.\<close>

fun unchoke_loop :: "nat \<Rightarrow> le_entry list \<Rightarrow> bool \<Rightarrow> peer list \<Rightarrow> (peer list \<times> bool) option" where
  "unchoke_loop quota [] fast ps = Some (ps, fast)"
| "unchoke_loop 0 es fast ps = Some (ps, fast)"
| "unchoke_loop (Suc quota) (e # es) fast ps = do {
     interested \<leftarrow> peer_peerInterested (ps ! le_peer e);
     if \<not> interested then unchoke_loop quota es fast ps
     else do {
       ps \<leftarrow> on_peer (le_peer e) (peer_setChokingRequired False) ps;
       opt \<leftarrow> peer_optUnchoking (ps ! le_peer e);
       if opt then do {
         ps \<leftarrow> on_peer (le_peer e) (peer_setOptUnchoking False) ps;
         unchoke_loop quota es True ps }
       else unchoke_loop quota es fast ps } }"

definition fastOptUnchoke :: "le_entry list \<Rightarrow> peer list \<Rightarrow> peer list option" where
  "fastOptUnchoke es ps =
     (case find (\<lambda>e. peer_peerInterested (ps ! le_peer e) \<noteq> Some False) es of
        None \<Rightarrow> Some ps
      | Some e \<Rightarrow> on_peer (le_peer e) (peer_setOptUnchoking True) ps)"

definition regular_order ::
  "((le_entry \<Rightarrow> bool) \<Rightarrow> le_entry list \<Rightarrow> le_entry list \<times> le_entry list) \<Rightarrow> (le_entry list \<Rightarrow> le_entry list) \<Rightarrow>
     ((le_entry \<Rightarrow> le_entry \<Rightarrow> bool) \<Rightarrow> le_entry list \<Rightarrow> le_entry list) \<Rightarrow> le_entry list \<Rightarrow> le_entry list" where
  "regular_order parting shuffle sorting es =
     (let (regular, rest) = parting le_regularUnchoker es in sorting le_less regular @ shuffle rest)"

definition regularUnchoke ::
  "((le_entry \<Rightarrow> bool) \<Rightarrow> le_entry list \<Rightarrow> le_entry list \<times> le_entry list) \<Rightarrow> (le_entry list \<Rightarrow> le_entry list) \<Rightarrow>
     ((le_entry \<Rightarrow> le_entry \<Rightarrow> bool) \<Rightarrow> le_entry list \<Rightarrow> le_entry list) \<Rightarrow> le_entry list \<Rightarrow> peer list \<Rightarrow> peer list option" where
  "regularUnchoke parting shuffle sorting es ps = do {
     let es = regular_order parting shuffle sorting es;
     (ps, fast) \<leftarrow> unchoke_loop 3 es False ps;
     if fast then fastOptUnchoke es ps else Some ps }"

text \<open>The loop over the peers; \<open>k\<close> is the position of the next one.\<close>

fun le_collect :: "int \<Rightarrow> nat \<Rightarrow> peer list \<Rightarrow> (peer list \<times> le_entry list) option" where
  "le_collect now k [] = Some ([], [])"
| "le_collect now k (p # ps) =
     (if \<not> isActive p then map_option (\<lambda>(ps, es). (p # ps, es)) (le_collect now (Suc k) ps)
      else do {
        p \<leftarrow> peer_setChokingRequired True p;
        snubbing \<leftarrow> peer_snubbing p;
        if snubbing then do {
          p \<leftarrow> peer_setOptUnchoking False p;
          map_option (\<lambda>(ps, es). (p # ps, es)) (le_collect now (Suc k) ps) }
        else do {
          (p, e) \<leftarrow> le_new now k p;
          map_option (\<lambda>(ps, es). (p # ps, e # es)) (le_collect now (Suc k) ps) } })"

definition leecher_executeChoke ::
  "((le_entry \<Rightarrow> bool) \<Rightarrow> le_entry list \<Rightarrow> le_entry list \<times> le_entry list) \<Rightarrow> (le_entry list \<Rightarrow> le_entry list) \<Rightarrow>
     ((le_entry \<Rightarrow> le_entry \<Rightarrow> bool) \<Rightarrow> le_entry list \<Rightarrow> le_entry list) \<Rightarrow> int \<Rightarrow> choke_state \<Rightarrow> peer list \<Rightarrow>
     (choke_state \<times> peer list) option" where
  "leecher_executeChoke parting shuffle sorting now ch ps = do {
     (ps, es) \<leftarrow> le_collect now 0 ps;
     (ps, es) \<leftarrow> (if ch_round ch = 0 then plannedOptimisticUnchoke parting shuffle es ps else Some (ps, es));
     ps \<leftarrow> regularUnchoke parting shuffle sorting es ps;
     Some (ch\<lparr>ch_lastRound := now, ch_round := next_round (ch_round ch)\<rparr>, ps) }"

subsection \<open>While seeding\<close>

abbreviation TIME_FRAME :: int where
  "TIME_FRAME \<equiv> 20 * SECOND"

record se_entry =
  se_peer :: nat
  se_outstandingUpload :: nat
  se_lastAmUnchoking :: int
  se_recentUnchoking :: bool
  se_uploadSpeed :: int

text \<open>\<open>outstanding k\<close> is what the message dispatcher of the peer at \<open>k\<close> counts.\<close>

definition se_new :: "(nat \<Rightarrow> nat) \<Rightarrow> int \<Rightarrow> nat \<Rightarrow> peer \<Rightarrow> (peer \<times> se_entry) option" where
  "se_new outstanding now k p = do {
     unchoking \<leftarrow> peer_getLastAmUnchoking p;
     (p, speed) \<leftarrow> peer_calculateUploadSpeed now p;
     Some (p, \<lparr>se_peer = k, se_outstandingUpload = outstanding k, se_lastAmUnchoking = unchoking,
       se_recentUnchoking = (tm_difference unchoking now < TIME_FRAME), se_uploadSpeed = speed\<rparr>) }"

definition se_less :: "se_entry \<Rightarrow> se_entry \<Rightarrow> bool" where
  "se_less e rhs =
     (if se_outstandingUpload e \<noteq> 0 \<and> se_outstandingUpload rhs = 0 then True
      else if se_outstandingUpload e = 0 \<and> se_outstandingUpload rhs \<noteq> 0 then False
      else if se_recentUnchoking e \<and> se_lastAmUnchoking e > se_lastAmUnchoking rhs then True
      else if se_recentUnchoking rhs then False
      else se_uploadSpeed e > se_uploadSpeed rhs)"

definition seeder_unchoke ::
  "(se_entry list \<Rightarrow> se_entry list) \<Rightarrow> ((se_entry \<Rightarrow> se_entry \<Rightarrow> bool) \<Rightarrow> se_entry list \<Rightarrow> se_entry list) \<Rightarrow>
     int \<Rightarrow> se_entry list \<Rightarrow> peer list \<Rightarrow> peer list option" where
  "seeder_unchoke shuffle sorting round es ps = do {
     let quota = (if round = 2 then 4 else 3);
     let es = sorting se_less es;
     ps \<leftarrow> on_peers (map se_peer (take quota es)) (peer_setChokingRequired False) ps;
     if round < 2 then do {
       ps \<leftarrow> on_peers (map se_peer es) (peer_setOptUnchoking False) ps;
       if drop quota es \<noteq> [] then on_peer (se_peer (hd (shuffle (drop quota es)))) (peer_setOptUnchoking True) ps
       else Some ps }
     else Some ps }"

fun se_collect :: "(nat \<Rightarrow> nat) \<Rightarrow> int \<Rightarrow> nat \<Rightarrow> peer list \<Rightarrow> (peer list \<times> se_entry list) option" where
  "se_collect outstanding now k [] = Some ([], [])"
| "se_collect outstanding now k (p # ps) =
     (if \<not> isActive p then map_option (\<lambda>(ps, es). (p # ps, es)) (se_collect outstanding now (Suc k) ps)
      else do {
        p \<leftarrow> peer_setChokingRequired True p;
        interested \<leftarrow> peer_peerInterested p;
        if interested then do {
          (p, e) \<leftarrow> se_new outstanding now k p;
          map_option (\<lambda>(ps, es). (p # ps, e # es)) (se_collect outstanding now (Suc k) ps) }
        else do {
          p \<leftarrow> peer_setOptUnchoking False p;
          map_option (\<lambda>(ps, es). (p # ps, es)) (se_collect outstanding now (Suc k) ps) } })"

definition seeder_executeChoke ::
  "(se_entry list \<Rightarrow> se_entry list) \<Rightarrow> ((se_entry \<Rightarrow> se_entry \<Rightarrow> bool) \<Rightarrow> se_entry list \<Rightarrow> se_entry list) \<Rightarrow>
     (nat \<Rightarrow> nat) \<Rightarrow> int \<Rightarrow> choke_state \<Rightarrow> peer list \<Rightarrow> (choke_state \<times> peer list) option" where
  "seeder_executeChoke shuffle sorting outstanding now ch ps = do {
     (ps, es) \<leftarrow> se_collect outstanding now 0 ps;
     ps \<leftarrow> seeder_unchoke shuffle sorting (ch_round ch) es ps;
     Some (ch\<lparr>ch_lastRound := now, ch_round := next_round (ch_round ch)\<rparr>, ps) }"

end
