(* ===== verification/ChokeProps.thy ===== *)
theory ChokeProps
  imports Choke
begin

text \<open>
  The choke rounds as operations on sets of positions: who is active, who is interested, who is
  regularly unchoked and who optimistically; then what one round does to these sets.
\<close>

subsection \<open>Sets of peers\<close>

definition peers_with :: "(session_resource \<Rightarrow> bool) \<Rightarrow> peer list \<Rightarrow> nat set" where
  "peers_with P ps = {k. k < length ps \<and> (\<exists>r. pr_res (ps ! k) = Some r \<and> P r)}"

abbreviation actives :: "peer list \<Rightarrow> nat set" where "actives \<equiv> peers_with (\<lambda>_. True)"
abbreviation interested :: "peer list \<Rightarrow> nat set" where "interested \<equiv> peers_with sr_peerInterested"
abbreviation snubbed :: "peer list \<Rightarrow> nat set" where "snubbed \<equiv> peers_with sr_snubbing"
abbreviation unchoked :: "peer list \<Rightarrow> nat set" where "unchoked \<equiv> peers_with (\<lambda>r. \<not> sr_chokingRequired r)"
abbreviation optimistic :: "peer list \<Rightarrow> nat set" where "optimistic \<equiv> peers_with sr_optUnchoking"

lemma peers_with_finite [simp, intro]: "finite (peers_with P ps)"
  by (simp add: peers_with_def)

lemma peers_with_active: "k \<in> peers_with P ps \<Longrightarrow> k \<in> actives ps"
  by (auto simp: peers_with_def)

text \<open>What a round does not touch.\<close>

definition core :: "peer \<Rightarrow> (bool \<times> bool \<times> bool) option" where
  "core p = map_option (\<lambda>r. (sr_amChoking r, sr_peerInterested r, sr_snubbing r)) (pr_res p)"

definition same_peers :: "peer list \<Rightarrow> peer list \<Rightarrow> bool" where
  "same_peers ps ps' \<longleftrightarrow> length ps' = length ps \<and> (\<forall>k<length ps. core (ps' ! k) = core (ps ! k)) \<and>
     (\<forall>k<length ps. pr_res (ps ! k) = None \<longrightarrow> ps' ! k = ps ! k)"

lemma same_peers_refl [simp]: "same_peers ps ps"
  by (simp add: same_peers_def)

lemma core_None: "core p = None \<longleftrightarrow> pr_res p = None"
  by (simp add: core_def)

lemma same_peers_trans: "same_peers ps qs \<Longrightarrow> same_peers qs rs \<Longrightarrow> same_peers ps rs"
  unfolding same_peers_def by (metis core_None)

lemma same_sets:
  assumes "same_peers ps ps'"
  shows "actives ps' = actives ps" "interested ps' = interested ps" "snubbed ps' = snubbed ps"
    "length ps' = length ps"
proof -
  have c: "core (ps' ! k) = core (ps ! k)" if "k < length ps" for k using assms that by (simp add: same_peers_def)
  show len: "length ps' = length ps" using assms by (simp add: same_peers_def)
  have "(\<exists>r. pr_res (ps' ! k) = Some r \<and> Q (sr_amChoking r, sr_peerInterested r, sr_snubbing r)) \<longleftrightarrow>
      (\<exists>r. pr_res (ps ! k) = Some r \<and> Q (sr_amChoking r, sr_peerInterested r, sr_snubbing r))"
    if "k < length ps" for k Q
    using c [OF that] by (cases "pr_res (ps' ! k)"; cases "pr_res (ps ! k)") (auto simp: core_def)
  note Q = this [where Q = "\<lambda>_. True"] this [where Q = "\<lambda>(c, i, s). i"] this [where Q = "\<lambda>(c, i, s). s"]
  show "actives ps' = actives ps" "interested ps' = interested ps" "snubbed ps' = snubbed ps"
    unfolding peers_with_def len using Q by (simp_all cong: conj_cong)
qed

lemma peer_filter_same:
  assumes "same_peers ps ps'" and "k < length ps"
  shows "peer_filter c i (ps' ! k) = peer_filter c i (ps ! k)"
proof -
  have "core (ps' ! k) = core (ps ! k)" using assms by (simp add: same_peers_def)
  then show ?thesis
    by (cases "pr_res (ps' ! k)"; cases "pr_res (ps ! k)")
      (auto simp: core_def peer_filter_def peer_amChoking_def peer_peerInterested_def ask_res_def)
qed

subsection \<open>Setting a flag\<close>

lemma on_peer_set:
  assumes "k \<in> actives ps" and "\<And>r. (sr_amChoking (f r), sr_peerInterested (f r), sr_snubbing (f r)) =
      (sr_amChoking r, sr_peerInterested r, sr_snubbing r)"
  shows "\<exists>ps' r. on_peer k (with_res f) ps = Some ps' \<and> same_peers ps ps' \<and> pr_res (ps ! k) = Some r \<and>
    (\<forall>P. peers_with P ps' = (if P (f r) then insert k (peers_with P ps) else peers_with P ps - {k}))"
proof -
  from assms(1) obtain r where k: "k < length ps" "pr_res (ps ! k) = Some r" by (auto simp: peers_with_def)
  let ?p = "(ps ! k)\<lparr>pr_res := Some (f r)\<rparr>"
  have "on_peer k (with_res f) ps = Some (ps[k := ?p])" using k by (simp add: on_peer_def with_res_def)
  moreover have "same_peers ps (ps[k := ?p])"
    using k assms(2) [of r] by (auto simp: same_peers_def nth_list_update core_def)
  moreover have "peers_with P (ps[k := ?p]) = (if P (f r) then insert k (peers_with P ps) else peers_with P ps - {k})" for P
    using k by (auto simp: peers_with_def nth_list_update split: if_splits)
  ultimately show ?thesis using k(2) by blast
qed

lemma set_opt:
  assumes "k \<in> actives ps"
  shows "\<exists>ps'. on_peer k (peer_setOptUnchoking b) ps = Some ps' \<and> same_peers ps ps' \<and> unchoked ps' = unchoked ps \<and>
    optimistic ps' = (if b then insert k (optimistic ps) else optimistic ps - {k})"
proof -
  obtain ps' r where ps': "on_peer k (with_res (sr_setOptUnchoking b)) ps = Some ps'" "same_peers ps ps'"
      "pr_res (ps ! k) = Some r" and
    set: "\<And>P. peers_with P ps' = (if P (sr_setOptUnchoking b r) then insert k (peers_with P ps) else peers_with P ps - {k})"
    using on_peer_set [OF assms, of "sr_setOptUnchoking b"] by (auto simp: sr_setOptUnchoking_def)
  have "k < length ps" using assms by (simp add: peers_with_def)
  then have "unchoked ps' = unchoked ps" "optimistic ps' = (if b then insert k (optimistic ps) else optimistic ps - {k})"
    using ps'(3) by (auto simp: set sr_setOptUnchoking_def) (auto simp: peers_with_def)
  then show ?thesis using ps' by (simp add: peer_setOptUnchoking_def)
qed

lemma set_required:
  assumes "k \<in> actives ps"
  shows "\<exists>ps'. on_peer k (peer_setChokingRequired False) ps = Some ps' \<and> same_peers ps ps' \<and>
    optimistic ps' = optimistic ps \<and> unchoked ps' = insert k (unchoked ps)"
proof -
  obtain ps' r where ps': "on_peer k (with_res (sr_setChokingRequired False)) ps = Some ps'" "same_peers ps ps'"
      "pr_res (ps ! k) = Some r" and
    set: "\<And>P. peers_with P ps' = (if P (sr_setChokingRequired False r) then insert k (peers_with P ps) else peers_with P ps - {k})"
    using on_peer_set [OF assms, of "sr_setChokingRequired False"] by (auto simp: sr_setChokingRequired_def)
  have "k < length ps" using assms by (simp add: peers_with_def)
  then have "optimistic ps' = optimistic ps" "unchoked ps' = insert k (unchoked ps)"
    using ps'(3) by (auto simp: set sr_setChokingRequired_def) (auto simp: peers_with_def)
  then show ?thesis using ps' by (simp add: peer_setChokingRequired_def)
qed

lemma on_peers_opt:
  "set ks \<subseteq> actives ps \<Longrightarrow> \<exists>ps'. on_peers ks (peer_setOptUnchoking False) ps = Some ps' \<and> same_peers ps ps' \<and>
     unchoked ps' = unchoked ps \<and> optimistic ps' = optimistic ps - set ks"
proof (induction ks arbitrary: ps)
  case (Cons k ks)
  from set_opt [of k ps False] Cons.prems obtain qs where qs: "on_peer k (peer_setOptUnchoking False) ps = Some qs"
    "same_peers ps qs" "unchoked qs = unchoked ps" "optimistic qs = optimistic ps - {k}" by auto
  from Cons.IH [of qs] Cons.prems same_sets [OF qs(2)] obtain ps' where
    "on_peers ks (peer_setOptUnchoking False) qs = Some ps'" "same_peers qs ps'" "unchoked ps' = unchoked qs"
    "optimistic ps' = optimistic qs - set ks" by auto
  then show ?case using qs same_peers_trans by auto
qed simp

lemma on_peers_required:
  "set ks \<subseteq> actives ps \<Longrightarrow> \<exists>ps'. on_peers ks (peer_setChokingRequired False) ps = Some ps' \<and> same_peers ps ps' \<and>
     optimistic ps' = optimistic ps \<and> unchoked ps' = unchoked ps \<union> set ks"
proof (induction ks arbitrary: ps)
  case (Cons k ks)
  from set_required [of k ps] Cons.prems obtain qs where qs: "on_peer k (peer_setChokingRequired False) ps = Some qs"
    "same_peers ps qs" "optimistic qs = optimistic ps" "unchoked qs = insert k (unchoked ps)" by auto
  from Cons.IH [of qs] Cons.prems same_sets [OF qs(2)] obtain ps' where
    "on_peers ks (peer_setChokingRequired False) qs = Some ps'" "same_peers qs ps'" "optimistic ps' = optimistic qs"
    "unchoked ps' = unchoked qs \<union> set ks" by auto
  then show ?case using qs same_peers_trans by auto
qed simp

subsection \<open>Collecting the entries of a leecher\<close>

text \<open>
  What the loop makes of a peer and the entry it makes for it; a peer that snubs us has none.
\<close>

definition downloadSpeedOf :: "int \<Rightarrow> peer \<Rightarrow> int" where
  "downloadSpeedOf now p = (case pr_res p of None \<Rightarrow> 0 | Some r \<Rightarrow> snd (calculateDownloadSpeed now (sr_netStat r)))"

definition regular_unchoker :: "int \<Rightarrow> peer \<Rightarrow> bool" where
  "regular_unchoker now p \<longleftrightarrow> (case pr_res p of None \<Rightarrow> False
     | Some r \<Rightarrow> sr_peerInterested r \<and> tm_difference (sr_lastDownloadUpdate r) now < 30 * SECOND)"

definition le_touched :: "int \<Rightarrow> peer \<Rightarrow> peer" where
  "le_touched now p = (case pr_res p of None \<Rightarrow> p | Some r \<Rightarrow>
     if sr_snubbing r then p\<lparr>pr_res := Some (r\<lparr>sr_chokingRequired := True, sr_optUnchoking := False\<rparr>)\<rparr>
     else p\<lparr>pr_res := Some (r\<lparr>sr_chokingRequired := True, sr_netStat := fst (calculateDownloadSpeed now (sr_netStat r))\<rparr>)\<rparr>)"

definition le_eligible :: "peer \<Rightarrow> bool" where
  "le_eligible p \<longleftrightarrow> (case pr_res p of None \<Rightarrow> False | Some r \<Rightarrow> \<not> sr_snubbing r)"

definition le_of :: "int \<Rightarrow> nat \<times> peer \<Rightarrow> le_entry" where
  "le_of now x = \<lparr>le_peer = fst x, le_downloadSpeed = downloadSpeedOf now (snd x),
     le_regularUnchoker = regular_unchoker now (snd x)\<rparr>"

lemma le_collect_eq:
  "le_collect now k ps = Some (map (le_touched now) ps,
     map (le_of now) (filter (\<lambda>x. le_eligible (snd x)) (enumerate k ps)))"
proof (induction ps arbitrary: k)
  case (Cons p ps)
  show ?case
  proof (cases "pr_res p")
    case None
    then show ?thesis by (simp add: Cons.IH isActive_def le_touched_def le_eligible_def)
  next
    case (Some r)
    then show ?thesis
      by (cases p; cases r)
        (simp add: Cons.IH isActive_def le_touched_def le_eligible_def le_of_def le_new_def downloadSpeedOf_def
          regular_unchoker_def peer_setChokingRequired_def peer_setOptUnchoking_def peer_snubbing_def with_res_def ask_res_def
          sr_setChokingRequired_def sr_setOptUnchoking_def peer_calculateDownloadSpeed_def peer_peerInterested_def
          peer_getLastDownloadUpdate_def case_prod_unfold Let_def)
  qed
qed simp

lemma touched_sets:
  "same_peers ps (map (le_touched now) ps)" "unchoked (map (le_touched now) ps) = {}"
  "optimistic (map (le_touched now) ps) = optimistic ps - snubbed ps"
proof -
  have "core (le_touched now p) = core p" "pr_res p = None \<Longrightarrow> le_touched now p = p" for p
    by (cases "pr_res p"; simp add: core_def le_touched_def)+
  then show "same_peers ps (map (le_touched now) ps)" by (simp add: same_peers_def)
  have "pr_res (le_touched now p) = Some r \<Longrightarrow> sr_chokingRequired r" for p r
    by (cases "pr_res p") (auto simp: le_touched_def split: if_splits)
  then show "unchoked (map (le_touched now) ps) = {}" by (auto simp: peers_with_def)
  show "optimistic (map (le_touched now) ps) = optimistic ps - snubbed ps"
  proof (rule set_eqI)
    fix k
    show "k \<in> optimistic (map (le_touched now) ps) \<longleftrightarrow> k \<in> optimistic ps - snubbed ps"
      by (cases "k < length ps"; cases "pr_res (ps ! k)") (auto simp: peers_with_def le_touched_def)
  qed
qed

lemma eligible_peers: "le_peer ` set (map (le_of now) (filter (\<lambda>x. le_eligible (snd x)) (enumerate 0 ps))) = actives ps - snubbed ps"
proof -
  have "le_eligible p \<longleftrightarrow> (\<exists>r. pr_res p = Some r \<and> \<not> sr_snubbing r)" for p
    by (cases "pr_res p") (simp_all add: le_eligible_def)
  then show ?thesis
    by (force simp: peers_with_def le_of_def in_set_enumerate_eq image_iff)
qed

lemma le_entries:
  defines "es ps now \<equiv> map (le_of now) (filter (\<lambda>x. le_eligible (snd x)) (enumerate 0 ps))"
  shows "distinct (map le_peer (es ps now))"
    and "e \<in> set (es ps now) \<Longrightarrow> e = le_of now (le_peer e, ps ! le_peer e)"
proof -
  have "map le_peer (es ps now) = map fst (filter (\<lambda>x. le_eligible (snd x)) (enumerate 0 ps))"
    by (simp add: es_def le_of_def comp_def)
  moreover have "distinct (map fst (enumerate 0 ps))" by (simp add: enumerate_eq_zip)
  ultimately show "distinct (map le_peer (es ps now))" by (simp add: distinct_map_filter)
  show "e \<in> set (es ps now) \<Longrightarrow> e = le_of now (le_peer e, ps ! le_peer e)"
    by (auto simp: es_def le_of_def in_set_enumerate_eq)
qed

end
