(* ===== verification/ChokeRounds.thy ===== *)
theory ChokeRounds
  imports ChokeProps
begin

text \<open>
  What the steps of a choke round do to the sets of peers, from the laws of the standard
  algorithms alone.
\<close>

subsection \<open>The standard algorithms on sets\<close>

context std_algorithms
begin

lemma parting_sets:
  assumes "parting P xs = (ys, zs)"
  shows "set ys = {x \<in> set xs. P x}" "set zs = {x \<in> set xs. \<not> P x}" "mset (ys @ zs) = mset xs"
proof -
  have y: "mset ys = filter_mset P (mset xs)" and z: "mset zs = filter_mset (\<lambda>x. \<not> P x) (mset xs)"
    using parting_yes [OF assms] parting_no [OF assms] .
  show "set ys = {x \<in> set xs. P x}" using arg_cong [OF y, of set_mset] by simp
  show "set zs = {x \<in> set xs. \<not> P x}" using arg_cong [OF z, of set_mset] by simp
  show "mset (ys @ zs) = mset xs" using y z by (simp add: multiset_partition [symmetric])
qed

lemma shuffle_set [simp]: "set (shuffle xs) = set xs"
  using arg_cong [OF shuffle_mset, of set_mset] by simp

lemma shuffle_nonempty: "xs \<noteq> [] \<Longrightarrow> hd (shuffle xs) \<in> set xs"
  using shuffle_set [of xs] hd_in_set [of "shuffle xs"] by (metis set_empty2)

lemma sorting_set: "strict_weak_on (set xs) before \<Longrightarrow> set (sorting before xs) = set xs"
  using arg_cong [OF sorting_mset, of _ before set_mset] by simp

end

lemma mset_map_distinct: "mset xs = mset ys \<Longrightarrow> distinct (map f xs) \<longleftrightarrow> distinct (map f ys)"
  by (metis mset_eq_imp_distinct_iff mset_map)

subsection \<open>The optimistic unchoke of round 0\<close>

lemma planned_spec:
  assumes alg: "std_algorithms parting shuffle sorting" and act: "le_peer ` set es \<subseteq> actives ps"
  defines "C \<equiv> {k \<in> le_peer ` set es. peer_filter True True (ps ! k)}"
  shows "\<exists>ps' es' c. plannedOptimisticUnchoke parting shuffle es ps = Some (ps', es') \<and> same_peers ps ps' \<and>
    mset es' = mset es \<and> unchoked ps' = unchoked ps \<and> optimistic ps' = (optimistic ps - le_peer ` set es) \<union> c \<and>
    (if C = {} then c = {} else \<exists>k\<in>C. c = {k})"
proof -
  note parting_sets = std_algorithms.parting_sets [OF alg] and shuffle_nonempty = std_algorithms.shuffle_nonempty [OF alg]
    and shuffle_mset = std_algorithms.shuffle_mset [OF alg]
  have "set (map le_peer es) \<subseteq> actives ps" using act by simp
  from on_peers_opt [OF this] obtain qs where qs: "on_peers (map le_peer es) (peer_setOptUnchoking False) ps = Some qs"
    "same_peers ps qs" "unchoked qs = unchoked ps" "optimistic qs = optimistic ps - le_peer ` set es" by auto
  obtain ys zs where part: "parting (\<lambda>e. peer_filter True True (qs ! le_peer e)) es = (ys, zs)" by fastforce
  note P = parting_sets [OF part]
  have "peer_filter True True (qs ! k) = peer_filter True True (ps ! k)" if "k \<in> le_peer ` set es" for k
    by (rule peer_filter_same [OF qs(2)]) (use act that in \<open>auto simp: peers_with_def\<close>)
  then have C: "C = le_peer ` set ys" using P(1) by (auto simp: C_def)
  show ?thesis
  proof (cases "ys = []")
    case True
    then show ?thesis using qs part C P(3)
      by (intro exI [of _ qs] exI [of _ "ys @ zs"] exI [of _ "{}"]) (simp add: plannedOptimisticUnchoke_def)
  next
    case False
    let ?e = "hd (shuffle ys)"
    have e: "?e \<in> set ys" using False by (rule shuffle_nonempty)
    then have "le_peer ?e \<in> actives qs" using P(1) act same_sets(1) [OF qs(2)] by auto
    from set_opt [OF this, of True] obtain ps' where ps': "on_peer (le_peer ?e) (peer_setOptUnchoking True) qs = Some ps'"
      "same_peers qs ps'" "unchoked ps' = unchoked qs" "optimistic ps' = insert (le_peer ?e) (optimistic qs)" by auto
    have "C \<noteq> {}" "le_peer ?e \<in> C" using e C by auto
    moreover have "mset (shuffle ys @ zs) = mset es" using P(3) shuffle_mset by simp
    ultimately show ?thesis using qs part ps' False same_peers_trans [OF qs(2) ps'(2)]
      by (intro exI [of _ ps'] exI [of _ "shuffle ys @ zs"] exI [of _ "{le_peer ?e}"])
        (auto simp: plannedOptimisticUnchoke_def Let_def)
  qed
qed

subsection \<open>The regular unchoke\<close>

lemma interested_flag:
  "k \<in> actives ps \<Longrightarrow> peer_peerInterested (ps ! k) = Some (k \<in> interested ps)"
  "k \<in> actives ps \<Longrightarrow> peer_optUnchoking (ps ! k) = Some (k \<in> optimistic ps)"
  by (auto simp: peers_with_def peer_peerInterested_def peer_optUnchoking_def ask_res_def)

lemma unchoke_loop_spec:
  "le_peer ` set es \<subseteq> actives ps \<Longrightarrow> distinct (map le_peer es) \<Longrightarrow>
   \<exists>ps' fast'. unchoke_loop n es fast ps = Some (ps', fast') \<and> same_peers ps ps' \<and>
     (let U = le_peer ` set (take n es) \<inter> interested ps in
      unchoked ps' = unchoked ps \<union> U \<and> optimistic ps' = optimistic ps - U \<and>
      (fast' \<longleftrightarrow> fast \<or> U \<inter> optimistic ps \<noteq> {}))"
proof (induction n es fast ps rule: unchoke_loop.induct)
  case (3 n e es fast ps)
  let ?k = "le_peer e"
  have k: "?k \<in> actives ps" and rest: "le_peer ` set es \<subseteq> actives ps" "distinct (map le_peer es)"
    and new: "?k \<notin> le_peer ` set es" using "3.prems" by auto
  note flags = interested_flag [OF k]
  show ?case
  proof (cases "?k \<in> interested ps")
    case False
    from "3.IH"(1) [OF flags(1) _ rest] False obtain ps' fast' where "unchoke_loop n es fast ps = Some (ps', fast')"
      "same_peers ps ps'" "unchoked ps' = unchoked ps \<union> (le_peer ` set (take n es) \<inter> interested ps)"
      "optimistic ps' = optimistic ps - (le_peer ` set (take n es) \<inter> interested ps)"
      "fast' \<longleftrightarrow> fast \<or> (le_peer ` set (take n es) \<inter> interested ps) \<inter> optimistic ps \<noteq> {}" by (auto simp: Let_def)
    then show ?thesis using flags(1) False by (auto simp: Let_def)
  next
    case True
    from set_required [OF k] obtain qs where qs: "on_peer ?k (peer_setChokingRequired False) ps = Some qs"
      "same_peers ps qs" "optimistic qs = optimistic ps" "unchoked qs = insert ?k (unchoked ps)" by blast
    note sq = same_sets [OF qs(2)]
    have kq: "?k \<in> actives qs" and restq: "le_peer ` set es \<subseteq> actives qs" using k rest sq by auto
    have oq: "peer_optUnchoking (qs ! ?k) = Some (?k \<in> optimistic ps)" using interested_flag(2) [OF kq] qs(3) by simp
    have new': "?k \<notin> le_peer ` set (take n es)" using new by (auto dest: in_set_takeD)
    show ?thesis
    proof (cases "?k \<in> optimistic ps")
      case False
      from "3.IH"(3) [OF flags(1) _ qs(1) oq _ restq rest(2)] True False obtain ps' fast' where
        "unchoke_loop n es fast qs = Some (ps', fast')" "same_peers qs ps'"
        "unchoked ps' = unchoked qs \<union> (le_peer ` set (take n es) \<inter> interested ps)"
        "optimistic ps' = optimistic qs - (le_peer ` set (take n es) \<inter> interested ps)"
        "fast' \<longleftrightarrow> fast \<or> (le_peer ` set (take n es) \<inter> interested ps) \<inter> optimistic qs \<noteq> {}" using sq by (auto simp: Let_def)
      then show ?thesis using flags(1) True False qs oq same_peers_trans [OF qs(2)] by (auto simp: Let_def)
    next
      case opt: True
      from set_opt [OF kq, of False] obtain rs where rs: "on_peer ?k (peer_setOptUnchoking False) qs = Some rs"
        "same_peers qs rs" "unchoked rs = unchoked qs" "optimistic rs = optimistic qs - {?k}" by auto
      note sr = same_sets [OF rs(2)]
      have restr: "le_peer ` set es \<subseteq> actives rs" using restq sr by simp
      from "3.IH"(2) [OF flags(1) _ qs(1) oq _ rs(1) restr rest(2)] True opt obtain ps' fast' where
        "unchoke_loop n es True rs = Some (ps', fast')" "same_peers rs ps'"
        "unchoked ps' = unchoked rs \<union> (le_peer ` set (take n es) \<inter> interested ps)"
        "optimistic ps' = optimistic rs - (le_peer ` set (take n es) \<inter> interested ps)" "fast'" using sq sr by (auto simp: Let_def)
      then show ?thesis using flags(1) True opt qs rs oq same_peers_trans [OF same_peers_trans [OF qs(2) rs(2)]]
        by (auto simp: Let_def)
    qed
  qed
qed (auto simp: Let_def)

lemma find_append_some: "find Q xs = Some e \<Longrightarrow> find Q (xs @ ys) = Some e"
  by (induction xs) auto

text \<open>The first interested entry is among those that the loop has served.\<close>

lemma find_served:
  assumes "x \<in> set (take n xs)" and "Q x"
  shows "\<exists>e\<in>set (take n xs). find Q xs = Some e \<and> Q e"
proof -
  have "find Q (take n xs) \<noteq> None" using assms by (auto simp: find_None_iff)
  then obtain e where e: "find Q (take n xs) = Some e" by auto
  then have "e \<in> set (take n xs)" "Q e" by (auto simp: find_Some_iff in_set_conv_nth)
  moreover have "find Q (take n xs @ drop n xs) = Some e"
    using e by (rule find_append_some)
  ultimately show ?thesis by auto
qed

lemma fast_spec:
  assumes act: "le_peer ` set es \<subseteq> actives ps" and x: "x \<in> set (take n es)" "le_peer x \<in> interested ps"
  shows "\<exists>ps' k. fastOptUnchoke es ps = Some ps' \<and> same_peers ps ps' \<and> unchoked ps' = unchoked ps \<and>
    k \<in> le_peer ` set (take n es) \<inter> interested ps \<and> optimistic ps' = insert k (optimistic ps)"
proof -
  have flag: "peer_peerInterested (ps ! le_peer e) \<noteq> Some False \<longleftrightarrow> le_peer e \<in> interested ps" if "e \<in> set es" for e
    using interested_flag(1) [of "le_peer e" ps] act that by auto
  have sub: "set (take n es) \<subseteq> set es" by (rule set_take_subset)
  have "peer_peerInterested (ps ! le_peer x) \<noteq> Some False" using flag x sub by blast
  from find_served [of x n es "\<lambda>e. peer_peerInterested (ps ! le_peer e) \<noteq> Some False", OF x(1) this]
  obtain e where e: "e \<in> set (take n es)" "find (\<lambda>e. peer_peerInterested (ps ! le_peer e) \<noteq> Some False) es = Some e"
    "peer_peerInterested (ps ! le_peer e) \<noteq> Some False" by blast
  have "le_peer e \<in> interested ps" "le_peer e \<in> actives ps" using flag e sub act by blast+
  from set_opt [OF this(2), of True] this e show ?thesis by (auto simp: fastOptUnchoke_def)
qed

lemma regular_spec:
  assumes alg: "std_algorithms parting shuffle sorting" and act: "le_peer ` set es \<subseteq> actives ps"
    and dist: "distinct (map le_peer es)" and perm: "mset (regular_order parting shuffle sorting es) = mset es"
  defines "U \<equiv> le_peer ` set (take 3 (regular_order parting shuffle sorting es)) \<inter> interested ps"
  shows "\<exists>ps'. regularUnchoke parting shuffle sorting es ps = Some ps' \<and> same_peers ps ps' \<and>
    unchoked ps' = unchoked ps \<union> U \<and>
    (if U \<inter> optimistic ps = {} then optimistic ps' = optimistic ps
     else \<exists>k\<in>U. optimistic ps' = insert k (optimistic ps - U))"
proof -
  let ?es = "regular_order parting shuffle sorting es"
  have set: "set ?es = set es" using perm by (rule mset_eq_setD)
  have act': "le_peer ` set ?es \<subseteq> actives ps" using act set by simp
  have dist': "distinct (map le_peer ?es)" using dist mset_map_distinct [OF perm, of le_peer] by simp
  from unchoke_loop_spec [OF act' dist', of 3 False] obtain qs fast where qs:
    "unchoke_loop 3 ?es False ps = Some (qs, fast)" "same_peers ps qs" "unchoked qs = unchoked ps \<union> U"
    "optimistic qs = optimistic ps - U" "fast \<longleftrightarrow> U \<inter> optimistic ps \<noteq> {}" by (auto simp: U_def Let_def)
  show ?thesis
  proof (cases fast)
    case False
    then have "optimistic ps - U = optimistic ps" using qs(5) by blast
    then show ?thesis using qs False by (auto simp: regularUnchoke_def Let_def)
  next
    case True
    note sq = same_sets [OF qs(2)]
    from True obtain x where x: "x \<in> set (take 3 ?es)" "le_peer x \<in> interested qs"
      using qs(5) sq by (auto simp: U_def)
    from fast_spec [of ?es qs, OF _ x] act' sq obtain ps' k where "fastOptUnchoke ?es qs = Some ps'" "same_peers qs ps'"
      "unchoked ps' = unchoked qs" "k \<in> U" "optimistic ps' = insert k (optimistic qs)" by (auto simp: U_def)
    then show ?thesis using qs True same_peers_trans [OF qs(2)]
      by (auto simp: regularUnchoke_def Let_def intro!: exI [of _ ps'])
  qed
qed

text \<open>Where the regular unchokers are in that order.\<close>

lemma le_less_weak: "strict_weak_on A le_less"
  by (auto simp: strict_weak_on_def le_less_def)

lemma regular_order_spec:
  assumes alg: "std_algorithms parting shuffle sorting"
  obtains rs ts where "regular_order parting shuffle sorting es = rs @ ts" "set rs = {e \<in> set es. le_regularUnchoker e}"
    "set ts = {e \<in> set es. \<not> le_regularUnchoker e}" "mset (rs @ ts) = mset es"
    "sorted_wrt (\<lambda>x y. le_downloadSpeed y \<le> le_downloadSpeed x) rs"
proof -
  obtain ys zs where part: "parting le_regularUnchoker es = (ys, zs)" by fastforce
  note P = std_algorithms.parting_sets [OF alg part]
  note m = std_algorithms.sorting_mset [OF alg le_less_weak, of ys] std_algorithms.shuffle_mset [OF alg, of zs]
  have "sorted_wrt (\<lambda>x y. \<not> le_less y x) (sorting le_less ys)" by (rule std_algorithms.sorting_sorted [OF alg le_less_weak])
  then have "sorted_wrt (\<lambda>x y. le_downloadSpeed y \<le> le_downloadSpeed x) (sorting le_less ys)"
    by (simp add: le_less_def not_less)
  moreover have "set (sorting le_less ys) = set ys" "set (shuffle zs) = set zs" using m by (auto dest: mset_eq_setD)
  moreover have "mset (sorting le_less ys @ shuffle zs) = mset es" using m P(3) by simp
  ultimately show ?thesis using part P(1,2) that [of "sorting le_less ys" "shuffle zs"] by (simp add: regular_order_def)
qed

text \<open>The first three of such an order: all regular ones if there are at most three, else the fastest.\<close>

lemma first_three:
  fixes f :: "'e \<Rightarrow> nat" and speed :: "'e \<Rightarrow> int"
  assumes srt: "sorted_wrt (\<lambda>x y. speed y \<le> speed x) rs" and dist: "distinct (map f (rs @ ts))"
  defines "T \<equiv> set (take 3 (rs @ ts))"
  shows "card (f ` T) \<le> 3" and "card (f ` set rs) \<le> 3 \<Longrightarrow> set rs \<subseteq> T"
    and "3 \<le> card (f ` set rs) \<Longrightarrow> T \<subseteq> set rs \<and> card (f ` T) = 3 \<and> (\<forall>x\<in>set rs - T. \<forall>y\<in>T. speed x \<le> speed y)"
proof -
  have inj: "card (f ` set xs) = length xs" if "distinct (map f xs)" for xs
    using that distinct_card [of "map f xs"] by simp
  have dt: "distinct (map f (take 3 (rs @ ts)))" using dist by (metis distinct_take take_map)
  have dr: "distinct (map f rs)" using dist by simp
  show "card (f ` T) \<le> 3" using inj [OF dt] by (simp add: T_def)
  show "set rs \<subseteq> T" if "card (f ` set rs) \<le> 3"
  proof -
    have "length rs \<le> 3" using that inj [OF dr] by simp
    then show ?thesis by (simp add: T_def)
  qed
  show "T \<subseteq> set rs \<and> card (f ` T) = 3 \<and> (\<forall>x\<in>set rs - T. \<forall>y\<in>T. speed x \<le> speed y)" if "3 \<le> card (f ` set rs)"
  proof -
    have l: "3 \<le> length rs" using that inj [OF dr] by simp
    then have T: "T = set (take 3 rs)" by (simp add: T_def)
    have "sorted_wrt (\<lambda>x y. speed y \<le> speed x) (take 3 rs @ drop 3 rs)" using srt by simp
    then have "\<forall>y\<in>set (take 3 rs). \<forall>x\<in>set (drop 3 rs). speed x \<le> speed y" unfolding sorted_wrt_append by blast
    moreover have "set rs - T \<subseteq> set (drop 3 rs)" unfolding T by (metis Un_Diff_cancel2 append_take_drop_id set_append Diff_subset_conv le_sup_iff subset_Un_eq Un_commute order_refl)
    moreover have "card (f ` T) = 3" using inj [OF dt] l by (simp add: T_def)
    ultimately show ?thesis unfolding T by (auto dest: in_set_takeD)
  qed
qed

subsection \<open>An implementation of the standard algorithms\<close>

text \<open>The interface can be met: a stable partition, the identity and insertion sort.\<close>

definition stable_parting :: "('e \<Rightarrow> bool) \<Rightarrow> 'e list \<Rightarrow> 'e list \<times> 'e list" where
  "stable_parting P xs = (filter P xs, filter (\<lambda>x. \<not> P x) xs)"

fun insert_by :: "('e \<Rightarrow> 'e \<Rightarrow> bool) \<Rightarrow> 'e \<Rightarrow> 'e list \<Rightarrow> 'e list" where
  "insert_by before x [] = [x]"
| "insert_by before x (y # ys) = (if before y x then y # insert_by before x ys else x # y # ys)"

definition insertion_sort :: "('e \<Rightarrow> 'e \<Rightarrow> bool) \<Rightarrow> 'e list \<Rightarrow> 'e list" where
  "insertion_sort before xs = foldr (insert_by before) xs []"

lemma strict_weak_trans:
  assumes "strict_weak_on A before" and "x \<in> A" "y \<in> A" "z \<in> A" and "\<not> before y x" "\<not> before z y"
  shows "\<not> before z x"
  using assms unfolding strict_weak_on_def by meson

lemma insert_by_mset [simp]: "mset (insert_by before x ys) = add_mset x (mset ys)"
  by (induction ys) auto

lemma insert_by_set [simp]: "set (insert_by before x ys) = insert x (set ys)"
  by (induction ys) auto

lemma insert_by_sorted:
  assumes weak: "strict_weak_on A before" and x: "x \<in> A"
  shows "set ys \<subseteq> A \<Longrightarrow> sorted_wrt (\<lambda>x y. \<not> before y x) ys \<Longrightarrow> sorted_wrt (\<lambda>x y. \<not> before y x) (insert_by before x ys)"
proof (induction ys)
  case (Cons y ys)
  have y: "y \<in> A" "set ys \<subseteq> A" and srt: "sorted_wrt (\<lambda>x y. \<not> before y x) ys" "\<forall>z\<in>set ys. \<not> before z y"
    using Cons.prems by simp_all
  show ?case
  proof (cases "before y x")
    case True
    then have "\<not> before x y" using weak x y(1) unfolding strict_weak_on_def by blast
    then show ?thesis using Cons.IH [OF y(2) srt(1)] srt(2) True by simp
  next
    case False
    have "\<not> before z x" if "z \<in> set ys" for z
      using strict_weak_trans [OF weak x y(1) _ False] y(2) srt(2) that by blast
    then show ?thesis using srt False by simp
  qed
qed simp

lemma insertion_sort_mset: "mset (insertion_sort before xs) = mset xs"
  by (induction xs) (simp_all add: insertion_sort_def)

lemma insertion_sort_sorted:
  assumes "strict_weak_on A before"
  shows "set xs \<subseteq> A \<Longrightarrow> sorted_wrt (\<lambda>x y. \<not> before y x) (insertion_sort before xs)"
proof (induction xs)
  case (Cons x xs)
  have "set (insertion_sort before xs) = set xs" using mset_eq_setD [OF insertion_sort_mset] .
  then show ?case using Cons insert_by_sorted [OF assms, of x "insertion_sort before xs"]
    by (simp add: insertion_sort_def)
qed (simp add: insertion_sort_def)

interpretation stable: std_algorithms stable_parting id insertion_sort
  by unfold_locales (auto simp: stable_parting_def insertion_sort_mset insertion_sort_sorted)

end
