(* ===== verification/SeederRounds.thy ===== *)
theory SeederRounds
  imports ChokeRounds
begin

text \<open>The steps of a seeder's choke round on the sets of peers.\<close>

subsection \<open>Collecting the entries\<close>

definition uploadSpeedOf :: "int \<Rightarrow> peer \<Rightarrow> int" where
  "uploadSpeedOf now p = (case pr_res p of None \<Rightarrow> 0 | Some r \<Rightarrow> snd (calculateUploadSpeed now (sr_netStat r)))"

definition lastUnchokingOf :: "peer \<Rightarrow> int" where
  "lastUnchokingOf p = (case pr_res p of None \<Rightarrow> 0 | Some r \<Rightarrow> sr_lastAmUnchoking r)"

definition se_touched :: "int \<Rightarrow> peer \<Rightarrow> peer" where
  "se_touched now p = (case pr_res p of None \<Rightarrow> p | Some r \<Rightarrow>
     if sr_peerInterested r
     then p\<lparr>pr_res := Some (r\<lparr>sr_chokingRequired := True, sr_netStat := fst (calculateUploadSpeed now (sr_netStat r))\<rparr>)\<rparr>
     else p\<lparr>pr_res := Some (r\<lparr>sr_chokingRequired := True, sr_optUnchoking := False\<rparr>)\<rparr>)"

definition se_eligible :: "peer \<Rightarrow> bool" where
  "se_eligible p \<longleftrightarrow> (case pr_res p of None \<Rightarrow> False | Some r \<Rightarrow> sr_peerInterested r)"

definition se_of :: "(nat \<Rightarrow> nat) \<Rightarrow> int \<Rightarrow> nat \<times> peer \<Rightarrow> se_entry" where
  "se_of outstanding now x = \<lparr>se_peer = fst x, se_outstandingUpload = outstanding (fst x),
     se_lastAmUnchoking = lastUnchokingOf (snd x),
     se_recentUnchoking = (tm_difference (lastUnchokingOf (snd x)) now < TIME_FRAME),
     se_uploadSpeed = uploadSpeedOf now (snd x)\<rparr>"

lemma se_collect_eq:
  "se_collect outstanding now k ps = Some (map (se_touched now) ps,
     map (se_of outstanding now) (filter (\<lambda>x. se_eligible (snd x)) (enumerate k ps)))"
proof (induction ps arbitrary: k)
  case (Cons p ps)
  show ?case
  proof (cases "pr_res p")
    case None
    then show ?thesis by (simp add: Cons.IH isActive_def se_touched_def se_eligible_def)
  next
    case (Some r)
    then show ?thesis
      by (cases p; cases r)
        (simp add: Cons.IH isActive_def se_touched_def se_eligible_def se_of_def se_new_def uploadSpeedOf_def
          lastUnchokingOf_def peer_setChokingRequired_def peer_setOptUnchoking_def with_res_def ask_res_def
          sr_setChokingRequired_def sr_setOptUnchoking_def peer_calculateUploadSpeed_def peer_peerInterested_def
          peer_getLastAmUnchoking_def case_prod_unfold Let_def)
  qed
qed simp

lemma se_touched_sets:
  "same_peers ps (map (se_touched now) ps)" "unchoked (map (se_touched now) ps) = {}"
  "optimistic (map (se_touched now) ps) = optimistic ps \<inter> interested ps"
proof -
  have "core (se_touched now p) = core p" "pr_res p = None \<Longrightarrow> se_touched now p = p" for p
    by (cases "pr_res p"; simp add: core_def se_touched_def)+
  then show "same_peers ps (map (se_touched now) ps)" by (simp add: same_peers_def)
  have "pr_res (se_touched now p) = Some r \<Longrightarrow> sr_chokingRequired r" for p r
    by (cases "pr_res p") (auto simp: se_touched_def split: if_splits)
  then show "unchoked (map (se_touched now) ps) = {}" by (auto simp: peers_with_def)
  show "optimistic (map (se_touched now) ps) = optimistic ps \<inter> interested ps"
  proof (rule set_eqI)
    fix k
    show "k \<in> optimistic (map (se_touched now) ps) \<longleftrightarrow> k \<in> optimistic ps \<inter> interested ps"
      by (cases "k < length ps"; cases "pr_res (ps ! k)") (auto simp: peers_with_def se_touched_def)
  qed
qed

definition se_entries_of :: "(nat \<Rightarrow> nat) \<Rightarrow> int \<Rightarrow> peer list \<Rightarrow> se_entry list" where
  "se_entries_of outstanding now ps = map (se_of outstanding now) (filter (\<lambda>x. se_eligible (snd x)) (enumerate 0 ps))"

lemma se_entries_of_facts:
  "se_peer ` set (se_entries_of outstanding now ps) = interested ps"
  "distinct (map se_peer (se_entries_of outstanding now ps))"
  "e \<in> set (se_entries_of outstanding now ps) \<Longrightarrow> e = se_of outstanding now (se_peer e, ps ! se_peer e)"
proof -
  have "se_eligible p \<longleftrightarrow> (\<exists>r. pr_res p = Some r \<and> sr_peerInterested r)" for p
    by (cases "pr_res p") (simp_all add: se_eligible_def)
  then show "se_peer ` set (se_entries_of outstanding now ps) = interested ps"
    by (force simp: se_entries_of_def peers_with_def se_of_def in_set_enumerate_eq image_iff)
  have "map se_peer (se_entries_of outstanding now ps) = map fst (filter (\<lambda>x. se_eligible (snd x)) (enumerate 0 ps))"
    by (simp add: se_entries_of_def se_of_def comp_def)
  moreover have "distinct (map fst (enumerate 0 ps))" by (simp add: enumerate_eq_zip)
  ultimately show "distinct (map se_peer (se_entries_of outstanding now ps))" by (simp add: distinct_map_filter)
  show "e \<in> set (se_entries_of outstanding now ps) \<Longrightarrow> e = se_of outstanding now (se_peer e, ps ! se_peer e)"
    by (auto simp: se_entries_of_def se_of_def in_set_enumerate_eq)
qed

subsection \<open>The order\<close>

text \<open>
  What \<open>operator<\<close> means: peers with outstanding uploads first; then those unchoked within the
  time frame, the latest first; then the others by upload speed.
\<close>

definition seeder_class :: "se_entry \<Rightarrow> nat" where
  "seeder_class e = (if se_outstandingUpload e \<noteq> 0 then 2 else 0) + (if se_recentUnchoking e then 1 else 0)"

definition seeder_value :: "se_entry \<Rightarrow> int" where
  "seeder_value e = (if se_recentUnchoking e then se_lastAmUnchoking e else se_uploadSpeed e)"

definition seeder_before :: "se_entry \<Rightarrow> se_entry \<Rightarrow> bool" where
  "seeder_before e f \<longleftrightarrow> seeder_class f < seeder_class e \<or>
     (seeder_class e = seeder_class f \<and> seeder_value f < seeder_value e)"

definition round_entry :: "int \<Rightarrow> se_entry \<Rightarrow> bool" where
  "round_entry now e \<longleftrightarrow> se_recentUnchoking e = (tm_difference (se_lastAmUnchoking e) now < TIME_FRAME)"

lemma se_less_before:
  assumes "round_entry now e" and "round_entry now f"
  shows "se_less e f \<longleftrightarrow> seeder_before e f"
proof -
  have recent: "se_lastAmUnchoking f < se_lastAmUnchoking e" if "se_recentUnchoking e" "\<not> se_recentUnchoking f"
    using assms that by (auto simp: round_entry_def tm_difference_def split: if_splits)
  show ?thesis
    by (cases "se_outstandingUpload e = 0"; cases "se_outstandingUpload f = 0";
        cases "se_recentUnchoking e"; cases "se_recentUnchoking f")
      (use recent in \<open>simp_all add: se_less_def seeder_before_def seeder_class_def seeder_value_def\<close>)
qed

lemma seeder_before_weak: "strict_weak_on A seeder_before"
  unfolding strict_weak_on_def seeder_before_def by (intro conjI ballI impI) linarith+

lemma strict_weak_cong:
  assumes "\<And>x y. x \<in> A \<Longrightarrow> y \<in> A \<Longrightarrow> f x y = g x y"
  shows "strict_weak_on A f = strict_weak_on A g"
  using assms by (simp add: strict_weak_on_def cong: ball_cong)

lemma se_less_weak:
  assumes "\<And>e. e \<in> A \<Longrightarrow> round_entry now e"
  shows "strict_weak_on A se_less"
  using strict_weak_cong [of A se_less seeder_before] se_less_before assms seeder_before_weak by blast

end
