(* ===== verification/ChokeProperties.thy ===== *)
theory ChokeProperties
  imports ChokeRounds SeederRounds
begin

text \<open>
  What a choke round promises, while downloading and while seeding.
\<close>

subsection \<open>While downloading\<close>

text \<open>The entries of a round, and what its regular unchoke makes of them.\<close>

definition le_entries_of :: "int \<Rightarrow> peer list \<Rightarrow> le_entry list" where
  "le_entries_of now ps = map (le_of now) (filter (\<lambda>x. le_eligible (snd x)) (enumerate 0 ps))"

lemma le_entries_of_facts:
  "le_peer ` set (le_entries_of now ps) = actives ps - snubbed ps" "distinct (map le_peer (le_entries_of now ps))"
  "e \<in> set (le_entries_of now ps) \<Longrightarrow> le_regularUnchoker e = regular_unchoker now (ps ! le_peer e)"
  "e \<in> set (le_entries_of now ps) \<Longrightarrow> le_downloadSpeed e = downloadSpeedOf now (ps ! le_peer e)"
proof -
  show "le_peer ` set (le_entries_of now ps) = actives ps - snubbed ps" "distinct (map le_peer (le_entries_of now ps))"
    unfolding le_entries_of_def by (rule eligible_peers, rule le_entries(1))
  assume "e \<in> set (le_entries_of now ps)"
  then have e: "e = le_of now (le_peer e, ps ! le_peer e)" unfolding le_entries_of_def by (rule le_entries(2))
  show "le_regularUnchoker e = regular_unchoker now (ps ! le_peer e)" by (subst e) (simp add: le_of_def)
  show "le_downloadSpeed e = downloadSpeedOf now (ps ! le_peer e)" by (subst e) (simp add: le_of_def)
qed

lemma regular_is_interested: "k < length ps \<Longrightarrow> regular_unchoker now (ps ! k) \<Longrightarrow> k \<in> interested ps"
  by (auto simp: regular_unchoker_def peers_with_def split: option.splits)

lemma served_peers:
  fixes ps :: "peer list" and now :: int and es :: "le_entry list"
  assumes alg: "std_algorithms parting shuffle sorting" and perm: "mset es = mset (le_entries_of now ps)"
  defines "S \<equiv> le_peer ` set (take 3 (regular_order parting shuffle sorting es)) \<inter> interested ps"
    and "R \<equiv> {k \<in> actives ps - snubbed ps. regular_unchoker now (ps ! k)}"
  shows "S \<subseteq> (actives ps - snubbed ps) \<inter> interested ps" "card S \<le> 3" "card R \<le> 3 \<Longrightarrow> R \<subseteq> S"
    "3 \<le> card R \<Longrightarrow> S \<subseteq> R \<and> card S = 3 \<and>
       (\<forall>k\<in>R - S. \<forall>u\<in>S. downloadSpeedOf now (ps ! k) \<le> downloadSpeedOf now (ps ! u))"
    and "mset (regular_order parting shuffle sorting es) = mset es"
proof -
  let ?E = "actives ps - snubbed ps"
  note F = le_entries_of_facts [where now = now and ps = ps]
  have set: "set es = set (le_entries_of now ps)" using perm by (rule mset_eq_setD)
  obtain rs ts where o: "regular_order parting shuffle sorting es = rs @ ts" "set rs = {e \<in> set es. le_regularUnchoker e}"
    "set ts = {e \<in> set es. \<not> le_regularUnchoker e}" "mset (rs @ ts) = mset es"
    "sorted_wrt (\<lambda>x y. le_downloadSpeed y \<le> le_downloadSpeed x) rs"
    by (rule regular_order_spec [OF alg, of es])
  show "mset (regular_order parting shuffle sorting es) = mset es" using o(1,4) by simp
  have dist: "distinct (map le_peer (rs @ ts))"
    using mset_map_distinct [OF o(4), of le_peer] mset_map_distinct [OF perm, of le_peer] F(2) by simp
  let ?T = "set (take 3 (rs @ ts))"
  note three = first_three [where f = le_peer, OF o(5) dist]
  have T: "?T \<subseteq> set es" using o(2,3) set_take_subset [of 3 "rs @ ts"] by auto
  have inj: "inj_on le_peer (set es)" using F(2) set by (simp add: distinct_map)
  have "le_peer ` set rs = {k \<in> le_peer ` set (le_entries_of now ps). regular_unchoker now (ps ! k)}"
    using F(3) unfolding o(2) set by blast
  then have R: "R = le_peer ` set rs" by (simp add: F(1) R_def)
  have Rint: "R \<subseteq> interested ps" using regular_is_interested by (auto simp: R_def peers_with_def)
  have S: "S = le_peer ` ?T \<inter> interested ps" by (simp add: S_def o(1))
  have "le_peer ` ?T \<subseteq> ?E" using image_mono [OF T, of le_peer] F(1) set by simp
  then show "S \<subseteq> ?E \<inter> interested ps" unfolding S by blast
  have "card S \<le> card (le_peer ` ?T)" unfolding S by (rule card_mono) auto
  then show "card S \<le> 3" using three(1) by linarith
  show "R \<subseteq> S" if "card R \<le> 3" using three(2) that R Rint S by auto
  show "S \<subseteq> R \<and> card S = 3 \<and>
       (\<forall>k\<in>R - S. \<forall>u\<in>S. downloadSpeedOf now (ps ! k) \<le> downloadSpeedOf now (ps ! u))" if "3 \<le> card R"
  proof -
    have t: "?T \<subseteq> set rs" "card (le_peer ` ?T) = 3" "\<forall>x\<in>set rs - ?T. \<forall>y\<in>?T. le_downloadSpeed x \<le> le_downloadSpeed y"
      using three(3) that R by simp_all
    have SR: "S = le_peer ` ?T" using t(1) R Rint S by auto
    have "downloadSpeedOf now (ps ! k) \<le> downloadSpeedOf now (ps ! u)" if k: "k \<in> R - S" and u: "u \<in> S" for k u
    proof -
      obtain x where x: "x \<in> set rs" "k = le_peer x" using k R by auto
      obtain y where y: "y \<in> ?T" "u = le_peer y" using u SR by auto
      have "x \<notin> ?T" using k x SR by auto
      then have "le_downloadSpeed x \<le> le_downloadSpeed y" using t(3) x y by blast
      moreover have "x \<in> set (le_entries_of now ps)" "y \<in> set (le_entries_of now ps)" using x y T o(2) set by auto
      ultimately show ?thesis using F(4) x y by metis
    qed
    then show ?thesis using SR t R by auto
  qed
qed

lemma leecher_steps:
  fixes ps :: "peer list" and now :: int
  assumes alg: "std_algorithms parting shuffle sorting"
  defines "E \<equiv> actives ps - snubbed ps"
  defines "R \<equiv> {k \<in> E. regular_unchoker now (ps ! k)}"
  shows "\<exists>ps' optim. leecher_executeChoke parting shuffle sorting now ch ps =
      Some (ch\<lparr>ch_lastRound := now, ch_round := next_round (ch_round ch)\<rparr>, ps') \<and> same_peers ps ps' \<and>
    unchoked ps' \<subseteq> E \<inter> interested ps \<and> card (unchoked ps') \<le> 3 \<and>
    (card R \<le> 3 \<longrightarrow> R \<subseteq> unchoked ps') \<and>
    (3 \<le> card R \<longrightarrow> unchoked ps' \<subseteq> R \<and> card (unchoked ps') = 3 \<and>
      (\<forall>k\<in>R - unchoked ps'. \<forall>u\<in>unchoked ps'. downloadSpeedOf now (ps ! k) \<le> downloadSpeedOf now (ps ! u))) \<and>
    optim \<subseteq> E \<and> card optim \<le> (if ch_round ch = 0 then 1 else card (optimistic ps)) \<and>
    (ch_round ch \<noteq> 0 \<longrightarrow> optim = optimistic ps - snubbed ps) \<and>
    (if unchoked ps' \<inter> optim = {} then optimistic ps' = optim
     else \<exists>k\<in>unchoked ps'. optimistic ps' = insert k (optim - unchoked ps'))"
proof -
  let ?qs = "map (le_touched now) ps" and ?es = "le_entries_of now ps"
  have col: "le_collect now 0 ps = Some (?qs, ?es)" by (simp add: le_collect_eq le_entries_of_def)
  note touched = touched_sets [where now = now and ps = ps]
  note sq = same_sets [OF touched(1)]
  note F = le_entries_of_facts [where now = now and ps = ps]
  have act: "le_peer ` set ?es \<subseteq> actives ?qs" using F(1) sq(1) by auto
  obtain rs es where planned: "(if ch_round ch = 0 then plannedOptimisticUnchoke parting shuffle ?es ?qs else Some (?qs, ?es)) = Some (rs, es)"
    and same1: "same_peers ps rs" and perm: "mset es = mset ?es" and un: "unchoked rs = {}"
    and opt: "optimistic rs \<subseteq> E" "card (optimistic rs) \<le> (if ch_round ch = 0 then 1 else card (optimistic ps))"
      "ch_round ch \<noteq> 0 \<Longrightarrow> optimistic rs = optimistic ps - snubbed ps"
  proof (cases "ch_round ch = 0")
    case True
    from planned_spec [OF alg act] obtain rs es c where P: "plannedOptimisticUnchoke parting shuffle ?es ?qs = Some (rs, es)"
      "same_peers ?qs rs" "mset es = mset ?es" "unchoked rs = unchoked ?qs"
      "optimistic rs = (optimistic ?qs - le_peer ` set ?es) \<union> c"
      "if {k \<in> le_peer ` set ?es. peer_filter True True (?qs ! k)} = {} then c = {}
       else \<exists>k\<in>{k \<in> le_peer ` set ?es. peer_filter True True (?qs ! k)}. c = {k}" by blast
    have "optimistic ?qs - le_peer ` set ?es = {}" using touched(3) F(1) peers_with_active by auto
    then have "optimistic rs = c" unfolding P(5) by blast
    moreover have "c \<subseteq> E" "card c \<le> 1" using P(6) F(1) by (auto simp: E_def split: if_splits)
    ultimately show ?thesis using that [of rs es] P True same_peers_trans [OF touched(1) P(2)] touched(2) by simp
  next
    case False
    have "optimistic ?qs \<subseteq> E" using touched(3) peers_with_active by (auto simp: E_def)
    moreover have "card (optimistic ?qs) \<le> card (optimistic ps)" using touched(3) by (intro card_mono) auto
    ultimately show ?thesis using that [of ?qs ?es] False touched by simp
  qed
  note sr = same_sets [OF same1]
  have set: "set es = set ?es" using perm by (rule mset_eq_setD)
  have act': "le_peer ` set es \<subseteq> actives rs" using F(1) set sr by auto
  have dist: "distinct (map le_peer es)" using mset_map_distinct [OF perm, of le_peer] F(2) by simp
  define U where "U = le_peer ` set (take 3 (regular_order parting shuffle sorting es)) \<inter> interested ps"
  note S = served_peers [OF alg perm, folded U_def]
  from regular_spec [OF alg act' dist S(5), unfolded un sr(2) Un_empty_left, folded U_def] obtain ps' where ps': "regularUnchoke parting shuffle sorting es rs = Some ps'"
    "same_peers rs ps'" "unchoked ps' = U"
    "if U \<inter> optimistic rs = {} then optimistic ps' = optimistic rs
     else \<exists>k\<in>U. optimistic ps' = insert k (optimistic rs - U)" by blast
  have run: "leecher_executeChoke parting shuffle sorting now ch ps =
      Some (ch\<lparr>ch_lastRound := now, ch_round := next_round (ch_round ch)\<rparr>, ps')"
    using col planned ps'(1) by (simp add: leecher_executeChoke_def)
  have same: "same_peers ps ps'" using same_peers_trans [OF same1 ps'(2)] .
  have o: "if unchoked ps' \<inter> optimistic rs = {} then optimistic ps' = optimistic rs
     else \<exists>k\<in>unchoked ps'. optimistic ps' = insert k (optimistic rs - unchoked ps')" using ps'(4) by (simp only: ps'(3))
  show ?thesis
    unfolding E_def R_def
    by (intro exI [of _ ps'] exI [of _ "optimistic rs"] conjI impI run same o opt [unfolded E_def] S [folded ps'(3)])
qed

text \<open>
  C20: a round of the leecher always returns. Afterwards at most three peers are regularly unchoked,
  all interested and none of those that snub us. Those who sent us a block in the last 30 seconds come
  first: if there are at most three they are all unchoked, otherwise exactly three of them, and none
  left out was faster. Snubbing peers also lose an optimistic unchoke; of these there is at most one
  after a planned round and never one more than before. Nothing else of the peers changes.
\<close>

theorem leecher_round:
  fixes ps :: "peer list" and now :: int
  assumes alg: "std_algorithms parting shuffle sorting"
  defines "E \<equiv> actives ps - snubbed ps"
  defines "R \<equiv> {k \<in> E. regular_unchoker now (ps ! k)}"
  shows "\<exists>ps'. leecher_executeChoke parting shuffle sorting now ch ps =
      Some (ch\<lparr>ch_lastRound := now, ch_round := next_round (ch_round ch)\<rparr>, ps') \<and> same_peers ps ps' \<and>
    unchoked ps' \<subseteq> E \<inter> interested ps \<and> card (unchoked ps') \<le> 3 \<and>
    (card R \<le> 3 \<longrightarrow> R \<subseteq> unchoked ps') \<and>
    (3 \<le> card R \<longrightarrow> unchoked ps' \<subseteq> R \<and> card (unchoked ps') = 3 \<and>
      (\<forall>k\<in>R - unchoked ps'. \<forall>u\<in>unchoked ps'. downloadSpeedOf now (ps ! k) \<le> downloadSpeedOf now (ps ! u))) \<and>
    optimistic ps' \<inter> snubbed ps = {} \<and>
    card (optimistic ps') \<le> (if ch_round ch = 0 then 1 else card (optimistic ps))"
proof -
  from leecher_steps [OF alg, where ps = ps and now = now and ch = ch, folded E_def, folded R_def]
  obtain ps' optim where st: "leecher_executeChoke parting shuffle sorting now ch ps =
      Some (ch\<lparr>ch_lastRound := now, ch_round := next_round (ch_round ch)\<rparr>, ps')" "same_peers ps ps'"
    "unchoked ps' \<subseteq> E \<inter> interested ps" "card (unchoked ps') \<le> 3" "card R \<le> 3 \<longrightarrow> R \<subseteq> unchoked ps'"
    "3 \<le> card R \<longrightarrow> unchoked ps' \<subseteq> R \<and> card (unchoked ps') = 3 \<and>
      (\<forall>k\<in>R - unchoked ps'. \<forall>u\<in>unchoked ps'. downloadSpeedOf now (ps ! k) \<le> downloadSpeedOf now (ps ! u))"
    and opt: "optim \<subseteq> E" "card optim \<le> (if ch_round ch = 0 then 1 else card (optimistic ps))"
    "if unchoked ps' \<inter> optim = {} then optimistic ps' = optim
     else \<exists>k\<in>unchoked ps'. optimistic ps' = insert k (optim - unchoked ps')" by blast
  have sub: "optimistic ps' \<subseteq> E" using opt(1,3) st(3) by (auto split: if_splits)
  have "card (optimistic ps') \<le> card optim"
  proof (cases "unchoked ps' \<inter> optim = {}")
    case False
    then obtain k where k: "optimistic ps' = insert k (optim - unchoked ps')" using opt(3) by auto
    have fin: "finite optim" by (rule finite_subset [OF opt(1)]) (simp add: E_def)
    have "card (optim - unchoked ps') < card optim" using False fin by (intro psubset_card_mono) auto
    moreover have "card (optimistic ps') \<le> Suc (card (optim - unchoked ps'))" unfolding k using fin by (simp add: card_insert_if)
    ultimately show ?thesis by linarith
  qed (use opt(3) in simp)
  then have "card (optimistic ps') \<le> (if ch_round ch = 0 then 1 else card (optimistic ps))" using opt(2) by linarith
  moreover have "optimistic ps' \<inter> snubbed ps = {}" using sub by (auto simp: E_def)
  ultimately show ?thesis by (intro exI [of _ ps'] conjI st)
qed

text \<open>A swarm for the witnesses: an interested peer with the optimistic unchoke and one that snubs us.\<close>

definition demo_session :: session_resource where
  "demo_session = (sr_new 0 16384 16384)\<lparr>sr_peerInterested := True\<rparr>"

definition demo_swarm :: "peer list" where
  "demo_swarm = [(peer_new 0 ''a'' 1 False)\<lparr>pr_res := Some (demo_session\<lparr>sr_optUnchoking := True\<rparr>)\<rparr>,
     (peer_new 0 ''b'' 2 False)\<lparr>pr_res := Some (demo_session\<lparr>sr_snubbing := True\<rparr>)\<rparr>, peer_new 0 ''c'' 3 False]"

lemma demo_swarm_nth:
  "length demo_swarm = Suc (Suc (Suc 0))" "pr_res (demo_swarm ! 0) = Some (demo_session\<lparr>sr_optUnchoking := True\<rparr>)"
  "pr_res (demo_swarm ! Suc 0) = Some (demo_session\<lparr>sr_snubbing := True\<rparr>)" "pr_res (demo_swarm ! Suc (Suc 0)) = None"
  by (simp_all add: demo_swarm_def peer_new_def)

lemma demo_peers_with: "peers_with P demo_swarm =
    {k. k = 0 \<and> P (demo_session\<lparr>sr_optUnchoking := True\<rparr>) \<or> k = Suc 0 \<and> P (demo_session\<lparr>sr_snubbing := True\<rparr>)}"
  unfolding peers_with_def demo_swarm_nth(1) by (auto simp: less_Suc_eq demo_swarm_nth(2-4))

lemma demo_swarm_sets:
  "actives demo_swarm = {0, 1}" "interested demo_swarm = {0, 1}" "snubbed demo_swarm = {1}" "optimistic demo_swarm = {0}"
  "regular_unchoker 0 (demo_swarm ! 0)"
  unfolding demo_peers_with
  by (auto simp: demo_session_def sr_new_def regular_unchoker_def tm_difference_def demo_swarm_nth)

definition round_1 :: choke_state where
  "round_1 = ch_new\<lparr>ch_round := 1\<rparr>"

theorem leecher_round_witness:
  "\<exists>ps'. leecher_executeChoke stable_parting id insertion_sort 0 round_1 demo_swarm =
      Some (round_1\<lparr>ch_lastRound := 0, ch_round := next_round (ch_round round_1)\<rparr>, ps') \<and>
    unchoked ps' = {0} \<and> optimistic ps' \<inter> {1} = {}"
proof -
  have R: "{k \<in> actives demo_swarm - snubbed demo_swarm. regular_unchoker 0 (demo_swarm ! k)} = {0}"
    using demo_swarm_sets by auto
  from leecher_round [OF stable.std_algorithms_axioms, of 0 round_1 demo_swarm, unfolded R]
  show ?thesis using demo_swarm_sets by auto
qed

text \<open>
  C21: the optimistic slot can be lost. In a round other than the first, when the optimistic peer
  becomes one of the regularly unchoked ones, the code looks for a new optimistic peer from the
  beginning of its list, and what it finds is always a peer that it has just unchoked regularly: then
  exactly the regularly unchoked peers may download, and nobody has an optimistic unchoke of his own.
\<close>

theorem optimistic_slot_lost:
  fixes ps :: "peer list" and now :: int
  assumes alg: "std_algorithms parting shuffle sorting" and round: "ch_round ch \<noteq> 0" and one: "optimistic ps = {k}"
    and run: "leecher_executeChoke parting shuffle sorting now ch ps = Some (ch', ps')" and k: "k \<in> unchoked ps'"
  shows "optimistic ps' \<noteq> {} \<and> optimistic ps' \<subseteq> unchoked ps' \<and>
    {i. i < length ps' \<and> peer_shouldBeChoking (ps' ! i) = Some False} = unchoked ps'"
proof -
  from leecher_steps [OF alg, where ps = ps and now = now and ch = ch]
  obtain optim where o: "unchoked ps' \<subseteq> actives ps - snubbed ps" "optim = optimistic ps - snubbed ps"
    "if unchoked ps' \<inter> optim = {} then optimistic ps' = optim
     else \<exists>k\<in>unchoked ps'. optimistic ps' = insert k (optim - unchoked ps')" using run round by auto
  have "optim = {k}" using o(1,2) k one by auto
  then have opt: "\<exists>u\<in>unchoked ps'. optimistic ps' = {u}" using o(3) k by auto
  have "peer_shouldBeChoking (ps' ! i) = Some False \<longleftrightarrow> i \<in> unchoked ps' \<or> i \<in> optimistic ps'" if "i < length ps'" for i
    using that by (cases "pr_res (ps' ! i)")
      (auto simp: peer_shouldBeChoking_def ask_res_def sr_shouldBeChoking_def peers_with_def)
  then have "{i. i < length ps' \<and> peer_shouldBeChoking (ps' ! i) = Some False} = unchoked ps' \<union> optimistic ps'"
    by (auto simp: peers_with_def)
  then show ?thesis using opt by auto
qed

theorem optimistic_slot_lost_witness:
  "\<exists>ch' ps'. leecher_executeChoke stable_parting id insertion_sort 0 round_1 demo_swarm = Some (ch', ps') \<and>
    optimistic ps' \<noteq> {} \<and> optimistic ps' \<subseteq> unchoked ps'"
proof -
  have R: "{k \<in> actives demo_swarm - snubbed demo_swarm. regular_unchoker 0 (demo_swarm ! k)} = {0}"
    using demo_swarm_sets by auto
  from leecher_steps [OF stable.std_algorithms_axioms, of 0 round_1 demo_swarm, unfolded R]
  obtain ch' ps' where run: "leecher_executeChoke stable_parting id insertion_sort 0 round_1 demo_swarm = Some (ch', ps')"
    "0 \<in> unchoked ps'" by auto
  from optimistic_slot_lost [OF stable.std_algorithms_axioms _ demo_swarm_sets(4) run]
  show ?thesis using run(1) by (auto simp: round_1_def)
qed

subsection \<open>While seeding\<close>

text \<open>
  C22: the order in which a seeder serves peers. For entries made in one round, \<open>operator<\<close> compares
  as intended, outstanding uploads first, then those unchoked within the last 20 seconds, the latest
  first, then the rest by upload speed; and it is a strict weak order, as \<open>std::sort\<close> requires,
  although each of its tests looks at the flag of one side only.
\<close>

theorem seeder_order:
  assumes "\<And>e. e \<in> set es \<Longrightarrow> \<exists>k p p'. se_new outstanding now k p = Some (p', e)"
  shows "(\<forall>e\<in>set es. \<forall>f\<in>set es. se_less e f = seeder_before e f) \<and> strict_weak_on (set es) se_less"
proof -
  have "round_entry now e" if "e \<in> set es" for e
    using assms [OF that] by (auto simp: se_new_def round_entry_def bind_eq_Some_conv split: prod.splits)
  then show ?thesis using se_less_before se_less_weak by blast
qed

definition demo_entries :: "se_entry list" where
  "demo_entries = map (\<lambda>k. snd (the (se_new (\<lambda>_. 0) 0 k (demo_swarm ! k)))) [0, 1]"

theorem seeder_order_witness:
  "strict_weak_on (set demo_entries) se_less"
proof -
  have act: "pr_res (demo_swarm ! k) \<noteq> None" if "k \<in> {0, 1}" for k
    using that by (auto simp: demo_swarm_def)
  have "\<exists>k p p'. se_new (\<lambda>_. 0) 0 k p = Some (p', e)" if e: "e \<in> set demo_entries" for e
  proof -
    obtain k where k: "k \<in> {0, 1}" "e = snd (the (se_new (\<lambda>_. 0) 0 k (demo_swarm ! k)))" using e by (auto simp: demo_entries_def)
    have "se_new (\<lambda>_. 0) 0 k (demo_swarm ! k) \<noteq> None"
      using act [OF k(1)] by (auto simp: se_new_def peer_getLastAmUnchoking_def ask_res_def peer_calculateUploadSpeed_def
          case_prod_unfold Let_def)
    then obtain x where "se_new (\<lambda>_. 0) 0 k (demo_swarm ! k) = Some x" by auto
    then show ?thesis using k(2) by (intro exI [of _ k] exI [of _ "demo_swarm ! k"] exI [of _ "fst x"]) simp
  qed
  from seeder_order [of demo_entries, OF this] show ?thesis by simp
qed

lemma se_round_entry: "e \<in> set (se_entries_of outstanding now ps) \<Longrightarrow> round_entry now e"
  using se_entries_of_facts(3) [of e outstanding now ps]
  by (metis round_entry_def se_entry.select_convs(3,4) se_of_def)

lemma seeder_unchoke_spec:
  fixes round :: int
  assumes alg: "std_algorithms parting shuffle sorting" and act: "se_peer ` set es \<subseteq> actives ps"
    and rounds: "\<forall>e\<in>set es. round_entry now e" and un: "unchoked ps = {}"
    and dist: "distinct (map se_peer es)"
  defines "n \<equiv> (if round = 2 then 4 else 3 :: nat)"
  shows "\<exists>ps' first rest. seeder_unchoke shuffle sorting round es ps = Some ps' \<and> same_peers ps ps' \<and>
    mset (first @ rest) = mset es \<and> length first = min n (length es) \<and>
    (\<forall>e\<in>set first. \<forall>f\<in>set rest. \<not> seeder_before f e) \<and> unchoked ps' = se_peer ` set first \<and>
    (if round < 2 then (if rest = [] then optimistic ps' = optimistic ps - se_peer ` set es
        else \<exists>f\<in>set rest. optimistic ps' = insert (se_peer f) (optimistic ps - se_peer ` set es))
     else optimistic ps' = optimistic ps)"
proof -
  have weak: "strict_weak_on (set es) se_less" using se_less_weak rounds by blast
  let ?s = "sorting se_less es"
  let ?first = "take n ?s" and ?rest = "drop n ?s"
  have perm: "mset ?s = mset es" by (rule std_algorithms.sorting_mset [OF alg weak])
  have srt: "sorted_wrt (\<lambda>x y. \<not> se_less y x) (?first @ ?rest)" using std_algorithms.sorting_sorted [OF alg weak] by simp
  have set: "set ?s = set es" using perm by (rule mset_eq_setD)
  have order: "\<forall>e\<in>set ?first. \<forall>f\<in>set ?rest. \<not> seeder_before f e"
  proof (intro ballI)
    fix e f
    assume e: "e \<in> set ?first" and f: "f \<in> set ?rest"
    have "\<not> se_less f e" using srt e f unfolding sorted_wrt_append by blast
    then show "\<not> seeder_before f e" using se_less_before [of now f e] rounds set in_set_takeD [OF e] in_set_dropD [OF f] by blast
  qed
  have len: "length ?s = length es" using perm by (metis size_mset)
  have "set (map se_peer ?first) \<subseteq> actives ps" using act set by (auto dest: in_set_takeD)
  from on_peers_required [OF this] obtain qs where qs: "on_peers (map se_peer ?first) (peer_setChokingRequired False) ps = Some qs"
    "same_peers ps qs" "optimistic qs = optimistic ps" "unchoked qs = se_peer ` set ?first" using un by auto
  have run: "seeder_unchoke shuffle sorting round es ps = (if round < 2 then do {
       ps \<leftarrow> on_peers (map se_peer ?s) (peer_setOptUnchoking False) qs;
       if ?rest \<noteq> [] then on_peer (se_peer (hd (shuffle ?rest))) (peer_setOptUnchoking True) ps else Some ps } else Some qs)"
    using qs(1) unfolding seeder_unchoke_def Let_def n_def [symmetric] by simp
  have parts: "mset (?first @ ?rest) = mset es" "length ?first = min n (length es)" using perm len by simp_all
  show ?thesis
  proof (cases "round < 2")
    case False
    then show ?thesis using run qs order parts by (intro exI [of _ qs] exI [of _ ?first] exI [of _ ?rest]) simp
  next
    case True
    have "set (map se_peer ?s) \<subseteq> actives qs" using act set same_sets(1) [OF qs(2)] by simp
    from on_peers_opt [OF this] obtain rs where rs: "on_peers (map se_peer ?s) (peer_setOptUnchoking False) qs = Some rs"
      "same_peers qs rs" "unchoked rs = unchoked qs" "optimistic rs = optimistic ps - se_peer ` set es"
      using qs(3) set by auto
    note same = same_peers_trans [OF qs(2) rs(2)]
    show ?thesis
    proof (cases "?rest = []")
      case rest: True
      then show ?thesis using True run qs rs order parts same
        by (intro exI [of _ rs] exI [of _ ?first] exI [of _ ?rest]) simp
    next
      case rest: False
      let ?f = "hd (shuffle ?rest)"
      have f: "?f \<in> set ?rest" using std_algorithms.shuffle_nonempty [OF alg rest] .
      then have "se_peer ?f \<in> actives rs" using act set same_sets(1) [OF same] by (auto dest: in_set_dropD)
      from set_opt [OF this, of True] obtain ps' where ps': "on_peer (se_peer ?f) (peer_setOptUnchoking True) rs = Some ps'"
        "same_peers rs ps'" "unchoked ps' = unchoked rs" "optimistic ps' = insert (se_peer ?f) (optimistic rs)" by auto
      have "seeder_unchoke shuffle sorting round es ps = Some ps'" using run True rest rs(1) ps'(1) by simp
      moreover have "unchoked ps' = se_peer ` set ?first" using ps'(3) rs(3) qs(4) by simp
      moreover have "\<exists>f\<in>set ?rest. optimistic ps' = insert (se_peer f) (optimistic ps - se_peer ` set es)"
        using f ps'(4) rs(4) by blast
      ultimately show ?thesis using True rest order parts same_peers_trans [OF same ps'(2)]
        by (intro exI [of _ ps'] exI [of _ ?first] exI [of _ ?rest]) simp
    qed
  qed
qed

text \<open>
  C23: a round of the seeder always returns. It unchokes as many interested peers as there are, up to
  three, four in the third round; nobody left out comes before one of them in the order. In the
  first two rounds exactly one of those left out, if any, gets the optimistic unchoke, in the third
  round the optimistic unchokes of interested peers stay; a peer that is not interested loses his.
\<close>

theorem seeder_round:
  fixes ps :: "peer list" and now :: int and outstanding :: "nat \<Rightarrow> nat" and ch :: choke_state
  assumes alg: "std_algorithms parting shuffle sorting"
  defines "n \<equiv> (if ch_round ch = 2 then 4 else 3 :: nat)" and "entry \<equiv> \<lambda>k. se_of outstanding now (k, ps ! k)"
  shows "\<exists>ps'. seeder_executeChoke shuffle sorting outstanding now ch ps =
      Some (ch\<lparr>ch_lastRound := now, ch_round := next_round (ch_round ch)\<rparr>, ps') \<and> same_peers ps ps' \<and>
    unchoked ps' \<subseteq> interested ps \<and> card (unchoked ps') = min n (card (interested ps)) \<and>
    (\<forall>u\<in>unchoked ps'. \<forall>k\<in>interested ps - unchoked ps'. \<not> seeder_before (entry k) (entry u)) \<and>
    (if ch_round ch < 2
     then (if card (interested ps) \<le> n then optimistic ps' = {}
       else \<exists>k\<in>interested ps - unchoked ps'. optimistic ps' = {k})
     else optimistic ps' = optimistic ps \<inter> interested ps)"
proof -
  let ?qs = "map (se_touched now) ps" and ?es = "se_entries_of outstanding now ps"
  have col: "se_collect outstanding now 0 ps = Some (?qs, ?es)" by (simp add: se_collect_eq se_entries_of_def)
  note touched = se_touched_sets [where now = now and ps = ps]
  note sq = same_sets [OF touched(1)]
  note F = se_entries_of_facts [where outstanding = outstanding and now = now and ps = ps]
  have act: "se_peer ` set ?es \<subseteq> actives ?qs" using F(1) sq(1) peers_with_active by auto
  have rounds: "\<forall>e\<in>set ?es. round_entry now e" using se_round_entry by blast
  from seeder_unchoke_spec [OF alg act rounds touched(2) F(2), where round = "ch_round ch", folded n_def]
  obtain ps' first rest where r: "seeder_unchoke shuffle sorting (ch_round ch) ?es ?qs = Some ps'" "same_peers ?qs ps'"
    "mset (first @ rest) = mset ?es" "length first = min n (length ?es)"
    "\<forall>e\<in>set first. \<forall>f\<in>set rest. \<not> seeder_before f e" "unchoked ps' = se_peer ` set first"
    "if ch_round ch < 2 then (if rest = [] then optimistic ps' = optimistic ?qs - se_peer ` set ?es
        else \<exists>f\<in>set rest. optimistic ps' = insert (se_peer f) (optimistic ?qs - se_peer ` set ?es))
     else optimistic ps' = optimistic ?qs" by (elim exE conjE) (rule that; assumption)
  have set: "set first \<union> set rest = set ?es" using mset_eq_setD [OF r(3)] by simp
  have dist: "distinct (map se_peer (first @ rest))" using mset_map_distinct [OF r(3), of se_peer] F(2) by simp
  have len: "length ?es = card (interested ps)" using distinct_card [OF F(2)] F(1) by simp
  have split: "interested ps = se_peer ` set first \<union> se_peer ` set rest" "se_peer ` set first \<inter> se_peer ` set rest = {}"
    using F(1) dist unfolding set [symmetric] image_Un by simp_all
  then have left: "interested ps - unchoked ps' = se_peer ` set rest" using r(6) by auto
  have cf: "card (unchoked ps') = length first" using distinct_card [of "map se_peer first"] dist r(6) by simp
  have ent: "e = entry (se_peer e)" if "e \<in> set ?es" for e using F(3) [OF that] by (simp add: entry_def)
  have order: "\<not> seeder_before (entry k) (entry u)" if u: "u \<in> unchoked ps'" and k: "k \<in> interested ps - unchoked ps'" for u k
  proof -
    obtain e where e: "e \<in> set first" "u = se_peer e" using u r(6) by auto
    obtain f where f: "f \<in> set rest" "k = se_peer f" using k left by auto
    have "e = entry u" "f = entry k" using ent [of e] ent [of f] e f set by auto
    then show ?thesis using r(5) e(1) f(1) by metis
  qed
  have none: "optimistic ?qs - se_peer ` set ?es = {}" using touched(3) F(1) by auto
  have total: "length first + length rest = card (interested ps)" using r(3) len by (metis length_append size_mset)
  have few: "rest = [] \<longleftrightarrow> card (interested ps) \<le> n"
  proof
    assume "rest = []"
    then show "card (interested ps) \<le> n" using total r(4) by simp
  next
    assume "card (interested ps) \<le> n"
    then have "length rest = 0" using total r(4) len by simp
    then show "rest = []" by simp
  qed
  have opt: "if ch_round ch < 2
     then (if card (interested ps) \<le> n then optimistic ps' = {}
       else \<exists>k\<in>interested ps - unchoked ps'. optimistic ps' = {k})
     else optimistic ps' = optimistic ps \<inter> interested ps"
    using r(7) [unfolded none few] unfolding left touched(3) by auto
  have run: "seeder_executeChoke shuffle sorting outstanding now ch ps =
      Some (ch\<lparr>ch_lastRound := now, ch_round := next_round (ch_round ch)\<rparr>, ps')"
    using col r(1) by (simp add: seeder_executeChoke_def)
  show ?thesis
    using run same_peers_trans [OF touched(1) r(2)] split(1) r(6) cf r(4) len order opt
    by (intro exI [of _ ps'] conjI) auto
qed

theorem seeder_round_witness:
  "\<exists>ps'. seeder_executeChoke id insertion_sort (\<lambda>_. 0) 0 round_1 demo_swarm =
      Some (round_1\<lparr>ch_lastRound := 0, ch_round := next_round (ch_round round_1)\<rparr>, ps') \<and>
    unchoked ps' = {0, 1} \<and> optimistic ps' = {}"
proof -
  from seeder_round [OF stable.std_algorithms_axioms, where ch = round_1 and outstanding = "\<lambda>_. 0" and now = 0 and ps = demo_swarm]
  obtain ps' where ps': "seeder_executeChoke id insertion_sort (\<lambda>_. 0) 0 round_1 demo_swarm =
      Some (round_1\<lparr>ch_lastRound := 0, ch_round := next_round (ch_round round_1)\<rparr>, ps')"
    "unchoked ps' \<subseteq> {0, 1}" "card (unchoked ps') = 2" "optimistic ps' = {}"
    using demo_swarm_sets by (auto simp: round_1_def)
  have "unchoked ps' = {0, 1}" using card_subset_eq [OF _ ps'(2)] ps'(3) by simp
  then show ?thesis using ps' by blast
qed

end
