(* ===== verification/WireFormat.thy ===== *)
theory WireFormat
  imports Bitfield
begin

text \<open>
  The BitTorrent messages as bytes: the integers and checks of \<open>bittorrent_helper\<close>, the classes of
  messages with their \<open>create\<close> and \<open>createMessage\<close>, their validators, the part of
  \<open>DefaultBtMessageFactory\<close> that reads a message, and the handshake. A result is \<open>Inl\<close>, an
  exception \<open>Inr\<close>. \<open>'x\<close> is an extension message; its factory and its payload are parameters.
\<close>

subsection \<open>Integers in network byte order\<close>

fun be_bytes :: "nat \<Rightarrow> nat \<Rightarrow> byte list" where
  "be_bytes 0 v = []"
| "be_bytes (Suc n) v = be_bytes n (v div 256) @ [of_nat v]"

definition be_val :: "byte list \<Rightarrow> nat" where
  "be_val bs = foldl (\<lambda>v b. v * 256 + unat b) 0 bs"

definition getLLIntParam :: "byte list \<Rightarrow> nat \<Rightarrow> nat" where
  "getLLIntParam msg pos = be_val (take 8 (drop pos msg))"

definition getIntParam :: "byte list \<Rightarrow> nat \<Rightarrow> nat" where
  "getIntParam msg pos = be_val (take 4 (drop pos msg))"

definition getShortIntParam :: "byte list \<Rightarrow> nat \<Rightarrow> nat" where
  "getShortIntParam msg pos = be_val (take 2 (drop pos msg))"

definition put_bytes :: "nat \<Rightarrow> byte list \<Rightarrow> byte list \<Rightarrow> byte list" where
  "put_bytes pos bs msg = take pos msg @ bs @ drop (pos + length bs) msg"

text \<open>\<open>param\<close> is converted to \<open>uint64_t\<close>, \<open>uint32_t\<close> or \<open>uint16_t\<close>.\<close>

definition setLLIntParam :: "nat \<Rightarrow> int \<Rightarrow> byte list \<Rightarrow> byte list" where
  "setLLIntParam pos param = put_bytes pos (be_bytes 8 (nat (param mod 2 ^ 64)))"

definition setIntParam :: "nat \<Rightarrow> int \<Rightarrow> byte list \<Rightarrow> byte list" where
  "setIntParam pos param = put_bytes pos (be_bytes 4 (nat (param mod 2 ^ 32)))"

definition setShortIntParam :: "nat \<Rightarrow> int \<Rightarrow> byte list \<Rightarrow> byte list" where
  "setShortIntParam pos param = put_bytes pos (be_bytes 2 (nat (param mod 2 ^ 16)))"

definition createPeerMessageString :: "nat \<Rightarrow> int \<Rightarrow> nat \<Rightarrow> byte list" where
  "createPeerMessageString msgLength payloadLength messageId =
     (setIntParam 0 payloadLength (replicate msgLength 0))[4 := of_nat messageId]"

subsection \<open>Exceptions and checks\<close>

datatype bt_error =
    InvalidPayloadLength nat
  | InvalidID nat
  | InvalidMessageID nat
  | ExtendedMessagingDisabled
  | InvalidIndex nat
  | InvalidBegin int
  | LengthTooLong int
  | InvalidLength int
  | InvalidRange int int
  | InvalidBitfieldLength nat
  | InvalidBitfield
  | InvalidPstrlen nat
  | InvalidPstr "byte list"
  | InvalidInfoHash "byte list"
  | TooLongPayload nat
  | EofFromPeer
  | HandshakeBuffered nat
  | FastExtensionDisabled
  | GoodByeSeeder
  | BadPieceHash
  | DataRead
  | CacheFlushFailure
  | ExtensionError

definition MAX_BLOCK_LENGTH :: nat where
  "MAX_BLOCK_LENGTH = 64 * 1024"

definition checkIndex :: "nat \<Rightarrow> nat \<Rightarrow> bt_error option" where
  "checkIndex index pieces = (if \<not> index < pieces then Some (InvalidIndex index) else None)"

definition checkBegin :: "int \<Rightarrow> int \<Rightarrow> bt_error option" where
  "checkBegin begin' pieceLength = (if \<not> begin' < pieceLength then Some (InvalidBegin begin') else None)"

definition checkLength :: "int \<Rightarrow> bt_error option" where
  "checkLength len =
     (if len > int MAX_BLOCK_LENGTH then Some (LengthTooLong len)
      else if len = 0 then Some (InvalidLength len) else None)"

definition checkRange :: "int \<Rightarrow> int \<Rightarrow> int \<Rightarrow> bt_error option" where
  "checkRange begin' len pieceLength =
     (if \<not> 0 < len then Some (InvalidRange begin' len)
      else let end' = int32_of (begin' + len)
           in if \<not> end' \<le> pieceLength then Some (InvalidRange begin' len) else None)"

text \<open>\<open>create\<close> refuses an empty bitfield, so there is a last byte.\<close>

definition checkBitfield :: "byte list \<Rightarrow> nat \<Rightarrow> bt_error option" where
  "checkBitfield bitfield pieces =
     (if length bitfield \<noteq> (pieces + 7) mod 2 ^ 64 div 8 then Some (InvalidBitfieldLength (length bitfield))
      else if bitfield ! (length bitfield - 1) AND NOT (lastByteMask pieces) \<noteq> 0 then Some InvalidBitfield
      else None)"

definition assertPayloadLengthGreater :: "nat \<Rightarrow> nat \<Rightarrow> bt_error option" where
  "assertPayloadLengthGreater threshold actual = (if actual \<le> threshold then Some (InvalidPayloadLength actual) else None)"

definition assertPayloadLengthEqual :: "nat \<Rightarrow> nat \<Rightarrow> bt_error option" where
  "assertPayloadLengthEqual expected actual = (if expected \<noteq> actual then Some (InvalidPayloadLength actual) else None)"

definition getId :: "byte list \<Rightarrow> nat" where
  "getId msg = unat (msg ! 0)"

definition assertID :: "nat \<Rightarrow> byte list \<Rightarrow> bt_error option" where
  "assertID expected data = (let id = getId data in if expected \<noteq> id then Some (InvalidID id) else None)"

text \<open>The first exception of a sequence of checks.\<close>

fun first_error :: "bt_error option list \<Rightarrow> bt_error option" where
  "first_error [] = None"
| "first_error (None # es) = first_error es"
| "first_error (Some e # es) = Some e"

definition guarded :: "bt_error option list \<Rightarrow> 'a \<Rightarrow> 'a + bt_error" where
  "guarded checks result = (case first_error checks of Some e \<Rightarrow> Inr e | None \<Rightarrow> Inl result)"

subsection \<open>Messages\<close>

text \<open>
  \<open>begin\<close> and \<open>length\<close> are \<open>int32_t\<close>, indexes \<open>size_t\<close>. A request that this side creates also
  carries the index of the block; one that is received has 0 there. A bitfield and an extension
  message carry their contents.
\<close>

datatype 'x bt_message =
    KeepAlive
  | Choke
  | Unchoke
  | Interested
  | NotInterested
  | Have nat
  | Bits "byte list"
  | Request nat int int nat
  | PieceBlock nat int int
  | Cancel nat int int
  | Port nat
  | SuggestPiece nat
  | HaveAll
  | HaveNone
  | Reject nat int int
  | AllowedFast nat
  | Extended 'x

primrec message_ID :: "'x bt_message \<Rightarrow> nat" where
  "message_ID KeepAlive = 99"
| "message_ID Choke = 0"
| "message_ID Unchoke = 1"
| "message_ID Interested = 2"
| "message_ID NotInterested = 3"
| "message_ID (Have index) = 4"
| "message_ID (Bits bitfield) = 5"
| "message_ID (Request index begin' len blockIndex) = 6"
| "message_ID (PieceBlock index begin' blockLength) = 7"
| "message_ID (Cancel index begin' len) = 8"
| "message_ID (Port port) = 9"
| "message_ID (SuggestPiece index) = 13"
| "message_ID HaveAll = 14"
| "message_ID HaveNone = 15"
| "message_ID (Reject index begin' len) = 16"
| "message_ID (AllowedFast index) = 17"
| "message_ID (Extended x) = 20"

text \<open>\<open>ExtensionMessageFactory::createMessage\<close> and what a message of it has to say.\<close>

record 'x extension_ops =
  ex_createMessage :: "byte list \<Rightarrow> 'x + bt_error"
  ex_getPayload :: "'x \<Rightarrow> byte list"
  ex_getExtensionMessageID :: "'x \<Rightarrow> nat"

definition zero_createMessage :: "nat \<Rightarrow> byte list" where
  "zero_createMessage mid = createPeerMessageString 5 1 mid"

definition index_createMessage :: "nat \<Rightarrow> nat \<Rightarrow> byte list" where
  "index_createMessage mid index = setIntParam 5 (int index) (createPeerMessageString 9 5 mid)"

definition range_createMessage :: "nat \<Rightarrow> nat \<Rightarrow> int \<Rightarrow> int \<Rightarrow> byte list" where
  "range_createMessage mid index begin' len =
     setIntParam 13 len (setIntParam 9 begin' (setIntParam 5 (int index) (createPeerMessageString 17 13 mid)))"

definition bitfield_createMessage :: "nat \<Rightarrow> byte list \<Rightarrow> byte list" where
  "bitfield_createMessage mid bitfield =
     (let msgLength = 5 + length bitfield
      in put_bytes 5 bitfield (createPeerMessageString msgLength (1 + int (length bitfield)) mid))"

definition port_createMessage :: "nat \<Rightarrow> nat \<Rightarrow> byte list" where
  "port_createMessage mid port = setShortIntParam 5 (int port) (createPeerMessageString 7 3 mid)"

definition extended_createMessage :: "'x extension_ops \<Rightarrow> nat \<Rightarrow> 'x \<Rightarrow> byte list" where
  "extended_createMessage ops mid x =
     (let payload = ex_getPayload ops x;
          msg = createPeerMessageString (6 + length payload) (2 + int (length payload)) mid
      in put_bytes 6 payload (msg[5 := of_nat (ex_getExtensionMessageID ops x)]))"

definition createMessageHeader :: "nat \<Rightarrow> nat \<Rightarrow> int \<Rightarrow> int \<Rightarrow> byte list" where
  "createMessageHeader mid index begin' blockLength =
     setIntParam 9 begin' (setIntParam 5 (int index) (createPeerMessageString 13 (9 + blockLength) mid))"

text \<open>What is pushed to the connection; \<open>data\<close> is the block that a piece message has read.\<close>

primrec wire_message :: "'x extension_ops \<Rightarrow> byte list \<Rightarrow> 'x bt_message \<Rightarrow> byte list" where
  "wire_message ops data KeepAlive = replicate 4 0"
| "wire_message ops data Choke = zero_createMessage 0"
| "wire_message ops data Unchoke = zero_createMessage 1"
| "wire_message ops data Interested = zero_createMessage 2"
| "wire_message ops data NotInterested = zero_createMessage 3"
| "wire_message ops data (Have index) = index_createMessage 4 index"
| "wire_message ops data (Bits bitfield) = bitfield_createMessage 5 bitfield"
| "wire_message ops data (Request index begin' len blockIndex) = range_createMessage 6 index begin' len"
| "wire_message ops data (PieceBlock index begin' blockLength) =
     createMessageHeader 7 index begin' blockLength @ data"
| "wire_message ops data (Cancel index begin' len) = range_createMessage 8 index begin' len"
| "wire_message ops data (Port port) = port_createMessage 9 port"
| "wire_message ops data (SuggestPiece index) = index_createMessage 13 index"
| "wire_message ops data HaveAll = zero_createMessage 14"
| "wire_message ops data HaveNone = zero_createMessage 15"
| "wire_message ops data (Reject index begin' len) = range_createMessage 16 index begin' len"
| "wire_message ops data (AllowedFast index) = index_createMessage 17 index"
| "wire_message ops data (Extended x) = extended_createMessage ops 20 x"

subsection \<open>Reading a message\<close>

definition zero_create :: "nat \<Rightarrow> 'x bt_message \<Rightarrow> byte list \<Rightarrow> 'x bt_message + bt_error" where
  "zero_create mid m data = guarded [assertPayloadLengthEqual 1 (length data), assertID mid data] m"

definition index_create :: "nat \<Rightarrow> (nat \<Rightarrow> 'x bt_message) \<Rightarrow> byte list \<Rightarrow> 'x bt_message + bt_error" where
  "index_create mid m data =
     guarded [assertPayloadLengthEqual 5 (length data), assertID mid data] (m (getIntParam data 1))"

definition range_create :: "nat \<Rightarrow> (nat \<Rightarrow> int \<Rightarrow> int \<Rightarrow> 'x bt_message) \<Rightarrow> byte list \<Rightarrow> 'x bt_message + bt_error" where
  "range_create mid m data =
     guarded [assertPayloadLengthEqual 13 (length data), assertID mid data]
       (m (getIntParam data 1) (int32_of (int (getIntParam data 5))) (int32_of (int (getIntParam data 9))))"

definition bitfield_create :: "byte list \<Rightarrow> 'x bt_message + bt_error" where
  "bitfield_create data = guarded [assertPayloadLengthGreater 1 (length data), assertID 5 data] (Bits (drop 1 data))"

definition piece_create :: "byte list \<Rightarrow> 'x bt_message + bt_error" where
  "piece_create data =
     guarded [assertPayloadLengthGreater 9 (length data), assertID 7 data]
       (PieceBlock (getIntParam data 1) (int32_of (int (getIntParam data 5))) (int32_of (int (length data) - 9)))"

definition port_create :: "byte list \<Rightarrow> 'x bt_message + bt_error" where
  "port_create data =
     guarded [assertPayloadLengthEqual 3 (length data), assertID 9 data] (Port (getShortIntParam data 1))"

definition extended_create :: "'x extension_ops \<Rightarrow> byte list \<Rightarrow> 'x bt_message + bt_error" where
  "extended_create ops data =
     (case first_error [assertPayloadLengthGreater 1 (length data), assertID 20 data] of
        Some e \<Rightarrow> Inr e
      | None \<Rightarrow> (case ex_createMessage ops (drop 1 data) of Inl x \<Rightarrow> Inl (Extended x) | Inr e \<Rightarrow> Inr e))"

subsection \<open>Validators\<close>

datatype validator =
    NoValidator
  | IndexValidator nat nat
  | BitfieldValidator "byte list" nat
  | RangeValidator nat int int nat int
  | PieceValidator nat int nat int

fun validate :: "validator \<Rightarrow> bt_error option" where
  "validate NoValidator = None"
| "validate (IndexValidator index numPiece) = checkIndex index numPiece"
| "validate (BitfieldValidator bitfield numPiece) = checkBitfield bitfield numPiece"
| "validate (RangeValidator index begin' len numPiece pieceLength) =
     first_error [checkIndex index numPiece, checkBegin begin' pieceLength, checkLength len,
       checkRange begin' len pieceLength]"
| "validate (PieceValidator index begin' numPiece pieceLength) =
     first_error [checkIndex index numPiece, checkBegin begin' pieceLength]"

text \<open>
  What the factory knows: \<open>getNumPieces()\<close> of the download context, \<open>getPieceLength(index)\<close> of the
  piece storage, the metadata mode, and whether the peer speaks extended messages.
\<close>

record message_env =
  me_numPieces :: nat
  me_pieceLength :: "nat \<Rightarrow> int"
  me_metadataGetMode :: bool
  me_extendedMessaging :: bool

primrec validatorOf :: "message_env \<Rightarrow> 'x bt_message \<Rightarrow> validator" where
  "validatorOf env KeepAlive = NoValidator"
| "validatorOf env Choke = NoValidator"
| "validatorOf env Unchoke = NoValidator"
| "validatorOf env Interested = NoValidator"
| "validatorOf env NotInterested = NoValidator"
| "validatorOf env (Have index) =
     (if \<not> me_metadataGetMode env then IndexValidator index (me_numPieces env) else NoValidator)"
| "validatorOf env (Bits bitfield) =
     (if \<not> me_metadataGetMode env then BitfieldValidator bitfield (me_numPieces env) else NoValidator)"
| "validatorOf env (Request index begin' len blockIndex) =
     (if \<not> me_metadataGetMode env
      then RangeValidator index begin' len (me_numPieces env) (me_pieceLength env index) else NoValidator)"
| "validatorOf env (PieceBlock index begin' blockLength) =
     (if \<not> me_metadataGetMode env
      then PieceValidator index begin' (me_numPieces env) (me_pieceLength env index) else NoValidator)"
| "validatorOf env (Cancel index begin' len) =
     (if \<not> me_metadataGetMode env
      then RangeValidator index begin' len (me_numPieces env) (me_pieceLength env index) else NoValidator)"
| "validatorOf env (Port port) = NoValidator"
| "validatorOf env (SuggestPiece index) =
     (if \<not> me_metadataGetMode env then IndexValidator index (me_numPieces env) else NoValidator)"
| "validatorOf env HaveAll = NoValidator"
| "validatorOf env HaveNone = NoValidator"
| "validatorOf env (Reject index begin' len) =
     (if \<not> me_metadataGetMode env
      then RangeValidator index begin' len (me_numPieces env) (me_pieceLength env index) else NoValidator)"
| "validatorOf env (AllowedFast index) =
     (if \<not> me_metadataGetMode env then IndexValidator index (me_numPieces env) else NoValidator)"
| "validatorOf env (Extended x) = NoValidator"

text \<open>\<open>createBtMessage\<close>; the message comes with its validator.\<close>

definition read_payload :: "'x extension_ops \<Rightarrow> message_env \<Rightarrow> byte list \<Rightarrow> 'x bt_message + bt_error" where
  "read_payload ops env data =
     (let id = getId data in
      if id = 0 then zero_create 0 Choke data
      else if id = 1 then zero_create 1 Unchoke data
      else if id = 2 then zero_create 2 Interested data
      else if id = 3 then zero_create 3 NotInterested data
      else if id = 4 then index_create 4 Have data
      else if id = 5 then bitfield_create data
      else if id = 6 then range_create 6 (\<lambda>index begin' len. Request index begin' len 0) data
      else if id = 7 then piece_create data
      else if id = 8 then range_create 8 Cancel data
      else if id = 9 then port_create data
      else if id = 13 then index_create 13 SuggestPiece data
      else if id = 14 then zero_create 14 HaveAll data
      else if id = 15 then zero_create 15 HaveNone data
      else if id = 16 then range_create 16 Reject data
      else if id = 17 then index_create 17 AllowedFast data
      else if id = 20 then (if me_extendedMessaging env then extended_create ops data else Inr ExtendedMessagingDisabled)
      else Inr (InvalidMessageID id))"

definition createBtMessage ::
  "'x extension_ops \<Rightarrow> message_env \<Rightarrow> byte list \<Rightarrow> ('x bt_message \<times> validator) + bt_error" where
  "createBtMessage ops env data =
     (case (if data = [] then Inl KeepAlive else read_payload ops env data) of
        Inl m \<Rightarrow> Inl (m, validatorOf env m)
      | Inr e \<Rightarrow> Inr e)"

text \<open>The end of \<open>DefaultBtMessageReceiver::receiveMessage\<close>: read and validate.\<close>

definition read_message :: "'x extension_ops \<Rightarrow> message_env \<Rightarrow> byte list \<Rightarrow> 'x bt_message + bt_error" where
  "read_message ops env data =
     (case createBtMessage ops env data of
        Inl (m, v) \<Rightarrow> (case validate v of Some e \<Rightarrow> Inr e | None \<Rightarrow> Inl m)
      | Inr e \<Rightarrow> Inr e)"

subsection \<open>The handshake\<close>

text \<open>\<open>INFO_HASH_LENGTH\<close> and \<open>PEER_ID_LENGTH\<close> are 20, \<open>PSTR_LENGTH\<close> 19, \<open>RESERVED_LENGTH\<close> 8.\<close>

definition HANDSHAKE_LENGTH :: nat where
  "HANDSHAKE_LENGTH = 68"

record handshake =
  hs_pstrlen :: byte
  hs_pstr :: "byte list"
  hs_reserved :: "byte list"
  hs_infoHash :: "byte list"
  hs_peerId :: "byte list"

text \<open>The ASCII codes of ``BitTorrent protocol''.\<close>

definition BT_PSTR :: "byte list" where
  "BT_PSTR = [66, 105, 116, 84, 111, 114, 114, 101, 110, 116, 32, 112, 114, 111, 116, 111, 99, 111, 108]"

definition hs_init :: handshake where
  "hs_init = (let reserved = replicate 8 0 :: byte list;
                  reserved = reserved[7 := reserved ! 7 OR 0x04];
                  reserved = reserved[5 := reserved ! 5 OR 0x10]
     in \<lparr>hs_pstrlen = 19, hs_pstr = BT_PSTR, hs_reserved = reserved, hs_infoHash = replicate 20 0,
         hs_peerId = replicate 20 0\<rparr>)"

definition hs_new :: "byte list \<Rightarrow> byte list \<Rightarrow> handshake" where
  "hs_new infoHash peerId = hs_init\<lparr>hs_infoHash := take 20 infoHash, hs_peerId := take 20 peerId\<rparr>"

definition hs_setDHTEnabled :: "bool \<Rightarrow> handshake \<Rightarrow> handshake" where
  "hs_setDHTEnabled enabled h = h\<lparr>hs_reserved := (hs_reserved h)[7 :=
     if enabled then hs_reserved h ! 7 OR 0x01 else hs_reserved h ! 7 AND NOT 0x01]\<rparr>"

definition createHandshakeMessage :: "bool \<Rightarrow> byte list \<Rightarrow> byte list \<Rightarrow> handshake" where
  "createHandshakeMessage dhtEnabled infoHash peerId = hs_setDHTEnabled dhtEnabled (hs_new infoHash peerId)"

definition hs_create :: "byte list \<Rightarrow> handshake" where
  "hs_create data = hs_init\<lparr>hs_pstrlen := data ! 0, hs_pstr := take 19 (drop 1 data),
     hs_reserved := take 8 (drop 20 data), hs_infoHash := take 20 (drop 28 data), hs_peerId := take 20 (drop 48 data)\<rparr>"

definition hs_createMessage :: "handshake \<Rightarrow> byte list" where
  "hs_createMessage h = hs_pstrlen h # hs_pstr h @ hs_reserved h @ hs_infoHash h @ hs_peerId h"

definition isFastExtensionSupported :: "handshake \<Rightarrow> bool" where
  "isFastExtensionSupported h \<longleftrightarrow> hs_reserved h ! 7 AND 0x04 \<noteq> 0"

definition isExtendedMessagingEnabled :: "handshake \<Rightarrow> bool" where
  "isExtendedMessagingEnabled h \<longleftrightarrow> hs_reserved h ! 5 AND 0x10 \<noteq> 0"

definition hs_isDHTEnabled :: "handshake \<Rightarrow> bool" where
  "hs_isDHTEnabled h \<longleftrightarrow> hs_reserved h ! 7 AND 0x01 \<noteq> 0"

definition validateHandshake :: "byte list \<Rightarrow> handshake \<Rightarrow> bt_error option" where
  "validateHandshake infoHash h =
     (if hs_pstrlen h \<noteq> 19 then Some (InvalidPstrlen (unat (hs_pstrlen h)))
      else if BT_PSTR \<noteq> hs_pstr h then Some (InvalidPstr (hs_pstr h))
      else if take 20 infoHash \<noteq> hs_infoHash h then Some (InvalidInfoHash (hs_infoHash h))
      else None)"

definition read_handshake :: "byte list \<Rightarrow> byte list \<Rightarrow> handshake + bt_error" where
  "read_handshake infoHash data =
     (let h = hs_create data in case validateHandshake infoHash h of Some e \<Rightarrow> Inr e | None \<Rightarrow> Inl h)"

end
