(* ===== verification/PeerConnection.thy ===== *)
theory PeerConnection
  imports WireFormat
begin

text \<open>
  \<open>PeerConnection\<close>: the bytes of a peer are collected in a buffer and cut into messages. The
  transport is the list of what it delivers, after decryption; sending is left out. \<open>None\<close> is
  a write past the end of the buffer or a failed assertion.
\<close>

subsection \<open>State\<close>

datatype msg_state = PREV_READ_LENGTH | READ_LENGTH | READ_PAYLOAD

record connection =
  cn_msgState :: msg_state
  cn_bufferCapacity :: nat
  cn_resbuf :: "byte list"
  cn_resbufLength :: nat
  cn_currentPayloadLength :: nat
  cn_resbufOffset :: nat
  cn_msgOffset :: nat

definition MAX_BUFFER_CAPACITY :: nat where
  "MAX_BUFFER_CAPACITY = MAX_BLOCK_LENGTH + 128"

definition connection_new :: connection where
  "connection_new = \<lparr>cn_msgState = PREV_READ_LENGTH, cn_bufferCapacity = MAX_BUFFER_CAPACITY,
     cn_resbuf = replicate MAX_BUFFER_CAPACITY 0, cn_resbufLength = 0, cn_currentPayloadLength = 0,
     cn_resbufOffset = 0, cn_msgOffset = 0\<rparr>"

text \<open>\<open>uint32_t\<close> arithmetic: four more than the length of the payload.\<close>

definition plus4 :: "nat \<Rightarrow> nat" where
  "plus4 payloadLength = (payloadLength + 4) mod 2 ^ 32"

subsection \<open>The transport\<close>

text \<open>
  Bytes that are there to be read, nothing for now (\<open>wantRead\<close>), or the end of the stream. A read
  takes at most \<open>nread\<close> of the bytes that are there.
\<close>

datatype segment = Avail "byte list" | Blocked | Closed

datatype read_result = Got "byte list" | Again | Eof

fun readData :: "nat \<Rightarrow> segment list \<Rightarrow> read_result \<times> segment list" where
  "readData nread [] = (Again, [])"
| "readData nread (Blocked # segs) = (Again, segs)"
| "readData nread (Closed # segs) = (Eof, Closed # segs)"
| "readData nread (Avail bs # segs) =
     (if take nread bs = [] then (Eof, segs)
      else (Got (take nread bs), if drop nread bs = [] then segs else Avail (drop nread bs) # segs))"

subsection \<open>Receiving a message\<close>

text \<open>
  The body of the \<open>for\<close> loop at \<open>i\<close>: the new state, \<open>i\<close> before the increment and \<open>done\<close>. The
  state before the first byte of a length falls through to reading it.
\<close>

definition scan_length :: "nat \<Rightarrow> connection \<Rightarrow> (connection \<times> nat \<times> bool) + bt_error" where
  "scan_length i st =
     (let n = (cn_currentPayloadLength st * 256 + unat (cn_resbuf st ! i)) mod 2 ^ 32;
          st = st\<lparr>cn_currentPayloadLength := n\<rparr>
      in if usub i (cn_msgOffset st) = 3 then
           if plus4 n > cn_bufferCapacity st then Inr (TooLongPayload n)
           else if n = 0 then Inl (st\<lparr>cn_msgState := PREV_READ_LENGTH\<rparr>, i, True)
           else Inl (st\<lparr>cn_msgState := READ_PAYLOAD\<rparr>, i, False)
         else Inl (st, i, False))"

definition scan_payload :: "nat \<Rightarrow> connection \<Rightarrow> (connection \<times> nat \<times> bool) + bt_error" where
  "scan_payload i st =
     (if usub (cn_resbufLength st) (cn_msgOffset st) \<ge> plus4 (cn_currentPayloadLength st)
      then Inl (st\<lparr>cn_msgState := PREV_READ_LENGTH\<rparr>, cn_msgOffset st + 4 + cn_currentPayloadLength st - 1, True)
      else Inl (st, cn_resbufLength st - 1, False))"

definition scan_byte :: "nat \<Rightarrow> connection \<Rightarrow> (connection \<times> nat \<times> bool) + bt_error" where
  "scan_byte i st =
     (case cn_msgState st of
        PREV_READ_LENGTH \<Rightarrow>
          scan_length i (st\<lparr>cn_msgOffset := i, cn_currentPayloadLength := 0, cn_msgState := READ_LENGTH\<rparr>)
      | READ_LENGTH \<Rightarrow> scan_length i st
      | READ_PAYLOAD \<Rightarrow> scan_payload i st)"

lemma scan_byte_forward:
  "scan_byte i st = Inl (st', i', done) \<Longrightarrow> i < cn_resbufLength st \<Longrightarrow>
     cn_resbufLength st' = cn_resbufLength st \<and> cn_resbuf st' = cn_resbuf st \<and>
     cn_bufferCapacity st' = cn_bufferCapacity st \<and> (\<not> done \<longrightarrow> i \<le> i')"
  by (auto simp: scan_byte_def scan_length_def scan_payload_def Let_def split: msg_state.splits if_splits)

function scan :: "nat \<Rightarrow> connection \<Rightarrow> (connection \<times> nat \<times> bool) + bt_error" where
  "scan i st =
     (if i < cn_resbufLength st then
        (case scan_byte i st of
           Inr e \<Rightarrow> Inr e
         | Inl (st', i', done) \<Rightarrow> if done then Inl (st', i' + 1, True) else scan (i' + 1) st')
      else Inl (st, i, False))"
  by pat_completeness auto
termination
  by (relation "measure (\<lambda>(i, st). cn_resbufLength st - i)") (auto dest!: scan_byte_forward)

declare scan.simps [simp del]

text \<open>The buffer when everything in it has been looked at: empty it, or move the message to the front.\<close>

definition compact_buffer :: "connection \<Rightarrow> connection" where
  "compact_buffer st =
     (if cn_resbufLength st \<noteq> 0 then
        if usub (cn_resbufLength st) (cn_msgOffset st) = plus4 (cn_currentPayloadLength st)
        then st\<lparr>cn_resbufLength := 0, cn_resbufOffset := 0, cn_msgOffset := 0\<rparr>
        else
          let len = usub (cn_resbufLength st) (cn_msgOffset st)
          in st\<lparr>cn_resbuf := put_bytes 0 (take len (drop (cn_msgOffset st) (cn_resbuf st))) (cn_resbuf st),
                cn_resbufLength := len, cn_resbufOffset := len, cn_msgOffset := 0\<rparr>
      else st)"

definition read_size :: "connection \<Rightarrow> nat" where
  "read_size st =
     (if cn_currentPayloadLength st > 4 * 1024 then usub (plus4 (cn_currentPayloadLength st)) (cn_resbufLength st)
      else usub (cn_bufferCapacity st) (cn_resbufLength st))"

definition append_buffer :: "byte list \<Rightarrow> connection \<Rightarrow> connection option" where
  "append_buffer bs st =
     (if cn_resbufLength st + length bs > length (cn_resbuf st) then None
      else Some (st\<lparr>cn_resbuf := put_bytes (cn_resbufLength st) bs (cn_resbuf st),
             cn_resbufLength := cn_resbufLength st + length bs\<rparr>))"

datatype received = Message nat | NoMessage | Abort bt_error

fun segments_size :: "segment list \<Rightarrow> nat" where
  "segments_size [] = 0"
| "segments_size (Avail bs # segs) = length bs + Suc (segments_size segs)"
| "segments_size (Blocked # segs) = Suc (segments_size segs)"
| "segments_size (Closed # segs) = Suc (segments_size segs)"

lemma readData_size: "readData n segs = (Got bs, segs') \<Longrightarrow> segments_size segs' < segments_size segs"
  by (induction n segs rule: readData.induct) (auto split: if_splits)

function receiveMessage :: "connection \<Rightarrow> segment list \<Rightarrow> (connection \<times> segment list \<times> received) option" where
  "receiveMessage st segs =
     (case scan (cn_resbufOffset st) st of
        Inr e \<Rightarrow> Some (st, segs, Abort e)
      | Inl (st, i, done) \<Rightarrow>
          let st = st\<lparr>cn_resbufOffset := i\<rparr> in
          if done then Some (st, segs, Message (cn_currentPayloadLength st))
          else if cn_resbufOffset st \<noteq> cn_resbufLength st then None
          else
            let st = compact_buffer st in
            (case readData (read_size st) segs of
               (Again, segs') \<Rightarrow> Some (st, segs', NoMessage)
             | (Eof, segs') \<Rightarrow> Some (st, segs', Abort EofFromPeer)
             | (Got bs, segs') \<Rightarrow>
                 (case append_buffer bs st of None \<Rightarrow> None | Some st \<Rightarrow> receiveMessage st segs')))"
  by pat_completeness auto
termination
  by (relation "measure (\<lambda>(st, segs). segments_size segs)") (auto dest: readData_size [OF sym])

declare receiveMessage.simps [simp del]

definition getMsgPayloadBuffer :: "connection \<Rightarrow> byte list" where
  "getMsgPayloadBuffer st = drop (cn_msgOffset st + 4) (cn_resbuf st)"

subsection \<open>The handshake and the buffer\<close>

definition receiveHandshake ::
  "bool \<Rightarrow> connection \<Rightarrow> segment list \<Rightarrow> (connection \<times> segment list \<times> ((byte list \<times> bool) + bt_error)) option" where
  "receiveHandshake peek st segs =
     (if HANDSHAKE_LENGTH < cn_resbufLength st then Some (st, segs, Inr (HandshakeBuffered (cn_resbufLength st)))
      else
        let remaining = HANDSHAKE_LENGTH - cn_resbufLength st in
        (case (if remaining > 0 then readData remaining segs else (Got [], segs)) of
           (Eof, segs) \<Rightarrow> Some (st, segs, Inr EofFromPeer)
         | (r, segs) \<Rightarrow>
             (case append_buffer (case r of Got bs \<Rightarrow> bs | _ \<Rightarrow> []) st of
                None \<Rightarrow> None
              | Some st \<Rightarrow>
                  let retval = (\<not> HANDSHAKE_LENGTH > cn_resbufLength st);
                      data = take (min (cn_resbufLength st) HANDSHAKE_LENGTH) (cn_resbuf st)
                  in Some (if retval \<and> \<not> peek then st\<lparr>cn_resbufLength := 0\<rparr> else st, segs, Inl (data, retval)))))"

definition presetBuffer :: "byte list \<Rightarrow> connection \<Rightarrow> connection" where
  "presetBuffer data st =
     (let nwrite = min (cn_bufferCapacity st) (length data)
      in st\<lparr>cn_resbuf := put_bytes 0 (take nwrite data) (cn_resbuf st), cn_resbufLength := length data\<rparr>)"

definition reserveBuffer :: "nat \<Rightarrow> connection \<Rightarrow> connection" where
  "reserveBuffer minSize st =
     (if cn_bufferCapacity st < minSize
      then st\<lparr>cn_bufferCapacity := minSize,
              cn_resbuf := put_bytes 0 (take (cn_resbufLength st) (cn_resbuf st)) (replicate minSize 0)\<rparr>
      else st)"

end
