(* ===== verification/WireProps.thy ===== *)
theory WireProps
  imports WireFormat BitfieldProps
begin

text \<open>
  Reading the bytes of a message gives the message back, and a message that is read has exactly one
  encoding, the bytes it was read from.
\<close>

subsection \<open>Integers\<close>

lemma length_be_bytes [simp]: "length (be_bytes n v) = n"
  by (induction n arbitrary: v) simp_all

lemma be_val_Nil [simp]: "be_val [] = 0"
  by (simp add: be_val_def)

lemma be_val_snoc [simp]: "be_val (bs @ [b]) = be_val bs * 256 + unat b"
  by (simp add: be_val_def)

lemma unat_byte: "unat (b :: byte) < 256"
  using unsigned_less [of b] by simp

lemma be_val_less: "be_val bs < 256 ^ length bs"
proof (induction bs rule: rev_induct)
  case (snoc b bs)
  then have "be_val bs + 1 \<le> 256 ^ length bs" by simp
  then have "(be_val bs + 1) * 256 \<le> 256 ^ length bs * 256" by (rule mult_right_mono) simp
  then show ?case using unat_byte [of b] by simp
qed simp

lemma be_val_be_bytes: "be_val (be_bytes n v) = v mod 256 ^ n"
proof (induction n arbitrary: v)
  case (Suc n)
  have "be_val (be_bytes (Suc n) v) = v div 256 mod 256 ^ n * 256 + v mod 256"
    using Suc by (simp add: unat_of_nat)
  also have "\<dots> = v mod (256 * 256 ^ n)" by (simp add: mod_mult2_eq)
  finally show ?case by simp
qed simp

lemma be_bytes_be_val: "be_bytes (length bs) (be_val bs) = bs"
proof (induction bs rule: rev_induct)
  case (snoc b bs)
  have "(be_val bs * 256 + unat b) div 256 = be_val bs" using unat_byte [of b] by simp
  moreover have "(of_nat (be_val bs * 256 + unat b) :: byte) = b"
  proof -
    have zero: "(256 :: byte) = 0" by simp
    have "x * (256 :: byte) = 0" for x unfolding zero by simp
    then show ?thesis by (simp add: of_nat_unat)
  qed
  ultimately show ?case using snoc by simp
qed simp

lemma nat_mod_pow [simp]: "nat (int v mod 4294967296) = v mod 4294967296" "nat (int v mod 65536) = v mod 65536"
  by (simp_all add: nat_mod_as_int)

lemma int32_of_mod [simp]: "int32_of (x mod 4294967296) = int32_of x"
  by (simp add: int32_of_def mod_simps)

lemma int32_bounds: "- (2 ^ 31) \<le> int32_of x" "int32_of x < 2 ^ 31"
  using pos_mod_bound [of "2 ^ 32" "x + 2 ^ 31"] pos_mod_sign [of "2 ^ 32" "x + 2 ^ 31"]
  by (simp_all add: int32_of_def)

lemma int32_cong: "int32_of x mod 2 ^ 32 = x mod 2 ^ 32"
  by (simp add: int32_of_def mod_simps)

subsection \<open>The layout of a message\<close>

text \<open>Four bytes of length, the id, the contents.\<close>

lemma put_bytes_at: "length xs = pos \<Longrightarrow> length zs = length bs \<Longrightarrow> put_bytes pos bs (xs @ zs @ ys) = xs @ bs @ ys"
  by (simp add: put_bytes_def)

lemma prefix_layout:
  "createPeerMessageString (5 + n) len mid = be_bytes 4 (nat (len mod 2 ^ 32)) @ [of_nat mid] @ replicate n 0"
proof -
  have split: "replicate (5 + n) (0 :: byte) = [] @ replicate 4 0 @ 0 # replicate n 0"
    by (simp add: numeral_eq_Suc)
  show ?thesis
    unfolding createPeerMessageString_def setIntParam_def split
    by (subst put_bytes_at) (simp_all add: list_update_append)
qed

lemma layout_simps:
  "zero_createMessage mid = be_bytes 4 1 @ [of_nat mid]"
  "index_createMessage mid index = be_bytes 4 5 @ [of_nat mid] @ be_bytes 4 (index mod 2 ^ 32)"
  "range_createMessage mid index begin' len =
     be_bytes 4 13 @ [of_nat mid] @ be_bytes 4 (index mod 2 ^ 32) @ be_bytes 4 (nat (begin' mod 2 ^ 32)) @
     be_bytes 4 (nat (len mod 2 ^ 32))"
  "bitfield_createMessage mid bitfield =
     be_bytes 4 (nat ((1 + int (length bitfield)) mod 2 ^ 32)) @ [of_nat mid] @ bitfield"
  "port_createMessage mid port = be_bytes 4 3 @ [of_nat mid] @ be_bytes 2 (port mod 2 ^ 16)"
  "extended_createMessage ops mid x =
     be_bytes 4 (nat ((2 + int (length (ex_getPayload ops x))) mod 2 ^ 32)) @ [of_nat mid] @
     [of_nat (ex_getExtensionMessageID ops x)] @ ex_getPayload ops x"
  "createMessageHeader mid index begin' blockLength =
     be_bytes 4 (nat ((9 + blockLength) mod 2 ^ 32)) @ [of_nat mid] @ be_bytes 4 (index mod 2 ^ 32) @
     be_bytes 4 (nat (begin' mod 2 ^ 32))"
proof -
  have at: "put_bytes pos bs (xs @ replicate (length bs + n) 0) = xs @ bs @ replicate n 0"
    if "length xs = pos" for pos bs xs n
    using put_bytes_at [OF that, of "replicate (length bs) 0" bs "replicate n 0"] by (simp add: replicate_add)
  have p: "put_bytes 5 bs (be_bytes 4 k @ [m] @ replicate (length bs + n) 0) = be_bytes 4 k @ [m] @ bs @ replicate n 0"
    for bs k m n using at [of "be_bytes 4 k @ [m]" 5 bs n] by simp
  have q: "put_bytes 9 bs (be_bytes 4 k @ [m] @ be_bytes 4 i @ replicate (length bs + n) 0) =
      be_bytes 4 k @ [m] @ be_bytes 4 i @ bs @ replicate n 0" for bs k m n i
    using at [of "be_bytes 4 k @ [m] @ be_bytes 4 i" 9 bs n] by simp
  have r: "put_bytes 13 bs (be_bytes 4 k @ [m] @ be_bytes 4 i @ be_bytes 4 j @ replicate (length bs + n) 0) =
      be_bytes 4 k @ [m] @ be_bytes 4 i @ be_bytes 4 j @ bs @ replicate n 0" for bs k m n i j
    using at [of "be_bytes 4 k @ [m] @ be_bytes 4 i @ be_bytes 4 j" 13 bs n] by simp
  show "zero_createMessage mid = be_bytes 4 1 @ [of_nat mid]"
    using prefix_layout [of 0 1 mid] by (simp add: zero_createMessage_def)
  show "index_createMessage mid index = be_bytes 4 5 @ [of_nat mid] @ be_bytes 4 (index mod 2 ^ 32)"
    using prefix_layout [of 4 5 mid] p [of "be_bytes 4 (index mod 2 ^ 32)" 5 "of_nat mid" 0]
    by (simp add: index_createMessage_def setIntParam_def)
  show "range_createMessage mid index begin' len =
     be_bytes 4 13 @ [of_nat mid] @ be_bytes 4 (index mod 2 ^ 32) @ be_bytes 4 (nat (begin' mod 2 ^ 32)) @
     be_bytes 4 (nat (len mod 2 ^ 32))"
    using prefix_layout [of 12 13 mid] p [of "be_bytes 4 (index mod 2 ^ 32)" 13 "of_nat mid" 8]
      q [of "be_bytes 4 (nat (begin' mod 2 ^ 32))" 13 "of_nat mid" "index mod 2 ^ 32" 4]
      r [of "be_bytes 4 (nat (len mod 2 ^ 32))" 13 "of_nat mid" "index mod 2 ^ 32" "nat (begin' mod 2 ^ 32)" 0]
    by (simp add: range_createMessage_def setIntParam_def)
  show "bitfield_createMessage mid bitfield =
     be_bytes 4 (nat ((1 + int (length bitfield)) mod 2 ^ 32)) @ [of_nat mid] @ bitfield"
    using prefix_layout [of "length bitfield" "1 + int (length bitfield)" mid] p [of bitfield _ "of_nat mid" 0]
    by (simp add: bitfield_createMessage_def)
  show "port_createMessage mid port = be_bytes 4 3 @ [of_nat mid] @ be_bytes 2 (port mod 2 ^ 16)"
    using prefix_layout [of 2 3 mid] p [of "be_bytes 2 (port mod 2 ^ 16)" 3 "of_nat mid" 0]
    by (simp add: port_createMessage_def setShortIntParam_def)
  show "extended_createMessage ops mid x =
     be_bytes 4 (nat ((2 + int (length (ex_getPayload ops x))) mod 2 ^ 32)) @ [of_nat mid] @
     [of_nat (ex_getExtensionMessageID ops x)] @ ex_getPayload ops x"
    using prefix_layout [of "1 + length (ex_getPayload ops x)" "2 + int (length (ex_getPayload ops x))" mid]
    by (simp add: extended_createMessage_def Let_def put_bytes_def list_update_append)
  show "createMessageHeader mid index begin' blockLength =
     be_bytes 4 (nat ((9 + blockLength) mod 2 ^ 32)) @ [of_nat mid] @ be_bytes 4 (index mod 2 ^ 32) @
     be_bytes 4 (nat (begin' mod 2 ^ 32))"
    using prefix_layout [of 8 "9 + blockLength" mid] p [of "be_bytes 4 (index mod 2 ^ 32)" _ "of_nat mid" 4]
      q [of "be_bytes 4 (nat (begin' mod 2 ^ 32))" _ "of_nat mid" "index mod 2 ^ 32" 0]
    by (simp add: createMessageHeader_def setIntParam_def)
qed

subsection \<open>Reading back what is sent\<close>

primrec sendable :: "'x extension_ops \<Rightarrow> byte list \<Rightarrow> 'x bt_message \<Rightarrow> bool" where
  "sendable ops data KeepAlive \<longleftrightarrow> True"
| "sendable ops data Choke \<longleftrightarrow> True"
| "sendable ops data Unchoke \<longleftrightarrow> True"
| "sendable ops data Interested \<longleftrightarrow> True"
| "sendable ops data NotInterested \<longleftrightarrow> True"
| "sendable ops data (Have index) \<longleftrightarrow> index < 2 ^ 32"
| "sendable ops data (Bits bitfield) \<longleftrightarrow> bitfield \<noteq> [] \<and> length bitfield + 1 < 2 ^ 31"
| "sendable ops data (Request index begin' len blockIndex) \<longleftrightarrow> index < 2 ^ 32 \<and>
     - (2 ^ 31) \<le> begin' \<and> begin' < 2 ^ 31 \<and> - (2 ^ 31) \<le> len \<and> len < 2 ^ 31"
| "sendable ops data (PieceBlock index begin' blockLength) \<longleftrightarrow> index < 2 ^ 32 \<and>
     - (2 ^ 31) \<le> begin' \<and> begin' < 2 ^ 31 \<and> data \<noteq> [] \<and> blockLength = int (length data) \<and> length data + 9 < 2 ^ 31"
| "sendable ops data (Cancel index begin' len) \<longleftrightarrow> index < 2 ^ 32 \<and>
     - (2 ^ 31) \<le> begin' \<and> begin' < 2 ^ 31 \<and> - (2 ^ 31) \<le> len \<and> len < 2 ^ 31"
| "sendable ops data (Port port) \<longleftrightarrow> port < 2 ^ 16"
| "sendable ops data (SuggestPiece index) \<longleftrightarrow> index < 2 ^ 32"
| "sendable ops data HaveAll \<longleftrightarrow> True"
| "sendable ops data HaveNone \<longleftrightarrow> True"
| "sendable ops data (Reject index begin' len) \<longleftrightarrow> index < 2 ^ 32 \<and>
     - (2 ^ 31) \<le> begin' \<and> begin' < 2 ^ 31 \<and> - (2 ^ 31) \<le> len \<and> len < 2 ^ 31"
| "sendable ops data (AllowedFast index) \<longleftrightarrow> index < 2 ^ 32"
| "sendable ops data (Extended x) \<longleftrightarrow> length (ex_getPayload ops x) + 2 < 2 ^ 31 \<and>
     ex_createMessage ops (of_nat (ex_getExtensionMessageID ops x) # ex_getPayload ops x) = Inl x"

text \<open>What the other side reads: it does not learn the number of the block.\<close>

primrec as_received :: "'x bt_message \<Rightarrow> 'x bt_message" where
  "as_received KeepAlive = KeepAlive"
| "as_received Choke = Choke"
| "as_received Unchoke = Unchoke"
| "as_received Interested = Interested"
| "as_received NotInterested = NotInterested"
| "as_received (Have index) = Have index"
| "as_received (Bits bitfield) = Bits bitfield"
| "as_received (Request index begin' len blockIndex) = Request index begin' len 0"
| "as_received (PieceBlock index begin' blockLength) = PieceBlock index begin' blockLength"
| "as_received (Cancel index begin' len) = Cancel index begin' len"
| "as_received (Port port) = Port port"
| "as_received (SuggestPiece index) = SuggestPiece index"
| "as_received HaveAll = HaveAll"
| "as_received HaveNone = HaveNone"
| "as_received (Reject index begin' len) = Reject index begin' len"
| "as_received (AllowedFast index) = AllowedFast index"
| "as_received (Extended x) = Extended x"

definition is_extended :: "'x bt_message \<Rightarrow> bool" where
  "is_extended m \<longleftrightarrow> (\<exists>x. m = Extended x)"

text \<open>The bytes after the length.\<close>

definition payload_of :: "'x extension_ops \<Rightarrow> byte list \<Rightarrow> 'x bt_message \<Rightarrow> byte list" where
  "payload_of ops data m = drop 4 (wire_message ops data m)"

lemma nat_len: "nat (1 + int n) = Suc n" "nat (2 + int n) = Suc (Suc n)" "nat (9 + int n) = 9 + n"
  by simp_all

lemma be_bytes_zero: "be_bytes n 0 = replicate n 0"
  by (induction n) (simp_all add: replicate_append_same)

lemma wire_payload:
  "sendable ops data m \<Longrightarrow> wire_message ops data m = be_bytes 4 (length (payload_of ops data m)) @ payload_of ops data m"
  by (cases m) (simp_all add: payload_of_def layout_simps nat_len be_bytes_zero)

text \<open>Reading the fields.\<close>

lemma getId_Cons [simp]: "getId (b # bs) = unat b"
  by (simp add: getId_def)

lemma unat_id: "mid < 256 \<Longrightarrow> unat (of_nat mid :: byte) = mid"
  by (simp add: unat_of_nat)

lemma field_simps':
  "getIntParam (b # xs) (Suc 0) = be_val (take 4 xs)"
  "getIntParam (b # xs) 5 = be_val (take 4 (drop 4 xs))"
  "getIntParam (b # xs) 9 = be_val (take 4 (drop 8 xs))"
  "getShortIntParam (b # xs) (Suc 0) = be_val (take 2 xs)"
  by (simp_all add: getIntParam_def getShortIntParam_def)

lemma create_iff:
  "zero_create mid m data = Inl m' \<longleftrightarrow> length data = 1 \<and> getId data = mid \<and> m' = m"
  "index_create mid f data = Inl m' \<longleftrightarrow> length data = 5 \<and> getId data = mid \<and> m' = f (getIntParam data 1)"
  "range_create mid g data = Inl m' \<longleftrightarrow> length data = 13 \<and> getId data = mid \<and>
     m' = g (getIntParam data 1) (int32_of (int (getIntParam data 5))) (int32_of (int (getIntParam data 9)))"
  "bitfield_create data = Inl m' \<longleftrightarrow> 1 < length data \<and> getId data = 5 \<and> m' = Bits (drop 1 data)"
  "piece_create data = Inl m' \<longleftrightarrow> 9 < length data \<and> getId data = 7 \<and>
     m' = PieceBlock (getIntParam data 1) (int32_of (int (getIntParam data 5))) (int32_of (int (length data) - 9))"
  "port_create data = Inl m' \<longleftrightarrow> length data = 3 \<and> getId data = 9 \<and> m' = Port (getShortIntParam data 1)"
  by (auto simp: zero_create_def index_create_def range_create_def bitfield_create_def piece_create_def port_create_def
      guarded_def assertPayloadLengthEqual_def assertPayloadLengthGreater_def assertID_def Let_def)

lemma extended_create_iff:
  "extended_create ops data = Inl m' \<longleftrightarrow> 1 < length data \<and> getId data = 20 \<and>
     (\<exists>x. ex_createMessage ops (drop 1 data) = Inl x \<and> m' = Extended x)"
  by (auto simp: extended_create_def assertPayloadLengthGreater_def assertID_def Let_def split: sum.splits)

lemma read_sent:
  assumes "sendable ops data m" and "is_extended m \<Longrightarrow> me_extendedMessaging env"
  shows "createBtMessage ops env (payload_of ops data m) = Inl (as_received m, validatorOf env (as_received m))"
proof -
  note defs = payload_of_def layout_simps createBtMessage_def read_payload_def be_val_be_bytes nat_len unat_of_nat
  show ?thesis
  proof (cases m)
    case (Extended x)
    then show ?thesis using assms by (simp add: defs is_extended_def extended_create_def
        assertPayloadLengthGreater_def assertID_def)
  qed (use assms in \<open>simp_all add: defs zero_create_def index_create_def range_create_def bitfield_create_def piece_create_def
      port_create_def guarded_def assertPayloadLengthEqual_def assertPayloadLengthGreater_def assertID_def field_simps'\<close>)
qed

subsection \<open>A message that is read has one encoding\<close>

lemma be_take: "k + n \<le> length xs \<Longrightarrow> be_bytes n (be_val (take n (drop k xs))) = take n (drop k xs)"
  using be_bytes_be_val [of "take n (drop k xs)"] by simp

lemma field_less: "length (take n xs) = n \<Longrightarrow> be_val (take n xs) < 256 ^ n"
  using be_val_less [of "take n xs"] by simp

lemma signed_field:
  "v < 2 ^ 32 \<Longrightarrow> nat (int32_of (int v) mod 4294967296) = v"
  using int32_cong [of "int v"] by simp

lemma take_all_4: "length xs = 4 \<Longrightarrow> take 4 xs = xs"
  by simp

lemma chunks:
  "length xs = 4 \<Longrightarrow> be_bytes 4 (be_val (take 4 xs)) = xs"
  "length xs = 12 \<Longrightarrow> be_bytes 4 (be_val (take 4 xs)) @ be_bytes 4 (be_val (take 4 (drop 4 xs))) @
     be_bytes 4 (be_val (take 4 (drop 8 xs))) = xs"
  "8 \<le> length xs \<Longrightarrow> be_bytes 4 (be_val (take 4 xs)) @ be_bytes 4 (be_val (take 4 (drop 4 xs))) @ drop 8 xs = xs"
  "length xs = 2 \<Longrightarrow> be_bytes 2 (be_val (take 2 xs)) = xs"
proof -
  show "length xs = 4 \<Longrightarrow> be_bytes 4 (be_val (take 4 xs)) = xs" using be_take [of 0 4 xs] by simp
  show "length xs = 2 \<Longrightarrow> be_bytes 2 (be_val (take 2 xs)) = xs" using be_take [of 0 2 xs] by simp
  have a: "take 4 (drop 4 xs) @ drop 8 xs = drop 4 xs" using append_take_drop_id [of 4 "drop 4 xs"] by simp
  show r: "8 \<le> length xs \<Longrightarrow> be_bytes 4 (be_val (take 4 xs)) @ be_bytes 4 (be_val (take 4 (drop 4 xs))) @ drop 8 xs = xs"
    using be_take [of 0 4 xs] be_take [of 4 4 xs] by (simp add: a)
  have b: "take 4 (drop 8 xs) = drop 8 xs" if "length xs = 12" using that by simp
  show "length xs = 12 \<Longrightarrow> be_bytes 4 (be_val (take 4 xs)) @ be_bytes 4 (be_val (take 4 (drop 4 xs))) @
     be_bytes 4 (be_val (take 4 (drop 8 xs))) = xs"
    using r be_take [of 8 4 xs] by (simp add: b)
qed

definition field4 :: "nat \<Rightarrow> byte list \<Rightarrow> nat" where
  "field4 k xs = be_val (take 4 (drop k xs))"

lemma field4_less: "k + 4 \<le> length xs \<Longrightarrow> field4 k xs < 4294967296"
  using field_less [of 4 "drop k xs"] by (simp add: field4_def)

lemma chunks':
  "length xs = 4 \<Longrightarrow> be_bytes 4 (field4 0 xs) = xs"
  "length xs = 12 \<Longrightarrow> be_bytes 4 (field4 0 xs) @ be_bytes 4 (field4 4 xs) @ be_bytes 4 (field4 8 xs) = xs"
  "8 \<le> length xs \<Longrightarrow> be_bytes 4 (field4 0 xs) @ be_bytes 4 (field4 4 xs) @ drop 8 xs = xs"
  using chunks [of xs] by (simp_all add: field4_def)

lemma getIntParam_fields:
  "getIntParam (b # xs) (Suc 0) = field4 0 xs" "getIntParam (b # xs) 5 = field4 4 xs" "getIntParam (b # xs) 9 = field4 8 xs"
  by (simp_all add: field_simps' field4_def)

lemma byte_of: "getId data = mid \<Longrightarrow> data = b # xs \<Longrightarrow> (of_nat mid :: byte) = b"
  by (auto simp: of_nat_unat)

lemma read_is_sent:
  assumes read: "createBtMessage ops env data = Inl (m, v)" and ne: "\<not> is_extended m" and len: "length data < 2 ^ 31"
  shows "sendable ops (drop 9 data) m \<and> payload_of ops (drop 9 data) m = data \<and> as_received m = m \<and> v = validatorOf env m"
proof (cases data)
  case Nil
  then show ?thesis using read by (auto simp: createBtMessage_def payload_of_def)
next
  case (Cons b xs)
  have rd: "read_payload ops env data = Inl m" and v: "v = validatorOf env m"
    using read Cons by (auto simp: createBtMessage_def split: sum.splits)
  note short = field4_less [of 0 xs] field4_less [of 4 xs] field4_less [of 8 xs]
  note f = payload_of_def layout_simps getIntParam_fields signed_field
  note sb = int32_bounds [simplified]
  have of: "b = of_nat k" if "unat b = k" for k using byte_of [of data k b xs] that Cons by simp
  note ids = of [of 0] of [of "Suc 0"] of [of 2] of [of 3] of [of 4] of [of 5] of [of 6] of [of 7] of [of 8] of [of 9]
    of [of 13] of [of 14] of [of 15] of [of 16] of [of 17]
  have zero: "zero_create mid mz data = Inl m \<Longrightarrow> xs = [] \<and> m = mz \<and> mid = getId data" for mid mz
    using Cons by (auto simp: create_iff)
  have index: "index_create mid g data = Inl m \<Longrightarrow> length xs = 4 \<and> m = g (field4 0 xs) \<and> mid = getId data" for mid g
    using Cons by (auto simp: create_iff getIntParam_fields)
  have range: "range_create mid g data = Inl m \<Longrightarrow> length xs = 12 \<and> mid = getId data \<and>
      m = g (field4 0 xs) (int32_of (int (field4 4 xs))) (int32_of (int (field4 8 xs)))" for mid g
    using Cons by (auto simp: create_iff getIntParam_fields)
  have "m = Choke \<and> getId data = 0 \<and> xs = [] \<or> m = Unchoke \<and> getId data = 1 \<and> xs = [] \<or>
      m = Interested \<and> getId data = 2 \<and> xs = [] \<or> m = NotInterested \<and> getId data = 3 \<and> xs = [] \<or>
      m = HaveAll \<and> getId data = 14 \<and> xs = [] \<or> m = HaveNone \<and> getId data = 15 \<and> xs = [] \<or>
      m = Have (field4 0 xs) \<and> getId data = 4 \<and> length xs = 4 \<or>
      m = SuggestPiece (field4 0 xs) \<and> getId data = 13 \<and> length xs = 4 \<or>
      m = AllowedFast (field4 0 xs) \<and> getId data = 17 \<and> length xs = 4 \<or>
      m = Request (field4 0 xs) (int32_of (int (field4 4 xs))) (int32_of (int (field4 8 xs))) 0 \<and> getId data = 6 \<and> length xs = 12 \<or>
      m = Cancel (field4 0 xs) (int32_of (int (field4 4 xs))) (int32_of (int (field4 8 xs))) \<and> getId data = 8 \<and> length xs = 12 \<or>
      m = Reject (field4 0 xs) (int32_of (int (field4 4 xs))) (int32_of (int (field4 8 xs))) \<and> getId data = 16 \<and> length xs = 12 \<or>
      m = Bits xs \<and> getId data = 5 \<and> xs \<noteq> [] \<or>
      m = PieceBlock (field4 0 xs) (int32_of (int (field4 4 xs))) (int (length xs) - 8) \<and> getId data = 7 \<and> 8 < length xs \<or>
      m = Port (be_val (take 2 xs)) \<and> getId data = 9 \<and> length xs = 2"
    using rd ne Cons len unfolding read_payload_def Let_def
    by (auto simp: is_extended_def extended_create_iff create_iff getIntParam_fields field_simps' split: if_splits dest!: zero index range)
  then show ?thesis
    using v len Cons short sb chunks' [of xs] chunks(4) [of xs] field_less [of 2 xs]
    by (elim disjE) (auto simp: f nat_diff_distrib dest!: ids)
qed

end
