(* ===== verification/ConnectionProps.thy ===== *)
theory ConnectionProps
  imports PeerConnection WireProps
begin

text \<open>
  However the transport cuts the stream of a peer into pieces, \<open>receiveMessage\<close> delivers the
  payloads that the stream frames, in order and completely.
\<close>

subsection \<open>What is in the buffer\<close>

abbreviation buffered :: "connection \<Rightarrow> byte list" where
  "buffered st \<equiv> take (cn_resbufLength st) (cn_resbuf st)"

text \<open>The bytes that no message has been made of yet.\<close>

definition pending :: "connection \<Rightarrow> byte list" where
  "pending st = drop (if cn_msgState st = PREV_READ_LENGTH then cn_resbufOffset st else cn_msgOffset st) (buffered st)"

text \<open>The length that the first four bytes announce.\<close>

abbreviation announced_length :: "byte list \<Rightarrow> nat" where
  "announced_length bs \<equiv> be_val (take 4 bs)"

definition incomplete :: "byte list \<Rightarrow> bool" where
  "incomplete bs \<longleftrightarrow> length bs < 4 \<or> length bs < 4 + announced_length bs"

definition state_inv :: "connection \<Rightarrow> bool" where
  "state_inv st \<longleftrightarrow>
     (case cn_msgState st of
        PREV_READ_LENGTH \<Rightarrow> cn_currentPayloadLength st + 4 \<le> cn_bufferCapacity st \<and>
          (cn_resbufOffset st = cn_msgOffset st + 4 + cn_currentPayloadLength st \<or>
           cn_resbufOffset st = 0 \<and> cn_msgOffset st = 0)
      | READ_LENGTH \<Rightarrow> cn_msgOffset st < cn_resbufOffset st \<and> cn_resbufOffset st \<le> cn_msgOffset st + 3 \<and>
          cn_currentPayloadLength st =
            be_val (take (cn_resbufOffset st - cn_msgOffset st) (drop (cn_msgOffset st) (buffered st)))
      | READ_PAYLOAD \<Rightarrow> cn_msgOffset st + 4 \<le> cn_resbufOffset st \<and>
          cn_resbufOffset st < cn_msgOffset st + 4 + cn_currentPayloadLength st \<and>
          cn_currentPayloadLength st + 4 \<le> cn_bufferCapacity st \<and>
          cn_currentPayloadLength st = announced_length (drop (cn_msgOffset st) (buffered st)))"

definition conn_inv :: "connection \<Rightarrow> bool" where
  "conn_inv st \<longleftrightarrow> length (cn_resbuf st) = cn_bufferCapacity st \<and> 4 * 1024 + 8 \<le> cn_bufferCapacity st \<and>
     cn_bufferCapacity st < 2 ^ 32 \<and> cn_resbufLength st \<le> cn_bufferCapacity st \<and>
     cn_resbufOffset st \<le> cn_resbufLength st \<and> cn_msgOffset st \<le> cn_resbufOffset st \<and> state_inv st"

abbreviation at_offset :: "nat \<Rightarrow> connection \<Rightarrow> connection" where
  "at_offset i st \<equiv> st\<lparr>cn_resbufOffset := i\<rparr>"

lemma be_val_take_Suc:
  "k < length xs \<Longrightarrow> be_val (take (Suc k) xs) = be_val (take k xs) * 256 + unat (xs ! k)"
  by (simp add: take_Suc_conv_app_nth)

lemma be_val_take_less: "k \<le> 4 \<Longrightarrow> be_val (take k xs) < 2 ^ 32"
proof -
  assume "k \<le> 4"
  have "be_val (take k xs) < 256 ^ length (take k xs)" by (rule be_val_less)
  also have "\<dots> \<le> (256 :: nat) ^ 4" using \<open>k \<le> 4\<close> by (intro power_increasing) auto
  finally show ?thesis by simp
qed

subsection \<open>Looking at the buffer\<close>

text \<open>One byte of a length.\<close>

lemma scan_length_spec:
  assumes lens: "cn_resbufLength st \<le> length (cn_resbuf st)" "length (cn_resbuf st) < 2 ^ 32" and i: "i < cn_resbufLength st"
    and off: "cn_msgOffset st \<le> i" "i \<le> cn_msgOffset st + 3"
    and cur: "cn_currentPayloadLength st = be_val (take (i - cn_msgOffset st) (drop (cn_msgOffset st) (buffered st)))"
  shows "scan_length i st =
    (let n = be_val (take (Suc i - cn_msgOffset st) (drop (cn_msgOffset st) (buffered st)));
         st' = st\<lparr>cn_currentPayloadLength := n\<rparr>
     in if i = cn_msgOffset st + 3 then
          if plus4 n > cn_bufferCapacity st then Inr (TooLongPayload n)
          else if n = 0 then Inl (st'\<lparr>cn_msgState := PREV_READ_LENGTH\<rparr>, i, True)
          else Inl (st'\<lparr>cn_msgState := READ_PAYLOAD\<rparr>, i, False)
        else Inl (st', i, False))"
proof -
  let ?xs = "drop (cn_msgOffset st) (buffered st)"
  let ?k = "i - cn_msgOffset st"
  have "?k < length ?xs" using i off lens by simp
  then have "be_val (take (Suc ?k) ?xs) = cn_currentPayloadLength st * 256 + unat (?xs ! ?k)"
    using be_val_take_Suc [of ?k ?xs] cur by simp
  moreover have "?xs ! ?k = cn_resbuf st ! i" using i off lens by simp
  ultimately have n: "be_val (take (Suc i - cn_msgOffset st) ?xs) = cn_currentPayloadLength st * 256 + unat (cn_resbuf st ! i)"
    using off by (simp add: Suc_diff_le)
  moreover have "be_val (take (Suc i - cn_msgOffset st) ?xs) < 2 ^ 32" by (rule be_val_take_less) (use off in simp)
  ultimately have m: "(cn_currentPayloadLength st * 256 + unat (cn_resbuf st ! i)) mod 2 ^ 32 =
      be_val (take (Suc i - cn_msgOffset st) ?xs)" by simp
  have "usub i (cn_msgOffset st) = 3 \<longleftrightarrow> i = cn_msgOffset st + 3" using off by auto
  then show ?thesis unfolding scan_length_def m Let_def by simp
qed

text \<open>The outcome \<open>r\<close> of looking at a buffer of which the bytes \<open>P\<close> are pending.\<close>

definition scan_result ::
  "byte list \<Rightarrow> nat \<Rightarrow> nat \<Rightarrow> byte list \<Rightarrow> (connection \<times> nat \<times> bool) + bt_error \<Rightarrow> bool" where
  "scan_result buf len cap P r \<longleftrightarrow>
     (case r of
        Inr e \<Rightarrow> 4 \<le> length P \<and> e = TooLongPayload (announced_length P) \<and> cap < announced_length P + 4
      | Inl (st', j, done) \<Rightarrow> conn_inv (at_offset j st') \<and> cn_resbuf st' = buf \<and> cn_resbufLength st' = len \<and>
          cn_bufferCapacity st' = cap \<and>
          (if done then cn_msgState st' = PREV_READ_LENGTH \<and> cn_currentPayloadLength st' = announced_length P \<and>
             4 + cn_currentPayloadLength st' \<le> length P \<and> cn_currentPayloadLength st' + 4 \<le> cap \<and>
             drop (cn_msgOffset st') (take len buf) = P \<and> j = cn_msgOffset st' + 4 + cn_currentPayloadLength st'
           else j = len \<and> pending (at_offset j st') = P \<and> incomplete P))"

abbreviation scanned :: "nat \<Rightarrow> connection \<Rightarrow> (connection \<times> nat \<times> bool) + bt_error \<Rightarrow> bool" where
  "scanned i st \<equiv> scan_result (cn_resbuf st) (cn_resbufLength st) (cn_bufferCapacity st) (pending (at_offset i st))"

lemma scan_spec:
  assumes "conn_inv (at_offset i st)"
    and "4 \<le> length (pending (at_offset i st)) \<Longrightarrow> announced_length (pending (at_offset i st)) + 4 < 2 ^ 32"
  shows "scanned i st (scan i st)"
  using assms
proof (induction i st rule: scan.induct)
  case (1 i st)
  note I = 1(2) [unfolded conn_inv_def, simplified]
  show ?case
  proof (cases "i < cn_resbufLength st")
    case False
    then have i: "i = cn_resbufLength st" using I by simp
    have "incomplete (pending (at_offset i st))"
    proof (cases "cn_msgState st")
      case PREV_READ_LENGTH
      then show ?thesis using i by (simp add: pending_def incomplete_def)
    next
      case READ_LENGTH
      then have "cn_resbufLength st \<le> cn_msgOffset st + 3" using I i by (simp add: state_inv_def)
      then have "length (pending (at_offset i st)) < 4" using READ_LENGTH I by (simp add: pending_def)
      then show ?thesis by (simp add: incomplete_def)
    next
      case READ_PAYLOAD
      then have "cn_resbufLength st < cn_msgOffset st + 4 + cn_currentPayloadLength st \<and>
          cn_currentPayloadLength st = announced_length (drop (cn_msgOffset st) (buffered st))"
        using I i by (simp add: state_inv_def)
      then show ?thesis using READ_PAYLOAD I by (auto simp: pending_def incomplete_def)
    qed
    moreover have "scan i st = Inl (st, i, False)" using False by (subst scan.simps) simp
    ultimately show ?thesis using i 1(2) by (simp add: scan_result_def)
  next
    case True
    let ?P = "pending (at_offset i st)"
    have lens: "cn_resbufLength st \<le> length (cn_resbuf st)" "length (cn_resbuf st) < 2 ^ 32" using I by simp_all
    have continue: ?thesis if step: "scan_byte i st = Inl (st2, i2, False)" and inv: "conn_inv (at_offset (Suc i2) st2)"
      and pend: "pending (at_offset (Suc i2) st2) = ?P" for st2 i2
    proof -
      have same: "cn_resbufLength st2 = cn_resbufLength st" "cn_resbuf st2 = cn_resbuf st"
        "cn_bufferCapacity st2 = cn_bufferCapacity st" using scan_byte_forward [OF step True] by simp_all
      have eq: "scan i st = scan (Suc i2) st2" using True step by (simp add: scan.simps [of i st])
      have "scanned (Suc i2) st2 (scan (Suc i2) st2)"
        using 1(1) [OF True step refl refl] inv pend 1(3) by simp
      then show ?thesis unfolding eq same pend .
    qed
    show ?thesis
    proof (cases "cn_msgState st")
      case PREV_READ_LENGTH
      define st1 where "st1 = st\<lparr>cn_msgOffset := i, cn_currentPayloadLength := 0, cn_msgState := READ_LENGTH\<rparr>"
      define st2 where "st2 = st1\<lparr>cn_currentPayloadLength := be_val (take 1 (drop i (buffered st)))\<rparr>"
      have "scan_length i st1 = Inl (st2, i, False)"
        by (subst scan_length_spec) (use True lens in \<open>simp_all add: st1_def st2_def\<close>)
      then have "scan_byte i st = Inl (st2, i, False)" using PREV_READ_LENGTH by (simp add: scan_byte_def st1_def)
      then show ?thesis
      proof (rule continue)
        show "conn_inv (at_offset (Suc i) st2)"
          using I True by (simp add: st1_def st2_def conn_inv_def state_inv_def)
        show "pending (at_offset (Suc i) st2) = ?P"
          using PREV_READ_LENGTH by (simp add: pending_def st1_def st2_def)
      qed
    next
      case READ_LENGTH
      define n where "n = be_val (take (Suc i - cn_msgOffset st) (drop (cn_msgOffset st) (buffered st)))"
      define st2 where "st2 = st\<lparr>cn_currentPayloadLength := n\<rparr>"
      have si: "cn_msgOffset st < i" "i \<le> cn_msgOffset st + 3"
        "cn_currentPayloadLength st = be_val (take (i - cn_msgOffset st) (drop (cn_msgOffset st) (buffered st)))"
        using I READ_LENGTH by (simp_all add: state_inv_def)
      have byte: "scan_byte i st = (if i = cn_msgOffset st + 3 then
            if plus4 n > cn_bufferCapacity st then Inr (TooLongPayload n)
            else if n = 0 then Inl (st2\<lparr>cn_msgState := PREV_READ_LENGTH\<rparr>, i, True)
            else Inl (st2\<lparr>cn_msgState := READ_PAYLOAD\<rparr>, i, False)
          else Inl (st2, i, False))"
        using READ_LENGTH scan_length_spec [OF lens True] si by (simp add: scan_byte_def n_def st2_def)
      have P: "?P = drop (cn_msgOffset st) (buffered st)" using READ_LENGTH by (simp add: pending_def)
      show ?thesis
      proof (cases "i = cn_msgOffset st + 3")
        case False
        show ?thesis
        proof (rule continue)
          show "scan_byte i st = Inl (st2, i, False)" using byte False by simp
          show "conn_inv (at_offset (Suc i) st2)"
            using I True READ_LENGTH si False by (simp add: st2_def n_def conn_inv_def state_inv_def)
          show "pending (at_offset (Suc i) st2) = ?P" using READ_LENGTH by (simp add: pending_def st2_def)
        qed
      next
        case i: True
        have nd: "n = announced_length (drop (cn_msgOffset st) (buffered st))" using i by (simp add: n_def)
        have j: "Suc i = cn_msgOffset st + 4" using i by simp
        have n: "n = announced_length ?P" unfolding P using i by (simp add: n_def)
        have len: "4 \<le> length ?P" unfolding P using True i I by simp
        then have plus: "plus4 n = n + 4" using 1(3) by (simp add: plus4_def n)
        consider (long) "cn_bufferCapacity st < n + 4" | (zero) "n = 0" | (pos) "0 < n" "n + 4 \<le> cn_bufferCapacity st"
          by linarith
        then show ?thesis
        proof cases
          case long
          then have "scan_byte i st = Inr (TooLongPayload n)" using byte i plus by simp
          then have "scan i st = Inr (TooLongPayload n)" using True by (simp add: scan.simps [of i st])
          then show ?thesis using long len by (simp add: n scan_result_def)
        next
          case zero
          have cap: "4 \<le> cn_bufferCapacity st" using I by simp
          have sc: "scan i st = Inl (st2\<lparr>cn_msgState := PREV_READ_LENGTH\<rparr>, Suc i, True)"
          proof -
            have "scan_byte i st = Inl (st2\<lparr>cn_msgState := PREV_READ_LENGTH\<rparr>, i, True)" using byte i plus zero I by simp
            then show ?thesis using True by (simp add: scan.simps [of i st])
          qed
          have "conn_inv (at_offset (Suc i) (st2\<lparr>cn_msgState := PREV_READ_LENGTH\<rparr>))"
            using I True i zero by (simp add: st2_def conn_inv_def state_inv_def)
          then show ?thesis unfolding sc scan_result_def using len n [symmetric] P [symmetric] cap
            by (simp add: st2_def zero j)
        next
          case pos
          show ?thesis
          proof (rule continue)
            show "scan_byte i st = Inl (st2\<lparr>cn_msgState := READ_PAYLOAD\<rparr>, i, False)" using byte i plus pos by simp
            show "conn_inv (at_offset (Suc i) (st2\<lparr>cn_msgState := READ_PAYLOAD\<rparr>))"
              using I True i pos nd by (simp add: st2_def conn_inv_def state_inv_def)
            show "pending (at_offset (Suc i) (st2\<lparr>cn_msgState := READ_PAYLOAD\<rparr>)) = ?P"
              using READ_LENGTH by (simp add: pending_def st2_def)
          qed
        qed
      qed
    next
      case READ_PAYLOAD
      have P: "?P = drop (cn_msgOffset st) (buffered st)" using READ_PAYLOAD by (simp add: pending_def)
      have si: "cn_msgOffset st + 4 \<le> i" "i < cn_msgOffset st + 4 + cn_currentPayloadLength st"
        "cn_currentPayloadLength st + 4 \<le> cn_bufferCapacity st" "cn_currentPayloadLength st = announced_length ?P"
        using I READ_PAYLOAD by (simp_all add: state_inv_def P)
      have plus: "plus4 (cn_currentPayloadLength st) = cn_currentPayloadLength st + 4" using si I by (simp add: plus4_def)
      have lenP: "length ?P = cn_resbufLength st - cn_msgOffset st" using I by (simp add: P)
      show ?thesis
      proof (cases "4 + cn_currentPayloadLength st \<le> length ?P")
        case full: True
        have sc: "scan i st = Inl (st\<lparr>cn_msgState := PREV_READ_LENGTH\<rparr>, cn_msgOffset st + 4 + cn_currentPayloadLength st, True)"
          using True READ_PAYLOAD full I si(1) plus
          by (simp add: scan.simps [of i st] scan_byte_def scan_payload_def lenP)
        have "conn_inv (at_offset (cn_msgOffset st + 4 + cn_currentPayloadLength st) (st\<lparr>cn_msgState := PREV_READ_LENGTH\<rparr>))"
          using I si full by (simp add: conn_inv_def state_inv_def lenP)
        then show ?thesis unfolding sc scan_result_def using full si(3) si(4) [symmetric] P [symmetric] by simp
      next
        case False
        show ?thesis
        proof (rule continue)
          show "scan_byte i st = Inl (st, cn_resbufLength st - 1, False)"
            using READ_PAYLOAD False I plus by (simp add: scan_byte_def scan_payload_def lenP)
          show "conn_inv (at_offset (Suc (cn_resbufLength st - 1)) st)"
            using I True READ_PAYLOAD si False by (simp add: conn_inv_def state_inv_def lenP P)
          show "pending (at_offset (Suc (cn_resbufLength st - 1)) st) = ?P" using READ_PAYLOAD by (simp add: pending_def)
        qed
      qed
    qed
  qed
qed

subsection \<open>One call\<close>

fun flow :: "segment list \<Rightarrow> byte list" where
  "flow [] = []"
| "flow (Avail bs # segs) = bs @ flow segs"
| "flow (Blocked # segs) = flow segs"
| "flow (Closed # segs) = []"

text \<open>
  What the transport delivers at once is not empty and leaves room for the three bytes of an
  unfinished length.
\<close>

definition segs_ok :: "nat \<Rightarrow> segment list \<Rightarrow> bool" where
  "segs_ok cap segs \<longleftrightarrow> (\<forall>bs. Avail bs \<in> set segs \<longrightarrow> bs \<noteq> [] \<and> length bs + 3 \<le> cap)"

lemma readData_flow:
  assumes "segs_ok cap segs" and "0 < n" and "readData n segs = (r, segs')"
  shows "segs_ok cap segs'"
    and "flow segs = (case r of Got bs \<Rightarrow> bs | _ \<Rightarrow> []) @ flow segs'"
    and "r = Got bs \<Longrightarrow> bs \<noteq> [] \<and> length bs \<le> n \<and> length bs + 3 \<le> cap"
    and "r = Again \<Longrightarrow> length segs' < length segs \<or> segs = []"
    and "r = Eof \<Longrightarrow> hd segs = Closed \<and> segs \<noteq> []"
proof -
  have *: "segs_ok cap segs' \<and> flow segs = (case r of Got bs \<Rightarrow> bs | _ \<Rightarrow> []) @ flow segs' \<and>
    (\<forall>bs. r = Got bs \<longrightarrow> bs \<noteq> [] \<and> length bs \<le> n \<and> length bs + 3 \<le> cap) \<and>
    (r = Again \<longrightarrow> length segs' < length segs \<or> segs = []) \<and> (r = Eof \<longrightarrow> hd segs = Closed \<and> segs \<noteq> [])"
  proof (cases "(n, segs)" rule: readData.cases)
    case (4 k bs rest)
    have "bs \<noteq> []" "length bs + 3 \<le> cap" using assms(1) 4 by (auto simp: segs_ok_def)
    then have r: "r = Got (take n bs)" "segs' = (if drop n bs = [] then rest else Avail (drop n bs) # rest)"
      using assms(2,3) 4 by auto
    have "segs_ok cap segs'" using assms(1) 4 r(2) by (auto simp: segs_ok_def)
    moreover have "flow segs = take n bs @ flow segs'" using 4 r(2) by (auto simp flip: append_assoc)
    ultimately show ?thesis using r(1) \<open>bs \<noteq> []\<close> \<open>length bs + 3 \<le> cap\<close> assms(2) by auto
  qed (use assms in \<open>auto simp: segs_ok_def\<close>)
  then show "segs_ok cap segs'" "flow segs = (case r of Got bs \<Rightarrow> bs | _ \<Rightarrow> []) @ flow segs'"
    "r = Got bs \<Longrightarrow> bs \<noteq> [] \<and> length bs \<le> n \<and> length bs + 3 \<le> cap"
    "r = Again \<Longrightarrow> length segs' < length segs \<or> segs = []" "r = Eof \<Longrightarrow> hd segs = Closed \<and> segs \<noteq> []" by blast+
qed

lemma readData_rest:
  "readData n segs = (r, segs') \<Longrightarrow> segments_size segs' \<le> segments_size segs \<and> (Closed \<in> set segs' \<longrightarrow> Closed \<in> set segs) \<and>
     (r = Again \<longrightarrow> segs' = [] \<or> segments_size segs' < segments_size segs)"
  by (induction n segs rule: readData.induct) (auto split: if_splits)

text \<open>Compacting keeps the invariant and the bytes, and makes room.\<close>

lemma compact_spec:
  assumes inv: "conn_inv st" and all: "cn_resbufOffset st = cn_resbufLength st" and part: "incomplete (pending st)"
  defines "st' \<equiv> compact_buffer st"
  shows "conn_inv st'" and "pending st' = pending st" and "cn_resbufOffset st' = cn_resbufLength st'"
    and "cn_bufferCapacity st' = cn_bufferCapacity st" and "0 < read_size st'"
    and "cn_resbufLength st' + min (read_size st') (cn_bufferCapacity st - 3) \<le> cn_bufferCapacity st"
proof -
  note I = inv [unfolded conn_inv_def state_inv_def, simplified all]
  have goal: "conn_inv st' \<and> pending st' = pending st \<and> cn_resbufOffset st' = cn_resbufLength st' \<and>
      cn_bufferCapacity st' = cn_bufferCapacity st \<and> 0 < read_size st' \<and>
      cn_resbufLength st' + min (read_size st') (cn_bufferCapacity st - 3) \<le> cn_bufferCapacity st"
  proof (cases "cn_msgState st = PREV_READ_LENGTH")
    case True
    have plus: "plus4 (cn_currentPayloadLength st) = cn_currentPayloadLength st + 4"
      using I True by (simp add: plus4_def)
    have st': "st' = st\<lparr>cn_resbufLength := 0, cn_resbufOffset := 0, cn_msgOffset := 0\<rparr>"
    proof (cases "cn_resbufLength st = 0")
      case False
      then show ?thesis using I True all plus by (simp add: st'_def compact_buffer_def)
    next
      case zero: True
      then show ?thesis using I all by (simp add: st'_def compact_buffer_def)
    qed
    have "conn_inv st'" using I True by (simp add: st' conn_inv_def state_inv_def)
    moreover have "pending st' = pending st" using True all by (simp add: st' pending_def)
    moreover have "0 < read_size st' \<and> read_size st' \<le> cn_bufferCapacity st"
      using I True plus by (simp add: st' read_size_def)
    ultimately show ?thesis by (simp add: st')
  next
    case False
    define len where "len = cn_resbufLength st - cn_msgOffset st"
    define cur where "cur = cn_currentPayloadLength st"
    have P: "pending st = drop (cn_msgOffset st) (buffered st)" using False by (simp add: pending_def)
    have facts: "cur < 2 ^ 24 \<or> cur + 4 \<le> cn_bufferCapacity st" "0 < len" "len < cur + 4"
      "cn_msgState st = READ_LENGTH \<longrightarrow> len \<le> 3" "cn_msgState st = READ_PAYLOAD \<longrightarrow> cur + 4 \<le> cn_bufferCapacity st"
    proof -
      have small: "cur < 2 ^ 24 \<and> len \<le> 3" if "cn_msgState st = READ_LENGTH"
      proof -
        have "cur = be_val (take len (drop (cn_msgOffset st) (buffered st)))" using I that by (simp add: len_def cur_def)
        moreover have "cn_resbufLength st \<le> cn_msgOffset st + 3" using I that by simp
        then have l3: "len \<le> 3" unfolding len_def by linarith
        moreover have "be_val (take len xs) < 256 ^ 3" if "len \<le> 3" for xs
        proof -
          have "be_val (take len xs) < 256 ^ length (take len xs)" by (rule be_val_less)
          also have "\<dots> \<le> (256 :: nat) ^ 3" using that by (intro power_increasing) auto
          finally show ?thesis .
        qed
        ultimately show ?thesis using l3 by simp
      qed
      have payload: "cur + 4 \<le> cn_bufferCapacity st \<and> 0 < len \<and> len < cur + 4" if "cn_msgState st = READ_PAYLOAD"
        using I that unfolding len_def cur_def by auto
      have pos: "0 < len" if "cn_msgState st = READ_LENGTH" using I that unfolding len_def by auto
      have states: "cn_msgState st = READ_LENGTH \<or> cn_msgState st = READ_PAYLOAD" using False by (cases "cn_msgState st") simp_all
      show "cur < 2 ^ 24 \<or> cur + 4 \<le> cn_bufferCapacity st" "0 < len" "len < cur + 4"
        "cn_msgState st = READ_LENGTH \<longrightarrow> len \<le> 3" "cn_msgState st = READ_PAYLOAD \<longrightarrow> cur + 4 \<le> cn_bufferCapacity st"
        using states small payload pos by fastforce+
    qed
    have plus: "plus4 cur = cur + 4" using facts(1) I by (auto simp: plus4_def)
    have st': "st' = st\<lparr>cn_resbuf := put_bytes 0 (take len (drop (cn_msgOffset st) (cn_resbuf st))) (cn_resbuf st),
        cn_resbufLength := len, cn_resbufOffset := len, cn_msgOffset := 0\<rparr>"
      using facts(2,3) plus I by (simp add: st'_def compact_buffer_def len_def cur_def Let_def)
    have le: "cn_msgOffset st \<le> cn_resbufLength st" "cn_resbufLength st \<le> length (cn_resbuf st)" using I by simp_all
    define X where "X = take len (drop (cn_msgOffset st) (cn_resbuf st))"
    have X: "length X = len" "X = drop (cn_msgOffset st) (buffered st)" "len \<le> length (cn_resbuf st)"
      using le by (auto simp: X_def len_def drop_take)
    have buf: "take len (cn_resbuf st') = drop (cn_msgOffset st) (buffered st)" "length (cn_resbuf st') = length (cn_resbuf st)"
      using X(1,3) unfolding X(2) [symmetric] st' X_def [symmetric] by (simp_all add: put_bytes_def)
    have lenP: "length (drop (cn_msgOffset st) (buffered st)) = len" using I by (simp add: len_def)
    have sel: "cn_msgState st' = cn_msgState st" "cn_resbufOffset st' = len" "cn_msgOffset st' = 0"
      "cn_currentPayloadLength st' = cur" "cn_resbufLength st' = len" "cn_bufferCapacity st' = cn_bufferCapacity st"
      by (simp_all add: st' cur_def)
    have bX: "take len (cn_resbuf st') = X" using buf(1) X(2) by simp
    have "state_inv st'"
    proof (cases "cn_msgState st")
      case READ_LENGTH
      then have "cur = be_val X" using I X(1,2) unfolding cur_def by (simp add: len_def)
      then show ?thesis using READ_LENGTH facts X(1) unfolding state_inv_def by (simp add: sel bX)
    next
      case READ_PAYLOAD
      then have "cur = announced_length X" "cn_msgOffset st + 4 \<le> cn_resbufLength st"
        using I X(2) unfolding cur_def by simp_all
      then have "cur = announced_length X" "4 \<le> len" unfolding len_def by simp_all
      then show ?thesis using READ_PAYLOAD facts unfolding state_inv_def by (simp add: sel bX)
    qed (use False in simp)
    then have inv': "conn_inv st'" using I buf(2) X(3) by (simp add: conn_inv_def) (simp add: st')
    have "pending st' = pending st" using False buf by (simp add: P) (simp add: pending_def st')
    moreover have "0 < read_size st' \<and> len + min (read_size st') (cn_bufferCapacity st - 3) \<le> cn_bufferCapacity st"
      using facts plus I by (cases "cn_msgState st") (auto simp: st' read_size_def cur_def usub_def)
    ultimately show ?thesis using inv' by (simp add: st')
  qed
  then show "conn_inv st'" "pending st' = pending st" "cn_resbufOffset st' = cn_resbufLength st'"
    "cn_bufferCapacity st' = cn_bufferCapacity st" "0 < read_size st'"
    "cn_resbufLength st' + min (read_size st') (cn_bufferCapacity st - 3) \<le> cn_bufferCapacity st" by simp_all
qed

lemma append_buffer_spec:
  assumes inv: "conn_inv st" and all: "cn_resbufOffset st = cn_resbufLength st"
    and room: "cn_resbufLength st + length bs \<le> cn_bufferCapacity st"
  shows "\<exists>st'. append_buffer bs st = Some st' \<and> conn_inv st' \<and> pending st' = pending st @ bs \<and>
    cn_bufferCapacity st' = cn_bufferCapacity st"
proof -
  note I = inv [unfolded conn_inv_def, simplified all]
  define st' where "st' = st\<lparr>cn_resbuf := put_bytes (cn_resbufLength st) bs (cn_resbuf st),
      cn_resbufLength := cn_resbufLength st + length bs\<rparr>"
  have run: "append_buffer bs st = Some st'" using I room by (simp add: append_buffer_def st'_def)
  have buf: "buffered st' = buffered st @ bs" "length (cn_resbuf st') = length (cn_resbuf st)"
    using I room by (simp_all add: st'_def put_bytes_def)
  have drop: "drop k (buffered st') = drop k (buffered st) @ bs" if "k \<le> cn_resbufLength st" for k
    using that I by (simp add: buf(1))
  have "pending st' = pending st @ bs"
    using I all drop [of "cn_msgOffset st"] drop [of "cn_resbufLength st"] unfolding pending_def by (simp add: st'_def)
  moreover have "state_inv st'"
  proof (cases "cn_msgState st")
    case PREV_READ_LENGTH
    then show ?thesis using I by (simp add: state_inv_def st'_def)
  next
    case READ_LENGTH
    then show ?thesis using I drop [of "cn_msgOffset st"] all unfolding state_inv_def by (simp add: st'_def)
  next
    case READ_PAYLOAD
    then show ?thesis using I drop [of "cn_msgOffset st"] all unfolding state_inv_def by (simp add: st'_def)
  qed
  then have "conn_inv st'" using I buf(2) room all by (simp add: conn_inv_def st'_def)
  ultimately show ?thesis using run by (auto simp: st'_def)
qed

text \<open>
  The stream still to come is what is pending and what the transport has. A call delivers its first
  message, or says that it is too long, or has taken everything that is there.
\<close>

definition delivered :: "byte list \<Rightarrow> nat \<Rightarrow> connection \<Rightarrow> segment list \<Rightarrow> received \<Rightarrow> bool" where
  "delivered T cap st' segs' r \<longleftrightarrow>
     (case r of
        Message n \<Rightarrow> conn_inv st' \<and> segs_ok cap segs' \<and> n + 4 \<le> cap \<and> n = announced_length T \<and>
          4 + n \<le> length T \<and> take n (getMsgPayloadBuffer st') = take n (drop 4 T) \<and>
          pending st' @ flow segs' = drop (4 + n) T
      | NoMessage \<Rightarrow> conn_inv st' \<and> segs_ok cap segs' \<and> incomplete (pending st') \<and> pending st' @ flow segs' = T
      | Abort e \<Rightarrow> e = TooLongPayload (announced_length T) \<and> 4 \<le> length T \<and> cap < announced_length T + 4 \<or>
          e = EofFromPeer \<and> incomplete T)"

lemma receiveMessage_call:
  assumes "conn_inv st" and "segs_ok (cn_bufferCapacity st) segs"
    and "announced_length (pending st @ flow segs) + 4 < 2 ^ 32"
  shows "\<exists>st' segs' r. receiveMessage st segs = Some (st', segs', r) \<and>
    cn_bufferCapacity st' = cn_bufferCapacity st \<and> segments_size segs' \<le> segments_size segs \<and>
    (Closed \<in> set segs' \<longrightarrow> Closed \<in> set segs) \<and>
    (r = NoMessage \<longrightarrow> segs' = [] \<or> segments_size segs' < segments_size segs) \<and>
    (r = Abort EofFromPeer \<longrightarrow> Closed \<in> set segs) \<and>
    delivered (pending st @ flow segs) (cn_bufferCapacity st) st' segs' r"
  using assms
proof (induction st segs rule: receiveMessage.induct)
  case (1 st segs)
  let ?T = "pending st @ flow segs"
  have at: "at_offset (cn_resbufOffset st) st = st" by simp
  have wrap: "4 \<le> length (pending st) \<Longrightarrow> announced_length (pending st) + 4 < 2 ^ 32" using 1(4) by simp
  have "scanned (cn_resbufOffset st) st (scan (cn_resbufOffset st) st)"
    using scan_spec [of "cn_resbufOffset st" st] 1(2) wrap by simp
  note sc = this [unfolded at]
  show ?case
  proof (cases "scan (cn_resbufOffset st) st")
    case (Inr e)
    then have "receiveMessage st segs = Some (st, segs, Abort e)" by (simp add: receiveMessage.simps [of st])
    moreover have "delivered ?T (cn_bufferCapacity st) st segs (Abort e)" using sc Inr by (auto simp: scan_result_def delivered_def)
    moreover have "e \<noteq> EofFromPeer" using sc Inr by (auto simp: scan_result_def)
    ultimately show ?thesis by simp
  next
    case (Inl q)
    obtain st1 j dn where q: "q = (st1, j, dn)" by (cases q)
    define st2 where "st2 = at_offset j st1"
    have res: "conn_inv st2" "cn_resbuf st2 = cn_resbuf st" "cn_resbufLength st2 = cn_resbufLength st"
      "cn_bufferCapacity st2 = cn_bufferCapacity st"
      using sc Inl q by (auto simp: scan_result_def st2_def)
    show ?thesis
    proof (cases dn)
      case True
      have run: "receiveMessage st segs = Some (st2, segs, Message (cn_currentPayloadLength st2))"
        using Inl q True by (simp add: receiveMessage.simps [of st] st2_def)
      let ?n = "announced_length (pending st)"
      have d: "cn_msgState st2 = PREV_READ_LENGTH" "cn_currentPayloadLength st2 = ?n" "4 + ?n \<le> length (pending st)"
        "?n + 4 \<le> cn_bufferCapacity st" "drop (cn_msgOffset st2) (buffered st) = pending st"
        "cn_resbufOffset st2 = cn_msgOffset st2 + 4 + ?n"
        using sc Inl q True by (auto simp: scan_result_def st2_def)
      have dP: "drop k (pending st) = drop (cn_msgOffset st2 + k) (buffered st)" for k
        unfolding d(5) [symmetric] by (simp add: add.commute)
      have lenP: "4 + ?n \<le> cn_resbufLength st - cn_msgOffset st2"
        using d(3) arg_cong [OF d(5), of length] by simp
      have pay: "take ?n (getMsgPayloadBuffer st2) = take ?n (drop 4 (pending st))"
        unfolding dP getMsgPayloadBuffer_def res(2) using lenP by (simp add: drop_take min_def)
      have "pending st2 = drop (4 + ?n) (pending st)"
        unfolding dP using d(1,6) res(2,3) by (simp add: pending_def add.assoc)
      then have "delivered ?T (cn_bufferCapacity st) st2 segs (Message (cn_currentPayloadLength st2))"
        using d res 1(3) pay by (simp add: delivered_def)
      then show ?thesis using run res by blast
    next
      case False
      have d: "cn_resbufOffset st2 = cn_resbufLength st2" "pending st2 = pending st" "incomplete (pending st)"
        using sc Inl q False by (auto simp: scan_result_def st2_def)
      define st3 where "st3 = compact_buffer st2"
      note c = compact_spec [OF res(1) d(1), unfolded d(2), OF d(3), folded st3_def, unfolded res(4)]
      obtain r segs1 where rd: "readData (read_size st3) segs = (r, segs1)" by fastforce
      note rf = readData_flow [OF 1(3) c(5) rd]
      show ?thesis
      proof (cases r)
        case Again
        have "receiveMessage st segs = Some (st3, segs1, NoMessage)"
          using Inl q False d rd Again by (simp add: receiveMessage.simps [of st] st2_def st3_def)
        moreover have "delivered ?T (cn_bufferCapacity st) st3 segs1 NoMessage"
          using c d rf Again by (simp add: delivered_def)
        moreover note readData_rest [OF rd]
        ultimately show ?thesis using c(4) Again by blast
      next
        case Eof
        have "receiveMessage st segs = Some (st3, segs1, Abort EofFromPeer)"
          using Inl q False d rd Eof by (simp add: receiveMessage.simps [of st] st2_def st3_def)
        moreover have "flow segs = []" using rf(5) [OF Eof] by (cases segs) auto
        then have "delivered ?T (cn_bufferCapacity st) st3 segs1 (Abort EofFromPeer)" using d by (simp add: delivered_def)
        moreover note readData_rest [OF rd]
        moreover have "Closed \<in> set segs" using rf(5) [OF Eof] by (cases segs) auto
        ultimately show ?thesis using c(4) by blast
      next
        case (Got bs)
        have room: "cn_resbufLength st3 + length bs \<le> cn_bufferCapacity st3" using rf(3) [OF Got] c(4,6) by linarith
        obtain st4 where st4: "append_buffer bs st3 = Some st4" "conn_inv st4" "pending st4 = pending st3 @ bs"
          "cn_bufferCapacity st4 = cn_bufferCapacity st3" using append_buffer_spec [OF c(1,3) room] by blast
        have eq: "receiveMessage st segs = receiveMessage st4 segs1"
          using Inl q False d rd Got st4(1) by (simp add: receiveMessage.simps [of st segs] st2_def st3_def)
        have T: "pending st4 @ flow segs1 = ?T" using st4(3) c(2) d(2) rf(2) Got by simp
        note rest = readData_rest [OF rd]
        have "\<exists>st' segs' r. receiveMessage st4 segs1 = Some (st', segs', r) \<and>
            cn_bufferCapacity st' = cn_bufferCapacity st4 \<and> segments_size segs' \<le> segments_size segs1 \<and>
            (Closed \<in> set segs' \<longrightarrow> Closed \<in> set segs1) \<and>
            (r = NoMessage \<longrightarrow> segs' = [] \<or> segments_size segs' < segments_size segs1) \<and>
            (r = Abort EofFromPeer \<longrightarrow> Closed \<in> set segs1) \<and>
            delivered (pending st4 @ flow segs1) (cn_bufferCapacity st4) st' segs' r"
        proof (rule 1(1) [OF Inl q [symmetric] refl st2_def [symmetric, THEN sym] False _ st3_def rd [symmetric] Got st4(1,2)])
          show "\<not> cn_resbufOffset st2 \<noteq> cn_resbufLength st2" using d(1) by simp
          show "segs_ok (cn_bufferCapacity st4) segs1" using rf(1) st4(4) c(4) by simp
          show "announced_length (pending st4 @ flow segs1) + 4 < 2 ^ 32" unfolding T by (rule 1(4))
        qed
        then obtain st' segs' r' where call: "receiveMessage st4 segs1 = Some (st', segs', r')"
            "cn_bufferCapacity st' = cn_bufferCapacity st4" "segments_size segs' \<le> segments_size segs1"
            "Closed \<in> set segs' \<longrightarrow> Closed \<in> set segs1" "r' = NoMessage \<longrightarrow> segs' = [] \<or> segments_size segs' < segments_size segs1"
            "r' = Abort EofFromPeer \<longrightarrow> Closed \<in> set segs1" "delivered ?T (cn_bufferCapacity st4) st' segs' r'"
          unfolding T by blast
        show ?thesis unfolding eq
          by (intro exI [of _ st'] exI [of _ segs'] exI [of _ r']) (use call rest c(4) st4(4) in auto)
      qed
    qed
  qed
qed

subsection \<open>All calls\<close>

text \<open>The payloads of up to \<open>k\<close> calls, one after the other, until the transport has nothing more.\<close>

fun receive_all ::
  "nat \<Rightarrow> connection \<Rightarrow> segment list \<Rightarrow> (byte list list \<times> connection \<times> segment list \<times> received) option" where
  "receive_all 0 st segs = Some ([], st, segs, NoMessage)"
| "receive_all (Suc k) st segs =
     (case receiveMessage st segs of
        None \<Rightarrow> None
      | Some (st, segs, Message n) \<Rightarrow>
          map_option (\<lambda>(ms, r). (take n (getMsgPayloadBuffer st) # ms, r)) (receive_all k st segs)
      | Some (st, segs, NoMessage) \<Rightarrow> if segs = [] then Some ([], st, segs, NoMessage) else receive_all k st segs
      | Some (st, segs, Abort e) \<Rightarrow> Some ([], st, segs, Abort e))"

abbreviation framed :: "byte list \<Rightarrow> byte list" where
  "framed m \<equiv> be_bytes 4 (length m) @ m"

lemma announced_framed: "length m < 2 ^ 32 \<Longrightarrow> announced_length (framed m @ rest) = length m"
  by (simp add: be_val_be_bytes)

lemma receive_all_frames:
  assumes "conn_inv st" and "segs_ok (cn_bufferCapacity st) segs" and "Closed \<notin> set segs"
    and "pending st @ flow segs = concat (map framed ms) @ rest"
    and "\<forall>m\<in>set ms. length m + 4 \<le> cn_bufferCapacity st"
    and "incomplete rest" and "4 \<le> length rest \<Longrightarrow> announced_length rest + 4 \<le> cn_bufferCapacity st"
    and "length ms + segments_size segs < k"
  shows "\<exists>st'. receive_all k st segs = Some (ms, st', [], NoMessage) \<and> conn_inv st' \<and> pending st' = rest"
  using assms
proof (induction k arbitrary: st segs ms)
  case (Suc k)
  let ?T = "pending st @ flow segs" and ?cap = "cn_bufferCapacity st"
  have cap: "?cap < 2 ^ 32" using Suc.prems(1) by (simp add: conn_inv_def)
  have head: "announced_length ?T = length m \<and> 4 + length m \<le> length ?T \<and> length m + 4 \<le> ?cap" if "ms = m # ms'" for m ms'
  proof -
    have "length m + 4 \<le> ?cap" using Suc.prems(5) that by simp
    moreover have "announced_length ?T = length m"
      using announced_framed [of m "concat (map framed ms') @ rest"] calculation cap unfolding Suc.prems(4) that by simp
    ultimately show ?thesis unfolding Suc.prems(4) that by simp
  qed
  have fits: "4 \<le> length ?T \<Longrightarrow> announced_length ?T + 4 \<le> ?cap"
    using head Suc.prems(7) unfolding Suc.prems(4) by (cases ms) auto
  have short: "announced_length ?T + 4 < 2 ^ 32"
  proof (cases "4 \<le> length ?T")
    case False
    then have "take 4 ?T = take 3 ?T" by simp
    moreover have "be_val (take 3 ?T) < 256 ^ length (take 3 ?T)" by (rule be_val_less)
    moreover have "(256 :: nat) ^ length (take 3 ?T) \<le> 256 ^ 3" by (intro power_increasing) auto
    ultimately show ?thesis by simp
  qed (use fits cap in linarith)
  from receiveMessage_call [OF Suc.prems(1,2) short]
  obtain st' segs' r where call: "receiveMessage st segs = Some (st', segs', r)" "cn_bufferCapacity st' = ?cap"
    "segments_size segs' \<le> segments_size segs" "Closed \<in> set segs' \<longrightarrow> Closed \<in> set segs"
    "r = NoMessage \<longrightarrow> segs' = [] \<or> segments_size segs' < segments_size segs"
    "r = Abort EofFromPeer \<longrightarrow> Closed \<in> set segs" "delivered ?T ?cap st' segs' r" by blast
  have closed: "Closed \<notin> set segs'" using call(4) Suc.prems(3) by blast
  show ?case
  proof (cases r)
    case (Message n)
    then have d: "conn_inv st'" "segs_ok ?cap segs'" "n = announced_length ?T" "4 + n \<le> length ?T"
      "take n (getMsgPayloadBuffer st') = take n (drop 4 ?T)" "pending st' @ flow segs' = drop (4 + n) ?T"
      using call(7) unfolding Message delivered_def received.case by blast+
    show ?thesis
    proof (cases ms)
      case Nil
      then show ?thesis using d(3,4) Suc.prems(4,6) by (simp add: incomplete_def)
    next
      case (Cons m ms')
      have n: "n = length m" using head [OF Cons] d(3) by simp
      have rest: "drop (4 + n) ?T = concat (map framed ms') @ rest" "take n (drop 4 ?T) = m"
        unfolding Suc.prems(4) Cons n by simp_all
      from Suc.IH [OF d(1) _ closed d(6) [unfolded rest]] call(2,3) d(2) Cons Suc.prems(5-8)
      obtain st2 where "receive_all k st' segs' = Some (ms', st2, [], NoMessage)" "conn_inv st2" "pending st2 = rest" by auto
      then show ?thesis using call(1) Message d(5) rest(2) Cons by auto
    qed
  next
    case NoMessage
    then have d: "conn_inv st'" "segs_ok ?cap segs'" "incomplete (pending st')" "pending st' @ flow segs' = ?T"
      using call(7) unfolding NoMessage delivered_def received.case by blast+
    show ?thesis
    proof (cases "segs' = []")
      case True
      have "ms = []"
      proof (cases ms)
        case (Cons m ms')
        then show ?thesis using head [OF Cons] d(3,4) True by (simp add: incomplete_def)
      qed simp
      then show ?thesis using call(1) NoMessage True d Suc.prems(4) by auto
    next
      case False
      then have "segments_size segs' < segments_size segs" using call(5) NoMessage by blast
      with Suc.IH [OF d(1) _ closed d(4) [unfolded Suc.prems(4)]] call(2) d(2) Suc.prems(5-8)
      obtain st2 where "receive_all k st' segs' = Some (ms, st2, [], NoMessage)" "conn_inv st2" "pending st2 = rest" by auto
      then show ?thesis using call(1) NoMessage False by auto
    qed
  next
    case (Abort e)
    then have "e = TooLongPayload (announced_length ?T) \<and> 4 \<le> length ?T \<and> ?cap < announced_length ?T + 4 \<or> e = EofFromPeer"
      using call(7) by (auto simp: delivered_def)
    then show ?thesis using fits call(6) Suc.prems(3) Abort by auto
  qed
qed simp

lemma connection_new_inv: "conn_inv connection_new" "pending connection_new = []"
  "cn_bufferCapacity connection_new = 65664"
  by (simp_all add: conn_inv_def state_inv_def connection_new_def pending_def MAX_BUFFER_CAPACITY_def MAX_BLOCK_LENGTH_def)

end
