(* ===== verification/WireProperties.thy ===== *)
theory WireProperties
  imports ConnectionProps
begin

text \<open>
  The properties of the wire protocol: the codec of the messages, the validators, the stream of a
  peer, the two length prefixes that the connection does not survive, and the handshake.
\<close>

subsection \<open>Messages\<close>

text \<open>
  C27: a payload is read as the message \<open>m\<close> exactly if it is the encoding of \<open>m\<close>: the message
  written to the wire is the length of the payload and the payload, its fields are in the range of
  their types, and the block number of a request is not sent. (An extension message is written by
  its own class.)
\<close>

theorem message_codec:
  fixes ops :: "'x extension_ops"
  assumes "length data < 2 ^ 31" and "\<not> is_extended m"
  shows "createBtMessage ops env data = Inl (m, validatorOf env m) \<longleftrightarrow>
    sendable ops (drop 9 data) m \<and> as_received m = m \<and>
    wire_message ops (drop 9 data) m = be_bytes 4 (length data) @ data"
proof
  assume "createBtMessage ops env data = Inl (m, validatorOf env m)"
  from read_is_sent [OF this assms(2,1)]
  show "sendable ops (drop 9 data) m \<and> as_received m = m \<and>
    wire_message ops (drop 9 data) m = be_bytes 4 (length data) @ data"
    using wire_payload [of ops "drop 9 data" m] by simp
next
  assume m: "sendable ops (drop 9 data) m \<and> as_received m = m \<and>
    wire_message ops (drop 9 data) m = be_bytes 4 (length data) @ data"
  then have "payload_of ops (drop 9 data) m = data" by (simp add: payload_of_def)
  then show "createBtMessage ops env data = Inl (m, validatorOf env m)"
    using read_sent [of ops "drop 9 data" m env] m assms(2) by simp
qed

definition no_extensions :: "unit extension_ops" where
  "no_extensions = \<lparr>ex_createMessage = \<lambda>_. Inr ExtensionError, ex_getPayload = \<lambda>_. [], ex_getExtensionMessageID = \<lambda>_. 0\<rparr>"

definition ten_pieces :: message_env where
  "ten_pieces = \<lparr>me_numPieces = 10, me_pieceLength = \<lambda>_. 65536, me_metadataGetMode = False, me_extendedMessaging = False\<rparr>"

definition a_request :: "byte list" where
  "a_request = [6, 0, 0, 0, 3, 0, 0, 0x40, 0, 0, 0, 0x40, 0]"

lemmas concrete_message = createBtMessage_def read_payload_def getId_def range_create_def guarded_def assertPayloadLengthEqual_def
  assertID_def getIntParam_def be_val_def int32_of_def ten_pieces_def

theorem message_codec_witness:
  "wire_message no_extensions (drop 9 a_request) (Request 3 16384 16384 0) = be_bytes 4 13 @ a_request"
proof -
  have "createBtMessage no_extensions ten_pieces a_request =
      Inl (Request 3 16384 16384 0, validatorOf ten_pieces (Request 3 16384 16384 0 :: unit bt_message))"
    by (simp add: concrete_message a_request_def)
  moreover have "length a_request = 13" by (simp add: a_request_def)
  ultimately show ?thesis
    using message_codec [of a_request "Request 3 16384 16384 0" no_extensions ten_pieces] by (simp add: is_extended_def)
qed

subsection \<open>Validation\<close>

lemma checkBitfield_iff:
  assumes "bf \<noteq> []" and "n + 7 < 2 ^ 64"
  shows "checkBitfield bf n = None \<longleftrightarrow> length bf = (n + 7) div 8 \<and> tail_clear n bf"
proof (cases "length bf = (n + 7) div 8")
  case True
  then have pos: "0 < n" using assms(1) by (cases "n = 0") auto
  define k where "k = length bf - 1"
  have k: "length bf = Suc k" using assms(1) by (simp add: k_def)
  have range: "8 * k < n" "n \<le> 8 * k + 8" using True k pos by linarith+
  have mod: "n mod 8 = (if n = 8 * k + 8 then 0 else n - 8 * k)"
  proof (cases "n = 8 * k + 8")
    case False
    then have "n = 8 * k + (n - 8 * k)" "n - 8 * k < 8" using range by linarith+
    then show ?thesis using False by (metis mod_mult_self4 mod_less)
  qed simp
  have "bf ! k AND NOT (lastByteMask n) = 0 \<longleftrightarrow> (\<forall>j<8. bit (bf ! k) j \<longrightarrow> bit (lastByteMask n) j)"
    by (auto simp: bit_eq_iff bit_and_iff bit_not_iff)
  also have "\<dots> \<longleftrightarrow> (\<forall>j<8. bit (bf ! k) j \<longrightarrow> 8 * k + (7 - j) < n)"
    using range pos by (auto simp: bit_lastByteMask mod split: if_splits)
  also have "\<dots> \<longleftrightarrow> (\<forall>i. 8 * k \<le> i \<and> i < 8 * k + 8 \<longrightarrow> bitat (array bf) i \<longrightarrow> i < n)"
  proof (intro iffI allI impI)
    fix i
    assume a: "\<forall>j<8. bit (bf ! k) j \<longrightarrow> 8 * k + (7 - j) < n" and i: "8 * k \<le> i \<and> i < 8 * k + 8" "bitat (array bf) i"
    have d: "i div 8 = k" "i mod 8 = i - 8 * k" using i(1) by (auto simp: div_nat_eqI minus_mult_div_eq_mod [symmetric])
    then have "bit (bf ! k) (7 - (i - 8 * k))" using i k by (simp add: bitat_def array_def)
    then have "8 * k + (7 - (7 - (i - 8 * k))) < n" using a by simp
    then show "i < n" using i(1) by simp
  next
    fix j :: nat
    assume a: "\<forall>i. 8 * k \<le> i \<and> i < 8 * k + 8 \<longrightarrow> bitat (array bf) i \<longrightarrow> i < n" and j: "j < 8" "bit (bf ! k) j"
    have d: "(8 * k + (7 - j)) div 8 = k" "(8 * k + (7 - j)) mod 8 = 7 - j" by simp_all
    have "7 - (7 - j) = j" using j(1) by simp
    then have "bitat (array bf) (8 * k + (7 - j))" using j d k by (simp add: bitat_def array_def)
    then show "8 * k + (7 - j) < n" using a by simp
  qed
  also have "\<dots> \<longleftrightarrow> tail_clear n bf"
  proof -
    have "(8 * k \<le> i \<and> i < 8 * k + 8 \<longrightarrow> bitat (array bf) i \<longrightarrow> i < n) \<longleftrightarrow>
        (i \<in> {n..<8 * length bf} \<longrightarrow> \<not> bitat (array bf) i)" for i using range k by auto
    then show ?thesis by (simp add: tail_clear_def Ball_def)
  qed
  finally show ?thesis using True assms(2) by (simp add: checkBitfield_def k_def)
qed (use assms in \<open>simp add: checkBitfield_def\<close>)

text \<open>What is let through, message by message; \<open>begin\<close> may be negative.\<close>

primrec acceptable :: "message_env \<Rightarrow> 'x bt_message \<Rightarrow> bool" where
  "acceptable env KeepAlive \<longleftrightarrow> True"
| "acceptable env Choke \<longleftrightarrow> True"
| "acceptable env Unchoke \<longleftrightarrow> True"
| "acceptable env Interested \<longleftrightarrow> True"
| "acceptable env NotInterested \<longleftrightarrow> True"
| "acceptable env (Have index) \<longleftrightarrow> index < me_numPieces env"
| "acceptable env (Bits bitfield) \<longleftrightarrow> length bitfield = (me_numPieces env + 7) div 8 \<and> tail_clear (me_numPieces env) bitfield"
| "acceptable env (Request index begin' len blockIndex) \<longleftrightarrow> index < me_numPieces env \<and> 0 < len \<and> len \<le> 65536 \<and>
     begin' + len \<le> me_pieceLength env index"
| "acceptable env (PieceBlock index begin' blockLength) \<longleftrightarrow> index < me_numPieces env \<and> begin' < me_pieceLength env index"
| "acceptable env (Cancel index begin' len) \<longleftrightarrow> index < me_numPieces env \<and> 0 < len \<and> len \<le> 65536 \<and>
     begin' + len \<le> me_pieceLength env index"
| "acceptable env (Port port) \<longleftrightarrow> True"
| "acceptable env (SuggestPiece index) \<longleftrightarrow> index < me_numPieces env"
| "acceptable env HaveAll \<longleftrightarrow> True"
| "acceptable env HaveNone \<longleftrightarrow> True"
| "acceptable env (Reject index begin' len) \<longleftrightarrow> index < me_numPieces env \<and> 0 < len \<and> len \<le> 65536 \<and>
     begin' + len \<le> me_pieceLength env index"
| "acceptable env (AllowedFast index) \<longleftrightarrow> index < me_numPieces env"
| "acceptable env (Extended x) \<longleftrightarrow> True"

lemma range_validator_iff:
  assumes "- (2 ^ 31) \<le> b" and "b < 2 ^ 31" and "pl + 65536 < 2 ^ 31"
  shows "validate (RangeValidator i b l n pl) = None \<longleftrightarrow> i < n \<and> 0 < l \<and> l \<le> 65536 \<and> b + l \<le> pl"
proof (cases "b < pl \<and> 0 < l \<and> l \<le> 65536")
  case True
  then have "int32_of (b + l) = b + l" using assms by simp
  then show ?thesis using True
    by (simp add: checkIndex_def checkBegin_def checkLength_def checkRange_def MAX_BLOCK_LENGTH_def)
next
  case False
  then consider "\<not> b < pl" | "\<not> 0 < l" | "65536 < l" by linarith
  then show ?thesis
    by cases (auto simp: checkIndex_def checkBegin_def checkLength_def checkRange_def MAX_BLOCK_LENGTH_def Let_def)
qed

text \<open>
  C28: outside the metadata mode a message is let through exactly if it can be read and its indexes
  are those of pieces, a bitfield has the length and no bit beyond the last piece, and a range is
  not empty, at most 64 KiB and ends within its piece. Nothing else is checked: \<open>begin\<close> has no
  lower bound. Piece lengths are below \<open>2 ^ 31 - 65536\<close>, where the sum of a range cannot overflow.
\<close>

theorem accepted_messages:
  fixes ops :: "'x extension_ops"
  assumes "\<not> me_metadataGetMode env" and "me_numPieces env + 7 < 2 ^ 64"
    and "\<And>i. me_pieceLength env i + 65536 < 2 ^ 31"
    and len: "length data < 2 ^ 31" and ne: "\<not> is_extended m"
  shows "read_message ops env data = Inl m \<longleftrightarrow>
    createBtMessage ops env data = Inl (m, validatorOf env m) \<and> acceptable env m"
proof -
  have valid: "validate (validatorOf env m) = None \<longleftrightarrow> acceptable env m" if "createBtMessage ops env data = Inl (m, validatorOf env m)"
  proof -
    have send: "sendable ops (drop 9 data) m" using read_is_sent [OF that ne len] by blast
    note range = range_validator_iff [OF _ _ assms(3)]
    show ?thesis
    proof (cases m)
      case (Bits bf)
      then show ?thesis using send assms(1,2) checkBitfield_iff [of bf "me_numPieces env"] by simp
    next
      case (Request i b l k)
      then show ?thesis using send assms(1) range [of b i l "me_numPieces env" i] by (simp del: validate.simps)
    next
      case (Cancel i b l)
      then show ?thesis using send assms(1) range [of b i l "me_numPieces env" i] by (simp del: validate.simps)
    next
      case (Reject i b l)
      then show ?thesis using send assms(1) range [of b i l "me_numPieces env" i] by (simp del: validate.simps)
    qed (use assms(1) in \<open>simp_all add: checkIndex_def checkBegin_def\<close>)
  qed
  have "read_message ops env data = Inl m \<longleftrightarrow>
      createBtMessage ops env data = Inl (m, validatorOf env m) \<and> validate (validatorOf env m) = None"
    by (auto simp: read_message_def createBtMessage_def split: sum.splits option.splits)
  then show ?thesis using valid by blast
qed

text \<open>A request that begins 16 KiB before its piece passes.\<close>

theorem accepted_messages_witness:
  "read_message no_extensions ten_pieces [6, 0, 0, 0, 3, 0xff, 0xff, 0xc0, 0, 0, 0, 0x40, 0] = Inl (Request 3 (- 16384) 16384 0)"
proof (rule accepted_messages [THEN iffD2])
  show "createBtMessage no_extensions ten_pieces [6, 0, 0, 0, 3, 0xff, 0xff, 0xc0, 0, 0, 0, 0x40, 0] =
      Inl (Request 3 (- 16384) 16384 0, validatorOf ten_pieces (Request 3 (- 16384) 16384 0 :: unit bt_message)) \<and>
    acceptable ten_pieces (Request 3 (- 16384) 16384 0 :: unit bt_message)"
    by (simp add: concrete_message)
qed (simp_all add: is_extended_def ten_pieces_def)

subsection \<open>The stream\<close>

text \<open>
  C29: however the transport cuts and delays the stream of a peer, as long as it never delivers more
  than the buffer less three bytes at once, the connection hands over one payload per message sent,
  in order, nothing remains, and each payload is read as the message that was sent.
\<close>

theorem message_stream:
  fixes ops :: "'x extension_ops"
  assumes sent: "\<forall>(m, data)\<in>set ms. sendable ops data m \<and> (is_extended m \<longrightarrow> me_extendedMessaging env) \<and>
      length (wire_message ops data m) \<le> MAX_BUFFER_CAPACITY"
    and "segs_ok MAX_BUFFER_CAPACITY segs" and "Closed \<notin> set segs"
    and stream: "flow segs = concat (map (\<lambda>(m, data). wire_message ops data m) ms)"
    and "length ms + segments_size segs < k"
  shows "\<exists>payloads st'. receive_all k connection_new segs = Some (payloads, st', [], NoMessage) \<and> pending st' = [] \<and>
    map (createBtMessage ops env) payloads = map (\<lambda>(m, data). Inl (as_received m, validatorOf env (as_received m))) ms"
proof -
  let ?ps = "map (\<lambda>(m, data). payload_of ops data m) ms"
  have wire: "wire_message ops data m = framed (payload_of ops data m)" if "(m, data) \<in> set ms" for m data
    using that sent wire_payload [of ops data m] by auto
  have maps: "map (\<lambda>(m, data). wire_message ops data m) ms = map framed ?ps"
    using wire by auto
  have flow: "pending connection_new @ flow segs = concat (map framed ?ps) @ []"
    by (simp only: stream maps connection_new_inv(2) append_Nil append_Nil2)
  have short: "length p + 4 \<le> cn_bufferCapacity connection_new" if pm: "p \<in> set ?ps" for p
  proof -
    obtain md where "p = (case md of (m, data) \<Rightarrow> payload_of ops data m)" "md \<in> set ms"
      using pm by auto
    then obtain m data where p: "(m, data) \<in> set ms" "p = payload_of ops data m" by (cases md) simp
    then have "length (wire_message ops data m) \<le> 65664" using sent by (auto simp: MAX_BUFFER_CAPACITY_def MAX_BLOCK_LENGTH_def)
    then show ?thesis using wire [OF p(1)] p(2) connection_new_inv(3) by simp
  qed
  have "\<exists>st'. receive_all k connection_new segs = Some (?ps, st', [], NoMessage) \<and> conn_inv st' \<and> pending st' = []"
    by (rule receive_all_frames [OF connection_new_inv(1) _ assms(3) flow])
      (use assms(2,5) short connection_new_inv(3) in \<open>simp_all add: MAX_BUFFER_CAPACITY_def MAX_BLOCK_LENGTH_def incomplete_def\<close>)
  moreover have "map (createBtMessage ops env) ?ps = map (\<lambda>(m, data). Inl (as_received m, validatorOf env (as_received m))) ms"
    unfolding map_map
  proof (rule map_cong [OF refl])
    fix md assume md: "md \<in> set ms"
    obtain m data where "md = (m, data)" by fastforce
    then show "(createBtMessage ops env \<circ> (\<lambda>(m, data). payload_of ops data m)) md =
        (\<lambda>(m, data). Inl (as_received m, validatorOf env (as_received m))) md"
      using bspec [OF sent md] read_sent [of ops data m env] by simp
  qed
  ultimately show ?thesis by blast
qed

definition a_stream :: "segment list" where
  "a_stream = [Avail [0, 0], Blocked, Avail [0, 13, 6, 0, 0, 0, 3, 0, 0], Avail [0x40, 0, 0, 0, 0x40, 0, 0, 0, 0, 0, 0, 0], Blocked, Avail [0, 1, 0]]"

lemma be_bytes_4:
  "be_bytes 4 v = [of_nat (v div 256 div 256 div 256), of_nat (v div 256 div 256), of_nat (v div 256), of_nat v]"
proof -
  have four: "4 = Suc (Suc (Suc (Suc 0)))" by simp
  show ?thesis unfolding four by simp
qed

theorem message_stream_witness:
  "\<exists>payloads st'. receive_all 60 connection_new a_stream = Some (payloads, st', [], NoMessage) \<and> pending st' = [] \<and>
    map (createBtMessage no_extensions ten_pieces) payloads =
      [Inl (Request 3 16384 16384 0, validatorOf ten_pieces (Request 3 16384 16384 0 :: unit bt_message)),
       Inl (KeepAlive, NoValidator), Inl (Choke, NoValidator)]"
proof -
  define ms :: "(unit bt_message \<times> byte list) list" where
    "ms = [(Request 3 16384 16384 7, []), (KeepAlive, []), (Choke, [])]"
  have be: "be_bytes 4 3 = [0, 0, 0, 3]" "be_bytes 4 13 = [0, 0, 0, 13]" "be_bytes 4 (Suc 0) = [0, 0, 0, 1]"
    "be_bytes 4 16384 = [0, 0, 0x40, 0]" "replicate 4 (0 :: byte) = [0, 0, 0, 0]"
    by (simp_all add: be_bytes_4 flip: be_bytes_zero)
  have "flow a_stream = concat (map (\<lambda>(m, data). wire_message no_extensions data m) ms)"
    by (simp add: a_stream_def ms_def layout_simps be)
  from message_stream [OF _ _ _ this, of ten_pieces 60] show ?thesis
    by (simp add: ms_def layout_simps MAX_BUFFER_CAPACITY_def MAX_BLOCK_LENGTH_def is_extended_def a_stream_def segs_ok_def)
qed

subsection \<open>Two length prefixes\<close>

text \<open>The first bytes of a length, read one by one.\<close>

lemma scan_first_bytes:
  assumes "cn_msgState st = PREV_READ_LENGTH" and "cn_resbufLength st = length bs" and "buffered st = bs"
    and "length (cn_resbuf st) < 2 ^ 32" and "length bs \<le> length (cn_resbuf st)"
  shows "j < 3 \<Longrightarrow> Suc j \<le> length bs \<Longrightarrow>
    scan 0 st = scan (Suc j) (st\<lparr>cn_msgOffset := 0, cn_msgState := READ_LENGTH, cn_currentPayloadLength := be_val (take (Suc j) bs)\<rparr>)"
proof (induction j)
  case 0
  define st1 where "st1 = st\<lparr>cn_msgOffset := 0, cn_currentPayloadLength := 0, cn_msgState := READ_LENGTH\<rparr>"
  have "scan_length 0 st1 = Inl (st1\<lparr>cn_currentPayloadLength := be_val (take (Suc 0) bs)\<rparr>, 0, False)"
    by (subst scan_length_spec) (use assms 0 in \<open>auto simp: st1_def\<close>)
  then have "scan_byte 0 st = Inl (st\<lparr>cn_msgOffset := 0, cn_msgState := READ_LENGTH,
      cn_currentPayloadLength := be_val (take (Suc 0) bs)\<rparr>, 0, False)"
    using assms(1) by (simp add: scan_byte_def st1_def)
  moreover have "bs \<noteq> []" using 0 by auto
  ultimately show ?case using assms(2) by (subst scan.simps) simp
next
  case (Suc j)
  define st1 where "st1 = st\<lparr>cn_msgOffset := 0, cn_msgState := READ_LENGTH, cn_currentPayloadLength := be_val (take (Suc j) bs)\<rparr>"
  have "scan_length (Suc j) st1 = Inl (st1\<lparr>cn_currentPayloadLength := be_val (take (Suc (Suc j)) bs)\<rparr>, Suc j, False)"
    by (subst scan_length_spec) (use assms Suc.prems in \<open>simp_all add: st1_def\<close>)
  then have "scan_byte (Suc j) st1 = Inl (st1\<lparr>cn_currentPayloadLength := be_val (take (Suc (Suc j)) bs)\<rparr>, Suc j, False)"
    by (simp add: scan_byte_def st1_def)
  moreover have "Suc j < cn_resbufLength st1" using Suc.prems assms(2) by (simp add: st1_def)
  ultimately have "scan (Suc j) st1 = scan (Suc (Suc j)) (st1\<lparr>cn_currentPayloadLength := be_val (take (Suc (Suc j)) bs)\<rparr>)"
    by (subst scan.simps) simp
  then show ?case using Suc by (simp add: st1_def)
qed

text \<open>The first read of a connection.\<close>

lemma first_read:
  assumes "bs \<noteq> []" and "length bs \<le> 65664"
  shows "receiveMessage connection_new (Avail bs # segs) =
    receiveMessage (connection_new\<lparr>cn_resbuf := put_bytes 0 bs (replicate 65664 0), cn_resbufLength := length bs\<rparr>) segs"
proof -
  have sc: "scan 0 connection_new = Inl (connection_new, 0, False)"
    by (subst scan.simps) (simp add: connection_new_def)
  have "receiveMessage connection_new (Avail bs # segs) =
      (case append_buffer bs connection_new of None \<Rightarrow> None | Some st \<Rightarrow> receiveMessage st segs)"
    using assms sc by (subst receiveMessage.simps) (simp add: connection_new_def compact_buffer_def read_size_def
        MAX_BUFFER_CAPACITY_def MAX_BLOCK_LENGTH_def)
  then show ?thesis using assms(2)
    by (simp add: append_buffer_def) (simp add: connection_new_def MAX_BUFFER_CAPACITY_def MAX_BLOCK_LENGTH_def)
qed

lemma buffered_first:
  "length bs \<le> 65664 \<Longrightarrow> take (length bs) (put_bytes 0 bs (replicate 65664 0)) = bs \<and> length (put_bytes 0 bs (replicate 65664 (0 :: byte))) = 65664"
  by (simp add: put_bytes_def)

text \<open>
  C30: \<open>currentPayloadLength_ + 4\<close> is computed with 32 bits, so a length of \<open>2 ^ 32 - 4\<close> or more
  passes the test against the buffer: with one more byte the connection reports a message of that
  many bytes, of which the buffer holds one.
\<close>

theorem length_prefix_wraps:
  assumes n: "2 ^ 32 - 4 \<le> n" "n < 2 ^ 32"
  shows "\<exists>st'. receiveMessage connection_new (Avail (be_bytes 4 n @ [b]) # segs) = Some (st', segs, Message n) \<and>
    length (cn_resbuf st') < n"
proof -
  define bs where "bs = be_bytes 4 n @ [b]"
  define st where "st = connection_new\<lparr>cn_resbuf := put_bytes 0 bs (replicate 65664 0), cn_resbufLength := length bs\<rparr>"
  have len: "length bs = 5" by (simp add: bs_def)
  then have buf: "buffered st = bs" "length (cn_resbuf st) = 65664" "cn_resbufLength st = 5" "cn_msgState st = PREV_READ_LENGTH"
    "cn_bufferCapacity st = 65664" "cn_resbufOffset st = 0"
    using buffered_first [of bs] by (simp_all add: st_def connection_new_def MAX_BUFFER_CAPACITY_def MAX_BLOCK_LENGTH_def)
  define st3 where "st3 = st\<lparr>cn_msgOffset := 0, cn_msgState := READ_LENGTH, cn_currentPayloadLength := be_val (take 3 bs)\<rparr>"
  define st4 where "st4 = st3\<lparr>cn_currentPayloadLength := n, cn_msgState := READ_PAYLOAD\<rparr>"
  have "scan 0 st = scan 3 st3"
    using scan_first_bytes [of st bs 2] buf len by (simp add: st3_def)
  moreover have "scan 3 st3 = scan 4 st4"
  proof -
    have val: "be_val (take 4 bs) = n" using n by (simp add: bs_def be_val_be_bytes)
    have plus: "plus4 n \<le> 65664" "n \<noteq> 0" using n by (auto simp: plus4_def mod_if)
    have "scan_length 3 st3 = Inl (st4, 3, False)"
      by (subst scan_length_spec) (use buf len val plus in \<open>simp_all add: st3_def st4_def\<close>)
    then have "scan_byte 3 st3 = Inl (st4, 3, False)" by (simp add: scan_byte_def st3_def)
    then show ?thesis using buf(3) by (subst scan.simps) (simp add: st3_def)
  qed
  moreover have "scan 4 st4 = Inl (st4\<lparr>cn_msgState := PREV_READ_LENGTH\<rparr>, 4 + n, True)"
  proof -
    have "plus4 n \<le> 5" using n by (auto simp: plus4_def mod_if)
    then have "scan_payload 4 st4 = Inl (st4\<lparr>cn_msgState := PREV_READ_LENGTH\<rparr>, 4 + n - 1, True)"
      using buf(3) by (simp add: scan_payload_def st4_def st3_def)
    then have "scan_byte 4 st4 = Inl (st4\<lparr>cn_msgState := PREV_READ_LENGTH\<rparr>, 4 + n - 1, True)"
      by (simp add: scan_byte_def st4_def)
    then show ?thesis using buf(3) by (subst scan.simps) (simp add: st4_def st3_def)
  qed
  ultimately have "receiveMessage st segs = Some (st4\<lparr>cn_msgState := PREV_READ_LENGTH, cn_resbufOffset := 4 + n\<rparr>, segs, Message n)"
    using buf(6) by (subst receiveMessage.simps) (simp add: st4_def)
  moreover have "receiveMessage connection_new (Avail bs # segs) = receiveMessage st segs"
    unfolding st_def by (rule first_read) (use len in auto)
  ultimately show ?thesis using buf(2) n by (simp add: bs_def st4_def st3_def)
qed

theorem length_prefix_wraps_witness:
  "\<exists>st'. receiveMessage connection_new [Avail [255, 255, 255, 255, 5]] = Some (st', [], Message 4294967295) \<and>
    length (cn_resbuf st') < 4294967295"
proof -
  have "(65535 :: byte) = 255" "(16777215 :: byte) = 255" "(4294967295 :: byte) = 255" by simp_all
  then have "be_bytes 4 4294967295 = [255, 255, 255, 255]" by (simp add: be_bytes_4)
  then show ?thesis using length_prefix_wraps [of 4294967295 5 "[]"] by simp
qed

text \<open>
  C31: the size of a read is computed from a length of which only three bytes have been received. If
  they announce more than the buffer holds, the connection reads past its end as soon as the
  transport has more than the buffer less three bytes.
\<close>

theorem read_past_buffer:
  assumes v: "65661 \<le> v" "v < 2 ^ 24" and bs: "65661 < length bs"
  shows "receiveMessage connection_new (Avail (be_bytes 3 v) # Avail bs # segs) = None"
proof -
  define ps where "ps = be_bytes 3 v"
  define st where "st = connection_new\<lparr>cn_resbuf := put_bytes 0 ps (replicate 65664 0), cn_resbufLength := length ps\<rparr>"
  have len: "length ps = 3" by (simp add: ps_def)
  then have buf: "buffered st = ps" "length (cn_resbuf st) = 65664" "cn_resbufLength st = 3" "cn_msgState st = PREV_READ_LENGTH"
    "cn_bufferCapacity st = 65664" "cn_resbufOffset st = 0"
    using buffered_first [of ps] by (simp_all add: st_def connection_new_def MAX_BUFFER_CAPACITY_def MAX_BLOCK_LENGTH_def)
  have val: "be_val ps = v" using v by (simp add: ps_def be_val_be_bytes)
  define st3 where "st3 = st\<lparr>cn_msgOffset := 0, cn_msgState := READ_LENGTH, cn_currentPayloadLength := v\<rparr>"
  have "scan 0 st = scan 3 st3"
    using scan_first_bytes [of st ps 2] buf len val by (simp add: st3_def)
  moreover have "scan 3 st3 = Inl (st3, 3, False)" using buf(3) by (subst scan.simps) (simp add: st3_def)
  ultimately have sc: "scan (cn_resbufOffset st) st = Inl (st3, 3, False)" using buf(6) by simp
  define st4 where "st4 = compact_buffer (at_offset 3 st3)"
  have plus: "plus4 v = v + 4" using v by (simp add: plus4_def)
  have st4: "cn_resbufLength st4 = 3" "length (cn_resbuf st4) = 65664" "read_size st4 = v + 1"
    using buf len plus v by (simp_all add: st4_def st3_def compact_buffer_def put_bytes_def read_size_def usub_def)
  define got where "got = take (v + 1) bs"
  have got: "got \<noteq> []" "65661 < length got" using v bs by (auto simp: got_def)
  obtain rest where rd: "readData (read_size st4) (Avail bs # segs) = (Got got, rest)"
    using got(1) by (simp add: st4(3) got_def)
  have "append_buffer got st4 = None" using got(2) st4 by (simp add: append_buffer_def)
  then have "receiveMessage st (Avail bs # segs) = None"
    using sc rd buf(3) by (subst receiveMessage.simps) (simp add: st4_def st3_def)
  moreover have "receiveMessage connection_new (Avail ps # Avail bs # segs) = receiveMessage st (Avail bs # segs)"
    unfolding st_def by (rule first_read) (use len in auto)
  ultimately show ?thesis by (simp add: ps_def)
qed

theorem read_past_buffer_witness:
  "receiveMessage connection_new [Avail (be_bytes 3 (2 ^ 24 - 1)), Avail (replicate 131072 0)] = None"
  by (rule read_past_buffer) simp_all

subsection \<open>The handshake\<close>

text \<open>
  C32: a handshake has 68 bytes; the other side reads it back, announces the fast and the extension
  protocol and the DHT if it is enabled, and accepts it exactly if the info hashes agree.
\<close>

theorem handshake_accepted:
  fixes dht :: bool
  assumes "length infoHash = 20" and "length peerId = 20" and "length own = 20"
  defines "h \<equiv> createHandshakeMessage dht infoHash peerId"
  shows "read_handshake own (hs_createMessage h) = (if own = infoHash then Inl h else Inr (InvalidInfoHash infoHash)) \<and>
    length (hs_createMessage h) = HANDSHAKE_LENGTH \<and> hs_infoHash h = infoHash \<and> hs_peerId h = peerId \<and>
    isFastExtensionSupported h \<and> isExtendedMessagingEnabled h \<and> (hs_isDHTEnabled h \<longleftrightarrow> dht)"
proof -
  define r :: "byte list" where "r = [0, 0, 0, 0, 0, 0x10, 0, if dht then 0x05 else 0x04]"
  have h: "h = \<lparr>hs_pstrlen = 19, hs_pstr = BT_PSTR, hs_reserved = r, hs_infoHash = infoHash, hs_peerId = peerId\<rparr>"
    using assms(1,2) unfolding h_def
    by (simp add: createHandshakeMessage_def hs_setDHTEnabled_def hs_new_def hs_init_def r_def eval_nat_numeral Let_def)
  have len: "length BT_PSTR = 19" "length r = 8" by (simp_all add: BT_PSTR_def r_def)
  have "hs_create (hs_createMessage h) = h"
    using assms(1,2) len by (simp add: hs_create_def hs_createMessage_def h hs_init_def Let_def)
  then have "read_handshake own (hs_createMessage h) = (if own = infoHash then Inl h else Inr (InvalidInfoHash infoHash))"
    using assms(1,3) by (simp add: read_handshake_def validateHandshake_def Let_def) (simp add: h)
  moreover have "length (hs_createMessage h) = HANDSHAKE_LENGTH"
    using assms(1,2) len by (simp add: hs_createMessage_def h HANDSHAKE_LENGTH_def)
  moreover have "isFastExtensionSupported h \<and> isExtendedMessagingEnabled h \<and> (hs_isDHTEnabled h \<longleftrightarrow> dht)"
    by (simp add: isFastExtensionSupported_def isExtendedMessagingEnabled_def hs_isDHTEnabled_def h r_def)
  ultimately show ?thesis by (simp add: h)
qed

theorem handshake_accepted_witness:
  "read_handshake (replicate 20 1) (hs_createMessage (createHandshakeMessage True (replicate 20 2) (replicate 20 3))) =
     Inr (InvalidInfoHash (replicate 20 2))"
proof -
  have "replicate 20 (1 :: byte) \<noteq> replicate 20 2" by (simp add: replicate_eq_replicate)
  with handshake_accepted [of "replicate 20 2" "replicate 20 3" "replicate 20 1" True] show ?thesis by simp
qed

end
