(* ===== verification/Dispatcher.thy ===== *)
theory Dispatcher
  imports WireFormat Piece NetStat
begin

text \<open>
  What one connection has asked for and still has to send: \<open>RequestSlot\<close>,
  \<open>DefaultBtMessageDispatcher\<close> with its queue and its outstanding requests, and
  \<open>DefaultBtRequestFactory\<close>, which turns the pieces checked out for the peer into requests. Pieces
  are shared objects: they live in a store, a map from addresses, that the operations return
  changed. \<open>allowed\<close> and \<open>amAllowed\<close> are \<open>isInPeerAllowedIndexSet\<close> and \<open>isInAmAllowedIndexSet\<close> of the
  peer, \<open>now\<close> is the wall clock.
\<close>

type_synonym 'h pieces = "nat \<Rightarrow> 'h piece"

abbreviation on_piece :: "nat \<Rightarrow> ('h piece \<Rightarrow> 'h piece) \<Rightarrow> 'h pieces \<Rightarrow> 'h pieces" where
  "on_piece a f h \<equiv> h(a := f (h a))"

subsection \<open>Request slots\<close>

record request_slot =
  rs_dispatchedTime :: int
  rs_index :: nat
  rs_begin :: int
  rs_length :: int
  rs_blockIndex :: nat
  rs_piece :: nat

definition slot_new :: "int \<Rightarrow> nat \<Rightarrow> int \<Rightarrow> int \<Rightarrow> nat \<Rightarrow> nat \<Rightarrow> request_slot" where
  "slot_new now index begin' len blockIndex piece =
     \<lparr>rs_dispatchedTime = now, rs_index = index, rs_begin = begin', rs_length = len, rs_blockIndex = blockIndex,
      rs_piece = piece\<rparr>"

definition slot_eq :: "request_slot \<Rightarrow> request_slot \<Rightarrow> bool" where
  "slot_eq s t \<longleftrightarrow> rs_index s = rs_index t \<and> rs_begin s = rs_begin t \<and> rs_length s = rs_length t"

definition slot_less :: "request_slot \<Rightarrow> request_slot \<Rightarrow> bool" where
  "slot_less s t \<longleftrightarrow> (if rs_index s = rs_index t then rs_begin s < rs_begin t else rs_index s < rs_index t)"

definition isTimeout :: "int \<Rightarrow> int \<Rightarrow> request_slot \<Rightarrow> bool" where
  "isTimeout now t s \<longleftrightarrow> tm_difference (rs_dispatchedTime s) now \<ge> t"

subsection \<open>The dispatcher\<close>

text \<open>A message in the queue with its \<open>invalidate_\<close> flag. Only piece messages are uploads.\<close>

record 'x queued =
  qm_message :: "'x bt_message"
  qm_invalidate :: bool

definition queue_entry :: "'x bt_message \<Rightarrow> 'x queued" where
  "queue_entry m = \<lparr>qm_message = m, qm_invalidate = False\<rparr>"

definition isUploading :: "'x bt_message \<Rightarrow> bool" where
  "isUploading m = (case m of PieceBlock index begin' blockLength \<Rightarrow> True | _ \<Rightarrow> False)"

record 'x dispatcher =
  dp_cuid :: int
  dp_messageQueue :: "'x queued list"
  dp_requestSlots :: "request_slot list"
  dp_requestTimeout :: int

definition dispatcher_new :: "int \<Rightarrow> int \<Rightarrow> 'x dispatcher" where
  "dispatcher_new cuid requestTimeout =
     \<lparr>dp_cuid = cuid, dp_messageQueue = [], dp_requestSlots = [], dp_requestTimeout = requestTimeout\<rparr>"

definition addOutstandingRequest :: "request_slot \<Rightarrow> 'x dispatcher \<Rightarrow> 'x dispatcher" where
  "addOutstandingRequest s d = d\<lparr>dp_requestSlots := dp_requestSlots d @ [s]\<rparr>"

text \<open>A request becomes outstanding when it is queued; \<open>getPiece\<close> is the piece of an index.\<close>

definition onQueued :: "int \<Rightarrow> (nat \<Rightarrow> nat) \<Rightarrow> 'x bt_message \<Rightarrow> 'x dispatcher \<Rightarrow> 'x dispatcher" where
  "onQueued now getPiece m d =
     (case m of
        Request index begin' len blockIndex \<Rightarrow>
          addOutstandingRequest (slot_new now index begin' len blockIndex (getPiece index)) d
      | _ \<Rightarrow> d)"

definition addMessageToQueue :: "int \<Rightarrow> (nat \<Rightarrow> nat) \<Rightarrow> 'x bt_message \<Rightarrow> 'x dispatcher \<Rightarrow> 'x dispatcher" where
  "addMessageToQueue now getPiece m d =
     (let d = onQueued now getPiece m d in d\<lparr>dp_messageQueue := dp_messageQueue d @ [queue_entry m]\<rparr>)"

text \<open>
  \<open>exceeds\<close> says, after the messages sent so far, whether an upload limit is exceeded. The result is
  what is sent and the new queue: the messages held back.
\<close>

fun send_loop ::
  "('x queued list \<Rightarrow> bool) \<Rightarrow> 'x queued list \<Rightarrow> 'x queued list \<Rightarrow> 'x queued list \<Rightarrow> 'x queued list \<times> 'x queued list" where
  "send_loop exceeds [] sent tempQueue = (sent, tempQueue)"
| "send_loop exceeds (q # qs) sent tempQueue =
     (if isUploading (qm_message q) \<and> exceeds sent then send_loop exceeds qs sent (tempQueue @ [q])
      else send_loop exceeds qs (sent @ [q]) tempQueue)"

definition sendMessagesInternal :: "('x queued list \<Rightarrow> bool) \<Rightarrow> 'x dispatcher \<Rightarrow> 'x dispatcher \<times> 'x queued list" where
  "sendMessagesInternal exceeds d =
     (let (sent, tempQueue) = send_loop exceeds (dp_messageQueue d) [] [] in (d\<lparr>dp_messageQueue := tempQueue\<rparr>, sent))"

text \<open>What of it goes to the connection: \<open>send()\<close> skips an invalidated message, and an extended
  message to a peer without the extension.\<close>

definition send_message :: "bool \<Rightarrow> 'x queued \<Rightarrow> 'x bt_message option" where
  "send_message extendedMessaging q =
     (if qm_invalidate q then None
      else case qm_message q of
          Extended x \<Rightarrow> if extendedMessaging then Some (Extended x) else None
        | m \<Rightarrow> Some m)"

text \<open>
  Events on the queue. A piece message that is dropped tells a peer with the fast extension; the
  new messages come after the snapshot of the queue that is walked.
\<close>

definition onCancelSendingPieceEvent :: "nat \<Rightarrow> int \<Rightarrow> int \<Rightarrow> 'x queued \<Rightarrow> bool" where
  "onCancelSendingPieceEvent index begin' len q =
     (case qm_message q of
        PieceBlock i b l \<Rightarrow> \<not> qm_invalidate q \<and> i = index \<and> b = begin' \<and> l = len
      | _ \<Rightarrow> False)"

definition onChokingEvent :: "(nat \<Rightarrow> bool) \<Rightarrow> 'x queued \<Rightarrow> bool" where
  "onChokingEvent amAllowed q =
     (case qm_message q of PieceBlock i b l \<Rightarrow> \<not> qm_invalidate q \<and> \<not> amAllowed i | _ \<Rightarrow> False)"

definition rejection :: "'x bt_message \<Rightarrow> 'x bt_message" where
  "rejection m = (case m of PieceBlock i b l \<Rightarrow> Reject i b l | _ \<Rightarrow> m)"

definition drop_uploads :: "bool \<Rightarrow> ('x queued \<Rightarrow> bool) \<Rightarrow> 'x dispatcher \<Rightarrow> 'x dispatcher" where
  "drop_uploads fastExtension hit d =
     (let q = dp_messageQueue d in
      d\<lparr>dp_messageQueue := map (\<lambda>m. if hit m then m\<lparr>qm_invalidate := True\<rparr> else m) q @
          (if fastExtension then map (\<lambda>m. queue_entry (rejection (qm_message m))) (filter hit q) else [])\<rparr>)"

definition doCancelSendingPieceAction :: "bool \<Rightarrow> nat \<Rightarrow> int \<Rightarrow> int \<Rightarrow> 'x dispatcher \<Rightarrow> 'x dispatcher" where
  "doCancelSendingPieceAction fastExtension index begin' len =
     drop_uploads fastExtension (onCancelSendingPieceEvent index begin' len)"

definition doChokingAction :: "bool \<Rightarrow> (nat \<Rightarrow> bool) \<Rightarrow> 'x dispatcher \<Rightarrow> 'x dispatcher" where
  "doChokingAction fastExtension amAllowed = drop_uploads fastExtension (onChokingEvent amAllowed)"

definition onAbortOutstandingRequestEvent :: "nat \<Rightarrow> 'x queued \<Rightarrow> 'x queued" where
  "onAbortOutstandingRequestEvent index q =
     (case qm_message q of
        Request i b l k \<Rightarrow> if i = index \<and> \<not> qm_invalidate q then q\<lparr>qm_invalidate := True\<rparr> else q
      | _ \<Rightarrow> q)"

text \<open>\<open>abortOutstandingRequest\<close>: the block is no longer asked for.\<close>

definition abortOutstandingRequest :: "request_slot \<Rightarrow> nat \<Rightarrow> 'h pieces \<Rightarrow> 'h pieces" where
  "abortOutstandingRequest s piece h = on_piece piece (cancelBlock (rs_blockIndex s)) h"

definition doAbortOutstandingRequestAction :: "nat \<Rightarrow> 'x dispatcher \<times> 'h pieces \<Rightarrow> 'x dispatcher \<times> 'h pieces" where
  "doAbortOutstandingRequestAction piece = (\<lambda>(d, h).
     let index = pc_index (h piece);
         h' = fold (\<lambda>s h. abortOutstandingRequest s piece h) (filter (\<lambda>s. rs_index s = index) (dp_requestSlots d)) h
     in (d\<lparr>dp_requestSlots := filter (\<lambda>s. rs_index s \<noteq> index) (dp_requestSlots d),
           dp_messageQueue := map (onAbortOutstandingRequestEvent index) (dp_messageQueue d)\<rparr>, h'))"

definition dp_doChokedAction :: "(nat \<Rightarrow> bool) \<Rightarrow> 'x dispatcher \<times> 'h pieces \<Rightarrow> 'x dispatcher \<times> 'h pieces" where
  "dp_doChokedAction allowed = (\<lambda>(d, h).
     let h' = fold (\<lambda>s h. on_piece (rs_piece s) (cancelBlock (rs_blockIndex s)) h)
           (filter (\<lambda>s. \<not> allowed (rs_index s)) (dp_requestSlots d)) h
     in (d\<lparr>dp_requestSlots := filter (\<lambda>s. allowed (rs_index s)) (dp_requestSlots d)\<rparr>, h'))"

text \<open>
  The loop over the slots; the flag says that the peer is to be snubbed. \<open>None\<close> is a block index
  beyond the piece.
\<close>

fun check_slots ::
  "int \<Rightarrow> int \<Rightarrow> request_slot list \<Rightarrow> 'x queued list \<times> 'h pieces \<times> bool \<Rightarrow> ('x queued list \<times> 'h pieces \<times> bool) option" where
  "check_slots now timeout [] r = Some r"
| "check_slots now timeout (s # ss) (q, h, snub) =
     (if isTimeout now timeout s
      then check_slots now timeout ss (q, on_piece (rs_piece s) (cancelBlock (rs_blockIndex s)) h, True)
      else do {
        has \<leftarrow> hasBlock (h (rs_piece s)) (rs_blockIndex s);
        check_slots now timeout ss
          (if has then q @ [queue_entry (Cancel (rs_index s) (rs_begin s) (rs_length s))] else q, h, snub) })"

definition checkRequestSlotAndDoNecessaryThing ::
  "int \<Rightarrow> 'x dispatcher \<times> 'h pieces \<Rightarrow> ('x dispatcher \<times> 'h pieces \<times> bool) option" where
  "checkRequestSlotAndDoNecessaryThing now = (\<lambda>(d, h). do {
     (q, h, snub) \<leftarrow> check_slots now (dp_requestTimeout d) (dp_requestSlots d) (dp_messageQueue d, h, False);
     Some (d\<lparr>dp_messageQueue := q,
             dp_requestSlots := filter (\<lambda>s. \<not> (isTimeout now (dp_requestTimeout d) s \<or>
               hasBlock (h (rs_piece s)) (rs_blockIndex s) = Some True)) (dp_requestSlots d)\<rparr>, h, snub) })"

definition countMessageInQueue :: "'x dispatcher \<Rightarrow> nat" where
  "countMessageInQueue d = length (dp_messageQueue d)"

definition countOutstandingRequest :: "'x dispatcher \<Rightarrow> nat" where
  "countOutstandingRequest d = length (dp_requestSlots d)"

definition isOutstandingRequest :: "'x dispatcher \<Rightarrow> nat \<Rightarrow> nat \<Rightarrow> bool" where
  "isOutstandingRequest d index blockIndex \<longleftrightarrow>
     (\<exists>s\<in>set (dp_requestSlots d). rs_index s = index \<and> rs_blockIndex s = blockIndex)"

definition getOutstandingRequest :: "'x dispatcher \<Rightarrow> nat \<Rightarrow> int \<Rightarrow> int \<Rightarrow> request_slot option" where
  "getOutstandingRequest d index begin' len =
     List.find (\<lambda>s. rs_index s = index \<and> rs_begin s = begin' \<and> rs_length s = len) (dp_requestSlots d)"

text \<open>The first slot equal to the one given is aborted and erased.\<close>

fun erase_slot :: "request_slot \<Rightarrow> request_slot list \<Rightarrow> 'h pieces \<Rightarrow> request_slot list \<times> 'h pieces" where
  "erase_slot slot [] h = ([], h)"
| "erase_slot slot (s # ss) h =
     (if slot_eq s slot then (ss, abortOutstandingRequest s (rs_piece s) h)
      else let (ss, h) = erase_slot slot ss h in (s # ss, h))"

definition removeOutstandingRequest :: "request_slot \<Rightarrow> 'x dispatcher \<times> 'h pieces \<Rightarrow> 'x dispatcher \<times> 'h pieces" where
  "removeOutstandingRequest slot = (\<lambda>(d, h).
     let (ss, h) = erase_slot slot (dp_requestSlots d) h in (d\<lparr>dp_requestSlots := ss\<rparr>, h))"

definition countOutstandingUpload :: "'x dispatcher \<Rightarrow> nat" where
  "countOutstandingUpload d = length (filter (\<lambda>q. isUploading (qm_message q)) (dp_messageQueue d))"

end
