(* ===== verification/RequestFactory.thy ===== *)
theory RequestFactory
  imports Dispatcher
begin

text \<open>
  \<open>DefaultBtRequestFactory\<close>: the pieces that one connection fetches and the requests made for their
  blocks. \<open>cancelPiece\<close> is that of the piece storage, on the store of pieces and the rest \<open>'s\<close> of
  the storage; \<open>shuffle\<close> is \<open>std::shuffle\<close>.
\<close>

record request_factory =
  rf_pieces :: "nat list"
  rf_cuid :: int

definition factory_new :: "int \<Rightarrow> request_factory" where
  "factory_new cuid = \<lparr>rf_pieces = [], rf_cuid = cuid\<rparr>"

definition addTargetPiece :: "nat \<Rightarrow> request_factory \<Rightarrow> request_factory" where
  "addTargetPiece piece f = f\<lparr>rf_pieces := rf_pieces f @ [piece]\<rparr>"

definition countTargetPiece :: "request_factory \<Rightarrow> nat" where
  "countTargetPiece f = length (rf_pieces f)"

definition getTargetPieceIndexes :: "'h pieces \<Rightarrow> request_factory \<Rightarrow> nat list" where
  "getTargetPieceIndexes h f = map (\<lambda>a. pc_index (h a)) (rf_pieces f)"

definition rf_countMissingBlock :: "'h pieces \<Rightarrow> request_factory \<Rightarrow> nat" where
  "rf_countMissingBlock h f = fold (\<lambda>a n. n + piece_countMissingBlock (h a)) (rf_pieces f) 0"

definition removeCompletedPiece ::
  "request_factory \<Rightarrow> 'x dispatcher \<times> 'h pieces \<Rightarrow> request_factory \<times> 'x dispatcher \<times> 'h pieces" where
  "removeCompletedPiece f = (\<lambda>(d, h).
     let (d, h) = fold (\<lambda>a (d, h). if pieceComplete (h a) then doAbortOutstandingRequestAction a (d, h) else (d, h))
           (rf_pieces f) (d, h)
     in (f\<lparr>rf_pieces := filter (\<lambda>a. \<not> pieceComplete (h a)) (rf_pieces f)\<rparr>, d, h))"

type_synonym ('h, 's) cancel_piece = "nat \<Rightarrow> int \<Rightarrow> 'h pieces \<times> 's \<Rightarrow> 'h pieces \<times> 's"

definition removeTargetPiece ::
  "('h, 's) cancel_piece \<Rightarrow> nat \<Rightarrow> request_factory \<Rightarrow> 'x dispatcher \<Rightarrow> 'h pieces \<times> 's \<Rightarrow>
     request_factory \<times> 'x dispatcher \<times> 'h pieces \<times> 's" where
  "removeTargetPiece cancelPiece piece f d = (\<lambda>(h, st).
     let f = f\<lparr>rf_pieces := filter (\<lambda>a. pc_index (h a) \<noteq> pc_index (h piece)) (rf_pieces f)\<rparr>;
         (d, h) = doAbortOutstandingRequestAction piece (d, h)
     in (f, d, cancelPiece piece (rf_cuid f) (h, st)))"

definition rf_doChokedAction ::
  "('h, 's) cancel_piece \<Rightarrow> (nat \<Rightarrow> bool) \<Rightarrow> request_factory \<Rightarrow> 'h pieces \<times> 's \<Rightarrow> request_factory \<times> 'h pieces \<times> 's" where
  "rf_doChokedAction cancelPiece allowed f = (\<lambda>(h, st).
     let (h, st) = fold (\<lambda>a (h, st). if \<not> allowed (pc_index (h a)) then cancelPiece a (rf_cuid f) (h, st) else (h, st))
           (rf_pieces f) (h, st)
     in (f\<lparr>rf_pieces := filter (\<lambda>a. allowed (pc_index (h a))) (rf_pieces f)\<rparr>, h, st))"

definition removeAllTargetPiece ::
  "('h, 's) cancel_piece \<Rightarrow> request_factory \<Rightarrow> 'x dispatcher \<Rightarrow> 'h pieces \<times> 's \<Rightarrow>
     request_factory \<times> 'x dispatcher \<times> 'h pieces \<times> 's" where
  "removeAllTargetPiece cancelPiece f d = (\<lambda>(h, st).
     let (d, h, st) = fold (\<lambda>a (d, h, st).
           let (d, h) = doAbortOutstandingRequestAction a (d, h) in (d, cancelPiece a (rf_cuid f) (h, st)))
           (rf_pieces f) (d, h, st)
     in (f\<lparr>rf_pieces := []\<rparr>, d, h, st))"

subsection \<open>Requests\<close>

text \<open>\<open>createRequestMessage\<close> of the message factory.\<close>

definition createRequestMessage :: "'h piece \<Rightarrow> nat \<Rightarrow> 'x bt_message" where
  "createRequestMessage p blockIndex =
     Request (pc_index p) (int32_of (int blockIndex * bm_blockLength (pc_bitfield p)))
       (int32_of (piece_getBlockLength p blockIndex)) blockIndex"

fun request_loop :: "nat list \<Rightarrow> nat \<Rightarrow> 'x bt_message list \<Rightarrow> 'h pieces \<Rightarrow> 'x bt_message list \<times> 'h pieces" where
  "request_loop [] getnum requests h = (requests, h)"
| "request_loop (a # as) getnum requests h =
     (if getnum = 0 then (requests, h)
      else
        let (p, blockIndexes) = getMissingUnusedBlockIndexes (h a) getnum in
        request_loop as (getnum - length blockIndexes) (requests @ map (createRequestMessage p) blockIndexes) (h(a := p)))"

text \<open>The end game: the missing blocks of a piece, set bits of \<open>misbitfield\<close>, in a random order.\<close>

definition missing_block_indexes :: "'h piece \<Rightarrow> nat list option" where
  "missing_block_indexes p =
     (let mislen = bm_bitfieldLength (pc_bitfield p) in do {
        (misbitfield, _) \<leftarrow> getAllMissingBlockIndexes p (replicate mislen 0);
        Some (filter (\<lambda>i. misbitfield ! (i div 8) AND bit_mask i \<noteq> 0) [0..<8 * mislen]) })"

fun endgame_requests :: "'x dispatcher \<Rightarrow> 'h piece \<Rightarrow> nat \<Rightarrow> nat list \<Rightarrow> 'x bt_message list \<Rightarrow> 'x bt_message list" where
  "endgame_requests d p maxn [] requests = requests"
| "endgame_requests d p maxn (b # bs) requests =
     (if length requests < maxn then
        endgame_requests d p maxn bs
          (if \<not> isOutstandingRequest d (pc_index p) b then requests @ [createRequestMessage p b] else requests)
      else requests)"

fun endgame_pieces ::
  "(nat list \<Rightarrow> nat list) \<Rightarrow> 'x dispatcher \<Rightarrow> 'h pieces \<Rightarrow> nat \<Rightarrow> nat list \<Rightarrow> 'x bt_message list \<Rightarrow> 'x bt_message list option" where
  "endgame_pieces shuffle d h maxn [] requests = Some requests"
| "endgame_pieces shuffle d h maxn (a # as) requests =
     (if length requests < maxn then do {
        bs \<leftarrow> missing_block_indexes (h a);
        endgame_pieces shuffle d h maxn as (endgame_requests d (h a) maxn (shuffle bs) requests) }
      else Some requests)"

definition createRequestMessages ::
  "(nat list \<Rightarrow> nat list) \<Rightarrow> 'x dispatcher \<Rightarrow> nat \<Rightarrow> bool \<Rightarrow> request_factory \<Rightarrow> 'h pieces \<Rightarrow>
     ('x bt_message list \<times> 'h pieces) option" where
  "createRequestMessages shuffle d maxn endGame f h =
     (if endGame then map_option (\<lambda>rs. (rs, h)) (endgame_pieces shuffle d h maxn (rf_pieces f) [])
      else Some (request_loop (rf_pieces f) maxn [] h))"

end
