(* ===== verification/RequestProps.thy ===== *)
theory RequestProps
  imports RequestFactory PieceProps BlockMap "HOL-Library.Multiset"
begin

text \<open>
  Lemmas on the requests of one connection: what the loops of the dispatcher and the request factory
  do to the store of pieces, and the accounting of blocks they keep. Pieces are addressed by their
  index, so \<open>getPiece\<close> is the identity.
\<close>

subsection \<open>Pieces of the store\<close>

text \<open>A piece that is fetched block by block: no filter on its blocks, offsets that fit.\<close>

definition fetched :: "nat \<Rightarrow> 'h piece \<Rightarrow> bool" where
  "fetched a p \<longleftrightarrow> piece_inv p \<and> pc_index p = a \<and> \<not> bm_filterEnabled (pc_bitfield p) \<and>
     0 < bm_blockLength (pc_bitfield p) \<and> int (countBlock p) * bm_blockLength (pc_bitfield p) \<le> 2 ^ 31"

definition left :: "'h piece \<Rightarrow> nat set" where
  "left p = {i. i < countBlock p \<and> i \<notin> phaves p}"

text \<open>The blocks that nobody has asked for, in order.\<close>

definition offer :: "'h piece \<Rightarrow> nat list" where
  "offer p = filter (\<lambda>i. i \<in> left p - puses p) [0..<countBlock p]"

definition alike :: "'h piece \<Rightarrow> 'h piece \<Rightarrow> bool" where
  "alike p q \<longleftrightarrow> pc_index q = pc_index p \<and> geometry (pc_bitfield q) = geometry (pc_bitfield p) \<and>
     bm_filterEnabled (pc_bitfield q) = bm_filterEnabled (pc_bitfield p) \<and> (piece_inv p \<longrightarrow> piece_inv q)"

lemma alike_refl [simp]: "alike p p"
  by (simp add: alike_def)

lemma alike_trans: "alike p q \<Longrightarrow> alike q r \<Longrightarrow> alike p r"
  by (auto simp: alike_def)

lemma alike_fetched: "alike p q \<Longrightarrow> fetched a p \<Longrightarrow> fetched a q"
  by (auto simp: alike_def fetched_def geometry_def countBlock_def)

lemma alike_countBlock: "alike p q \<Longrightarrow> countBlock q = countBlock p"
  by (simp add: alike_def geometry_def countBlock_def)

lemma alike_createRequestMessage: "alike p q \<Longrightarrow> createRequestMessage q k = createRequestMessage p k"
  by (simp add: alike_def createRequestMessage_def geometry_def piece_getBlockLength_def getBlockLength_def
      getLastBlockLength_def Let_def)

lemma missing_left: "\<not> bm_filterEnabled (pc_bitfield p) \<Longrightarrow> missing (pc_bitfield p) = left p"
  by (auto simp: missing_def selected_def left_def countBlock_def)

lemma filterEnabled_set_ops [simp]:
  "bm_filterEnabled (fst (setBit m i)) = bm_filterEnabled m"
  "bm_filterEnabled (fst (setUseBit m i)) = bm_filterEnabled m"
  "bm_filterEnabled (fst (unsetUseBit m i)) = bm_filterEnabled m"
  by (auto simp: setBit_def setUseBit_def unsetUseBit_def setBitInternal_def updateCache_def Let_def)

lemma alike_ops:
  "alike p (completeBlock i p)" "alike p (cancelBlock i p)"
  by (auto simp: alike_def block_ops_inv) (simp_all add: completeBlock_def cancelBlock_def Let_def)

lemma haves_left: "phaves p \<subseteq> {..<countBlock p}"
  by (auto simp: haves_def countBlock_def)

lemma pieceComplete_left:
  assumes "fetched a p"
  shows "pieceComplete p \<longleftrightarrow> left p = {}"
  using assms isAllBitSet_iff [of "pc_bitfield p"] haves_left [of p]
  by (auto simp: fetched_def piece_inv_def pieceComplete_def left_def countBlock_def)

lemma ask_piece:
  assumes "fetched a p" and "getMissingUnusedBlockIndexes p n = (p', ixs)"
  shows "ixs = take n (offer p)" "alike p p'" "puses p' = puses p \<union> set ixs" "phaves p' = phaves p"
proof -
  have inv: "piece_inv p" and nf: "\<not> bm_filterEnabled (pc_bitfield p)" using assms(1) by (simp_all add: fetched_def)
  note spec = getMissingUnusedBlockIndexes_spec [OF inv assms(2)]
  show "ixs = take n (offer p)" using spec(1) by (simp add: offer_def missing_left [OF nf])
  show "puses p' = puses p \<union> set ixs" "phaves p' = phaves p" using spec(2,3) by simp_all
  have "p' = p\<lparr>pc_bitfield := fold (\<lambda>i m. fst (setUseBit m i)) ixs (pc_bitfield p)\<rparr>"
    using assms(2) by (auto simp: getMissingUnusedBlockIndexes_def Let_def)
  moreover have "geometry (fold (\<lambda>i m. fst (setUseBit m i)) js m) = geometry m \<and>
      bm_filterEnabled (fold (\<lambda>i m. fst (setUseBit m i)) js m) = bm_filterEnabled m" for js m
    by (induction js arbitrary: m) simp_all
  ultimately show "alike p p'" using block_ops_inv(5) [OF inv, of n] assms(2) by (simp add: alike_def)
qed

lemma set_offer: "set (offer p) = left p - puses p"
  by (auto simp: offer_def left_def)

lemma distinct_offer: "distinct (offer p)"
  by (simp add: offer_def)

subsection \<open>Blocks given back\<close>

definition give_back :: "request_slot list \<Rightarrow> 'h pieces \<Rightarrow> 'h pieces" where
  "give_back ss h = fold (\<lambda>s h. on_piece (rs_piece s) (cancelBlock (rs_blockIndex s)) h) ss h"

lemma give_back_simps [simp]:
  "give_back [] h = h"
  "give_back (s # ss) h = give_back ss (on_piece (rs_piece s) (cancelBlock (rs_blockIndex s)) h)"
  by (simp_all add: give_back_def)

definition blocks_of :: "request_slot list \<Rightarrow> nat \<Rightarrow> nat set" where
  "blocks_of ss a = {rs_blockIndex s |s. s \<in> set ss \<and> rs_piece s = a}"

lemma blocks_of_simps [simp]:
  "blocks_of [] a = {}"
  "blocks_of (s # ss) a = (if rs_piece s = a then {rs_blockIndex s} else {}) \<union> blocks_of ss a"
  "blocks_of (ss @ ts) a = blocks_of ss a \<union> blocks_of ts a"
  by (auto simp: blocks_of_def)

lemma give_back_spec:
  assumes "fetched a (h a)"
  shows "alike (h a) (give_back ss h a) \<and> phaves (give_back ss h a) = phaves (h a) \<and>
    puses (give_back ss h a) = puses (h a) - blocks_of ss a"
  using assms
proof (induction ss arbitrary: h)
  case (Cons s ss)
  define g where "g = on_piece (rs_piece s) (cancelBlock (rs_blockIndex s)) h"
  have inv: "piece_inv (h a)" using Cons.prems by (simp add: fetched_def)
  have g: "alike (h a) (g a)" "phaves (g a) = phaves (h a)"
      "puses (g a) = puses (h a) - (if rs_piece s = a then {rs_blockIndex s} else {})"
    using alike_ops(2) [of "h a"] block_ops_views(3,4) [OF inv] by (auto simp: g_def)
  have "fetched a (g a)" using g(1) Cons.prems by (rule alike_fetched)
  from Cons.IH [of g, OF this] have "alike (h a) (give_back ss g a) \<and> phaves (give_back ss g a) = phaves (h a) \<and>
      puses (give_back ss g a) = puses (h a) - blocks_of (s # ss) a"
    using g alike_trans [OF g(1)] by auto
  moreover have "give_back (s # ss) h = give_back ss g" by (simp add: g_def)
  ultimately show ?case by simp
qed simp

lemma give_back_other: "a \<notin> rs_piece ` set ss \<Longrightarrow> give_back ss h a = h a"
  by (induction ss arbitrary: h) auto

lemma abort_give_back:
  "(\<And>s. s \<in> set ss \<Longrightarrow> rs_piece s = piece) \<Longrightarrow>
    fold (\<lambda>s h. abortOutstandingRequest s piece h) ss h = give_back ss h"
  by (induction ss arbitrary: h) (simp_all add: abortOutstandingRequest_def)

subsection \<open>The accounting\<close>

definition slot_for :: "'h piece \<Rightarrow> request_slot \<Rightarrow> bool" where
  "slot_for p s \<longleftrightarrow> rs_index s = pc_index p \<and> rs_piece s = pc_index p \<and> rs_blockIndex s < countBlock p \<and>
     rs_begin s = int (rs_blockIndex s) * bm_blockLength (pc_bitfield p) \<and>
     rs_length s = int32_of (piece_getBlockLength p (rs_blockIndex s))"

text \<open>
  Every outstanding request is for a block of a target piece, no block has two, and the blocks that
  are marked used are those that are asked for.
\<close>

definition accounts :: "nat list \<Rightarrow> request_slot list \<Rightarrow> 'h pieces \<Rightarrow> bool" where
  "accounts pieces slots h \<longleftrightarrow> distinct pieces \<and> (\<forall>a\<in>set pieces. fetched a (h a)) \<and>
     (\<forall>s\<in>set slots. rs_piece s \<in> set pieces \<and> slot_for (h (rs_piece s)) s) \<and>
     distinct (map (\<lambda>s. (rs_piece s, rs_blockIndex s)) slots) \<and>
     (\<forall>a\<in>set pieces. left (h a) \<inter> puses (h a) = left (h a) \<inter> blocks_of slots a)"

lemma accountsD:
  assumes "accounts pieces slots h"
  shows "distinct pieces" "\<And>a. a \<in> set pieces \<Longrightarrow> fetched a (h a)"
    "\<And>s. s \<in> set slots \<Longrightarrow> rs_piece s \<in> set pieces" "\<And>s. s \<in> set slots \<Longrightarrow> slot_for (h (rs_piece s)) s"
    "\<And>s. s \<in> set slots \<Longrightarrow> rs_index s = rs_piece s"
    "distinct (map (\<lambda>s. (rs_piece s, rs_blockIndex s)) slots)"
    "\<And>a. a \<in> set pieces \<Longrightarrow> left (h a) \<inter> puses (h a) = left (h a) \<inter> blocks_of slots a"
  using assms by (auto simp: accounts_def slot_for_def fetched_def)

text \<open>Dropping slots: blocks still missing become free again, other blocks may arrive meanwhile.\<close>

lemma accounts_drop:
  assumes acc: "accounts pieces slots h" and pieces: "set pieces' \<subseteq> set pieces" "distinct pieces'"
    and slots: "\<And>s. s \<in> set slots \<Longrightarrow> P s \<Longrightarrow> rs_piece s \<in> set pieces'"
    and alike: "\<And>a. a \<in> set pieces' \<Longrightarrow> alike (h a) (h' a) \<and> left (h' a) \<subseteq> left (h a)"
    and uses: "\<And>a. a \<in> set pieces' \<Longrightarrow> left (h' a) \<inter> puses (h' a) =
      left (h' a) \<inter> puses (h a) - blocks_of (filter (\<lambda>s. \<not> P s) slots) a"
  shows "accounts pieces' (filter P slots) h'"
proof -
  note d = accountsD [OF acc]
  have pairs: "inj_on (\<lambda>s. (rs_piece s, rs_blockIndex s)) (set slots)" using d(6) by (simp add: distinct_map)
  have split: "blocks_of slots a - blocks_of (filter (\<lambda>s. \<not> P s) slots) a = blocks_of (filter P slots) a" for a
    using pairs by (auto simp: blocks_of_def inj_on_def) metis
  have "left (h' a) \<inter> puses (h' a) = left (h' a) \<inter> blocks_of (filter P slots) a" if a: "a \<in> set pieces'" for a
  proof -
    have "left (h' a) \<inter> puses (h a) = left (h' a) \<inter> blocks_of slots a"
      using alike [OF a] d(7) [of a] pieces(1) a by blast
    then show ?thesis using uses [OF a] split [of a] by blast
  qed
  moreover have "slot_for (h' (rs_piece s)) s" if "s \<in> set slots" "P s" for s
  proof -
    have al: "alike (h (rs_piece s)) (h' (rs_piece s))" using alike slots that by blast
    then have "piece_getBlockLength (h' (rs_piece s)) k = piece_getBlockLength (h (rs_piece s)) k" for k
      by (simp add: alike_def geometry_def piece_getBlockLength_def getBlockLength_def getLastBlockLength_def Let_def)
    then show ?thesis using d(4) [OF that(1)] al alike_countBlock [OF al]
      by (simp add: slot_for_def alike_def geometry_def)
  qed
  moreover have "fetched a (h' a)" if "a \<in> set pieces'" for a
    using alike [OF that] d(2) pieces(1) that alike_fetched by blast
  ultimately show ?thesis using slots pieces(2) d(6)
    by (auto simp: accounts_def distinct_map intro: inj_on_subset)
qed

lemma accounts_give_back:
  assumes acc: "accounts pieces slots h"
    and given: "\<And>s. s \<in> set slots \<Longrightarrow> Q s \<Longrightarrow> \<not> P s"
    and arrived: "\<And>s. s \<in> set slots \<Longrightarrow> \<not> P s \<Longrightarrow> \<not> Q s \<Longrightarrow> rs_blockIndex s \<notin> left (h (rs_piece s))"
  shows "accounts pieces (filter P slots) (give_back (filter Q slots) h)"
proof (rule accounts_drop [OF acc])
  note d = accountsD [OF acc]
  fix a assume a: "a \<in> set pieces"
  note g = give_back_spec [of a h, OF d(2) [OF a], of "filter Q slots"]
  let ?h = "give_back (filter Q slots) h"
  have l: "left (?h a) = left (h a)" using g alike_countBlock [of "h a" "?h a"] by (simp add: left_def)
  then show "alike (h a) (?h a) \<and> left (?h a) \<subseteq> left (h a)" using g by blast
  have "left (h a) \<inter> blocks_of (filter Q slots) a = left (h a) \<inter> blocks_of (filter (\<lambda>s. \<not> P s) slots) a"
    using given arrived by (auto simp: blocks_of_def)
  then show "left (?h a) \<inter> puses (?h a) = left (?h a) \<inter> puses (h a) - blocks_of (filter (\<lambda>s. \<not> P s) slots) a"
    using g l by blast
qed (use accountsD [OF acc] in auto)

text \<open>Slots of one connection, beside those of the others.\<close>

lemma accounts_perm: "accounts pieces slots h \<Longrightarrow> mset slots = mset slots' \<Longrightarrow> accounts pieces slots' h"
proof -
  assume a: "accounts pieces slots h" and p: "mset slots = mset slots'"
  have "blocks_of slots b = blocks_of slots' b" for b using mset_eq_setD [OF p] by (simp add: blocks_of_def)
  then show "accounts pieces slots' h" using a mset_eq_setD [OF p]
      mset_eq_imp_distinct_iff [of "map (\<lambda>s. (rs_piece s, rs_blockIndex s)) slots" "map (\<lambda>s. (rs_piece s, rs_blockIndex s)) slots'"] p
    by (simp add: accounts_def)
qed

lemma accounts_local:
  assumes acc: "accounts pieces (slots @ rest) h"
    and given: "\<And>s. s \<in> set slots \<Longrightarrow> Q s \<Longrightarrow> \<not> P s"
    and arrived: "\<And>s. s \<in> set slots \<Longrightarrow> \<not> P s \<Longrightarrow> \<not> Q s \<Longrightarrow> rs_blockIndex s \<notin> left (h (rs_piece s))"
  shows "accounts pieces (filter P slots @ rest) (give_back (filter Q slots) h)"
proof -
  have disj: "set slots \<inter> set rest = {}" using accountsD(6) [OF acc] by (auto simp: distinct_map)
  have "filter (\<lambda>s. s \<in> set rest \<or> P s) slots = filter P slots" "filter (\<lambda>s. s \<in> set rest \<or> P s) rest = rest"
      "filter (\<lambda>s. s \<in> set slots \<and> Q s) slots = filter Q slots" "filter (\<lambda>s. s \<in> set slots \<and> Q s) rest = []"
    using disj by (auto simp: filter_empty_conv intro!: filter_cong)
  then have "filter (\<lambda>s. s \<in> set rest \<or> P s) (slots @ rest) = filter P slots @ rest"
      "filter (\<lambda>s. s \<in> set slots \<and> Q s) (slots @ rest) = filter Q slots" by simp_all
  moreover have "accounts pieces (filter (\<lambda>s. s \<in> set rest \<or> P s) (slots @ rest))
      (give_back (filter (\<lambda>s. s \<in> set slots \<and> Q s) (slots @ rest)) h)"
    by (rule accounts_give_back [OF acc]) (use given arrived disj in auto)
  ultimately show ?thesis by simp
qed

lemma accounts_same:
  "accounts pieces slots h \<Longrightarrow> (\<And>a. a \<in> set pieces \<Longrightarrow> pc_index (h' a) = pc_index (h a) \<and>
    pc_bitfield (h' a) = pc_bitfield (h a)) \<Longrightarrow> accounts pieces slots h'"
  by (auto simp: accounts_def fetched_def slot_for_def piece_inv_def countBlock_def piece_getBlockLength_def left_def)

lemma accounts_complete:
  assumes "accounts pieces slots h" and "a \<in> set pieces"
  shows "accounts pieces slots (h(a := completeBlock k (h a)))"
proof -
  note d = accountsD [OF assms(1)]
  have inv: "piece_inv (h a)" using d(2) [OF assms(2)] by (simp add: fetched_def)
  have "left (completeBlock k (h a)) = left (h a) - {k}"
    using block_ops_views(1) [OF inv, of k] alike_countBlock [OF alike_ops(1) [of "h a" k]] by (auto simp: left_def)
  moreover have "puses (completeBlock k (h a)) = puses (h a) - {k}" by (rule block_ops_views(2) [OF inv])
  ultimately have "accounts pieces (filter (\<lambda>_. True) slots) (h(a := completeBlock k (h a)))"
    by (intro accounts_drop [OF assms(1)]) (use d alike_ops(1) [of "h a" k] in \<open>auto simp: blocks_of_def\<close>)
  then show ?thesis by simp
qed

subsection \<open>Finding and removing a slot\<close>

lemma slots_unique:
  assumes acc: "accounts pieces slots h" and st: "s \<in> set slots" "t \<in> set slots"
    and eq: "rs_index s = rs_index t" "rs_begin s = rs_begin t"
  shows "s = t"
proof -
  note d = accountsD [OF acc]
  have p: "rs_piece s = rs_piece t" using d(5) [OF st(1)] d(5) [OF st(2)] eq(1) by simp
  have "0 < bm_blockLength (pc_bitfield (h (rs_piece s)))" using d(2,3) st(1) by (auto simp: fetched_def)
  then have "rs_blockIndex s = rs_blockIndex t" using d(4) [OF st(1)] d(4) [OF st(2)] p eq(2)
    by (auto simp: slot_for_def)
  then show ?thesis using d(6) p st by (auto simp: distinct_map inj_on_def)
qed

lemma getOutstandingRequest_found:
  assumes "accounts pieces (dp_requestSlots d @ rest) h" and "s \<in> set (dp_requestSlots d)"
  shows "getOutstandingRequest d (rs_index s) (rs_begin s) (rs_length s) = Some s"
proof -
  let ?P = "\<lambda>t. rs_index t = rs_index s \<and> rs_begin t = rs_begin s \<and> rs_length t = rs_length s"
  have "List.find ?P (dp_requestSlots d) \<noteq> None" using assms(2) by (auto simp: find_None_iff)
  then obtain t where t: "List.find ?P (dp_requestSlots d) = Some t" by blast
  then have "t \<in> set (dp_requestSlots d)" "?P t" by (auto simp: find_Some_iff)
  then have "t = s" using slots_unique [OF assms(1), of t s] assms(2) by simp
  then show ?thesis using t by (simp add: getOutstandingRequest_def)
qed

lemma getOutstandingRequest_Some:
  assumes "getOutstandingRequest d index begin' len = Some s"
  shows "s \<in> set (dp_requestSlots d)" "rs_index s = index" "rs_begin s = begin'" "rs_length s = len"
  using assms by (auto simp: getOutstandingRequest_def find_Some_iff)

lemma erase_slot_spec:
  assumes "s \<in> set slots" and "distinct slots" and "\<And>t. t \<in> set slots \<Longrightarrow> slot_eq t s \<Longrightarrow> t = s"
  shows "erase_slot s slots h = (filter (\<lambda>t. t \<noteq> s) slots, give_back [s] h)"
  using assms
proof (induction slots)
  case (Cons t ts)
  show ?case
  proof (cases "slot_eq t s")
    case True
    then have "t = s" using Cons.prems(3) by simp
    moreover have "filter (\<lambda>t. t \<noteq> s) ts = ts" using Cons.prems(2) \<open>t = s\<close> by (auto intro: filter_True)
    ultimately show ?thesis using True by (simp add: abortOutstandingRequest_def fun_upd_def)
  next
    case False
    then have "t \<noteq> s" by (auto simp: slot_eq_def)
    then show ?thesis using False Cons by (simp add: case_prod_beta)
  qed
qed simp

lemma filter_single: "s \<in> set xs \<Longrightarrow> distinct xs \<Longrightarrow> filter (\<lambda>t. t = s) xs = [s]"
  by (induction xs) (auto simp: filter_empty_conv)

lemma removeOutstandingRequest_spec:
  assumes acc: "accounts pieces (dp_requestSlots d @ rest) h" and s: "s \<in> set (dp_requestSlots d)"
  shows "removeOutstandingRequest s (d, h) =
      (d\<lparr>dp_requestSlots := filter (\<lambda>t. t \<noteq> s) (dp_requestSlots d)\<rparr>, give_back [s] h)"
    "accounts pieces (filter (\<lambda>t. t \<noteq> s) (dp_requestSlots d) @ rest) (give_back [s] h)"
proof -
  have dist: "distinct (dp_requestSlots d)" using accountsD(6) [OF acc] by (simp add: distinct_map)
  have "slot_eq t s \<Longrightarrow> t = s" if "t \<in> set (dp_requestSlots d)" for t
    using slots_unique [OF acc, of t s] that s by (simp add: slot_eq_def)
  note erased = erase_slot_spec [OF s dist this, of h]
  show "removeOutstandingRequest s (d, h) =
      (d\<lparr>dp_requestSlots := filter (\<lambda>t. t \<noteq> s) (dp_requestSlots d)\<rparr>, give_back [s] h)"
    using erased by (simp add: removeOutstandingRequest_def)
  have "filter (\<lambda>t. t = s) (dp_requestSlots d) = [s]" using s dist
    by (rule filter_single)
  then show "accounts pieces (filter (\<lambda>t. t \<noteq> s) (dp_requestSlots d) @ rest) (give_back [s] h)"
    using accounts_local [OF acc, of "\<lambda>t. t = s" "\<lambda>t. t \<noteq> s"] by simp
qed

subsection \<open>The dispatcher\<close>

abbreviation abort_queue :: "nat \<Rightarrow> 'x queued list \<Rightarrow> 'x queued list" where
  "abort_queue a \<equiv> map (onAbortOutstandingRequestEvent a)"

lemma abort_eq:
  assumes idx: "\<And>s. s \<in> set (dp_requestSlots d) \<Longrightarrow> rs_index s = rs_piece s" and a: "pc_index (h a) = a"
  shows "doAbortOutstandingRequestAction a (d, h) =
      (d\<lparr>dp_requestSlots := filter (\<lambda>s. rs_piece s \<noteq> a) (dp_requestSlots d),
         dp_messageQueue := abort_queue a (dp_messageQueue d)\<rparr>,
       give_back (filter (\<lambda>s. rs_piece s = a) (dp_requestSlots d)) h)"
proof -
  have f: "filter (\<lambda>s. rs_index s = a) (dp_requestSlots d) = filter (\<lambda>s. rs_piece s = a) (dp_requestSlots d)"
      "filter (\<lambda>s. rs_index s \<noteq> a) (dp_requestSlots d) = filter (\<lambda>s. rs_piece s \<noteq> a) (dp_requestSlots d)"
    using idx by (auto intro: filter_cong)
  have "fold (\<lambda>s h. abortOutstandingRequest s a h) (filter (\<lambda>s. rs_piece s = a) (dp_requestSlots d)) h =
      give_back (filter (\<lambda>s. rs_piece s = a) (dp_requestSlots d)) h"
    using abort_give_back [of "filter (\<lambda>s. rs_piece s = a) (dp_requestSlots d)" a] by (simp add: fun_eq_iff)
  then show ?thesis by (simp add: doAbortOutstandingRequestAction_def a f Let_def)
qed

lemma abort_spec:
  assumes acc: "accounts pieces (dp_requestSlots d @ rest) h" and a: "pc_index (h a) = a"
  shows "doAbortOutstandingRequestAction a (d, h) =
      (d\<lparr>dp_requestSlots := filter (\<lambda>s. rs_piece s \<noteq> a) (dp_requestSlots d),
         dp_messageQueue := abort_queue a (dp_messageQueue d)\<rparr>,
       give_back (filter (\<lambda>s. rs_piece s = a) (dp_requestSlots d)) h)"
    "accounts pieces (filter (\<lambda>s. rs_piece s \<noteq> a) (dp_requestSlots d) @ rest)
       (give_back (filter (\<lambda>s. rs_piece s = a) (dp_requestSlots d)) h)"
proof -
  have idx: "rs_index s = rs_piece s" if "s \<in> set (dp_requestSlots d)" for s using accountsD(5) [OF acc] that by simp
  show "doAbortOutstandingRequestAction a (d, h) =
      (d\<lparr>dp_requestSlots := filter (\<lambda>s. rs_piece s \<noteq> a) (dp_requestSlots d),
         dp_messageQueue := abort_queue a (dp_messageQueue d)\<rparr>,
       give_back (filter (\<lambda>s. rs_piece s = a) (dp_requestSlots d)) h)"
    by (rule abort_eq [of d h a, OF idx a])
  show "accounts pieces (filter (\<lambda>s. rs_piece s \<noteq> a) (dp_requestSlots d) @ rest)
       (give_back (filter (\<lambda>s. rs_piece s = a) (dp_requestSlots d)) h)"
    by (rule accounts_local [OF acc]) auto
qed

lemma choked_spec:
  assumes acc: "accounts pieces (dp_requestSlots d @ rest) h"
  shows "dp_doChokedAction allowed (d, h) =
      (d\<lparr>dp_requestSlots := filter (\<lambda>s. allowed (rs_piece s)) (dp_requestSlots d)\<rparr>,
       give_back (filter (\<lambda>s. \<not> allowed (rs_piece s)) (dp_requestSlots d)) h)"
    "accounts pieces (filter (\<lambda>s. allowed (rs_piece s)) (dp_requestSlots d) @ rest)
       (give_back (filter (\<lambda>s. \<not> allowed (rs_piece s)) (dp_requestSlots d)) h)"
proof -
  have idx: "rs_index s = rs_piece s" if "s \<in> set (dp_requestSlots d)" for s using accountsD(5) [OF acc] that by simp
  have f: "filter (\<lambda>s. allowed (rs_index s)) (dp_requestSlots d) = filter (\<lambda>s. allowed (rs_piece s)) (dp_requestSlots d)"
      "filter (\<lambda>s. \<not> allowed (rs_index s)) (dp_requestSlots d) = filter (\<lambda>s. \<not> allowed (rs_piece s)) (dp_requestSlots d)"
    using idx by (auto intro: filter_cong)
  show "dp_doChokedAction allowed (d, h) =
      (d\<lparr>dp_requestSlots := filter (\<lambda>s. allowed (rs_piece s)) (dp_requestSlots d)\<rparr>,
       give_back (filter (\<lambda>s. \<not> allowed (rs_piece s)) (dp_requestSlots d)) h)"
    by (simp add: dp_doChokedAction_def f Let_def give_back_def)
  show "accounts pieces (filter (\<lambda>s. allowed (rs_piece s)) (dp_requestSlots d) @ rest)
       (give_back (filter (\<lambda>s. \<not> allowed (rs_piece s)) (dp_requestSlots d)) h)"
    by (rule accounts_local [OF acc]) auto
qed

text \<open>The check of the slots: those timed out are given back, those whose block came are cancelled.\<close>

definition cancels_for :: "int \<Rightarrow> int \<Rightarrow> 'h pieces \<Rightarrow> request_slot list \<Rightarrow> 'x queued list" where
  "cancels_for now timeout h ss = map (\<lambda>s. queue_entry (Cancel (rs_index s) (rs_begin s) (rs_length s)))
     (filter (\<lambda>s. \<not> isTimeout now timeout s \<and> rs_blockIndex s \<in> phaves (h (rs_piece s))) ss)"

lemma hasBlock_phaves: "i < countBlock p \<Longrightarrow> hasBlock p i = Some (i \<in> phaves p)"
  by (simp add: hasBlock_def isBitSet_haves countBlock_def)

lemma check_slots_spec:
  fixes q :: "'x queued list"
  assumes "\<And>s. s \<in> set ss \<Longrightarrow> fetched (rs_piece s) (h (rs_piece s)) \<and> rs_blockIndex s < countBlock (h (rs_piece s))"
  shows "check_slots now timeout ss (q, h, snub) =
    Some (q @ cancels_for now timeout h ss, give_back (filter (isTimeout now timeout) ss) h,
          snub \<or> (\<exists>s\<in>set ss. isTimeout now timeout s))"
  using assms
proof (induction ss arbitrary: q h snub)
  case (Cons s ss)
  note fs = Cons.prems [of s, simplified]
  show ?case
  proof (cases "isTimeout now timeout s")
    case True
    define g where "g = on_piece (rs_piece s) (cancelBlock (rs_blockIndex s)) h"
    have g: "alike (h a) (g a)" for a using alike_ops(2) [of "h a"] by (cases "a = rs_piece s") (simp_all add: g_def)
    have "phaves (g a) = phaves (h a)" if "fetched a (h a)" for a
      using that block_ops_views(3) by (auto simp: g_def fetched_def)
    then have same: "cancels_for now timeout g ss = (cancels_for now timeout h ss :: 'x queued list)"
      using Cons.prems unfolding cancels_for_def by (intro arg_cong [where f = "map _"] filter_cong) auto
    have "fetched (rs_piece t) (g (rs_piece t)) \<and> rs_blockIndex t < countBlock (g (rs_piece t))" if "t \<in> set ss" for t
      using Cons.prems [of t] that g [of "rs_piece t"] alike_fetched alike_countBlock by fastforce
    note IH = Cons.IH [of g q True, OF this]
    have "check_slots now timeout (s # ss) (q, h, snub) = check_slots now timeout ss (q, g, True)"
      "give_back (filter (isTimeout now timeout) (s # ss)) h = give_back (filter (isTimeout now timeout) ss) g"
      "cancels_for now timeout h (s # ss) = (cancels_for now timeout h ss :: 'x queued list)"
      using True by (simp_all add: g_def cancels_for_def)
    then show ?thesis using True same IH by simp
  next
    case False
    have "hasBlock (h (rs_piece s)) (rs_blockIndex s) = Some (rs_blockIndex s \<in> phaves (h (rs_piece s)))"
      using fs by (simp add: hasBlock_phaves)
    then show ?thesis using False Cons.IH [of h "q @ [queue_entry (Cancel (rs_index s) (rs_begin s) (rs_length s))]" snub]
        Cons.IH [of h q snub] Cons.prems by (simp add: cancels_for_def)
  qed
qed (simp add: cancels_for_def)

lemma check_spec:
  fixes now :: int
  assumes acc: "accounts pieces (dp_requestSlots d @ rest) h"
  defines "slots \<equiv> dp_requestSlots d"
  defines "kept \<equiv> filter (\<lambda>s. \<not> isTimeout now (dp_requestTimeout d) s \<and> rs_blockIndex s \<in> left (h (rs_piece s))) slots"
    and "h' \<equiv> give_back (filter (isTimeout now (dp_requestTimeout d)) slots) h"
  shows "checkRequestSlotAndDoNecessaryThing now (d, h) =
      Some (d\<lparr>dp_messageQueue := dp_messageQueue d @ cancels_for now (dp_requestTimeout d) h slots,
              dp_requestSlots := kept\<rparr>, h', \<exists>s\<in>set slots. isTimeout now (dp_requestTimeout d) s)"
    "accounts pieces (kept @ rest) h'"
proof -
  note d = accountsD [OF acc]
  have ok: "fetched (rs_piece s) (h (rs_piece s)) \<and> rs_blockIndex s < countBlock (h (rs_piece s))"
    if "s \<in> set slots" for s
    using d(2) [OF d(3) [of s]] d(4) [of s] that by (auto simp: slots_def slot_for_def)
  have "hasBlock (h' (rs_piece s)) (rs_blockIndex s) = Some (rs_blockIndex s \<notin> left (h (rs_piece s)))"
    if "s \<in> set slots" for s
  proof -
    have f: "fetched (rs_piece s) (h (rs_piece s))" and k: "rs_blockIndex s < countBlock (h (rs_piece s))"
      using ok [OF that] by simp_all
    note g = give_back_spec [of "rs_piece s" h, OF f, of "filter (isTimeout now (dp_requestTimeout d)) slots"]
    have "rs_blockIndex s < countBlock (h' (rs_piece s))" using g k alike_countBlock unfolding h'_def by metis
    then show ?thesis using hasBlock_phaves [of "rs_blockIndex s" "h' (rs_piece s)"] g k by (simp add: left_def h'_def)
  qed
  then have "filter (\<lambda>s. \<not> (isTimeout now (dp_requestTimeout d) s \<or>
      hasBlock (h' (rs_piece s)) (rs_blockIndex s) = Some True)) slots = kept"
    unfolding kept_def by (auto intro!: filter_cong)
  then show "checkRequestSlotAndDoNecessaryThing now (d, h) =
      Some (d\<lparr>dp_messageQueue := dp_messageQueue d @ cancels_for now (dp_requestTimeout d) h slots,
              dp_requestSlots := kept\<rparr>, h', \<exists>s\<in>set slots. isTimeout now (dp_requestTimeout d) s)"
    using check_slots_spec [OF ok, where now = now and timeout = "dp_requestTimeout d" and q = "dp_messageQueue d" and snub = False]
    by (simp add: checkRequestSlotAndDoNecessaryThing_def slots_def [symmetric] h'_def)
  show "accounts pieces (kept @ rest) h'" unfolding kept_def h'_def slots_def
    by (rule accounts_local [OF acc]) auto
qed

subsection \<open>Asking\<close>

text \<open>The blocks on offer in the pieces, in the order in which they are asked for.\<close>

definition offers :: "nat list \<Rightarrow> 'h pieces \<Rightarrow> (nat \<times> nat) list" where
  "offers as h = concat (map (\<lambda>a. map (Pair a) (offer (h a))) as)"

lemma offers_simps [simp]:
  "offers [] h = []" "offers (a # as) h = map (Pair a) (offer (h a)) @ offers as h"
  by (simp_all add: offers_def)

lemma set_offers: "set (offers as h) = {(a, k). a \<in> set as \<and> k \<in> left (h a) - puses (h a)}"
  by (auto simp: offers_def set_offer)

lemma distinct_offers: "distinct as \<Longrightarrow> distinct (offers as h)"
  by (induction as) (auto simp: distinct_map distinct_offer inj_on_def set_offers)

lemma offers_cong: "(\<And>a. a \<in> set as \<Longrightarrow> offer (h a) = offer (h' a)) \<Longrightarrow> offers as h = offers as h'"
  by (simp add: offers_def cong: map_cong)

definition locked :: "nat list \<Rightarrow> (nat \<times> nat) list \<Rightarrow> 'h pieces \<Rightarrow> 'h pieces \<Rightarrow> bool" where
  "locked as ps h h' \<longleftrightarrow> (\<forall>a\<in>set as. alike (h a) (h' a) \<and> phaves (h' a) = phaves (h a) \<and>
     puses (h' a) = puses (h a) \<union> {k. (a, k) \<in> set ps}) \<and> (\<forall>a. a \<notin> set as \<longrightarrow> h' a = h a)"

abbreviation request_of :: "'h pieces \<Rightarrow> nat \<times> nat \<Rightarrow> 'x bt_message" where
  "request_of h \<equiv> \<lambda>(a, k). createRequestMessage (h a) k"

lemma request_loop_spec:
  assumes "distinct as" and "\<And>a. a \<in> set as \<Longrightarrow> fetched a (h a)"
    and "request_loop as n requests h = (requests', h')"
  shows "requests' = requests @ map (request_of h) (take n (offers as h)) \<and> locked as (take n (offers as h)) h h'"
  using assms
proof (induction as arbitrary: n requests h)
  case (Cons a as)
  show ?case
  proof (cases "n = 0")
    case True
    then show ?thesis using Cons.prems(3) by (simp add: locked_def)
  next
    case False
    obtain p ixs where ask: "getMissingUnusedBlockIndexes (h a) n = (p, ixs)" by fastforce
    note piece = ask_piece [OF Cons.prems(2) [OF list.set_intros(1)] ask]
    define g where "g = h(a := p)"
    define m where "m = n - length ixs"
    have loop: "request_loop as m (requests @ map (createRequestMessage p) ixs) g = (requests', h')"
      using Cons.prems(3) False ask by (simp add: g_def m_def)
    have g: "g b = h b" if "b \<in> set as" for b using that Cons.prems(1) by (auto simp: g_def)
    have "fetched b (g b)" if "b \<in> set as" for b using g [OF that] Cons.prems(2) that by simp
    from Cons.IH [OF _ this loop] Cons.prems(1)
    have IH: "requests' = (requests @ map (createRequestMessage p) ixs) @ map (request_of g) (take m (offers as g))"
        "locked as (take m (offers as g)) g h'" by simp_all
    have same: "offers as g = offers as h" using g by (intro offers_cong) simp
    have "map (request_of g) (take m (offers as g)) = map (request_of h) (take m (offers as h))"
    proof -
      have "b \<in> set as" if "(b, k) \<in> set (take m (offers as h))" for b k
        using in_set_takeD [OF that] by (simp add: set_offers)
      then show ?thesis unfolding same using g by (intro map_cong refl) auto
    qed
    moreover have "map (createRequestMessage p) ixs = map (request_of h) (map (Pair a) ixs)"
      using piece(2) by (simp add: alike_createRequestMessage comp_def)
    moreover have taken: "take n (offers (a # as) h) = map (Pair a) ixs @ take m (offers as h)"
      using piece(1) by (simp add: m_def take_map min_def) 
    ultimately have "requests' = requests @ map (request_of h) (take n (offers (a # as) h))"
      using IH(1) by simp
    moreover have "locked (a # as) (take n (offers (a # as) h)) h h'" unfolding locked_def
    proof (intro conjI ballI allI impI)
      fix b assume b: "b \<notin> set (a # as)"
      then show "h' b = h b" using IH(2) by (simp add: locked_def g_def)
    next
      fix b assume b: "b \<in> set (a # as)"
      show "alike (h b) (h' b)" "phaves (h' b) = phaves (h b)"
          "puses (h' b) = puses (h b) \<union> {k. (b, k) \<in> set (take n (offers (a # as) h))}"
        using b IH(2) piece g Cons.prems(1) in_set_takeD [of "(a, _)" m "offers as h"]
        unfolding taken same locked_def by (auto simp: g_def set_offers split: if_splits)
    qed
    ultimately show ?thesis by simp
  qed
qed (simp add: locked_def)

text \<open>The requests are queued; then they are outstanding.\<close>

definition queue_all :: "int \<Rightarrow> 'x bt_message list \<Rightarrow> 'x dispatcher \<Rightarrow> 'x dispatcher" where
  "queue_all now ms d = fold (addMessageToQueue now (\<lambda>index. index)) ms d"

definition asked_slot :: "int \<Rightarrow> 'h pieces \<Rightarrow> nat \<times> nat \<Rightarrow> request_slot" where
  "asked_slot now h = (\<lambda>(a, k). slot_new now (pc_index (h a)) (int32_of (int k * bm_blockLength (pc_bitfield (h a))))
     (int32_of (piece_getBlockLength (h a) k)) k (pc_index (h a)))"

lemma queue_request:
  "addMessageToQueue now (\<lambda>index. index) (request_of h p) d =
    d\<lparr>dp_requestSlots := dp_requestSlots d @ [asked_slot now h p],
      dp_messageQueue := dp_messageQueue d @ [queue_entry (request_of h p)]\<rparr>"
  by (simp add: addMessageToQueue_def onQueued_def addOutstandingRequest_def createRequestMessage_def
      asked_slot_def Let_def split_beta)

lemma queue_requests:
  "queue_all now (map (request_of h) ps) d =
    d\<lparr>dp_requestSlots := dp_requestSlots d @ map (asked_slot now h) ps,
      dp_messageQueue := dp_messageQueue d @ map (\<lambda>p. queue_entry (request_of h p)) ps\<rparr>"
proof (induction ps arbitrary: d)
  case (Cons p ps)
  have "queue_all now (map (request_of h) (p # ps)) d =
      queue_all now (map (request_of h) ps) (addMessageToQueue now (\<lambda>index. index) (request_of h p) d)"
    by (simp add: queue_all_def)
  then show ?case unfolding Cons.IH queue_request by simp
qed (simp add: queue_all_def)

lemma asked_slot_fields [simp]:
  "rs_blockIndex (asked_slot now h (a, k)) = k" "rs_piece (asked_slot now h (a, k)) = pc_index (h a)"
  "rs_dispatchedTime (asked_slot now h p) = now"
  by (simp_all add: asked_slot_def slot_new_def split_beta)

lemma asked_slot_for:
  assumes "fetched a (h a)" and "k < countBlock (h a)"
  shows "slot_for (h a) (asked_slot now h (a, k))"
proof -
  have "int k * bm_blockLength (pc_bitfield (h a)) < int (countBlock (h a)) * bm_blockLength (pc_bitfield (h a))"
    using assms by (intro mult_strict_right_mono) (simp_all add: fetched_def)
  then have fits: "int k * bm_blockLength (pc_bitfield (h a)) < 2 ^ 31"
    using assms(1) unfolding fetched_def by (elim conjE) (rule less_le_trans)
  have "int32_of (int k * bm_blockLength (pc_bitfield (h a))) = int k * bm_blockLength (pc_bitfield (h a))"
    by (rule int32_of_range [OF _ fits]) (use assms in \<open>auto simp: fetched_def intro: order_trans [of _ 0]\<close>)
  then show ?thesis using assms by (simp add: slot_for_def asked_slot_def slot_new_def)
qed

lemma slot_for_alike: "alike p q \<Longrightarrow> slot_for q s = slot_for p s"
  by (auto simp: slot_for_def alike_def geometry_def countBlock_def piece_getBlockLength_def getBlockLength_def
      getLastBlockLength_def Let_def)

lemma locked_mono:
  assumes "locked as ps h h'" and "set as \<subseteq> set us" and "fst ` set ps \<subseteq> set as"
  shows "locked us ps h h'"
proof -
  have "{k. (a, k) \<in> set ps} = {}" if "a \<notin> set as" for a using assms(3) that by (auto simp: image_subset_iff)
  then have "alike (h a) (h' a) \<and> phaves (h' a) = phaves (h a) \<and> puses (h' a) = puses (h a) \<union> {k. (a, k) \<in> set ps}" for a
    using assms(1) by (cases "a \<in> set as") (simp_all add: locked_def)
  then show ?thesis using assms(1,2) by (auto simp: locked_def)
qed

lemma accounts_ask:
  assumes acc: "accounts pieces slots h" and ps: "set ps \<subseteq> set (offers pieces h)" "distinct ps"
    and locked: "locked pieces ps h h'"
  shows "accounts pieces (slots @ map (asked_slot now h) ps) h'"
proof -
  note d = accountsD [OF acc]
  have idx: "pc_index (h a) = a" if "a \<in> set pieces" for a using d(2) [OF that] by (simp add: fetched_def)
  have new: "a \<in> set pieces \<and> k \<in> left (h a) - puses (h a)" if "(a, k) \<in> set ps" for a k
    using that ps(1) by (auto simp: set_offers)
  have l: "left (h' a) = left (h a)" if "a \<in> set pieces" for a
    using locked that alike_countBlock [of "h a" "h' a"] by (auto simp: locked_def left_def)
  have key: "map (\<lambda>s. (rs_piece s, rs_blockIndex s)) (map (asked_slot now h) ps) = ps"
    using new idx by (auto simp: comp_def intro!: map_idI)
  have "(rs_piece s, rs_blockIndex s) \<notin> set ps" if s: "s \<in> set slots" for s
  proof
    assume "(rs_piece s, rs_blockIndex s) \<in> set ps"
    then have "rs_piece s \<in> set pieces" "rs_blockIndex s \<in> left (h (rs_piece s)) - puses (h (rs_piece s))"
      using new by blast+
    then show False using d(7) [of "rs_piece s"] s by (auto simp: blocks_of_def)
  qed
  then have dist: "distinct (map (\<lambda>s. (rs_piece s, rs_blockIndex s)) (slots @ map (asked_slot now h) ps))"
    using d(6) ps(2) unfolding map_append key by auto
  have blocks: "blocks_of (map (asked_slot now h) ps) a = {k. (a, k) \<in> set ps}" if "a \<in> set pieces" for a
  proof -
    have "blocks_of (map (asked_slot now h) ps) a = {k. (a, k) \<in> (\<lambda>s. (rs_piece s, rs_blockIndex s)) ` set (map (asked_slot now h) ps)}"
      by (force simp: blocks_of_def)
    also have "\<dots> = {k. (a, k) \<in> set ps}" using arg_cong [OF key, of set] by (simp only: set_map)
    finally show ?thesis .
  qed
  have slots: "rs_piece s \<in> set pieces \<and> slot_for (h' (rs_piece s)) s"
    if s: "s \<in> set (slots @ map (asked_slot now h) ps)" for s
  proof (cases "s \<in> set slots")
    case True
    then show ?thesis using d(3,4) [OF True] locked slot_for_alike [of "h (rs_piece s)" "h' (rs_piece s)"]
      by (simp add: locked_def)
  next
    case False
    then obtain a k where ak: "(a, k) \<in> set ps" "s = asked_slot now h (a, k)" using s by auto
    then have a: "a \<in> set pieces" "rs_piece s = a" "k < countBlock (h a)" using new idx by (auto simp: left_def)
    then show ?thesis using asked_slot_for [of a h k now] d(2) ak(2) locked slot_for_alike [of "h a" "h' a"]
      by (simp add: locked_def)
  qed
  have "left (h' a) \<inter> puses (h' a) = left (h' a) \<inter> blocks_of (slots @ map (asked_slot now h) ps) a" if a: "a \<in> set pieces" for a
    using l [OF a] d(7) [OF a] blocks [OF a] locked a by (auto simp: locked_def)
  moreover have "fetched a (h' a)" if "a \<in> set pieces" for a
    using d(2) [OF that] locked that alike_fetched [of "h a" "h' a" a] by (simp add: locked_def)
  ultimately show ?thesis using d(1) dist slots by (simp add: accounts_def)
qed

end
