(* ===== verification/FetchMachine.thy ===== *)
theory FetchMachine
  imports RequestProps
begin

text \<open>
  The connections of one download that fetch pieces, outside the end game, as a state machine over
  the request factories, the dispatchers and the store of pieces they share. A block that arrives is
  recorded as \<open>BtPieceMessage::doReceivedAction\<close> does, a refused one as \<open>BtRejectMessage\<close>, a choke
  as \<open>BtChokeMessage\<close>, a bad piece as \<open>onWrongPiece\<close>.
\<close>

datatype fetch_event =
    Fetch nat
  | Ask int nat
  | Block nat int int
  | Refused nat int int
  | Choked "nat list"
  | Tick int
  | Sweep
  | Wrong nat
  | Leave

type_synonym ('h, 'x, 's) conn = "request_factory \<times> 'x dispatcher \<times> 'h pieces \<times> 's"

text \<open>The blocks of a piece that failed its check.\<close>

definition wipe :: "'h piece \<Rightarrow> 'h piece" where
  "wipe p = destroyHashContext (p\<lparr>pc_bitfield := clearAllUseBit (clearAllBit (pc_bitfield p))\<rparr>)"

definition block_arrived :: "nat \<Rightarrow> int \<Rightarrow> int \<Rightarrow> 'x dispatcher \<times> 'h pieces \<Rightarrow> ('x dispatcher \<times> 'h pieces) option" where
  "block_arrived index begin' len = (\<lambda>(d, h).
     case getOutstandingRequest d index begin' len of
       None \<Rightarrow> Some (d, h)
     | Some slot \<Rightarrow> do {
         has \<leftarrow> hasBlock (h index) (rs_blockIndex slot);
         Some (if has then (d, h)
               else removeOutstandingRequest slot (d, on_piece index (completeBlock (rs_blockIndex slot)) h)) })"

definition block_refused :: "nat \<Rightarrow> int \<Rightarrow> int \<Rightarrow> 'x dispatcher \<times> 'h pieces \<Rightarrow> 'x dispatcher \<times> 'h pieces" where
  "block_refused index begin' len = (\<lambda>(d, h).
     case getOutstandingRequest d index begin' len of
       None \<Rightarrow> (d, h) | Some slot \<Rightarrow> removeOutstandingRequest slot (d, h))"

fun conn_step :: "('h, 's) cancel_piece \<Rightarrow> fetch_event \<Rightarrow> ('h, 'x, 's) conn \<Rightarrow> ('h, 'x, 's) conn option" where
  "conn_step cancelPiece (Fetch a) (f, d, h, st) = Some (addTargetPiece a f, d, h, st)"
| "conn_step cancelPiece (Ask now n) (f, d, h, st) = do {
     (requests, h) \<leftarrow> createRequestMessages (\<lambda>bs. bs) d n False f h;
     Some (f, queue_all now requests d, h, st) }"
| "conn_step cancelPiece (Block index begin' len) (f, d, h, st) = do {
     (d, h) \<leftarrow> block_arrived index begin' len (d, h); Some (f, d, h, st) }"
| "conn_step cancelPiece (Refused index begin' len) (f, d, h, st) =
     (let (d, h) = block_refused index begin' len (d, h) in Some (f, d, h, st))"
| "conn_step cancelPiece (Choked allowed) (f, d, h, st) =
     (let (d, h) = dp_doChokedAction (\<lambda>i. i \<in> set allowed) (d, h);
          (f, h, st) = rf_doChokedAction cancelPiece (\<lambda>i. i \<in> set allowed) f (h, st)
      in Some (f, d, h, st))"
| "conn_step cancelPiece (Tick now) (f, d, h, st) = do {
     (d, h, snub) \<leftarrow> checkRequestSlotAndDoNecessaryThing now (d, h); Some (f, d, h, st) }"
| "conn_step cancelPiece Sweep (f, d, h, st) =
     (let (f, d, h) = removeCompletedPiece f (d, h) in Some (f, d, h, st))"
| "conn_step cancelPiece (Wrong a) (f, d, h, st) = Some (removeTargetPiece cancelPiece a f d (on_piece a wipe h, st))"
| "conn_step cancelPiece Leave (f, d, h, st) = Some (removeAllTargetPiece cancelPiece f d (h, st))"

subsection \<open>One connection\<close>

definition conn_ok :: "nat list \<Rightarrow> request_slot list \<Rightarrow> request_factory \<Rightarrow> 'x dispatcher \<Rightarrow> 'h pieces \<Rightarrow> bool" where
  "conn_ok us rest f d h \<longleftrightarrow> accounts us (dp_requestSlots d @ rest) h \<and> distinct (rf_pieces f) \<and>
     set (rf_pieces f) \<subseteq> set us \<and> rs_piece ` set (dp_requestSlots d) \<subseteq> set (rf_pieces f) \<and>
     rs_piece ` set rest \<inter> set (rf_pieces f) = {}"

lemma conn_okD:
  assumes "conn_ok us rest f d h"
  shows "accounts us (dp_requestSlots d @ rest) h" "distinct (rf_pieces f)" "set (rf_pieces f) \<subseteq> set us"
    "rs_piece ` set (dp_requestSlots d) \<subseteq> set (rf_pieces f)" "rs_piece ` set rest \<inter> set (rf_pieces f) = {}"
    "\<And>a. a \<in> set us \<Longrightarrow> fetched a (h a)" "\<And>a. a \<in> set (rf_pieces f) \<Longrightarrow> pc_index (h a) = a"
  using assms accountsD(2) [of us "dp_requestSlots d @ rest" h] by (auto simp: conn_ok_def fetched_def)

lemma ask_ok:
  assumes ok: "conn_ok us rest f d h" and ask: "createRequestMessages shuffle d n False f h = Some (requests, h')"
  defines "ps \<equiv> take n (offers (rf_pieces f) h)"
  shows "requests = map (request_of h) ps" "locked us ps h h'"
    "queue_all now requests d = d\<lparr>dp_requestSlots := dp_requestSlots d @ map (asked_slot now h) ps,
      dp_messageQueue := dp_messageQueue d @ map (\<lambda>p. queue_entry (request_of h p)) ps\<rparr>"
    "conn_ok us rest f (queue_all now requests d) h'"
proof -
  note c = conn_okD [OF ok]
  have "request_loop (rf_pieces f) n [] h = (requests, h')" using ask by (simp add: createRequestMessages_def)
  note loop = request_loop_spec [OF c(2) _ this]
  have "fetched a (h a)" if "a \<in> set (rf_pieces f)" for a using c(3,6) that by blast
  note loop = loop [OF this, folded ps_def]
  show reqs: "requests = map (request_of h) ps" using loop by simp
  have "fst ` set ps \<subseteq> set (rf_pieces f)" by (auto simp: ps_def set_offers dest!: in_set_takeD)
  then show locked: "locked us ps h h'" using loop locked_mono [of "rf_pieces f" ps h h' us] c(3) by simp
  show queued: "queue_all now requests d = d\<lparr>dp_requestSlots := dp_requestSlots d @ map (asked_slot now h) ps,
      dp_messageQueue := dp_messageQueue d @ map (\<lambda>p. queue_entry (request_of h p)) ps\<rparr>"
    unfolding reqs by (rule queue_requests)
  have sub: "set ps \<subseteq> set (offers (rf_pieces f) h)" by (simp add: ps_def set_take_subset)
  have "accounts us ((dp_requestSlots d @ rest) @ map (asked_slot now h) ps) h'"
    by (rule accounts_ask [OF c(1) _ _ locked]) (use sub c(3) distinct_offers [OF c(2), of h] in \<open>auto simp: ps_def set_offers\<close>)
  then have "accounts us ((dp_requestSlots d @ map (asked_slot now h) ps) @ rest) h'"
    by (rule accounts_perm) (simp add: ac_simps)
  moreover have "rs_piece (asked_slot now h p) \<in> set (rf_pieces f)" if "p \<in> set ps" for p
    using sub that c(7) by (cases p) (auto simp: set_offers)
  ultimately show "conn_ok us rest f (queue_all now requests d) h'"
    using c(2-5) by (auto simp: queued conn_ok_def)
qed

lemma conn_ok_drop:
  assumes ok: "conn_ok us rest f d h" and slots: "dp_requestSlots d' = filter P (dp_requestSlots d)"
    and given: "\<And>s. s \<in> set (dp_requestSlots d) \<Longrightarrow> Q s \<Longrightarrow> \<not> P s"
    and arrived: "\<And>s. s \<in> set (dp_requestSlots d) \<Longrightarrow> \<not> P s \<Longrightarrow> \<not> Q s \<Longrightarrow> rs_blockIndex s \<notin> left (h (rs_piece s))"
  shows "conn_ok us rest f d' (give_back (filter Q (dp_requestSlots d)) h)"
proof -
  note c = conn_okD [OF ok]
  show ?thesis using accounts_local [OF c(1) given arrived] c(2-5) by (auto simp: conn_ok_def slots)
qed

text \<open>Pieces that are given up have no slots left.\<close>

lemma conn_ok_fewer:
  "conn_ok us rest f d h \<Longrightarrow> set (rf_pieces f') \<subseteq> set (rf_pieces f) \<Longrightarrow> distinct (rf_pieces f') \<Longrightarrow>
    rs_piece ` set (dp_requestSlots d) \<subseteq> set (rf_pieces f') \<Longrightarrow> conn_ok us rest f' d h"
  by (auto simp: conn_ok_def)

lemma conn_ok_same:
  "conn_ok us rest f d h \<Longrightarrow> (\<And>a. pc_index (h' a) = pc_index (h a) \<and> pc_bitfield (h' a) = pc_bitfield (h a)) \<Longrightarrow>
    conn_ok us rest f d h'"
  using accounts_same [of us "dp_requestSlots d @ rest" h h'] by (auto simp: conn_ok_def)

lemma conn_ok_queue: "conn_ok us rest f d h \<Longrightarrow> dp_requestSlots d' = dp_requestSlots d \<Longrightarrow> conn_ok us rest f d' h"
  by (simp add: conn_ok_def)

lemma block_arrived_ok:
  assumes ok: "conn_ok us rest f d h"
  shows "\<exists>d' h'. block_arrived index begin' len (d, h) = Some (d', h') \<and> conn_ok us rest f d' h'"
proof (cases "getOutstandingRequest d index begin' len")
  case None
  then show ?thesis using ok by (simp add: block_arrived_def)
next
  case (Some s)
  note c = conn_okD [OF ok] and s = getOutstandingRequest_Some [OF Some]
  note acc = accountsD [OF c(1)]
  have idx: "rs_piece s = index" using acc(5) [of s] s by simp
  have a: "index \<in> set us" using acc(3) [of s] s idx by simp
  have k: "rs_blockIndex s < countBlock (h index)" using acc(4) [of s] s idx by (simp add: slot_for_def)
  define g where "g = on_piece index (completeBlock (rs_blockIndex s)) h"
  have "accounts us (dp_requestSlots d @ rest) g" unfolding g_def by (rule accounts_complete [OF c(1) a])
  note rem = removeOutstandingRequest_spec [OF this s(1)]
  have "conn_ok us rest f (d\<lparr>dp_requestSlots := filter (\<lambda>t. t \<noteq> s) (dp_requestSlots d)\<rparr>) (give_back [s] g)"
    using rem(2) c(2-5) by (auto simp: conn_ok_def)
  then show ?thesis using Some k ok rem(1)
    by (simp add: block_arrived_def hasBlock_phaves g_def)
qed

lemma block_refused_ok:
  assumes ok: "conn_ok us rest f d h" and step: "block_refused index begin' len (d, h) = (d', h')"
  shows "conn_ok us rest f d' h'"
proof (cases "getOutstandingRequest d index begin' len")
  case (Some s)
  note c = conn_okD [OF ok] and s = getOutstandingRequest_Some [OF Some]
  note rem = removeOutstandingRequest_spec [OF c(1) s(1)]
  show ?thesis using rem c(2-5) step Some by (auto simp: conn_ok_def block_refused_def)
qed (use assms in \<open>simp add: block_refused_def\<close>)

lemma abort_ok:
  assumes ok: "conn_ok us rest f d h" and a: "pc_index (h a) = a"
    and step: "doAbortOutstandingRequestAction a (d, h) = (d', h')"
  shows "conn_ok us rest f d' h'" "a \<notin> rs_piece ` set (dp_requestSlots d')"
    "set (dp_requestSlots d') \<subseteq> set (dp_requestSlots d)" "a \<notin> set us \<Longrightarrow> h' = h"
    "\<And>b. b \<in> set us \<Longrightarrow> alike (h b) (h' b) \<and> phaves (h' b) = phaves (h b)"
proof -
  note c = conn_okD [OF ok]
  have d': "d' = d\<lparr>dp_requestSlots := filter (\<lambda>s. rs_piece s \<noteq> a) (dp_requestSlots d),
         dp_messageQueue := abort_queue a (dp_messageQueue d)\<rparr>"
      and h': "h' = give_back (filter (\<lambda>s. rs_piece s = a) (dp_requestSlots d)) h"
    using abort_spec(1) [OF c(1) a] step by simp_all
  show "conn_ok us rest f d' h'" unfolding h'
    by (rule conn_ok_drop [OF ok, where P = "\<lambda>s. rs_piece s \<noteq> a"]) (auto simp: d')
  show "a \<notin> rs_piece ` set (dp_requestSlots d')" "set (dp_requestSlots d') \<subseteq> set (dp_requestSlots d)"
    by (auto simp: d')
  show "h' = h" if "a \<notin> set us"
  proof -
    have "filter (\<lambda>s. rs_piece s = a) (dp_requestSlots d) = []" using c(3,4) that by (auto simp: filter_empty_conv)
    then show ?thesis by (simp add: h')
  qed
  show "alike (h b) (h' b) \<and> phaves (h' b) = phaves (h b)" if "b \<in> set us" for b
    using give_back_spec [of b h, OF c(6) [OF that]] by (simp add: h')
qed

text \<open>Completed pieces, one after the other.\<close>

abbreviation sweep :: "nat \<Rightarrow> 'x dispatcher \<times> 'h pieces \<Rightarrow> 'x dispatcher \<times> 'h pieces" where
  "sweep a \<equiv> \<lambda>(d, h). if pieceComplete (h a) then doAbortOutstandingRequestAction a (d, h) else (d, h)"

lemma sweep_ok:
  assumes "conn_ok us rest f d h" and "set as \<subseteq> set us" and "fold sweep as (d, h) = (d', h')"
  shows "conn_ok us rest f d' h' \<and> set (dp_requestSlots d') \<subseteq> set (dp_requestSlots d) \<and>
    (\<forall>a\<in>set us. pieceComplete (h' a) = pieceComplete (h a)) \<and>
    (\<forall>a\<in>set as. pieceComplete (h a) \<longrightarrow> a \<notin> rs_piece ` set (dp_requestSlots d'))"
  using assms
proof (induction as arbitrary: d h)
  case (Cons a as)
  obtain d1 h1 where s1: "sweep a (d, h) = (d1, h1)" by fastforce
  have a: "a \<in> set us" "pc_index (h a) = a" using Cons.prems(2) conn_okD(6) [OF Cons.prems(1), of a] by (auto simp: fetched_def)
  have one: "conn_ok us rest f d1 h1 \<and> set (dp_requestSlots d1) \<subseteq> set (dp_requestSlots d) \<and>
      (\<forall>b\<in>set us. pieceComplete (h1 b) = pieceComplete (h b)) \<and>
      (pieceComplete (h a) \<longrightarrow> a \<notin> rs_piece ` set (dp_requestSlots d1))"
  proof (cases "pieceComplete (h a)")
    case True
    then have "doAbortOutstandingRequestAction a (d, h) = (d1, h1)" using s1 by simp
    note ab = abort_ok [OF Cons.prems(1) a(2) this]
    have "pieceComplete (h1 b) = pieceComplete (h b)" if b: "b \<in> set us" for b
    proof -
      have fb: "fetched b (h b)" using conn_okD(6) [OF Cons.prems(1) b] .
      then have "fetched b (h1 b)" using ab(5) [OF b] alike_fetched by blast
      moreover have "left (h1 b) = left (h b)"
        using ab(5) [OF b] alike_countBlock [of "h b" "h1 b"] by (simp add: left_def)
      ultimately show ?thesis using fb by (simp add: pieceComplete_left)
    qed
    then show ?thesis using ab by blast
  qed (use s1 Cons.prems(1) in simp)
  have "fold sweep as (d1, h1) = (d', h')" using Cons.prems(3) s1 by simp
  from Cons.IH [OF _ _ this] one Cons.prems(2)
  have IH: "conn_ok us rest f d' h'" "set (dp_requestSlots d') \<subseteq> set (dp_requestSlots d1)"
      "\<And>b. b \<in> set us \<Longrightarrow> pieceComplete (h' b) = pieceComplete (h1 b)"
      "\<And>b. b \<in> set as \<Longrightarrow> pieceComplete (h1 b) \<Longrightarrow> b \<notin> rs_piece ` set (dp_requestSlots d')" by auto
  have "b \<notin> rs_piece ` set (dp_requestSlots d')" if b: "b \<in> set (a # as)" "pieceComplete (h b)" for b
  proof (cases "b = a")
    case True
    then show ?thesis using one b(2) IH(2) by blast
  next
    case False
    then have "b \<in> set as" "b \<in> set us" using b(1) Cons.prems(2) by auto
    then show ?thesis using IH(4) one b(2) by simp
  qed
  then show ?case using IH(1-3) one by auto
qed simp

lemma removeCompleted_ok:
  assumes ok: "conn_ok us rest f d h" and step: "removeCompletedPiece f (d, h) = (f', d', h')"
  shows "conn_ok us rest f' d' h'" "rf_pieces f' = filter (\<lambda>a. \<not> pieceComplete (h a)) (rf_pieces f)"
proof -
  note c = conn_okD [OF ok]
  obtain e g where eg: "fold sweep (rf_pieces f) (d, h) = (e, g)" by fastforce
  note sw = sweep_ok [OF ok c(3) eg]
  have eq: "filter (\<lambda>a. \<not> pieceComplete (g a)) (rf_pieces f) = filter (\<lambda>a. \<not> pieceComplete (h a)) (rf_pieces f)"
    using sw c(3) by (intro filter_cong) auto
  have res: "f' = f\<lparr>rf_pieces := filter (\<lambda>a. \<not> pieceComplete (g a)) (rf_pieces f)\<rparr>" "d' = e" "h' = g"
    using step eg by (auto simp: removeCompletedPiece_def)
  then show pieces: "rf_pieces f' = filter (\<lambda>a. \<not> pieceComplete (h a)) (rf_pieces f)" using eq by simp
  have "rs_piece s \<in> set (filter (\<lambda>a. \<not> pieceComplete (h a)) (rf_pieces f))" if s: "s \<in> set (dp_requestSlots e)" for s
  proof -
    have "s \<in> set (dp_requestSlots d)" using sw s by blast
    then have "rs_piece s \<in> set (rf_pieces f)" using c(4) by blast
    then show ?thesis using sw s by auto
  qed
  then have "rs_piece ` set (dp_requestSlots e) \<subseteq> set (rf_pieces f')" unfolding pieces by blast
  then show "conn_ok us rest f' d' h'" unfolding res(2,3)
    using conn_ok_fewer [of us rest f e g f'] sw c(2) by (simp add: pieces)
qed

lemma wipe_props:
  assumes "fetched a p"
  shows "alike p (wipe p)" "phaves (wipe p) = {}" "puses (wipe p) = {}"
proof -
  have inv: "bm_inv (pc_bitfield p)" using assms by (simp add: fetched_def piece_inv_def)
  have inv1: "bm_inv (clearAllBit (pc_bitfield p))" and inv2: "bm_inv (clearAllUseBit (clearAllBit (pc_bitfield p)))"
    using inv by (auto intro!: inv_intros simp: clearAllBit_def clearAllUseBit_def)
  have g: "geometry (clearAllUseBit (clearAllBit (pc_bitfield p))) = geometry (pc_bitfield p)"
    by (simp add: geometry_def clearAllBit_def clearAllUseBit_def updateCache_def)
  show "alike p (wipe p)" using inv2 g by (simp add: alike_def wipe_def destroyHashContext_def piece_inv_def)
  show "phaves (wipe p) = {}" "puses (wipe p) = {}" unfolding wipe_def destroyHashContext_def
    using inv inv1 by (simp_all add: clear_views)
qed

lemma wiped_ok:
  assumes ok: "conn_ok us rest f d h" and a: "a \<in> set (rf_pieces f)"
    and step: "doAbortOutstandingRequestAction a (d, on_piece a wipe h) = (d', h')"
  shows "conn_ok us rest (f\<lparr>rf_pieces := filter (\<lambda>b. b \<noteq> a) (rf_pieces f)\<rparr>) d' h'" "offer (h' a) = [0..<countBlock (h a)]"
proof -
  note c = conn_okD [OF ok]
  note acc = accountsD [OF c(1)]
  let ?kept = "filter (\<lambda>s. rs_piece s \<noteq> a) (dp_requestSlots d)" and ?out = "filter (\<lambda>s. rs_piece s = a) (dp_requestSlots d)"
  let ?g = "on_piece a wipe h"
  have fa: "fetched a (h a)" using c(3,6) a by blast
  note w = wipe_props [OF fa]
  have d': "d' = d\<lparr>dp_requestSlots := ?kept, dp_messageQueue := abort_queue a (dp_messageQueue d)\<rparr>" and h': "h' = give_back ?out ?g"
    using abort_eq [of d ?g a] acc(5) step w(1) c(7) [OF a] by (simp_all add: alike_def)
  have other: "h' b = h b" if "b \<noteq> a" for b
    using give_back_other [of b ?out ?g] that by (auto simp: h')
  have fg: "fetched a (?g a)" using alike_fetched [OF w(1) fa] by simp
  have at: "alike (h a) (h' a)" "phaves (h' a) = {}" "puses (h' a) = {}"
    using give_back_spec [of a ?g, OF fg, of ?out] w alike_trans [OF w(1)] by (simp_all add: h')
  then show "offer (h' a) = [0..<countBlock (h a)]"
    using alike_countBlock [OF at(1)] by (auto simp: offer_def left_def intro: filter_True)
  have alike: "alike (h b) (h' b)" for b using at(1) other [of b] by (cases "b = a") simp_all
  have gone: "blocks_of (?kept @ rest) a = {}" using c(5) a by (auto simp: blocks_of_def)
  have rest: "blocks_of (?kept @ rest) b = blocks_of (dp_requestSlots d @ rest) b" if "b \<noteq> a" for b
    using that by (auto simp: blocks_of_def)
  have "left (h' b) \<inter> puses (h' b) = left (h' b) \<inter> blocks_of (?kept @ rest) b" if b: "b \<in> set us" for b
    using acc(7) [OF b] at(3) gone rest [of b] other [of b] by (cases "b = a") simp_all
  moreover have "rs_piece s \<in> set us \<and> slot_for (h' (rs_piece s)) s" if "s \<in> set (?kept @ rest)" for s
    using acc(3,4) [of s] that slot_for_alike [OF alike [of "rs_piece s"]] by auto
  moreover have "fetched b (h' b)" if "b \<in> set us" for b using acc(2) [OF that] alike_fetched [OF alike [of b]] by blast
  moreover have "distinct (map (\<lambda>s. (rs_piece s, rs_blockIndex s)) (?kept @ rest))"
    using acc(6) by (auto simp: distinct_map intro: inj_on_subset)
  ultimately have "accounts us (dp_requestSlots d' @ rest) h'" using acc(1) by (simp add: accounts_def d')
  then show "conn_ok us rest (f\<lparr>rf_pieces := filter (\<lambda>b. b \<noteq> a) (rf_pieces f)\<rparr>) d' h'"
    using c(2-5) by (auto simp: conn_ok_def d')
qed

subsection \<open>Giving pieces back\<close>

text \<open>What the piece storage promises when a piece is given back: its blocks are not touched.\<close>

locale piece_owner =
  fixes cancelPiece :: "('h, 's) cancel_piece"
  assumes same: "cancelPiece a c (h, st) = (h', st') \<Longrightarrow>
    pc_index (h' b) = pc_index (h b) \<and> pc_bitfield (h' b) = pc_bitfield (h b)"
begin

lemma cancel_fold:
  assumes "fold (\<lambda>a (h, st). if P (pc_index (h a)) then cancelPiece a c (h, st) else (h, st)) as (h, st) = (h', st')"
  shows "pc_index (h' b) = pc_index (h b) \<and> pc_bitfield (h' b) = pc_bitfield (h b)"
  using assms
proof (induction as arbitrary: h st)
  case (Cons a as)
  obtain g t where g: "(if P (pc_index (h a)) then cancelPiece a c (h, st) else (h, st)) = (g, t)" by fastforce
  have "pc_index (g b) = pc_index (h b) \<and> pc_bitfield (g b) = pc_bitfield (h b)"
    using g same [of a c h st g t b] by (cases "P (pc_index (h a))") auto
  moreover have "fold (\<lambda>a (h, st). if P (pc_index (h a)) then cancelPiece a c (h, st) else (h, st)) as (g, t) = (h', st')"
    using Cons.prems g by simp
  ultimately show ?case using Cons.IH [of g t] by simp
qed simp

lemma choked_ok:
  assumes ok: "conn_ok us rest f d h" and d: "dp_doChokedAction allowed (d, h) = (d', h1)"
    and f: "rf_doChokedAction cancelPiece allowed f (h1, st) = (f', h', st')"
  shows "conn_ok us rest f' d' h'" "rf_pieces f' = filter allowed (rf_pieces f)"
proof -
  note c = conn_okD [OF ok]
  have d': "d' = d\<lparr>dp_requestSlots := filter (\<lambda>s. allowed (rs_piece s)) (dp_requestSlots d)\<rparr>"
      and h1: "h1 = give_back (filter (\<lambda>s. \<not> allowed (rs_piece s)) (dp_requestSlots d)) h"
    using choked_spec(1) [OF c(1), of allowed] d by simp_all
  have ok1: "conn_ok us rest f d' h1" unfolding h1
    by (rule conn_ok_drop [OF ok, where P = "\<lambda>s. allowed (rs_piece s)"]) (auto simp: d')
  obtain g t where g: "fold (\<lambda>a (h, st). if \<not> allowed (pc_index (h a)) then cancelPiece a (rf_cuid f) (h, st) else (h, st))
      (rf_pieces f) (h1, st) = (g, t)" by fastforce
  note same = cancel_fold [OF g]
  have ok2: "conn_ok us rest f d' g" using conn_ok_same [OF ok1 same] .
  have res: "f' = f\<lparr>rf_pieces := filter (\<lambda>a. allowed (pc_index (g a))) (rf_pieces f)\<rparr>" "h' = g"
    using f g by (auto simp: rf_doChokedAction_def)
  have "filter (\<lambda>a. allowed (pc_index (g a))) (rf_pieces f) = filter allowed (rf_pieces f)"
    using conn_okD(7) [OF ok2] by (intro filter_cong) auto
  then show pieces: "rf_pieces f' = filter allowed (rf_pieces f)" by (simp add: res(1))
  show "conn_ok us rest f' d' h'" unfolding res(2)
    by (rule conn_ok_fewer [OF ok2]) (use pieces c(2,4) in \<open>auto simp: d'\<close>)
qed

lemma leave_ok:
  assumes ok: "conn_ok us rest f d h" and as: "set as \<subseteq> set us"
    and fold: "fold (\<lambda>a (d, h, st). let (d, h) = doAbortOutstandingRequestAction a (d, h) in
      (d, cancelPiece a c (h, st))) as (d, h, st) = (d', h', st')"
  shows "conn_ok us rest f d' h' \<and> set (dp_requestSlots d') \<subseteq> set (dp_requestSlots d) \<and>
    rs_piece ` set (dp_requestSlots d') \<inter> set as = {}"
  using assms
proof (induction as arbitrary: d h st)
  case (Cons a as)
  obtain d1 h1 where ab: "doAbortOutstandingRequestAction a (d, h) = (d1, h1)" by fastforce
  obtain h2 t where ca: "cancelPiece a c (h1, st) = (h2, t)" by fastforce
  have a: "pc_index (h a) = a" using conn_okD(6) [OF Cons.prems(1)] Cons.prems(2) by (auto simp: fetched_def)
  note ab1 = abort_ok [OF Cons.prems(1) a ab]
  have ok2: "conn_ok us rest f d1 h2" using conn_ok_same [OF ab1(1) same [OF ca]] .
  have "fold (\<lambda>a (d, h, st). let (d, h) = doAbortOutstandingRequestAction a (d, h) in
      (d, cancelPiece a c (h, st))) as (d1, h2, t) = (d', h', st')"
    using Cons.prems(3) ab ca by simp
  from Cons.IH [OF ok2 _ this] Cons.prems(2) ab1(2,3) show ?case by auto
qed simp

text \<open>Every event keeps the accounts of a connection and never goes wrong.\<close>

lemma conn_step_ok:
  assumes ok: "conn_ok us rest f d h"
    and legal: "\<And>a. ev = Fetch a \<Longrightarrow> a \<in> set us \<and> a \<notin> set (rf_pieces f) \<and> a \<notin> rs_piece ` set rest"
      "\<And>a. ev = Wrong a \<Longrightarrow> a \<in> set (rf_pieces f)"
  shows "\<exists>f' d' h' st'. conn_step cancelPiece ev (f, d, h, st) = Some (f', d', h', st') \<and> conn_ok us rest f' d' h' \<and>
    set (rf_pieces f') \<subseteq> set (rf_pieces f) \<union> {a. ev = Fetch a}"
proof (cases ev)
  case (Fetch a)
  have "conn_ok us rest (addTargetPiece a f) d h" using ok legal(1) [OF Fetch]
    by (auto simp: conn_ok_def addTargetPiece_def)
  then show ?thesis using Fetch by (simp add: addTargetPiece_def)
next
  case (Ask now n)
  obtain requests h' where ask: "createRequestMessages (\<lambda>bs. bs) d n False f h = Some (requests, h')"
    by (simp add: createRequestMessages_def) (metis surj_pair)
  then show ?thesis using Ask ask_ok(4) [OF ok ask, of now] by simp
next
  case (Block index begin' len)
  then show ?thesis using block_arrived_ok [OF ok, of index begin' len] by auto
next
  case (Refused index begin' len)
  obtain d' h' where r: "block_refused index begin' len (d, h) = (d', h')" by fastforce
  then show ?thesis using Refused block_refused_ok [OF ok r] by simp
next
  case (Choked allowed)
  let ?A = "\<lambda>i. i \<in> set allowed"
  obtain d' h1 where d: "dp_doChokedAction ?A (d, h) = (d', h1)" by fastforce
  obtain f' h' st' where f: "rf_doChokedAction cancelPiece ?A f (h1, st) = (f', h', st')" by (rule prod_cases3)
  show ?thesis using Choked d f choked_ok [OF ok d f] by auto
next
  case (Tick now)
  note c = conn_okD [OF ok]
  obtain d' h' b where t: "checkRequestSlotAndDoNecessaryThing now (d, h) = Some (d', h', b)"
      "dp_requestSlots d' = filter (\<lambda>s. \<not> isTimeout now (dp_requestTimeout d) s \<and>
         rs_blockIndex s \<in> left (h (rs_piece s))) (dp_requestSlots d)"
      "h' = give_back (filter (isTimeout now (dp_requestTimeout d)) (dp_requestSlots d)) h"
    using check_spec(1) [OF c(1), of now] by auto
  have "conn_ok us rest f d' h'" unfolding t(3) by (rule conn_ok_drop [OF ok t(2)]) auto
  then show ?thesis using Tick t(1) by simp
next
  case Sweep
  obtain f' d' h' where r: "removeCompletedPiece f (d, h) = (f', d', h')" by (rule prod_cases3)
  show ?thesis using Sweep r removeCompleted_ok [OF ok r] by auto
next
  case (Wrong a)
  note c = conn_okD [OF ok]
  have a: "a \<in> set (rf_pieces f)" using legal(2) [OF Wrong] .
  obtain d' h1 where ab: "doAbortOutstandingRequestAction a (d, on_piece a wipe h) = (d', h1)" by fastforce
  obtain h' st' where ca: "cancelPiece a (rf_cuid f) (h1, st) = (h', st')" by fastforce
  let ?f = "f\<lparr>rf_pieces := filter (\<lambda>b. b \<noteq> a) (rf_pieces f)\<rparr>"
  have idx: "pc_index (on_piece a wipe h b) = b" if "b \<in> set (rf_pieces f)" for b
    using that c(7) wipe_props(1) [of a "h a"] c(3,6) a by (auto simp: alike_def)
  then have "filter (\<lambda>b. pc_index (on_piece a wipe h b) \<noteq> pc_index (on_piece a wipe h a)) (rf_pieces f) =
      filter (\<lambda>b. b \<noteq> a) (rf_pieces f)"
    by (intro filter_cong refl) (simp only: idx a)
  then have "conn_step cancelPiece ev (f, d, h, st) = Some (?f, d', h', st')"
    unfolding Wrong conn_step.simps removeTargetPiece_def Let_def using ab ca by simp
  moreover have "conn_ok us rest ?f d' h'" using conn_ok_same [OF wiped_ok(1) [OF ok a ab] same [OF ca]] .
  moreover have "set (rf_pieces ?f) \<subseteq> set (rf_pieces f) \<union> {a. ev = Fetch a}" by auto
  ultimately show ?thesis by blast
next
  case Leave
  note c = conn_okD [OF ok]
  obtain d' h' st' where r: "fold (\<lambda>a (d, h, st). let (d, h) = doAbortOutstandingRequestAction a (d, h) in
      (d, cancelPiece a (rf_cuid f) (h, st))) (rf_pieces f) (d, h, st) = (d', h', st')" by (rule prod_cases3)
  note l = leave_ok [OF ok c(3) r]
  have sub: "set (dp_requestSlots d') \<subseteq> set (dp_requestSlots d)" using l by (elim conjE)
  have "rs_piece ` set (dp_requestSlots d') \<inter> set (rf_pieces f) = {}" using l by (elim conjE)
  then have "rs_piece ` set (dp_requestSlots d') = {}"
    using Int_absorb2 [OF subset_trans [OF image_mono [OF sub] c(4)]] by simp
  then have "conn_ok us rest (f\<lparr>rf_pieces := []\<rparr>) d' h'" using l conn_ok_fewer [of us rest f d' h'] by simp
  then show ?thesis using Leave r by (simp add: removeAllTargetPiece_def)
qed

end

end
