(* ===== verification/FetchRun.thy ===== *)
theory FetchRun
  imports FetchMachine PieceStorage
begin

text \<open>
  All connections of a download together, their pieces given back to \<open>DefaultPieceStorage\<close>: runs of
  the machine in which any connection takes a step, and their accounts.
\<close>

text \<open>\<open>PieceStorage::cancelPiece\<close> on the piece at an address.\<close>

definition storage_cancel :: "('h, ('h, 'd) piece_storage) cancel_piece" where
  "storage_cancel a cuid = (\<lambda>(h, st). let (st, p) = cancelPiece (h a) cuid st in (h(a := p), st))"

lemma releaseWrCache_fields:
  "pc_index (fst (releaseWrCache c p s)) = pc_index p" "pc_bitfield (fst (releaseWrCache c p s)) = pc_bitfield p"
  by (auto simp: releaseWrCache_def Let_def split: option.split)

lemma deleteUsedPiece_fields:
  "pc_index (snd (deleteUsedPiece p st)) = pc_index p" "pc_bitfield (snd (deleteUsedPiece p st)) = pc_bitfield p"
  by (simp_all add: deleteUsedPiece_def split_beta Let_def releaseWrCache_fields)

lemma cancelPiece_fields:
  "pc_index (snd (cancelPiece p c st)) = pc_index p" "pc_bitfield (snd (cancelPiece p c st)) = pc_bitfield p"
  by (simp_all add: cancelPiece_def Let_def deleteUsedPiece_fields removeUser_def)

interpretation owner: piece_owner storage_cancel
proof
  fix a b :: nat and c :: int and h h' :: "'h pieces" and st st' :: "('h, 'd) piece_storage"
  assume "storage_cancel a c (h, st) = (h', st')"
  then have "h' = h(a := snd (cancelPiece (h a) c st))" by (auto simp: storage_cancel_def split: prod.splits)
  then show "pc_index (h' b) = pc_index (h b) \<and> pc_bitfield (h' b) = pc_bitfield (h b)" by (simp add: cancelPiece_fields)
qed

subsection \<open>The machine\<close>

record ('h, 'x, 'd) fetching =
  fg_conns :: "(request_factory \<times> 'x dispatcher) list"
  fg_pieces :: "'h pieces"
  fg_storage :: "('h, 'd) piece_storage"

definition fetch_exec :: "nat \<Rightarrow> fetch_event \<Rightarrow> ('h, 'x, 'd) fetching \<Rightarrow> ('h, 'x, 'd) fetching option" where
  "fetch_exec i ev m = do {
     let (f, d) = fg_conns m ! i;
     (f, d, h, st) \<leftarrow> conn_step storage_cancel ev (f, d, fg_pieces m, fg_storage m);
     Some \<lparr>fg_conns = (fg_conns m)[i := (f, d)], fg_pieces = h, fg_storage = st\<rparr> }"

abbreviation conn_pieces :: "request_factory \<times> 'x dispatcher \<Rightarrow> nat list" where
  "conn_pieces c \<equiv> rf_pieces (fst c)"

abbreviation conn_slots :: "request_factory \<times> 'x dispatcher \<Rightarrow> request_slot list" where
  "conn_slots c \<equiv> dp_requestSlots (snd c)"

text \<open>
  A piece is handed to one connection at a time (outside the end game \<open>getMissingPiece\<close> returns pieces
  that are not in use), and only a piece the connection fetches can turn out to be wrong.
\<close>

fun fetch_legal :: "nat list \<Rightarrow> nat \<Rightarrow> fetch_event \<Rightarrow> ('h, 'x, 'd) fetching \<Rightarrow> bool" where
  "fetch_legal us i (Fetch a) m \<longleftrightarrow> a \<in> set us \<and> (\<forall>c\<in>set (fg_conns m). a \<notin> set (conn_pieces c))"
| "fetch_legal us i (Wrong a) m \<longleftrightarrow> a \<in> set (conn_pieces (fg_conns m ! i))"
| "fetch_legal us i _ m \<longleftrightarrow> True"

definition fresh_conns :: "(int \<times> int) list \<Rightarrow> (request_factory \<times> 'x dispatcher) list" where
  "fresh_conns cs = map (\<lambda>(cuid, timeout). (factory_new cuid, dispatcher_new cuid timeout)) cs"

inductive fetch_reach :: "nat list \<Rightarrow> ('h, 'x, 'd) fetching \<Rightarrow> bool" for us where
  start: "distinct us \<Longrightarrow> \<forall>a\<in>set us. fetched a (h a) \<and> puses (h a) = {} \<Longrightarrow>
    fetch_reach us \<lparr>fg_conns = fresh_conns cs, fg_pieces = h, fg_storage = st\<rparr>"
| step: "fetch_reach us m \<Longrightarrow> i < length (fg_conns m) \<Longrightarrow> fetch_legal us i ev m \<Longrightarrow>
    fetch_exec i ev m = Some m' \<Longrightarrow> fetch_reach us m'"

inductive_cases fetch_reachE: "fetch_reach us m"

abbreviation all_slots :: "('h, 'x, 'd) fetching \<Rightarrow> request_slot list" where
  "all_slots m \<equiv> concat (map conn_slots (fg_conns m))"

definition books :: "nat list \<Rightarrow> ('h, 'x, 'd) fetching \<Rightarrow> bool" where
  "books us m \<longleftrightarrow> accounts us (all_slots m) (fg_pieces m) \<and>
     distinct (concat (map conn_pieces (fg_conns m))) \<and>
     (\<forall>c\<in>set (fg_conns m). set (conn_pieces c) \<subseteq> set us \<and> rs_piece ` set (conn_slots c) \<subseteq> set (conn_pieces c))"

definition others :: "nat \<Rightarrow> 'a list \<Rightarrow> 'a list" where
  "others i xs = take i xs @ drop (Suc i) xs"

lemma set_others: "set (others i xs) \<subseteq> set xs"
  by (auto simp: others_def dest: in_set_takeD in_set_dropD)

lemma mset_split: "i < length xs \<Longrightarrow> mset (concat (map F xs)) = mset (F (xs ! i) @ concat (map F (others i xs)))"
  by (subst id_take_nth_drop [of i xs]) (simp_all add: others_def)

lemma others_update [simp]: "others i (xs[i := c]) = others i xs"
  by (simp add: others_def)

lemma distinct_split:
  assumes "i < length xs"
  shows "distinct (concat (map F xs)) \<longleftrightarrow> distinct (F (xs ! i)) \<and> distinct (concat (map F (others i xs))) \<and>
    set (F (xs ! i)) \<inter> set (concat (map F (others i xs))) = {}"
  using mset_eq_imp_distinct_iff [OF mset_split [OF assms, of F]] by simp

lemma books_conn:
  assumes "books us m" and i: "i < length (fg_conns m)" and c: "fg_conns m ! i = (f, d)"
  shows "conn_ok us (concat (map conn_slots (others i (fg_conns m)))) f d (fg_pieces m)"
proof -
  let ?cs = "fg_conns m"
  have sub: "set (others i ?cs) \<subseteq> set ?cs" by (rule set_others)
  have "accounts us (dp_requestSlots d @ concat (map conn_slots (others i ?cs))) (fg_pieces m)"
    using assms(1) mset_split [OF i, of conn_slots] c by (auto simp: books_def intro: accounts_perm)
  moreover have "distinct (rf_pieces f)" "set (rf_pieces f) \<inter> set (concat (map conn_pieces (others i ?cs))) = {}"
    using assms(1) distinct_split [OF i, of conn_pieces] c by (simp_all add: books_def)
  moreover have "rs_piece ` set (concat (map conn_slots (others i ?cs))) \<subseteq> set (concat (map conn_pieces (others i ?cs)))"
  proof
    fix a assume "a \<in> rs_piece ` set (concat (map conn_slots (others i ?cs)))"
    then obtain c' where "c' \<in> set (others i ?cs)" "a \<in> rs_piece ` set (conn_slots c')" by auto
    then show "a \<in> set (concat (map conn_pieces (others i ?cs)))" using assms(1) sub by (force simp: books_def)
  qed
  moreover have "(f, d) \<in> set ?cs" using nth_mem [OF i] c by simp
  ultimately show ?thesis using assms(1) by (force simp: conn_ok_def books_def)
qed

lemma books_update:
  assumes b: "books us m" and i: "i < length (fg_conns m)"
    and ok: "conn_ok us (concat (map conn_slots (others i (fg_conns m)))) f' d' h'"
    and sub: "set (rf_pieces f') \<subseteq> set (conn_pieces (fg_conns m ! i)) \<union> N"
    and N: "\<And>c. c \<in> set (fg_conns m) \<Longrightarrow> N \<inter> set (conn_pieces c) = {}"
  shows "books us \<lparr>fg_conns = (fg_conns m)[i := (f', d')], fg_pieces = h', fg_storage = st'\<rparr>"
proof -
  let ?cs = "fg_conns m" and ?ds = "(fg_conns m)[i := (f', d')]"
  note k = conn_okD [OF ok]
  have i': "i < length ?ds" using i by simp
  have sub_others: "set (others i ?cs) \<subseteq> set ?cs" by (rule set_others)
  have "accounts us (concat (map conn_slots ?ds)) h'"
    using accounts_perm [OF k(1)] mset_split [OF i', of conn_slots] i by simp
  moreover have "distinct (concat (map conn_pieces ?ds))"
  proof -
    let ?O = "set (concat (map conn_pieces (others i ?cs)))"
    have "N \<inter> ?O = {}" using N sub_others by auto
    moreover have "distinct (concat (map conn_pieces (others i ?cs)))" "set (conn_pieces (?cs ! i)) \<inter> ?O = {}"
      using b distinct_split [OF i, of conn_pieces] by (simp_all add: books_def)
    moreover have "set (rf_pieces f') \<inter> ?O = {}" using calculation(1,3) sub by blast
    ultimately show ?thesis using k(2) distinct_split [OF i', of conn_pieces] i by simp
  qed
  moreover have "set (conn_pieces c) \<subseteq> set us \<and> rs_piece ` set (conn_slots c) \<subseteq> set (conn_pieces c)"
    if "c \<in> set ?ds" for c
  proof -
    have "c = (f', d') \<or> c \<in> set ?cs" using that set_update_subset_insert [of ?cs i "(f', d')"] by blast
    then show ?thesis using k(3,4) b by (elim disjE) (simp_all add: books_def)
  qed
  ultimately show ?thesis by (simp add: books_def)
qed

text \<open>No step goes wrong, and every run keeps the books.\<close>

lemma fetch_exec_books:
  assumes b: "books us m" and i: "i < length (fg_conns m)" and legal: "fetch_legal us i ev m"
  shows "\<exists>m'. fetch_exec i ev m = Some m' \<and> books us m' \<and> length (fg_conns m') = length (fg_conns m)"
proof -
  obtain f d where c: "fg_conns m ! i = (f, d)" by fastforce
  note ok = books_conn [OF b i c]
  have cs: "(f, d) \<in> set (fg_conns m)" using nth_mem [OF i] c by simp
  have slots: "rs_piece ` set (concat (map conn_slots (others i (fg_conns m)))) \<subseteq> (\<Union>c\<in>set (fg_conns m). set (conn_pieces c))"
    using b set_others [of i "fg_conns m"] by (fastforce simp: books_def)
  have fresh: "a \<in> set us \<and> a \<notin> set (rf_pieces f) \<and> a \<notin> rs_piece ` set (concat (map conn_slots (others i (fg_conns m))))"
    if "ev = Fetch a" for a
    using legal that cs slots by auto
  have own: "a \<in> set (rf_pieces f)" if "ev = Wrong a" for a using legal that c by simp
  have "\<exists>f' d' h' st'. conn_step storage_cancel ev (f, d, fg_pieces m, fg_storage m) = Some (f', d', h', st') \<and>
      conn_ok us (concat (map conn_slots (others i (fg_conns m)))) f' d' h' \<and>
      set (rf_pieces f') \<subseteq> set (rf_pieces f) \<union> {a. ev = Fetch a}"
    by (rule owner.conn_step_ok [OF ok fresh own])
  then obtain f' d' h' st' where
    step: "conn_step storage_cancel ev (f, d, fg_pieces m, fg_storage m) = Some (f', d', h', st')"
      and ok': "conn_ok us (concat (map conn_slots (others i (fg_conns m)))) f' d' h'"
      and sub: "set (rf_pieces f') \<subseteq> set (rf_pieces f) \<union> {a. ev = Fetch a}"
    by (elim exE conjE)
  have "{a. ev = Fetch a} \<inter> set (conn_pieces c) = {}" if "c \<in> set (fg_conns m)" for c
    using legal that by (cases ev) auto
  from books_update [OF b i ok' _ this, of st'] sub c
  show ?thesis using step c by (simp add: fetch_exec_def)
qed

lemma fetch_reach_books: "fetch_reach us m \<Longrightarrow> books us m"
proof (induction rule: fetch_reach.induct)
  case (start h cs st)
  have "conn_slots c = [] \<and> conn_pieces c = []" if "c \<in> set (fresh_conns cs)" for c :: "request_factory \<times> 'b dispatcher"
    using that by (auto simp: fresh_conns_def factory_new_def dispatcher_new_def)
  then have none: "concat (map conn_slots (fresh_conns cs :: (request_factory \<times> 'b dispatcher) list)) = []"
      "concat (map conn_pieces (fresh_conns cs :: (request_factory \<times> 'b dispatcher) list)) = []"
      "\<forall>c\<in>set (fresh_conns cs :: (request_factory \<times> 'b dispatcher) list). conn_slots c = [] \<and> conn_pieces c = []"
    by simp_all
  show ?case unfolding books_def accounts_def fetching.select_convs none(1,2) using start none(3) by simp
next
  case (step m i ev m')
  then show ?case using fetch_exec_books [of us m i ev] by auto
qed

end
