(* ===== verification/FetchProgress.thy ===== *)
theory FetchProgress
  imports FetchRun
begin

text \<open>
  Progress of one connection: a peer that answers what it is asked for completes the pieces fetched
  from it in as many rounds as the blocks that are missing need.
\<close>

subsection \<open>Answers\<close>

lemma left_complete:
  assumes "piece_inv p"
  shows "left (completeBlock k p) = left p - {k}"
  using block_ops_views(1) [OF assms, of k] alike_countBlock [OF alike_ops(1) [of p k]] by (auto simp: left_def)

lemma block_arrived_slot:
  assumes ok: "conn_ok us rest f d h" and s: "s \<in> set (dp_requestSlots d)"
  shows "\<exists>d' h'. block_arrived (rs_index s) (rs_begin s) (rs_length s) (d, h) = Some (d', h') \<and> conn_ok us rest f d' h' \<and>
    (\<forall>a\<in>set us. left (h' a) = left (h a) - (if a = rs_piece s then {rs_blockIndex s} else {})) \<and>
    set (dp_requestSlots d) - {s} \<subseteq> set (dp_requestSlots d')"
proof -
  note c = conn_okD [OF ok]
  note acc = accountsD [OF c(1)]
  have idx: "rs_index s = rs_piece s" using acc(5) s by simp
  have a: "rs_piece s \<in> set us" using acc(3) s by simp
  have k: "rs_blockIndex s < countBlock (h (rs_piece s))" using acc(4) s by (simp add: slot_for_def)
  note found = getOutstandingRequest_found [OF c(1) s]
  show ?thesis
  proof (cases "rs_blockIndex s \<in> phaves (h (rs_piece s))")
    case True
    then have "block_arrived (rs_index s) (rs_begin s) (rs_length s) (d, h) = Some (d, h)"
      using found k by (simp add: block_arrived_def idx hasBlock_phaves)
    then show ?thesis using ok True by (auto simp: left_def)
  next
    case False
    define g where "g = on_piece (rs_piece s) (completeBlock (rs_blockIndex s)) h"
    have g: "accounts us (dp_requestSlots d @ rest) g" unfolding g_def by (rule accounts_complete [OF c(1) a])
    note rem = removeOutstandingRequest_spec [OF g s]
    have "conn_ok us rest f (d\<lparr>dp_requestSlots := filter (\<lambda>t. t \<noteq> s) (dp_requestSlots d)\<rparr>) (give_back [s] g)"
      using rem(2) c(2-5) by (auto simp: conn_ok_def)
    moreover have "left (give_back [s] g b) = left (h b) - (if b = rs_piece s then {rs_blockIndex s} else {})"
      if b: "b \<in> set us" for b
    proof -
      note gb = give_back_spec [of b g, OF accountsD(2) [OF g b], of "[s]"]
      have "left (give_back [s] g b) = left (g b)"
        using gb alike_countBlock [of "g b" "give_back [s] g b"] by (simp add: left_def)
      then show ?thesis using left_complete [of "h (rs_piece s)"] c(6) [OF a] by (simp add: g_def fetched_def)
    qed
    ultimately show ?thesis using found False k rem(1)
      by (simp add: block_arrived_def idx hasBlock_phaves g_def) blast
  qed
qed

fun deliver :: "request_slot list \<Rightarrow> 'x dispatcher \<times> 'h pieces \<Rightarrow> ('x dispatcher \<times> 'h pieces) option" where
  "deliver [] r = Some r"
| "deliver (s # ss) r = do { r \<leftarrow> block_arrived (rs_index s) (rs_begin s) (rs_length s) r; deliver ss r }"

lemma deliver_spec:
  assumes "conn_ok us rest f d h" and "set ss \<subseteq> set (dp_requestSlots d)" and "distinct ss"
  shows "\<exists>d' h'. deliver ss (d, h) = Some (d', h') \<and> conn_ok us rest f d' h' \<and>
    (\<forall>a\<in>set us. left (h' a) = left (h a) - blocks_of ss a)"
  using assms
proof (induction ss arbitrary: d h)
  case (Cons s ss)
  obtain d1 h1 where one: "block_arrived (rs_index s) (rs_begin s) (rs_length s) (d, h) = Some (d1, h1)"
      "conn_ok us rest f d1 h1"
      "\<And>a. a \<in> set us \<Longrightarrow> left (h1 a) = left (h a) - (if a = rs_piece s then {rs_blockIndex s} else {})"
      "set (dp_requestSlots d) - {s} \<subseteq> set (dp_requestSlots d1)"
    using block_arrived_slot [OF Cons.prems(1), of s] Cons.prems(2) by auto
  have "set ss \<subseteq> set (dp_requestSlots d1)" using Cons.prems(2,3) one(4) by auto
  from Cons.IH [OF one(2) this] Cons.prems(3)
  obtain d2 h2 where "deliver ss (d1, h1) = Some (d2, h2)" "conn_ok us rest f d2 h2"
      "\<And>a. a \<in> set us \<Longrightarrow> left (h2 a) = left (h1 a) - blocks_of ss a" by auto
  then show ?case using one(1,3) by auto
qed simp

subsection \<open>Rounds\<close>

text \<open>A round: up to \<open>n\<close> requests, and every outstanding request is answered.\<close>

definition fetch_round :: "int \<Rightarrow> nat \<Rightarrow> request_factory \<Rightarrow> 'x dispatcher \<times> 'h pieces \<Rightarrow> ('x dispatcher \<times> 'h pieces) option" where
  "fetch_round now n f = (\<lambda>(d, h). do {
     (requests, h) \<leftarrow> createRequestMessages (\<lambda>bs. bs) d n False f h;
     let d = queue_all now requests d;
     deliver (dp_requestSlots d) (d, h) })"

definition lacking :: "request_factory \<Rightarrow> 'h pieces \<Rightarrow> (nat \<times> nat) set" where
  "lacking f h = {(a, k). a \<in> set (rf_pieces f) \<and> k \<in> left (h a)}"

lemma finite_left [simp]: "finite (left p)"
  by (simp add: left_def)

lemma lacking_Sigma: "lacking f h = Sigma (set (rf_pieces f)) (\<lambda>a. left (h a))"
  by (auto simp: lacking_def)

lemma card_lacking:
  assumes "conn_ok us rest f d h"
  shows "rf_countMissingBlock h f = card (lacking f h)"
proof -
  note c = conn_okD [OF assms]
  have one: "piece_countMissingBlock (h a) = card (left (h a))" if "a \<in> set (rf_pieces f)" for a
  proof -
    have "fetched a (h a)" using that c(3,6) by blast
    then have "bm_inv (pc_bitfield (h a))" "missing (pc_bitfield (h a)) = left (h a)"
      by (simp_all add: fetched_def piece_inv_def missing_left)
    then show ?thesis by (simp add: piece_countMissingBlock_def cached_meaning(1) missing_def)
  qed
  have "fold (\<lambda>a n. n + piece_countMissingBlock (h a)) as m = m + sum_list (map (\<lambda>a. piece_countMissingBlock (h a)) as)" for as m
    by (induction as arbitrary: m) simp_all
  then have "rf_countMissingBlock h f = sum_list (map (\<lambda>a. card (left (h a))) (rf_pieces f))"
    using one by (simp add: rf_countMissingBlock_def cong: map_cong)
  then show ?thesis using c(2) by (simp add: lacking_Sigma sum_list_distinct_conv_sum_set)
qed

lemma fetch_round_spec:
  assumes ok: "conn_ok us rest f d h"
  shows "\<exists>d' h'. fetch_round now n f (d, h) = Some (d', h') \<and> conn_ok us rest f d' h' \<and>
    card (lacking f h') \<le> card (lacking f h) - n"
proof -
  note c = conn_okD [OF ok]
  obtain requests g where ask: "createRequestMessages (\<lambda>bs. bs) d n False f h = Some (requests, g)"
    by (simp add: createRequestMessages_def) (metis surj_pair)
  define e where "e = queue_all now requests d"
  define ps where "ps = take n (offers (rf_pieces f) h)"
  note a = ask_ok(1,2) [OF ok ask, folded ps_def] ask_ok(3,4) [OF ok ask, folded ps_def, where now = now, folded e_def]
  have dist: "distinct (dp_requestSlots e)"
    using accountsD(6) [OF conn_okD(1) [OF a(4)]] by (simp add: distinct_map)
  obtain d' h' where d: "deliver (dp_requestSlots e) (e, g) = Some (d', h')" "conn_ok us rest f d' h'"
      "\<And>b. b \<in> set us \<Longrightarrow> left (h' b) = left (g b) - blocks_of (dp_requestSlots e) b"
    using deliver_spec [OF a(4) subset_refl dist] by auto
  have l: "left (g b) = left (h b)" if "b \<in> set us" for b
    using a(2) that alike_countBlock [of "h b" "g b"] by (simp add: locked_def left_def)
  have idx: "pc_index (h b) = b" if "b \<in> set (rf_pieces f)" for b using c(7) that .
  have ps: "set ps \<subseteq> lacking f h"
    using set_take_subset [of n "offers (rf_pieces f) h"] by (auto simp: ps_def set_offers lacking_def)
  have slots: "blocks_of (dp_requestSlots e) b = blocks_of (dp_requestSlots d) b \<union> {k. (b, k) \<in> set ps}"
    if b: "b \<in> set (rf_pieces f)" for b
  proof -
    have "rs_piece (asked_slot now h p) = fst p" if "p \<in> set ps" for p
      using that ps idx by (cases p) (auto simp: lacking_def)
    then have "blocks_of (map (asked_slot now h) ps) b = {k. (b, k) \<in> set ps}"
      by (force simp: blocks_of_def)
    then show ?thesis by (simp add: a(3))
  qed
  have rest: "blocks_of rest b = {}" if "b \<in> set (rf_pieces f)" for b
    using c(5) that by (auto simp: blocks_of_def)
  have new: "lacking f h' = lacking f h - {(b, k). b \<in> set (rf_pieces f) \<and> k \<in> blocks_of (dp_requestSlots d) b} - set ps"
    using d(3) l slots c(3) by (auto simp: lacking_def)
  have fin: "finite (lacking f h)" by (simp add: lacking_Sigma)
  have "card (lacking f h') \<le> card (lacking f h) - n"
  proof (cases "n \<le> length (offers (rf_pieces f) h)")
    case True
    then have "card (set ps) = n"
      using distinct_card [of ps] distinct_offers [OF c(2), of h] by (simp add: ps_def min_def)
    moreover have "card (lacking f h') \<le> card (lacking f h - set ps)"
      unfolding new using fin by (intro card_mono) auto
    ultimately show ?thesis using card_Diff_subset [OF _ ps] by simp
  next
    case False
    then have all: "set ps = {(b, k). b \<in> set (rf_pieces f) \<and> k \<in> left (h b) - puses (h b)}"
      by (simp add: ps_def set_offers)
    have "k \<in> blocks_of (dp_requestSlots d) b" if "b \<in> set (rf_pieces f)" "k \<in> left (h b)" "k \<in> puses (h b)" for b k
      using accountsD(7) [OF c(1), of b] rest [OF that(1)] c(3) that by auto
    then have "lacking f h' = {}" unfolding new all by (auto simp: lacking_def)
    then show ?thesis by simp
  qed
  then show ?thesis using d(1,2) ask by (simp add: fetch_round_def e_def)
qed

primrec fetch_rounds ::
  "nat \<Rightarrow> int \<Rightarrow> nat \<Rightarrow> request_factory \<Rightarrow> 'x dispatcher \<times> 'h pieces \<Rightarrow> ('x dispatcher \<times> 'h pieces) option" where
  "fetch_rounds 0 now n f r = Some r"
| "fetch_rounds (Suc k) now n f r = do { r \<leftarrow> fetch_round now n f r; fetch_rounds k now n f r }"

lemma fetch_rounds_spec:
  assumes "conn_ok us rest f d h"
  shows "\<exists>d' h'. fetch_rounds k now n f (d, h) = Some (d', h') \<and> conn_ok us rest f d' h' \<and>
    card (lacking f h') \<le> card (lacking f h) - k * n"
  using assms
proof (induction k arbitrary: d h)
  case (Suc k)
  obtain d1 h1 where one: "fetch_round now n f (d, h) = Some (d1, h1)" "conn_ok us rest f d1 h1"
      "card (lacking f h1) \<le> card (lacking f h) - n"
    using fetch_round_spec [OF Suc.prems, of now n] by blast
  obtain d2 h2 where "fetch_rounds k now n f (d1, h1) = Some (d2, h2)" "conn_ok us rest f d2 h2"
      "card (lacking f h2) \<le> card (lacking f h1) - k * n"
    using Suc.IH [OF one(2)] by blast
  then show ?case using one by simp
qed simp

end
