(* ===== verification/DispatchProps.thy ===== *)
theory DispatchProps
  imports RequestProps BitfieldSearchProps "HOL-Library.Sublist"
begin

text \<open>
  Lemmas on the requests of the end game and on the message queue: what is sent, what is held back and
  what an event drops.
\<close>

subsection \<open>The end game\<close>

lemma missing_block_indexes_spec:
  assumes "fetched a p" and "0 < countBlock p"
  shows "\<exists>bs. missing_block_indexes p = Some bs \<and> set bs = left p \<and> distinct bs"
proof -
  let ?m = "pc_bitfield p"
  have sh: "bm_shape ?m" and nf: "\<not> bm_filterEnabled ?m"
    using assms(1) bm_invD(1) by (auto simp: fetched_def piece_inv_def)
  have b: "0 < bm_blocks ?m" using assms(2) by (simp add: countBlock_def)
  obtain out where out: "getAllMissingIndexes ?m (replicate (bm_bitfieldLength ?m) 0) = Some (out, missing ?m \<noteq> {})"
      "length out = bm_bitfieldLength ?m" "{i. i < 8 * length out \<and> bitat (array out) i} = missing ?m"
    using getAll_views(1) [OF sh b, of "replicate (bm_bitfieldLength ?m) 0"] by auto
  have "out ! (i div 8) AND bit_mask i \<noteq> 0 \<longleftrightarrow> bitat (array out) i" for i
    by (simp add: bitat_def array_def bit_mask_exp and_exp_eq_0_iff_not_bit)
  then have "missing_block_indexes p = Some (filter (\<lambda>i. bitat (array out) i) [0..<8 * length out])"
    using out(1,2) by (simp add: missing_block_indexes_def getAllMissingBlockIndexes_def Let_def)
  moreover have "set (filter (\<lambda>i. bitat (array out) i) [0..<8 * length out]) = left p"
    using out(3) missing_left [OF nf] by auto
  ultimately show ?thesis by simp
qed

text \<open>Blocks still to be asked for, up to a number of requests.\<close>

lemma endgame_requests_spec:
  "endgame_requests d p maxn bs requests = requests @ map (createRequestMessage p)
     (take (maxn - length requests) (filter (\<lambda>b. \<not> isOutstandingRequest d (pc_index p) b) bs))"
proof (induction bs arbitrary: requests)
  case (Cons b bs)
  show ?case
  proof (cases "length requests < maxn")
    case True
    then have "maxn - length requests = Suc (maxn - Suc (length requests))" by simp
    then show ?thesis using True by (simp add: Cons.IH)
  qed simp
qed simp

definition wanted :: "(nat list \<Rightarrow> nat list) \<Rightarrow> 'x dispatcher \<Rightarrow> 'h pieces \<Rightarrow> nat \<Rightarrow> (nat \<times> nat) list" where
  "wanted shuffle d h a = map (Pair a) (filter (\<lambda>b. \<not> isOutstandingRequest d (pc_index (h a)) b)
     (shuffle (the (missing_block_indexes (h a)))))"

lemma endgame_pieces_spec:
  assumes "\<And>a. a \<in> set as \<Longrightarrow> missing_block_indexes (h a) \<noteq> None"
  shows "endgame_pieces shuffle d h maxn as requests =
    Some (requests @ map (request_of h) (take (maxn - length requests) (concat (map (wanted shuffle d h) as))))"
  using assms
proof (induction as arbitrary: requests)
  case (Cons a as)
  show ?case
  proof (cases "length requests < maxn")
    case True
    obtain bs where bs: "missing_block_indexes (h a) = Some bs" using Cons.prems [of a] by auto
    let ?w = "filter (\<lambda>b. \<not> isOutstandingRequest d (pc_index (h a)) b) (shuffle bs)"
    have "wanted shuffle d h a = map (Pair a) ?w" by (simp add: wanted_def bs)
    then show ?thesis using True bs Cons
      by (cases "length ?w \<le> maxn - length requests")
        (simp_all add: endgame_requests_spec take_map comp_def diff_diff_left min_def)
  qed simp
qed simp

lemma endgame_spec:
  fixes d :: "'x dispatcher"
  assumes pieces: "distinct (rf_pieces f)" "\<And>a. a \<in> set (rf_pieces f) \<Longrightarrow> fetched a (h a) \<and> 0 < countBlock (h a)"
    and shuffle: "\<And>xs. mset (shuffle xs) = mset xs"
  defines "todo \<equiv> {(a, k). a \<in> set (rf_pieces f) \<and> k \<in> left (h a) \<and> \<not> isOutstandingRequest d a k}"
  shows "\<exists>ps. createRequestMessages shuffle d maxn True f h = Some (map (request_of h) ps, h) \<and> distinct ps \<and>
    set ps \<subseteq> todo \<and> length ps = min maxn (card todo)"
proof -
  have idx: "pc_index (h a) = a" if "a \<in> set (rf_pieces f)" for a using pieces(2) [OF that] by (simp add: fetched_def)
  have mb: "\<exists>bs. missing_block_indexes (h a) = Some bs \<and> set bs = left (h a) \<and> distinct bs" if "a \<in> set (rf_pieces f)" for a
    using missing_block_indexes_spec pieces(2) [OF that] by blast
  have sh: "set (shuffle xs) = set xs" "distinct (shuffle xs) = distinct xs" for xs :: "nat list"
    using mset_eq_setD [OF shuffle [of xs]] mset_eq_imp_distinct_iff [OF shuffle [of xs]] by simp_all
  define ws where "ws = concat (map (wanted shuffle d h) (rf_pieces f))"
  have w: "set (wanted shuffle d h a) = {(a, k) |k. k \<in> left (h a) \<and> \<not> isOutstandingRequest d a k} \<and>
      distinct (wanted shuffle d h a)" if "a \<in> set (rf_pieces f)" for a
    using mb [OF that] idx [OF that] sh by (auto simp: wanted_def distinct_map inj_on_def)
  have ws: "set ws = todo" using w by (auto simp: ws_def todo_def)
  have "distinct (concat (map (wanted shuffle d h) as))" if "distinct as" "set as \<subseteq> set (rf_pieces f)" for as
    using that w by (induction as) auto
  then have "distinct ws" using pieces(1) by (simp add: ws_def)
  have run: "createRequestMessages shuffle d maxn True f h = Some (map (request_of h) (take maxn ws), h)"
    using endgame_pieces_spec [of "rf_pieces f" h shuffle d maxn "[]"] mb by (fastforce simp: createRequestMessages_def ws_def)
  show ?thesis
  proof (intro exI conjI)
    show "createRequestMessages shuffle d maxn True f h = Some (map (request_of h) (take maxn ws), h)" by (rule run)
    show "distinct (take maxn ws)" using \<open>distinct ws\<close> by simp
    show "set (take maxn ws) \<subseteq> todo" using ws set_take_subset by fastforce
    show "length (take maxn ws) = min maxn (card todo)" using distinct_card [OF \<open>distinct ws\<close>] ws by (simp add: min.commute)
  qed
qed

subsection \<open>The queue\<close>

text \<open>What goes to the connection when everything is sent.\<close>

definition pending :: "bool \<Rightarrow> 'x dispatcher \<Rightarrow> 'x bt_message list" where
  "pending ext d = List.map_filter (send_message ext) (dp_messageQueue d)"

lemma send_message_simps:
  "send_message ext (queue_entry (Reject i b l)) = Some (Reject i b l)"
  "send_message ext (q\<lparr>qm_invalidate := True\<rparr>) = None"
  by (simp_all add: send_message_def queue_entry_def)

text \<open>An event drops the uploads that \<open>gone\<close> names.\<close>

lemma drop_uploads_spec:
  fixes d :: "'x dispatcher"
  assumes hit: "\<And>q. hit q \<longleftrightarrow> (\<exists>i b l. qm_message q = PieceBlock i b l \<and> \<not> qm_invalidate q \<and> gone i b l)"
  defines "out \<equiv> \<lambda>m. case m of PieceBlock i b l \<Rightarrow> gone i b l | _ \<Rightarrow> False"
  shows "pending ext (drop_uploads fast hit d) = filter (\<lambda>m. \<not> out m) (pending ext d) @
    (if fast then map rejection (filter out (pending ext d)) else [])"
proof -
  have keep: "List.map_filter (send_message ext) (map (\<lambda>m. if hit m then m\<lparr>qm_invalidate := True\<rparr> else m) qs) =
      filter (\<lambda>m. \<not> out m) (List.map_filter (send_message ext) qs)" for qs :: "'x queued list"
  proof (induction qs)
    case (Cons q qs)
    have "hit q \<Longrightarrow> send_message ext q = Some (qm_message q) \<and> out (qm_message q)"
      by (auto simp: hit send_message_def out_def)
    moreover have "\<not> hit q \<Longrightarrow> send_message ext q = Some m \<Longrightarrow> \<not> out m" for m
      by (auto simp: hit send_message_def out_def split: bt_message.splits if_splits)
    ultimately show ?case using Cons
      by (auto simp: List.map_filter_simps send_message_simps split: option.split)
  qed (simp add: List.map_filter_simps)
  have rej: "List.map_filter (send_message ext) (map (\<lambda>m. queue_entry (rejection (qm_message m))) (filter hit qs)) =
      map rejection (filter out (List.map_filter (send_message ext) qs))" for qs :: "'x queued list"
  proof (induction qs)
    case (Cons q qs)
    have "hit q \<Longrightarrow> send_message ext q = Some (qm_message q) \<and> out (qm_message q) \<and>
        send_message ext (queue_entry (rejection (qm_message q))) = Some (rejection (qm_message q))"
      by (auto simp: hit send_message_def out_def rejection_def queue_entry_def)
    moreover have "\<not> hit q \<Longrightarrow> send_message ext q = Some m \<Longrightarrow> \<not> out m" for m
      by (auto simp: hit send_message_def out_def split: bt_message.splits if_splits)
    ultimately show ?case using Cons by (auto simp: List.map_filter_simps split: option.split)
  qed (simp add: List.map_filter_simps)
  have app: "List.map_filter g (xs @ ys) = List.map_filter g xs @ List.map_filter g ys" for g and xs ys :: "'x queued list"
    by (simp add: List.map_filter_def)
  show ?thesis by (simp add: pending_def drop_uploads_def Let_def app keep rej List.map_filter_simps)
qed

lemma send_loop_spec:
  assumes "send_loop exceeds qs sent tempQueue = (out, held)"
  shows "\<exists>as bs. out = sent @ as \<and> held = tempQueue @ bs \<and> mset qs = mset as + mset bs \<and> subseq as qs \<and> subseq bs qs \<and>
    (\<forall>q\<in>set bs. isUploading (qm_message q))"
  using assms
proof (induction exceeds qs sent tempQueue rule: send_loop.induct)
  case (2 exceeds q qs sent tempQueue)
  show ?case
  proof (cases "isUploading (qm_message q) \<and> exceeds sent")
    case True
    then obtain as bs where "out = sent @ as" "held = (tempQueue @ [q]) @ bs" "mset qs = mset as + mset bs"
        "subseq as qs" "subseq bs qs" "\<forall>q\<in>set bs. isUploading (qm_message q)" using 2 by auto
    then show ?thesis using True by (intro exI [of _ as] exI [of _ "q # bs"]) auto
  next
    case False
    then obtain as bs where "out = (sent @ [q]) @ as" "held = tempQueue @ bs" "mset qs = mset as + mset bs"
        "subseq as qs" "subseq bs qs" "\<forall>q\<in>set bs. isUploading (qm_message q)" using 2 by auto
    then show ?thesis by (intro exI [of _ "q # as"] exI [of _ bs]) auto
  qed
qed simp

end
