(* ===== verification/FetchProperties.thy ===== *)
theory FetchProperties
  imports FetchProgress DispatchProps
begin

text \<open>Properties of the message dispatcher and the request factory.\<close>

subsection \<open>A small download: one piece of three blocks, two connections\<close>

definition small_piece :: "unit piece" where
  "small_piece = piece_new 0 40000 16384"

definition small_factory :: request_factory where
  "small_factory = \<lparr>rf_pieces = [0], rf_cuid = 1\<rparr>"

definition small_start :: "(unit, unit, unit) fetching" where
  "small_start = \<lparr>fg_conns = fresh_conns [(1, 60), (2, 60)], fg_pieces = (\<lambda>_. small_piece),
     fg_storage = pst_new 40000 40000 [0] [] [] False 0
       \<lparr>ws_cache = wc_new 0, ws_ents = (\<lambda>_. we_new 0), ws_disk = ()\<rparr>\<rparr>"

lemma small_fetched: "fetched 0 small_piece" "puses small_piece = {}" "phaves small_piece = {}" "countBlock small_piece = 3"
proof -
  have c: "countBlock small_piece = 3" by code_simp
  have "piece_inv small_piece" unfolding small_piece_def by (rule piece_new_inv) simp_all
  then show "fetched 0 small_piece" using c
    by (simp add: fetched_def small_piece_def piece_new_def bm_new_def updateCache_def Let_def)
  show "puses small_piece = {}" "phaves small_piece = {}" by (simp_all add: small_piece_def piece_new_def)
  show "countBlock small_piece = 3" by (rule c)
qed

lemma small_reach: "fetch_reach [0] small_start"
  unfolding small_start_def by (rule fetch_reach.start) (use small_fetched in simp_all)

lemma small_ok: "conn_ok [0] [] small_factory (dispatcher_new 1 60) (\<lambda>_. small_piece)"
  using small_fetched by (auto simp: conn_ok_def accounts_def small_factory_def dispatcher_new_def blocks_of_def)

text \<open>C33: the accounts of the blocks. In every state that connections reach outside the end game, by
  taking pieces, asking, receiving, being refused or choked, timing out, giving pieces up or finding
  them bad, in any order: no two of all outstanding requests are for the same block; every request
  names a block of a piece its connection fetches, with the right offset and length; a block that is
  missing is marked used exactly if some connection has asked for it, so none is lost and none is
  asked for twice; and no legal step fails.\<close>

theorem block_accounting:
  assumes "fetch_reach us m"
  shows "distinct (map (\<lambda>s. (rs_index s, rs_blockIndex s)) (all_slots m)) \<and>
    (\<forall>(f, d)\<in>set (fg_conns m). \<forall>s\<in>set (dp_requestSlots d). let p = fg_pieces m (rs_index s) in
       rs_index s \<in> set (rf_pieces f) \<and> rs_blockIndex s < countBlock p \<and>
       rs_begin s = int (rs_blockIndex s) * bm_blockLength (pc_bitfield p) \<and>
       rs_length s = int32_of (piece_getBlockLength p (rs_blockIndex s))) \<and>
    (\<forall>a\<in>set us. \<forall>k. hasBlock (fg_pieces m a) k = Some False \<longrightarrow>
       isBlockUsed (fg_pieces m a) k = Some (\<exists>(f, d)\<in>set (fg_conns m). isOutstandingRequest d a k)) \<and>
    (\<forall>i ev. i < length (fg_conns m) \<longrightarrow> fetch_legal us i ev m \<longrightarrow>
       (\<exists>m'. fetch_exec i ev m = Some m' \<and> fetch_reach us m'))"
proof (intro conjI allI ballI impI)
  have b: "books us m" by (rule fetch_reach_books [OF assms])
  then have acc: "accounts us (all_slots m) (fg_pieces m)" by (simp add: books_def)
  note d = accountsD [OF acc]
  have "map (\<lambda>s. (rs_index s, rs_blockIndex s)) (all_slots m) = map (\<lambda>s. (rs_piece s, rs_blockIndex s)) (all_slots m)"
    using d(5) by (intro map_cong refl) simp
  then show "distinct (map (\<lambda>s. (rs_index s, rs_blockIndex s)) (all_slots m))" using d(6) by (simp only:)
  fix c assume c: "c \<in> set (fg_conns m)"
  show "case c of (f, dp) \<Rightarrow> \<forall>s\<in>set (dp_requestSlots dp). let p = fg_pieces m (rs_index s) in
       rs_index s \<in> set (rf_pieces f) \<and> rs_blockIndex s < countBlock p \<and>
       rs_begin s = int (rs_blockIndex s) * bm_blockLength (pc_bitfield p) \<and>
       rs_length s = int32_of (piece_getBlockLength p (rs_blockIndex s))"
  proof (cases c)
    case (Pair f dp)
    have "s \<in> set (all_slots m) \<and> rs_piece s \<in> set (rf_pieces f)" if "s \<in> set (dp_requestSlots dp)" for s
      using b c Pair that by (force simp: books_def)
    then show ?thesis using Pair d(4,5) by (auto simp: slot_for_def Let_def)
  qed
next
  have acc: "accounts us (all_slots m) (fg_pieces m)" using fetch_reach_books [OF assms] by (simp add: books_def)
  note d = accountsD [OF acc]
  fix a k assume a: "a \<in> set us" and k: "hasBlock (fg_pieces m a) k = Some False"
  have kl: "k \<in> left (fg_pieces m a)"
    using k by (auto simp: hasBlock_def isBitSet_haves left_def countBlock_def split: if_splits)
  have "(\<exists>(f, dp)\<in>set (fg_conns m). isOutstandingRequest dp a k) \<longleftrightarrow> k \<in> blocks_of (all_slots m) a"
  proof -
    have "(\<exists>(f, dp)\<in>set (fg_conns m). isOutstandingRequest dp a k) \<longleftrightarrow>
        (\<exists>s\<in>set (all_slots m). rs_index s = a \<and> rs_blockIndex s = k)"
      by (simp add: isOutstandingRequest_def split_beta)
    also have "\<dots> \<longleftrightarrow> (\<exists>s\<in>set (all_slots m). rs_piece s = a \<and> rs_blockIndex s = k)"
      using d(5) by (intro bex_cong refl) simp
    finally show ?thesis by (auto simp: blocks_of_def)
  qed
  moreover have "k \<in> puses (fg_pieces m a) \<longleftrightarrow> k \<in> blocks_of (all_slots m) a" using d(7) [OF a] kl by blast
  ultimately show "isBlockUsed (fg_pieces m a) k = Some (\<exists>(f, dp)\<in>set (fg_conns m). isOutstandingRequest dp a k)"
    using kl by (simp add: isBlockUsed_def isUseBitSet_uses left_def countBlock_def)
next
  fix i ev assume "i < length (fg_conns m)" "fetch_legal us i ev m"
  then show "\<exists>m'. fetch_exec i ev m = Some m' \<and> fetch_reach us m'"
    using fetch_exec_books [OF fetch_reach_books [OF assms]] fetch_reach.step [OF assms] by blast
qed

theorem block_accounting_witness:
  "\<exists>m m'. fetch_exec 0 (Fetch 0) small_start = Some m \<and> fetch_exec 0 (Ask 5 2) m = Some m' \<and>
    distinct (map (\<lambda>s. (rs_index s, rs_blockIndex s)) (all_slots m'))"
proof -
  have n: "length (fg_conns small_start) = 2" by (simp add: small_start_def fresh_conns_def)
  have l: "fetch_legal [0] 0 (Fetch 0) small_start"
    by (auto simp: small_start_def fresh_conns_def factory_new_def)
  have "\<exists>m. fetch_exec 0 (Fetch 0) small_start = Some m \<and> fetch_reach [0] m"
    using block_accounting [OF small_reach] n l by (elim conjE) simp
  then obtain m where m: "fetch_exec 0 (Fetch 0) small_start = Some m" "fetch_reach [0] m" by blast
  have "0 < length (fg_conns m)"
    using fetch_exec_books [OF fetch_reach_books [OF small_reach], of 0 "Fetch 0"] n l m(1) by auto
  then have "\<exists>m'. fetch_exec 0 (Ask 5 2) m = Some m' \<and> fetch_reach [0] m'"
    using block_accounting [OF m(2)] by (elim conjE) simp
  then obtain m' where m': "fetch_exec 0 (Ask 5 2) m = Some m'" "fetch_reach [0] m'" by blast
  show ?thesis using m(1) m'(1) block_accounting [OF m'(2)] by blast
qed

text \<open>C34: progress. Let a connection with sound accounts ask for up to \<open>n > 0\<close> blocks a round, and let
  the peer answer all that is outstanding. Then the pieces the connection fetches are complete after
  as many rounds as \<open>n\<close> divides their missing blocks into, and the next sweep leaves it without target
  pieces and without requests.\<close>

theorem peer_that_answers_completes:
  assumes "conn_ok us rest f d h" and "0 < n" and "rf_countMissingBlock h f \<le> k * n"
  shows "\<exists>d' h'. fetch_rounds k now n f (d, h) = Some (d', h') \<and> (\<forall>a\<in>set (rf_pieces f). pieceComplete (h' a)) \<and>
    (\<exists>f'' d'' h''. removeCompletedPiece f (d', h') = (f'', d'', h'') \<and> countTargetPiece f'' = 0 \<and>
       countOutstandingRequest d'' = 0)"
proof -
  obtain d' h' where r: "fetch_rounds k now n f (d, h) = Some (d', h')" "conn_ok us rest f d' h'"
      "card (lacking f h') \<le> card (lacking f h) - k * n"
    using fetch_rounds_spec [OF assms(1)] by blast
  have "card (lacking f h') = 0" using r(3) card_lacking [OF assms(1)] assms(3) by simp
  then have none: "lacking f h' = {}" by (auto simp: lacking_Sigma)
  have complete: "pieceComplete (h' a)" if "a \<in> set (rf_pieces f)" for a
    using none that pieceComplete_left [of a "h' a"] conn_okD(3,6) [OF r(2)] by (auto simp: lacking_def)
  obtain f'' d'' h'' where sw: "removeCompletedPiece f (d', h') = (f'', d'', h'')" by (rule prod_cases3)
  note s = removeCompleted_ok [OF r(2) sw]
  have "rf_pieces f'' = []" using s(2) complete by simp
  moreover have "dp_requestSlots d'' = []" using conn_okD(4) [OF s(1)] calculation by simp
  ultimately show ?thesis using r(1) complete sw by (auto simp: countTargetPiece_def countOutstandingRequest_def)
qed

theorem peer_that_answers_completes_witness:
  "\<exists>d' h'. fetch_rounds 2 5 2 small_factory (dispatcher_new 1 60 :: unit dispatcher, \<lambda>_. small_piece) = Some (d', h') \<and>
    pieceComplete (h' 0)"
proof -
  have "rf_countMissingBlock (\<lambda>_. small_piece) small_factory = 3" by code_simp
  then show ?thesis using peer_that_answers_completes [OF small_ok, of 2 2 5] by (auto simp: small_factory_def)
qed

text \<open>C35: the end game. The requests made then are for distinct missing blocks of the target pieces that
  this connection has not asked for, in any order a shuffle gives, as many as allowed or all there
  are; no block is marked used, so that other connections may ask for the same blocks.\<close>

theorem end_game_requests:
  assumes "distinct (rf_pieces f)" and "\<forall>a\<in>set (rf_pieces f). fetched a (h a) \<and> 0 < countBlock (h a)"
    and "\<forall>xs. mset (shuffle xs) = mset xs"
  shows "\<exists>ps. createRequestMessages shuffle d maxn True f h = Some (map (request_of h) ps, h) \<and> distinct ps \<and>
    (\<forall>(a, k)\<in>set ps. a \<in> set (rf_pieces f) \<and> hasBlock (h a) k = Some False \<and> \<not> isOutstandingRequest d a k) \<and>
    length ps = min maxn (card {(a, k). a \<in> set (rf_pieces f) \<and> hasBlock (h a) k = Some False \<and>
      \<not> isOutstandingRequest d a k})"
proof -
  have left: "k \<in> left (h a) \<longleftrightarrow> hasBlock (h a) k = Some False" for a k
    by (auto simp: hasBlock_def isBitSet_haves left_def countBlock_def)
  show ?thesis using endgame_spec [of f h shuffle d maxn] assms unfolding left by (auto simp: subset_iff)
qed

theorem end_game_requests_witness:
  "\<exists>ps. createRequestMessages rev (dispatcher_new 1 60) 2 True small_factory (\<lambda>_. small_piece) =
      Some (map (request_of (\<lambda>_. small_piece)) ps, \<lambda>_. small_piece) \<and> distinct ps"
  using end_game_requests [of small_factory "\<lambda>_. small_piece" rev "dispatcher_new 1 60" 2] small_fetched
  by (auto simp: small_factory_def)

text \<open>C36: the upload queue. Choking a peer takes out of what would be sent exactly the piece messages of
  pieces it is not allowed while choked, a cancel exactly those of the block; each is answered by a
  reject, in order, if the peer has the fast extension, and everything else stays in its place.
  Sending holds back nothing but uploads, keeps the order, and loses and invents no message.\<close>

theorem upload_queue:
  fixes d :: "'x dispatcher"
  shows "(let out = (\<lambda>m. case m of PieceBlock i b l \<Rightarrow> \<not> amAllowed i | _ \<Rightarrow> False) in
      pending ext (doChokingAction fast amAllowed d) = filter (\<lambda>m. \<not> out m) (pending ext d) @
        (if fast then map rejection (filter out (pending ext d)) else [])) \<and>
    (let out = (\<lambda>m. case m of PieceBlock i b l \<Rightarrow> i = index \<and> b = begin' \<and> l = len | _ \<Rightarrow> False) in
      pending ext (doCancelSendingPieceAction fast index begin' len d) = filter (\<lambda>m. \<not> out m) (pending ext d) @
        (if fast then map rejection (filter out (pending ext d)) else [])) \<and>
    (let (d', sent) = sendMessagesInternal exceeds d in
      mset (dp_messageQueue d) = mset sent + mset (dp_messageQueue d') \<and> subseq sent (dp_messageQueue d) \<and>
      subseq (dp_messageQueue d') (dp_messageQueue d) \<and> set (dp_messageQueue d') \<subseteq> {q. isUploading (qm_message q)} \<and>
      dp_requestSlots d' = dp_requestSlots d)"
proof (intro conjI)
  show "let out = (\<lambda>m. case m of PieceBlock i b l \<Rightarrow> \<not> amAllowed i | _ \<Rightarrow> False) in
      pending ext (doChokingAction fast amAllowed d) = filter (\<lambda>m. \<not> out m) (pending ext d) @
        (if fast then map rejection (filter out (pending ext d)) else [])"
    unfolding Let_def doChokingAction_def
    by (rule drop_uploads_spec) (auto simp: onChokingEvent_def split: bt_message.splits)
  show "let out = (\<lambda>m. case m of PieceBlock i b l \<Rightarrow> i = index \<and> b = begin' \<and> l = len | _ \<Rightarrow> False) in
      pending ext (doCancelSendingPieceAction fast index begin' len d) = filter (\<lambda>m. \<not> out m) (pending ext d) @
        (if fast then map rejection (filter out (pending ext d)) else [])"
    unfolding Let_def doCancelSendingPieceAction_def
    by (rule drop_uploads_spec) (auto simp: onCancelSendingPieceEvent_def split: bt_message.splits)
  obtain sent held where r: "send_loop exceeds (dp_messageQueue d) [] [] = (sent, held)" by fastforce
  from send_loop_spec [OF r] show "let (d', sent) = sendMessagesInternal exceeds d in
      mset (dp_messageQueue d) = mset sent + mset (dp_messageQueue d') \<and> subseq sent (dp_messageQueue d) \<and>
      subseq (dp_messageQueue d') (dp_messageQueue d) \<and> set (dp_messageQueue d') \<subseteq> {q. isUploading (qm_message q)} \<and>
      dp_requestSlots d' = dp_requestSlots d"
    using r by (auto simp: sendMessagesInternal_def)
qed

end
