(* ===== verification/Received.thy ===== *)
theory Received
  imports Choke FetchRun
begin

text \<open>
  What a received message does: \<open>doReceivedAction\<close> of every message class of the peer protocol, on
  the state of one connection and on what it shares with the others, the piece storage and the peers in
  use. A handler that throws gives the error with the state at that point; \<open>None\<close> is a failed assertion
  or a null pointer. Pieces are addressed by index: \<open>pieces_of\<close> looks them up as \<open>getPiece\<close> does
  and \<open>sync\<close> stores what was changed. Extension messages and the DHT tasks of a port message are left
  out, as are the hooks of the download context when the last piece arrives and the list of bad peers.
\<close>

subsection \<open>State\<close>

text \<open>What does not change: the clock, the mode, the download context and the environment.\<close>

record ('h, 'd) session_env =
  sv_now :: int
  sv_cuid :: int
  sv_metadataGetMode :: bool
  sv_pieceLength :: nat
  sv_digest :: "'h digest_ops"
  sv_pieceHash :: "nat \<Rightarrow> byte list"
  sv_reader :: "'d reader"
  sv_write :: "'d write_to"
  sv_leecherRound :: "int \<Rightarrow> choke_state \<Rightarrow> peer list \<Rightarrow> (choke_state \<times> peer list) option"
  sv_seederRound :: "int \<Rightarrow> choke_state \<Rightarrow> peer list \<Rightarrow> (choke_state \<times> peer list) option"

record ('h, 'x, 'd) session =
  se_peers :: "peer list"
  se_self :: nat
  se_leecher :: choke_state
  se_seeder :: choke_state
  se_dispatcher :: "'x dispatcher"
  se_factory :: request_factory
  se_storage :: "('h, 'd) piece_storage"
  se_netStat :: net_stat
  se_overallStat :: net_stat

datatype received_error =
    FastDisabled
  | GoodByeSeeder
  | BadPieceHash
  | CacheFlushFailure error_code
  | DiskError error_code

type_synonym ('h, 'x, 'd) received_result = "(('h, 'x, 'd) session \<times> received_error option) option"

definition self_peer :: "('h, 'x, 'd) session \<Rightarrow> peer" where
  "self_peer s = se_peers s ! se_self s"

definition on_self :: "(peer \<Rightarrow> peer option) \<Rightarrow> ('h, 'x, 'd) session \<Rightarrow> ('h, 'x, 'd) session option" where
  "on_self f s = map_option (\<lambda>ps. s\<lparr>se_peers := ps\<rparr>) (on_peer (se_self s) f (se_peers s))"

definition pieces_of :: "('h, 'd) piece_storage \<Rightarrow> 'h pieces" where
  "pieces_of st = (\<lambda>a. case getPiece st a of Some (Some p) \<Rightarrow> p | _ \<Rightarrow> piece_new a 0 BLOCK_LENGTH)"

definition sync :: "'h pieces \<Rightarrow> ('h, 'd) piece_storage \<Rightarrow> ('h, 'd) piece_storage" where
  "sync h st = st\<lparr>pst_used := map (\<lambda>p. h (pc_index p)) (pst_used st)\<rparr>"

definition queue_message :: "('h, 'd) session_env \<Rightarrow> 'x bt_message \<Rightarrow> ('h, 'x, 'd) session \<Rightarrow> ('h, 'x, 'd) session" where
  "queue_message e m s = s\<lparr>se_dispatcher := addMessageToQueue (sv_now e) (\<lambda>index. index) m (se_dispatcher s)\<rparr>"

text \<open>\<open>DefaultPeerStorage::executeChoke\<close>; the rounds are those of the two choke classes.\<close>

definition executeChoke :: "('h, 'd) session_env \<Rightarrow> ('h, 'x, 'd) session \<Rightarrow> ('h, 'x, 'd) session option" where
  "executeChoke e s =
     (if downloadFinished (se_storage s)
      then map_option (\<lambda>(ch, ps). s\<lparr>se_seeder := ch, se_peers := ps\<rparr>) (sv_seederRound e (sv_now e) (se_seeder s) (se_peers s))
      else map_option (\<lambda>(ch, ps). s\<lparr>se_leecher := ch, se_peers := ps\<rparr>) (sv_leecherRound e (sv_now e) (se_leecher s) (se_peers s)))"

subsection \<open>State of the peer\<close>

definition good_bye_seeder :: "('h, 'x, 'd) session \<Rightarrow> received_error option" where
  "good_bye_seeder s = (if pr_seeder (self_peer s) \<and> downloadFinished (se_storage s) then Some GoodByeSeeder else None)"

definition received_choke :: "('h, 'x, 'd) session \<Rightarrow> ('h, 'x, 'd) received_result" where
  "received_choke s = do {
     s \<leftarrow> on_self (peer_setPeerChoking True) s;
     fastSet \<leftarrow> getPeerAllowedIndexSet (self_peer s);
     let allowed = (\<lambda>i. i \<in> set fastSet);
     let (d, h) = dp_doChokedAction allowed (se_dispatcher s, pieces_of (se_storage s));
     let (f, h, st) = rf_doChokedAction storage_cancel allowed (se_factory s) (h, sync h (se_storage s));
     Some (s\<lparr>se_dispatcher := d, se_factory := f, se_storage := st\<rparr>, None) }"

definition received_unchoke :: "('h, 'x, 'd) session \<Rightarrow> ('h, 'x, 'd) received_result" where
  "received_unchoke s = map_option (\<lambda>s. (s, None)) (on_self (peer_setPeerChoking False) s)"

definition received_interested :: "('h, 'd) session_env \<Rightarrow> ('h, 'x, 'd) session \<Rightarrow> ('h, 'x, 'd) received_result" where
  "received_interested e s = do {
     s \<leftarrow> on_self (peer_setPeerInterested True) s;
     choking \<leftarrow> peer_amChoking (self_peer s);
     map_option (\<lambda>s. (s, None)) (if choking then executeChoke e s else Some s) }"

definition received_not_interested :: "('h, 'd) session_env \<Rightarrow> ('h, 'x, 'd) session \<Rightarrow> ('h, 'x, 'd) received_result" where
  "received_not_interested e s = do {
     s \<leftarrow> on_self (peer_setPeerInterested False) s;
     choking \<leftarrow> peer_amChoking (self_peer s);
     map_option (\<lambda>s. (s, None)) (if \<not> choking then executeChoke e s else Some s) }"

definition received_have :: "nat \<Rightarrow> ('h, 'x, 'd) session \<Rightarrow> ('h, 'x, 'd) received_result" where
  "received_have index s = do {
     has \<leftarrow> peer_hasPiece (self_peer s) index;
     if has then Some (s, None)
     else do {
       s \<leftarrow> on_self (peer_updateBitfield index 1) s;
       let s = s\<lparr>se_storage := pst_addPieceStat index (se_storage s)\<rparr>;
       Some (s, good_bye_seeder s) } }"

definition received_bitfield :: "byte list \<Rightarrow> ('h, 'x, 'd) session \<Rightarrow> ('h, 'x, 'd) received_result" where
  "received_bitfield bitfield s = do {
     old \<leftarrow> peer_getBitfield (self_peer s);
     let s = s\<lparr>se_storage := pst_updatePieceStats bitfield old (se_storage s)\<rparr>;
     s \<leftarrow> on_self (peer_setBitfield bitfield) s;
     Some (s, good_bye_seeder s) }"

text \<open>The messages of the fast extension throw when it is off, before anything else.\<close>

definition when_fast :: "('h, 'x, 'd) session \<Rightarrow> ('h, 'x, 'd) received_result \<Rightarrow> ('h, 'x, 'd) received_result" where
  "when_fast s r = do {
     fast \<leftarrow> peer_isFastExtensionEnabled (self_peer s);
     if fast then r else Some (s, Some FastDisabled) }"

definition received_have_all :: "('h, 'x, 'd) session \<Rightarrow> ('h, 'x, 'd) received_result" where
  "received_have_all s = do {
     old \<leftarrow> peer_getBitfield (self_peer s);
     let s = s\<lparr>se_storage := pst_subtractPieceStats old (se_storage s)\<rparr>;
     s \<leftarrow> on_self peer_setAllBitfield s;
     all \<leftarrow> peer_getBitfield (self_peer s);
     let s = s\<lparr>se_storage := pst_addPieceStats all (se_storage s)\<rparr>;
     Some (s, good_bye_seeder s) }"

definition received_allowed_fast :: "nat \<Rightarrow> ('h, 'x, 'd) session \<Rightarrow> ('h, 'x, 'd) received_result" where
  "received_allowed_fast index s = map_option (\<lambda>s. (s, None)) (on_self (addPeerAllowedIndex index) s)"

subsection \<open>Requests\<close>

definition received_request ::
  "('h, 'd) session_env \<Rightarrow> nat \<Rightarrow> int \<Rightarrow> int \<Rightarrow> ('h, 'x, 'd) session \<Rightarrow> ('h, 'x, 'd) received_result" where
  "received_request e index begin' len s = do {
     has \<leftarrow> hasPiece (se_storage s) index;
     choking \<leftarrow> peer_amChoking (self_peer s);
     allowed \<leftarrow> isInAmAllowedIndexSet (self_peer s) index;
     fast \<leftarrow> peer_isFastExtensionEnabled (self_peer s);
     Some (if has \<and> (\<not> choking \<or> allowed) then queue_message e (PieceBlock index begin' len) s
           else if fast then queue_message e (Reject index begin' len) s
           else s, None) }"

definition received_cancel :: "nat \<Rightarrow> int \<Rightarrow> int \<Rightarrow> ('h, 'x, 'd) session \<Rightarrow> ('h, 'x, 'd) received_result" where
  "received_cancel index begin' len s = do {
     fast \<leftarrow> peer_isFastExtensionEnabled (self_peer s);
     Some (s\<lparr>se_dispatcher := doCancelSendingPieceAction fast index begin' len (se_dispatcher s)\<rparr>, None) }"

definition received_reject :: "nat \<Rightarrow> int \<Rightarrow> int \<Rightarrow> ('h, 'x, 'd) session \<Rightarrow> ('h, 'x, 'd) received_result" where
  "received_reject index begin' len s =
     (let (d, h) = block_refused index begin' len (se_dispatcher s, pieces_of (se_storage s))
      in Some (s\<lparr>se_dispatcher := d, se_storage := sync h (se_storage s)\<rparr>, None))"

subsection \<open>Blocks\<close>

text \<open>The data goes to the write cache entry of the piece, or to the disk if it has none.\<close>

definition write_block ::
  "('h, 'd) session_env \<Rightarrow> byte list \<Rightarrow> int \<Rightarrow> 'h piece \<Rightarrow> ('h, 'd) piece_storage \<Rightarrow>
     (('h, 'd) piece_storage \<times> error_code option) option" where
  "write_block e data offset p st =
     (if pc_wrCache p \<noteq> None
      then map_option (\<lambda>c. (st\<lparr>pst_cache := c\<rparr>, None))
        (updateWrCache (sv_write e) (pst_hasCache st) data 0 (length data) (length data) offset p (pst_cache st))
      else let (disk, err) = sv_write e (pst_adaptor st) data offset (ws_disk (pst_cache st))
        in Some (st\<lparr>pst_cache := (pst_cache st)\<lparr>ws_disk := disk\<rparr>\<rparr>, err))"

definition clear_piece ::
  "('h, 'd) session_env \<Rightarrow> 'h piece \<Rightarrow> ('h, 'd) piece_storage \<Rightarrow> (('h, 'd) piece_storage \<times> 'h piece) option" where
  "clear_piece e p st = do {
     (p, c) \<leftarrow> clearAllBlock (sv_write e) (pst_hasCache st) p (pst_cache st);
     Some (put_used p (st\<lparr>pst_cache := c\<rparr>), p) }"

text \<open>\<open>Inl\<close> tells whether the hash is right, \<open>Inr\<close> is an error of the disk.\<close>

definition checkPieceHash ::
  "('h, 'd) session_env \<Rightarrow> 'h piece \<Rightarrow> ('h, 'd) piece_storage \<Rightarrow>
     (('h, 'd) piece_storage \<times> 'h piece \<times> (bool + error_code)) option" where
  "checkPieceHash e p st =
     (if isHashCalculated p
      then let (p, digest) = getDigest (sv_digest e) p
        in Some (put_used p st, p, Inl (digest = sv_pieceHash e (pc_index p)))
      else
        let c = pst_cache st;
            (disk, r) = getDigestWithWrCache (sv_digest e) (sv_reader e) (sv_pieceLength e)
              (map_option (\<lambda>ent. we_set (ws_ents c ent)) (pc_wrCache p)) p (ws_disk c);
            st = st\<lparr>pst_cache := c\<lparr>ws_disk := disk\<rparr>\<rparr>
        in case r of
             Inl digest \<Rightarrow> Some (st, p, Inl (digest = sv_pieceHash e (pc_index p)))
           | Inr err \<Rightarrow> do { (st, p) \<leftarrow> clear_piece e p st; Some (st, p, Inr err) })"

definition onNewPiece ::
  "('h, 'd) session_env \<Rightarrow> 'h piece \<Rightarrow> ('h, 'd) piece_storage \<Rightarrow>
     (('h, 'd) piece_storage \<times> received_error option) option" where
  "onNewPiece e p st = do {
     (st, failed) \<leftarrow> (case pc_wrCache p of
         None \<Rightarrow> Some (st, None)
       | Some ent \<Rightarrow> do {
           c \<leftarrow> flushWrCache (sv_write e) (pst_hasCache st) p (pst_cache st);
           let st = st\<lparr>pst_cache := c\<rparr>;
           if we_error (ws_ents c ent)
           then do { (st, p) \<leftarrow> clear_piece e p st; Some (st, Some (CacheFlushFailure (we_errorCode (ws_ents (pst_cache st) ent)))) }
           else Some (st, None) });
     case failed of
       Some err \<Rightarrow> Some (st, Some err)
     | None \<Rightarrow>
         let (st, p, finished) = completePiece p st
         in Some (advertisePiece (sv_cuid e) (pc_index p) (sv_now e) st, None) }"

definition onWrongPiece ::
  "('h, 'd) session_env \<Rightarrow> 'h piece \<Rightarrow> ('h, 'x, 'd) session \<Rightarrow> ('h, 'x, 'd) session option" where
  "onWrongPiece e p s = do {
     (st, p) \<leftarrow> clear_piece e p (se_storage s);
     let st = put_used (destroyHashContext p) st;
     let (f, d, h, st) = removeTargetPiece storage_cancel (pc_index p) (se_factory s) (se_dispatcher s) (pieces_of st, st);
     Some (s\<lparr>se_factory := f, se_dispatcher := d, se_storage := st\<rparr>) }"

definition piece_finished ::
  "('h, 'd) session_env \<Rightarrow> nat \<Rightarrow> ('h, 'x, 'd) session \<Rightarrow> ('h, 'x, 'd) received_result" where
  "piece_finished e index s = do {
     (st, p, r) \<leftarrow> checkPieceHash e (pieces_of (se_storage s) index) (se_storage s);
     let s = s\<lparr>se_storage := st\<rparr>;
     case r of
       Inr err \<Rightarrow> Some (s, Some (DiskError err))
     | Inl True \<Rightarrow> do { (st, err) \<leftarrow> onNewPiece e p st; Some (s\<lparr>se_storage := st\<rparr>, err) }
     | Inl False \<Rightarrow> do { s \<leftarrow> onWrongPiece e p s; Some (s, Some BadPieceHash) } }"

text \<open>A block that was asked for and is not there yet.\<close>

definition new_block ::
  "('h, 'd) session_env \<Rightarrow> nat \<Rightarrow> int \<Rightarrow> byte list \<Rightarrow> request_slot \<Rightarrow> 'h piece \<Rightarrow> ('h, 'x, 'd) session \<Rightarrow>
     ('h, 'x, 'd) received_result" where
  "new_block e index begin' data slot p s = do {
     (st, err) \<leftarrow> write_block e data (int index * int (sv_pieceLength e) + begin') p (se_storage s);
     case err of
       Some code \<Rightarrow> Some (s\<lparr>se_storage := st\<rparr>, Some (DiskError code))
     | None \<Rightarrow>
         let p = fst (updateHash (sv_digest e) begin' data (completeBlock (rs_blockIndex slot) p));
             st = put_used p st;
             (d, h) = removeOutstandingRequest slot (se_dispatcher s, (pieces_of st)(index := p));
             s = s\<lparr>se_dispatcher := d, se_storage := sync h st\<rparr>
         in if pieceComplete (h index) then piece_finished e index s else Some (s, None) }"

definition received_piece ::
  "('h, 'd) session_env \<Rightarrow> nat \<Rightarrow> int \<Rightarrow> byte list \<Rightarrow> ('h, 'x, 'd) session \<Rightarrow> ('h, 'x, 'd) received_result" where
  "received_piece e index begin' data s = do {
     let blockLength = int (length data);
     let slot = getOutstandingRequest (se_dispatcher s) index begin' blockLength;
     s \<leftarrow> on_self (peer_updateDownload (sv_now e) blockLength) s;
     let s = s\<lparr>se_netStat := ns_updateDownload (sv_now e) (length data) (se_netStat s),
           se_overallStat := ns_updateDownload (sv_now e) (length data) (se_overallStat s)\<rparr>;
     case slot of
       None \<Rightarrow> Some (s, None)
     | Some slot \<Rightarrow> do {
         s \<leftarrow> on_self (peer_setSnubbing False) s;
         found \<leftarrow> getPiece (se_storage s) index;
         p \<leftarrow> found;
         has \<leftarrow> hasBlock p (rs_blockIndex slot);
         if has then Some (s, None) else new_block e index begin' data slot p s } }"

subsection \<open>All messages\<close>

text \<open>\<open>data\<close> is the payload of a piece message after its header.\<close>

definition doReceivedAction ::
  "('h, 'd) session_env \<Rightarrow> 'x bt_message \<Rightarrow> byte list \<Rightarrow> ('h, 'x, 'd) session \<Rightarrow> ('h, 'x, 'd) received_result" where
  "doReceivedAction e msg data s =
     (let active = (\<lambda>r. if sv_metadataGetMode e then Some (s, None) else r) in
      case msg of
        Choke \<Rightarrow> active (received_choke s)
      | Unchoke \<Rightarrow> active (received_unchoke s)
      | Interested \<Rightarrow> active (received_interested e s)
      | NotInterested \<Rightarrow> active (received_not_interested e s)
      | Have index \<Rightarrow> active (received_have index s)
      | Bits bitfield \<Rightarrow> active (received_bitfield bitfield s)
      | Request index begin' len blockIndex \<Rightarrow> active (received_request e index begin' len s)
      | PieceBlock index begin' blockLength \<Rightarrow> active (received_piece e index begin' data s)
      | Cancel index begin' len \<Rightarrow> active (received_cancel index begin' len s)
      | HaveAll \<Rightarrow> when_fast s (active (received_have_all s))
      | HaveNone \<Rightarrow> when_fast s (Some (s, None))
      | Reject index begin' len \<Rightarrow> when_fast s (active (received_reject index begin' len s))
      | AllowedFast index \<Rightarrow> when_fast s (active (received_allowed_fast index s))
      | _ \<Rightarrow> Some (s, None))"

end
