(* ===== verification/Interactive.thy ===== *)
theory Interactive
  imports Received
begin

text \<open>
  \<open>DefaultBtInteractive\<close>: what a connection does each time its command runs. Receiving is given as the
  list of messages that \<open>receiveMessage\<close> returns before it returns none, with \<open>exceeds\<close> for the
  download speed limits; sending is \<open>sendMessages\<close> of the dispatcher. The mode that fetches the torrent
  file from peers, peer exchange, DHT and the handshake are not part of it.
\<close>

definition UB_MAX_OUTSTANDING_REQUEST :: nat where "UB_MAX_OUTSTANDING_REQUEST = 256"
definition DEFAULT_MAX_OUTSTANDING_REQUEST :: nat where "DEFAULT_MAX_OUTSTANDING_REQUEST = 16"

record flooding_stat =
  fl_chokeUnchokeCount :: int
  fl_keepAliveCount :: int

definition fl_new :: flooding_stat where
  "fl_new = \<lparr>fl_chokeUnchokeCount = 0, fl_keepAliveCount = 0\<rparr>"

definition incChokeUnchokeCount :: "flooding_stat \<Rightarrow> flooding_stat" where
  "incChokeUnchokeCount f =
     (if fl_chokeUnchokeCount f < INT_MAX then f\<lparr>fl_chokeUnchokeCount := fl_chokeUnchokeCount f + 1\<rparr> else f)"

definition incKeepAliveCount :: "flooding_stat \<Rightarrow> flooding_stat" where
  "incKeepAliveCount f =
     (if fl_keepAliveCount f < INT_MAX then f\<lparr>fl_keepAliveCount := fl_keepAliveCount f + 1\<rparr> else f)"

record ('h, 'x, 'd) interactive =
  it_session :: "('h, 'x, 'd) session"
  it_lastHaveIndex :: nat
  it_keepAliveTimer :: int
  it_floodingTimer :: int
  it_inactiveTimer :: int
  it_perSecTimer :: int
  it_keepAliveInterval :: int
  it_floodingStat :: flooding_stat
  it_numReceivedMessage :: nat
  it_maxOutstandingRequest :: nat

definition it_new :: "int \<Rightarrow> ('h, 'x, 'd) session \<Rightarrow> ('h, 'x, 'd) interactive" where
  "it_new now s =
     \<lparr>it_session = s, it_lastHaveIndex = 0, it_keepAliveTimer = now, it_floodingTimer = now, it_inactiveTimer = now,
      it_perSecTimer = now, it_keepAliveInterval = 120 * SECOND, it_floodingStat = fl_new, it_numReceivedMessage = 0,
      it_maxOutstandingRequest = DEFAULT_MAX_OUTSTANDING_REQUEST\<rparr>"

datatype interactive_error =
    ReceivedError received_error
  | FloodingDetected
  | NotInterestedEachOther
  | DropInactive
  | BothSeeders

abbreviation on_session ::
  "(('h, 'x, 'd) session \<Rightarrow> ('h, 'x, 'd) session) \<Rightarrow> ('h, 'x, 'd) interactive \<Rightarrow> ('h, 'x, 'd) interactive" where
  "on_session f t \<equiv> t\<lparr>it_session := f (it_session t)\<rparr>"

abbreviation storage :: "('h, 'x, 'd) interactive \<Rightarrow> ('h, 'd) piece_storage" where
  "storage t \<equiv> se_storage (it_session t)"

abbreviation the_peer :: "('h, 'x, 'd) interactive \<Rightarrow> peer" where
  "the_peer t \<equiv> self_peer (it_session t)"

abbreviation the_dispatcher :: "('h, 'x, 'd) interactive \<Rightarrow> 'x dispatcher" where
  "the_dispatcher t \<equiv> se_dispatcher (it_session t)"

definition on_the_peer :: "(peer \<Rightarrow> peer option) \<Rightarrow> ('h, 'x, 'd) interactive \<Rightarrow> ('h, 'x, 'd) interactive option" where
  "on_the_peer f t = map_option (\<lambda>s. t\<lparr>it_session := s\<rparr>) (on_self f (it_session t))"

definition it_queue :: "('h, 'd) session_env \<Rightarrow> 'x bt_message \<Rightarrow> ('h, 'x, 'd) interactive \<Rightarrow> ('h, 'x, 'd) interactive" where
  "it_queue e m = on_session (queue_message e m)"

text \<open>\<open>createBitfieldMessage\<close> of the message factory.\<close>

definition createBitfieldMessage :: "('h, 'd) piece_storage \<Rightarrow> 'x bt_message" where
  "createBitfieldMessage st = Bits (bm_bitfield (pst_bitfieldMan st))"

subsection \<open>Telling the peer\<close>

definition addBitfieldMessageToQueue ::
  "('h, 'd) session_env \<Rightarrow> ('h, 'x, 'd) interactive \<Rightarrow> ('h, 'x, 'd) interactive option" where
  "addBitfieldMessageToQueue e t = do {
     fast \<leftarrow> peer_isFastExtensionEnabled (the_peer t);
     Some (if fast then
             if allDownloadFinished (storage t) then it_queue e HaveAll t
             else if pst_getCompletedLength (storage t) > 0 then it_queue e (createBitfieldMessage (storage t)) t
             else it_queue e HaveNone t
           else if pst_getCompletedLength (storage t) > 0 then it_queue e (createBitfieldMessage (storage t)) t
           else t) }"

definition decideChoking ::
  "('h, 'd) session_env \<Rightarrow> ('h, 'x, 'd) interactive \<Rightarrow> ('h, 'x, 'd) interactive option" where
  "decideChoking e t = do {
     shouldBe \<leftarrow> peer_shouldBeChoking (the_peer t);
     choking \<leftarrow> peer_amChoking (the_peer t);
     fast \<leftarrow> peer_isFastExtensionEnabled (the_peer t);
     amAllowed \<leftarrow> ask_res sr_amAllowedIndexSet (the_peer t);
     if shouldBe then
       if \<not> choking then do {
         t \<leftarrow> on_the_peer (peer_setAmChoking (sv_now e) True) t;
         let t = on_session (\<lambda>s. s\<lparr>se_dispatcher := doChokingAction fast (\<lambda>i. i \<in> set amAllowed) (se_dispatcher s)\<rparr>) t;
         Some (it_queue e Choke t) }
       else Some t
     else if choking then do {
       t \<leftarrow> on_the_peer (peer_setAmChoking (sv_now e) False) t;
       Some (it_queue e Unchoke t) }
     else Some t }"

definition decideInterest ::
  "('h, 'd) session_env \<Rightarrow> ('h, 'x, 'd) interactive \<Rightarrow> ('h, 'x, 'd) interactive option" where
  "decideInterest e t = do {
     wanted \<leftarrow> pst_hasMissingPiece (storage t) (the_peer t);
     interested \<leftarrow> peer_amInterested (the_peer t);
     if wanted then
       if \<not> interested then do {
         t \<leftarrow> on_the_peer (peer_setAmInterested True) t; Some (it_queue e Interested t) }
       else Some t
     else if interested then do {
       t \<leftarrow> on_the_peer (peer_setAmInterested False) t; Some (it_queue e NotInterested t) }
     else Some t }"

text \<open>A bitfield is sent when it is not longer than the have messages.\<close>

definition checkHave ::
  "('h, 'd) session_env \<Rightarrow> ('h, 'x, 'd) interactive \<Rightarrow> ('h, 'x, 'd) interactive option" where
  "checkHave e t =
     (let (haveIndexes, lastHaveIndex) = getAdvertisedPieceIndexes (storage t) (it_lastHaveIndex t);
          t = t\<lparr>it_lastHaveIndex := lastHaveIndex\<rparr>
      in if 5 + bm_bitfieldLength (pst_bitfieldMan (storage t)) \<le> length haveIndexes * 9 then do {
           fast \<leftarrow> peer_isFastExtensionEnabled (the_peer t);
           Some (if fast \<and> allDownloadFinished (storage t) then it_queue e HaveAll t
                 else it_queue e (createBitfieldMessage (storage t)) t) }
         else Some (fold (\<lambda>i. it_queue e (Have i)) haveIndexes t))"

text \<open>\<open>sendMessages\<close> empties the queue unless the buffer of the connection is full.\<close>

definition sendMessages ::
  "('x queued list \<Rightarrow> bool) \<Rightarrow> bool \<Rightarrow> ('h, 'x, 'd) interactive \<Rightarrow> ('h, 'x, 'd) interactive \<times> 'x queued list" where
  "sendMessages exceeds full t =
     (if full then (t, [])
      else let (d, sent) = sendMessagesInternal exceeds (the_dispatcher t)
        in (on_session (\<lambda>s. s\<lparr>se_dispatcher := d\<rparr>) t, sent))"

definition sendKeepAlive ::
  "('h, 'd) session_env \<Rightarrow> ('x queued list \<Rightarrow> bool) \<Rightarrow> bool \<Rightarrow> ('h, 'x, 'd) interactive \<Rightarrow>
     ('h, 'x, 'd) interactive \<times> 'x queued list" where
  "sendKeepAlive e exceeds full t =
     (if tm_difference (it_keepAliveTimer t) (sv_now e) \<ge> it_keepAliveInterval t
      then let (t, sent) = sendMessages exceeds full (it_queue e KeepAlive t) in (t\<lparr>it_keepAliveTimer := sv_now e\<rparr>, sent)
      else (t, []))"

subsection \<open>Receiving\<close>

text \<open>The counters after a message, and the timer of activity.\<close>

definition count_message ::
  "('h, 'd) session_env \<Rightarrow> 'x bt_message \<Rightarrow> ('h, 'x, 'd) interactive \<Rightarrow> ('h, 'x, 'd) interactive option" where
  "count_message e msg t =
     (case msg of
        Choke \<Rightarrow> do {
          choking \<leftarrow> peer_peerChoking (the_peer t);
          Some (if \<not> choking then t\<lparr>it_floodingStat := incChokeUnchokeCount (it_floodingStat t)\<rparr> else t) }
      | Unchoke \<Rightarrow> do {
          choking \<leftarrow> peer_peerChoking (the_peer t);
          Some (if choking then t\<lparr>it_floodingStat := incChokeUnchokeCount (it_floodingStat t)\<rparr> else t) }
      | Request index begin' len blockIndex \<Rightarrow> Some (t\<lparr>it_inactiveTimer := sv_now e\<rparr>)
      | PieceBlock index begin' blockLength \<Rightarrow> Some (t\<lparr>it_inactiveTimer := sv_now e\<rparr>)
      | KeepAlive \<Rightarrow> Some (t\<lparr>it_floodingStat := incKeepAliveCount (it_floodingStat t)\<rparr>)
      | _ \<Rightarrow> Some t)"

text \<open>\<open>exceeds n\<close>: a speed limit is exceeded before message \<open>n\<close>. The number is of messages handled.\<close>

fun receive_loop ::
  "('h, 'd) session_env \<Rightarrow> (nat \<Rightarrow> bool) \<Rightarrow> ('x bt_message \<times> byte list) list \<Rightarrow> nat \<Rightarrow> ('h, 'x, 'd) interactive \<Rightarrow>
     (('h, 'x, 'd) interactive \<times> nat \<times> received_error option) option" where
  "receive_loop e exceeds [] msgcount t = Some (t, msgcount, None)"
| "receive_loop e exceeds ((msg, data) # msgs) msgcount t =
     (if exceeds msgcount then Some (t, msgcount, None)
      else do {
        (s, err) \<leftarrow> doReceivedAction e msg data (it_session t);
        let t = t\<lparr>it_session := s\<rparr>;
        case err of
          Some code \<Rightarrow> Some (t, msgcount + 1, Some code)
        | None \<Rightarrow> do { t \<leftarrow> count_message e msg t; receive_loop e exceeds msgs (msgcount + 1) t } })"

text \<open>Many answers in one go raise the number of requests that may be outstanding.\<close>

definition receiveMessages ::
  "('h, 'd) session_env \<Rightarrow> (nat \<Rightarrow> bool) \<Rightarrow> ('x bt_message \<times> byte list) list \<Rightarrow> ('h, 'x, 'd) interactive \<Rightarrow>
     (('h, 'x, 'd) interactive \<times> nat \<times> received_error option) option" where
  "receiveMessages e exceeds msgs t = do {
     let countOldOutstandingRequest = countOutstandingRequest (the_dispatcher t);
     (t, msgcount, err) \<leftarrow> receive_loop e exceeds msgs 0 t;
     let now = countOutstandingRequest (the_dispatcher t);
     Some (if err = None \<and> \<not> pst_endGame (storage t) \<and> countOldOutstandingRequest > now \<and>
             (countOldOutstandingRequest - now) * 4 \<ge> it_maxOutstandingRequest t
           then t\<lparr>it_maxOutstandingRequest := min UB_MAX_OUTSTANDING_REQUEST (it_maxOutstandingRequest t * 2)\<rparr>
           else t, msgcount, err) }"

definition detectMessageFlooding ::
  "('h, 'd) session_env \<Rightarrow> ('h, 'x, 'd) interactive \<Rightarrow> ('h, 'x, 'd) interactive \<times> interactive_error option" where
  "detectMessageFlooding e t =
     (if tm_difference (it_floodingTimer t) (sv_now e) \<ge> 5 * SECOND
      then if fl_chokeUnchokeCount (it_floodingStat t) \<ge> 2 \<or> fl_keepAliveCount (it_floodingStat t) \<ge> 2
        then (t, Some FloodingDetected)
        else (t\<lparr>it_floodingStat := fl_new, it_floodingTimer := sv_now e\<rparr>, None)
      else (t, None))"

definition checkActiveInteraction ::
  "('h, 'd) session_env \<Rightarrow> ('h, 'x, 'd) interactive \<Rightarrow> (('h, 'x, 'd) interactive \<times> interactive_error option) option" where
  "checkActiveInteraction e t = do {
     let inactiveTime = tm_difference (it_inactiveTimer t) (sv_now e);
     am \<leftarrow> peer_amInterested (the_peer t);
     peer \<leftarrow> peer_peerInterested (the_peer t);
     let graceful = on_the_peer (\<lambda>p. Some (p\<lparr>pr_disconnectedGracefully := True\<rparr>)) t;
     if \<not> am \<and> \<not> peer \<and> inactiveTime \<ge> 30 * SECOND then map_option (\<lambda>t. (t, Some NotInterestedEachOther)) graceful
     else if inactiveTime \<ge> 60 * SECOND then map_option (\<lambda>t. (t, Some DropInactive)) graceful
     else Some (t, if pr_seeder (the_peer t) \<and> downloadFinished (storage t) then Some BothSeeders else None) }"

subsection \<open>Asking\<close>

text \<open>The new target pieces; \<open>alloc\<close> and \<open>shuffle\<close> are those of the piece storage.\<close>

definition fillPiece ::
  "('h, 'd) session_env \<Rightarrow> ('d wr_state \<Rightarrow> nat) \<Rightarrow> (nat list \<Rightarrow> nat list) \<Rightarrow> nat \<Rightarrow> ('h, 'x, 'd) interactive \<Rightarrow>
     ('h, 'x, 'd) interactive option" where
  "fillPiece e alloc shuffle maxMissingBlock t = do {
     let st = storage t;
     let peer = the_peer t;
     let f = se_factory (it_session t);
     wanted \<leftarrow> pst_hasMissingPiece st peer;
     if \<not> wanted then Some t
     else do {
       let numMissingBlock = rf_countMissingBlock (pieces_of st) f;
       if numMissingBlock \<ge> maxMissingBlock then Some t
       else do {
         let diff = maxMissingBlock - numMissingBlock;
         let targets = getTargetPieceIndexes (pieces_of st) f;
         choking \<leftarrow> peer_peerChoking peer;
         fast \<leftarrow> peer_isFastExtensionEnabled peer;
         (st, pieces) \<leftarrow>
           (if choking then
              if fast then
                if pst_endGame st then getMissingFastPiecesExcept (sv_write e) alloc shuffle diff peer targets (sv_cuid e) st
                else getMissingFastPieces (sv_write e) alloc shuffle diff peer (sv_cuid e) st
              else Some (st, [])
            else if pst_endGame st then getMissingPiecesExcept (sv_write e) alloc shuffle diff peer targets (sv_cuid e) st
            else getMissingPiecesOf (sv_write e) alloc shuffle diff peer (sv_cuid e) st);
         Some (on_session (\<lambda>s. s\<lparr>se_storage := st,
           se_factory := fold (\<lambda>p. addTargetPiece (pc_index p)) pieces (se_factory s)\<rparr>) t) } } }"

text \<open>The test for the end game, with the arithmetic of the code.\<close>

definition check_end_game :: "nat \<Rightarrow> ('h, 'd) piece_storage \<Rightarrow> ('h, 'd) piece_storage" where
  "check_end_game pieceLength st =
     (if \<not> pst_endGame st then
        let endGameThreshold = (if pst_endGamePieceNum st = 0 then 20 else pst_endGamePieceNum st);
            blocksPerPiece = (if pieceLength div MAX_BLOCK_LENGTH = 0 then 1 else pieceLength div MAX_BLOCK_LENGTH);
            remaining = countMissingPiece st
        in if remaining \<le> endGameThreshold * blocksPerPiece \<or> \<not> hasMissingUnusedPiece st then enterEndGame st else st
      else st)"

definition addRequests ::
  "('h, 'd) session_env \<Rightarrow> ('d wr_state \<Rightarrow> nat) \<Rightarrow> (nat list \<Rightarrow> nat list) \<Rightarrow> (nat list \<Rightarrow> nat list) \<Rightarrow>
     ('h, 'x, 'd) interactive \<Rightarrow> ('h, 'x, 'd) interactive option" where
  "addRequests e alloc shuffle shuffleBlocks t = do {
     let t = on_session (\<lambda>s. s\<lparr>se_storage := check_end_game (sv_pieceLength e) (se_storage s)\<rparr>) t;
     t \<leftarrow> fillPiece e alloc shuffle (it_maxOutstandingRequest t) t;
     let reqNumToCreate = it_maxOutstandingRequest t - countOutstandingRequest (the_dispatcher t);
     if reqNumToCreate > 0 then do {
       (requests, h) \<leftarrow> createRequestMessages shuffleBlocks (the_dispatcher t) reqNumToCreate (pst_endGame (storage t))
         (se_factory (it_session t)) (pieces_of (storage t));
       Some (on_session (\<lambda>s. s\<lparr>se_storage := sync h (se_storage s),
         se_dispatcher := queue_all (sv_now e) requests (se_dispatcher s)\<rparr>) t) }
     else Some t }"

definition cancelAllPiece :: "('h, 'x, 'd) interactive \<Rightarrow> ('h, 'x, 'd) interactive" where
  "cancelAllPiece = on_session (\<lambda>s.
     let (f, d, h, st) = removeAllTargetPiece storage_cancel (se_factory s) (se_dispatcher s)
           (pieces_of (se_storage s), se_storage s)
     in s\<lparr>se_factory := f, se_dispatcher := d, se_storage := st\<rparr>)"

subsection \<open>One run\<close>

definition check_slots_each_second ::
  "('h, 'd) session_env \<Rightarrow> ('h, 'x, 'd) interactive \<Rightarrow> ('h, 'x, 'd) interactive option" where
  "check_slots_each_second e t =
     (if tm_difference (it_perSecTimer t) (sv_now e) \<ge> SECOND then do {
        (d, h, snub) \<leftarrow> checkRequestSlotAndDoNecessaryThing (sv_now e) (the_dispatcher t, pieces_of (storage t));
        let t = on_session (\<lambda>s. s\<lparr>se_dispatcher := d, se_storage := sync h (se_storage s)\<rparr>) (t\<lparr>it_perSecTimer := sv_now e\<rparr>);
        if snub then on_the_peer (peer_setSnubbing True) t else Some t }
      else Some t)"

definition remove_completed :: "('h, 'x, 'd) interactive \<Rightarrow> ('h, 'x, 'd) interactive" where
  "remove_completed = on_session (\<lambda>s.
     let (f, d, h) = removeCompletedPiece (se_factory s) (se_dispatcher s, pieces_of (se_storage s))
     in s\<lparr>se_factory := f, se_dispatcher := d, se_storage := sync h (se_storage s)\<rparr>)"

text \<open>The branch of \<open>doInteractionProcessing\<close> that downloads content.\<close>

definition doInteractionProcessing ::
  "('h, 'd) session_env \<Rightarrow> ('d wr_state \<Rightarrow> nat) \<Rightarrow> (nat list \<Rightarrow> nat list) \<Rightarrow> (nat list \<Rightarrow> nat list) \<Rightarrow> (nat \<Rightarrow> bool) \<Rightarrow>
     ('x queued list \<Rightarrow> bool) \<Rightarrow> bool \<Rightarrow> ('x bt_message \<times> byte list) list \<Rightarrow> ('h, 'x, 'd) interactive \<Rightarrow>
     (('h, 'x, 'd) interactive \<times> 'x queued list \<times> interactive_error option) option" where
  "doInteractionProcessing e alloc shuffle shuffleBlocks exceeds uploads full msgs t = do {
     (t, err) \<leftarrow> checkActiveInteraction e t;
     if err \<noteq> None then Some (t, [], err)
     else do {
       t \<leftarrow> check_slots_each_second e t;
       (t, msgcount, err) \<leftarrow> receiveMessages e exceeds msgs t;
       case err of Some code \<Rightarrow> Some (t, [], Some (ReceivedError code))
       | None \<Rightarrow> do {
         let (t, err) = detectMessageFlooding e (t\<lparr>it_numReceivedMessage := msgcount\<rparr>);
         if err \<noteq> None then Some (t, [], err)
         else do {
           t \<leftarrow> decideChoking e t;
           t \<leftarrow> decideInterest e t;
           t \<leftarrow> checkHave e t;
           let (t, sent) = sendKeepAlive e uploads full t;
           let t = remove_completed t;
           t \<leftarrow> (if downloadFinished (storage t) then Some t else addRequests e alloc shuffle shuffleBlocks t);
           let (t, sent2) = sendMessages uploads full t;
           Some (t, sent @ sent2, None) } } } }"

end
