(* ===== verification/SessionProps.thy ===== *)
theory SessionProps
  imports Interactive RequestProps
begin

text \<open>
  Lemmas on the handlers of received messages and on the steps of a connection: what each of them
  leaves alone, the bitfield of the peer and the counters of the swarm, and the choking counter.
\<close>

subsection \<open>The peer of the session\<close>

definition self_in :: "('h, 'x, 'd) session \<Rightarrow> bool" where
  "self_in s \<longleftrightarrow> se_self s < length (se_peers s)"

lemma on_self_Some:
  assumes "on_self f s = Some s'"
  shows "\<exists>p. f (self_peer s) = Some p \<and> s' = s\<lparr>se_peers := (se_peers s)[se_self s := p]\<rparr>"
  using assms by (auto simp: on_self_def on_peer_def self_peer_def)

lemma on_self_fields:
  assumes "on_self f s = Some s'"
  shows "se_storage s' = se_storage s" "se_dispatcher s' = se_dispatcher s" "se_factory s' = se_factory s"
    "se_self s' = se_self s" "length (se_peers s') = length (se_peers s)"
  using on_self_Some [OF assms] by auto

lemma self_peer_on_self:
  assumes "on_self f s = Some s'" and "self_in s"
  shows "f (self_peer s) = Some (self_peer s')" "self_in s'"
  using on_self_Some [OF assms(1)] assms(2) by (auto simp: self_peer_def self_in_def)

lemma self_peer_updates [simp]:
  "self_peer (s\<lparr>se_storage := st\<rparr>) = self_peer s" "self_peer (s\<lparr>se_dispatcher := d\<rparr>) = self_peer s"
  "self_peer (s\<lparr>se_factory := f\<rparr>) = self_peer s" "self_in (s\<lparr>se_storage := st\<rparr>) = self_in s"
  "self_peer (s\<lparr>se_netStat := n\<rparr>) = self_peer s" "self_peer (s\<lparr>se_overallStat := n\<rparr>) = self_peer s"
  "self_in (s\<lparr>se_dispatcher := d\<rparr>) = self_in s" "self_in (s\<lparr>se_factory := f\<rparr>) = self_in s"
  "self_in (s\<lparr>se_netStat := n\<rparr>) = self_in s" "self_in (s\<lparr>se_overallStat := n\<rparr>) = self_in s"
  "self_peer (queue_message e m s) = self_peer s" "self_in (queue_message e m s) = self_in s"
  by (simp_all add: self_peer_def self_in_def queue_message_def)

subsection \<open>Choke and unchoke\<close>

text \<open>After either message \<open>peerChoking\<close> is what the message says.\<close>

lemma peer_setPeerChoking_seen:
  assumes "peer_setPeerChoking b p = Some q"
  shows "peer_peerChoking q = Some b"
  using assms by (auto simp: peer_setPeerChoking_def peer_peerChoking_def with_res_def ask_res_def sr_setPeerChoking_def)

lemma choke_seen:
  assumes "doReceivedAction e Choke data s = Some (s', err)" and "\<not> sv_metadataGetMode e" and "self_in s"
  shows "peer_peerChoking (self_peer s') = Some True"
proof -
  obtain s1 where s1: "on_self (peer_setPeerChoking True) s = Some s1" "self_peer s' = self_peer s1"
    using assms(1,2) by (auto simp: doReceivedAction_def received_choke_def bind_eq_Some_conv Let_def split_beta)
  show ?thesis using peer_setPeerChoking_seen [OF self_peer_on_self(1) [OF s1(1) assms(3)]] s1(2) by simp
qed

lemma unchoke_seen:
  assumes "doReceivedAction e Unchoke data s = Some (s', err)" and "\<not> sv_metadataGetMode e" and "self_in s"
  shows "peer_peerChoking (self_peer s') = Some False"
proof -
  have s1: "on_self (peer_setPeerChoking False) s = Some s'"
    using assms(1,2) by (auto simp: doReceivedAction_def received_unchoke_def Let_def)
  show ?thesis by (rule peer_setPeerChoking_seen [OF self_peer_on_self(1) [OF s1 assms(3)]])
qed

lemma count_message_choke:
  assumes "count_message e msg t = Some t'" and "msg = Choke \<Longrightarrow> peer_peerChoking (the_peer t) = Some True"
    and "msg = Unchoke \<Longrightarrow> peer_peerChoking (the_peer t) = Some False"
  shows "fl_chokeUnchokeCount (it_floodingStat t') = fl_chokeUnchokeCount (it_floodingStat t)"
  using assms by (auto simp: count_message_def incKeepAliveCount_def split: bt_message.splits)

subsection \<open>The end game test\<close>

lemma check_end_game_iff:
  assumes "\<not> pst_endGame st" and "pst_endGamePieceNum st \<noteq> 0"
  shows "pst_endGame (check_end_game pieceLength st) \<longleftrightarrow>
    countMissingPiece st \<le> pst_endGamePieceNum st * max 1 (pieceLength div MAX_BLOCK_LENGTH) \<or> \<not> hasMissingUnusedPiece st"
  using assms by (auto simp: check_end_game_def enterEndGame_def Let_def max_def)

subsection \<open>Requests made\<close>

lemma request_loop_length:
  assumes "request_loop as n requests h = (requests', h')"
  shows "length requests' \<le> length requests + n"
  using assms
proof (induction as n requests h rule: request_loop.induct)
  case (2 a as n requests h)
  show ?case
  proof (cases "n = 0")
    case False
    obtain p ixs where ask: "getMissingUnusedBlockIndexes (h a) n = (p, ixs)" by fastforce
    then have "length ixs \<le> n"
      by (auto simp: getMissingUnusedBlockIndexes_def getFirstNMissingUnusedIndex_def getFirstNSetBitIndex_take Let_def)
    moreover have "length requests' \<le> length (requests @ map (createRequestMessage p) ixs) + (n - length ixs)"
      using 2(1) [OF False ask [symmetric] refl] 2(2) False ask by (simp add: fun_upd_def)
    ultimately show ?thesis by simp
  qed (use 2 in simp)
qed simp

end
