(* ===== verification/SessionTypes.thy ===== *)
theory SessionTypes
  imports SessionProps ChokeProperties WireProperties
begin

text \<open>
  Handlers of received messages keep the peers well formed: the flags of a peer may change, but its
  bitfield keeps the invariant of the bitfield class and the size of the download, the seeder flag says
  that it has everything, and the piece statistics count the bitfields of the peers with a session.
\<close>

subsection \<open>Well-formed sessions\<close>

definition piece_bits :: "peer \<Rightarrow> byte list list" where
  "piece_bits p = (case pr_res p of None \<Rightarrow> [] | Some r \<Rightarrow> [bm_bitfield (sr_bitfieldMan r)])"

definition peer_sound :: "nat \<Rightarrow> peer \<Rightarrow> bool" where
  "peer_sound n p \<longleftrightarrow> (case pr_res p of None \<Rightarrow> True
     | Some r \<Rightarrow> bm_inv (sr_bitfieldMan r) \<and> bm_blocks (sr_bitfieldMan r) = n \<and>
         (pr_seeder p \<longleftrightarrow> haves (sr_bitfieldMan r) = {..<n}))"

definition session_sound :: "nat \<Rightarrow> ('h, 'x, 'd) session \<Rightarrow> bool" where
  "session_sound n s \<longleftrightarrow> self_in s \<and> isActive (self_peer s) \<and> (\<forall>p\<in>set (se_peers s). peer_sound n p) \<and>
     bm_blocks (pst_bitfieldMan (se_storage s)) = n \<and> length (st_counts (pst_stats (se_storage s))) = n \<and>
     int (length (se_peers s)) < INT_MAX \<and>
     counts_peers (concat (map piece_bits (se_peers s))) (pst_stats (se_storage s))"

text \<open>What decides it, of a peer and of a session.\<close>

definition peer_frame :: "peer \<Rightarrow> bitfield_man option \<times> bool \<times> string \<times> nat" where
  "peer_frame p = (map_option sr_bitfieldMan (pr_res p), pr_seeder p, pr_ipaddr p, pr_origPort p)"

definition storage_frame :: "('h, 'd) piece_storage \<Rightarrow> nat \<times> nat set \<times> piece_stats" where
  "storage_frame st = (bm_blocks (pst_bitfieldMan st), haves (pst_bitfieldMan st), pst_stats st)"

definition same_session :: "('h, 'x, 'd) session \<Rightarrow> ('h, 'x, 'd) session \<Rightarrow> bool" where
  "same_session s s' \<longleftrightarrow> map peer_frame (se_peers s') = map peer_frame (se_peers s) \<and> se_self s' = se_self s \<and>
     storage_frame (se_storage s') = storage_frame (se_storage s)"

lemma same_session_refl [simp]: "same_session s s"
  by (simp add: same_session_def)

lemma same_session_trans: "same_session s s' \<Longrightarrow> same_session s' s'' \<Longrightarrow> same_session s s''"
  by (simp add: same_session_def)

lemma frame_facts:
  assumes "peer_frame p' = peer_frame p"
  shows "piece_bits p' = piece_bits p" "peer_sound n p' = peer_sound n p" "isActive p' = isActive p"
  using assms by (cases "pr_res p"; cases "pr_res p'"; simp add: peer_frame_def piece_bits_def peer_sound_def isActive_def)+

lemma frame_nth:
  assumes "map peer_frame ps' = map peer_frame ps"
  shows "length ps' = length ps" "k < length ps \<Longrightarrow> peer_frame (ps' ! k) = peer_frame (ps ! k)"
proof -
  show l: "length ps' = length ps" using map_eq_imp_length_eq [OF assms] .
  show "k < length ps \<Longrightarrow> peer_frame (ps' ! k) = peer_frame (ps ! k)" using assms l by (metis nth_map)
qed

lemma frame_map:
  assumes "map peer_frame ps' = map peer_frame ps"
  shows "map piece_bits ps' = map piece_bits ps"
proof -
  define g where "g = (\<lambda>fr :: bitfield_man option \<times> bool \<times> string \<times> nat. case fst fr of None \<Rightarrow> [] | Some m \<Rightarrow> [bm_bitfield m])"
  have "piece_bits p = g (peer_frame p)" for p by (auto simp: g_def piece_bits_def peer_frame_def split: option.splits)
  then have "map piece_bits qs = map g (map peer_frame qs)" for qs by simp
  then show ?thesis using assms by (simp only:)
qed

lemma session_sound_same:
  assumes "session_sound n s" and "same_session s s'"
  shows "session_sound n s'"
proof -
  have f: "map peer_frame (se_peers s') = map peer_frame (se_peers s)" "se_self s' = se_self s"
    "storage_frame (se_storage s') = storage_frame (se_storage s)" using assms(2) by (simp_all add: same_session_def)
  note l = frame_nth(1) [OF f(1)] and k = frame_nth(2) [OF f(1)]
  have "map piece_bits (se_peers s') = map piece_bits (se_peers s)"
    by (rule frame_map [OF f(1)])
  moreover have "\<forall>p\<in>set (se_peers s'). peer_sound n p"
  proof -
    have "peer_sound n (se_peers s' ! i)" if "i < length (se_peers s)" for i
    proof -
      have "peer_sound n (se_peers s ! i)" using assms(1) that by (simp add: session_sound_def)
      then show ?thesis using frame_facts(2) [OF k [OF that]] by (simp only:)
    qed
    then show ?thesis using l by (simp add: all_set_conv_all_nth)
  qed
  moreover have self: "se_self s < length (se_peers s)" using assms(1) by (simp add: session_sound_def self_in_def)
  moreover have "isActive (self_peer s')"
  proof -
    have "isActive (se_peers s ! se_self s)" using assms(1) by (simp add: session_sound_def self_peer_def)
    then show ?thesis unfolding self_peer_def f(2) using frame_facts(3) [OF k [OF self]] by (simp only:)
  qed
  ultimately show ?thesis using assms(1) f(2,3) l unfolding session_sound_def self_in_def storage_frame_def
    by (simp only: prod.inject)
qed

subsection \<open>Operations on the own peer\<close>

lemma on_peer_frame:
  assumes "on_peer k f ps = Some ps'" and "\<And>p p'. f p = Some p' \<Longrightarrow> peer_frame p' = peer_frame p"
  shows "map peer_frame ps' = map peer_frame ps"
proof -
  obtain p' where p: "f (ps ! k) = Some p'" "ps' = ps[k := p']" using assms(1) by (auto simp: on_peer_def)
  show ?thesis
  proof (cases "k < length ps")
    case True
    then show ?thesis using p(2) assms(2) [OF p(1)] by (simp add: map_update list_update_same_conv)
  qed (simp add: p(2) list_update_beyond)
qed

lemma with_res_frame:
  assumes "with_res g p = Some p'" and "\<And>r. sr_bitfieldMan (g r) = sr_bitfieldMan r"
  shows "peer_frame p' = peer_frame p"
  using assms by (auto simp: with_res_def peer_frame_def)

text \<open>Flags, allowed indexes and speeds.\<close>

lemma flag_frames:
  "peer_setPeerChoking b p = Some p' \<Longrightarrow> peer_frame p' = peer_frame p"
  "peer_setPeerInterested b p = Some p' \<Longrightarrow> peer_frame p' = peer_frame p"
  "peer_setChokingRequired b p = Some p' \<Longrightarrow> peer_frame p' = peer_frame p"
  "peer_setOptUnchoking b p = Some p' \<Longrightarrow> peer_frame p' = peer_frame p"
  "peer_setSnubbing b p = Some p' \<Longrightarrow> peer_frame p' = peer_frame p"
  "addPeerAllowedIndex i p = Some p' \<Longrightarrow> peer_frame p' = peer_frame p"
  "peer_updateDownload now len p = Some p' \<Longrightarrow> peer_frame p' = peer_frame p"
  by (auto simp: peer_setPeerChoking_def peer_setPeerInterested_def peer_setChokingRequired_def
      peer_setOptUnchoking_def peer_setSnubbing_def addPeerAllowedIndex_def peer_updateDownload_def
      sr_setPeerChoking_def sr_setPeerInterested_def sr_setChokingRequired_def sr_setOptUnchoking_def
      sr_setSnubbing_def sr_addPeerAllowedIndex_def sr_updateDownload_def Let_def elim!: with_res_frame)

lemma on_self_with_res:
  assumes "isActive (self_peer s)"
  shows "\<exists>s'. on_self (with_res g) s = Some s'"
  using assms by (auto simp: on_self_def on_peer_def with_res_def isActive_def self_peer_def)

lemma on_self_flag:
  assumes "session_sound n s" and "\<And>p p'. f p = Some p' \<Longrightarrow> peer_frame p' = peer_frame p" and "f = with_res g"
  shows "\<exists>s'. on_self f s = Some s' \<and> same_session s s'"
proof -
  have "isActive (self_peer s)" using assms(1) by (simp add: session_sound_def)
  then obtain s' where s': "on_self f s = Some s'" unfolding assms(3) using on_self_with_res by blast
  obtain ps where ps: "on_peer (se_self s) f (se_peers s) = Some ps" "s' = s\<lparr>se_peers := ps\<rparr>"
    using s' by (auto simp: on_self_def)
  have "map peer_frame ps = map peer_frame (se_peers s)" by (rule on_peer_frame [OF ps(1) assms(2)])
  then show ?thesis using s' ps(2) by (simp add: same_session_def)
qed

lemma on_self_flags:
  assumes "session_sound n s"
  shows "\<exists>s'. on_self (peer_setPeerChoking b) s = Some s' \<and> same_session s s'"
    "\<exists>s'. on_self (peer_setPeerInterested b) s = Some s' \<and> same_session s s'"
    "\<exists>s'. on_self (addPeerAllowedIndex i) s = Some s' \<and> same_session s s'"
  by (rule on_self_flag [OF assms _ peer_setPeerChoking_def], erule flag_frames)
    (rule on_self_flag [OF assms _ peer_setPeerInterested_def], erule flag_frames,
     rule on_self_flag [OF assms _ addPeerAllowedIndex_def], erule flag_frames)

lemma flags_known:
  assumes "isActive p"
  shows "\<exists>b. peer_amChoking p = Some b" "\<exists>b. peer_peerChoking p = Some b" "\<exists>b. isInAmAllowedIndexSet p index = Some b"
    "\<exists>b. peer_isFastExtensionEnabled p = Some b" "\<exists>is. getPeerAllowedIndexSet p = Some is"
  using assms by (auto simp: isActive_def peer_amChoking_def peer_peerChoking_def isInAmAllowedIndexSet_def
      peer_isFastExtensionEnabled_def getPeerAllowedIndexSet_def ask_res_def)

subsection \<open>A new bitfield\<close>

lemma concat_update:
  assumes "k < length xs"
  shows "concat (map g (xs[k := x])) = concat (map g (take k xs)) @ g x @ concat (map g (drop (Suc k) xs))"
    "concat (map g xs) = concat (map g (take k xs)) @ g (xs ! k) @ concat (map g (drop (Suc k) xs))"
  using assms by (simp add: upd_conv_take_nth_drop, subst id_take_nth_drop [OF assms], simp)

lemma piece_bits_length: "length (concat (map piece_bits ps)) \<le> length ps"
  by (induction ps) (auto simp: piece_bits_def split: option.split)

text \<open>The handlers that replace the bitfield of the peer count the new one instead of the old one.\<close>

lemma session_sound_new_bits:
  assumes s: "session_sound n s" and r: "pr_res (self_peer s) = Some r" and r': "pr_res p' = Some r'"
    and p': "peer_sound n p'" and fr: "bm_blocks (pst_bitfieldMan st') = n" "length (st_counts (pst_stats st')) = n"
    and c: "\<And>xs ys. length (xs @ ys) < length (se_peers s) \<Longrightarrow>
      counts_peers (xs @ bm_bitfield (sr_bitfieldMan r) # ys) (pst_stats (se_storage s)) \<Longrightarrow>
      counts_peers (xs @ bm_bitfield (sr_bitfieldMan r') # ys) (pst_stats st')"
  shows "session_sound n (s\<lparr>se_peers := (se_peers s)[se_self s := p'], se_storage := st'\<rparr>)"
proof -
  have k: "se_self s < length (se_peers s)" using s by (simp add: session_sound_def self_in_def)
  define xs where "xs = concat (map piece_bits (take (se_self s) (se_peers s)))"
  define ys where "ys = concat (map piece_bits (drop (Suc (se_self s)) (se_peers s)))"
  have old: "concat (map piece_bits (se_peers s)) = xs @ bm_bitfield (sr_bitfieldMan r) # ys"
    using concat_update(2) [OF k, of piece_bits] r by (simp add: xs_def ys_def piece_bits_def self_peer_def)
  have new: "concat (map piece_bits ((se_peers s)[se_self s := p'])) = xs @ bm_bitfield (sr_bitfieldMan r') # ys"
    using concat_update(1) [OF k, of piece_bits p'] r' by (simp add: xs_def ys_def piece_bits_def)
  have "length (xs @ ys) < length (se_peers s)"
    using piece_bits_length [of "se_peers s"] unfolding old by simp
  moreover have "counts_peers (xs @ bm_bitfield (sr_bitfieldMan r) # ys) (pst_stats (se_storage s))"
    using s unfolding session_sound_def old by blast
  ultimately have cnt: "counts_peers (xs @ bm_bitfield (sr_bitfieldMan r') # ys) (pst_stats st')" by (rule c)
  have sound: "\<forall>p\<in>set ((se_peers s)[se_self s := p']). peer_sound n p"
    using s p' set_update_subset_insert [of "se_peers s" "se_self s" p'] unfolding session_sound_def by blast
  have "isActive p'" using r' by (simp add: isActive_def)
  then show ?thesis using s k fr sound cnt new
    by (simp add: session_sound_def self_in_def self_peer_def)
qed

lemma addPieceStat_counts:
  assumes "counts_peers (xs @ old # ys) st" and "int (length (xs @ ys)) < INT_MAX"
    and "\<And>i. i < length (st_counts st) \<Longrightarrow> bitat (array new) i \<longleftrightarrow> i = index \<or> bitat (array old) i"
    and "index < length (st_counts st)" and "\<not> bitat (array old) index"
  shows "counts_peers (xs @ new # ys) (addPieceStat index st)"
proof -
  have "int (length (filter P (xs @ ys))) < INT_MAX" for P
    using assms(2) length_filter_le [of P "xs @ ys"] by linarith
  then show ?thesis using assms(1,3-5)
    by (auto simp: counts_peers_def addPieceStat_def stat_inc_def nth_list_update)
qed

lemma haves_bitat: "i < bm_blocks m \<Longrightarrow> bitat (array (bm_bitfield m)) i \<longleftrightarrow> i \<in> haves m"
  by (simp add: haves_def bits_arr_def)

lemma updateSeeder_sound:
  assumes "pr_res p = Some r" and "bm_inv (sr_bitfieldMan r)" and "bm_blocks (sr_bitfieldMan r) = n"
  shows "\<exists>p'. updateSeeder p = Some p' \<and> pr_res p' = Some r \<and> peer_sound n p'"
  using assms by (simp add: updateSeeder_def peer_sound_def sr_hasAllPieces_def isAllBitSet_iff)

lemma new_bits_peer:
  assumes "pr_res p = Some r" and "bm_inv (sr_bitfieldMan (g r))" and "bm_blocks (sr_bitfieldMan (g r)) = n"
  shows "\<exists>p'. do { p \<leftarrow> with_res g p; updateSeeder p } = Some p' \<and> pr_res p' = Some (g r) \<and> peer_sound n p'"
  using updateSeeder_sound [of "p\<lparr>pr_res := Some (g r)\<rparr>" "g r" n] assms by (simp add: with_res_def)

subsection \<open>Have, bitfield and have all\<close>

lemma on_self_eq: "f (self_peer s) = Some p' \<Longrightarrow> on_self f s = Some (s\<lparr>se_peers := (se_peers s)[se_self s := p']\<rparr>)"
  by (simp add: on_self_def on_peer_def self_peer_def)

lemma session_soundD:
  assumes "session_sound n s"
  shows "\<exists>r. pr_res (self_peer s) = Some r \<and> bm_inv (sr_bitfieldMan r) \<and> bm_blocks (sr_bitfieldMan r) = n"
    "self_in s" "isActive (self_peer s)" "int (length (se_peers s)) < INT_MAX"
    "bm_blocks (pst_bitfieldMan (se_storage s)) = n" "length (st_counts (pst_stats (se_storage s))) = n"
proof -
  have "peer_sound n (self_peer s)" using assms by (simp add: session_sound_def self_in_def self_peer_def)
  then show "\<exists>r. pr_res (self_peer s) = Some r \<and> bm_inv (sr_bitfieldMan r) \<and> bm_blocks (sr_bitfieldMan r) = n"
    using assms by (auto simp: session_sound_def peer_sound_def isActive_def)
qed (use assms in \<open>simp_all add: session_sound_def\<close>)

lemma self_peer_replaced: "self_in s \<Longrightarrow> self_peer (s\<lparr>se_peers := (se_peers s)[se_self s := p']\<rparr>) = p'"
  by (simp add: self_peer_def self_in_def)

lemma received_have_sound:
  assumes s: "session_sound n s" and i: "index < n"
  shows "\<exists>s' err. received_have index s = Some (s', err) \<and> session_sound n s'"
proof -
  obtain r where r: "pr_res (self_peer s) = Some r" "bm_inv (sr_bitfieldMan r)" "bm_blocks (sr_bitfieldMan r) = n"
    using session_soundD(1) [OF s] by blast
  have has: "peer_hasPiece (self_peer s) index = Some (index \<in> haves (sr_bitfieldMan r))"
    using r i by (simp add: peer_hasPiece_def sr_hasPiece_def isBitSet_haves)
  show ?thesis
  proof (cases "index \<in> haves (sr_bitfieldMan r)")
    case True
    then show ?thesis using has s by (simp add: received_have_def)
  next
    case False
    let ?m = "fst (setBit (sr_bitfieldMan r) index)"
    have u: "sr_updateBitfield index 1 r = r\<lparr>sr_bitfieldMan := ?m\<rparr>" by (simp add: sr_updateBitfield_def)
    have h: "haves ?m = insert index (haves (sr_bitfieldMan r))" using r i by (simp add: set_ops_views)
    obtain p' where p': "peer_updateBitfield index 1 (self_peer s) = Some p'" "pr_res p' = Some (r\<lparr>sr_bitfieldMan := ?m\<rparr>)"
      "peer_sound n p'"
      using new_bits_peer [of "self_peer s" r "sr_updateBitfield index 1" n] r
      by (auto simp: peer_updateBitfield_def u intro: set_ops_inv)
    let ?st = "pst_addPieceStat index (se_storage s)"
    have "session_sound n (s\<lparr>se_peers := (se_peers s)[se_self s := p'], se_storage := ?st\<rparr>)"
    proof (rule session_sound_new_bits [OF s r(1) p'(2,3)])
      fix xs ys assume l: "length (xs @ ys) < length (se_peers s)"
        and c: "counts_peers (xs @ bm_bitfield (sr_bitfieldMan r) # ys) (pst_stats (se_storage s))"
      have "counts_peers (xs @ bm_bitfield ?m # ys) (addPieceStat index (pst_stats (se_storage s)))"
        by (rule addPieceStat_counts [OF c])
          (use l session_soundD(4,6) [OF s] i h r(3) False in \<open>auto simp: haves_bitat\<close>)
      then show "counts_peers (xs @ bm_bitfield (sr_bitfieldMan (r\<lparr>sr_bitfieldMan := ?m\<rparr>)) # ys) (pst_stats ?st)"
        by (simp add: pst_addPieceStat_def)
    qed (use session_soundD(5,6) [OF s] in \<open>simp_all add: pst_addPieceStat_def\<close>)
    then show ?thesis using has False on_self_eq [of "peer_updateBitfield index 1", OF p'(1)]
      by (simp add: received_have_def Let_def)
  qed
qed

lemma session_update_swap:
  "s\<lparr>se_storage := st, se_peers := ps\<rparr> = s\<lparr>se_peers := ps, se_storage := st\<rparr>"
  by simp

lemma received_bitfield_sound:
  assumes s: "session_sound n s" and bf: "length bf = (n + 7) div 8" "tail_clear n bf" "0 < n"
  shows "\<exists>s' err. received_bitfield bf s = Some (s', err) \<and> session_sound n s'"
proof -
  obtain r where r: "pr_res (self_peer s) = Some r" "bm_inv (sr_bitfieldMan r)" "bm_blocks (sr_bitfieldMan r) = n"
    using session_soundD(1) [OF s] by blast
  let ?m = "setBitfield (sr_bitfieldMan r) bf"
  have len: "bm_bitfieldLength (sr_bitfieldMan r) = (n + 7) div 8"
    using r(2,3) by (simp add: bm_inv_def bm_shape_def)
  moreover have "(n + 7) div 8 \<noteq> 0" using bf(3) by (simp add: div_eq_0_iff)
  ultimately have bits: "bm_bitfield ?m = bf" using bf(1) by (simp add: setBitfield_def)
  obtain p' where p': "peer_setBitfield bf (self_peer s) = Some p'" "pr_res p' = Some (sr_setBitfield bf r)" "peer_sound n p'"
    using new_bits_peer [of "self_peer s" r "sr_setBitfield bf" n] r bf setBitfield_inv [of "sr_bitfieldMan r" bf]
    by (auto simp: peer_setBitfield_def sr_setBitfield_def)
  have old: "peer_getBitfield (self_peer s) = Some (bm_bitfield (sr_bitfieldMan r))"
    using r(1) by (simp add: peer_getBitfield_def ask_res_def)
  let ?st = "pst_updatePieceStats bf (bm_bitfield (sr_bitfieldMan r)) (se_storage s)"
  have "session_sound n (s\<lparr>se_peers := (se_peers s)[se_self s := p'], se_storage := ?st\<rparr>)"
  proof (rule session_sound_new_bits [OF s r(1) p'(2,3)])
    fix xs ys assume l: "length (xs @ ys) < length (se_peers s)"
      and c: "counts_peers (xs @ bm_bitfield (sr_bitfieldMan r) # ys) (pst_stats (se_storage s))"
    have "int (length (xs @ ys)) < INT_MAX" using l session_soundD(4) [OF s] by linarith
    then show "counts_peers (xs @ bm_bitfield (sr_bitfieldMan (sr_setBitfield bf r)) # ys) (pst_stats ?st)"
      using updatePieceStats_counts [OF c, of bf] bits by (simp add: pst_updatePieceStats_def sr_setBitfield_def)
  qed (use session_soundD(5,6) [OF s] in \<open>simp_all add: pst_updatePieceStats_def\<close>)
  then show ?thesis using old on_self_eq [of "peer_setBitfield bf" "s\<lparr>se_storage := ?st\<rparr>"] p'(1)
    by (simp add: received_bitfield_def session_update_swap Let_def)
qed

lemma counts_peers_insert: "counts_peers (bf # xs @ ys) st \<longleftrightarrow> counts_peers (xs @ bf # ys) st"
  by (auto simp: counts_peers_def)

lemma received_have_all_sound:
  assumes s: "session_sound n s"
  shows "\<exists>s' err. received_have_all s = Some (s', err) \<and> session_sound n s'"
proof -
  obtain r where r: "pr_res (self_peer s) = Some r" "bm_inv (sr_bitfieldMan r)" "bm_blocks (sr_bitfieldMan r) = n"
    using session_soundD(1) [OF s] by blast
  let ?old = "bm_bitfield (sr_bitfieldMan r)" and ?all = "bm_bitfield (setAllBit (sr_bitfieldMan r))"
  obtain p' where p': "peer_setAllBitfield (self_peer s) = Some p'" "pr_res p' = Some (sr_markSeeder r)" "peer_sound n p'"
    using new_bits_peer [of "self_peer s" r sr_markSeeder n] r setAll_inv(1) [of "sr_bitfieldMan r"]
    by (auto simp: peer_setAllBitfield_def sr_markSeeder_def)
  have old: "peer_getBitfield (self_peer s) = Some ?old" "peer_getBitfield p' = Some ?all"
    using r(1) p'(2) by (simp_all add: peer_getBitfield_def ask_res_def sr_markSeeder_def)
  let ?st = "pst_addPieceStats ?all (pst_subtractPieceStats ?old (se_storage s))"
  have "session_sound n (s\<lparr>se_peers := (se_peers s)[se_self s := p'], se_storage := ?st\<rparr>)"
  proof (rule session_sound_new_bits [OF s r(1) p'(2,3)])
    fix xs ys assume l: "length (xs @ ys) < length (se_peers s)"
      and c: "counts_peers (xs @ ?old # ys) (pst_stats (se_storage s))"
    have "int (length (xs @ ys)) < INT_MAX" using l session_soundD(4) [OF s] by linarith
    from addPieceStats_counts [OF subtractPieceStats_counts [OF c] this, of ?all]
    show "counts_peers (xs @ bm_bitfield (sr_bitfieldMan (sr_markSeeder r)) # ys) (pst_stats ?st)"
      by (simp add: counts_peers_insert pst_addPieceStats_def pst_subtractPieceStats_def sr_markSeeder_def)
  qed (use session_soundD(5,6) [OF s] in \<open>simp_all add: pst_addPieceStats_def pst_subtractPieceStats_def\<close>)
  then show ?thesis
    using old on_self_eq [of peer_setAllBitfield "s\<lparr>se_storage := pst_subtractPieceStats ?old (se_storage s)\<rparr>"] p'(1)
      session_soundD(2) [OF s]
    by (simp add: received_have_all_def Let_def self_peer_def self_in_def)
qed

subsection \<open>Choke rounds\<close>

text \<open>The rounds of the environment are those of the two choke classes, on any standard algorithms.\<close>

definition choke_rounds :: "('h, 'd) session_env \<Rightarrow> bool" where
  "choke_rounds e \<longleftrightarrow>
     (\<exists>parting shuffle sorting. std_algorithms parting shuffle sorting \<and>
        sv_leecherRound e = leecher_executeChoke parting shuffle sorting) \<and>
     (\<exists>parting shuffle sorting outstanding. std_algorithms parting shuffle sorting \<and>
        sv_seederRound e = seeder_executeChoke shuffle sorting outstanding)"

lemma on_peers_frame:
  assumes "on_peers ks f ps = Some ps'" and "\<And>p p'. f p = Some p' \<Longrightarrow> peer_frame p' = peer_frame p"
  shows "map peer_frame ps' = map peer_frame ps"
  using assms(1)
proof (induction ks arbitrary: ps)
  case (Cons k ks)
  obtain qs where q: "on_peer k f ps = Some qs" "on_peers ks f qs = Some ps'"
    using Cons.prems by (auto simp: bind_eq_Some_conv)
  show ?case using Cons.IH [OF q(2)] on_peer_frame [OF q(1) assms(2)] by simp
qed simp

lemma speed_frames:
  "le_new now k p = Some (p', e) \<Longrightarrow> peer_frame p' = peer_frame p"
  "se_new outstanding now k p = Some (p', e') \<Longrightarrow> peer_frame p' = peer_frame p"
  by (auto simp: le_new_def se_new_def bind_eq_Some_conv peer_calculateDownloadSpeed_def
      peer_calculateUploadSpeed_def peer_frame_def split_beta Let_def)

lemma le_collect_frame: "le_collect now k ps = Some (ps', es) \<Longrightarrow> map peer_frame ps' = map peer_frame ps"
  by (induction now k ps arbitrary: ps' es rule: le_collect.induct)
    (auto simp: bind_eq_Some_conv flag_frames speed_frames split: if_splits)

lemma se_collect_frame: "se_collect outstanding now k ps = Some (ps', es) \<Longrightarrow> map peer_frame ps' = map peer_frame ps"
  by (induction outstanding now k ps arbitrary: ps' es rule: se_collect.induct)
    (auto simp: bind_eq_Some_conv flag_frames speed_frames split: if_splits)

lemma opt_frames:
  "on_peer k (peer_setChokingRequired b) ps = Some ps' \<Longrightarrow> map peer_frame ps' = map peer_frame ps"
  "on_peer k (peer_setOptUnchoking b) ps = Some ps' \<Longrightarrow> map peer_frame ps' = map peer_frame ps"
  "on_peers ks (peer_setChokingRequired b) ps = Some ps' \<Longrightarrow> map peer_frame ps' = map peer_frame ps"
  "on_peers ks (peer_setOptUnchoking b) ps = Some ps' \<Longrightarrow> map peer_frame ps' = map peer_frame ps"
  by (erule on_peer_frame on_peers_frame, erule flag_frames)+

lemma unchoke_loop_frame: "unchoke_loop quota es fast ps = Some (ps', b) \<Longrightarrow> map peer_frame ps' = map peer_frame ps"
proof (induction quota es fast ps rule: unchoke_loop.induct)
  case (3 quota e es fast ps)
  obtain i where i: "peer_peerInterested (ps ! le_peer e) = Some i"
    using 3(4) by (auto simp: bind_eq_Some_conv)
  show ?case
  proof (cases i)
    case True
    obtain qs opt where q: "on_peer (le_peer e) (peer_setChokingRequired False) ps = Some qs"
        "peer_optUnchoking (qs ! le_peer e) = Some opt" using 3(4) i True by (auto simp: bind_eq_Some_conv)
    have fr: "map peer_frame qs = map peer_frame ps" by (rule opt_frames(1) [OF q(1)])
    show ?thesis
    proof (cases opt)
      case True
      obtain rs where r: "on_peer (le_peer e) (peer_setOptUnchoking False) qs = Some rs" "unchoke_loop quota es True rs = Some (ps', b)"
        using 3(4) i \<open>i\<close> q True by (auto simp: bind_eq_Some_conv)
      show ?thesis using 3(2) [OF i _ q True r(1,2)] opt_frames(2) [OF r(1)] fr \<open>i\<close> by simp
    next
      case False
      have "unchoke_loop quota es fast qs = Some (ps', b)" using 3(4) i \<open>i\<close> q False by simp
      then show ?thesis using 3(3) [OF i _ q False] fr \<open>i\<close> by simp
    qed
  next
    case False
    then show ?thesis using 3(1) [OF i False] 3(4) i by simp
  qed
qed simp_all

lemma planned_frame:
  assumes "plannedOptimisticUnchoke parting shuffle es ps = Some (ps', es')"
  shows "map peer_frame ps' = map peer_frame ps"
proof -
  obtain qs where q1: "on_peers (map le_peer es) (peer_setOptUnchoking False) ps = Some qs"
    using assms by (auto simp: plannedOptimisticUnchoke_def bind_eq_Some_conv)
  obtain yes no where q2: "parting (\<lambda>e. peer_filter True True (qs ! le_peer e)) es = (yes, no)" by fastforce
  note q = q1 q2
  have "map peer_frame ps' = map peer_frame qs"
  proof (cases "yes = []")
    case False
    then have "on_peer (le_peer (hd (shuffle yes))) (peer_setOptUnchoking True) qs = Some ps'"
      using assms q by (auto simp: plannedOptimisticUnchoke_def bind_eq_Some_conv Let_def)
    then show ?thesis by (rule opt_frames(2))
  qed (use assms q in \<open>simp add: plannedOptimisticUnchoke_def\<close>)
  then show ?thesis using opt_frames(4) [OF q(1)] by simp
qed

lemma fastOptUnchoke_frame: "fastOptUnchoke es ps = Some ps' \<Longrightarrow> map peer_frame ps' = map peer_frame ps"
  by (auto simp: fastOptUnchoke_def opt_frames split: option.splits)

lemma regular_frame:
  assumes "regularUnchoke parting shuffle sorting es ps = Some ps'"
  shows "map peer_frame ps' = map peer_frame ps"
proof -
  obtain qs fast where q: "unchoke_loop 3 (regular_order parting shuffle sorting es) False ps = Some (qs, fast)"
    using assms by (auto simp: regularUnchoke_def bind_eq_Some_conv Let_def)
  have "map peer_frame ps' = map peer_frame qs"
    using assms q fastOptUnchoke_frame by (cases fast) (auto simp: regularUnchoke_def Let_def)
  then show ?thesis using unchoke_loop_frame [OF q] by simp
qed

lemma leecher_frame:
  assumes "leecher_executeChoke parting shuffle sorting now ch ps = Some (ch', ps')"
  shows "map peer_frame ps' = map peer_frame ps"
proof -
  obtain qs es rs es' where q: "le_collect now 0 ps = Some (qs, es)"
      "(if ch_round ch = 0 then plannedOptimisticUnchoke parting shuffle es qs else Some (qs, es)) = Some (rs, es')"
      "regularUnchoke parting shuffle sorting es' rs = Some ps'"
    using assms unfolding leecher_executeChoke_def by (auto simp: bind_eq_Some_conv simp del: if_splits)
  have "map peer_frame rs = map peer_frame qs"
    using q(2) planned_frame by (auto split: if_splits)
  moreover have "map peer_frame ps' = map peer_frame rs"
    by (rule regular_frame [OF q(3)])
  ultimately show ?thesis using le_collect_frame [OF q(1)] by simp
qed

lemma seeder_unchoke_frame:
  assumes "seeder_unchoke shuffle sorting rnd es ps = Some ps'"
  shows "map peer_frame ps' = map peer_frame ps"
proof -
  define n where "n = (if rnd = 2 then 4 else 3 :: nat)"
  define os where "os = sorting se_less es"
  have run: "do { ps \<leftarrow> on_peers (map se_peer (take n os)) (peer_setChokingRequired False) ps;
     if rnd < 2 then do {
       ps \<leftarrow> on_peers (map se_peer os) (peer_setOptUnchoking False) ps;
       if drop n os \<noteq> [] then on_peer (se_peer (hd (shuffle (drop n os)))) (peer_setOptUnchoking True) ps
       else Some ps }
     else Some ps } = Some ps'"
    using assms unfolding seeder_unchoke_def n_def os_def Let_def .
  obtain qs where q: "on_peers (map se_peer (take n os)) (peer_setChokingRequired False) ps = Some qs"
    using run by (auto simp: bind_eq_Some_conv)
  have "map peer_frame ps' = map peer_frame qs"
  proof (cases "rnd < 2")
    case True
    obtain rs where r: "on_peers (map se_peer os) (peer_setOptUnchoking False) qs = Some rs"
      using run q True by (auto simp: bind_eq_Some_conv)
    have "map peer_frame ps' = map peer_frame rs"
    proof (cases "drop n os = []")
      case False
      then have "on_peer (se_peer (hd (shuffle (drop n os)))) (peer_setOptUnchoking True) rs = Some ps'"
        using run q True r by simp
      then show ?thesis by (rule opt_frames(2))
    qed (use run q True r in simp)
    then show ?thesis using opt_frames(4) [OF r] by simp
  qed (use run q in simp)
  then show ?thesis using opt_frames(3) [OF q] by simp
qed

lemma seeder_frame:
  assumes "seeder_executeChoke shuffle sorting outstanding now ch ps = Some (ch', ps')"
  shows "map peer_frame ps' = map peer_frame ps"
proof -
  obtain qs es where q: "se_collect outstanding now 0 ps = Some (qs, es)"
      "seeder_unchoke shuffle sorting (ch_round ch) es qs = Some ps'"
    using assms unfolding seeder_executeChoke_def by (auto simp: bind_eq_Some_conv)
  show ?thesis using seeder_unchoke_frame [OF q(2)] se_collect_frame [OF q(1)] by simp
qed

lemma seeder_returns:
  assumes "std_algorithms parting shuffle sorting"
  shows "\<exists>r. seeder_executeChoke shuffle sorting outstanding now ch ps = Some r"
proof -
  let ?qs = "map (se_touched now) ps" and ?es = "se_entries_of outstanding now ps"
  have col: "se_collect outstanding now 0 ps = Some (?qs, ?es)" by (simp add: se_collect_eq se_entries_of_def)
  note touched = se_touched_sets [where now = now and ps = ps]
  note sq = same_sets [OF touched(1)]
  note F = se_entries_of_facts [where outstanding = outstanding and now = now and ps = ps]
  have act: "se_peer ` set ?es \<subseteq> actives ?qs" using F(1) sq(1) peers_with_active by auto
  have rounds: "\<forall>e\<in>set ?es. round_entry now e" using se_round_entry by blast
  have "\<exists>ps'. seeder_unchoke shuffle sorting (ch_round ch) ?es ?qs = Some ps'"
    using seeder_unchoke_spec [OF assms act rounds touched(2) F(2), where round = "ch_round ch"] by blast
  then show ?thesis using col by (auto simp: seeder_executeChoke_def)
qed

lemma leecher_returns:
  assumes "std_algorithms parting shuffle sorting"
  shows "\<exists>r. leecher_executeChoke parting shuffle sorting now ch ps = Some r"
  using leecher_steps [OF assms, where ps = ps and now = now and ch = ch] by blast

lemma executeChoke_same:
  assumes "choke_rounds e"
  shows "\<exists>s'. executeChoke e s = Some s' \<and> same_session s s'"
proof (cases "downloadFinished (se_storage s)")
  case True
  obtain parting shuffle sorting outstanding where alg: "std_algorithms parting shuffle sorting"
      and e: "sv_seederRound e = seeder_executeChoke shuffle sorting outstanding"
    using assms unfolding choke_rounds_def by blast
  obtain ch ps where r: "sv_seederRound e (sv_now e) (se_seeder s) (se_peers s) = Some (ch, ps)"
    using seeder_returns [OF alg] unfolding e by fastforce
  show ?thesis using True r seeder_frame [OF r [unfolded e]] by (simp add: executeChoke_def same_session_def)
next
  case False
  obtain parting shuffle sorting where alg: "std_algorithms parting shuffle sorting"
      and e: "sv_leecherRound e = leecher_executeChoke parting shuffle sorting"
    using assms unfolding choke_rounds_def by blast
  obtain ch ps where r: "sv_leecherRound e (sv_now e) (se_leecher s) (se_peers s) = Some (ch, ps)"
    using leecher_returns [OF alg] unfolding e by fastforce
  show ?thesis using False r leecher_frame [OF r [unfolded e]] by (simp add: executeChoke_def same_session_def)
qed

subsection \<open>The piece storage\<close>

lemma deleteUsedPiece_frame: "storage_frame (fst (deleteUsedPiece p st)) = storage_frame st"
  by (simp add: deleteUsedPiece_def storage_frame_def split_beta Let_def)

lemma put_used_frame [simp]: "storage_frame (put_used p st) = storage_frame st"
  by (simp add: put_used_def storage_frame_def)

lemma sync_frame [simp]: "storage_frame (sync h st) = storage_frame st"
  by (simp add: sync_def storage_frame_def)

lemma cache_frame [simp]: "storage_frame (st\<lparr>pst_cache := c\<rparr>) = storage_frame st"
  by (simp add: storage_frame_def)

lemma unsetUseBit_frame: "storage_frame (st\<lparr>pst_bitfieldMan := fst (unsetUseBit (pst_bitfieldMan st) i)\<rparr>) = storage_frame st"
  by (simp add: storage_frame_def fst_set_ops haves_def bits_arr_def)

lemma cancelPiece_frame: "storage_frame (fst (cancelPiece p cuid st)) = storage_frame st"
  by (simp add: cancelPiece_def Let_def deleteUsedPiece_frame unsetUseBit_frame)

lemma storage_cancel_frame: "storage_frame (snd (storage_cancel a cuid (h, st))) = storage_frame st"
  using cancelPiece_frame [of "h a" cuid st] by (simp add: storage_cancel_def split_beta Let_def)

lemma rf_doChokedAction_frame:
  assumes "rf_doChokedAction storage_cancel allowed f (h, st) = (f', h', st')"
  shows "storage_frame st' = storage_frame st"
proof -
  let ?step = "\<lambda>a (h, st). if \<not> allowed (pc_index (h a)) then storage_cancel a (rf_cuid f) (h, st) else (h, st)"
  have "storage_frame (snd (fold ?step as (h, st))) = storage_frame st" for as h and st :: "('h, 'd) piece_storage"
  proof (induction as arbitrary: h st)
    case (Cons a as)
    obtain h1 st1 where s1: "?step a (h, st) = (h1, st1)" by fastforce
    have "storage_frame st1 = storage_frame st"
      using s1 storage_cancel_frame [of a "rf_cuid f" h st] by (auto split: if_splits)
    then show ?case using Cons.IH [of h1 st1] s1 by (simp del: split_paired_All)
  qed simp
  from this [of "rf_pieces f" h st] show ?thesis using assms by (auto simp: rf_doChokedAction_def split_beta Let_def)
qed

subsection \<open>All messages but blocks\<close>

lemma received_flag_sound:
  assumes s: "session_sound n s" and e: "choke_rounds e"
  shows "\<exists>s'. received_interested e s = Some (s', None) \<and> session_sound n s'"
    "\<exists>s'. received_not_interested e s = Some (s', None) \<and> session_sound n s'"
    "\<exists>s'. received_unchoke s = Some (s', None) \<and> session_sound n s'"
    "\<exists>s'. received_allowed_fast index s = Some (s', None) \<and> session_sound n s'"
proof -
  have round: "\<exists>s2. do { choking \<leftarrow> peer_amChoking (self_peer s1);
      map_option (\<lambda>s. (s, None)) (if b choking then executeChoke e s1 else Some s1) } = Some (s2, None) \<and>
      session_sound n s2" if s1: "same_session s s1" for s1 and b :: "bool \<Rightarrow> bool"
  proof -
    have sound: "session_sound n s1" by (rule session_sound_same [OF s s1])
    obtain c where c: "peer_amChoking (self_peer s1) = Some c"
      using flags_known(1) [OF session_soundD(3) [OF sound]] by blast
    obtain s2 where s2: "executeChoke e s1 = Some s2" "same_session s1 s2" using executeChoke_same [OF e] by blast
    show ?thesis using c s2 sound session_sound_same [OF sound s2(2)] by (cases "b c") simp_all
  qed
  obtain s1 where s1: "on_self (peer_setPeerInterested True) s = Some s1" "same_session s s1"
    using on_self_flags(2) [OF s] by blast
  show "\<exists>s'. received_interested e s = Some (s', None) \<and> session_sound n s'"
    using round [OF s1(2), of "\<lambda>c. c"] s1(1) by (simp add: received_interested_def)
  obtain s2 where s2: "on_self (peer_setPeerInterested False) s = Some s2" "same_session s s2"
    using on_self_flags(2) [OF s] by blast
  show "\<exists>s'. received_not_interested e s = Some (s', None) \<and> session_sound n s'"
    using round [OF s2(2), of Not] s2(1) by (simp add: received_not_interested_def)
  show "\<exists>s'. received_unchoke s = Some (s', None) \<and> session_sound n s'"
    using on_self_flags(1) [OF s, of False] session_sound_same [OF s] by (auto simp: received_unchoke_def)
  show "\<exists>s'. received_allowed_fast index s = Some (s', None) \<and> session_sound n s'"
    using on_self_flags(3) [OF s, of index] session_sound_same [OF s] by (auto simp: received_allowed_fast_def)
qed

lemma received_choke_sound:
  assumes s: "session_sound n s"
  shows "\<exists>s'. received_choke s = Some (s', None) \<and> session_sound n s'"
proof -
  obtain s1 where s1: "on_self (peer_setPeerChoking True) s = Some s1" "same_session s s1"
    using on_self_flags(1) [OF s] by blast
  have sound: "session_sound n s1" by (rule session_sound_same [OF s s1(2)])
  obtain fs where fs: "getPeerAllowedIndexSet (self_peer s1) = Some fs"
    using flags_known(5) [OF session_soundD(3) [OF sound]] by blast
  let ?al = "\<lambda>i. i \<in> set fs"
  obtain d h where d: "dp_doChokedAction ?al (se_dispatcher s1, pieces_of (se_storage s1)) = (d, h)" by fastforce
  obtain f h2 st where f: "rf_doChokedAction storage_cancel ?al (se_factory s1) (h, sync h (se_storage s1)) = (f, h2, st)"
    by (rule prod_cases3)
  have "storage_frame st = storage_frame (se_storage s1)" using rf_doChokedAction_frame [OF f] by simp
  then have "same_session s1 (s1\<lparr>se_dispatcher := d, se_factory := f, se_storage := st\<rparr>)" by (simp add: same_session_def)
  from session_sound_same [OF sound this] show ?thesis using s1(1) fs d f by (simp add: received_choke_def)
qed

lemma received_request_sound:
  assumes s: "session_sound n s" and i: "index < n"
  shows "\<exists>s'. received_request e index begin' len s = Some (s', None) \<and> session_sound n s'"
proof -
  note act = flags_known [OF session_soundD(3) [OF s]]
  obtain c where c: "peer_amChoking (self_peer s) = Some c" using act(1) by blast
  obtain a where a: "isInAmAllowedIndexSet (self_peer s) index = Some a" using act(3) by blast
  obtain f where f: "peer_isFastExtensionEnabled (self_peer s) = Some f" using act(4) by blast
  have h: "hasPiece (se_storage s) index = Some (index \<in> haves (pst_bitfieldMan (se_storage s)))"
    using i session_soundD(5) [OF s] by (simp add: hasPiece_def isBitSet_haves)
  have q: "session_sound n (queue_message e m s)" for m
    using session_sound_same [OF s, of "queue_message e m s"] by (simp add: same_session_def queue_message_def)
  show ?thesis using c a f h q s by (simp add: received_request_def)
qed

lemma received_cancel_reject_sound:
  assumes s: "session_sound n s"
  shows "\<exists>s'. received_cancel index begin' len s = Some (s', None) \<and> session_sound n s'"
    "\<exists>s'. received_reject index begin' len s = Some (s', None) \<and> session_sound n s'"
proof -
  have same: "session_sound n s'" if "same_session s s'" for s' using session_sound_same [OF s that] .
  obtain f where f: "peer_isFastExtensionEnabled (self_peer s) = Some f"
    using flags_known(4) [OF session_soundD(3) [OF s]] by blast
  show "\<exists>s'. received_cancel index begin' len s = Some (s', None) \<and> session_sound n s'"
    using f same by (auto simp: received_cancel_def same_session_def)
  show "\<exists>s'. received_reject index begin' len s = Some (s', None) \<and> session_sound n s'"
    using same by (auto simp: received_reject_def same_session_def split_beta Let_def)
qed

lemma when_fast_sound:
  assumes s: "session_sound n s" and r: "\<exists>s' err. r = Some (s', err) \<and> session_sound n s'"
  shows "\<exists>s' err. when_fast s r = Some (s', err) \<and> session_sound n s'"
proof -
  obtain f where "peer_isFastExtensionEnabled (self_peer s) = Some f"
    using flags_known(4) [OF session_soundD(3) [OF s]] by blast
  then show ?thesis using s r by (simp add: when_fast_def)
qed

text \<open>What validation says of a message.\<close>

lemma valid_index: "validate (validatorOf env msg) = None \<Longrightarrow> \<not> me_metadataGetMode env \<Longrightarrow>
    msg = Have i \<or> msg = Request i b l k \<or> msg = AllowedFast i \<Longrightarrow> i < me_numPieces env"
  by (auto simp: checkIndex_def split: if_splits)

fun is_block :: "'x bt_message \<Rightarrow> bool" where
  "is_block (PieceBlock index begin' blockLength) = True"
| "is_block msg = False"

lemma control_message_sound:
  assumes s: "session_sound n s" and e: "choke_rounds e" and n: "me_numPieces env = n" "0 < n" "n + 7 < 2 ^ 64"
    and meta: "me_metadataGetMode env = sv_metadataGetMode e"
    and v: "validate (validatorOf env msg) = None" and msg: "\<not> is_block msg" "msg \<noteq> Bits []"
  shows "\<exists>s' err. doReceivedAction e msg data s = Some (s', err) \<and> session_sound n s'"
proof -
  define ok where "ok r \<longleftrightarrow> (\<exists>s' err. r = Some (s', err) \<and> session_sound n s')" for r :: "('a, 'b, 'c) received_result"
  have known: "ok (received_interested e s)" "ok (received_not_interested e s)" "ok (received_unchoke s)"
      "ok (received_allowed_fast i s)" "ok (received_choke s)" "ok (received_cancel i b l s)" "ok (received_reject i b l s)"
      "ok (received_have_all s)" "ok (Some (s, None))" for i b l
    unfolding ok_def using received_flag_sound [OF s e] received_choke_sound [OF s] received_cancel_reject_sound [OF s]
      received_have_all_sound [OF s] s by blast+
  have fast: "ok (when_fast s r)" if "ok r" for r using when_fast_sound [OF s] that unfolding ok_def by blast
  have "ok (doReceivedAction e msg data s)"
  proof (cases "sv_metadataGetMode e")
    case True
    then show ?thesis using known(9) fast by (cases msg) (simp_all add: doReceivedAction_def)
  next
    case False
    then have idx: "i < n" if "msg = Have i \<or> msg = Request i b l k \<or> msg = AllowedFast i" for i b l k
      using valid_index [OF v _ that] meta n(1) by simp
    show ?thesis
    proof (cases msg)
      case (Have i)
      then show ?thesis using received_have_sound [OF s idx] False by (simp add: doReceivedAction_def ok_def)
    next
      case (Bits bf)
      then show ?thesis using received_bitfield_sound [OF s, of bf] checkBitfield_iff [of bf n] msg(2) n meta v False
        by (simp add: doReceivedAction_def ok_def)
    next
      case (Request i b l k)
      have "i < n" by (rule idx) (use Request in blast)
      then show ?thesis using Request received_request_sound [OF s, of i e b l] False
        by (auto simp: doReceivedAction_def ok_def)
    qed (use msg(1) known fast False in \<open>simp_all add: doReceivedAction_def\<close>)
  qed
  then show ?thesis by (simp add: ok_def)
qed

subsection \<open>The pieces we have\<close>

definition had :: "('h, 'x, 'd) session \<Rightarrow> nat set" where
  "had s = haves (pst_bitfieldMan (se_storage s))"

lemma storage_frame_had: "storage_frame (se_storage s') = storage_frame (se_storage s) \<Longrightarrow> had s' = had s"
  by (simp add: had_def storage_frame_def)

lemma stat_had [simp]:
  "pst_bitfieldMan (pst_addPieceStat i st) = pst_bitfieldMan st" "pst_bitfieldMan (pst_addPieceStats bf st) = pst_bitfieldMan st"
  "pst_bitfieldMan (pst_subtractPieceStats bf st) = pst_bitfieldMan st"
  "pst_bitfieldMan (pst_updatePieceStats bf bf' st) = pst_bitfieldMan st"
  by (simp_all add: pst_addPieceStat_def pst_addPieceStats_def pst_subtractPieceStats_def pst_updatePieceStats_def)

lemma executeChoke_storage: "executeChoke e s = Some s' \<Longrightarrow> se_storage s' = se_storage s"
  by (auto simp: executeChoke_def split: if_splits)

lemma received_had:
  "received_interested e s = Some (s', err) \<Longrightarrow> had s' = had s"
  "received_not_interested e s = Some (s', err) \<Longrightarrow> had s' = had s"
  "received_unchoke s = Some (s', err) \<Longrightarrow> had s' = had s"
  "received_have i s = Some (s', err) \<Longrightarrow> had s' = had s"
  "received_bitfield bf s = Some (s', err) \<Longrightarrow> had s' = had s"
  "received_have_all s = Some (s', err) \<Longrightarrow> had s' = had s"
  "received_allowed_fast i s = Some (s', err) \<Longrightarrow> had s' = had s"
  "received_request e i b l s = Some (s', err) \<Longrightarrow> had s' = had s"
  "received_cancel i b l s = Some (s', err) \<Longrightarrow> had s' = had s"
  "received_reject i b l s = Some (s', err) \<Longrightarrow> had s' = had s"
  by (auto simp: had_def received_interested_def received_not_interested_def received_unchoke_def received_have_def
      received_bitfield_def received_have_all_def received_allowed_fast_def received_request_def received_cancel_def
      received_reject_def bind_eq_Some_conv on_self_fields executeChoke_storage queue_message_def sync_def split_beta Let_def
      split: if_splits)

lemma received_choke_had:
  assumes "received_choke s = Some (s', err)"
  shows "had s' = had s"
proof -
  obtain s1 fs where s1: "on_self (peer_setPeerChoking True) s = Some s1" "getPeerAllowedIndexSet (self_peer s1) = Some fs"
    using assms by (auto simp: received_choke_def bind_eq_Some_conv)
  let ?al = "\<lambda>i. i \<in> set fs"
  obtain d h where d: "dp_doChokedAction ?al (se_dispatcher s1, pieces_of (se_storage s1)) = (d, h)" by fastforce
  obtain f h2 st where f: "rf_doChokedAction storage_cancel ?al (se_factory s1) (h, sync h (se_storage s1)) = (f, h2, st)"
    by (rule prod_cases3)
  have "se_storage s' = st" using assms s1 d f by (auto simp: received_choke_def)
  then show ?thesis using rf_doChokedAction_frame [OF f] on_self_fields(1) [OF s1(1)]
    by (intro storage_frame_had) simp
qed

lemma control_message_had:
  assumes "doReceivedAction e msg data s = Some (s', err)" and "\<not> is_block msg"
  shows "had s' = had s"
  using assms by (cases msg)
    (auto simp: doReceivedAction_def when_fast_def bind_eq_Some_conv received_had received_choke_had split: if_splits)

text \<open>An environment at a concrete input.\<close>

definition tiny_env :: "(byte list, unit) session_env" where
  "tiny_env = \<lparr>sv_now = 0, sv_cuid = 1, sv_metadataGetMode = False, sv_pieceLength = 4, sv_digest = \<lparr>dg_create = \<lambda>_. [], dg_update = (@), dg_digest = \<lambda>h. h\<rparr>,
     sv_pieceHash = (\<lambda>_. [1, 2, 3, 4]), sv_reader = (\<lambda>_ _ d. (d, Inl [])), sv_write = (\<lambda>_ _ _ d. (d, None)),
     sv_leecherRound = leecher_executeChoke stable_parting id insertion_sort,
     sv_seederRound = seeder_executeChoke id insertion_sort (\<lambda>_. 0)\<rparr>"

lemma tiny_rounds: "choke_rounds tiny_env"
  unfolding choke_rounds_def
proof
  show "\<exists>parting shuffle sorting. std_algorithms parting shuffle sorting \<and>
      sv_leecherRound tiny_env = leecher_executeChoke parting shuffle sorting"
    by (intro exI conjI, rule stable.std_algorithms_axioms) (simp add: tiny_env_def)
  show "\<exists>parting shuffle sorting outstanding. std_algorithms parting shuffle sorting \<and>
      sv_seederRound tiny_env = seeder_executeChoke shuffle sorting outstanding"
    by (intro exI conjI, rule stable.std_algorithms_axioms) (simp add: tiny_env_def)
qed

end
