(* ===== verification/SessionBlocks.thy ===== *)
theory SessionBlocks
  imports SessionTypes
begin

text \<open>
  A block on its way: what a piece message changes, and when a piece becomes one we have. Also the
  loop over the messages of one turn.
\<close>

subsection \<open>What the steps of a block leave alone\<close>

text \<open>The digest of a piece, where reading it does not fail.\<close>

definition piece_digest :: "('h, 'd) session_env \<Rightarrow> 'h piece \<Rightarrow> ('h, 'd) piece_storage \<Rightarrow> byte list option" where
  "piece_digest e p st =
     (if isHashCalculated p then Some (snd (getDigest (sv_digest e) p))
      else case snd (getDigestWithWrCache (sv_digest e) (sv_reader e) (sv_pieceLength e)
             (map_option (\<lambda>ent. we_set (ws_ents (pst_cache st) ent)) (pc_wrCache p)) p (ws_disk (pst_cache st))) of
           Inl digest \<Rightarrow> Some digest | Inr _ \<Rightarrow> None)"

lemma getDigest_index: "getDigest ops p = (p', d) \<Longrightarrow> pc_index p' = pc_index p"
  by (auto simp: getDigest_def destroyHashContext_def Let_def split: if_splits option.splits)

lemma put_used_bm [simp]: "pst_bitfieldMan (put_used p st) = pst_bitfieldMan st"
  by (simp add: put_used_def)

lemma clear_piece_had:
  assumes "clear_piece e p st = Some (st', p')"
  shows "pst_bitfieldMan st' = pst_bitfieldMan st"
  using assms by (auto simp: clear_piece_def bind_eq_Some_conv)

lemma checkPieceHash_right:
  assumes "checkPieceHash e p st = Some (st', p', r)"
  shows "pst_bitfieldMan st' = pst_bitfieldMan st"
    "r = Inl True \<Longrightarrow> piece_digest e p st = Some (sv_pieceHash e (pc_index p)) \<and> pc_index p' = pc_index p"
proof -
  have "pst_bitfieldMan st' = pst_bitfieldMan st \<and>
    (r = Inl True \<longrightarrow> piece_digest e p st = Some (sv_pieceHash e (pc_index p)) \<and> pc_index p' = pc_index p)"
  proof (cases "isHashCalculated p")
    case True
    obtain q d where d: "getDigest (sv_digest e) p = (q, d)" by fastforce
    then show ?thesis using assms True getDigest_index [OF d] by (auto simp: checkPieceHash_def piece_digest_def)
  next
    case False
    let ?g = "getDigestWithWrCache (sv_digest e) (sv_reader e) (sv_pieceLength e)
              (map_option (\<lambda>ent. we_set (ws_ents (pst_cache st) ent)) (pc_wrCache p)) p (ws_disk (pst_cache st))"
    obtain disk x where g: "?g = (disk, x)" by fastforce
    show ?thesis
    proof (cases x)
      case (Inl d)
      then show ?thesis using assms False g by (auto simp: checkPieceHash_def piece_digest_def Let_def)
    next
      case (Inr err)
      then have "\<exists>q. clear_piece e p (st\<lparr>pst_cache := (pst_cache st)\<lparr>ws_disk := disk\<rparr>\<rparr>) = Some (st', q)" "r = Inr err"
        using assms False g by (auto simp: checkPieceHash_def Let_def bind_eq_Some_conv)
      then show ?thesis using clear_piece_had by fastforce
    qed
  qed
  then show "pst_bitfieldMan st' = pst_bitfieldMan st"
    "r = Inl True \<Longrightarrow> piece_digest e p st = Some (sv_pieceHash e (pc_index p)) \<and> pc_index p' = pc_index p" by blast+
qed

lemma deleteUsedPiece_bm: "pst_bitfieldMan (fst (deleteUsedPiece p st)) = pst_bitfieldMan st"
  by (simp add: deleteUsedPiece_def split_beta Let_def)

lemma completePiece_had:
  assumes "completePiece p st = (st', p', fin)" and "bm_inv (pst_bitfieldMan st)"
  shows "haves (pst_bitfieldMan st') \<subseteq> insert (pc_index p) (haves (pst_bitfieldMan st))"
proof -
  obtain st1 p1 where d: "deleteUsedPiece p st = (st1, p1)" by fastforce
  have "pst_bitfieldMan st1 = pst_bitfieldMan st" using deleteUsedPiece_bm [of p st] d by simp
  moreover have "pc_index p1 = pc_index p" using deleteUsedPiece_fields(1) [of p st] d by simp
  moreover have "bm_inv (fst (setBit (pst_bitfieldMan st) i))" for i by (rule set_ops_inv(1) [OF assms(2)])
  ultimately show ?thesis using assms d
    by (auto simp: completePiece_def Let_def set_ops_views split: if_splits)
qed

lemma advertisePiece_bm [simp]: "pst_bitfieldMan (advertisePiece cuid i now st) = pst_bitfieldMan st"
  by (simp add: advertisePiece_def Let_def)

lemma onNewPiece_had:
  assumes "onNewPiece e p st = Some (st', err)" and "bm_inv (pst_bitfieldMan st)"
  shows "haves (pst_bitfieldMan st') \<subseteq> insert (pc_index p) (haves (pst_bitfieldMan st))"
    "err \<noteq> None \<Longrightarrow> haves (pst_bitfieldMan st') = haves (pst_bitfieldMan st)"
proof -
  have finish: "haves (pst_bitfieldMan st2) \<subseteq> insert (pc_index p) (haves (pst_bitfieldMan st)) \<and> x = None"
    if "(let (st, p, finished) = completePiece p st1
         in Some (advertisePiece (sv_cuid e) (pc_index p) (sv_now e) st, None)) = Some (st2, x)"
      and "pst_bitfieldMan st1 = pst_bitfieldMan st" for st1 st2 :: "('a, 'b) piece_storage" and x :: "received_error option"
  proof -
    obtain st3 p3 f3 where c: "completePiece p st1 = (st3, p3, f3)" by (rule prod_cases3)
    then show ?thesis using completePiece_had [OF c] that assms(2) by auto
  qed
  have "haves (pst_bitfieldMan st') \<subseteq> insert (pc_index p) (haves (pst_bitfieldMan st)) \<and> err = None \<or>
      pst_bitfieldMan st' = pst_bitfieldMan st"
  proof (cases "pc_wrCache p")
    case None
    then show ?thesis using finish [of st] assms(1) by (simp add: onNewPiece_def)
  next
    case (Some ent)
    obtain c where c: "flushWrCache (sv_write e) (pst_hasCache st) p (pst_cache st) = Some c"
      using assms(1) Some by (auto simp: onNewPiece_def bind_eq_Some_conv)
    show ?thesis
    proof (cases "we_error (ws_ents c ent)")
      case True
      then obtain st2 p2 where cl: "clear_piece e p (st\<lparr>pst_cache := c\<rparr>) = Some (st2, p2)" "st' = st2"
        using assms(1) Some c by (auto simp: onNewPiece_def bind_eq_Some_conv)
      then show ?thesis using clear_piece_had [OF cl(1)] by simp
    next
      case False
      then show ?thesis using finish [of "st\<lparr>pst_cache := c\<rparr>"] assms(1) Some c by (simp add: onNewPiece_def)
    qed
  qed
  then show "haves (pst_bitfieldMan st') \<subseteq> insert (pc_index p) (haves (pst_bitfieldMan st))"
    "err \<noteq> None \<Longrightarrow> haves (pst_bitfieldMan st') = haves (pst_bitfieldMan st)" by auto
qed

lemma removeTargetPiece_frame:
  assumes "removeTargetPiece storage_cancel a f d (h, st) = (f', d', h', st')"
  shows "storage_frame st' = storage_frame st"
proof -
  have "(h', st') = storage_cancel a (rf_cuid f) (snd (doAbortOutstandingRequestAction a (d, h)), st)"
    using assms by (auto simp: removeTargetPiece_def split_beta Let_def)
  then show ?thesis using storage_cancel_frame [of a "rf_cuid f"] by (metis snd_conv)
qed

lemma onWrongPiece_had:
  assumes "onWrongPiece e p s = Some s'"
  shows "had s' = had s" "se_peers s' = se_peers s" "se_self s' = se_self s"
proof -
  obtain st p1 where c: "clear_piece e p (se_storage s) = Some (st, p1)"
    using assms by (auto simp: onWrongPiece_def bind_eq_Some_conv)
  let ?st = "put_used (destroyHashContext p1) st"
  obtain f d h st2 where r: "removeTargetPiece storage_cancel (pc_index p1) (se_factory s) (se_dispatcher s) (pieces_of ?st, ?st) = (f, d, h, st2)"
    by (metis prod_cases4)
  have s': "s' = s\<lparr>se_factory := f, se_dispatcher := d, se_storage := st2\<rparr>"
    using assms c r by (auto simp: onWrongPiece_def Let_def)
  have "haves (pst_bitfieldMan st2) = haves (pst_bitfieldMan st)"
    using removeTargetPiece_frame [OF r] by (simp add: storage_frame_def put_used_def)
  then show "had s' = had s" using clear_piece_had [OF c] s' by (simp add: had_def)
  show "se_peers s' = se_peers s" "se_self s' = se_self s" using s' by simp_all
qed

lemma pieces_of_index: "pc_index (pieces_of st i) = i"
proof -
  have "pc_index p = i" if "findUsedPiece st i = Some p" for p
    using that by (auto simp: findUsedPiece_def find_Some_iff)
  then show ?thesis
    by (auto simp: pieces_of_def getPiece_def piece_new_def setAllBlock_def Let_def bind_eq_Some_conv split: option.split if_splits)
qed

lemma piece_finished_had:
  assumes "piece_finished e i s = Some (s', err)" and "bm_inv (pst_bitfieldMan (se_storage s))"
  shows "had s' = had s \<or> had s' \<subseteq> insert i (had s) \<and> err = None \<and>
      piece_digest e (pieces_of (se_storage s) i) (se_storage s) = Some (sv_pieceHash e i)"
    "se_peers s' = se_peers s" "se_self s' = se_self s"
proof -
  obtain st p r where c: "checkPieceHash e (pieces_of (se_storage s) i) (se_storage s) = Some (st, p, r)"
    using assms(1) by (auto simp: piece_finished_def bind_eq_Some_conv)
  note right = checkPieceHash_right [OF c, unfolded pieces_of_index]
  have "(had s' = had s \<or> had s' \<subseteq> insert i (had s) \<and> err = None \<and>
      piece_digest e (pieces_of (se_storage s) i) (se_storage s) = Some (sv_pieceHash e i)) \<and>
    se_peers s' = se_peers s \<and> se_self s' = se_self s"
  proof (cases r)
    case (Inr x)
    then show ?thesis using assms(1) c right(1) by (auto simp: piece_finished_def had_def)
  next
    case (Inl b)
    show ?thesis
    proof (cases b)
      case True
      then obtain st2 where n: "onNewPiece e p st = Some (st2, err)" "s' = s\<lparr>se_storage := st2\<rparr>"
        using assms(1) c Inl by (auto simp: piece_finished_def bind_eq_Some_conv)
      have "bm_inv (pst_bitfieldMan st)" using assms(2) right(1) by simp
      note new = onNewPiece_had [OF n(1) this]
      show ?thesis using new right Inl True n(2) by (cases "err = None") (simp_all add: had_def)
    next
      case False
      then obtain s2 where "onWrongPiece e p (s\<lparr>se_storage := st\<rparr>) = Some s2" "s' = s2"
        using assms(1) c Inl by (auto simp: piece_finished_def bind_eq_Some_conv)
      then show ?thesis using onWrongPiece_had [of e p "s\<lparr>se_storage := st\<rparr>" s'] right(1) by (simp add: had_def)
    qed
  qed
  then show "had s' = had s \<or> had s' \<subseteq> insert i (had s) \<and> err = None \<and>
      piece_digest e (pieces_of (se_storage s) i) (se_storage s) = Some (sv_pieceHash e i)"
    "se_peers s' = se_peers s" "se_self s' = se_self s" by blast+
qed

lemma write_block_bm:
  assumes "write_block e data offset p st = Some (st', err)"
  shows "pst_bitfieldMan st' = pst_bitfieldMan st"
  using assms by (auto simp: write_block_def split_beta Let_def split: if_splits)

text \<open>The storage when the hash is checked holds the bytes of the block and the pieces we had.\<close>

definition stored_block ::
  "('h, 'd) session_env \<Rightarrow> nat \<Rightarrow> int \<Rightarrow> byte list \<Rightarrow> ('h, 'd) piece_storage \<Rightarrow> ('h, 'd) piece_storage \<Rightarrow> bool" where
  "stored_block e index begin' data st st' \<longleftrightarrow>
     (\<exists>p st1. write_block e data (int index * int (sv_pieceLength e) + begin') p st = Some (st1, None) \<and>
        pst_cache st' = pst_cache st1 \<and> pst_bitfieldMan st' = pst_bitfieldMan st)"

lemma new_block_had:
  assumes "new_block e i b data slot p s = Some (s', err)" and "bm_inv (pst_bitfieldMan (se_storage s))"
  shows "had s' = had s \<or> had s' \<subseteq> insert i (had s) \<and> err = None \<and>
      (\<exists>st. stored_block e i b data (se_storage s) st \<and> piece_digest e (pieces_of st i) st = Some (sv_pieceHash e i))"
    "se_peers s' = se_peers s" "se_self s' = se_self s"
proof -
  obtain st x where w: "write_block e data (int i * int (sv_pieceLength e) + b) p (se_storage s) = Some (st, x)"
    using assms(1) by (auto simp: new_block_def bind_eq_Some_conv)
  note bm = write_block_bm [OF w]
  have "(had s' = had s \<or> had s' \<subseteq> insert i (had s) \<and> err = None \<and>
      (\<exists>st. stored_block e i b data (se_storage s) st \<and> piece_digest e (pieces_of st i) st = Some (sv_pieceHash e i))) \<and>
    se_peers s' = se_peers s \<and> se_self s' = se_self s"
  proof (cases x)
    case (Some code)
    then show ?thesis using assms(1) w bm by (auto simp: new_block_def had_def)
  next
    case None
    define p1 where "p1 = fst (updateHash (sv_digest e) b data (completeBlock (rs_blockIndex slot) p))"
    obtain d h where r: "removeOutstandingRequest slot (se_dispatcher s, (pieces_of (put_used p1 st))(i := p1)) = (d, h)" by fastforce
    define s1 where "s1 = s\<lparr>se_dispatcher := d, se_storage := sync h (put_used p1 st)\<rparr>"
    have run: "(if pieceComplete (h i) then piece_finished e i s1 else Some (s1, None)) = Some (s', err)"
      using assms(1) w None r unfolding s1_def p1_def new_block_def by (simp add: Let_def split del: if_split)
    have s1: "se_peers s1 = se_peers s" "se_self s1 = se_self s" "pst_bitfieldMan (se_storage s1) = pst_bitfieldMan (se_storage s)"
        "pst_cache (se_storage s1) = pst_cache st"
      using bm by (simp_all add: s1_def sync_def put_used_def)
    have st: "stored_block e i b data (se_storage s) (se_storage s1)" using w None s1 by (auto simp: stored_block_def)
    show ?thesis
    proof (cases "pieceComplete (h i)")
      case True
      then have "piece_finished e i s1 = Some (s', err)" using run by simp
      note fin = piece_finished_had [OF this]
      show ?thesis using fin assms(2) s1 st by (auto simp: had_def)
    next
      case False
      then show ?thesis using run s1 by (auto simp: had_def)
    qed
  qed
  then show "had s' = had s \<or> had s' \<subseteq> insert i (had s) \<and> err = None \<and>
      (\<exists>st. stored_block e i b data (se_storage s) st \<and> piece_digest e (pieces_of st i) st = Some (sv_pieceHash e i))"
    "se_peers s' = se_peers s" "se_self s' = se_self s" by blast+
qed

subsection \<open>Piece messages\<close>

lemma received_piece_had:
  assumes "received_piece e i b data s = Some (s', err)" and "bm_inv (pst_bitfieldMan (se_storage s))" and "self_in s"
  shows "had s' = had s \<or> had s' \<subseteq> insert i (had s) \<and> err = None \<and>
      (\<exists>slot. getOutstandingRequest (se_dispatcher s) i b (int (length data)) = Some slot) \<and>
      (\<exists>st. stored_block e i b data (se_storage s) st \<and> piece_digest e (pieces_of st i) st = Some (sv_pieceHash e i))"
    "self_in s'"
proof -
  obtain s1 where s1: "on_self (peer_updateDownload (sv_now e) (int (length data))) s = Some s1"
    using assms(1) by (auto simp: received_piece_def bind_eq_Some_conv Let_def)
  define s2 where "s2 = s1\<lparr>se_netStat := ns_updateDownload (sv_now e) (length data) (se_netStat s1),
           se_overallStat := ns_updateDownload (sv_now e) (length data) (se_overallStat s1)\<rparr>"
  have s2: "se_storage s2 = se_storage s" "se_dispatcher s2 = se_dispatcher s" "self_in s2"
    using on_self_fields [OF s1] assms(3) by (simp_all add: s2_def self_in_def)
  have "(had s' = had s \<or> had s' \<subseteq> insert i (had s) \<and> err = None \<and>
      (\<exists>slot. getOutstandingRequest (se_dispatcher s) i b (int (length data)) = Some slot) \<and>
      (\<exists>st. stored_block e i b data (se_storage s) st \<and> piece_digest e (pieces_of st i) st = Some (sv_pieceHash e i))) \<and> self_in s'"
  proof (cases "getOutstandingRequest (se_dispatcher s) i b (int (length data))")
    case None
    then have "s' = s2" using assms(1) s1 by (simp add: received_piece_def s2_def Let_def)
    then show ?thesis using s2 by (simp add: had_def)
  next
    case (Some slot)
    obtain s3 where s3: "on_self (peer_setSnubbing False) s2 = Some s3"
      using assms(1) s1 Some by (auto simp: received_piece_def s2_def bind_eq_Some_conv Let_def)
    have s3': "se_storage s3 = se_storage s" "self_in s3"
      using on_self_fields [OF s3] s2 by (simp_all add: self_in_def)
    obtain p where p: "getPiece (se_storage s3) i = Some (Some p)"
      using assms(1) s1 Some s3 by (auto simp: received_piece_def s2_def bind_eq_Some_conv Let_def)
    obtain has where has: "hasBlock p (rs_blockIndex slot) = Some has"
      using assms(1) s1 Some s3 p by (auto simp: received_piece_def s2_def bind_eq_Some_conv Let_def)
    show ?thesis
    proof (cases has)
      case True
      then have "s' = s3" using assms(1) s1 Some s3 p has by (simp add: received_piece_def s2_def Let_def)
      then show ?thesis using s3' by (simp add: had_def)
    next
      case False
      then have "new_block e i b data slot p s3 = Some (s', err)"
        using assms(1) s1 Some s3 p has by (simp add: received_piece_def s2_def Let_def)
      note nb = new_block_had [OF this, unfolded s3'(1), OF assms(2)]
      have "had s3 = had s" using s3' by (simp add: had_def)
      then show ?thesis using nb Some s3' by (auto simp: self_in_def)
    qed
  qed
  then show "had s' = had s \<or> had s' \<subseteq> insert i (had s) \<and> err = None \<and>
      (\<exists>slot. getOutstandingRequest (se_dispatcher s) i b (int (length data)) = Some slot) \<and>
      (\<exists>st. stored_block e i b data (se_storage s) st \<and> piece_digest e (pieces_of st i) st = Some (sv_pieceHash e i))"
    "self_in s'" by blast+
qed

lemma unrequested_same:
  assumes "received_piece e i b data s = Some (s', err)"
    and "getOutstandingRequest (se_dispatcher s) i b (int (length data)) = None"
  shows "\<exists>s1. on_self (peer_updateDownload (sv_now e) (int (length data))) s = Some s1 \<and> err = None \<and>
    s' = s1\<lparr>se_netStat := ns_updateDownload (sv_now e) (length data) (se_netStat s1),
           se_overallStat := ns_updateDownload (sv_now e) (length data) (se_overallStat s1)\<rparr>"
  using assms by (auto simp: received_piece_def bind_eq_Some_conv Let_def)

subsection \<open>The connection stays with its peer\<close>

lemma piece_finished_self:
  assumes "piece_finished e i s = Some (s', err)"
  shows "se_peers s' = se_peers s \<and> se_self s' = se_self s"
proof -
  obtain st p r where c: "checkPieceHash e (pieces_of (se_storage s) i) (se_storage s) = Some (st, p, r)"
    using assms by (auto simp: piece_finished_def bind_eq_Some_conv)
  consider err' where "r = Inr err'" | "r = Inl True" | "r = Inl False" by (cases r) auto
  then show ?thesis
    using assms c onWrongPiece_had(2,3) [of e p "s\<lparr>se_storage := st\<rparr>"]
    by cases (auto simp: piece_finished_def bind_eq_Some_conv Let_def)
qed

lemma new_block_self:
  "new_block e i b data slot p s = Some (s', err) \<Longrightarrow> se_peers s' = se_peers s \<and> se_self s' = se_self s"
  by (auto simp: new_block_def bind_eq_Some_conv Let_def split_beta piece_finished_self
      dest!: piece_finished_self split: option.splits if_splits)

lemma received_piece_self: "received_piece e i b data s = Some (s', err) \<Longrightarrow> self_in s \<Longrightarrow> self_in s'"
  by (auto simp: received_piece_def bind_eq_Some_conv Let_def self_in_def on_self_fields
      dest!: new_block_self split: option.splits if_splits)

lemma executeChoke_self:
  assumes "choke_rounds e" and "executeChoke e s = Some s'"
  shows "self_in s' = self_in s"
proof -
  have "same_session s s'" using executeChoke_same [OF assms(1), of s] assms(2) by auto
  then have "map peer_frame (se_peers s') = map peer_frame (se_peers s)" "se_self s' = se_self s"
    by (simp_all add: same_session_def)
  then show ?thesis using frame_nth(1) [of "se_peers s'" "se_peers s"] by (simp only: self_in_def)
qed

lemma received_choke_self: "received_choke s = Some (s', err) \<Longrightarrow> self_in s \<Longrightarrow> self_in s'"
  by (auto simp: received_choke_def bind_eq_Some_conv self_in_def on_self_fields split_beta Let_def)

lemma received_others_self:
  "received_unchoke s = Some (s', err) \<Longrightarrow> self_in s \<Longrightarrow> self_in s'"
  "received_have i s = Some (s', err) \<Longrightarrow> self_in s \<Longrightarrow> self_in s'"
  "received_bitfield bf s = Some (s', err) \<Longrightarrow> self_in s \<Longrightarrow> self_in s'"
  "received_have_all s = Some (s', err) \<Longrightarrow> self_in s \<Longrightarrow> self_in s'"
  "received_allowed_fast i s = Some (s', err) \<Longrightarrow> self_in s \<Longrightarrow> self_in s'"
  "received_request e i b l s = Some (s', err) \<Longrightarrow> self_in s \<Longrightarrow> self_in s'"
  "received_cancel i b l s = Some (s', err) \<Longrightarrow> self_in s \<Longrightarrow> self_in s'"
  "received_reject i b l s = Some (s', err) \<Longrightarrow> self_in s \<Longrightarrow> self_in s'"
  by (auto simp: self_in_def received_unchoke_def received_have_def received_bitfield_def received_have_all_def
      received_allowed_fast_def received_request_def received_cancel_def received_reject_def bind_eq_Some_conv
      on_self_fields queue_message_def split_beta Let_def split: if_splits)

lemma received_interest_self:
  assumes "choke_rounds e" and "self_in s"
  shows "received_interested e s = Some (s', err) \<Longrightarrow> self_in s'"
    "received_not_interested e s = Some (s', err) \<Longrightarrow> self_in s'"
proof -
  have on: "self_in s1" if "on_self f s = Some s1" for f s1 using on_self_fields [OF that] assms(2) by (simp add: self_in_def)
  have ex: "self_in s2" if "executeChoke e s1 = Some s2" "self_in s1" for s1 s2
    using executeChoke_self [OF assms(1) that(1)] that(2) by simp
  show "received_interested e s = Some (s', err) \<Longrightarrow> self_in s'" "received_not_interested e s = Some (s', err) \<Longrightarrow> self_in s'"
    using on ex by (auto simp: received_interested_def received_not_interested_def bind_eq_Some_conv split: if_splits)
qed

lemma received_message_self:
  assumes "doReceivedAction e msg data s = Some (s', err)" and "choke_rounds e" and "self_in s"
  shows "self_in s'"
  using assms by (cases msg)
    (auto simp: doReceivedAction_def when_fast_def bind_eq_Some_conv split: if_splits
      intro: received_others_self received_interest_self received_choke_self received_piece_self)

subsection \<open>The messages of one turn\<close>

lemma count_message_session: "count_message e msg t = Some t' \<Longrightarrow> it_session t' = it_session t"
  by (auto simp: count_message_def bind_eq_Some_conv split: bt_message.splits if_splits)

lemma count_message_returns:
  assumes "isActive (the_peer t)"
  shows "\<exists>t'. count_message e msg t = Some t'"
  using flags_known(2) [OF assms] by (cases msg) (auto simp: count_message_def)

lemma receive_control:
  assumes "session_sound n (it_session t)" and "choke_rounds e" and "me_numPieces env = n" and "0 < n" and "n + 7 < 2 ^ 64"
    and "me_metadataGetMode env = sv_metadataGetMode e"
    and "\<forall>(msg, data)\<in>set msgs. validate (validatorOf env msg) = None \<and> \<not> is_block msg \<and> msg \<noteq> Bits []"
  shows "\<exists>t' k' err. receive_loop e exceeds msgs k t = Some (t', k', err) \<and> session_sound n (it_session t') \<and>
    had (it_session t') = had (it_session t) \<and> k' \<le> k + length msgs"
  using assms(1,7)
proof (induction msgs arbitrary: k t)
  case (Cons m msgs)
  obtain msg data where m: "m = (msg, data)" by fastforce
  have ok: "validate (validatorOf env msg) = None" "\<not> is_block msg" "msg \<noteq> Bits []" using Cons.prems(2) m by auto
  obtain s err where r: "doReceivedAction e msg data (it_session t) = Some (s, err)" "session_sound n s"
    using control_message_sound [OF Cons.prems(1) assms(2-6) ok] by blast
  note h = control_message_had [OF r(1) ok(2)]
  show ?case
  proof (cases "exceeds k \<or> err \<noteq> None")
    case True
    then show ?thesis using Cons.prems(1) m r h by (cases err) auto
  next
    case False
    obtain t1 where t1: "count_message e msg (t\<lparr>it_session := s\<rparr>) = Some t1"
      using count_message_returns [of "t\<lparr>it_session := s\<rparr>"] session_soundD(3) [OF r(2)] by auto
    have s1: "it_session t1 = s" using count_message_session [OF t1] by simp
    from Cons.IH [of t1 "k + 1"] obtain t' k' err' where "receive_loop e exceeds msgs (k + 1) t1 = Some (t', k', err')"
        "session_sound n (it_session t')" "had (it_session t') = had s" "k' \<le> k + 1 + length msgs"
      using r(2) Cons.prems(2) s1 by auto
    then show ?thesis using False m r(1) t1 h by auto
  qed
qed simp

end
