(* ===== verification/SessionProperties.thy ===== *)
theory SessionProperties
  imports SessionBlocks
begin

text \<open>Properties of a connection: what received messages do, flooding and the entry into the end game.\<close>

subsection \<open>A small connection: one piece of four bytes, asked for and not there\<close>

definition tiny_peer :: peer where
  "tiny_peer = the (allocateSessionResource 0 4 4 (peer_new 0 ''10.0.0.1'' 6881 False))"

definition tiny_storage :: "(byte list, unit) piece_storage" where
  "tiny_storage = (pst_new 4 4 [0] [] ''sha-1'' False 0 \<lparr>ws_cache = wc_new 0, ws_ents = (\<lambda>_. we_new 0), ws_disk = ()\<rparr>)
     \<lparr>pst_used := [setHashType ''sha-1'' (piece_new 0 4 16384)]\<rparr>"

definition tiny_session :: "(byte list, unit, unit) session" where
  "tiny_session = \<lparr>se_peers = [tiny_peer], se_self = 0, se_leecher = ch_new, se_seeder = ch_new,
     se_dispatcher = addOutstandingRequest (slot_new 0 0 0 4 0 0) (dispatcher_new 1 60),
     se_factory = addTargetPiece 0 (factory_new 1), se_storage = tiny_storage, se_netStat = ns_new 0, se_overallStat = ns_new 0\<rparr>"

lemma tiny_bm: "bm_blocks (bm_new 4 4) = 1" "bm_bitfield (bm_new 4 4) = [0]"
  by code_simp+

lemma tiny_peer_res: "\<exists>r. pr_res tiny_peer = Some r \<and> sr_bitfieldMan r = bm_new 4 4 \<and> \<not> pr_seeder tiny_peer"
proof -
  have "\<not> isAllBitSet (bm_new 4 4)" by code_simp
  then show ?thesis
    by (simp add: tiny_peer_def allocateSessionResource_def updateSeeder_def sr_hasAllPieces_def sr_new_def
        ns_downloadStart_def Let_def)
qed

lemma tiny_sound: "session_sound 1 tiny_session"
proof -
  obtain r where r: "pr_res tiny_peer = Some r" "sr_bitfieldMan r = bm_new 4 4" "\<not> pr_seeder tiny_peer"
    using tiny_peer_res by blast
  have bits: "piece_bits tiny_peer = [[0]]" using r tiny_bm by (simp add: piece_bits_def)
  have "peer_sound 1 tiny_peer" using r tiny_bm bm_new_inv [of 4 4] by (auto simp: peer_sound_def)
  moreover have "\<not> bitat (array [0 :: byte]) 0" by code_simp
  ultimately show ?thesis using r(1) bits tiny_bm
    by (simp add: session_sound_def self_in_def self_peer_def isActive_def tiny_session_def tiny_storage_def pst_new_def
        stats_new_def counts_peers_def)
qed


definition tiny_messages :: message_env where
  "tiny_messages = \<lparr>me_numPieces = 1, me_pieceLength = (\<lambda>_. 4), me_metadataGetMode = False, me_extendedMessaging = False\<rparr>"

definition tiny_turn :: "(byte list, unit, unit) interactive" where
  "tiny_turn = it_new 0 tiny_session"

lemma tiny_turn_session [simp]: "it_session tiny_turn = tiny_session"
  by (simp add: tiny_turn_def it_new_def)

subsection \<open>Received messages\<close>

text \<open>C37: types are kept. Whatever a peer sends but blocks, one turn of receiving validated messages
  fails no assertion and follows no null pointer; after it every peer still has a bitfield of the size
  of the download that obeys the class invariant, its seeder flag says whether it has every piece, the
  piece statistics count the bitfields of the peers exactly, and what we have is as before.\<close>

theorem messages_keep_types:
  assumes "session_sound n (it_session t)" and "choke_rounds e" and "me_numPieces env = n" and "0 < n" and "n + 7 < 2 ^ 64"
    and "me_metadataGetMode env = sv_metadataGetMode e"
    and "\<forall>(msg, data)\<in>set msgs. validate (validatorOf env msg) = None \<and> \<not> is_block msg \<and> msg \<noteq> Bits []"
  shows "\<exists>t' k' err. receive_loop e exceeds msgs k t = Some (t', k', err) \<and> session_sound n (it_session t') \<and>
    had (it_session t') = had (it_session t) \<and> k' \<le> k + length msgs"
  by (rule receive_control [OF assms])

theorem messages_keep_types_witness:
  "\<exists>t' k' err. receive_loop tiny_env (\<lambda>_. False) [(Unchoke, []), (Have 0, []), (Interested, []), (HaveAll, [])] 0 tiny_turn =
      Some (t', k', err) \<and> session_sound 1 (it_session t')"
proof -
  have "\<forall>(msg, data)\<in>set [(Unchoke, []), (Have 0, []), (Interested, []), (HaveAll :: unit bt_message, [])].
      validate (validatorOf tiny_messages msg) = None \<and> \<not> is_block msg \<and> msg \<noteq> Bits []"
    by (simp add: tiny_messages_def checkIndex_def)
  from messages_keep_types [of 1 tiny_turn tiny_env tiny_messages, OF _ tiny_rounds _ _ _ _ this]
  show ?thesis using tiny_sound by (fastforce simp: tiny_messages_def tiny_env_def)
qed











text \<open>A block nobody asked for changes neither the storage nor the requests, yet it counts as a
  download from the peer: if the peer is interested, it is then a candidate for a regular unchoke of the
  leecher as one that has just sent a block.\<close>

theorem unrequested_block_rewarded:
  assumes "doReceivedAction e (PieceBlock i begin' len) data s = Some (s', err)" and "\<not> sv_metadataGetMode e"
    and "getOutstandingRequest (se_dispatcher s) i begin' (int (length data)) = None" and "self_in s"
  shows "err = None \<and> se_storage s' = se_storage s \<and> se_dispatcher s' = se_dispatcher s \<and> se_factory s' = se_factory s \<and>
    peer_getLastDownloadUpdate (self_peer s') = Some (sv_now e) \<and>
    regular_unchoker (sv_now e) (self_peer s') = (peer_peerInterested (self_peer s) = Some True)"
proof -
  have "received_piece e i begin' data s = Some (s', err)" using assms(1,2) by (simp add: doReceivedAction_def)
  from unrequested_same [OF this assms(3)] obtain s1 where
    s1: "on_self (peer_updateDownload (sv_now e) (int (length data))) s = Some s1" "err = None"
    and s': "s' = s1\<lparr>se_netStat := ns_updateDownload (sv_now e) (length data) (se_netStat s1),
           se_overallStat := ns_updateDownload (sv_now e) (length data) (se_overallStat s1)\<rparr>" by blast
  note f = on_self_fields [OF s1(1)] and p = self_peer_on_self(1) [OF s1(1) assms(4)]
  obtain r where r: "pr_res (self_peer s) = Some r"
    "pr_res (self_peer s1) = Some (sr_updateDownload (sv_now e) (int (length data)) r)"
    using p by (auto simp: peer_updateDownload_def with_res_def dest: sym)
  have "self_peer s' = self_peer s1" using s' by simp
  then show ?thesis using s1(2) s' f r
    by (simp add: peer_getLastDownloadUpdate_def regular_unchoker_def peer_peerInterested_def ask_res_def
        sr_updateDownload_def tm_difference_def)
qed

theorem unrequested_block_rewarded_witness:
  "\<exists>s'. doReceivedAction tiny_env (PieceBlock 0 1 3 :: unit bt_message) [1, 2, 3] tiny_session = Some (s', None) \<and>
    se_storage s' = se_storage tiny_session \<and> peer_getLastDownloadUpdate (self_peer s') = Some 0"
proof -
  have none: "getOutstandingRequest (se_dispatcher tiny_session) 0 1 (int (length [1, 2, 3 :: byte])) = None" by code_simp
  have "\<exists>s' err. doReceivedAction tiny_env (PieceBlock 0 1 3 :: unit bt_message) [1, 2, 3] tiny_session = Some (s', err)"
  proof -
    have "doReceivedAction tiny_env (PieceBlock 0 1 3 :: unit bt_message) [1, 2, 3] tiny_session \<noteq> None" by code_simp
    then show ?thesis by auto
  qed
  then obtain s' err where run: "doReceivedAction tiny_env (PieceBlock 0 1 3 :: unit bt_message) [1, 2, 3] tiny_session = Some (s', err)"
    by blast
  have "self_in tiny_session" "\<not> sv_metadataGetMode tiny_env" "sv_now tiny_env = 0"
    by (simp_all add: self_in_def tiny_session_def tiny_env_def)
  with unrequested_block_rewarded [OF run _ none] run show ?thesis by auto
qed

subsection \<open>Flooding\<close>

lemma receive_loop_flood:
  assumes "\<not> sv_metadataGetMode e" and "choke_rounds e"
  shows "receive_loop e exceeds msgs k t = Some (t', k', err) \<Longrightarrow> self_in (it_session t) \<Longrightarrow>
    fl_chokeUnchokeCount (it_floodingStat t') = fl_chokeUnchokeCount (it_floodingStat t)"
proof (induction msgs arbitrary: k t)
  case (Cons m msgs)
  obtain msg data where m: "m = (msg, data)" by fastforce
  show ?case
  proof (cases "exceeds k")
    case False
    obtain s x where r: "doReceivedAction e msg data (it_session t) = Some (s, x)"
      using Cons.prems(1) m False by (auto simp: bind_eq_Some_conv)
    have self: "self_in s" by (rule received_message_self [OF r assms(2) Cons.prems(2)])
    show ?thesis
    proof (cases x)
      case None
      obtain t1 where t1: "count_message e msg (t\<lparr>it_session := s\<rparr>) = Some t1"
          "receive_loop e exceeds msgs (k + 1) t1 = Some (t', k', err)"
        using Cons.prems(1) m False r None by (auto simp: bind_eq_Some_conv)
      have "fl_chokeUnchokeCount (it_floodingStat t1) = fl_chokeUnchokeCount (it_floodingStat (t\<lparr>it_session := s\<rparr>))"
        using r by (intro count_message_choke [OF t1(1)])
          (use choke_seen unchoke_seen assms(1) Cons.prems(2) in \<open>fastforce+\<close>)
      moreover have "self_in (it_session t1)" using count_message_session [OF t1(1)] self by simp
      ultimately show ?thesis using Cons.IH [OF t1(2)] by simp
    qed (use Cons.prems(1) m False r in auto)
  qed (use Cons.prems(1) m in simp)
qed simp

text \<open>C39: flooding with choke messages is never detected. \<open>receiveMessages\<close> lets a message take
  effect before it compares the message with what the peer was doing, so outside the mode that fetches
  the torrent file the counter of choke and unchoke messages never moves, whatever is received; from a
  counter that is zero, as it is at the start and after every check, a connection is only ever dropped
  for keep-alive messages.\<close>

theorem choke_flood_unseen:
  assumes "receiveMessages e exceeds msgs t = Some (t', k, err)" and "\<not> sv_metadataGetMode e" and "choke_rounds e"
    and "self_in (it_session t)" and "fl_chokeUnchokeCount (it_floodingStat t) = 0"
  shows "fl_chokeUnchokeCount (it_floodingStat t') = 0 \<and>
    (snd (detectMessageFlooding e t') \<noteq> None \<longleftrightarrow>
       tm_difference (it_floodingTimer t') (sv_now e) \<ge> 5 * SECOND \<and> fl_keepAliveCount (it_floodingStat t') \<ge> 2) \<and>
    (snd (detectMessageFlooding e t') = None \<longrightarrow> fl_chokeUnchokeCount (it_floodingStat (fst (detectMessageFlooding e t'))) = 0)"
proof -
  obtain t1 k1 err1 where l: "receive_loop e exceeds msgs 0 t = Some (t1, k1, err1)" "it_floodingStat t' = it_floodingStat t1"
    using assms(1) by (auto simp: receiveMessages_def bind_eq_Some_conv Let_def split: if_splits)
  have "fl_chokeUnchokeCount (it_floodingStat t') = 0"
    using receive_loop_flood [OF assms(2,3) l(1) assms(4)] l(2) assms(5) by simp
  then show ?thesis by (simp add: detectMessageFlooding_def fl_new_def)
qed

theorem choke_flood_unseen_witness:
  "\<exists>t' k err. receiveMessages tiny_env (\<lambda>_. False) (concat (replicate 9 [(Unchoke, []), (Choke, [])])) tiny_turn = Some (t', k, err) \<and>
    fl_chokeUnchokeCount (it_floodingStat t') = 0"
proof -
  let ?msgs = "concat (replicate 9 [(Unchoke :: unit bt_message, []), (Choke, [])])"
  have v: "\<forall>(msg, data)\<in>set ?msgs. validate (validatorOf tiny_messages msg) = None \<and> \<not> is_block msg \<and> msg \<noteq> Bits []"
    by auto
  have "\<exists>t' k' err. receive_loop tiny_env (\<lambda>_. False) ?msgs 0 tiny_turn = Some (t', k', err)"
    using receive_control [of 1 tiny_turn tiny_env tiny_messages, OF _ tiny_rounds _ _ _ _ v] tiny_sound
    by (fastforce simp: tiny_messages_def tiny_env_def)
  then have "\<exists>t' k err. receiveMessages tiny_env (\<lambda>_. False) ?msgs tiny_turn = Some (t', k, err)"
    by (elim exE) (simp add: receiveMessages_def Let_def)
  then obtain t' k err where run: "receiveMessages tiny_env (\<lambda>_. False) ?msgs tiny_turn = Some (t', k, err)" by blast
  have "fl_chokeUnchokeCount (it_floodingStat tiny_turn) = 0" "\<not> sv_metadataGetMode tiny_env"
    by (simp_all add: tiny_turn_def it_new_def fl_new_def tiny_env_def)
  with choke_flood_unseen [OF run _ tiny_rounds] session_soundD(2) [OF tiny_sound] run show ?thesis by auto
qed

subsection \<open>The end game\<close>

text \<open>C40: when the end game begins. A piece is missing if it is selected and not had. The test counts
  missing pieces but multiplies its threshold by the blocks of a piece, and takes these to be 64 KiB:
  a download of at most 1280 pieces of 4 MiB, up to 5 GiB, is in the end game from its first request.\<close>

theorem end_game_begins:
  assumes "bm_inv (pst_bitfieldMan st)" and "\<not> pst_endGame st" and "pst_endGamePieceNum st \<noteq> 0"
  shows "(pst_endGame (check_end_game pieceLength st) \<longleftrightarrow>
      card (selected (pst_bitfieldMan st) - haves (pst_bitfieldMan st)) \<le>
        pst_endGamePieceNum st * max 1 (pieceLength div (64 * 1024)) \<or> \<not> hasMissingUnusedPiece st) \<and>
    (pst_endGamePieceNum st = 20 \<and> pieceLength = 4 * 1024 * 1024 \<and> bm_blocks (pst_bitfieldMan st) \<le> 1280 \<longrightarrow>
      pst_endGame (check_end_game pieceLength st))"
proof -
  let ?m = "pst_bitfieldMan st"
  have count: "countMissingPiece st = card (selected ?m - haves ?m)" by (simp add: countMissingPiece_def cached_meaning(1) [OF assms(1)])
  have first: "pst_endGame (check_end_game pieceLength st) \<longleftrightarrow>
      card (selected ?m - haves ?m) \<le> pst_endGamePieceNum st * max 1 (pieceLength div (64 * 1024)) \<or> \<not> hasMissingUnusedPiece st"
    using check_end_game_iff [OF assms(2,3)] by (simp add: count MAX_BLOCK_LENGTH_def)
  have "selected ?m \<subseteq> {..<bm_blocks ?m}" by (auto simp: selected_def dest: views_less)
  then have "card (selected ?m - haves ?m) \<le> card {..<bm_blocks ?m}" by (intro card_mono) auto
  then show ?thesis using first by auto
qed

theorem end_game_begins_witness:
  "pst_endGame (check_end_game 4194304 (pst_new 4194304 5368709120 [0..<1280] [] [] False 0
     \<lparr>ws_cache = wc_new 0, ws_ents = (\<lambda>_. we_new 0), ws_disk = ()\<rparr> :: (unit, unit) piece_storage))"
proof -
  let ?st = "pst_new 4194304 5368709120 [0..<1280] [] [] False 0
     \<lparr>ws_cache = wc_new 0, ws_ents = (\<lambda>_. we_new 0), ws_disk = ()\<rparr> :: (unit, unit) piece_storage"
  have m: "pst_bitfieldMan ?st = bm_new 4194304 5368709120" "\<not> pst_endGame ?st" "pst_endGamePieceNum ?st = 20"
    by (simp_all add: pst_new_def)
  have inv: "bm_inv (pst_bitfieldMan ?st)" unfolding m by (rule bm_new_inv) simp_all
  have "bm_blocks (bm_new 4194304 5368709120) = 1280" by (simp add: bm_new_def Let_def)
  then show ?thesis using conjunct2 [OF end_game_begins [OF inv m(2), of 4194304]] m by simp
qed

end
