(* ===== verification/PeerStorage.thy ===== *)
theory PeerStorage
  imports Received
begin

text \<open>
  \<open>DefaultPeerStorage\<close>: the peers of a download that are not in use, those that are, those that left,
  and the addresses that are banned. A peer is an object with an identity, so a pointer is a number and
  \<open>ps_peers\<close> the heap; a \<open>PeerSet\<close> is ordered by pointer. \<open>now\<close> is \<open>global::wallclock()\<close>. The choke
  rounds are those of the environment, and \<open>finished\<close> is \<open>downloadFinished()\<close>. The file of bans is
  left out.
\<close>

subsection \<open>State\<close>

definition MAX_PEER_LIST_SIZE :: nat where "MAX_PEER_LIST_SIZE = 512"
definition MAX_CONNECTIONS_PER_IP :: nat where "MAX_CONNECTIONS_PER_IP = 3"

record bad_peer_entry =
  be_expireTime :: int
  be_source :: string
  be_reason :: string

record peer_storage =
  ps_peers :: "nat \<Rightarrow> peer"
  ps_maxPeerListSize :: nat
  ps_uniqPeers :: "(string \<times> nat) set"
  ps_unusedPeers :: "nat list"
  ps_usedPeers :: "nat list"
  ps_droppedPeers :: "nat list"
  ps_seederStateChoke :: choke_state
  ps_leecherStateChoke :: choke_state
  ps_badPeers :: "string \<rightharpoonup> bad_peer_entry"
  ps_lastBadPeerCleaned :: int
  ps_attemptStats :: "string \<rightharpoonup> nat"
  ps_failStats :: "string \<rightharpoonup> nat"
  ps_tcpFailStats :: "string \<rightharpoonup> nat"
  ps_utpFailStats :: "string \<rightharpoonup> nat"
  ps_ipConnections :: "string \<rightharpoonup> nat"

definition ps_new :: "int \<Rightarrow> (nat \<Rightarrow> peer) \<Rightarrow> peer_storage" where
  "ps_new now heap =
     \<lparr>ps_peers = heap, ps_maxPeerListSize = MAX_PEER_LIST_SIZE, ps_uniqPeers = {}, ps_unusedPeers = [], ps_usedPeers = [],
      ps_droppedPeers = [], ps_seederStateChoke = ch_new, ps_leecherStateChoke = ch_new, ps_badPeers = (\<lambda>_. None),
      ps_lastBadPeerCleaned = now, ps_attemptStats = (\<lambda>_. None), ps_failStats = (\<lambda>_. None), ps_tcpFailStats = (\<lambda>_. None),
      ps_utpFailStats = (\<lambda>_. None), ps_ipConnections = (\<lambda>_. None)\<rparr>"

definition setMaxPeerListSize :: "nat \<Rightarrow> peer_storage \<Rightarrow> peer_storage" where
  "setMaxPeerListSize n s = s\<lparr>ps_maxPeerListSize := n\<rparr>"

abbreviation ip_of :: "peer_storage \<Rightarrow> nat \<Rightarrow> string" where
  "ip_of s p \<equiv> pr_ipaddr (ps_peers s p)"

definition addr_of :: "peer_storage \<Rightarrow> nat \<Rightarrow> string \<times> nat" where
  "addr_of s p = (pr_ipaddr (ps_peers s p), pr_origPort (ps_peers s p))"

definition at_peer :: "nat \<Rightarrow> (peer \<Rightarrow> peer) \<Rightarrow> peer_storage \<Rightarrow> peer_storage" where
  "at_peer p f s = s\<lparr>ps_peers := (ps_peers s)(p := f (ps_peers s p))\<rparr>"

subsection \<open>Statistics\<close>

text \<open>\<open>fmt("%s:%u")\<close>\<close>

fun decimal :: "nat \<Rightarrow> string" where
  "decimal n = (if n < 10 then [char_of (48 + n)] else decimal (n div 10) @ [char_of (48 + n mod 10)])"

definition peerKey :: "string \<Rightarrow> nat \<Rightarrow> string" where
  "peerKey ipaddr port = ipaddr @ '':'' @ decimal port"

text \<open>\<open>stats[key] += 1\<close> on a \<open>uint32_t\<close>.\<close>

definition bump :: "string \<Rightarrow> (string \<rightharpoonup> nat) \<Rightarrow> (string \<rightharpoonup> nat)" where
  "bump k m = m(k \<mapsto> ((case m k of None \<Rightarrow> 0 | Some n \<Rightarrow> n) + 1) mod 2 ^ 32)"

definition stat_of :: "(string \<rightharpoonup> nat) \<Rightarrow> string \<Rightarrow> nat \<Rightarrow> nat" where
  "stat_of m ipaddr port = (case m (peerKey ipaddr port) of None \<Rightarrow> 0 | Some n \<Rightarrow> n)"

definition getAttemptCount :: "string \<Rightarrow> nat \<Rightarrow> peer_storage \<Rightarrow> nat" where
  "getAttemptCount ipaddr port s = stat_of (ps_attemptStats s) ipaddr port"
definition getFailCount :: "string \<Rightarrow> nat \<Rightarrow> peer_storage \<Rightarrow> nat" where
  "getFailCount ipaddr port s = stat_of (ps_failStats s) ipaddr port"
definition getTcpFailCount :: "string \<Rightarrow> nat \<Rightarrow> peer_storage \<Rightarrow> nat" where
  "getTcpFailCount ipaddr port s = stat_of (ps_tcpFailStats s) ipaddr port"
definition getUtpFailCount :: "string \<Rightarrow> nat \<Rightarrow> peer_storage \<Rightarrow> nat" where
  "getUtpFailCount ipaddr port s = stat_of (ps_utpFailStats s) ipaddr port"
definition getUdpFailCount :: "string \<Rightarrow> nat \<Rightarrow> peer_storage \<Rightarrow> nat" where
  "getUdpFailCount ipaddr port s = 0"

definition erasePeerStats :: "string \<Rightarrow> nat \<Rightarrow> peer_storage \<Rightarrow> peer_storage" where
  "erasePeerStats ipaddr port s =
     (let key = peerKey ipaddr port in
      s\<lparr>ps_attemptStats := (ps_attemptStats s)(key := None), ps_failStats := (ps_failStats s)(key := None),
        ps_tcpFailStats := (ps_tcpFailStats s)(key := None), ps_utpFailStats := (ps_utpFailStats s)(key := None)\<rparr>)"

definition recordPeerFailure :: "nat \<Rightarrow> peer_storage \<Rightarrow> peer_storage" where
  "recordPeerFailure p s =
     (let key = peerKey (ip_of s p) (pr_origPort (ps_peers s p));
          s = s\<lparr>ps_failStats := bump key (ps_failStats s)\<rparr>
      in if pr_utp (ps_peers s p) then s\<lparr>ps_utpFailStats := bump key (ps_utpFailStats s)\<rparr>
         else s\<lparr>ps_tcpFailStats := bump key (ps_tcpFailStats s)\<rparr>)"

subsection \<open>Bans\<close>

text \<open>An expired ban is erased when it is looked at.\<close>

definition isBadPeer :: "int \<Rightarrow> string \<Rightarrow> peer_storage \<Rightarrow> peer_storage \<times> bool" where
  "isBadPeer now ipaddr s =
     (case ps_badPeers s ipaddr of
        None \<Rightarrow> (s, False)
      | Some b \<Rightarrow> if be_expireTime b \<le> now then (s\<lparr>ps_badPeers := (ps_badPeers s)(ipaddr := None)\<rparr>, False) else (s, True))"

text \<open>\<open>off r\<close>: the options switch bans for reason \<open>r\<close> off. \<open>rand\<close> is the random number below 601.\<close>

definition addBadPeer :: "int \<Rightarrow> (string \<Rightarrow> bool) \<Rightarrow> int \<Rightarrow> string \<Rightarrow> string \<Rightarrow> peer_storage \<Rightarrow> peer_storage" where
  "addBadPeer now off rand ipaddr reason s =
     (let r = (if reason = [] then ''auto'' else reason) in
      if r \<in> {''idle'', ''bad_data'', ''zero_progress'', ''snubbing''} \<and> off r then s
      else
        let s = (if tm_difference (ps_lastBadPeerCleaned s) now \<ge> 3600 * SECOND
                 then s\<lparr>ps_badPeers := (\<lambda>ip. case ps_badPeers s ip of
                          None \<Rightarrow> None | Some b \<Rightarrow> if be_expireTime b \<le> now then None else Some b),
                        ps_lastBadPeerCleaned := now\<rparr>
                 else s)
        in s\<lparr>ps_badPeers := (ps_badPeers s)(ipaddr \<mapsto>
             \<lparr>be_expireTime = now + max rand 120 * SECOND, be_source = ''auto'', be_reason = r\<rparr>)\<rparr>)"

definition addBadPeerManual :: "string \<Rightarrow> int \<Rightarrow> string \<Rightarrow> peer_storage \<Rightarrow> peer_storage" where
  "addBadPeerManual ipaddr expireTime reason s =
     s\<lparr>ps_badPeers := (ps_badPeers s)(ipaddr \<mapsto>
       \<lparr>be_expireTime = expireTime, be_source = ''manual'', be_reason = (if reason = [] then ''manual'' else reason)\<rparr>)\<rparr>"

definition removeBadPeer :: "string \<Rightarrow> peer_storage \<Rightarrow> peer_storage" where
  "removeBadPeer ipaddr s = s\<lparr>ps_badPeers := (ps_badPeers s)(ipaddr := None)\<rparr>"

subsection \<open>Adding\<close>

definition countAllPeer :: "peer_storage \<Rightarrow> nat" where
  "countAllPeer s = length (ps_unusedPeers s) + length (ps_usedPeers s)"

definition isPeerAvailable :: "peer_storage \<Rightarrow> bool" where
  "isPeerAvailable s \<longleftrightarrow> ps_unusedPeers s \<noteq> []"

definition isPeerAlreadyAdded :: "nat \<Rightarrow> peer_storage \<Rightarrow> bool" where
  "isPeerAlreadyAdded p s \<longleftrightarrow> addr_of s p \<in> ps_uniqPeers s"

definition addUniqPeer :: "nat \<Rightarrow> peer_storage \<Rightarrow> peer_storage" where
  "addUniqPeer p s = s\<lparr>ps_uniqPeers := insert (addr_of s p) (ps_uniqPeers s)\<rparr>"

definition onErasingPeer :: "nat \<Rightarrow> peer_storage \<Rightarrow> peer_storage" where
  "onErasingPeer p s = s\<lparr>ps_uniqPeers := ps_uniqPeers s - {addr_of s p}\<rparr>"

definition mergePeerDiscoveryFlags :: "nat option \<Rightarrow> nat \<Rightarrow> peer_storage \<Rightarrow> peer_storage" where
  "mergePeerDiscoveryFlags target source s =
     (case target of
        None \<Rightarrow> s
      | Some t \<Rightarrow>
          let q = ps_peers s source
          in at_peer t (\<lambda>p. p\<lparr>pr_fromDHT := pr_fromDHT p \<or> pr_fromDHT q, pr_fromPEX := pr_fromPEX p \<or> pr_fromPEX q,
               pr_localPeer := pr_localPeer p \<or> pr_localPeer q\<rparr>) s)"

definition ps_getPeer :: "string \<times> nat \<Rightarrow> peer_storage \<Rightarrow> nat option" where
  "ps_getPeer addr s =
     (case List.find (\<lambda>q. addr_of s q = addr) (ps_unusedPeers s) of
        Some q \<Rightarrow> Some q
      | None \<Rightarrow> List.find (\<lambda>q. addr_of s q = addr) (ps_usedPeers s))"

primrec deleteUnusedPeer :: "nat \<Rightarrow> peer_storage \<Rightarrow> peer_storage" where
  "deleteUnusedPeer 0 s = s"
| "deleteUnusedPeer (Suc delSize) s =
     (if ps_unusedPeers s = [] then s
      else
        let p = last (ps_unusedPeers s);
            s = erasePeerStats (ip_of s p) (pr_origPort (ps_peers s p)) (onErasingPeer p s)
        in deleteUnusedPeer delSize (s\<lparr>ps_unusedPeers := butlast (ps_unusedPeers s)\<rparr>))"

text \<open>What both versions of \<open>addPeer\<close> do with a peer; the flag says that it was added.\<close>

definition add_new_peer :: "int \<Rightarrow> nat \<Rightarrow> peer_storage \<Rightarrow> peer_storage \<times> bool" where
  "add_new_peer now p s =
     (if isPeerAlreadyAdded p s then (mergePeerDiscoveryFlags (ps_getPeer (addr_of s p) s) p s, False)
      else
        let (s, bad) = isBadPeer now (ip_of s p) s
        in if bad then (s, False)
           else (addUniqPeer p (s\<lparr>ps_unusedPeers := ps_unusedPeers s @ [p]\<rparr>), True))"

text \<open>The list is not full when the new peer is appended, so the code's \<open>deleteUnusedPeer\<close> there is dead.\<close>

definition addPeer :: "int \<Rightarrow> nat \<Rightarrow> peer_storage \<Rightarrow> peer_storage \<times> bool" where
  "addPeer now p s =
     (if length (ps_unusedPeers s) \<ge> ps_maxPeerListSize s then (s, False) else add_new_peer now p s)"

definition addPeers :: "int \<Rightarrow> nat list \<Rightarrow> peer_storage \<Rightarrow> peer_storage" where
  "addPeers now ps s =
     (let s = (if length (ps_unusedPeers s) < ps_maxPeerListSize s then fold (\<lambda>p s. fst (add_new_peer now p s)) ps s else s);
          peerListSize = length (ps_unusedPeers s)
      in if peerListSize > ps_maxPeerListSize s then deleteUnusedPeer (peerListSize - ps_maxPeerListSize s) s else s)"

subsection \<open>Checking out\<close>

definition isIpConnectionFull :: "string \<Rightarrow> peer_storage \<Rightarrow> bool" where
  "isIpConnectionFull ip s \<longleftrightarrow> (case ps_ipConnections s ip of None \<Rightarrow> False | Some n \<Rightarrow> n \<ge> MAX_CONNECTIONS_PER_IP)"

definition take_peer :: "int \<Rightarrow> int \<Rightarrow> nat \<Rightarrow> peer_storage \<Rightarrow> peer_storage" where
  "take_peer now cuid p s =
     (let s = at_peer p (\<lambda>q. peer_usedBy cuid (if pr_firstContactTime q = 0 then setFirstContactTime now q else q)) s;
          ip = ip_of s p
      in s\<lparr>ps_usedPeers := index_insert p (ps_usedPeers s),
           ps_ipConnections := (ps_ipConnections s)(ip \<mapsto> (case ps_ipConnections s ip of None \<Rightarrow> 0 | Some n \<Rightarrow> n) + 1),
           ps_attemptStats := bump (peerKey ip (pr_origPort (ps_peers s p))) (ps_attemptStats s)\<rparr>)"

text \<open>The loop ends after as many peers as there were at its start.\<close>

fun checkout_loop :: "int \<Rightarrow> int \<Rightarrow> nat \<Rightarrow> peer_storage \<Rightarrow> peer_storage \<times> nat option" where
  "checkout_loop now cuid 0 s = (s, None)"
| "checkout_loop now cuid (Suc remaining) s =
     (case ps_unusedPeers s of
        [] \<Rightarrow> (s, None)
      | p # rest \<Rightarrow>
          let (s, bad) = isBadPeer now (ip_of s p) (s\<lparr>ps_unusedPeers := rest\<rparr>)
          in if bad then checkout_loop now cuid remaining (onErasingPeer p s)
             else if isIpConnectionFull (ip_of s p) s
             then checkout_loop now cuid remaining (s\<lparr>ps_unusedPeers := ps_unusedPeers s @ [p]\<rparr>)
             else (take_peer now cuid p s, Some p))"

definition checkoutPeer :: "int \<Rightarrow> int \<Rightarrow> peer_storage \<Rightarrow> peer_storage \<times> nat option" where
  "checkoutPeer now cuid s =
     (if \<not> isPeerAvailable s then (s, None) else checkout_loop now cuid (length (ps_unusedPeers s)) s)"

definition addAndCheckoutPeer :: "int \<Rightarrow> int \<Rightarrow> nat \<Rightarrow> peer_storage \<Rightarrow> peer_storage \<times> nat option" where
  "addAndCheckoutPeer now cuid p s =
     (let (s, bad) = isBadPeer now (ip_of s p) s in
      if bad then (s, None)
      else if isPeerAlreadyAdded p s then
        (case List.find (\<lambda>q. addr_of s q = addr_of s p) (ps_unusedPeers s) of
           None \<Rightarrow> (s, None)
         | Some q \<Rightarrow>
             let s = mergePeerDiscoveryFlags (Some p) q s;
                 s = s\<lparr>ps_unusedPeers := p # remove1 q (ps_unusedPeers s)\<rparr>
             in checkoutPeer now cuid s)
      else checkoutPeer now cuid (let s = addUniqPeer p s in s\<lparr>ps_unusedPeers := p # ps_unusedPeers s\<rparr>))"

subsection \<open>Returning\<close>

definition addDroppedPeer :: "nat \<Rightarrow> peer_storage \<Rightarrow> peer_storage" where
  "addDroppedPeer p s =
     (let same = (\<lambda>q. ip_of s q = ip_of s p \<and> pr_port (ps_peers s q) = pr_port (ps_peers s p));
          kept = (case List.find same (ps_droppedPeers s) of None \<Rightarrow> ps_droppedPeers s | Some q \<Rightarrow> remove1 q (ps_droppedPeers s));
          s = s\<lparr>ps_droppedPeers := p # kept\<rparr>
      in if length (ps_droppedPeers s) > 50 then
           let evicted = last (ps_droppedPeers s);
               s = erasePeerStats (ip_of s evicted) (pr_origPort (ps_peers s evicted)) s
           in s\<lparr>ps_droppedPeers := butlast (ps_droppedPeers s)\<rparr>
         else s)"

definition chokeRoundIntervalElapsed :: "int \<Rightarrow> bool \<Rightarrow> peer_storage \<Rightarrow> bool" where
  "chokeRoundIntervalElapsed now finished s \<longleftrightarrow>
     tm_difference (ch_lastRound (if finished then ps_seederStateChoke s else ps_leecherStateChoke s)) now \<ge> 10 * SECOND"

text \<open>A round on the peers in use, written back to the heap.\<close>

definition with_used :: "peer list \<Rightarrow> peer_storage \<Rightarrow> peer_storage" where
  "with_used qs s = s\<lparr>ps_peers := (\<lambda>p. case map_of (zip (ps_usedPeers s) qs) p of None \<Rightarrow> ps_peers s p | Some q \<Rightarrow> q)\<rparr>"

definition ps_executeChoke :: "('h, 'd) session_env \<Rightarrow> bool \<Rightarrow> peer_storage \<Rightarrow> peer_storage option" where
  "ps_executeChoke e finished s =
     (let used = map (ps_peers s) (ps_usedPeers s) in
      if finished
      then map_option (\<lambda>(ch, qs). (with_used qs s)\<lparr>ps_seederStateChoke := ch\<rparr>) (sv_seederRound e (sv_now e) (ps_seederStateChoke s) used)
      else map_option (\<lambda>(ch, qs). (with_used qs s)\<lparr>ps_leecherStateChoke := ch\<rparr>) (sv_leecherRound e (sv_now e) (ps_leecherStateChoke s) used))"

definition onReturningPeer :: "('h, 'd) session_env \<Rightarrow> bool \<Rightarrow> nat \<Rightarrow> peer_storage \<Rightarrow> peer_storage option" where
  "onReturningPeer e finished p s = do {
     let ip = ip_of s p;
     let s = (case ps_ipConnections s ip of
         None \<Rightarrow> s
       | Some n \<Rightarrow> s\<lparr>ps_ipConnections := (if n > 1 then (ps_ipConnections s)(ip \<mapsto> n - 1) else (ps_ipConnections s)(ip := None))\<rparr>);
     s \<leftarrow> (if isActive (ps_peers s p) then do {
         let s = (if pr_disconnectedGracefully (ps_peers s p) \<and> \<not> pr_incoming (ps_peers s p)
           then addDroppedPeer p (at_peer p (\<lambda>q. startDrop (sv_now e) (setFirstContactTime 0 q)) s) else s);
         choking \<leftarrow> peer_amChoking (ps_peers s p);
         interested \<leftarrow> peer_peerInterested (ps_peers s p);
         if \<not> choking \<and> interested then ps_executeChoke e finished s else Some s }
       else Some s);
     Some (at_peer p (peer_usedBy 0) s) }"

definition returnPeer :: "('h, 'd) session_env \<Rightarrow> bool \<Rightarrow> nat \<Rightarrow> peer_storage \<Rightarrow> peer_storage option" where
  "returnPeer e finished p s =
     (if p \<in> set (ps_usedPeers s)
      then map_option (onErasingPeer p) (onReturningPeer e finished p (s\<lparr>ps_usedPeers := remove1 p (ps_usedPeers s)\<rparr>))
      else Some s)"

end
