(* ===== verification/PeerStorageProps.thy ===== *)
theory PeerStorageProps
  imports PeerStorage SessionTypes
begin

text \<open>
  The invariant of the peer storage: nobody is listed twice, the set of known addresses is that of the
  peers listed, and the connections of each address are counted and limited. Every operation keeps it.
\<close>

subsection \<open>The invariant\<close>

definition listed :: "peer_storage \<Rightarrow> nat set" where
  "listed s = set (ps_unusedPeers s) \<union> set (ps_usedPeers s)"

definition used_on :: "peer_storage \<Rightarrow> string \<Rightarrow> nat" where
  "used_on s ip = length (filter (\<lambda>p. fst (addr_of s p) = ip) (ps_usedPeers s))"

definition counted :: "peer_storage \<Rightarrow> bool" where
  "counted s \<longleftrightarrow> (\<forall>ip. ps_ipConnections s ip = (if used_on s ip = 0 then None else Some (used_on s ip)))"

definition ps_inv :: "peer_storage \<Rightarrow> bool" where
  "ps_inv s \<longleftrightarrow> distinct (ps_unusedPeers s @ ps_usedPeers s) \<and> inj_on (addr_of s) (listed s) \<and>
     ps_uniqPeers s = addr_of s ` listed s \<and> counted s \<and> (\<forall>ip. used_on s ip \<le> MAX_CONNECTIONS_PER_IP) \<and>
     length (ps_droppedPeers s) \<le> 50"

text \<open>What it depends on.\<close>

definition same_lists :: "peer_storage \<Rightarrow> peer_storage \<Rightarrow> bool" where
  "same_lists s s' \<longleftrightarrow> addr_of s' = addr_of s \<and> ps_uniqPeers s' = ps_uniqPeers s \<and> ps_unusedPeers s' = ps_unusedPeers s \<and>
     ps_usedPeers s' = ps_usedPeers s \<and> ps_ipConnections s' = ps_ipConnections s \<and> ps_droppedPeers s' = ps_droppedPeers s"

lemma same_lists_refl [simp]: "same_lists s s"
  by (simp add: same_lists_def)

lemma same_lists_inv: "same_lists s s' \<Longrightarrow> ps_inv s' = ps_inv s"
  by (simp add: same_lists_def ps_inv_def counted_def used_on_def listed_def)

lemma addr_simps [simp]:
  "addr_of (s\<lparr>ps_uniqPeers := u\<rparr>) = addr_of s" "addr_of (s\<lparr>ps_unusedPeers := l\<rparr>) = addr_of s"
  "addr_of (s\<lparr>ps_usedPeers := l\<rparr>) = addr_of s" "addr_of (s\<lparr>ps_droppedPeers := l\<rparr>) = addr_of s"
  "addr_of (s\<lparr>ps_badPeers := b\<rparr>) = addr_of s" "addr_of (s\<lparr>ps_ipConnections := c\<rparr>) = addr_of s"
  "addr_of (s\<lparr>ps_attemptStats := m\<rparr>) = addr_of s" "addr_of (s\<lparr>ps_failStats := m\<rparr>) = addr_of s"
  "addr_of (s\<lparr>ps_tcpFailStats := m\<rparr>) = addr_of s" "addr_of (s\<lparr>ps_utpFailStats := m\<rparr>) = addr_of s"
  "addr_of (s\<lparr>ps_lastBadPeerCleaned := t\<rparr>) = addr_of s" "addr_of (s\<lparr>ps_seederStateChoke := c'\<rparr>) = addr_of s"
  "addr_of (s\<lparr>ps_leecherStateChoke := c'\<rparr>) = addr_of s" "addr_of (s\<lparr>ps_maxPeerListSize := n\<rparr>) = addr_of s"
  by (simp_all add: addr_of_def fun_eq_iff)

lemma ip_addr: "ip_of s p = fst (addr_of s p)"
  by (simp add: addr_of_def)

lemma addr_at_peer:
  assumes "\<And>q. pr_ipaddr (f q) = pr_ipaddr q \<and> pr_origPort (f q) = pr_origPort q"
  shows "addr_of (at_peer p f s) = addr_of s"
  using assms by (auto simp: addr_of_def at_peer_def fun_eq_iff)

lemma isBadPeer_same: "same_lists s (fst (isBadPeer now ip s))"
  by (simp add: isBadPeer_def same_lists_def split: option.split)

lemma merge_same: "same_lists s (mergePeerDiscoveryFlags t p s)"
  by (auto simp: mergePeerDiscoveryFlags_def same_lists_def addr_at_peer Let_def at_peer_def addr_of_def fun_eq_iff split: option.split)

lemma erasePeerStats_same: "same_lists s (erasePeerStats ip port s)"
  by (simp add: erasePeerStats_def same_lists_def Let_def)

lemma ban_same:
  "same_lists s (addBadPeer now off r ip reason s)" "same_lists s (addBadPeerManual ip t reason s)"
  "same_lists s (removeBadPeer ip s)" "same_lists s (recordPeerFailure p s)"
  by (simp_all add: addBadPeer_def addBadPeerManual_def removeBadPeer_def recordPeerFailure_def same_lists_def Let_def)

subsection \<open>Lists\<close>

lemma ps_invD:
  assumes "ps_inv s"
  shows "distinct (ps_unusedPeers s @ ps_usedPeers s)" "inj_on (addr_of s) (listed s)" "ps_uniqPeers s = addr_of s ` listed s"
    "counted s" "used_on s ip \<le> MAX_CONNECTIONS_PER_IP" "length (ps_droppedPeers s) \<le> 50"
  using assms by (simp_all add: ps_inv_def)

text \<open>The unused peers change; the known addresses follow.\<close>

lemma unused_inv:
  assumes "ps_inv s" and "distinct (l @ ps_usedPeers s)" and "u = addr_of s ` (set l \<union> set (ps_usedPeers s))"
    and "inj_on (addr_of s) (set l \<union> set (ps_usedPeers s))"
  shows "ps_inv (s\<lparr>ps_unusedPeers := l, ps_uniqPeers := u\<rparr>)" "ps_inv (s\<lparr>ps_uniqPeers := u, ps_unusedPeers := l\<rparr>)"
  using assms by (simp_all add: ps_inv_def counted_def used_on_def listed_def)

lemma new_unused_inv:
  assumes "ps_inv s" and "p \<notin> listed s" and "\<not> isPeerAlreadyAdded p s" and "mset l = add_mset p (mset (ps_unusedPeers s))"
  shows "ps_inv (addUniqPeer p (s\<lparr>ps_unusedPeers := l\<rparr>))"
proof -
  note d = ps_invD [OF assms(1)]
  have l: "set l = insert p (set (ps_unusedPeers s))" using assms(4) by (metis set_mset_add_mset_insert set_mset_mset)
  have "distinct l" using assms(2,4) d(1) by (metis distinct_append distinct.simps(2) listed_def mset.simps(2) mset_eq_imp_distinct_iff UnCI)
  then have dist: "distinct (l @ ps_usedPeers s)" using d(1) assms(2) l by (auto simp: listed_def)
  have new: "addr_of s p \<notin> addr_of s ` listed s" using assms(3) d(3) by (simp add: isPeerAlreadyAdded_def)
  have "addr_of (s\<lparr>ps_unusedPeers := l\<rparr>) p = addr_of s p" by simp
  have set: "set l \<union> set (ps_usedPeers s) = insert p (listed s)" using l by (simp add: listed_def)
  have "ps_inv (s\<lparr>ps_unusedPeers := l, ps_uniqPeers := insert (addr_of s p) (ps_uniqPeers s)\<rparr>)"
    by (rule unused_inv [OF assms(1) dist]) (use d(2,3) new assms(2) in \<open>simp_all add: set\<close>)
  then show ?thesis by (simp add: addUniqPeer_def)
qed

lemma drop_unused_inv:
  assumes "ps_inv s" and "p \<in> set (ps_unusedPeers s)" and "mset (ps_unusedPeers s) = add_mset p (mset l)"
  shows "ps_inv (onErasingPeer p (s\<lparr>ps_unusedPeers := l\<rparr>))"
proof -
  note d = ps_invD [OF assms(1)]
  have dl: "distinct (p # l)" using assms(3) d(1) by (metis distinct_append mset.simps(2) mset_eq_imp_distinct_iff)
  have l: "set (ps_unusedPeers s) = insert p (set l)" using assms(3) by (metis set_mset_add_mset_insert set_mset_mset)
  have set: "listed s = insert p (set l \<union> set (ps_usedPeers s))" "p \<notin> set l \<union> set (ps_usedPeers s)"
    using l dl d(1) by (auto simp: listed_def)
  have dist: "distinct (l @ ps_usedPeers s)" using dl d(1) l by auto
  have "ps_inv (s\<lparr>ps_unusedPeers := l, ps_uniqPeers := ps_uniqPeers s - {addr_of s p}\<rparr>)"
    by (rule unused_inv [OF assms(1) dist]) (use d(2,3) set in \<open>auto simp: inj_on_insert\<close>)
  then show ?thesis by (simp add: onErasingPeer_def)
qed

lemma reorder_unused_inv:
  assumes "ps_inv s" and "mset l = mset (ps_unusedPeers s)"
  shows "ps_inv (s\<lparr>ps_unusedPeers := l\<rparr>)"
proof -
  have "set l = set (ps_unusedPeers s)" "distinct l = distinct (ps_unusedPeers s)"
    using assms(2) by (metis set_mset_mset) (metis assms(2) mset_eq_imp_distinct_iff)
  then show ?thesis using assms(1) by (simp add: ps_inv_def counted_def used_on_def listed_def)
qed

subsection \<open>Adding and deleting\<close>

lemma fst_isBadPeer:
  assumes "isBadPeer now ip s = (s', b)"
  shows "same_lists s s'"
  using isBadPeer_same [of s now ip] assms by simp

lemma same_lists_facts:
  assumes "same_lists s s'"
  shows "listed s' = listed s" "isPeerAlreadyAdded p s' = isPeerAlreadyAdded p s" "addr_of s' = addr_of s"
    "ps_unusedPeers s' = ps_unusedPeers s" "ps_usedPeers s' = ps_usedPeers s" "ps_ipConnections s' = ps_ipConnections s"
    "ip_of s' p = ip_of s p"
proof -
  have a: "addr_of s' = addr_of s" using assms by (simp add: same_lists_def)
  show "ip_of s' p = ip_of s p" unfolding ip_addr a by (rule refl)
  show "listed s' = listed s" "isPeerAlreadyAdded p s' = isPeerAlreadyAdded p s" "addr_of s' = addr_of s"
    "ps_unusedPeers s' = ps_unusedPeers s" "ps_usedPeers s' = ps_usedPeers s" "ps_ipConnections s' = ps_ipConnections s"
    using assms by (simp_all add: same_lists_def listed_def isPeerAlreadyAdded_def)
qed

lemma add_new_peer_inv:
  assumes "ps_inv s" and "p \<notin> listed s"
  shows "ps_inv (fst (add_new_peer now p s))" "listed (fst (add_new_peer now p s)) \<subseteq> insert p (listed s)"
    "addr_of (fst (add_new_peer now p s)) = addr_of s"
proof -
  obtain s1 b where b: "isBadPeer now (ip_of s p) s = (s1, b)" by fastforce
  note same = fst_isBadPeer [OF b]
  note f = same_lists_facts [OF same]
  have inv1: "ps_inv s1" using same_lists_inv [OF same] assms(1) by simp
  have m: "same_lists s (mergePeerDiscoveryFlags (ps_getPeer (addr_of s p) s) p s)" by (rule merge_same)
  let ?s2 = "addUniqPeer p (s1\<lparr>ps_unusedPeers := ps_unusedPeers s1 @ [p]\<rparr>)"
  have new: "ps_inv ?s2" if "\<not> isPeerAlreadyAdded p s"
    by (rule new_unused_inv [OF inv1]) (use f(1,2) that assms(2) in simp_all)
  have l: "listed ?s2 = insert p (listed s1)" by (auto simp: listed_def addUniqPeer_def)
  have a: "addr_of ?s2 = addr_of s" using f(3) by (simp add: addUniqPeer_def)
  show "ps_inv (fst (add_new_peer now p s))" using b new inv1 same_lists_inv [OF m] assms(1) by (simp add: add_new_peer_def)
  show "listed (fst (add_new_peer now p s)) \<subseteq> insert p (listed s)"
    using b l f(1) same_lists_facts(1) [OF m] by (auto simp: add_new_peer_def)
  show "addr_of (fst (add_new_peer now p s)) = addr_of s" using b a f(3) same_lists_facts(3) [OF m] by (simp add: add_new_peer_def)
qed

lemma addPeer_inv:
  assumes "ps_inv s" and "p \<notin> listed s"
  shows "ps_inv (fst (addPeer now p s))"
  using add_new_peer_inv(1) [OF assms] assms(1) by (simp add: addPeer_def)

lemma deleteUnusedPeer_inv: "ps_inv s \<Longrightarrow> ps_inv (deleteUnusedPeer n s)"
proof (induction n arbitrary: s)
  case (Suc n)
  show ?case
  proof (cases "ps_unusedPeers s = []")
    case False
    let ?p = "last (ps_unusedPeers s)" and ?l = "butlast (ps_unusedPeers s)"
    have split: "ps_unusedPeers s = ?l @ [?p]" using False by simp
    have "mset (ps_unusedPeers s) = add_mset ?p (mset ?l)" by (subst split) simp
    then have inv: "ps_inv (onErasingPeer ?p (s\<lparr>ps_unusedPeers := ?l\<rparr>))" using drop_unused_inv [OF Suc.prems] False by simp
    let ?s1 = "erasePeerStats (ip_of s ?p) (pr_origPort (ps_peers s ?p)) (onErasingPeer ?p s)"
    have "same_lists (onErasingPeer ?p (s\<lparr>ps_unusedPeers := ?l\<rparr>)) (?s1\<lparr>ps_unusedPeers := ?l\<rparr>)"
      by (simp add: same_lists_def erasePeerStats_def onErasingPeer_def Let_def)
    then have "ps_inv (?s1\<lparr>ps_unusedPeers := ?l\<rparr>)" using same_lists_inv inv by blast
    moreover have "ps_unusedPeers ?s1 = ps_unusedPeers s" by (simp add: erasePeerStats_def onErasingPeer_def Let_def)
    ultimately show ?thesis using False Suc.IH by (simp add: Let_def)
  qed (use Suc.prems in simp)
qed simp

lemma addPeers_inv:
  assumes "ps_inv s" and "distinct ps" and "set ps \<inter> listed s = {}"
  shows "ps_inv (addPeers now ps s)"
proof -
  have "ps_inv (fold (\<lambda>p s. fst (add_new_peer now p s)) ps s)" using assms
  proof (induction ps arbitrary: s)
    case (Cons p ps)
    have p: "p \<notin> listed s" using Cons.prems(3) by simp
    note a = add_new_peer_inv [OF Cons.prems(1) p, where now = now]
    have "set ps \<inter> listed (fst (add_new_peer now p s)) = {}" using a(2) Cons.prems(2,3) by auto
    then show ?case using Cons.IH [OF a(1)] Cons.prems(2) by simp
  qed simp
  then show ?thesis using assms(1) deleteUnusedPeer_inv by (simp add: addPeers_def Let_def)
qed

subsection \<open>Checking out\<close>

lemma take_peer_inv:
  assumes inv: "ps_inv s" and p: "ps_unusedPeers s = p # rest" and full: "\<not> isIpConnectionFull (ip_of s p) s"
  shows "ps_inv (take_peer now cuid p (s\<lparr>ps_unusedPeers := rest\<rparr>))"
proof -
  note d = ps_invD [OF inv]
  let ?s = "take_peer now cuid p (s\<lparr>ps_unusedPeers := rest\<rparr>)"
  have a: "addr_of (at_peer p (\<lambda>q. peer_usedBy cuid (if pr_firstContactTime q = 0 then setFirstContactTime now q else q)) (s\<lparr>ps_unusedPeers := rest\<rparr>)) = addr_of s"
    by (subst addr_at_peer) (auto simp: peer_usedBy_def setFirstContactTime_def)
  then have addr: "addr_of ?s = addr_of s" by (simp add: take_peer_def Let_def)
  have ip: "pr_ipaddr (ps_peers (at_peer p (\<lambda>q. peer_usedBy cuid (if pr_firstContactTime q = 0 then setFirstContactTime now q else q)) (s\<lparr>ps_unusedPeers := rest\<rparr>)) p) = fst (addr_of s p)"
    unfolding ip_addr a by (rule refl)
  have pn: "p \<notin> set (ps_usedPeers s)" "p \<notin> set rest" using d(1) p by auto
  have used: "ps_usedPeers ?s = insort p (ps_usedPeers s)" "ps_unusedPeers ?s = rest" "ps_uniqPeers ?s = ps_uniqPeers s"
      "ps_droppedPeers ?s = ps_droppedPeers s"
    using pn by (simp_all add: take_peer_def index_insert_def at_peer_def Let_def)
  have con: "ps_ipConnections ?s = (ps_ipConnections s)(fst (addr_of s p) \<mapsto>
      (case ps_ipConnections s (fst (addr_of s p)) of None \<Rightarrow> 0 | Some n \<Rightarrow> n) + 1)"
    using ip by (simp add: take_peer_def Let_def) (simp add: at_peer_def)
  have len: "length (filter Q (insort p us)) = length (filter Q us) + (if Q p then 1 else 0)" for Q us
    by (induction us) auto
  have u: "used_on ?s x = used_on s x + (if x = fst (addr_of s p) then 1 else 0)" for x
    by (simp add: used_on_def addr used(1) len)
  have old: "(case ps_ipConnections s (fst (addr_of s p)) of None \<Rightarrow> 0 | Some n \<Rightarrow> n) = used_on s (fst (addr_of s p))"
    using d(4) by (simp add: counted_def)
  have cnt: "counted ?s" using d(4) old unfolding counted_def u con by (auto simp: fun_upd_def)
  have "used_on s (fst (addr_of s p)) < MAX_CONNECTIONS_PER_IP"
    using full d(4) by (auto simp: isIpConnectionFull_def ip_addr counted_def MAX_CONNECTIONS_PER_IP_def split: if_splits)
  then have cap: "used_on ?s x \<le> MAX_CONNECTIONS_PER_IP" for x using d(5) [of x] by (simp add: u)
  have l: "listed ?s = listed s" using used p by (auto simp: listed_def set_insort_key)
  have "distinct (rest @ insort p (ps_usedPeers s))" using d(1) p pn by (auto simp: distinct_insort set_insort_key)
  then show ?thesis using d(2,3,6) cnt cap l used addr by (simp add: ps_inv_def)
qed

lemma checkout_loop_inv: "ps_inv s \<Longrightarrow> ps_inv (fst (checkout_loop now cuid n s))"
proof (induction n arbitrary: s)
  case (Suc n)
  show ?case
  proof (cases "ps_unusedPeers s")
    case (Cons p rest)
    let ?t = "s\<lparr>ps_unusedPeers := rest\<rparr>"
    have ipt: "ip_of ?t q = ip_of s q" for q by simp
    obtain s1 b where b: "isBadPeer now (ip_of s p) ?t = (s1, b)" by fastforce
    obtain s2 b2 where b2: "isBadPeer now (ip_of s p) s = (s2, b2)" by fastforce
    have s2: "s2 = s1\<lparr>ps_unusedPeers := p # rest\<rparr>" "s1 = s2\<lparr>ps_unusedPeers := rest\<rparr>"
      using b b2 Cons by (auto simp: isBadPeer_def split: option.splits if_splits)
    have inv2: "ps_inv s2" using same_lists_inv [OF fst_isBadPeer [OF b2]] Suc.prems by simp
    have un: "ps_unusedPeers s2 = p # rest" unfolding s2(1) by simp
    have un1: "ps_unusedPeers s1 = rest" unfolding s2(2) by simp
    show ?thesis
    proof (cases b)
      case True
      have "ps_inv (onErasingPeer p s1)" unfolding s2(2)
        by (rule drop_unused_inv [OF inv2]) (simp_all add: un)
      then show ?thesis using Suc.IH Cons b True by simp
    next
      case False
      have full: "isIpConnectionFull (ip_of s1 p) s1 = isIpConnectionFull (ip_of s2 p) s2"
        unfolding s2(1) by (simp add: isIpConnectionFull_def)
      show ?thesis
      proof (cases "isIpConnectionFull (ip_of s1 p) s1")
        case True
        have "ps_inv (s2\<lparr>ps_unusedPeers := rest @ [p]\<rparr>)" by (rule reorder_unused_inv [OF inv2]) (simp add: un)
        moreover have "s2\<lparr>ps_unusedPeers := rest @ [p]\<rparr> = s1\<lparr>ps_unusedPeers := ps_unusedPeers s1 @ [p]\<rparr>"
          using un1 by (simp add: s2(1))
        ultimately show ?thesis using Suc.IH Cons b False True by simp
      next
        case open': False
        have "ps_inv (take_peer now cuid p (s2\<lparr>ps_unusedPeers := rest\<rparr>))"
          by (rule take_peer_inv [OF inv2 un]) (use open' full in simp)
        then show ?thesis using Cons b False open' s2(2) by simp
      qed
    qed
  qed (use Suc.prems in simp)
qed simp

lemma checkoutPeer_inv: "ps_inv s \<Longrightarrow> ps_inv (fst (checkoutPeer now cuid s))"
  using checkout_loop_inv by (simp add: checkoutPeer_def)

lemma find_listed:
  assumes "List.find (\<lambda>q. addr_of s q = a) (ps_unusedPeers s) = Some q"
  shows "q \<in> set (ps_unusedPeers s)" "addr_of s q = a"
  using assms by (auto simp: find_Some_iff)

lemma addAndCheckoutPeer_inv:
  assumes "ps_inv s" and "p \<notin> listed s"
  shows "ps_inv (fst (addAndCheckoutPeer now cuid p s))"
proof -
  obtain s1 b where b: "isBadPeer now (ip_of s p) s = (s1, b)" by fastforce
  note same = fst_isBadPeer [OF b]
  note f = same_lists_facts [OF same]
  have inv1: "ps_inv s1" using same_lists_inv [OF same] assms(1) by simp
  have p1: "p \<notin> listed s1" using f(1) assms(2) by simp
  consider "b" | "\<not> b" "\<not> isPeerAlreadyAdded p s1" | "\<not> b" "isPeerAlreadyAdded p s1" by blast
  then show ?thesis
  proof cases
    case 2
    have "ps_inv (addUniqPeer p (s1\<lparr>ps_unusedPeers := p # ps_unusedPeers s1\<rparr>))" by (rule new_unused_inv [OF inv1 p1 2(2)]) simp
    moreover have "addUniqPeer p (s1\<lparr>ps_unusedPeers := p # ps_unusedPeers s1\<rparr>) =
        (let s = addUniqPeer p s1 in s\<lparr>ps_unusedPeers := p # ps_unusedPeers s\<rparr>)" by (simp add: addUniqPeer_def Let_def)
    ultimately show ?thesis using checkoutPeer_inv 2 b by (simp add: addAndCheckoutPeer_def)
  next
    case 3
    show ?thesis
    proof (cases "List.find (\<lambda>q. addr_of s1 q = addr_of s1 p) (ps_unusedPeers s1)")
      case None
      then show ?thesis using 3 b inv1 by (simp add: addAndCheckoutPeer_def)
    next
      case (Some q)
      note q = find_listed [OF Some]
      note d = ps_invD [OF inv1]
      let ?l = "p # remove1 q (ps_unusedPeers s1)"
      have du: "distinct (ps_unusedPeers s1)" "distinct (ps_usedPeers s1)" using d(1) by auto
      have set: "set ?l = insert p (set (ps_unusedPeers s1) - {q})" using set_remove1_eq [OF du(1)] by simp
      have pn: "p \<notin> set (ps_unusedPeers s1)" "p \<notin> set (ps_usedPeers s1)" using p1 by (auto simp: listed_def)
      have qn: "q \<notin> set (ps_usedPeers s1)" using d(1) q(1) by auto
      have dist: "distinct (?l @ ps_usedPeers s1)"
        using d(1) pn du distinct_remove1 [OF du(1)] set_remove1_subset [of q "ps_unusedPeers s1"] by auto
      have lst: "listed s1 = insert q (listed s1 - {q})" using q(1) by (auto simp: listed_def)
      have L: "set ?l \<union> set (ps_usedPeers s1) = insert p (listed s1 - {q})" using set qn by (auto simp: listed_def)
      have uniq: "ps_uniqPeers s1 = addr_of s1 ` (set ?l \<union> set (ps_usedPeers s1))"
        unfolding L d(3) using q(2) lst by (metis image_insert)
      have inj: "inj_on (addr_of s1) (set ?l \<union> set (ps_usedPeers s1))"
        unfolding L using d(2) q p1 lst by (auto simp: inj_on_def listed_def)
      have inv: "ps_inv (s1\<lparr>ps_unusedPeers := ?l, ps_uniqPeers := ps_uniqPeers s1\<rparr>)"
        by (rule unused_inv(1) [OF inv1 dist uniq inj])
      let ?s2 = "mergePeerDiscoveryFlags (Some p) q s1"
      have m: "same_lists s1 ?s2" by (rule merge_same)
      have "same_lists (s1\<lparr>ps_unusedPeers := ?l, ps_uniqPeers := ps_uniqPeers s1\<rparr>) (?s2\<lparr>ps_unusedPeers := p # remove1 q (ps_unusedPeers ?s2)\<rparr>)"
        using m by (simp add: same_lists_def)
      then have "ps_inv (?s2\<lparr>ps_unusedPeers := p # remove1 q (ps_unusedPeers ?s2)\<rparr>)" using same_lists_inv inv by blast
      then show ?thesis using checkoutPeer_inv 3 b Some by (simp add: addAndCheckoutPeer_def Let_def)
    qed
  qed (use b inv1 in \<open>simp add: addAndCheckoutPeer_def\<close>)
qed

subsection \<open>Returning\<close>

lemma addDroppedPeer_same:
  assumes "length (ps_droppedPeers s) \<le> 50"
  shows "addr_of (addDroppedPeer p s) = addr_of s" "ps_uniqPeers (addDroppedPeer p s) = ps_uniqPeers s"
    "ps_unusedPeers (addDroppedPeer p s) = ps_unusedPeers s" "ps_usedPeers (addDroppedPeer p s) = ps_usedPeers s"
    "ps_ipConnections (addDroppedPeer p s) = ps_ipConnections s" "length (ps_droppedPeers (addDroppedPeer p s)) \<le> 50"
    "pr_res (ps_peers (addDroppedPeer p s) q) = pr_res (ps_peers s q)"
  using assms length_remove1 [of _ "ps_droppedPeers s"]
  by (auto simp: addDroppedPeer_def erasePeerStats_def Let_def split: option.split)

text \<open>Outside the heap, the lists of the storage stay, and in the heap the addresses.\<close>

definition same_but_dropped :: "peer_storage \<Rightarrow> peer_storage \<Rightarrow> bool" where
  "same_but_dropped s s' \<longleftrightarrow> addr_of s' = addr_of s \<and> ps_uniqPeers s' = ps_uniqPeers s \<and> ps_unusedPeers s' = ps_unusedPeers s \<and>
     ps_usedPeers s' = ps_usedPeers s \<and> ps_ipConnections s' = ps_ipConnections s \<and> length (ps_droppedPeers s') \<le> 50"

lemma same_but_dropped_inv: "same_but_dropped s s' \<Longrightarrow> ps_inv s \<Longrightarrow> ps_inv s'"
  by (simp add: same_but_dropped_def ps_inv_def counted_def used_on_def listed_def)

lemma with_used_addr:
  assumes "map peer_frame qs = map peer_frame (map (ps_peers s) (ps_usedPeers s))"
  shows "addr_of (with_used qs s) = addr_of s"
proof
  fix p
  have len: "length qs = length (ps_usedPeers s)" using map_eq_imp_length_eq [OF assms] by simp
  show "addr_of (with_used qs s) p = addr_of s p"
  proof (cases "map_of (zip (ps_usedPeers s) qs) p")
    case None
    then show ?thesis by (simp add: with_used_def addr_of_def)
  next
    case (Some q)
    then have "(p, q) \<in> set (zip (ps_usedPeers s) qs)" by (rule map_of_SomeD)
    then obtain k where k: "k < length qs" "p = ps_usedPeers s ! k" "q = qs ! k" using len by (auto simp: in_set_zip)
    have "map peer_frame qs ! k = map peer_frame (map (ps_peers s) (ps_usedPeers s)) ! k" using assms by simp
    then have "peer_frame q = peer_frame (ps_peers s p)" using k len by simp
    then show ?thesis using Some by (simp add: with_used_def addr_of_def peer_frame_def)
  qed
qed

lemma ps_executeChoke_same:
  assumes "choke_rounds e" and "length (ps_droppedPeers s) \<le> 50"
  shows "\<exists>s'. ps_executeChoke e finished s = Some s' \<and> same_but_dropped s s'"
proof -
  let ?used = "map (ps_peers s) (ps_usedPeers s)"
  have same: "same_but_dropped s ((with_used qs s)\<lparr>ps_seederStateChoke := ch\<rparr>)"
    "same_but_dropped s ((with_used qs s)\<lparr>ps_leecherStateChoke := ch\<rparr>)" if "map peer_frame qs = map peer_frame ?used" for qs ch
    using with_used_addr [OF that] assms(2) by (simp_all add: same_but_dropped_def) (simp_all add: with_used_def)
  show ?thesis
  proof (cases finished)
    case True
    obtain parting shuffle sorting outstanding where alg: "std_algorithms parting shuffle sorting"
        and e: "sv_seederRound e = seeder_executeChoke shuffle sorting outstanding"
      using assms unfolding choke_rounds_def by blast
    obtain ch qs where r: "sv_seederRound e (sv_now e) (ps_seederStateChoke s) ?used = Some (ch, qs)"
      using seeder_returns [OF alg] unfolding e by fastforce
    show ?thesis using True r same(1) [OF seeder_frame [OF r [unfolded e]]] by (simp add: ps_executeChoke_def)
  next
    case False
    obtain parting shuffle sorting where alg: "std_algorithms parting shuffle sorting"
        and e: "sv_leecherRound e = leecher_executeChoke parting shuffle sorting"
      using assms unfolding choke_rounds_def by blast
    obtain ch qs where r: "sv_leecherRound e (sv_now e) (ps_leecherStateChoke s) ?used = Some (ch, qs)"
      using leecher_returns [OF alg] unfolding e by fastforce
    show ?thesis using False r same(2) [OF leecher_frame [OF r [unfolded e]]] by (simp add: ps_executeChoke_def)
  qed
qed

text \<open>The connection counter of the address goes down.\<close>

definition slot_released :: "string \<Rightarrow> peer_storage \<Rightarrow> peer_storage" where
  "slot_released ip s = (case ps_ipConnections s ip of None \<Rightarrow> s
     | Some n \<Rightarrow> s\<lparr>ps_ipConnections := (if n > 1 then (ps_ipConnections s)(ip \<mapsto> n - 1) else (ps_ipConnections s)(ip := None))\<rparr>)"

lemma slot_released_fields [simp]:
  "addr_of (slot_released ip s) = addr_of s" "ps_uniqPeers (slot_released ip s) = ps_uniqPeers s"
  "ps_unusedPeers (slot_released ip s) = ps_unusedPeers s" "ps_usedPeers (slot_released ip s) = ps_usedPeers s"
  "ps_droppedPeers (slot_released ip s) = ps_droppedPeers s" "ps_peers (slot_released ip s) = ps_peers s"
  by (simp_all add: slot_released_def split: option.split)

lemma onReturningPeer_same:
  assumes "choke_rounds e" and "length (ps_droppedPeers s) \<le> 50"
  shows "\<exists>s'. onReturningPeer e finished p s = Some s' \<and> same_but_dropped (slot_released (ip_of s p) s) s'"
proof -
  let ?r = "slot_released (ip_of s p) s"
  let ?f = "\<lambda>q. startDrop (sv_now e) (setFirstContactTime 0 q)"
  have at: "same_but_dropped t (at_peer p g t)" if "length (ps_droppedPeers t) \<le> 50"
      "\<And>q. pr_ipaddr (g q) = pr_ipaddr q \<and> pr_origPort (g q) = pr_origPort q" for t g
    using that addr_at_peer [of g p t] by (simp add: same_but_dropped_def) (simp add: at_peer_def)
  have trans: "same_but_dropped t v" if "same_but_dropped t u" "same_but_dropped u v" for t u v
    using that by (simp add: same_but_dropped_def)
  have short: "length (ps_droppedPeers t) \<le> 50" if "same_but_dropped u t" for t u using that by (simp add: same_but_dropped_def)
  have r: "same_but_dropped ?r ?r" using assms(2) by (simp add: same_but_dropped_def)
  define m where "m = (if isActive (ps_peers ?r p) then do {
         let s = (if pr_disconnectedGracefully (ps_peers ?r p) \<and> \<not> pr_incoming (ps_peers ?r p)
           then addDroppedPeer p (at_peer p ?f ?r) else ?r);
         choking \<leftarrow> peer_amChoking (ps_peers s p);
         interested \<leftarrow> peer_peerInterested (ps_peers s p);
         if \<not> choking \<and> interested then ps_executeChoke e finished s else Some s }
       else Some ?r)"
  have run: "onReturningPeer e finished p s = map_option (at_peer p (peer_usedBy 0)) m"
    unfolding onReturningPeer_def m_def slot_released_def Let_def by (simp add: map_conv_bind_option comp_def)
  have "\<exists>t. m = Some t \<and> same_but_dropped ?r t"
  proof (cases "isActive (ps_peers ?r p)")
    case True
    define t where "t = (if pr_disconnectedGracefully (ps_peers ?r p) \<and> \<not> pr_incoming (ps_peers ?r p)
           then addDroppedPeer p (at_peer p ?f ?r) else ?r)"
    have a: "same_but_dropped ?r (at_peer p ?f ?r)"
      by (rule at [OF short [OF r]]) (simp add: startDrop_def setFirstContactTime_def)
    have t: "same_but_dropped ?r t"
      using a r addDroppedPeer_same [OF short [OF a], of p] by (simp add: t_def same_but_dropped_def)
    have "pr_res (ps_peers (at_peer p ?f ?r) p) = pr_res (ps_peers ?r p)"
      by (simp add: at_peer_def startDrop_def setFirstContactTime_def)
    then have "isActive (ps_peers t p)" using True addDroppedPeer_same(7) [OF short [OF a], of p p]
      by (simp add: t_def isActive_def)
    then obtain b i where bi: "peer_amChoking (ps_peers t p) = Some b" "peer_peerInterested (ps_peers t p) = Some i"
      by (auto simp: isActive_def peer_amChoking_def peer_peerInterested_def ask_res_def)
    obtain u where u: "ps_executeChoke e finished t = Some u" "same_but_dropped t u"
      using ps_executeChoke_same [OF assms(1) short [OF t]] by blast
    have "m = (if \<not> b \<and> i then ps_executeChoke e finished t else Some t)"
      using True bi unfolding m_def t_def [symmetric] Let_def by simp
    then show ?thesis using u t trans by (cases "\<not> b \<and> i") auto
  qed (use r in \<open>simp add: m_def\<close>)
  then obtain t where t: "m = Some t" "same_but_dropped ?r t" by blast
  have "same_but_dropped t (at_peer p (peer_usedBy 0) t)" by (rule at [OF short [OF t(2)]]) (simp add: peer_usedBy_def)
  then show ?thesis using run t trans by auto
qed

lemma returnPeer_inv:
  assumes "ps_inv s" and "choke_rounds e"
  shows "\<exists>s'. returnPeer e finished p s = Some s' \<and> ps_inv s'"
proof (cases "p \<in> set (ps_usedPeers s)")
  case True
  note d = ps_invD [OF assms(1)]
  let ?t = "s\<lparr>ps_usedPeers := remove1 p (ps_usedPeers s)\<rparr>"
  let ?r = "slot_released (ip_of ?t p) ?t"
  obtain s1 where s1: "onReturningPeer e finished p ?t = Some s1" "same_but_dropped ?r s1"
    using onReturningPeer_same [OF assms(2), of ?t] d(6) by auto
  have du: "distinct (ps_usedPeers s)" "set (ps_unusedPeers s) \<inter> set (ps_usedPeers s) = {}" using d(1) by auto
  have set: "set (remove1 p (ps_usedPeers s)) = set (ps_usedPeers s) - {p}" by (rule set_remove1_eq [OF du(1)])
  have ip: "ip_of ?t p = fst (addr_of s p)" by (simp add: addr_of_def)
  have len: "length (filter Q us) = length (filter Q (remove1 p us)) + (if Q p then 1 else 0)" if "p \<in> set us" for Q us
    using that by (induction us) auto
  have u: "used_on s x = used_on ?r x + (if x = fst (addr_of s p) then 1 else 0)" for x
    using len [OF True] by (simp add: used_on_def)
  define ip0 where "ip0 = fst (addr_of s p)"
  define k where "k = used_on ?r ip0"
  have ip': "ip_of s p = ip0" by (simp add: ip0_def addr_of_def)
  have c: "ps_ipConnections s y = (if used_on s y = 0 then None else Some (used_on s y))" for y using d(4) by (simp add: counted_def)
  have "used_on s ip0 = Suc k" using u [of ip0] by (simp add: k_def ip0_def)
  then have con: "ps_ipConnections s ip0 = Some (Suc k)" using c [of ip0] by simp
  have conr: "ps_ipConnections ?r = (if k > 0 then (ps_ipConnections s)(ip0 \<mapsto> k) else (ps_ipConnections s)(ip0 := None))"
    using con ip' by (simp add: slot_released_def)
  have cnt: "counted ?r" unfolding counted_def
  proof
    fix x
    show "ps_ipConnections ?r x = (if used_on ?r x = 0 then None else Some (used_on ?r x))"
    proof (cases "x = ip0")
      case True
      then show ?thesis unfolding conr k_def [symmetric] True by simp
    next
      case False
      then have "used_on ?r x = used_on s x" using u [of x] by (simp add: ip0_def)
      then show ?thesis unfolding conr using c [of x] False by simp
    qed
  qed
  define s' where "s' = onErasingPeer p s1"
  have f: "addr_of s1 = addr_of s" "ps_uniqPeers s1 = ps_uniqPeers s" "ps_unusedPeers s1 = ps_unusedPeers s"
    "ps_usedPeers s1 = remove1 p (ps_usedPeers s)" "ps_ipConnections s1 = ps_ipConnections ?r" "length (ps_droppedPeers s1) \<le> 50"
    using s1(2) by (simp_all add: same_but_dropped_def)
  have l: "listed s' = listed s - {p}" using f set du(2) True by (auto simp: listed_def s'_def onErasingPeer_def)
  have s'f: "addr_of s' = addr_of s" "ps_uniqPeers s' = ps_uniqPeers s - {addr_of s p}" "ps_unusedPeers s' = ps_unusedPeers s"
    "ps_usedPeers s' = remove1 p (ps_usedPeers s)" "ps_ipConnections s' = ps_ipConnections ?r" "length (ps_droppedPeers s') \<le> 50"
    using f by (simp_all add: s'_def onErasingPeer_def)
  have pl: "p \<in> listed s" using True by (simp add: listed_def)
  have uniq: "ps_uniqPeers s' = addr_of s' ` listed s'"
    unfolding s'f(1,2) l d(3) using inj_on_image_set_diff [OF d(2), of "listed s" "{p}"] pl by simp
  have used': "used_on s' x = used_on ?r x" for x by (simp add: used_on_def s'f)
  have "counted s'" using cnt by (simp add: counted_def used' s'f)
  moreover have "used_on s' x \<le> MAX_CONNECTIONS_PER_IP" for x using d(5) [of x] u [of x] by (simp add: used')
  moreover have "distinct (ps_unusedPeers s' @ ps_usedPeers s')" using d(1) set by (auto simp: s'f)
  moreover have "inj_on (addr_of s') (listed s')" unfolding s'f(1) l by (rule inj_on_diff [OF d(2)])
  ultimately have "ps_inv s'" using uniq s'f(6) by (simp add: ps_inv_def)
  then show ?thesis using True s1(1) by (simp add: returnPeer_def s'_def)
qed (use assms(1) in \<open>simp add: returnPeer_def\<close>)

subsection \<open>Whom a checkout takes\<close>

definition banned :: "int \<Rightarrow> peer_storage \<Rightarrow> nat \<Rightarrow> bool" where
  "banned now s p \<longleftrightarrow> (case ps_badPeers s (ip_of s p) of None \<Rightarrow> False | Some b \<Rightarrow> now < be_expireTime b)"

definition full :: "peer_storage \<Rightarrow> nat \<Rightarrow> bool" where
  "full s p \<longleftrightarrow> isIpConnectionFull (ip_of s p) s"

definition eligible :: "int \<Rightarrow> peer_storage \<Rightarrow> nat \<Rightarrow> bool" where
  "eligible now s p \<longleftrightarrow> \<not> banned now s p \<and> \<not> full s p"

text \<open>What decides it does not change while the loop runs.\<close>

definition same_gates :: "int \<Rightarrow> peer_storage \<Rightarrow> peer_storage \<Rightarrow> bool" where
  "same_gates now s s' \<longleftrightarrow> ps_peers s' = ps_peers s \<and> ps_ipConnections s' = ps_ipConnections s \<and>
     ps_usedPeers s' = ps_usedPeers s \<and> banned now s' = banned now s"

lemma isBadPeer_gates:
  assumes "isBadPeer now (ip_of s p) s = (s', b)"
  shows "b = banned now s p" "same_gates now s s'" "ps_unusedPeers s' = ps_unusedPeers s"
  using assms by (auto simp: isBadPeer_def banned_def same_gates_def fun_eq_iff split: option.splits if_splits)

lemma same_gates_simps:
  assumes "same_gates now s s'"
  shows "banned now s' = banned now s" "full s' = full s" "eligible now s' = eligible now s"
  using assms by (auto simp: same_gates_def full_def eligible_def isIpConnectionFull_def fun_eq_iff)

lemma same_gates_unused: "same_gates now s (s\<lparr>ps_unusedPeers := l\<rparr>)"
  "same_gates now s (s\<lparr>ps_uniqPeers := u\<rparr>)" "same_gates now s (onErasingPeer p s)" "same_gates now s (addUniqPeer p s)"
  by (auto simp: same_gates_def banned_def onErasingPeer_def addUniqPeer_def fun_eq_iff)

lemma same_gates_trans: "same_gates now s t \<Longrightarrow> same_gates now t u \<Longrightarrow> same_gates now s u"
  by (simp add: same_gates_def)

lemma checkout_loop_spec:
  assumes "ps_unusedPeers s = xs @ ds" and "checkout_loop now cuid (length xs) s = (s', r)"
  shows "r = List.find (eligible now s) xs \<and>
    (case r of
       None \<Rightarrow> ps_unusedPeers s' = ds @ filter (\<lambda>p. \<not> banned now s p) xs \<and> same_gates now s s'
     | Some p \<Rightarrow> \<exists>before after t. xs = before @ p # after \<and> (\<forall>x\<in>set before. \<not> eligible now s x) \<and> same_gates now s t \<and>
         s' = take_peer now cuid p t \<and> ps_unusedPeers t = after @ ds @ filter (\<lambda>p. \<not> banned now s p) before)"
  using assms
proof (induction xs arbitrary: s ds)
  case (Cons p xs)
  let ?t = "s\<lparr>ps_unusedPeers := xs @ ds\<rparr>"
  obtain s1 b where b: "isBadPeer now (ip_of ?t p) ?t = (s1, b)" by fastforce
  note g = isBadPeer_gates [OF b]
  have gate: "same_gates now s s1" by (rule same_gates_trans [OF same_gates_unused(1) g(2)])
  have bb: "b = banned now s p" using g(1) same_gates_simps(1) [OF same_gates_unused(1) [of now s "xs @ ds"]] by simp
  have un1: "ps_unusedPeers s1 = xs @ ds" using g(3) by simp
  have run: "(if b then checkout_loop now cuid (length xs) (onErasingPeer p s1)
     else if isIpConnectionFull (ip_of s1 p) s1
     then checkout_loop now cuid (length xs) (s1\<lparr>ps_unusedPeers := ps_unusedPeers s1 @ [p]\<rparr>)
     else (take_peer now cuid p s1, Some p)) = (s', r)"
    using Cons.prems b by simp
  have ful: "isIpConnectionFull (ip_of s1 p) s1 = full s p" using same_gates_simps(2) [OF gate] by (simp add: full_def fun_eq_iff)
  have step: ?case if t: "same_gates now s t" "ps_unusedPeers t = xs @ ds'" "checkout_loop now cuid (length xs) t = (s', r)"
      and no: "\<not> eligible now s p" and ds': "ds' = ds @ (if banned now s p then [] else [p])" for t ds'
  proof -
    note eq = same_gates_simps [OF t(1)]
    note ih = Cons.IH [OF t(2,3), unfolded eq]
    show ?case
    proof (cases r)
      case None
      then show ?thesis using ih no ds' same_gates_trans [OF t(1)] by auto
    next
      case (Some q)
      obtain before after u where w: "xs = before @ q # after" "\<forall>x\<in>set before. \<not> eligible now s x" "same_gates now t u"
          "s' = take_peer now cuid q u" "ps_unusedPeers u = after @ ds' @ filter (\<lambda>p. \<not> banned now s p) before"
        using ih Some by auto
      have ex: "\<exists>before after t. p # xs = before @ q # after \<and> (\<forall>x\<in>set before. \<not> eligible now s x) \<and> same_gates now s t \<and>
         s' = take_peer now cuid q t \<and> ps_unusedPeers t = after @ ds @ filter (\<lambda>p. \<not> banned now s p) before"
        by (rule exI [of _ "p # before"], rule exI [of _ after], rule exI [of _ u])
          (use w no ds' same_gates_trans [OF t(1)] in auto)
      have "r = List.find (eligible now s) (p # xs)" using ih no by simp
      then show ?thesis unfolding Some option.case using ex by (rule conjI)
    qed
  qed
  consider "b" | "\<not> b" "full s p" | "\<not> b" "\<not> full s p" by blast
  then show ?case
  proof cases
    case 1
    show ?thesis
      by (rule step [of "onErasingPeer p s1" ds]) (use 1 bb run gate un1 in \<open>auto simp: eligible_def intro: same_gates_trans same_gates_unused simp: onErasingPeer_def\<close>)
  next
    case 2
    show ?thesis
      by (rule step [of "s1\<lparr>ps_unusedPeers := ps_unusedPeers s1 @ [p]\<rparr>" "ds @ [p]"])
        (use 2 bb run gate un1 ful in \<open>auto simp: eligible_def intro: same_gates_trans same_gates_unused\<close>)
  next
    case 3
    then have "s' = take_peer now cuid p s1" "r = Some p" using run ful by auto
    moreover have "eligible now s p" using 3 bb by (simp add: eligible_def)
    moreover have "\<exists>before after t. p # xs = before @ p # after \<and> (\<forall>x\<in>set before. \<not> eligible now s x) \<and> same_gates now s t \<and>
        take_peer now cuid p s1 = take_peer now cuid p t \<and> ps_unusedPeers t = after @ ds @ filter (\<lambda>p. \<not> banned now s p) before"
      by (rule exI [of _ "[]"], rule exI [of _ xs], rule exI [of _ s1]) (use gate un1 in simp)
    ultimately show ?thesis by simp
  qed
qed (auto simp: same_gates_def)

lemma take_peer_fields:
  "ps_unusedPeers (take_peer now cuid p s) = ps_unusedPeers s" "ps_usedPeers (take_peer now cuid p s) = index_insert p (ps_usedPeers s)"
  "pr_cuid (ps_peers (take_peer now cuid p s) p) = cuid" "q \<noteq> p \<Longrightarrow> ps_peers (take_peer now cuid p s) q = ps_peers s q"
  by (simp_all add: take_peer_def at_peer_def peer_usedBy_def Let_def)

end
