(* ===== verification/PeerStorageProperties.thy ===== *)
theory PeerStorageProperties
  imports PeerStorageProps
begin

text \<open>Properties of the storage of peers: its lists in every run, whom a checkout takes, incoming peers.\<close>

subsection \<open>Runs\<close>

datatype ps_event =
    AddPeer int nat
  | AddPeers int "nat list"
  | CheckOut int int
  | Incoming int int nat
  | ReturnPeer int bool nat
  | ChokeRound int bool
  | Ban int "string \<Rightarrow> bool" int string string
  | BanManual string int string
  | Unban string
  | Failed nat
  | SetMax nat

fun ps_exec :: "('h, 'd) session_env \<Rightarrow> ps_event \<Rightarrow> peer_storage \<Rightarrow> peer_storage option" where
  "ps_exec e (AddPeer now p) s = Some (fst (addPeer now p s))"
| "ps_exec e (AddPeers now ps) s = Some (addPeers now ps s)"
| "ps_exec e (CheckOut now cuid) s = Some (fst (checkoutPeer now cuid s))"
| "ps_exec e (Incoming now cuid p) s = Some (fst (addAndCheckoutPeer now cuid p s))"
| "ps_exec e (ReturnPeer now finished p) s = returnPeer (e\<lparr>sv_now := now\<rparr>) finished p s"
| "ps_exec e (ChokeRound now finished) s = ps_executeChoke (e\<lparr>sv_now := now\<rparr>) finished s"
| "ps_exec e (Ban now off rand ip reason) s = Some (addBadPeer now off rand ip reason s)"
| "ps_exec e (BanManual ip t reason) s = Some (addBadPeerManual ip t reason s)"
| "ps_exec e (Unban ip) s = Some (removeBadPeer ip s)"
| "ps_exec e (Failed p) s = Some (recordPeerFailure p s)"
| "ps_exec e (SetMax n) s = Some (setMaxPeerListSize n s)"

text \<open>A peer that is added is a new object; its address may be known.\<close>

fun ps_legal :: "ps_event \<Rightarrow> peer_storage \<Rightarrow> bool" where
  "ps_legal (AddPeer now p) s = (p \<notin> listed s)"
| "ps_legal (AddPeers now ps) s = (distinct ps \<and> set ps \<inter> listed s = {})"
| "ps_legal (Incoming now cuid p) s = (p \<notin> listed s)"
| "ps_legal _ s = True"

inductive ps_reach :: "('h, 'd) session_env \<Rightarrow> peer_storage \<Rightarrow> bool" for e where
  start: "ps_reach e (ps_new now heap)"
| step: "ps_reach e s \<Longrightarrow> ps_legal ev s \<Longrightarrow> ps_exec e ev s = Some s' \<Longrightarrow> ps_reach e s'"

inductive_cases ps_reachE: "ps_reach e s"

lemma ps_new_inv: "ps_inv (ps_new now heap)"
  by (simp add: ps_inv_def ps_new_def listed_def counted_def used_on_def)

lemma ps_exec_inv:
  assumes "choke_rounds e" and "ps_inv s" and "ps_legal ev s"
  shows "\<exists>s'. ps_exec e ev s = Some s' \<and> ps_inv s'"
proof -
  have rounds: "choke_rounds (e\<lparr>sv_now := now\<rparr>)" for now using assms(1) by (simp add: choke_rounds_def)
  have same: "ps_inv s'" if "same_lists s s'" for s' using same_lists_inv [OF that] assms(2) by simp
  show ?thesis
  proof (cases ev)
    case (AddPeer now p)
    then show ?thesis using addPeer_inv [OF assms(2)] assms(3) by simp
  next
    case (AddPeers now ps)
    then show ?thesis using addPeers_inv [OF assms(2)] assms(3) by simp
  next
    case (CheckOut now cuid)
    then show ?thesis using checkoutPeer_inv [OF assms(2)] by simp
  next
    case (Incoming now cuid p)
    then show ?thesis using addAndCheckoutPeer_inv [OF assms(2)] assms(3) by simp
  next
    case (ReturnPeer now finished p)
    then show ?thesis using returnPeer_inv [OF assms(2) rounds] by simp
  next
    case (ChokeRound now finished)
    obtain s' where "ps_executeChoke (e\<lparr>sv_now := now\<rparr>) finished s = Some s'" "same_but_dropped s s'"
      using ps_executeChoke_same [OF rounds ps_invD(6) [OF assms(2)]] by blast
    then show ?thesis using ChokeRound same_but_dropped_inv [OF _ assms(2)] by simp
  next
    case (SetMax n)
    have "same_lists s (setMaxPeerListSize n s)" by (simp add: same_lists_def setMaxPeerListSize_def)
    then show ?thesis using same SetMax by simp
  qed (use same ban_same in auto)
qed

lemma ps_reach_inv:
  assumes "choke_rounds e" and "ps_reach e s"
  shows "ps_inv s"
  using assms(2)
proof (induction rule: ps_reach.induct)
  case (step s ev s')
  show ?case using ps_exec_inv [OF assms(1) step.IH step.hyps(2)] step.hyps(3) by auto
qed (rule ps_new_inv)

subsection \<open>Checking out\<close>

lemma checkoutPeer_spec:
  assumes "checkoutPeer now cuid s = (s', r)"
  shows "r = List.find (eligible now s) (ps_unusedPeers s) \<and>
    (case r of
       None \<Rightarrow> ps_unusedPeers s' = filter (\<lambda>p. \<not> banned now s p) (ps_unusedPeers s) \<and> ps_usedPeers s' = ps_usedPeers s
     | Some p \<Rightarrow> \<exists>before after. ps_unusedPeers s = before @ p # after \<and>
         ps_unusedPeers s' = after @ filter (\<lambda>p. \<not> banned now s p) before \<and>
         ps_usedPeers s' = index_insert p (ps_usedPeers s) \<and> pr_cuid (ps_peers s' p) = cuid)"
proof (cases "ps_unusedPeers s = []")
  case False
  then have "checkout_loop now cuid (length (ps_unusedPeers s)) s = (s', r)"
    using assms by (simp add: checkoutPeer_def isPeerAvailable_def)
  note l = checkout_loop_spec [of s "ps_unusedPeers s" "[]", OF _ this]
  show ?thesis
  proof (cases r)
    case None
    show ?thesis using l unfolding None option.case by (simp add: same_gates_def)
  next
    case (Some p)
    obtain before after t where w: "ps_unusedPeers s = before @ p # after" "same_gates now s t" "s' = take_peer now cuid p t"
        "ps_unusedPeers t = after @ filter (\<lambda>p. \<not> banned now s p) before"
      using l unfolding Some by auto
    have "ps_unusedPeers s' = after @ filter (\<lambda>p. \<not> banned now s p) before"
      "ps_usedPeers s' = index_insert p (ps_usedPeers s)" "pr_cuid (ps_peers s' p) = cuid"
      using w(2,4) unfolding w(3) by (simp_all add: take_peer_fields same_gates_def)
    moreover have "r = List.find (eligible now s) (ps_unusedPeers s)" using l by simp
    ultimately show ?thesis unfolding Some option.case using w(1) by blast
  qed
qed (use assms in \<open>simp add: checkoutPeer_def isPeerAvailable_def\<close>)

subsection \<open>A small storage: three peers of one address in use\<close>

definition small_heap :: "nat \<Rightarrow> peer" where
  "small_heap p = peer_new 0 (if p < 4 then ''10.0.0.1'' else ''10.0.0.2'') (6881 + p) False"

definition crowded :: "nat list \<Rightarrow> peer_storage" where
  "crowded waiting = (ps_new 0 small_heap)\<lparr>ps_unusedPeers := waiting, ps_usedPeers := [1, 2, 3],
     ps_uniqPeers := addr_of (ps_new 0 small_heap) ` (set waiting \<union> {1, 2, 3}), ps_ipConnections := [''10.0.0.1'' \<mapsto> 3]\<rparr>"

lemma crowded_lists [simp]: "ps_unusedPeers (crowded w) = w" "ps_usedPeers (crowded w) = [1, 2, 3]"
  by (simp_all add: crowded_def)

lemma crowded_gates: "\<not> banned now (crowded w) p" "full (crowded w) p \<longleftrightarrow> p < 4"
  by (simp_all add: crowded_def banned_def full_def isIpConnectionFull_def ps_new_def small_heap_def peer_new_def MAX_CONNECTIONS_PER_IP_def)

lemma crowded_added: "isPeerAlreadyAdded p (crowded w) \<longleftrightarrow> p \<in> set w \<union> {1, 2, 3}"
  by (auto simp: isPeerAlreadyAdded_def crowded_def addr_of_def ps_new_def small_heap_def peer_new_def split: if_splits)

definition two_peers :: peer_storage where
  "two_peers = addPeers 1 [1, 2] (ps_new 0 small_heap)"

lemma two_peers_reach: "ps_reach tiny_env (fst (checkoutPeer 2 7 two_peers))"
proof -
  have "ps_reach tiny_env two_peers" unfolding two_peers_def
    by (rule ps_reach.step [where ev = "AddPeers 1 [1, 2]", OF ps_reach.start]) (simp_all add: listed_def ps_new_def)
  from ps_reach.step [where ev = "CheckOut 2 7", OF this] show ?thesis by simp
qed

lemma two_peers_lists:
  "ps_unusedPeers (fst (checkoutPeer 2 7 two_peers)) = [2]" "ps_usedPeers (fst (checkoutPeer 2 7 two_peers)) = [1]"
proof -
  have t: "ps_unusedPeers two_peers = [1, 2]" "ps_usedPeers two_peers = []" "ps_badPeers two_peers = (\<lambda>_. None)"
      "ps_ipConnections two_peers = (\<lambda>_. None)"
    by (simp_all add: two_peers_def addPeers_def ps_new_def add_new_peer_def isPeerAlreadyAdded_def addr_of_def
        isBadPeer_def addUniqPeer_def small_heap_def peer_new_def MAX_PEER_LIST_SIZE_def)
  obtain s' r where run: "checkoutPeer 2 7 two_peers = (s', r)" by fastforce
  have "List.find (eligible 2 two_peers) [1, 2] = Some 1"
    using t by (simp add: eligible_def banned_def full_def isIpConnectionFull_def)
  then have "ps_unusedPeers s' = [2] \<and> ps_usedPeers s' = [1]"
    using checkoutPeer_spec [OF run] t by (auto simp: Cons_eq_append_conv index_insert_def)
  then show "ps_unusedPeers (fst (checkoutPeer 2 7 two_peers)) = [2]" "ps_usedPeers (fst (checkoutPeer 2 7 two_peers)) = [1]"
    using run by simp_all
qed

subsection \<open>The properties\<close>

text \<open>C24: the lists. Whatever is added, checked out, returned, banned or choked, in any order: no peer is
  listed twice and no two listed peers share an address and port, the set of known addresses is that of
  the listed peers, so that the assertion of the destructor holds, no address has more than three
  connections, at most fifty peers are remembered as dropped, and no operation fails.\<close>

theorem peer_lists_sound:
  assumes "choke_rounds e" and "ps_reach e s"
  shows "distinct (ps_unusedPeers s @ ps_usedPeers s) \<and> inj_on (addr_of s) (listed s) \<and>
    ps_uniqPeers s = addr_of s ` listed s \<and> card (ps_uniqPeers s) = countAllPeer s \<and>
    (\<forall>ip. length (filter (\<lambda>p. ip_of s p = ip) (ps_usedPeers s)) \<le> 3) \<and> length (ps_droppedPeers s) \<le> 50 \<and>
    (\<forall>ev. ps_legal ev s \<longrightarrow> (\<exists>s'. ps_exec e ev s = Some s' \<and> ps_reach e s'))"
proof -
  note d = ps_invD [OF ps_reach_inv [OF assms]]
  have "card (ps_uniqPeers s) = card (listed s)" unfolding d(3) by (rule card_image [OF d(2)])
  also have "listed s = set (ps_unusedPeers s @ ps_usedPeers s)" by (simp add: listed_def)
  also have "card \<dots> = countAllPeer s" unfolding distinct_card [OF d(1)] by (simp add: countAllPeer_def)
  finally have card: "card (ps_uniqPeers s) = countAllPeer s" .
  have cap: "length (filter (\<lambda>p. ip_of s p = ip) (ps_usedPeers s)) \<le> 3" for ip
    using d(5) [of ip] by (simp add: used_on_def addr_of_def MAX_CONNECTIONS_PER_IP_def)
  have "\<exists>s'. ps_exec e ev s = Some s' \<and> ps_reach e s'" if "ps_legal ev s" for ev
    using ps_exec_inv [OF assms(1) ps_reach_inv [OF assms] that] ps_reach.step [OF assms(2) that] by blast
  then show ?thesis using d(1-3,6) card cap by blast
qed

lemma peer_lists_sound_witness:
  "card (ps_uniqPeers (fst (checkoutPeer 2 7 two_peers))) = 2 \<and>
    ps_uniqPeers (fst (checkoutPeer 2 7 two_peers)) = addr_of (fst (checkoutPeer 2 7 two_peers)) ` {1, 2}"
proof -
  have "countAllPeer (fst (checkoutPeer 2 7 two_peers)) = 2" "listed (fst (checkoutPeer 2 7 two_peers)) = {1, 2}"
    using two_peers_lists by (auto simp: countAllPeer_def listed_def)
  then show ?thesis using peer_lists_sound [OF tiny_rounds two_peers_reach] by metis
qed

text \<open>C25: a checkout takes the first unused peer whose address is neither banned nor at its limit, and
  none only if there is none. Banned peers that were looked at are forgotten; those at the limit go to
  the end in their order; the others keep their place.\<close>

theorem checkout_takes_first_eligible:
  assumes "checkoutPeer now cuid s = (s', r)"
  shows "r = List.find (eligible now s) (ps_unusedPeers s) \<and>
    (case r of
       None \<Rightarrow> ps_unusedPeers s' = filter (\<lambda>p. \<not> banned now s p) (ps_unusedPeers s) \<and> ps_usedPeers s' = ps_usedPeers s
     | Some p \<Rightarrow> \<exists>before after. ps_unusedPeers s = before @ p # after \<and>
         ps_unusedPeers s' = after @ filter (\<lambda>p. \<not> banned now s p) before \<and>
         ps_usedPeers s' = index_insert p (ps_usedPeers s) \<and> pr_cuid (ps_peers s' p) = cuid)"
  by (rule checkoutPeer_spec [OF assms])

lemma checkout_takes_first_eligible_witness:
  "\<exists>s'. checkoutPeer 5 9 (crowded [0, 4, 5]) = (s', Some 4) \<and> ps_unusedPeers s' = [5, 0] \<and> ps_usedPeers s' = [1, 2, 3, 4]"
proof -
  obtain s' r where run: "checkoutPeer 5 9 (crowded [0, 4, 5]) = (s', r)" by fastforce
  have f: "List.find (eligible 5 (crowded [0, 4, 5])) [0, 4, 5] = Some 4" by (simp add: eligible_def crowded_gates)
  note c = checkout_takes_first_eligible [OF run, unfolded crowded_lists f]
  have r: "r = Some 4" using c by simp
  obtain before after where w: "[0, 4, 5] = before @ 4 # after"
      "ps_unusedPeers s' = after @ filter (\<lambda>p. \<not> banned 5 (crowded [0, 4, 5]) p) before" "ps_usedPeers s' = index_insert 4 [1, 2, 3]"
    using c unfolding r by auto
  have "before = [0]" "after = [5]" using w(1) by (auto simp: Cons_eq_append_conv)
  then show ?thesis using run r w(2,3) by (simp add: index_insert_def crowded_gates)
qed

text \<open>C26: an incoming peer can be swapped for another. If its address is at its limit of connections and
  an unused peer may be checked out, \<open>addAndCheckoutPeer\<close> hands out that one instead: the incoming
  peer waits among the unused ones, and the other is in use although nobody connects to it, because the
  caller only tests the result for null and goes on with the incoming peer.\<close>

theorem incoming_peer_swapped:
  assumes "p \<notin> listed s" and "\<not> isPeerAlreadyAdded p s" and "\<not> banned now s p" and "full s p"
    and "List.find (eligible now s) (ps_unusedPeers s) = Some q"
    and "addAndCheckoutPeer now cuid p s = (s', r)"
  shows "r = Some q \<and> q \<noteq> p \<and> q \<in> set (ps_usedPeers s') \<and> pr_cuid (ps_peers s' q) = cuid \<and>
    p \<in> set (ps_unusedPeers s') \<and> p \<notin> set (ps_usedPeers s')"
proof -
  obtain s1 b where b: "isBadPeer now (ip_of s p) s = (s1, b)" by fastforce
  note g = isBadPeer_gates [OF b]
  have nb: "\<not> b" using g(1) assms(3) by simp
  have new: "\<not> isPeerAlreadyAdded p s1" using same_lists_facts(2) [OF fst_isBadPeer [OF b]] assms(2) by simp
  let ?t = "(addUniqPeer p s1)\<lparr>ps_unusedPeers := p # ps_unusedPeers s1\<rparr>"
  have un: "ps_unusedPeers (addUniqPeer p s1) = ps_unusedPeers s1" by (simp add: addUniqPeer_def)
  have run: "checkoutPeer now cuid ?t = (s', r)"
    using assms(6) b nb new un by (simp add: addAndCheckoutPeer_def Let_def)
  have gate: "same_gates now s ?t"
    by (rule same_gates_trans [OF g(2)], rule same_gates_trans, rule same_gates_unused(4), rule same_gates_unused(1))
  note eq = same_gates_simps [OF gate]
  have lists: "ps_unusedPeers ?t = p # ps_unusedPeers s" "ps_usedPeers ?t = ps_usedPeers s"
    using g(3) gate by (simp_all add: same_gates_def)
  have np: "\<not> eligible now s p" using assms(4) by (simp add: eligible_def)
  have c: "r = Some q" using checkoutPeer_spec [OF run] lists eq np assms(5) by simp
  have "\<exists>before after. p # ps_unusedPeers s = before @ q # after \<and>
      ps_unusedPeers s' = after @ filter (\<lambda>p. \<not> banned now s p) before \<and>
      ps_usedPeers s' = index_insert q (ps_usedPeers s) \<and> pr_cuid (ps_peers s' q) = cuid"
    using checkoutPeer_spec [OF run] unfolding c option.case lists eq by (rule conjunct2)
  then obtain before after where w: "p # ps_unusedPeers s = before @ q # after"
      "ps_unusedPeers s' = after @ filter (\<lambda>p. \<not> banned now s p) before"
      "ps_usedPeers s' = index_insert q (ps_usedPeers s)" "pr_cuid (ps_peers s' q) = cuid" by blast
  have "eligible now s q" using assms(5) by (metis find_Some_iff)
  then have qp: "q \<noteq> p" using np by auto
  then have "p \<in> set before" using w(1) by (cases before) auto
  then have "p \<in> set (ps_unusedPeers s')" using w(2) assms(3) by simp
  moreover have "p \<notin> set (ps_usedPeers s)" using assms(1) by (simp add: listed_def)
  ultimately show ?thesis using c qp w(3,4) by (simp add: index_insert_def set_insort_key)
qed

lemma incoming_peer_swapped_witness:
  "\<exists>s'. addAndCheckoutPeer 5 9 0 (crowded [4]) = (s', Some 4) \<and> 4 \<in> set (ps_usedPeers s') \<and> 0 \<notin> set (ps_usedPeers s')"
proof -
  obtain s' r where run: "addAndCheckoutPeer 5 9 0 (crowded [4]) = (s', r)" by fastforce
  have facts: "0 \<notin> listed (crowded [4])" "\<not> isPeerAlreadyAdded 0 (crowded [4])" "\<not> banned 5 (crowded [4]) 0" "full (crowded [4]) 0"
      "List.find (eligible 5 (crowded [4])) (ps_unusedPeers (crowded [4])) = Some 4"
    by (simp_all add: eligible_def crowded_gates crowded_added listed_def)
  show ?thesis using incoming_peer_swapped [OF facts run] run by blast
qed

end
