(* ===== verification/Spec2Isabelle.thy ===== *)
theory Spec2Isabelle
  imports BlockMapProperties DiskProperties StreamSelector StorageProperties ChokeProperties WireProperties FetchProperties
    SessionProperties PeerStorageProperties
begin

text \<open>
  \<^bold>\<open>FluxCore: the core of the downloads.\<close> FluxCore is a download program derived from aria2. This library
  models the part of it that decides what is fetched, from whom and where it is put: the code under
  \<open>src/src\<close> between the sockets of the peers and the files on disk. File names below are those of that
  directory.

  \<^bold>\<open>How the parts interact.\<close> A download is an array of bytes cut into pieces, a piece into blocks of
  16 KiB. \<open>BitfieldMan\<close> keeps which blocks of a piece, and which pieces of a download, are there, in
  use and wanted. \<open>DefaultPieceStorage\<close> hands out pieces to peers and to HTTP streams, takes them
  back, counts progress and tells connections of new pieces; it chooses by the selectors and holds the
  write cache entries of the pieces in use. A \<open>Piece\<close> keeps its blocks, its users and its running hash,
  and puts data through the write cache on the disk adaptor, which spreads it over the files. A
  connection reads messages from \<open>PeerConnection\<close>, which cuts the stream into frames; the factory
  decodes and validates them, and \<open>doReceivedAction\<close> of each message acts on the peer, the request
  slots, the target pieces and the storage. \<open>DefaultBtInteractive\<close> runs the connection: it receives,
  decides on choking and interest, announces pieces and asks for blocks. The choke classes decide who
  may download from us. \<open>DefaultPeerStorage\<close> hands peers out to connections, takes them back and
  runs the choke rounds.

  \<^bold>\<open>Which theory models what.\<close>

  \<^item> \<open>FluxPrelude\<close>: bytes, the arithmetic of \<open>size_t\<close> and \<open>int32_t\<close>, failure as \<open>None\<close>, collections of
    rules.
  \<^item> \<open>Bitfield\<close> (bitfield.h, bitfield.cc), \<open>BitfieldMan\<close>, \<open>BitfieldSearch\<close> (BitfieldMan.cc);
    \<open>StreamSelector\<close> (the four stream piece selectors). \<open>BlockMap\<close> is the abstract specification, sets
    of blocks, that the class refines. Lemmas in \<open>BitfieldProps\<close> and \<open>BitfieldSearchProps\<close>.
  \<^item> \<open>DiskAdaptor\<close> (AbstractSingleDiskAdaptor.cc, ByteArrayDiskWriter.cc), \<open>MultiDisk\<close>
    (MultiDiskAdaptor.cc), \<open>WrDiskCache\<close> (WrDiskCache.cc, WrDiskCacheEntry.cc), \<open>Piece\<close> (Piece.cc). The
    abstract state of a download laid out over files is one flat array of bytes. \<open>PieceCache\<close> runs all
    pieces over their shared cache as a state machine.
  \<^item> \<open>PieceSelector\<close> (PieceStatMan.cc and the piece selectors), \<open>PieceStorage\<close> (DefaultPieceStorage.cc);
    \<open>PieceStorageRun\<close> and \<open>StorageMachine\<close> are its state machine, \<open>StorageFlush\<close> and \<open>StorageProgress\<close>
    what a flush leaves on disk and how lengths and announcements are counted.
  \<^item> \<open>NetStat\<close> (SpeedCalc.cc, NetStat.cc, TransferStat.cc), \<open>Peer\<close> (Peer.cc, PeerSessionResource.cc,
    ExtensionMessageRegistry.cc), \<open>Choke\<close> (BtLeecherStateChoke.cc, BtSeederStateChoke.cc).
  \<^item> \<open>WireFormat\<close> (the message classes, their validators, bittorrent\_helper.cc), \<open>PeerConnection\<close>
    (PeerConnection.cc, receiving).
  \<^item> \<open>Dispatcher\<close> (DefaultBtMessageDispatcher.cc, RequestSlot.h), \<open>RequestFactory\<close>
    (DefaultBtRequestFactory.cc); \<open>FetchMachine\<close> and \<open>FetchRun\<close> run any number of connections of one
    download over the pieces they share.
  \<^item> \<open>Received\<close> (\<open>doReceivedAction\<close> of the message classes), \<open>Interactive\<close> (DefaultBtInteractive.cc);
    \<open>SessionTypes\<close>, \<open>SessionProps\<close> and \<open>SessionBlocks\<close> hold their invariant and lemmas.
  \<^item> \<open>PeerStorage\<close> (DefaultPeerStorage.cc), with its invariant in \<open>PeerStorageProps\<close>. Peers are there
    numbers into a heap, since their identity matters, and in \<open>Received\<close> positions in a list.

  A class is a record with one field per member that matters; a method is a function from the state to
  the new state and its result; pointers to shared objects are indexes into lists or maps (pieces and
  write cache entries by number, peers by position). A thrown exception is a value, with the state at
  that point; a failed assertion, a null pointer or an index past the end is \<open>None\<close>, so that a property
  that an operation is \<open>Some\<close> says that none of these can happen.

  \<^bold>\<open>What the lemmas show.\<close> The theories whose names end in \<open>Properties\<close> hold the results, each with
  a concrete run that meets its hypotheses. \<open>BlockMapProperties\<close>: bit counting, the refinement of the
  block map, its counters, termination and meaning of the searches. \<open>DiskProperties\<close>: writes, reads and
  flushes act on the flat array; the write cache is transparent and keeps its limit; digests cover cache
  and disk together. \<open>StorageProperties\<close>: which pieces are handed out, the invariant of all runs,
  progress, resuming, announcements, flushes. \<open>ChokeProperties\<close>: who is unchoked, and when the
  optimistic unchoke is lost. \<open>WireProperties\<close>: the codec, the validators, framing however the stream
  is cut, and two lengths that the framing does not survive. \<open>FetchProperties\<close>: the accounts of the
  blocks over all connections, progress, the end game and the upload queue. \<open>SessionProperties\<close>: what
  received messages keep and change, flooding, the entry into the end game. \<open>PeerStorageProperties\<close>:
  the lists of peers in every run, whom a checkout takes, and the incoming peer that is swapped for
  another. The interfaces are locales
  (selectors, files, writers, cached disks, owners of pieces, the standard algorithms) interpreted on
  the model's own definitions.

  \<^bold>\<open>Bounds and fuel.\<close> Where \<open>size_t\<close>, \<open>int32_t\<close>, \<open>int64_t\<close> or \<open>uint32_t\<close> may wrap or lose sign the
  conversion is written out (\<open>usub\<close>, \<open>size_of_int\<close>, \<open>int32_of\<close>, \<open>int64_of\<close>); bytes are words. The
  invariant of the bitfields asks for lengths that fit their types. The geometric search carries fuel;
  any fuel above twice the number of blocks is enough, as its property shows. The loop over received
  messages runs over the list of messages that arrive.

  \<^bold>\<open>Parameters.\<close> Message digests, reads of the disk, the numbers of new cache entries, shuffles,
  partition and sort of the standard library, the rounding of doubles in the geometric search, the
  transport with its decryption, extension messages and the clock are arguments, with the laws that are
  used as hypotheses.

  \<^bold>\<open>Not modelled.\<close> Sockets, TLS, the event loop and its commands, HTTP, FTP, SFTP and ed2k, the
  distributed hash table, uTP, trackers and local discovery, encrypted handshakes, the remote interface
  and the options: they are I/O, or protocols of their own, and act on downloads through the operations
  modelled here. Torrent, magnet and metalink parsing, peer exchange and metadata messages need the
  bencode parser. The choice of mirrors and the newest speed of the statistics compute in floating
  point. \<open>initStorage\<close> of the piece storage only builds objects
  from options. Of the connection the handshake phase, the mode that fetches the torrent file, DHT
  ports, peer exchange and allowed-fast sets are left out; of the handlers the bans they pronounce and the
  hooks of the download context for the last piece; of the peer storage the file of bans.
\<close>

end
